(* ===== verification/Prelude.thy ===== *)
theory Prelude
  imports Main "HOL-Library.Word" "HOL-Library.AList"
begin

text \<open>
  Shared vocabulary of the development.

  \<^item> bytes are \<^verbatim>\<open>8 word\<close> lists (Rust's \<^verbatim>\<open>Vec<u8>\<close> and \<^verbatim>\<open>&[u8]\<close>), a digest is a byte
    string;
  \<^item> a \<^verbatim>\<open>u64\<close> is a natural number; the checked operations of the source
    (\<^verbatim>\<open>checked_mul\<close>, \<^verbatim>\<open>checked_pow\<close>, \<^verbatim>\<open>checked_add\<close>) give \<^verbatim>\<open>None\<close> at the limit
    \<open>2 ^ 64\<close>, an addition the source leaves unchecked wraps there as a release build does
    (\<open>wrapping_add\<close>), and the sentinel \<^verbatim>\<open>u64::MAX\<close> is \<open>u64_max\<close>;
  \<^item> an operation that returns \<^verbatim>\<open>Result<T, E>\<close> is a value of \<open>'e + 'a\<close>, with \<open>Inl\<close> the
    error; \<open>bindE\<close> is the question-mark operator and \<open>mapE\<close> the collecting loop
    that stops at the first error;
  \<^item> the list helpers are the iterator operations the crates use.
\<close>

type_synonym u8 = "8 word"
type_synonym bytes = "u8 list"
type_synonym digest = bytes
type_synonym u64 = nat
type_synonym u32 = nat
type_synonym alg_id = nat
type_synonym coord = "nat \<times> nat"
type_synonym epochs = "(nat \<times> nat) list"

named_theorems path_simps \<open>facts about rebuilding a node from a proof step\<close>
named_theorems frontier_simps \<open>facts about frontier coordinates and heights\<close>

section \<open>Machine integers\<close>

definition u64_limit :: nat where
  "u64_limit = 2 ^ 64"

definition u64_max :: nat where
  "u64_max = 2 ^ 64 - 1"

definition checked_mul :: "u64 \<Rightarrow> u64 \<Rightarrow> u64 option" where
  "checked_mul a b = (if a * b < u64_limit then Some (a * b) else None)"

definition checked_add :: "u64 \<Rightarrow> u64 \<Rightarrow> u64 option" where
  "checked_add a b = (if a + b < u64_limit then Some (a + b) else None)"

definition checked_pow :: "u64 \<Rightarrow> u32 \<Rightarrow> u64 option" where
  "checked_pow k h = (if k ^ h < u64_limit then Some (k ^ h) else None)"

definition wrapping_add :: "u64 \<Rightarrow> u64 \<Rightarrow> u64" where
  "wrapping_add a b = (a + b) mod 2 ^ 64"

lemma u64_max_less_limit [simp]: "u64_max < u64_limit"
  by (simp add: u64_max_def u64_limit_def)

lemma le_u64_max_iff: "n \<le> u64_max \<longleftrightarrow> n < u64_limit"
  by (auto simp: u64_max_def u64_limit_def)

lemma wrapping_add_eq: "a + b < u64_limit \<Longrightarrow> wrapping_add a b = a + b"
  by (simp add: wrapping_add_def u64_limit_def)

lemma wrapping_add_Suc: "Suc n < u64_max \<Longrightarrow> wrapping_add n (Suc 0) = Suc n"
  using u64_max_less_limit by (simp add: wrapping_add_eq less_trans [of "Suc n" u64_max])

lemma checked_pow_eq: "k ^ h < u64_limit \<Longrightarrow> checked_pow k h = Some (k ^ h)"
  by (simp add: checked_pow_def)

lemma checked_add_eq: "a + b < u64_limit \<Longrightarrow> checked_add a b = Some (a + b)"
  by (simp add: checked_add_def)

section \<open>Results\<close>

definition bindE :: "'e + 'a \<Rightarrow> ('a \<Rightarrow> 'e + 'b) \<Rightarrow> 'e + 'b" where
  "bindE m f = (case m of Inl e \<Rightarrow> Inl e | Inr a \<Rightarrow> f a)"

fun mapE :: "('a \<Rightarrow> 'e + 'b) \<Rightarrow> 'a list \<Rightarrow> 'e + 'b list" where
  "mapE f [] = Inr []"
| "mapE f (x # xs) = bindE (f x) (\<lambda>y. bindE (mapE f xs) (\<lambda>ys. Inr (y # ys)))"

definition map_err :: "('e \<Rightarrow> 'g) \<Rightarrow> 'e + 'a \<Rightarrow> 'g + 'a" where
  "map_err f m = (case m of Inl e \<Rightarrow> Inl (f e) | Inr a \<Rightarrow> Inr a)"

definition ok_or :: "'e \<Rightarrow> 'a option \<Rightarrow> 'e + 'a" where
  "ok_or e m = (case m of None \<Rightarrow> Inl e | Some a \<Rightarrow> Inr a)"

lemma bindE_simps [simp]:
  "bindE (Inl e) f = Inl e"
  "bindE (Inr a) f = f a"
  by (simp_all add: bindE_def)

lemma bindE_Inr_iff: "bindE m f = Inr b \<longleftrightarrow> (\<exists>a. m = Inr a \<and> f a = Inr b)"
  by (cases m) auto

lemma bindE_Inl_iff: "bindE m f = Inl e \<longleftrightarrow> m = Inl e \<or> (\<exists>a. m = Inr a \<and> f a = Inl e)"
  by (cases m) auto

lemma map_err_simps [simp]:
  "map_err f (Inl e) = Inl (f e)"
  "map_err f (Inr a) = Inr a"
  by (simp_all add: map_err_def)

lemma map_err_Inr_iff [simp]: "map_err f m = Inr a \<longleftrightarrow> m = Inr a"
  by (cases m) auto

lemma ok_or_simps [simp]:
  "ok_or e None = Inl e"
  "ok_or e (Some a) = Inr a"
  by (simp_all add: ok_or_def)

lemma ok_or_Inr_iff [simp]: "ok_or e m = Inr a \<longleftrightarrow> m = Some a"
  by (cases m) auto

lemma mapE_Inr: "(\<And>x. x \<in> set xs \<Longrightarrow> f x = Inr (g x)) \<Longrightarrow> mapE f xs = Inr (map g xs)"
  by (induction xs) auto

lemma mapE_Inr_iff: "mapE f xs = Inr ys \<longleftrightarrow> list_all2 (\<lambda>x y. f x = Inr y) xs ys"
  by (induction xs arbitrary: ys) (auto simp: bindE_Inr_iff list_all2_Cons1)

lemma mapE_cong [fundef_cong]:
  "xs = ys \<Longrightarrow> (\<And>x. x \<in> set ys \<Longrightarrow> f x = g x) \<Longrightarrow> mapE f xs = mapE g ys"
  by (induction ys arbitrary: xs) auto

lemma bindE_cong [fundef_cong]:
  "m = m' \<Longrightarrow> (\<And>a. m' = Inr a \<Longrightarrow> f a = g a) \<Longrightarrow> bindE m f = bindE m' g"
  by (cases m') auto

lemma mapE_Inl_E:
  assumes "mapE f xs = Inl e"
  obtains x where "x \<in> set xs" and "f x = Inl e"
  using assms by (induction xs) (auto simp: bindE_Inl_iff)

section \<open>Lists and options\<close>

text \<open>\<^verbatim>\<open>Iterator::position\<close>: the index of the first element that satisfies the predicate.\<close>

fun position :: "('a \<Rightarrow> bool) \<Rightarrow> 'a list \<Rightarrow> nat option" where
  "position P [] = None"
| "position P (x # xs) = (if P x then Some 0 else map_option Suc (position P xs))"

definition remove_nth :: "nat \<Rightarrow> 'a list \<Rightarrow> 'a list" where
  "remove_nth i xs = take i xs @ drop (Suc i) xs"

definition insert_at :: "nat \<Rightarrow> 'a \<Rightarrow> 'a list \<Rightarrow> 'a list" where
  "insert_at i x xs = take i xs @ x # drop i xs"

lemma position_Some:
  "position P xs = Some i \<Longrightarrow> i < length xs \<and> P (xs ! i) \<and> (\<forall>j < i. \<not> P (xs ! j))"
proof (induction xs arbitrary: i)
  case Nil
  then show ?case by simp
next
  case (Cons x xs)
  then show ?case
    by (auto split: if_splits simp: nth_Cons split: nat.splits)
qed

lemma position_Some_len: "position P xs = Some i \<Longrightarrow> i < length xs"
  and position_Some_sat: "position P xs = Some i \<Longrightarrow> P (xs ! i)"
  by (auto dest: position_Some)

lemma position_None: "position P xs = None \<longleftrightarrow> (\<forall>x \<in> set xs. \<not> P x)"
  by (induction xs) auto

lemma position_unique:
  assumes "i < length xs" "P (xs ! i)" "\<And>j. j < length xs \<Longrightarrow> P (xs ! j) \<Longrightarrow> j = i"
  shows "position P xs = Some i"
proof -
  from assms(1,2) have "position P xs \<noteq> None" by (auto simp: position_None)
  then obtain j where j: "position P xs = Some j" by blast
  then have "j < length xs" "P (xs ! j)" using position_Some [OF j] by simp_all
  with assms(3) j show ?thesis by blast
qed

lemma length_remove_nth [simp]: "i < length xs \<Longrightarrow> length (remove_nth i xs) = length xs - 1"
  by (simp add: remove_nth_def)

lemma length_insert_at [simp]: "length (insert_at i x xs) = Suc (length xs)"
  by (simp add: insert_at_def)

lemma set_remove_nth_subset: "set (remove_nth i xs) \<subseteq> set xs"
  by (auto simp: remove_nth_def dest: in_set_takeD in_set_dropD)

lemma insert_at_remove_nth [path_simps]:
  "i < length xs \<Longrightarrow> insert_at i (xs ! i) (remove_nth i xs) = xs"
  by (simp add: insert_at_def remove_nth_def id_take_nth_drop [symmetric])

lemma map_remove_nth: "map f (remove_nth i xs) = remove_nth i (map f xs)"
  by (simp add: remove_nth_def take_map drop_map)

lemma nth_insert_at_pos: "i \<le> length xs \<Longrightarrow> insert_at i x xs ! i = x"
  by (simp add: insert_at_def nth_append)

lemma insert_at_inject:
  assumes "insert_at i x xs = insert_at i y ys" "length xs = length ys" "i \<le> length xs"
  shows "x = y \<and> xs = ys"
proof -
  have "length (take i xs) = length (take i ys)" using assms by simp
  then have "take i xs = take i ys" "x = y" "drop i xs = drop i ys"
    using assms(1) by (auto simp: insert_at_def)
  then show ?thesis by (metis append_take_drop_id)
qed

lemma enumerate_filter_remove_nth:
  "map snd (filter (\<lambda>(i, _). i \<noteq> p) (enumerate 0 xs)) = remove_nth p xs"
proof -
  have "map snd (filter (\<lambda>(i, _). i \<noteq> p) (enumerate n xs))
      = (if p < n then xs else remove_nth (p - n) xs)" for n
  proof (induction xs arbitrary: n)
    case Nil
    then show ?case by (simp add: remove_nth_def)
  next
    case (Cons x xs)
    then show ?case
      by (auto simp: remove_nth_def Suc_diff_Suc [symmetric] not_less less_Suc_eq_le
          split: if_splits)
  qed
  from this [of 0] show ?thesis by simp
qed

lemma drop_length_minus_append:
  "length ys = k \<Longrightarrow> drop (length (xs @ ys) - k) (xs @ ys) = ys"
  "length ys = k \<Longrightarrow> take (length (xs @ ys) - k) (xs @ ys) = xs"
  by simp_all

section \<open>Ordered maps\<close>

text \<open>A \<^verbatim>\<open>BTreeMap\<close> is its list of entries in key order; insertion replaces an entry.\<close>

fun bt_insert :: "'k::linorder \<Rightarrow> 'v \<Rightarrow> ('k \<times> 'v) list \<Rightarrow> ('k \<times> 'v) list" where
  "bt_insert k v [] = [(k, v)]"
| "bt_insert k v ((k', v') # xs) =
     (if k < k' then (k, v) # (k', v') # xs
      else if k = k' then (k, v) # xs
      else (k', v') # bt_insert k v xs)"

definition bt_keys :: "('k::linorder \<times> 'v) list \<Rightarrow> bool" where
  "bt_keys xs \<longleftrightarrow> sorted_wrt (<) (map fst xs)"

lemma map_of_bt_insert: "bt_keys xs \<Longrightarrow> map_of (bt_insert k v xs) = (map_of xs)(k \<mapsto> v)"
proof (induction k v xs rule: bt_insert.induct)
  case (2 k v k' v' xs)
  then show ?case by (auto simp: bt_keys_def fun_eq_iff)
qed simp

lemma set_bt_insert_keys: "fst ` set (bt_insert k v xs) = insert k (fst ` set xs)"
  by (induction k v xs rule: bt_insert.induct) auto

lemma bt_keys_insert: "bt_keys xs \<Longrightarrow> bt_keys (bt_insert k v xs)"
proof (induction k v xs rule: bt_insert.induct)
  case (2 k v k' v' xs)
  then show ?case
    using set_bt_insert_keys [of k v xs] by (auto simp: bt_keys_def)
qed (simp add: bt_keys_def)

lemma bt_keys_map: "bt_keys xs \<Longrightarrow> map fst ys = map fst xs \<Longrightarrow> bt_keys ys"
  by (simp add: bt_keys_def)

lemma bt_keys_distinct: "bt_keys xs \<Longrightarrow> distinct (map fst xs)"
  by (simp add: bt_keys_def strict_sorted_iff)

lemma bt_keys_unique:
  assumes "bt_keys xs" "bt_keys ys" "map_of xs = map_of ys"
  shows "xs = ys"
proof -
  note d = bt_keys_distinct [OF assms(1)] bt_keys_distinct [OF assms(2)]
  have "p \<in> set xs \<longleftrightarrow> p \<in> set ys" for p
    using map_of_eq_Some_iff [OF d(1), of "fst p" "snd p"] map_of_eq_Some_iff [OF d(2), of "fst p" "snd p"] assms(3)
    by simp
  then have eq: "set xs = set ys" by blast
  have "sorted (map fst xs)" "sorted (map fst ys)" using assms(1,2) by (simp_all add: bt_keys_def strict_sorted_iff)
  then show ?thesis
    using d eq by (intro map_sorted_distinct_set_unique [where f = fst]) (auto simp: distinct_map)
qed

end
