(* ===== verification/Spine_Mr.thy ===== *)
theory Spine_Mr
  imports Prelude
begin

text \<open>
  The hashing core of the spine crate: the \<^verbatim>\<open>Hasher\<close> trait of \<^verbatim>\<open>spine/src/hasher.rs\<close> as a
  record of the operations an implementation supplies, the \<^verbatim>\<open>Subtree\<close> enum of
  \<^verbatim>\<open>spine/src/subtree.rs\<close>, and the canonicalization fold \<^verbatim>\<open>nary_mr\<close> with \<^verbatim>\<open>evaluate\<close> and
  \<^verbatim>\<open>count_leaves\<close> of \<^verbatim>\<open>spine/src/mr.rs\<close>.  The concrete hash functions are parameters;
  \<^verbatim>\<open>null\<close> and \<^verbatim>\<open>digest_len\<close> are the trait's default methods.
\<close>

section \<open>The hasher\<close>

record hasher =
  hs_leaf :: "bytes \<Rightarrow> digest"
  hs_node :: "digest list \<Rightarrow> digest"
  hs_empty :: digest
  hs_hash :: "bytes \<Rightarrow> digest"

definition null_bytes :: bytes where
  "null_bytes = [110, 117, 108, 108]"

definition digest_len :: "hasher \<Rightarrow> nat" where
  "digest_len h = length (hs_empty h)"

definition hs_null :: "hasher \<Rightarrow> digest" where
  "hs_null h = hs_hash h null_bytes"

definition null_digest :: "hasher \<Rightarrow> digest" where
  "null_digest h = hs_hash h null_bytes"

text \<open>
  The documented fixed-width contract of the trait: every digest an implementation produces
  has the length of the empty digest.
\<close>

definition fixed_width :: "hasher \<Rightarrow> bool" where
  "fixed_width h \<longleftrightarrow>
     (\<forall>d. length (hs_leaf h d) = digest_len h) \<and>
     (\<forall>cs. length (hs_node h cs) = digest_len h) \<and>
     (\<forall>d. length (hs_hash h d) = digest_len h)"

definition width_ok :: "hasher \<Rightarrow> bool" where
  "width_ok h \<longleftrightarrow> 0 < digest_len h \<and> digest_len h \<le> 64"

lemma fixed_width_simps:
  assumes "fixed_width h"
  shows "length (hs_leaf h d) = digest_len h"
    and "length (hs_node h cs) = digest_len h"
    and "length (hs_hash h d) = digest_len h"
    and "length (hs_null h) = digest_len h"
    and "length (hs_empty h) = digest_len h"
  using assms by (simp_all add: fixed_width_def hs_null_def digest_len_def)

section \<open>Canonicalization: collapse and promotion\<close>

fun nary_mr :: "hasher \<Rightarrow> digest list \<Rightarrow> digest" where
  "nary_mr h [] = hs_empty h"
| "nary_mr h [c] = c"
| "nary_mr h (first # c # cs) =
     (if list_all (\<lambda>x. x = first) (first # c # cs) then first
      else hs_node h (first # c # cs))"

text \<open>A child list is uniform when the collapse arm fires on it.\<close>

definition uniform :: "digest list \<Rightarrow> bool" where
  "uniform cs \<longleftrightarrow> list_all (\<lambda>x. x = hd cs) cs"

lemma uniform_Cons: "uniform (c # cs) \<longleftrightarrow> list_all (\<lambda>x. x = c) cs"
  by (simp add: uniform_def)

lemma uniform_replicate [simp]: "uniform (replicate n v)"
  by (cases n) (auto simp: uniform_def list_all_iff)

lemma uniform_eqI:
  assumes "uniform cs" "uniform ds" "length cs = length ds" "hd cs = hd ds"
  shows "cs = ds"
  using assms by (intro nth_equalityI) (auto simp: uniform_def list_all_length)

lemma nary_mr_replicate: "0 < n \<Longrightarrow> nary_mr h (replicate n v) = v"
  by (cases n; cases "n - 1") (auto simp: list_all_iff)

lemma nary_mr_node: "2 \<le> length cs \<Longrightarrow> \<not> uniform cs \<Longrightarrow> nary_mr h cs = hs_node h cs"
  by (cases cs; cases "tl cs") (auto simp: uniform_Cons)

lemma nary_mr_promote [simp]: "nary_mr h [c] = c"
  by simp

lemma nary_mr_uniform: "uniform cs \<Longrightarrow> cs \<noteq> [] \<Longrightarrow> nary_mr h cs = hd cs"
  by (cases cs; cases "tl cs") (auto simp: uniform_Cons)

lemma length_nary_mr:
  assumes "fixed_width h" "\<And>c. c \<in> set cs \<Longrightarrow> length c = digest_len h"
  shows "length (nary_mr h cs) = digest_len h"
  using assms by (cases cs; cases "tl cs") (auto simp: fixed_width_simps)

text \<open>
  What can go wrong when two child lists of one length fold to one digest: two different
  lists under one node hash (a collision of the node hash), or a node hash equal to the value
  a uniform list collapses to.
\<close>

definition node_collision :: "hasher \<Rightarrow> digest list \<Rightarrow> digest list \<Rightarrow> bool" where
  "node_collision h cs ds \<longleftrightarrow> cs \<noteq> ds \<and> hs_node h cs = hs_node h ds"

definition collapse_clash :: "hasher \<Rightarrow> digest list \<Rightarrow> digest list \<Rightarrow> bool" where
  "collapse_clash h cs ds \<longleftrightarrow> uniform cs \<and> \<not> uniform ds \<and> hd cs = hs_node h ds"

lemma nary_mr_inj:
  assumes eq: "nary_mr h cs = nary_mr h ds"
    and len: "length cs = length ds" "2 \<le> length cs"
  shows "cs = ds \<or> node_collision h cs ds \<or> collapse_clash h cs ds \<or> collapse_clash h ds cs"
proof (cases "uniform cs"; cases "uniform ds")
  assume u: "uniform cs" "uniform ds"
  moreover have "cs \<noteq> []" "ds \<noteq> []" using len by auto
  ultimately have "hd cs = hd ds" using eq by (simp add: nary_mr_uniform)
  then show ?thesis using u len by (auto intro: uniform_eqI)
next
  assume u: "uniform cs" "\<not> uniform ds"
  then have "nary_mr h cs = hd cs" "nary_mr h ds = hs_node h ds"
    using len by (auto intro!: nary_mr_uniform nary_mr_node)
  with eq u show ?thesis by (simp add: collapse_clash_def)
next
  assume u: "\<not> uniform cs" "uniform ds"
  then have "nary_mr h ds = hd ds" "nary_mr h cs = hs_node h cs"
    using len by (auto intro!: nary_mr_uniform nary_mr_node)
  with eq u show ?thesis by (simp add: collapse_clash_def)
next
  assume "\<not> uniform cs" "\<not> uniform ds"
  then have "hs_node h cs = hs_node h ds"
    using eq len by (simp add: nary_mr_node)
  then show ?thesis by (auto simp: node_collision_def)
qed

section \<open>Structured subtrees\<close>

datatype subtree = Leaf bytes | Node "subtree list"

fun evaluate :: "hasher \<Rightarrow> subtree \<Rightarrow> digest" where
  "evaluate h (Leaf data) = hs_leaf h data"
| "evaluate h (Node children) = nary_mr h (map (evaluate h) children)"

fun count_leaves :: "subtree \<Rightarrow> u64" where
  "count_leaves (Leaf _) = 1"
| "count_leaves (Node children) = sum_list (map count_leaves children)"

text \<open>The leaf payloads of a subtree, left to right.\<close>

fun payloads :: "subtree \<Rightarrow> bytes list" where
  "payloads (Leaf data) = [data]"
| "payloads (Node children) = concat (map payloads children)"

lemma count_leaves_payloads: "count_leaves t = length (payloads t)"
proof (induction t)
  case (Node ts)
  then have "map count_leaves ts = map length (map payloads ts)" by simp
  then show ?case by (simp only: count_leaves.simps payloads.simps length_concat)
qed simp

text \<open>Promotion removes a lone wrapper, collapse a run of equal children.\<close>

lemma evaluate_promote: "evaluate h (Node [t]) = evaluate h t"
  by simp

lemma evaluate_collapse:
  assumes "ts \<noteq> []" "\<And>t. t \<in> set ts \<Longrightarrow> evaluate h t = v"
  shows "evaluate h (Node ts) = v"
proof -
  have "map (evaluate h) ts = replicate (length ts) v"
    using assms(2) by (induction ts) auto
  then show ?thesis
    using assms(1) nary_mr_replicate [of "length ts" h v] by simp
qed

lemma length_evaluate: "fixed_width h \<Longrightarrow> length (evaluate h t) = digest_len h"
  by (induction t) (auto simp: fixed_width_simps intro!: length_nary_mr)

end
