(* ===== verification/Spine_Topology.thy ===== *)
theory Spine_Topology
  imports Spine_Mr
begin

text \<open>
  The structural primitives of \<^verbatim>\<open>spine/src/topology.rs\<close>: the generic grouping fold
  \<^verbatim>\<open>fold_frontier\<close>, the perfect-subtree decomposition \<^verbatim>\<open>frontier_for_size\<close> and the
  skeleton step.  The loops that the source guards with a \<^verbatim>\<open>debug_assert\<close> on the arity are
  given for arities from 2 on; below 2 the model stops where the source would not, and no
  property is stated there.

  The second half is the theory of frontiers: a frontier is determined by its list of heights,
  which is the base-\<open>k\<close> notation of the size written with the largest block first
  (\<open>canon\<close>, \<open>hsum\<close>, \<open>frontier_unique\<close>).
\<close>

section \<open>Definitions\<close>

record skeleton_step =
  sk_position :: nat
  sk_sibling_count :: nat

definition arity_ok :: "u64 \<Rightarrow> bool" where
  "arity_ok k \<longleftrightarrow> 2 \<le> k \<and> k \<le> 256"

lemma arity_ok_ge2: "arity_ok k \<Longrightarrow> 2 \<le> k"
  by (simp add: arity_ok_def)

function fold_loop :: "nat \<Rightarrow> ('a list \<Rightarrow> 'a) \<Rightarrow> 'a list \<Rightarrow> 'a list" where
  "fold_loop k merge items =
     (if 2 \<le> k \<and> k < length items
      then let split = length items - k
           in fold_loop k merge (take split items @ [merge (drop split items)])
      else items)"
  by pat_completeness auto
termination
  by (relation "measure (\<lambda>(k, merge, items). length items)") auto

declare fold_loop.simps [simp del]

definition fold_frontier :: "'a list \<Rightarrow> nat \<Rightarrow> ('a list \<Rightarrow> 'a) \<Rightarrow> 'a" where
  "fold_frontier items k merge =
     (if length items = 1 then hd items else merge (fold_loop k merge items))"

function grow_cap :: "u64 \<Rightarrow> u64 \<Rightarrow> u64 \<Rightarrow> u32 \<Rightarrow> u64 \<times> u32" where
  "grow_cap k temp_n cap height =
     (case checked_mul cap k of
        None \<Rightarrow> (cap, height)
      | Some next_cap \<Rightarrow>
          if next_cap \<le> temp_n \<and> cap < next_cap
          then grow_cap k temp_n next_cap (Suc height)
          else (cap, height))"
  by pat_completeness auto
termination
  by (relation "measure (\<lambda>(k, temp_n, cap, height). temp_n - cap)") auto

declare grow_cap.simps [simp del]

lemma grow_cap_ge: "cap \<le> fst (grow_cap k t cap h)"
proof (induction k t cap h rule: grow_cap.induct)
  case (1 k t cap h)
  then show ?case
    by (subst grow_cap.simps) (force split: option.splits)
qed

function frontier_loop :: "u64 \<Rightarrow> u64 \<Rightarrow> u64 \<Rightarrow> coord list" where
  "frontier_loop k curr_left temp_n =
     (if 0 < temp_n
      then let (cap, height) = grow_cap k temp_n 1 0
           in (curr_left, height) # frontier_loop k (curr_left + cap) (temp_n - cap)
      else [])"
  by pat_completeness auto
termination
proof (relation "measure (\<lambda>(k, curr_left, temp_n). temp_n)", goal_cases)
  case (2 k curr_left temp_n x cap height)
  moreover from this have "1 \<le> cap"
    using grow_cap_ge [of 1 k temp_n 0] by (metis fst_conv)
  ultimately show ?case by auto
qed simp

declare frontier_loop.simps [simp del]

definition frontier_for_size :: "u64 \<Rightarrow> u64 \<Rightarrow> coord list" where
  "frontier_for_size n k = frontier_loop k 0 n"

section \<open>The grouping fold\<close>

text \<open>The fold commutes with a map that turns one merge into the other.\<close>

lemma fold_loop_map:
  assumes "\<And>c. g (m c) = m' (map g c)"
  shows "map g (fold_loop k m items) = fold_loop k m' (map g items)"
  using assms
proof (induction k m items rule: fold_loop.induct)
  case (1 k m items)
  then show ?case
    by (subst (1 2) fold_loop.simps) (auto simp: Let_def take_map drop_map)
qed

lemma fold_frontier_map:
  assumes "\<And>c. g (m c) = m' (map g c)" "items \<noteq> []"
  shows "g (fold_frontier items k m) = fold_frontier (map g items) k m'"
  using assms(2)
  by (simp add: fold_frontier_def assms(1) fold_loop_map [of g m m', OF assms(1)] hd_map)

lemma fold_loop_preserves:
  assumes "\<And>x. x \<in> set items \<Longrightarrow> P x"
    and "\<And>c. length c = k \<Longrightarrow> (\<And>x. x \<in> set c \<Longrightarrow> P x) \<Longrightarrow> P (m c)"
    and "2 \<le> k" "2 \<le> length items"
  shows "(\<forall>x \<in> set (fold_loop k m items). P x)
    \<and> 2 \<le> length (fold_loop k m items) \<and> length (fold_loop k m items) \<le> k"
  using assms
proof (induction k m items rule: fold_loop.induct)
  case (1 k m items)
  show ?case
  proof (cases "k < length items")
    case True
    let ?it = "take (length items - k) items @ [m (drop (length items - k) items)]"
    have "P (m (drop (length items - k) items))"
      using True "1.prems"(1) by (intro "1.prems"(2)) (auto dest: in_set_dropD)
    then have "\<And>x. x \<in> set ?it \<Longrightarrow> P x"
      using "1.prems"(1) by (auto dest: in_set_takeD)
    then have "(\<forall>x \<in> set (fold_loop k m ?it). P x)
        \<and> 2 \<le> length (fold_loop k m ?it) \<and> length (fold_loop k m ?it) \<le> k"
      using True "1.prems" by (intro "1.IH" [OF _ refl]) auto
    then show ?thesis using True "1.prems"(3) by (subst (1 2 3) fold_loop.simps) (simp add: Let_def)
  next
    case False
    then show ?thesis using "1.prems" by (subst (1 2 3) fold_loop.simps) simp
  qed
qed

text \<open>
  An invariant of the folded items that every merge of 2 to \<open>k\<close> of them keeps holds of the
  result.
\<close>

lemma fold_frontier_preserves:
  assumes items: "\<And>x. x \<in> set items \<Longrightarrow> P x"
    and merge: "\<And>c. 2 \<le> length c \<Longrightarrow> length c \<le> k \<Longrightarrow> (\<And>x. x \<in> set c \<Longrightarrow> P x) \<Longrightarrow> P (m c)"
    and "2 \<le> k" "items \<noteq> []"
  shows "P (fold_frontier items k m)"
proof (cases "length items = 1")
  case True
  then show ?thesis using items assms(4) by (simp add: fold_frontier_def)
next
  case False
  with assms(4) have "2 \<le> length items" by (cases items; cases "tl items") auto
  with fold_loop_preserves [of items P k m] assms
  show ?thesis using False by (auto simp: fold_frontier_def)
qed

lemma fold_frontier_single [simp]: "fold_frontier [x] k m = x"
  by (simp add: fold_frontier_def)

text \<open>The items keep their left-to-right order: a merge that concatenates gives them back.\<close>

lemma fold_loop_concat:
  assumes "\<And>c. f (m c) = concat (map f c)"
  shows "concat (map f (fold_loop k m items)) = concat (map f items)"
  using assms
proof (induction k m items rule: fold_loop.induct)
  case (1 k m items)
  show ?case
  proof (cases "2 \<le> k \<and> k < length items")
    case True
    have "concat (map f items) = concat (map f (take (length items - k) items))
        @ concat (map f (drop (length items - k) items))"
      by (metis append_take_drop_id concat_append map_append)
    with 1 True show ?thesis by (subst fold_loop.simps) (simp add: Let_def)
  next
    case False
    then have "fold_loop k m items = items" by (subst fold_loop.simps) auto
    then show ?thesis by simp
  qed
qed

lemma fold_frontier_concat:
  assumes "\<And>c. f (m c) = concat (map f c)" "items \<noteq> []"
  shows "f (fold_frontier items k m) = concat (map f items)"
  using assms by (cases items) (auto simp: fold_frontier_def fold_loop_concat)


section \<open>Heights of a frontier\<close>

fun coords_of :: "nat \<Rightarrow> nat \<Rightarrow> nat list \<Rightarrow> coord list" where
  "coords_of k lo [] = []"
| "coords_of k lo (h # hs) = (lo, h) # coords_of k (lo + k ^ h) hs"

definition hsum :: "nat \<Rightarrow> nat list \<Rightarrow> nat" where
  "hsum k hs = sum_list (map (\<lambda>h. k ^ h) hs)"

definition canon :: "nat \<Rightarrow> nat list \<Rightarrow> bool" where
  "canon k hs \<longleftrightarrow> sorted_wrt (\<ge>) hs \<and> (\<forall>h. count_list hs h < k)"

lemma hsum_simps [simp, frontier_simps]:
  "hsum k [] = 0"
  "hsum k (h # hs) = k ^ h + hsum k hs"
  "hsum k (xs @ ys) = hsum k xs + hsum k ys"
  "hsum k (replicate c h) = c * k ^ h"
  by (simp_all add: hsum_def sum_list_replicate)

lemma coords_of_append [frontier_simps]:
  "coords_of k lo (xs @ ys) = coords_of k lo xs @ coords_of k (lo + hsum k xs) ys"
  by (induction xs arbitrary: lo) (simp_all add: add.assoc)

lemma length_coords_of [simp]: "length (coords_of k lo hs) = length hs"
  by (induction hs arbitrary: lo) simp_all

lemma map_snd_coords_of [simp]: "map snd (coords_of k lo hs) = hs"
  by (induction hs arbitrary: lo) simp_all

lemma coords_of_Nil_iff [simp]: "coords_of k lo hs = [] \<longleftrightarrow> hs = []"
  by (cases hs) simp_all

lemma nth_coords_of:
  "i < length hs \<Longrightarrow> coords_of k lo hs ! i = (lo + hsum k (take i hs), hs ! i)"
  by (induction hs arbitrary: lo i) (auto simp: nth_Cons split: nat.splits)

lemma coords_of_bound:
  "(l, h) \<in> set (coords_of k lo hs) \<Longrightarrow> lo \<le> l \<and> l + k ^ h \<le> lo + hsum k hs"
  by (induction hs arbitrary: lo) fastforce+

lemma coords_of_inject: "coords_of k lo hs = coords_of k lo hs' \<longleftrightarrow> hs = hs'"
  by (metis map_snd_coords_of)

lemma hsum_pos: "2 \<le> k \<Longrightarrow> hs \<noteq> [] \<Longrightarrow> 0 < hsum k hs"
  by (cases hs) auto

lemma hsum_filter_split:
  "hsum k hs = count_list hs m * k ^ m + hsum k (filter (\<lambda>h. h \<noteq> m) hs)"
  by (induction hs) (auto simp: algebra_simps)

lemma count_list_filter_le: "count_list (filter P hs) h \<le> count_list hs h"
  by (induction hs) auto

text \<open>Fewer than \<open>k\<close> blocks of every height up to \<open>m\<close> stay below the next power.\<close>

lemma hsum_bound:
  assumes "2 \<le> k" "\<And>h. count_list hs h < k" "\<And>h. h \<in> set hs \<Longrightarrow> h \<le> m"
  shows "hsum k hs < k ^ Suc m"
  using assms
proof (induction m arbitrary: hs)
  case 0
  then have "filter (\<lambda>h. h \<noteq> 0) hs = []" by (auto simp: filter_empty_conv)
  with hsum_filter_split [of k hs 0] "0.prems"(2) [of 0] show ?case by simp
next
  case (Suc m)
  let ?r = "filter (\<lambda>h. h \<noteq> Suc m) hs"
  have "hsum k ?r < k ^ Suc m"
  proof (rule Suc.IH)
    show "count_list ?r h < k" for h
      using Suc.prems(2) [of h] count_list_filter_le [of _ hs h] le_less_trans by blast
    show "h \<le> m" if "h \<in> set ?r" for h
      using that Suc.prems(3) by fastforce
  qed (use Suc.prems in simp)
  moreover have "count_list hs (Suc m) + 1 \<le> k" using Suc.prems(2) [of "Suc m"] by simp
  then have "(count_list hs (Suc m) + 1) * k ^ Suc m \<le> k * k ^ Suc m"
    by (rule mult_le_mono1)
  ultimately show ?case using hsum_filter_split [of k hs "Suc m"] by simp
qed

lemma canon_Cons: "canon k (h # hs) \<Longrightarrow> canon k hs \<and> (\<forall>x \<in> set hs. x \<le> h)"
  unfolding canon_def by (auto split: if_splits) (metis Suc_lessD)

lemma canon_bound: "2 \<le> k \<Longrightarrow> canon k (h # hs) \<Longrightarrow> hsum k (h # hs) < k ^ Suc h"
  by (rule hsum_bound) (auto simp: canon_def)

lemma canon_unique:
  assumes "2 \<le> k" "canon k hs" "canon k hs'" "hsum k hs = hsum k hs'"
  shows "hs = hs'"
  using assms(2-)
proof (induction hs arbitrary: hs')
  case Nil
  then show ?case using hsum_pos [OF assms(1), of hs'] by fastforce
next
  case (Cons h hs)
  then obtain g gs where hs': "hs' = g # gs"
    using hsum_pos [OF assms(1), of "h # hs"] by (cases hs') auto
  have "k ^ h < k ^ Suc g" "k ^ g < k ^ Suc h"
    using canon_bound [OF assms(1) Cons.prems(1)] canon_bound [of k g gs] Cons.prems hs' assms(1)
    by auto
  then have "h < Suc g" "g < Suc h" using assms(1) by (simp_all only: power_strict_increasing_iff)
  then have "h = g" by simp
  moreover have "hs = gs"
    using Cons.prems hs' calculation by (intro Cons.IH) (auto dest: canon_Cons)
  ultimately show ?case using hs' by simp
qed

lemma canon_dvd:
  assumes "sorted_wrt (\<ge>) (hs @ [h])" shows "k ^ h dvd hsum k hs"
  using assms by (induction hs) (auto simp: sorted_wrt_append intro!: dvd_add le_imp_power_dvd)

text \<open>The greedy capacity loop finds the largest power of the arity that fits.\<close>

lemma grow_cap_spec:
  assumes "2 \<le> k" "t < u64_limit" "k ^ h \<le> t"
  shows "\<exists>h'. grow_cap k t (k ^ h) h = (k ^ h', h') \<and> k ^ h' \<le> t \<and> t < k ^ Suc h'"
  using assms
proof (induction "t - k ^ h" arbitrary: h rule: less_induct)
  case less
  have lt: "k ^ h < k ^ Suc h" using less.prems(1) by simp
  show ?case
  proof (cases "k ^ Suc h \<le> t")
    case True
    then have "grow_cap k t (k ^ h) h = grow_cap k t (k ^ Suc h) (Suc h)"
      using less.prems lt by (subst grow_cap.simps) (auto simp: checked_mul_def mult.commute)
    moreover have "\<exists>h'. grow_cap k t (k ^ Suc h) (Suc h) = (k ^ h', h') \<and> k ^ h' \<le> t \<and> t < k ^ Suc h'"
    proof (rule less.hyps)
      show "t - k ^ Suc h < t - k ^ h" using True lt by linarith
    qed (use True less.prems in simp_all)
    ultimately show ?thesis by simp
  next
    case False
    then have "grow_cap k t (k ^ h) h = (k ^ h, h)"
      using less.prems lt
      by (subst grow_cap.simps) (auto simp: checked_mul_def mult.commute)
    with False less.prems show ?thesis by auto
  qed
qed

lemma grow_cap_from_one:
  assumes "2 \<le> k" "0 < t" "t < u64_limit"
  obtains h where "grow_cap k t 1 0 = (k ^ h, h)" "k ^ h \<le> t" "t < k ^ Suc h"
  using grow_cap_spec [of k t 0] assms by auto

lemma count_list_hsum_le: "count_list hs h * k ^ h \<le> hsum k hs"
  using hsum_filter_split [of k hs h] by simp

lemma frontier_loop_canon:
  assumes "2 \<le> k" "t < u64_limit"
  shows "\<exists>hs. frontier_loop k lo t = coords_of k lo hs \<and> canon k hs \<and> hsum k hs = t"
  using assms
proof (induction t arbitrary: lo rule: less_induct)
  case (less t)
  show ?case
  proof (cases "t = 0")
    case True
    then have "frontier_loop k lo t = coords_of k lo [] \<and> canon k [] \<and> hsum k [] = t"
      using less.prems by (subst frontier_loop.simps) (simp add: canon_def)
    then show ?thesis by blast
  next
    case False
    then obtain h where g: "grow_cap k t 1 0 = (k ^ h, h)" "k ^ h \<le> t" "t < k ^ Suc h"
      using grow_cap_from_one [of k t] less.prems by auto
    have "t - k ^ h < t" using False less.prems by simp
    then obtain hs where hs: "frontier_loop k (lo + k ^ h) (t - k ^ h) = coords_of k (lo + k ^ h) hs"
        "canon k hs" "hsum k hs = t - k ^ h"
      using less.IH [of "t - k ^ h" "lo + k ^ h"] less.prems by auto
    have eq: "frontier_loop k lo t = coords_of k lo (h # hs)"
      using False g hs by (subst frontier_loop.simps) simp
    have sum: "hsum k (h # hs) = t" using g hs by simp
    have small: "x \<le> h" if "x \<in> set hs" for x
    proof -
      have "1 * k ^ x \<le> count_list hs x * k ^ x"
        using that count_list_0_iff [of hs x] by (intro mult_le_mono1) (simp add: Suc_le_eq)
      also have "\<dots> \<le> t" using count_list_hsum_le [of hs x k] hs(3) by simp
      finally have "k ^ x < k ^ Suc h" using g(3) by simp
      then have "x < Suc h" using less.prems(1) by (simp only: power_strict_increasing_iff)
      then show ?thesis by simp
    qed
    have "count_list (h # hs) h * k ^ h < k * k ^ h"
      using count_list_hsum_le [of "h # hs" h k] sum g(3) by simp
    then have "count_list (h # hs) h < k" by (metis mult_less_cancel2)
    with hs(2) small have "canon k (h # hs)" by (auto simp: canon_def)
    with eq sum show ?thesis by blast
  qed
qed

lemma frontier_canon:
  assumes "2 \<le> k" "n < u64_limit"
  obtains hs where "frontier_for_size n k = coords_of k 0 hs" "canon k hs" "hsum k hs = n"
  using frontier_loop_canon [OF assms, of 0] by (auto simp: frontier_for_size_def)

lemma frontier_unique:
  assumes "2 \<le> k" "n < u64_limit" "canon k hs" "hsum k hs = n"
  shows "frontier_for_size n k = coords_of k 0 hs"
  by (metis assms canon_unique frontier_canon)

text \<open>
  The block capacities in the source are computed with the unchecked \<^verbatim>\<open>k.pow(height)\<close> and the
  unchecked addition of the left bound: neither can leave the 64-bit range, because a block ends
  inside the log.
\<close>

lemma frontier_bound:
  assumes "2 \<le> k" "n < u64_limit" "(l, h) \<in> set (frontier_for_size n k)"
  shows "l + k ^ h \<le> n"
  using assms by (metis coords_of_bound frontier_canon add_0)

lemma frontier_empty_iff:
  assumes "2 \<le> k" "n < u64_limit" shows "frontier_for_size n k = [] \<longleftrightarrow> n = 0"
proof -
  obtain hs where "frontier_for_size n k = coords_of k 0 hs" "hsum k hs = n"
    using frontier_canon [OF assms] by metis
  then show ?thesis using hsum_pos [OF assms(1), of hs] by (cases "hs = []") auto
qed

lemma frontier_zero [simp]: "frontier_for_size 0 k = []"
  by (simp add: frontier_for_size_def frontier_loop.simps)

lemma frontier_aligned:
  assumes "2 \<le> k" "n < u64_limit" "(l, h) \<in> set (frontier_for_size n k)"
  shows "k ^ h dvd l"
proof -
  obtain hs where hs: "frontier_for_size n k = coords_of k 0 hs" "canon k hs" "hsum k hs = n"
    using frontier_canon [OF assms(1,2)] by metis
  then obtain i where i: "i < length hs" "(l, h) = coords_of k 0 hs ! i"
    using assms(3) by (metis in_set_conv_nth length_coords_of)
  then have "l = hsum k (take i hs)" "h = hs ! i" by (simp_all add: nth_coords_of)
  moreover have "sorted_wrt (\<ge>) (take i hs @ [hs ! i])"
    using hs(2) i(1) sorted_wrt_take [of "(\<ge>)" hs "Suc i"]
    by (simp add: canon_def take_Suc_conv_app_nth)
  ultimately show ?thesis using canon_dvd by blast
qed

text \<open>Every index of the log lies in exactly one block.\<close>

definition in_block :: "nat \<Rightarrow> nat \<Rightarrow> coord \<Rightarrow> bool" where
  "in_block k i c \<longleftrightarrow> fst c \<le> i \<and> i < fst c + k ^ snd c"

lemma coords_locate:
  assumes "lo \<le> x" "x < lo + hsum k hs"
  shows "\<exists>!i. i < length hs \<and> in_block k x (coords_of k lo hs ! i)"
  using assms
proof (induction hs arbitrary: lo)
  case Nil
  then show ?case by simp
next
  case (Cons h hs)
  show ?case
  proof (cases "x < lo + k ^ h")
    case True
    then show ?thesis
      using Cons.prems by (intro ex1I [of _ 0]) (auto simp: in_block_def nth_coords_of nth_Cons
          split: nat.splits)
  next
    case False
    then have "\<exists>!i. i < length hs \<and> in_block k x (coords_of k (lo + k ^ h) hs ! i)"
      using Cons.prems by (intro Cons.IH) auto
    then obtain i where i: "i < length hs" "in_block k x (coords_of k (lo + k ^ h) hs ! i)"
      and u: "\<And>j. j < length hs \<Longrightarrow> in_block k x (coords_of k (lo + k ^ h) hs ! j) \<Longrightarrow> j = i"
      by auto
    show ?thesis
    proof (rule ex1I [of _ "Suc i"])
      fix j assume "j < length (h # hs) \<and> in_block k x (coords_of k lo (h # hs) ! j)"
      then show "j = Suc i" using u False by (cases j) (auto simp: in_block_def)
    qed (use i in simp)
  qed
qed

lemma frontier_block_ex1:
  assumes "2 \<le> k" "n < u64_limit" "i < n"
  shows "\<exists>!c. c \<in> set (frontier_for_size n k) \<and> in_block k i c"
proof -
  obtain hs where hs: "frontier_for_size n k = coords_of k 0 hs" "hsum k hs = n"
    using frontier_canon [OF assms(1,2)] by metis
  then obtain j where j: "j < length hs" "in_block k i (coords_of k 0 hs ! j)"
    and u: "\<And>j'. j' < length hs \<Longrightarrow> in_block k i (coords_of k 0 hs ! j') \<Longrightarrow> j' = j"
    using coords_locate [of 0 i k hs] assms(3) by auto
  show ?thesis
  proof (rule ex1I [of _ "coords_of k 0 hs ! j"])
    show "coords_of k 0 hs ! j \<in> set (frontier_for_size n k) \<and> in_block k i (coords_of k 0 hs ! j)"
      using j hs(1) by (metis length_coords_of nth_mem)
    fix c assume "c \<in> set (frontier_for_size n k) \<and> in_block k i c"
    then show "c = coords_of k 0 hs ! j" using u hs(1) by (metis in_set_conv_nth length_coords_of)
  qed
qed

text \<open>A frontier is short: fewer than \<open>k\<close> blocks per height, and heights below 64.\<close>

lemma canon_length:
  assumes "2 \<le> k" "\<And>h. count_list hs h < k" "\<And>h. h \<in> set hs \<Longrightarrow> h \<le> m"
  shows "length hs \<le> (k - 1) * Suc m"
  using assms
proof (induction m arbitrary: hs)
  case 0
  then have "\<forall>h \<in> set hs. h = 0" by auto
  then have "length hs = count_list hs 0" by (induction hs) auto
  with "0.prems"(2) [of 0] show ?case by simp
next
  case (Suc m)
  let ?r = "filter (\<lambda>h. h \<noteq> Suc m) hs"
  have "length hs = count_list hs (Suc m) + length ?r" by (induction hs) auto
  moreover have "length ?r \<le> (k - 1) * Suc m"
  proof (rule Suc.IH)
    show "count_list ?r h < k" for h
      using Suc.prems(2) [of h] count_list_filter_le [of _ hs h] le_less_trans by blast
    show "h \<le> m" if "h \<in> set ?r" for h using that Suc.prems(3) by fastforce
  qed (use Suc.prems in simp)
  moreover have "count_list hs (Suc m) \<le> k - 1" using Suc.prems(2) [of "Suc m"] by simp
  ultimately have "length hs \<le> (k - 1) + (k - 1) * Suc m" by linarith
  then show ?case by (simp only: mult_Suc_right)
qed

lemma power_less_limit: "2 \<le> k \<Longrightarrow> k ^ h < u64_limit \<Longrightarrow> h < 64"
proof -
  assume "2 \<le> k" "k ^ h < u64_limit"
  then have "2 ^ h \<le> k ^ h" by (intro power_mono) simp_all
  then have "(2::nat) ^ h < 2 ^ 64" using \<open>k ^ h < u64_limit\<close> by (simp add: u64_limit_def)
  then show "h < 64" by (simp only: power_strict_increasing_iff)
qed

lemma frontier_length:
  assumes "2 \<le> k" "n < u64_limit" shows "length (frontier_for_size n k) \<le> (k - 1) * 64"
proof -
  obtain hs where hs: "frontier_for_size n k = coords_of k 0 hs" "canon k hs" "hsum k hs = n"
    using frontier_canon [OF assms] by metis
  have "h \<le> 63" if "h \<in> set hs" for h
  proof -
    have "1 * k ^ h \<le> count_list hs h * k ^ h"
      using that count_list_0_iff [of hs h] by (intro mult_le_mono1) (simp add: Suc_le_eq)
    also have "\<dots> \<le> n" using count_list_hsum_le [of hs h k] hs(3) by simp
    finally have "k ^ h < u64_limit" using assms(2) by simp
    then show ?thesis using power_less_limit [OF assms(1)] by fastforce
  qed
  with hs show ?thesis using canon_length [OF assms(1), of hs 63] by (simp add: canon_def)
qed

text \<open>A measure that one merge raises by at most one grows by the number of merges.\<close>

lemma fold_loop_depth:
  assumes "\<And>x. x \<in> set items \<Longrightarrow> D x \<le> d"
    and "\<And>c e. (\<And>x. x \<in> set c \<Longrightarrow> D x \<le> e) \<Longrightarrow> D (m c) \<le> Suc e" and "2 \<le> k"
  shows "\<forall>x \<in> set (fold_loop k m items). D x \<le> d + (length items - 2) div (k - 1)"
  using assms
proof (induction k m items arbitrary: d rule: fold_loop.induct)
  case (1 k m items)
  show ?case
  proof (cases "k < length items")
    case True
    let ?it = "take (length items - k) items @ [m (drop (length items - k) items)]"
    have "D (m (drop (length items - k) items)) \<le> Suc d"
      using "1.prems"(1) by (intro "1.prems"(2)) (auto dest: in_set_dropD)
    then have "D x \<le> Suc d" if "x \<in> set ?it" for x
      using that "1.prems"(1) by (auto dest: in_set_takeD intro: le_SucI)
    then have IH: "\<forall>x \<in> set (fold_loop k m ?it). D x \<le> Suc d + (length ?it - 2) div (k - 1)"
      using True "1.prems" by (intro "1.IH" [OF _ refl]) auto
    have "length items - 2 = (length ?it - 2) + (k - 1)" using True "1.prems"(3) by simp
    moreover have "(a + (k - 1)) div (k - 1) = Suc (a div (k - 1))" for a
      using "1.prems"(3) by (subst div_add_self2) simp_all
    ultimately have "(length items - 2) div (k - 1) = Suc ((length ?it - 2) div (k - 1))"
      by (simp only:)
    moreover have "fold_loop k m items = fold_loop k m ?it"
      using True "1.prems"(3) by (subst fold_loop.simps) (simp add: Let_def)
    ultimately show ?thesis using IH by simp
  next
    case False
    then have "fold_loop k m items = items" by (subst fold_loop.simps) simp
    then show ?thesis using "1.prems"(1) by (auto intro: trans_le_add1)
  qed
qed

lemma fold_frontier_depth:
  assumes "\<And>x. x \<in> set items \<Longrightarrow> D x \<le> d"
    and "\<And>c e. (\<And>x. x \<in> set c \<Longrightarrow> D x \<le> e) \<Longrightarrow> D (m c) \<le> Suc e"
    and "2 \<le> k" "items \<noteq> []"
  shows "D (fold_frontier items k m) \<le> d + Suc ((length items - 2) div (k - 1))"
proof (cases "length items = 1")
  case True
  then show ?thesis using assms(1,4) by (auto simp: fold_frontier_def intro: trans_le_add1 le_SucI)
next
  case False
  have "\<forall>x \<in> set (fold_loop k m items). D x \<le> d + (length items - 2) div (k - 1)"
    using assms by (intro fold_loop_depth) auto
  with False show ?thesis by (auto simp: fold_frontier_def intro!: assms(2))
qed

text \<open>A block is never larger than the log, at any arity.\<close>

lemma grow_cap_le:
  "cap = k ^ h \<Longrightarrow> cap \<le> t \<Longrightarrow> grow_cap k t cap h = (c, h') \<Longrightarrow> c = k ^ h' \<and> c \<le> t"
proof (induction k t cap h rule: grow_cap.induct)
  case (1 k t cap h)
  show ?case
  proof (cases "\<exists>nc. checked_mul cap k = Some nc \<and> nc \<le> t \<and> cap < nc")
    case True
    then obtain nc where nc: "checked_mul cap k = Some nc" "nc \<le> t" "cap < nc" by blast
    then have "nc = k ^ Suc h" using "1.prems"(1) by (auto simp: checked_mul_def split: if_splits)
    moreover have "grow_cap k t nc (Suc h) = (c, h')"
      using "1.prems"(3) nc by (subst (asm) grow_cap.simps) simp
    ultimately show ?thesis using "1.IH" [OF nc(1)] nc by blast
  next
    case False
    then have "grow_cap k t cap h = (cap, h)"
      by (subst grow_cap.simps) (auto split: option.splits)
    then have "c = cap" "h' = h" using "1.prems"(3) by simp_all
    then show ?thesis using "1.prems"(1,2) by simp
  qed
qed

lemma frontier_block_le:
  assumes "(l, h) \<in> set (frontier_for_size n k)" shows "k ^ h \<le> n"
proof -
  have "(l, h) \<in> set (frontier_loop k lo t) \<Longrightarrow> k ^ h \<le> t" for lo t
  proof (induction k lo t rule: frontier_loop.induct)
    case (1 k lo t)
    then have t: "0 < t" by (subst (asm) (2) frontier_loop.simps) (auto split: if_splits)
    obtain c h' where g: "grow_cap k t 1 0 = (c, h')" by (cases "grow_cap k t 1 0")
    then have "c = k ^ h' \<and> c \<le> t" using t grow_cap_le [of 1 k 0 t c h'] by simp
    moreover have "frontier_loop k lo t = (lo, h') # frontier_loop k (lo + c) (t - c)"
      using t g by (subst frontier_loop.simps) simp
    ultimately show ?case using 1 t g by force
  qed
  then show ?thesis using assms by (simp add: frontier_for_size_def)
qed

end
