(* ===== verification/Spine_Proof.thy ===== *)
theory Spine_Proof
  imports Spine_Topology
begin

unbundle bit_operations_syntax

text \<open>
  The abstract inclusion verifier of \<^verbatim>\<open>spine/src/proof.rs\<close>, the leaf proof of
  \<^verbatim>\<open>spine/src/leaf_proof.rs\<close> and the path generator \<^verbatim>\<open>within_subtree_path\<close> of
  \<^verbatim>\<open>spine/src/mr.rs\<close>.  The lemmas split the verifier into a shape check, a
  well-formedness check per step and the fold \<open>climb\<close>; two climbs of one shape that meet agree
  from the start on, or a hash anomaly is exhibited.
\<close>

section \<open>Proof steps and the verifier\<close>

record proof_step =
  ps_siblings :: "digest list"
  ps_position :: nat

type_synonym inclusion_proof = "proof_step list"
type_synonym skeleton_fn = "u64 \<Rightarrow> u64 \<Rightarrow> u64 \<Rightarrow> skeleton_step list option"

definition step_shape :: "proof_step \<Rightarrow> skeleton_step" where
  "step_shape s = \<lparr>sk_position = ps_position s, sk_sibling_count = length (ps_siblings s)\<rparr>"

definition constant_time_eq :: "bytes \<Rightarrow> bytes \<Rightarrow> bool" where
  "constant_time_eq a b =
     (if length a \<noteq> length b then False
      else fold (\<lambda>(x, y) result. result OR (x XOR y)) (zip a b) 0 = 0)"

definition verify_inclusion_path_structure ::
    "skeleton_step list \<Rightarrow> proof_step list \<Rightarrow> bool" where
  "verify_inclusion_path_structure skeleton path =
     (if length path < length skeleton then False
      else let d = length path - length skeleton
           in list_all (\<lambda>(step, shape). step_shape step = shape) (zip (drop d path) skeleton))"

text \<open>The loop that inserts the path node among its siblings.\<close>

fun place_siblings :: "nat \<Rightarrow> nat \<Rightarrow> digest \<Rightarrow> digest list \<Rightarrow> digest list" where
  "place_siblings i pos current [] = []"
| "place_siblings i pos current (sib # sibs) =
     (if i = pos then [current] else []) @ sib # place_siblings (Suc i) pos current sibs"

definition step_children :: "proof_step \<Rightarrow> digest \<Rightarrow> digest list" where
  "step_children step current =
     place_siblings 0 (ps_position step) current (ps_siblings step)
     @ (if ps_position step = length (ps_siblings step) then [current] else [])"

fun reconstruct_loop :: "hasher \<Rightarrow> nat \<Rightarrow> digest \<Rightarrow> proof_step list \<Rightarrow> digest option" where
  "reconstruct_loop h dl current [] = Some current"
| "reconstruct_loop h dl current (step # path) =
     (if 256 < length (ps_siblings step) then None
      else if list_ex (\<lambda>sib. length sib \<noteq> dl) (ps_siblings step) then None
      else if ps_siblings step = [] then None
      else if length (ps_siblings step) < ps_position step then None
      else reconstruct_loop h dl (nary_mr h (step_children step current)) path)"

definition reconstruct_inclusion_root ::
    "hasher \<Rightarrow> digest \<Rightarrow> skeleton_step list \<Rightarrow> proof_step list \<Rightarrow> digest option" where
  "reconstruct_inclusion_root h leaf_hash skeleton path =
     (let dl = length (hs_empty h)
      in if dl = 0 \<or> 64 < dl then None
         else if length leaf_hash \<noteq> dl then None
         else if 256 < length path then None
         else if \<not> verify_inclusion_path_structure skeleton path then None
         else reconstruct_loop h dl leaf_hash path)"

definition verify_inclusion ::
    "hasher \<Rightarrow> digest \<Rightarrow> skeleton_step list \<Rightarrow> proof_step list \<Rightarrow> digest \<Rightarrow> bool" where
  "verify_inclusion h leaf_hash skeleton path root =
     (case reconstruct_inclusion_root h leaf_hash skeleton path of
        None \<Rightarrow> False
      | Some computed \<Rightarrow> constant_time_eq computed root)"

record leaf_proof =
  lp_leaf_hash :: digest
  lp_index :: u64
  lp_tree_size :: u64
  lp_arity :: u64
  lp_path :: "proof_step list"

definition leaf_proof_verify ::
    "leaf_proof \<Rightarrow> hasher \<Rightarrow> skeleton_step list \<Rightarrow> digest \<Rightarrow> bool" where
  "leaf_proof_verify lp h skeleton root =
     verify_inclusion h (lp_leaf_hash lp) skeleton (lp_path lp) root"

section \<open>Paths inside a structured subtree\<close>

fun within_subtree_path :: "hasher \<Rightarrow> subtree \<Rightarrow> u64 \<Rightarrow> proof_step list option"
and within_children_path ::
    "hasher \<Rightarrow> subtree list \<Rightarrow> nat \<Rightarrow> u64 \<Rightarrow> subtree list \<Rightarrow> u64 \<Rightarrow> proof_step list option" where
  "within_subtree_path h (Leaf _) leaf_index = (if leaf_index = 0 then Some [] else None)"
| "within_subtree_path h (Node children) leaf_index =
     within_children_path h children 0 0 children leaf_index"
| "within_children_path h children child_idx cumulative_leaves [] leaf_index = None"
| "within_children_path h children child_idx cumulative_leaves (child # rest) leaf_index =
     (if leaf_index < cumulative_leaves + count_leaves child
      then (case within_subtree_path h child (leaf_index - cumulative_leaves) of
              None \<Rightarrow> None
            | Some path \<Rightarrow>
                Some (if 1 < length children
                      then path @ [\<lparr>ps_siblings = remove_nth child_idx (map (evaluate h) children),
                                    ps_position = child_idx\<rparr>]
                      else path))
      else within_children_path h children (Suc child_idx)
             (cumulative_leaves + count_leaves child) rest leaf_index)"

section \<open>The verifier as shape, well-formedness and fold\<close>

lemma word_xor_zero_iff:
  fixes b c :: u8
  shows "b XOR c = 0 \<longleftrightarrow> b = c"
proof
  assume "b XOR c = 0"
  then have "(b XOR c) XOR c = c" by simp
  then show "b = c" by (simp only: xor.assoc xor_self_eq xor.right_neutral)
qed simp

lemma fold_or_zero_iff:
  fixes r :: u8
  shows "fold (\<lambda>(x, y) r. r OR (x XOR y)) ps r = 0 \<longleftrightarrow> r = 0 \<and> (\<forall>(x, y) \<in> set ps. x = y)"
proof (induction ps arbitrary: r)
  case Nil
  then show ?case by simp
next
  case (Cons p ps)
  have "a OR (b XOR c) = 0 \<longleftrightarrow> a = 0 \<and> b = c" for a b c :: u8
    by (simp add: or_eq_0_iff word_xor_zero_iff)
  then show ?case by (auto simp: Cons.IH split: prod.splits)
qed

lemma constant_time_eq_iff [simp]: "constant_time_eq a b \<longleftrightarrow> a = b"
proof -
  have "fold (\<lambda>(x, y) r. r OR (x XOR y)) (zip a b) 0 = 0 \<longleftrightarrow> a = b" if "length a = length b"
    using that by (auto simp: fold_or_zero_iff set_zip list_eq_iff_nth_eq)
  then show ?thesis by (auto simp: constant_time_eq_def)
qed

lemma place_siblings_insert:
  "i \<le> pos \<Longrightarrow> pos < i + length sibs \<Longrightarrow>
     place_siblings i pos c sibs = insert_at (pos - i) c sibs"
proof (induction i pos c sibs rule: place_siblings.induct)
  case (2 i pos c sib sibs)
  have "place_siblings j p c xs = xs" if "p < j" for j p xs
    using that by (induction j p c xs rule: place_siblings.induct) auto
  with 2 show ?case
    by (cases "i = pos") (auto simp: insert_at_def Suc_diff_Suc [symmetric])
qed simp

lemma place_siblings_beyond:
  "i + length sibs \<le> pos \<Longrightarrow> place_siblings i pos c sibs = sibs"
  by (induction i pos c sibs rule: place_siblings.induct) auto

lemma step_children_insert:
  "ps_position s \<le> length (ps_siblings s) \<Longrightarrow>
     step_children s c = insert_at (ps_position s) c (ps_siblings s)"
  by (cases "ps_position s = length (ps_siblings s)")
    (auto simp: step_children_def place_siblings_insert place_siblings_beyond insert_at_def)

definition step_ok :: "nat \<Rightarrow> proof_step \<Rightarrow> bool" where
  "step_ok dl s \<longleftrightarrow> ps_siblings s \<noteq> [] \<and> length (ps_siblings s) \<le> 256
     \<and> ps_position s \<le> length (ps_siblings s) \<and> (\<forall>sib \<in> set (ps_siblings s). length sib = dl)"

definition apply_step :: "hasher \<Rightarrow> proof_step \<Rightarrow> digest \<Rightarrow> digest" where
  "apply_step h s c = nary_mr h (insert_at (ps_position s) c (ps_siblings s))"

fun climb :: "hasher \<Rightarrow> proof_step list \<Rightarrow> digest \<Rightarrow> digest" where
  "climb h [] c = c"
| "climb h (s # path) c = climb h path (apply_step h s c)"

lemma climb_append [simp, path_simps]: "climb h (p @ q) c = climb h q (climb h p c)"
  by (induction p arbitrary: c) auto

lemma apply_step_remove_nth [path_simps]:
  "i < length ds \<Longrightarrow> apply_step h \<lparr>ps_siblings = remove_nth i ds, ps_position = i\<rparr> (ds ! i) = nary_mr h ds"
  by (simp add: apply_step_def insert_at_remove_nth)

lemma reconstruct_loop_iff:
  "reconstruct_loop h dl c path = Some r \<longleftrightarrow> list_all (step_ok dl) path \<and> r = climb h path c"
  by (induction h dl c path rule: reconstruct_loop.induct)
    (auto simp: step_ok_def apply_step_def step_children_insert list_ex_iff)

lemma reconstruct_inclusion_root_iff:
  "reconstruct_inclusion_root h leaf sk path = Some r \<longleftrightarrow>
     width_ok h \<and> length leaf = digest_len h \<and> length path \<le> 256
     \<and> verify_inclusion_path_structure sk path
     \<and> list_all (step_ok (digest_len h)) path \<and> r = climb h path leaf"
  unfolding reconstruct_inclusion_root_def width_ok_def digest_len_def Let_def
  by (simp add: reconstruct_loop_iff)

lemma verify_inclusion_iff:
  "verify_inclusion h leaf sk path root \<longleftrightarrow>
     width_ok h \<and> length leaf = digest_len h \<and> length path \<le> 256
     \<and> verify_inclusion_path_structure sk path
     \<and> list_all (step_ok (digest_len h)) path \<and> climb h path leaf = root"
proof (cases "reconstruct_inclusion_root h leaf sk path")
  case None
  then have "reconstruct_inclusion_root h leaf sk path \<noteq> Some (climb h path leaf)" by simp
  with None show ?thesis
    unfolding reconstruct_inclusion_root_iff by (simp add: verify_inclusion_def) blast
next
  case (Some r)
  then have "verify_inclusion h leaf sk path root \<longleftrightarrow> r = root"
    by (simp add: verify_inclusion_def)
  with Some show ?thesis unfolding reconstruct_inclusion_root_iff by blast
qed

lemma structure_iff:
  "verify_inclusion_path_structure sk path \<longleftrightarrow>
     (\<exists>pre post. path = pre @ post \<and> map step_shape post = sk)"
proof
  assume *: "verify_inclusion_path_structure sk path"
  let ?d = "length path - length sk"
  have len: "length sk \<le> length path" using * by (auto simp: verify_inclusion_path_structure_def split: if_splits)
  then have "list_all2 (\<lambda>a b. step_shape a = b) (drop ?d path) sk"
    using * by (auto simp: verify_inclusion_path_structure_def list_all2_iff list_all_iff Let_def)
  then have "map step_shape (drop ?d path) = sk"
    by (induction rule: list_all2_induct) auto
  then show "\<exists>pre post. path = pre @ post \<and> map step_shape post = sk"
    by (metis append_take_drop_id)
next
  assume "\<exists>pre post. path = pre @ post \<and> map step_shape post = sk"
  then obtain pre post where "path = pre @ post" "sk = map step_shape post" by auto
  then show "verify_inclusion_path_structure sk path"
    by (auto simp: verify_inclusion_path_structure_def list_all_length)
qed

lemma structure_exact: "map step_shape path = sk \<Longrightarrow> verify_inclusion_path_structure sk path"
  by (auto simp: structure_iff)

lemma structure_same_length:
  assumes "length path = length sk"
  shows "verify_inclusion_path_structure sk path \<longleftrightarrow> map step_shape path = sk"
proof
  assume "verify_inclusion_path_structure sk path"
  then obtain pre post where "path = pre @ post" "map step_shape post = sk"
    by (auto simp: structure_iff)
  with assms show "map step_shape path = sk" by auto
qed (rule structure_exact)

lemma length_climb:
  assumes "fixed_width h" "list_all (step_ok (digest_len h)) path" "length c = digest_len h"
  shows "length (climb h path c) = digest_len h"
  using assms(2,3)
proof (induction path arbitrary: c)
  case (Cons s path)
  have "length x = digest_len h" if "x \<in> set (insert_at (ps_position s) c (ps_siblings s))" for x
    using that Cons.prems by (auto simp: insert_at_def step_ok_def dest: in_set_takeD in_set_dropD)
  then have "length (apply_step h s c) = digest_len h"
    unfolding apply_step_def by (intro length_nary_mr assms(1))
  then show ?case using Cons.prems by (auto intro: Cons.IH)
qed simp

section \<open>Binding: two climbs of one shape\<close>

text \<open>
  The child lists a climb hashes, from the leaf up, and the pairs of lists of two climbs at the
  same level that the fold cannot tell apart: a collision of the node hash, or a collapse onto
  the value of a hashed node.
\<close>

fun climb_children :: "hasher \<Rightarrow> proof_step list \<Rightarrow> digest \<Rightarrow> digest list list" where
  "climb_children h [] c = []"
| "climb_children h (s # path) c =
     insert_at (ps_position s) c (ps_siblings s) # climb_children h path (apply_step h s c)"

definition confused :: "hasher \<Rightarrow> digest list \<Rightarrow> digest list \<Rightarrow> bool" where
  "confused h cs ds \<longleftrightarrow> node_collision h cs ds \<or> collapse_clash h cs ds \<or> collapse_clash h ds cs"

lemma apply_step_inj:
  assumes eq: "apply_step h s a = apply_step h t b"
    and sh: "step_shape s = step_shape t" and ok: "step_ok dl s"
  shows "(a = b \<and> s = t) \<or>
    confused h (insert_at (ps_position s) a (ps_siblings s))
      (insert_at (ps_position t) b (ps_siblings t))"
proof -
  let ?cs = "insert_at (ps_position s) a (ps_siblings s)"
  let ?ds = "insert_at (ps_position t) b (ps_siblings t)"
  have shape: "ps_position s = ps_position t" "length (ps_siblings s) = length (ps_siblings t)"
    using sh by (simp_all add: step_shape_def)
  have "ps_siblings s \<noteq> []" "ps_position s \<le> length (ps_siblings s)"
    using ok by (simp_all add: step_ok_def)
  then have len: "length ?cs = length ?ds" "2 \<le> length ?cs"
    using shape by (auto simp: Suc_le_eq simp flip: length_greater_0_conv)
  consider "?cs = ?ds" | "confused h ?cs ?ds"
    using nary_mr_inj [OF eq [unfolded apply_step_def] len] by (auto simp: confused_def)
  then show ?thesis
  proof cases
    case 1
    then have "a = b \<and> ps_siblings s = ps_siblings t"
      using insert_at_inject [of "ps_position s" a "ps_siblings s" b "ps_siblings t"] shape
        \<open>ps_position s \<le> length (ps_siblings s)\<close> by simp
    then show ?thesis using shape(1) by simp
  qed simp
qed

lemma climb_binding:
  assumes "map step_shape p = map step_shape q" "list_all (step_ok dl) p"
    and "climb h p a = climb h q b"
  shows "(a = b \<and> p = q) \<or>
    (\<exists>(cs, ds) \<in> set (zip (climb_children h p a) (climb_children h q b)). confused h cs ds)"
  using assms
proof (induction p arbitrary: q a b)
  case Nil
  then show ?case by simp
next
  case (Cons s p)
  then obtain t q' where q: "q = t # q'" by (cases q) auto
  then consider "apply_step h s a = apply_step h t b" "p = q'"
    | "\<exists>(cs, ds) \<in> set (zip (climb_children h p (apply_step h s a))
        (climb_children h q' (apply_step h t b))). confused h cs ds"
    using Cons.IH [of q' "apply_step h s a" "apply_step h t b"] Cons.prems by auto
  then show ?case
  proof cases
    case 1
    then show ?thesis
      using apply_step_inj [of h s a t b dl] Cons.prems q by auto
  qed (use q in auto)
qed

section \<open>Subtree paths\<close>

fun fan :: "subtree \<Rightarrow> nat" where
  "fan (Leaf _) = 1"
| "fan (Node ts) = fold max (map fan ts) (length ts)"

fun depth :: "subtree \<Rightarrow> nat" where
  "depth (Leaf _) = 0"
| "depth (Node ts) = Suc (fold max (map depth ts) 0)"

lemma le_fold_max_base: "a \<le> fold max xs (a::nat)"
proof (induction xs arbitrary: a)
  case (Cons x xs)
  show ?case using Cons.IH [of "max x a"] by simp
qed simp

lemma le_fold_max: "x \<in> set xs \<Longrightarrow> x \<le> fold max xs (a::nat)"
proof (induction xs arbitrary: a)
  case (Cons y xs)
  then show ?case using le_fold_max_base [of "max y a" xs] by auto
qed simp

lemma concat_nth_block:
  assumes "j < length xss" "sum_list (map length (take j xss)) \<le> i"
    "i < sum_list (map length (take (Suc j) xss))"
  shows "concat xss ! i = (xss ! j) ! (i - sum_list (map length (take j xss)))"
  using assms
proof (induction xss arbitrary: i j)
  case (Cons xs xss)
  show ?case
  proof (cases j)
    case 0
    then show ?thesis using Cons.prems by (simp add: nth_append)
  next
    case (Suc j')
    then have "\<not> i < length xs" using Cons.prems(2) by simp
    moreover have "concat xss ! (i - length xs)
        = (xss ! j') ! (i - length xs - sum_list (map length (take j' xss)))"
      using Cons.prems Suc by (intro Cons.IH) auto
    ultimately show ?thesis using Suc by (simp add: nth_append)
  qed
qed simp

definition path_reaches ::
    "hasher \<Rightarrow> digest \<Rightarrow> nat \<Rightarrow> nat \<Rightarrow> nat \<Rightarrow> proof_step list \<Rightarrow> digest \<Rightarrow> bool" where
  "path_reaches h leaf dl width len path goal \<longleftrightarrow>
     climb h path leaf = goal \<and> length path \<le> len
     \<and> (\<forall>s \<in> set path. ps_siblings s \<noteq> [] \<and> length (ps_siblings s) < width
          \<and> ps_position s \<le> length (ps_siblings s) \<and> (\<forall>sib \<in> set (ps_siblings s). length sib = dl))"

lemma path_reaches_step_ok:
  "path_reaches h leaf dl width len path goal \<Longrightarrow> width \<le> 257 \<Longrightarrow> list_all (step_ok dl) path"
  by (auto simp: path_reaches_def step_ok_def list_all_iff)

definition extend_path :: "hasher \<Rightarrow> subtree list \<Rightarrow> nat \<Rightarrow> proof_step list \<Rightarrow> proof_step list" where
  "extend_path h ts j path =
     (if 1 < length ts
      then path @ [\<lparr>ps_siblings = remove_nth j (map (evaluate h) ts), ps_position = j\<rparr>]
      else path)"

text \<open>
  Every leaf of a structured subtree has a path, and it climbs from the leaf's digest to the
  value of the subtree; promoted nodes contribute no step.
\<close>

lemma path_reaches_Node:
  assumes fw: "fixed_width h" and j: "j < length ts"
    and sub: "path_reaches h leaf (digest_len h) w d path (evaluate h (ts ! j))"
    and w: "w \<le> w'" "length ts \<le> w'"
  shows "path_reaches h leaf (digest_len h) w' (Suc d)
     (extend_path h ts j path)
     (evaluate h (Node ts))"
proof (cases "1 < length ts")
  case True
  let ?s = "\<lparr>ps_siblings = remove_nth j (map (evaluate h) ts), ps_position = j\<rparr>"
  have "apply_step h ?s (evaluate h (ts ! j)) = evaluate h (Node ts)"
    using apply_step_remove_nth [of j "map (evaluate h) ts" h] j by simp
  moreover have "length (remove_nth j (map (evaluate h) ts)) = length ts - 1" using j by simp
  moreover have "\<forall>x \<in> set (remove_nth j (map (evaluate h) ts)). length x = digest_len h"
    using set_remove_nth_subset [of j "map (evaluate h) ts"] fw by (auto simp: length_evaluate)
  ultimately show ?thesis
    using True j sub w unfolding path_reaches_def extend_path_def
    by (auto simp flip: length_greater_0_conv intro: less_le_trans)
next
  case False
  with j have "ts = [ts ! j]" by (cases ts) auto
  then have "evaluate h (Node ts) = evaluate h (ts ! j)" by (metis evaluate_promote)
  then show ?thesis using False sub w unfolding path_reaches_def extend_path_def by (auto intro: less_le_trans)
qed

definition leaves_before :: "subtree list \<Rightarrow> nat \<Rightarrow> nat" where
  "leaves_before ts j = sum_list (map count_leaves (take j ts))"

lemma leaves_before_Suc:
  "j < length ts \<Longrightarrow> leaves_before ts (Suc j) = leaves_before ts j + count_leaves (ts ! j)"
  by (simp add: leaves_before_def take_Suc_conv_app_nth)

lemma within_children_path_step:
  assumes "c < length ts"
  shows "within_children_path h ts c (leaves_before ts c) (drop c ts) i =
     (if i < leaves_before ts (Suc c)
      then map_option (extend_path h ts c) (within_subtree_path h (ts ! c) (i - leaves_before ts c))
      else within_children_path h ts (Suc c) (leaves_before ts (Suc c)) (drop (Suc c) ts) i)"
proof -
  have dc: "drop c ts = ts ! c # drop (Suc c) ts" using assms by (simp add: Cons_nth_drop_Suc)
  show ?thesis
    by (simp only: dc within_children_path.simps leaves_before_Suc [OF assms])
      (simp add: extend_path_def [abs_def] split: option.split)
qed

lemma within_children_path_finds:
  assumes "c \<le> length ts" "leaves_before ts c \<le> i" "i < count_leaves (Node ts)"
  shows "\<exists>j < length ts. leaves_before ts j \<le> i \<and> i < leaves_before ts (Suc j)
    \<and> within_children_path h ts c (leaves_before ts c) (drop c ts) i =
        map_option (extend_path h ts j) (within_subtree_path h (ts ! j) (i - leaves_before ts j))"
  using assms
proof (induction "length ts - c" arbitrary: c)
  case 0
  then show ?case by (simp add: leaves_before_def)
next
  case (Suc n)
  then have c: "c < length ts" by simp
  show ?case
  proof (cases "i < leaves_before ts (Suc c)")
    case True
    then show ?thesis using Suc.prems(2) c within_children_path_step [OF c, of h i] by auto
  next
    case False
    have "n = length ts - Suc c" "Suc c \<le> length ts" "leaves_before ts (Suc c) \<le> i"
      using Suc.hyps(2) c False by simp_all
    from Suc.hyps(1) [OF this Suc.prems(3)] show ?thesis
      using False within_children_path_step [OF c, of h i] by simp
  qed
qed

lemma payloads_nth:
  assumes "j < length ts" "leaves_before ts j \<le> i" "i < leaves_before ts (Suc j)"
  shows "payloads (Node ts) ! i = payloads (ts ! j) ! (i - leaves_before ts j)"
proof -
  have eq: "leaves_before ts m = sum_list (map length (take m (map payloads ts)))" for m
    by (simp add: leaves_before_def count_leaves_payloads [abs_def] take_map o_def)
  show ?thesis
    using concat_nth_block [of j "map payloads ts" i] assms by (simp add: eq)
qed

lemma within_subtree_path_reaches:
  assumes "fixed_width h"
  shows "i < count_leaves t \<Longrightarrow> \<exists>path. within_subtree_path h t i = Some path
      \<and> path_reaches h (hs_leaf h (payloads t ! i)) (digest_len h) (fan t) (depth t) path (evaluate h t)"
proof (induction t arbitrary: i)
  case (Leaf data)
  then show ?case by (simp add: path_reaches_def)
next
  case (Node ts)
  obtain j where j: "j < length ts" "leaves_before ts j \<le> i" "i < leaves_before ts (Suc j)"
    and eq: "within_subtree_path h (Node ts) i =
        map_option (extend_path h ts j) (within_subtree_path h (ts ! j) (i - leaves_before ts j))"
    using within_children_path_finds [of 0 ts i h] Node.prems by (auto simp: leaves_before_def)
  have "i - leaves_before ts j < count_leaves (ts ! j)" using j by (simp add: leaves_before_Suc)
  then obtain path where path: "within_subtree_path h (ts ! j) (i - leaves_before ts j) = Some path"
      "path_reaches h (hs_leaf h (payloads (Node ts) ! i)) (digest_len h) (fan (ts ! j))
         (depth (ts ! j)) path (evaluate h (ts ! j))"
    using Node.IH [of "ts ! j"] j payloads_nth [OF j] by (metis nth_mem)
  have "fan (ts ! j) \<le> fan (Node ts)" "length ts \<le> fan (Node ts)"
    "depth (ts ! j) \<le> fold max (map depth ts) 0"
    using j(1) by (auto intro!: le_fold_max le_fold_max_base)
  then have "path_reaches h (hs_leaf h (payloads (Node ts) ! i)) (digest_len h) (fan (ts ! j))
         (fold max (map depth ts) 0) path (evaluate h (ts ! j))"
    using path(2) by (auto simp: path_reaches_def)
  from path_reaches_Node [OF assms j(1) this \<open>fan (ts ! j) \<le> fan (Node ts)\<close> \<open>length ts \<le> fan (Node ts)\<close>]
  show ?case using eq path(1) by simp
qed

lemma within_subtree_path_None: "count_leaves t \<le> i \<Longrightarrow> within_subtree_path h t i = None"
proof (induction t arbitrary: i)
  case (Node ts)
  have "leaves_before ts c + sum_list (map count_leaves (drop c ts)) \<le> i \<Longrightarrow>
    within_children_path h cs c' (leaves_before ts c) (drop c ts) i = None" if "c \<le> length ts" for c c' cs
    using that
  proof (induction "length ts - c" arbitrary: c c')
    case (Suc n)
    then have c: "c < length ts" by simp
    have d: "drop c ts = ts ! c # drop (Suc c) ts" using c by (simp add: Cons_nth_drop_Suc)
    have "within_children_path h cs (Suc c') (leaves_before ts (Suc c)) (drop (Suc c) ts) i = None"
      using Suc.hyps(2) Suc.prems c d by (intro Suc.hyps(1)) (auto simp: leaves_before_Suc)
    then show ?case using c Suc.prems(1)
      by (simp add: d leaves_before_Suc [OF c, symmetric] del: drop_Suc)
        (simp add: leaves_before_Suc)
  qed simp
  from this [of 0 ts 0] Node.prems show ?case by (simp add: leaves_before_def)
qed simp

section \<open>Properties of the verifier\<close>

definition toy_hasher :: hasher where
  "toy_hasher = \<lparr>hs_leaf = (\<lambda>d. [sum_list d + 1]), hs_node = (\<lambda>cs. [sum_list (map hd cs) + 7]),
     hs_empty = [0], hs_hash = (\<lambda>d. [sum_list d + 3])\<rparr>"

lemma toy_hasher_fixed_width: "fixed_width toy_hasher"
  by (simp add: fixed_width_def toy_hasher_def digest_len_def)

lemma toy_hasher_digest_len: "digest_len toy_hasher = 1"
  by (simp add: toy_hasher_def digest_len_def)

lemma toy_hasher_width_ok: "width_ok toy_hasher"
  by (simp add: width_ok_def toy_hasher_def digest_len_def)

lemma insert_at_replicate: "i \<le> n \<Longrightarrow> insert_at i v (replicate n v) = replicate (Suc n) v"
  by (simp add: insert_at_def min_def replicate_add [symmetric] replicate_append_same
      flip: replicate_Suc replicate_add)

definition forged_step :: "digest \<Rightarrow> skeleton_step \<Rightarrow> proof_step" where
  "forged_step root s =
     \<lparr>ps_siblings = replicate (sk_sibling_count s) root, ps_position = sk_position s\<rparr>"

definition skeleton_ok :: "skeleton_step list \<Rightarrow> bool" where
  "skeleton_ok sk \<longleftrightarrow> length sk \<le> 256 \<and>
     list_all (\<lambda>s. 1 \<le> sk_sibling_count s \<and> sk_sibling_count s \<le> 256
       \<and> sk_position s \<le> sk_sibling_count s) sk"

lemma climb_forged:
  assumes "list_all (\<lambda>s. sk_position s \<le> sk_sibling_count s) sk"
  shows "climb h (map (forged_step root) sk) root = root"
  using assms
  by (induction sk)
    (simp_all add: apply_step_def forged_step_def insert_at_replicate nary_mr_replicate
      del: replicate_Suc)

lemma map_step_shape_forged: "map step_shape (map (forged_step root) sk) = sk"
  by (induction sk) (simp_all add: step_shape_def forged_step_def)

text \<open>
  The collapse arm makes the root its own member: for every root of the digest width and
  every skeleton with well-formed steps, the verifier accepts the root as a leaf hash, at the
  position the skeleton names, under a path whose siblings are all the root.
\<close>

theorem collapse_forgery:
  assumes "width_ok h" "length root = digest_len h" "skeleton_ok sk"
  shows "verify_inclusion h root sk (map (forged_step root) sk) root"
proof -
  have "list_all (step_ok (digest_len h)) (map (forged_step root) sk)"
    using assms(2,3) by (auto simp: skeleton_ok_def list_all_iff step_ok_def forged_step_def)
  moreover have "verify_inclusion_path_structure sk (map (forged_step root) sk)"
    by (intro structure_exact map_step_shape_forged)
  moreover have "climb h (map (forged_step root) sk) root = root"
    using assms(3) by (intro climb_forged) (auto simp: skeleton_ok_def list_all_iff)
  ultimately show ?thesis
    using assms unfolding verify_inclusion_iff by (simp add: skeleton_ok_def)
qed

theorem collapse_forgery_witness:
  "verify_inclusion toy_hasher [9] [\<lparr>sk_position = 1, sk_sibling_count = 2\<rparr>]
     (map (forged_step [9]) [\<lparr>sk_position = 1, sk_sibling_count = 2\<rparr>]) [9]"
  by (rule collapse_forgery [OF toy_hasher_width_ok])
    (simp_all add: skeleton_ok_def toy_hasher_def digest_len_def)

text \<open>
  The verifier is complete and exact: it accepts if and only if the digest width is in
  range, the leaf has it, the path has at most 256 steps, the tail of the path has the shape of
  the skeleton, every step is well formed, and folding the path from the leaf gives the root.
\<close>

theorem verify_inclusion_spec:
  "verify_inclusion h leaf sk path root \<longleftrightarrow>
     width_ok h \<and> length leaf = digest_len h \<and> length path \<le> 256
     \<and> (\<exists>pre post. path = pre @ post \<and> map step_shape post = sk)
     \<and> list_all (step_ok (digest_len h)) path \<and> climb h path leaf = root"
  unfolding verify_inclusion_iff structure_iff ..

text \<open>
  C18. Binding: two accepted proofs of the skeleton's own length under one root carry the same
  leaf digest and the same siblings, or two child lists at one level are exhibited that the
  node fold does not tell apart (a collision, or a collapse onto a hashed node).
\<close>

theorem inclusion_binding:
  assumes "verify_inclusion h a sk p root" "verify_inclusion h b sk q root"
    and "length p = length sk" "length q = length sk"
  shows "(a = b \<and> p = q) \<or>
    (\<exists>(cs, ds) \<in> set (zip (climb_children h p a) (climb_children h q b)). confused h cs ds)"
proof (rule climb_binding)
  have "map step_shape p = sk" "map step_shape q = sk"
    using assms by (simp_all add: verify_inclusion_iff structure_same_length)
  then show "map step_shape p = map step_shape q" by simp
  show "list_all (step_ok (digest_len h)) p" using assms(1) by (simp add: verify_inclusion_iff)
  show "climb h p a = climb h q b" using assms(1,2) by (simp add: verify_inclusion_iff)
qed

theorem inclusion_binding_witness: "confused toy_hasher [[5], [6]] [[4], [7]]"
proof -
  let ?sk = "[\<lparr>sk_position = 0, sk_sibling_count = 1\<rparr>]"
  let ?p = "[\<lparr>ps_siblings = [[6]], ps_position = 0\<rparr>]"
  let ?q = "[\<lparr>ps_siblings = [[7]], ps_position = 0\<rparr>]"
  have "verify_inclusion toy_hasher [5] ?sk ?p [18]" "verify_inclusion toy_hasher [4] ?sk ?q [18]"
    by code_simp+
  from inclusion_binding [OF this] show ?thesis by (simp add: insert_at_def)
qed

text \<open>
  Paths inside a structured subtree are complete: every leaf index below the leaf count
  has a path, no other index has one, and the path verifies from the leaf's digest to the
  subtree's value under the empty skeleton, for subtrees of fan-out at most 257 and depth at
  most 256 and a hasher that keeps its width contract.
\<close>

theorem within_subtree_path_complete:
  assumes "fixed_width h" "width_ok h" "fan t \<le> 257" "depth t \<le> 256"
  shows "(case within_subtree_path h t i of
      None \<Rightarrow> count_leaves t \<le> i
    | Some path \<Rightarrow> i < count_leaves t
        \<and> verify_inclusion h (hs_leaf h (payloads t ! i)) [] path (evaluate h t))"
proof (cases "i < count_leaves t")
  case True
  from within_subtree_path_reaches [OF assms(1) this] obtain path where
    "within_subtree_path h t i = Some path" and
    pr: "path_reaches h (hs_leaf h (payloads t ! i)) (digest_len h) (fan t) (depth t) path (evaluate h t)"
    by blast
  moreover have "verify_inclusion h (hs_leaf h (payloads t ! i)) [] path (evaluate h t)"
    using pr path_reaches_step_ok [OF pr assms(3)] assms unfolding verify_inclusion_spec
    by (auto simp: path_reaches_def fixed_width_simps)
  ultimately show ?thesis using True by simp
next
  case False
  then show ?thesis using within_subtree_path_None by (simp add: not_less)
qed

theorem within_subtree_path_complete_witness:
  "case within_subtree_path toy_hasher (Node [Leaf [1], Node [Leaf [2], Leaf [3]]]) 2 of
      None \<Rightarrow> count_leaves (Node [Leaf [1], Node [Leaf [2], Leaf [3]]]) \<le> 2
    | Some path \<Rightarrow> 2 < count_leaves (Node [Leaf [1], Node [Leaf [2], Leaf [3]]])
        \<and> verify_inclusion toy_hasher
            (hs_leaf toy_hasher (payloads (Node [Leaf [1], Node [Leaf [2], Leaf [3]]]) ! 2)) [] path
            (evaluate toy_hasher (Node [Leaf [1], Node [Leaf [2], Leaf [3]]]))"
  by (rule within_subtree_path_complete)
    (simp_all add: toy_hasher_fixed_width toy_hasher_width_ok)

end
