(* ===== verification/Spine_Seal.thy ===== *)
theory Spine_Seal
  imports Spine_Proof
begin

text \<open>
  The seal of \<^verbatim>\<open>spine/src/seal.rs\<close> with its metadata channel (\<^verbatim>\<open>spine/src/metadata.rs\<close>)
  and errors (\<^verbatim>\<open>spine/src/error.rs\<close>).  The bagging function is a parameter of the derived
  views, as in the source; what the two topologies of the repository promise of it is the
  locale \<open>bagging\<close>, interpreted beside each of them.
\<close>

section \<open>Definitions\<close>

type_synonym bag_fn = "hasher \<Rightarrow> digest list \<Rightarrow> u64 \<Rightarrow> digest"

datatype spine_error = BadArity | MalformedFrontier | MissingHasher alg_id

datatype meta = Meta bytes

fun meta_as_bytes :: "meta \<Rightarrow> bytes" where
  "meta_as_bytes (Meta bs) = bs"

definition meta_is_empty :: "meta \<Rightarrow> bool" where
  "meta_is_empty m \<longleftrightarrow> meta_as_bytes m = []"

definition meta_len :: "meta \<Rightarrow> nat" where
  "meta_len m = length (meta_as_bytes m)"

record run_extent =
  re_left :: u64
  re_height :: u32

definition run_span :: "run_extent \<Rightarrow> u64 \<Rightarrow> u64" where
  "run_span r k = k ^ re_height r"

record seal =
  sl_tree_size :: u64
  sl_arity :: u64
  sl_frontiers :: "(alg_id \<times> digest list) list"
  sl_meta :: "meta option"

definition seal_new :: "u64 \<Rightarrow> u64 \<Rightarrow> (alg_id \<times> digest list) list \<Rightarrow> spine_error + seal" where
  "seal_new tree_size arity frontiers =
     (if \<not> arity_ok arity then Inl BadArity
      else let expected = length (frontier_for_size tree_size arity)
           in if list_ex (\<lambda>(_, peaks). length peaks \<noteq> expected) frontiers
              then Inl MalformedFrontier
              else Inr \<lparr>sl_tree_size = tree_size, sl_arity = arity, sl_frontiers = frontiers,
                        sl_meta = None\<rparr>)"

definition seal_with_meta :: "seal \<Rightarrow> meta \<Rightarrow> seal" where
  "seal_with_meta s m = s\<lparr>sl_meta := Some m\<rparr>"

definition seal_peaks :: "seal \<Rightarrow> alg_id \<Rightarrow> digest list option" where
  "seal_peaks s alg = map_option snd (find (\<lambda>(id, _). id = alg) (sl_frontiers s))"

definition find_hasher :: "(alg_id \<times> hasher) list \<Rightarrow> alg_id \<Rightarrow> hasher option" where
  "find_hasher hashers alg = map_option snd (find (\<lambda>(hid, _). hid = alg) hashers)"

definition seal_member_roots ::
    "seal \<Rightarrow> (alg_id \<times> hasher) list \<Rightarrow> bag_fn \<Rightarrow> (alg_id \<times> digest) list" where
  "seal_member_roots s hashers bag =
     List.map_filter (\<lambda>(id, peaks).
       case find_hasher hashers id of
         None \<Rightarrow> None
       | Some h \<Rightarrow> Some (id, bag h peaks (sl_arity s))) (sl_frontiers s)"

definition seal_member_root :: "seal \<Rightarrow> alg_id \<Rightarrow> hasher \<Rightarrow> bag_fn \<Rightarrow> digest option" where
  "seal_member_root s alg h bag = map_option (\<lambda>peaks. bag h peaks (sl_arity s)) (seal_peaks s alg)"

definition seal_all_member_roots ::
    "seal \<Rightarrow> (alg_id \<times> hasher) list \<Rightarrow> bag_fn \<Rightarrow> spine_error + (alg_id \<times> digest) list" where
  "seal_all_member_roots s hashers bag =
     mapE (\<lambda>(id, peaks).
       case find_hasher hashers id of
         None \<Rightarrow> Inl (MissingHasher id)
       | Some h \<Rightarrow> Inr (id, bag h peaks (sl_arity s))) (sl_frontiers s)"

definition seal_run_extents :: "seal \<Rightarrow> run_extent list" where
  "seal_run_extents s =
     map (\<lambda>(left, height). \<lparr>re_left = left, re_height = height\<rparr>)
       (filter (\<lambda>(_, height). 1 \<le> height) (frontier_for_size (sl_tree_size s) (sl_arity s)))"

section \<open>The bagging interface\<close>

text \<open>
  What a client of \<^verbatim>\<open>BagFn\<close> relies on: a lone peak is its own root, and bagging peaks of
  the digest width gives a digest of that width.
\<close>

locale bagging =
  fixes bag :: bag_fn
  assumes bag_single: "bag h [p] k = p"
    and bag_width: "fixed_width h \<Longrightarrow> 2 \<le> k \<Longrightarrow> ps \<noteq> [] \<Longrightarrow>
      (\<And>p. p \<in> set ps \<Longrightarrow> length p = digest_len h) \<Longrightarrow> length (bag h ps k) = digest_len h"
begin

lemma member_root_single:
  "seal_peaks s alg = Some [p] \<Longrightarrow> seal_member_root s alg h bag = Some p"
  by (simp add: seal_member_root_def bag_single)

lemma member_root_width:
  assumes "fixed_width h" "2 \<le> sl_arity s" "seal_peaks s alg = Some ps" "ps \<noteq> []"
    and "\<And>p. p \<in> set ps \<Longrightarrow> length p = digest_len h"
  shows "\<exists>r. seal_member_root s alg h bag = Some r \<and> length r = digest_len h"
  using assms by (simp add: seal_member_root_def bag_width)

end

section \<open>Lemmas\<close>

lemma seal_new_Inr_iff:
  "seal_new n k fs = Inr s \<longleftrightarrow>
     arity_ok k \<and> (\<forall>(_, ps) \<in> set fs. length ps = length (frontier_for_size n k))
     \<and> s = \<lparr>sl_tree_size = n, sl_arity = k, sl_frontiers = fs, sl_meta = None\<rparr>"
  by (auto simp: seal_new_def list_ex_iff Let_def)

lemma seal_peaks_Some: "seal_peaks s alg = Some ps \<Longrightarrow> (alg, ps) \<in> set (sl_frontiers s)"
  by (auto simp: seal_peaks_def find_Some_iff) (metis nth_mem)

lemma find_hasher_None: "find_hasher hs alg = None \<longleftrightarrow> alg \<notin> fst ` set hs"
  by (force simp: find_hasher_def find_None_iff)

lemma find_alg_eq_map_of: "map_option snd (find (\<lambda>(i, _). i = a) xs) = map_of xs a"
  by (induction xs) auto

lemma seal_peaks_map_of: "seal_peaks s alg = map_of (sl_frontiers s) alg"
  by (simp add: seal_peaks_def find_alg_eq_map_of)

lemma find_hasher_map_of: "find_hasher hs alg = map_of hs alg"
  by (simp add: find_hasher_def find_alg_eq_map_of)

lemma all_member_roots_Inr_iff:
  "seal_all_member_roots s hs bag = Inr rs \<longleftrightarrow>
     fst ` set (sl_frontiers s) \<subseteq> fst ` set hs \<and> rs = seal_member_roots s hs bag"
proof -
  have "mapE (\<lambda>(id, peaks). case find_hasher hs id of None \<Rightarrow> Inl (MissingHasher id)
          | Some h \<Rightarrow> Inr (id, bag h peaks k)) fs = Inr rs \<longleftrightarrow>
     fst ` set fs \<subseteq> fst ` set hs
     \<and> rs = List.map_filter (\<lambda>(id, peaks). case find_hasher hs id of None \<Rightarrow> None
          | Some h \<Rightarrow> Some (id, bag h peaks k)) fs" for fs k rs
  proof (induction fs arbitrary: rs)
    case (Cons f fs)
    obtain id peaks where "f = (id, peaks)" by (cases f)
    then show ?case
      using find_hasher_None [of hs id] Cons.IH
      by (cases "find_hasher hs id") (auto simp: map_filter_simps bindE_Inr_iff)
  qed (auto simp: map_filter_simps)
  then show ?thesis by (simp add: seal_all_member_roots_def seal_member_roots_def)
qed

lemma member_roots_algs:
  "fst ` set (sl_frontiers s) \<subseteq> fst ` set hs \<Longrightarrow>
     map fst (seal_member_roots s hs bag) = map fst (sl_frontiers s)"
proof -
  have "fst ` set fs \<subseteq> fst ` set hs \<Longrightarrow>
     map fst (List.map_filter (\<lambda>(id, peaks). case find_hasher hs id of None \<Rightarrow> None
          | Some h \<Rightarrow> Some (id, bag h peaks k)) fs) = map fst fs" for fs k
  proof (induction fs)
    case (Cons f fs)
    obtain id peaks where "f = (id, peaks)" by (cases f)
    then show ?case
      using find_hasher_None [of hs id] Cons
      by (cases "find_hasher hs id") (auto simp: map_filter_simps)
  qed (simp add: map_filter_simps)
  then show "fst ` set (sl_frontiers s) \<subseteq> fst ` set hs \<Longrightarrow>
     map fst (seal_member_roots s hs bag) = map fst (sl_frontiers s)"
    by (simp add: seal_member_roots_def)
qed

lemma all_member_roots_Inl:
  assumes "seal_all_member_roots s hs bag = Inl e"
  shows "\<exists>pre alg peaks post. sl_frontiers s = pre @ (alg, peaks) # post
    \<and> e = MissingHasher alg \<and> alg \<notin> fst ` set hs \<and> fst ` set pre \<subseteq> fst ` set hs"
proof -
  have "mapE (\<lambda>(id, peaks). case find_hasher hs id of None \<Rightarrow> Inl (MissingHasher id)
          | Some h \<Rightarrow> Inr (id, bag h peaks k)) fs = Inl e \<Longrightarrow>
    \<exists>pre alg peaks post. fs = pre @ (alg, peaks) # post
    \<and> e = MissingHasher alg \<and> alg \<notin> fst ` set hs \<and> fst ` set pre \<subseteq> fst ` set hs" for fs k
  proof (induction fs)
    case (Cons f fs)
    obtain id peaks where f: "f = (id, peaks)" by (cases f)
    show ?case
    proof (cases "find_hasher hs id")
      case None
      then show ?thesis using Cons.prems f find_hasher_None [of hs id]
        by (intro exI [of _ "[]"]) auto
    next
      case (Some h)
      then have "id \<in> fst ` set hs" using find_hasher_None [of hs id] by auto
      moreover obtain pre alg peaks' post where "fs = pre @ (alg, peaks') # post"
        "e = MissingHasher alg" "alg \<notin> fst ` set hs" "fst ` set pre \<subseteq> fst ` set hs"
        using Cons Some f by (auto simp: bindE_Inl_iff)
      ultimately show ?thesis using f
        by (intro exI [of _ "(id, peaks) # pre"]) auto
    qed
  qed simp
  then show ?thesis using assms by (simp add: seal_all_member_roots_def)
qed

section \<open>Properties\<close>

text \<open>
  A seal is constructed exactly for an arity in \<open>2..256\<close> and frontiers with one peak per
  perfect subtree of the sealed size; attaching metadata changes nothing else and reads back.
\<close>

theorem seal_new_spec:
  "(seal_new n k fs = Inr s \<longleftrightarrow>
     arity_ok k \<and> list_all (\<lambda>(_, ps). length ps = length (frontier_for_size n k)) fs
     \<and> s = \<lparr>sl_tree_size = n, sl_arity = k, sl_frontiers = fs, sl_meta = None\<rparr>)
   \<and> (seal_new n k fs = Inl BadArity \<longleftrightarrow> \<not> arity_ok k)
   \<and> sl_meta (seal_with_meta s m) = Some m
   \<and> (seal_with_meta s m)\<lparr>sl_meta := sl_meta s\<rparr> = s"
proof -
  have "seal_new n k fs = Inl BadArity \<longleftrightarrow> \<not> arity_ok k" by (simp add: seal_new_def Let_def)
  then show ?thesis by (simp add: seal_new_Inr_iff list_all_iff seal_with_meta_def)
qed

text \<open>
  The complete member-root list never truncates: it is an error that names the first sealed
  algorithm without a hasher, or it lists every sealed algorithm in sealed order and agrees with
  the partial view.
\<close>

theorem all_member_roots_complete:
  "case seal_all_member_roots s hs bag of
     Inr rs \<Rightarrow> map fst rs = map fst (sl_frontiers s) \<and> rs = seal_member_roots s hs bag
   | Inl e \<Rightarrow> \<exists>pre alg peaks post. sl_frontiers s = pre @ (alg, peaks) # post
       \<and> e = MissingHasher alg \<and> alg \<notin> fst ` set hs \<and> fst ` set pre \<subseteq> fst ` set hs"
proof (cases "seal_all_member_roots s hs bag")
  case (Inl e)
  from all_member_roots_Inl [OF this] Inl show ?thesis by simp
next
  case (Inr rs)
  then show ?thesis
    using all_member_roots_Inr_iff [of s hs bag rs] member_roots_algs [of s hs bag] by simp
qed

text \<open>
  The run extents of a seal tile its leaves: every leaf index below the sealed size lies in
  exactly one run extent, or is a block of height 0, and every run extent ends inside the log.
\<close>

theorem run_extents_cover:
  assumes "seal_new n k fs = Inr s" "n < u64_limit" "i < n"
  shows "((i, 0) \<in> set (frontier_for_size n k)) \<noteq>
      (\<exists>r. r \<in> set (seal_run_extents s) \<and> re_left r \<le> i \<and> i < re_left r + run_span r k)"
proof -
  have k: "2 \<le> k" and s: "sl_tree_size s = n" "sl_arity s = k"
    using assms(1) by (auto simp: seal_new_Inr_iff arity_ok_def)
  obtain l h where c: "(l, h) \<in> set (frontier_for_size n k)" "in_block k i (l, h)"
    and u: "\<And>c. c \<in> set (frontier_for_size n k) \<Longrightarrow> in_block k i c \<Longrightarrow> c = (l, h)"
    using frontier_block_ex1 [OF k assms(2,3)] by (metis surj_pair)
  have run: "(\<exists>r. r \<in> set (seal_run_extents s) \<and> re_left r \<le> i \<and> i < re_left r + run_span r k)
      \<longleftrightarrow> 1 \<le> h" (is "?R \<longleftrightarrow> _")
  proof
    assume ?R
    then obtain l' h' where "(l', h') \<in> set (frontier_for_size n k)" "1 \<le> h'" "in_block k i (l', h')"
      using s by (auto simp: seal_run_extents_def in_block_def run_span_def)
    with u show "1 \<le> h" by blast
  next
    assume "1 \<le> h"
    then have "\<lparr>re_left = l, re_height = h\<rparr> \<in> set (seal_run_extents s)"
      using c(1) s by (auto simp: seal_run_extents_def image_iff intro!: bexI [of _ "(l, h)"])
    then show ?R using c(2) by (intro exI conjI) (auto simp: in_block_def run_span_def)
  qed
  have "(i, 0) \<in> set (frontier_for_size n k) \<longleftrightarrow> h = 0"
  proof
    assume "(i, 0) \<in> set (frontier_for_size n k)"
    then have "(i, 0) = (l, h)" by (rule u) (simp add: in_block_def)
    then show "h = 0" by simp
  next
    assume "h = 0"
    with c(2) have "l = i" by (simp add: in_block_def)
    with c(1) \<open>h = 0\<close> show "(i, 0) \<in> set (frontier_for_size n k)" by simp
  qed
  with run show ?thesis by auto
qed

theorem run_extents_cover_witness:
  "((4, 0) \<in> set (frontier_for_size 5 2)) \<noteq>
      (\<exists>r. r \<in> set (seal_run_extents \<lparr>sl_tree_size = 5, sl_arity = 2, sl_frontiers = [], sl_meta = None\<rparr>)
        \<and> re_left r \<le> 4 \<and> 4 < re_left r + run_span r 2)"
  by (rule run_extents_cover [where fs = "[]"]) (simp_all add: seal_new_def arity_ok_def u64_limit_def)

end
