(* ===== verification/Cml_Mountain.thy ===== *)
theory Cml_Mountain
  imports Spine_Seal
begin

text \<open>
  The commitment topology of the append-only log, \<^verbatim>\<open>cml/src/mountain.rs\<close>: the bag tree over
  the frontier peaks, its evaluation to the member root, the proof steps and the skeleton steps
  from a peak to the root, and the inclusion skeleton of a leaf.  The lemmas show that producer
  and verifier read one shape: the steps of \<open>bag_path\<close> have the shape of the skeleton and climb
  from the peak to the bagged root.
\<close>

section \<open>Definitions\<close>

datatype bag_node = Peak nat | Bag "bag_node list"

definition bag_shape :: "nat \<Rightarrow> nat \<Rightarrow> bag_node option" where
  "bag_shape peak_count k =
     (if peak_count = 0 then None
      else Some (fold_frontier (map Peak [0..<peak_count]) k Bag))"

fun eval_bag :: "hasher \<Rightarrow> bag_node \<Rightarrow> digest list \<Rightarrow> digest" where
  "eval_bag h (Peak f_idx) peaks = peaks ! f_idx"
| "eval_bag h (Bag children) peaks = nary_mr h (map (\<lambda>c. eval_bag h c peaks) children)"

definition bag_peaks :: "hasher \<Rightarrow> digest list \<Rightarrow> u64 \<Rightarrow> digest" where
  "bag_peaks h peaks k =
     (case bag_shape (length peaks) k of
        None \<Rightarrow> hs_empty h
      | Some shape \<Rightarrow> eval_bag h shape peaks)"

fun covers_peak :: "bag_node \<Rightarrow> nat \<Rightarrow> bool" where
  "covers_peak (Peak f_idx) target \<longleftrightarrow> f_idx = target"
| "covers_peak (Bag children) target \<longleftrightarrow> list_ex (\<lambda>c. covers_peak c target) children"

text \<open>The two descents return whether the peak was reached, and the extended output.\<close>

function descend_bag_path ::
    "bag_node \<Rightarrow> nat \<Rightarrow> digest list \<Rightarrow> hasher \<Rightarrow> proof_step list \<Rightarrow> bool \<times> proof_step list" where
  "descend_bag_path (Peak idx) f_idx peaks h out = (idx = f_idx, out)"
| "descend_bag_path (Bag children) f_idx peaks h out =
     (case position (\<lambda>c. covers_peak c f_idx) children of
        None \<Rightarrow> (False, out)
      | Some pos \<Rightarrow>
          let siblings = map (\<lambda>(_, c). eval_bag h c peaks)
                (filter (\<lambda>(i, _). i \<noteq> pos) (enumerate 0 children))
          in descend_bag_path (children ! pos) f_idx peaks h
               (out @ [\<lparr>ps_siblings = siblings, ps_position = pos\<rparr>]))"
  by pat_completeness auto

lemma size_position_child:
  "position P children = Some pos \<Longrightarrow> size (children ! pos) < size (Bag children)"
proof -
  assume "position P children = Some pos"
  then have "children ! pos \<in> set children" by (auto dest: position_Some_len)
  then have "size (children ! pos) \<le> size_list size children"
    by (rule size_list_estimation') simp
  then show ?thesis by simp
qed

termination descend_bag_path
  by (relation "measure (\<lambda>(node, _). size node)") (auto dest: size_position_child)

definition bag_path :: "digest list \<Rightarrow> nat \<Rightarrow> hasher \<Rightarrow> u64 \<Rightarrow> proof_step list" where
  "bag_path peaks f_idx h k =
     (case bag_shape (length peaks) k of
        None \<Rightarrow> []
      | Some shape \<Rightarrow> rev (snd (descend_bag_path shape f_idx peaks h [])))"

function descend_bag :: "bag_node \<Rightarrow> nat \<Rightarrow> skeleton_step list \<Rightarrow> bool \<times> skeleton_step list" where
  "descend_bag (Peak f_idx) target out = (f_idx = target, out)"
| "descend_bag (Bag children) target out =
     (case position (\<lambda>c. covers_peak c target) children of
        None \<Rightarrow> (False, out)
      | Some pos \<Rightarrow>
          descend_bag (children ! pos) target
            (out @ [\<lparr>sk_position = pos, sk_sibling_count = length children - 1\<rparr>]))"
  by pat_completeness auto
termination
  by (relation "measure (\<lambda>(node, _). size node)") (auto dest: size_position_child)

definition bag_path_steps :: "bag_node \<Rightarrow> nat \<Rightarrow> skeleton_step list" where
  "bag_path_steps shape f_idx = rev (snd (descend_bag shape f_idx []))"

text \<open>The search for the mountain of an index; an overflow of its limit ends it with \<open>None\<close>.\<close>

fun find_mountain :: "u64 \<Rightarrow> u64 \<Rightarrow> nat \<Rightarrow> coord list \<Rightarrow> (nat \<times> u64 \<times> u32) option" where
  "find_mountain k index f_idx [] = None"
| "find_mountain k index f_idx ((left, height) # coords) =
     (case checked_pow k height of
        None \<Rightarrow> None
      | Some cap \<Rightarrow>
          (case checked_add left cap of
             None \<Rightarrow> None
           | Some limit \<Rightarrow>
               if left \<le> index \<and> index < limit then Some (f_idx, left, height)
               else find_mountain k index (Suc f_idx) coords))"

fun digit_steps :: "u64 \<Rightarrow> u32 \<Rightarrow> u64 \<Rightarrow> skeleton_step list" where
  "digit_steps k 0 offset = []"
| "digit_steps k (Suc height) offset =
     \<lparr>sk_position = offset mod k, sk_sibling_count = k - 1\<rparr> # digit_steps k height (offset div k)"

definition mountain_skeleton :: "u64 \<Rightarrow> u64 \<Rightarrow> u64 \<Rightarrow> skeleton_step list option" where
  "mountain_skeleton k tree_size index =
     (if \<not> arity_ok k then None
      else let coords = frontier_for_size tree_size k
           in if coords = [] then None
              else case find_mountain k index 0 coords of
                     None \<Rightarrow> None
                   | Some (f_idx, left, height) \<Rightarrow>
                       (case bag_shape (length coords) k of
                          None \<Rightarrow> None
                        | Some shape \<Rightarrow>
                            Some (digit_steps k height (index - left)
                                  @ bag_path_steps shape f_idx)))"

section \<open>The bag tree\<close>

fun bag_leaves :: "bag_node \<Rightarrow> nat list" where
  "bag_leaves (Peak i) = [i]"
| "bag_leaves (Bag cs) = concat (map bag_leaves cs)"

fun bag_wf :: "nat \<Rightarrow> bag_node \<Rightarrow> bool" where
  "bag_wf k (Peak i) \<longleftrightarrow> True"
| "bag_wf k (Bag cs) \<longleftrightarrow> 2 \<le> length cs \<and> length cs \<le> k \<and> list_all (bag_wf k) cs"

fun bag_depth :: "bag_node \<Rightarrow> nat" where
  "bag_depth (Peak i) = 0"
| "bag_depth (Bag cs) = Suc (fold max (map bag_depth cs) 0)"

lemma covers_peak_iff: "covers_peak node i \<longleftrightarrow> i \<in> set (bag_leaves node)"
  by (induction node) (auto simp: list_ex_iff)

lemma bag_shape_Some: "0 < n \<Longrightarrow> bag_shape n k = Some (fold_frontier (map Peak [0..<n]) k Bag)"
  by (simp add: bag_shape_def)

lemma bag_shape_leaves:
  assumes "bag_shape n k = Some t" shows "bag_leaves t = [0..<n]"
proof -
  have t: "t = fold_frontier (map Peak [0..<n]) k Bag" "map Peak [0..<n] \<noteq> []"
    using assms by (auto simp: bag_shape_def split: if_splits)
  have "concat (map (\<lambda>i. [i]) xs) = xs" for xs :: "nat list" by (induction xs) auto
  then have "concat (map bag_leaves (map Peak [0..<n])) = [0..<n]" by (simp add: o_def)
  with fold_frontier_concat [of bag_leaves Bag, OF _ t(2), of k] t(1) show ?thesis by simp
qed

lemma bag_shape_wf:
  assumes "2 \<le> k" "bag_shape n k = Some t" shows "bag_wf k t"
proof -
  have t: "t = fold_frontier (map Peak [0..<n]) k Bag" "map Peak [0..<n] \<noteq> []"
    using assms by (auto simp: bag_shape_def split: if_splits)
  show ?thesis
    unfolding t(1)
    by (rule fold_frontier_preserves [where P = "bag_wf k"]) (use assms t in \<open>auto simp: list_all_iff\<close>)
qed

lemma eval_bag_fold:
  assumes "items \<noteq> []"
  shows "eval_bag h (fold_frontier items k Bag) peaks
    = fold_frontier (map (\<lambda>c. eval_bag h c peaks) items) k (nary_mr h)"
  using assms by (intro fold_frontier_map) simp_all

text \<open>The member root is the grouping fold of the peaks themselves.\<close>

lemma bag_peaks_fold:
  assumes "peaks \<noteq> []"
  shows "bag_peaks h peaks k = fold_frontier peaks k (nary_mr h)"
proof -
  have "map (\<lambda>c. eval_bag h c peaks) (map Peak [0..<length peaks]) = peaks"
    by (simp add: o_def map_nth)
  then show ?thesis
    using assms eval_bag_fold [of "map Peak [0..<length peaks]" h k peaks]
    by (simp add: bag_peaks_def bag_shape_def)
qed

interpretation mountain_bag: bagging bag_peaks
proof unfold_locales
  show "bag_peaks h [p] k = p" for h p k
    by (simp add: bag_peaks_fold)
  show "length (bag_peaks h ps k) = digest_len h"
    if "fixed_width h" "2 \<le> k" "ps \<noteq> []" "\<And>p. p \<in> set ps \<Longrightarrow> length p = digest_len h" for h ps k
    unfolding bag_peaks_fold [OF that(3)] using that
    by (intro fold_frontier_preserves [where P = "\<lambda>d. length d = digest_len h"])
      (auto intro: length_nary_mr)
qed

section \<open>The path through the bag\<close>

text \<open>The two descents agree step by step: the shape of the path is the skeleton.\<close>

lemma map_siblings_enumerate:
  fixes f :: "'a \<Rightarrow> 'b"
  shows "map (\<lambda>(_, c). f c) (filter (\<lambda>(i, _). i \<noteq> p) (enumerate 0 cs)) = remove_nth p (map f cs)"
proof -
  have "map (\<lambda>(_, c). f c) xs = map f (map snd xs)" for xs :: "(nat \<times> 'a) list"
    by (induction xs) auto
  then show ?thesis by (simp only: enumerate_filter_remove_nth map_remove_nth)
qed

lemma descend_shape:
  "map step_shape (snd (descend_bag_path t i peaks h out))
     = snd (descend_bag t i (map step_shape out))
   \<and> fst (descend_bag_path t i peaks h out) = fst (descend_bag t i (map step_shape out))"
proof (induction t i peaks h out rule: descend_bag_path.induct)
  case (2 children f_idx peaks h out)
  then show ?case
    by (cases "position (\<lambda>c. covers_peak c f_idx) children")
      (auto simp: map_siblings_enumerate step_shape_def Let_def dest!: position_Some_len)
qed simp

lemma descend_climb:
  assumes "covers_peak t i"
  shows "\<exists>q. descend_bag_path t i peaks h out = (True, out @ q)
    \<and> climb h (rev q) (peaks ! i) = eval_bag h t peaks"
  using assms
proof (induction t i peaks h out rule: descend_bag_path.induct)
  case (2 children f_idx peaks h out)
  then obtain pos where pos: "position (\<lambda>c. covers_peak c f_idx) children = Some pos"
    by (cases "position (\<lambda>c. covers_peak c f_idx) children") (auto simp: position_None list_ex_iff)
  let ?s = "\<lparr>ps_siblings = remove_nth pos (map (\<lambda>c. eval_bag h c peaks) children), ps_position = pos\<rparr>"
  from "2.IH" [OF pos refl] position_Some_sat [OF pos] obtain q where q:
    "descend_bag_path (children ! pos) f_idx peaks h (out @ [?s]) = (True, (out @ [?s]) @ q)"
    "climb h (rev q) (peaks ! f_idx) = eval_bag h (children ! pos) peaks"
    by (auto simp: map_siblings_enumerate)
  have "apply_step h ?s (eval_bag h (children ! pos) peaks) = eval_bag h (Bag children) peaks"
    using apply_step_remove_nth [of pos "map (\<lambda>c. eval_bag h c peaks) children" h]
      position_Some_len [OF pos] by simp
  with pos q show ?case
    by (intro exI [of _ "?s # q"]) (simp add: map_siblings_enumerate)
qed simp

lemma length_eval_bag:
  assumes "fixed_width h" "\<And>p. p \<in> set peaks \<Longrightarrow> length p = digest_len h"
  shows "set (bag_leaves t) \<subseteq> {..<length peaks} \<Longrightarrow> length (eval_bag h t peaks) = digest_len h"
proof (induction t)
  case (Bag cs)
  have "length (eval_bag h c peaks) = digest_len h" if "c \<in> set cs" for c
    using Bag.prems that by (intro Bag.IH) auto
  then show ?case by (auto intro!: length_nary_mr assms(1))
qed (use assms(2) in simp)

lemma le_fold_max_map: "x \<in> set xs \<Longrightarrow> f x \<le> fold max (map f xs) (a::nat)"
  by (simp add: le_fold_max)

lemma descend_steps:
  assumes fw: "fixed_width h" and peaks: "\<And>p. p \<in> set peaks \<Longrightarrow> length p = digest_len h"
    and k: "k \<le> 257"
  shows "bag_wf k t \<Longrightarrow> set (bag_leaves t) \<subseteq> {..<length peaks} \<Longrightarrow> covers_peak t i \<Longrightarrow>
    list_all (step_ok (digest_len h)) out \<Longrightarrow>
    list_all (step_ok (digest_len h)) (snd (descend_bag_path t i peaks h out))
    \<and> length (snd (descend_bag_path t i peaks h out)) \<le> length out + bag_depth t"
  using fw peaks
proof (induction t i peaks h out rule: descend_bag_path.induct)
  case (2 children f_idx peaks h out)
  then obtain pos where pos: "position (\<lambda>c. covers_peak c f_idx) children = Some pos"
    by (cases "position (\<lambda>c. covers_peak c f_idx) children") (auto simp: position_None list_ex_iff)
  let ?sibs = "remove_nth pos (map (\<lambda>c. eval_bag h c peaks) children)"
  let ?s = "\<lparr>ps_siblings = ?sibs, ps_position = pos\<rparr>"
  have lt: "pos < length children" using position_Some_len [OF pos] .
  have mem: "children ! pos \<in> set children" using lt by simp
  have sibs: "length ?sibs = length children - 1" using lt by simp
  have "length x = digest_len h" if x: "x \<in> set ?sibs" for x
  proof -
    obtain c where "c \<in> set children" "x = eval_bag h c peaks"
      using x set_remove_nth_subset by fastforce
    then show ?thesis using "2.prems"(2,5,6) by (auto intro!: length_eval_bag)
  qed
  then have ok: "step_ok (digest_len h) ?s"
    using sibs lt "2.prems"(1) k by (auto simp: step_ok_def simp flip: length_greater_0_conv)
  have "list_all (step_ok (digest_len h)) (snd (descend_bag_path (children ! pos) f_idx peaks h (out @ [?s])))
    \<and> length (snd (descend_bag_path (children ! pos) f_idx peaks h (out @ [?s])))
        \<le> length (out @ [?s]) + bag_depth (children ! pos)"
    unfolding map_siblings_enumerate [symmetric]
  proof (rule "2.IH" [OF pos refl])
    show "bag_wf k (children ! pos)" using "2.prems"(1) mem by (simp add: list_all_iff)
    show "set (bag_leaves (children ! pos)) \<subseteq> {..<length peaks}" using "2.prems"(2) mem by auto
    show "covers_peak (children ! pos) f_idx" by (rule position_Some_sat [OF pos])
  qed (use "2.prems" ok in \<open>auto simp: map_siblings_enumerate\<close>)
  moreover have "bag_depth (children ! pos) \<le> fold max (map bag_depth children) 0"
    by (rule le_fold_max_map [OF mem])
  ultimately show ?case using pos by (simp add: map_siblings_enumerate Let_def)
qed simp

lemma bag_depth_bound:
  assumes "2 \<le> k" "bag_shape n k = Some t" "n \<le> (k - 1) * 64"
  shows "bag_depth t \<le> 65"
proof -
  have t: "t = fold_frontier (map Peak [0..<n]) k Bag" "map Peak [0..<n] \<noteq> []"
    using assms by (auto simp: bag_shape_def split: if_splits)
  have m: "fold max xs a \<le> e" if "\<And>x. x \<in> set xs \<Longrightarrow> x \<le> e" "a \<le> e" for xs and a e :: nat
    using that by (induction xs arbitrary: a) auto
  have "bag_depth t \<le> 0 + Suc ((length (map Peak [0..<n]) - 2) div (k - 1))"
    unfolding t(1)
    by (rule fold_frontier_depth) (use assms(1) t(2) in \<open>auto intro!: m\<close>)
  also have "(length (map Peak [0..<n]) - 2) div (k - 1) \<le> 64"
    using assms(1,3) div_le_mono [of "n - 2" "(k - 1) * 64" "k - 1"] by simp
  finally show ?thesis by simp
qed

lemma bag_path_spec:
  assumes shape: "bag_shape (length peaks) k = Some t" and i: "i < length peaks"
  shows "climb h (bag_path peaks i h k) (peaks ! i) = bag_peaks h peaks k"
    and "map step_shape (bag_path peaks i h k) = bag_path_steps t i"
proof -
  have "covers_peak t i" using bag_shape_leaves [OF shape] i by (simp add: covers_peak_iff)
  from descend_climb [OF this, of peaks h "[]"]
  show "climb h (bag_path peaks i h k) (peaks ! i) = bag_peaks h peaks k"
    using shape by (auto simp: bag_path_def bag_peaks_def)
  show "map step_shape (bag_path peaks i h k) = bag_path_steps t i"
    using descend_shape [of t i peaks h "[]"] shape
    by (simp add: bag_path_def bag_path_steps_def rev_map [symmetric])
qed

lemma bag_path_steps_ok:
  assumes "fixed_width h" "2 \<le> k" "k \<le> 257" "i < length peaks" "length peaks \<le> (k - 1) * 64"
    and "\<And>p. p \<in> set peaks \<Longrightarrow> length p = digest_len h"
  shows "list_all (step_ok (digest_len h)) (bag_path peaks i h k) \<and> length (bag_path peaks i h k) \<le> 65"
proof -
  obtain t where t: "bag_shape (length peaks) k = Some t"
    using assms(4) by (cases "bag_shape (length peaks) k") (auto simp: bag_shape_def split: if_splits)
  have "covers_peak t i" "set (bag_leaves t) \<subseteq> {..<length peaks}"
    using bag_shape_leaves [OF t] assms(4) by (auto simp: covers_peak_iff)
  with descend_steps [OF assms(1,6,3), of peaks t i "[]"] bag_shape_wf [OF assms(2) t]
    bag_depth_bound [OF assms(2) t assms(5)]
  show ?thesis using t by (auto simp: bag_path_def list_all_iff)
qed

section \<open>The inclusion skeleton\<close>

lemma find_mountain_coords:
  assumes "j < length hs" "in_block k x (coords_of k lo hs ! j)" "lo + hsum k hs < u64_limit"
  shows "find_mountain k x f (coords_of k lo hs) = Some (f + j, coords_of k lo hs ! j)"
  using assms
proof (induction hs arbitrary: lo j f)
  case (Cons h hs)
  have lim: "k ^ h < u64_limit" "lo + k ^ h < u64_limit" using Cons.prems(3) by simp_all
  show ?case
  proof (cases j)
    case 0
    then show ?thesis using Cons.prems(2) lim
      by (simp add: checked_pow_eq checked_add_eq in_block_def)
  next
    case (Suc j')
    have blk: "in_block k x (coords_of k (lo + k ^ h) hs ! j')" using Cons.prems(2) Suc by simp
    then have "lo + k ^ h \<le> x"
      using Cons.prems(1) Suc coords_of_bound [of _ _ k "lo + k ^ h" hs]
      by (auto simp: in_block_def nth_coords_of)
    then show ?thesis
      using Cons.IH [of j' "lo + k ^ h" "Suc f"] Cons.prems Suc blk lim
      by (simp add: checked_pow_eq checked_add_eq)
  qed
qed simp

lemma find_mountain_None:
  "lo + hsum k hs \<le> x \<Longrightarrow> find_mountain k x f (coords_of k lo hs) = None"
  by (induction hs arbitrary: lo f) (auto simp: checked_pow_def checked_add_def)

lemma mountain_skeleton_None_iff:
  assumes "n < u64_limit"
  shows "mountain_skeleton k n i = None \<longleftrightarrow> \<not> arity_ok k \<or> n \<le> i"
proof (cases "arity_ok k")
  case True
  then have k: "2 \<le> k" by (simp add: arity_ok_def)
  obtain hs where hs: "frontier_for_size n k = coords_of k 0 hs" "hsum k hs = n"
    using frontier_canon [OF k assms] by metis
  show ?thesis
  proof (cases "n \<le> i")
    case True
    then show ?thesis using find_mountain_None [of 0 k hs i 0] hs
      by (simp add: mountain_skeleton_def Let_def)
  next
    case False
    then obtain j where "j < length hs" "in_block k i (coords_of k 0 hs ! j)"
      using coords_locate [of 0 i k hs] hs(2) by auto
    with find_mountain_coords [of j hs k i 0 0] hs assms False \<open>arity_ok k\<close>
    show ?thesis
      by (auto simp: mountain_skeleton_def Let_def bag_shape_def split: prod.splits)
  qed
qed (simp add: mountain_skeleton_def)

lemma mountain_skeleton_at:
  assumes "arity_ok k" "n < u64_limit" "f < length (frontier_for_size n k)"
    and "frontier_for_size n k ! f = (l, ht)" "l \<le> i" "i < l + k ^ ht"
  shows "\<exists>t. bag_shape (length (frontier_for_size n k)) k = Some t
    \<and> mountain_skeleton k n i = Some (digit_steps k ht (i - l) @ bag_path_steps t f)"
proof -
  have k: "2 \<le> k" using assms(1) by (simp add: arity_ok_def)
  obtain hs where hs: "frontier_for_size n k = coords_of k 0 hs" "hsum k hs = n"
    using frontier_canon [OF k assms(2)] by metis
  have "find_mountain k i 0 (coords_of k 0 hs) = Some (0 + f, coords_of k 0 hs ! f)"
    using assms hs by (intro find_mountain_coords) (auto simp: in_block_def)
  then show ?thesis using assms hs
    by (auto simp: mountain_skeleton_def bag_shape_def Let_def)
qed

lemma length_digit_steps [simp]: "length (digit_steps k ht off) = ht"
  by (induction k ht off rule: digit_steps.induct) auto

section \<open>Binding of the bag\<close>

text \<open>The pairs of child lists two peak lists give at each bag node.\<close>

fun bag_pairs :: "hasher \<Rightarrow> bag_node \<Rightarrow> digest list \<Rightarrow> digest list \<Rightarrow> (digest list \<times> digest list) list" where
  "bag_pairs h (Peak i) ps qs = []"
| "bag_pairs h (Bag cs) ps qs =
     (map (\<lambda>c. eval_bag h c ps) cs, map (\<lambda>c. eval_bag h c qs) cs)
     # concat (map (\<lambda>c. bag_pairs h c ps qs) cs)"

lemma eval_bag_binding:
  "bag_wf k t \<Longrightarrow> eval_bag h t ps = eval_bag h t qs \<Longrightarrow>
     (\<forall>i \<in> set (bag_leaves t). ps ! i = qs ! i)
     \<or> (\<exists>(cs, ds) \<in> set (bag_pairs h t ps qs). confused h cs ds)"
proof (induction t)
  case (Bag cs)
  let ?ps = "map (\<lambda>c. eval_bag h c ps) cs" and ?qs = "map (\<lambda>c. eval_bag h c qs) cs"
  have "length ?ps = length ?qs" "2 \<le> length ?ps" using Bag.prems(1) by simp_all
  then consider "?ps = ?qs" | "confused h ?ps ?qs"
    using nary_mr_inj [of h ?ps ?qs] Bag.prems(2) by (auto simp: confused_def)
  then show ?case
  proof cases
    case 1
    from 1 have eq: "eval_bag h c ps = eval_bag h c qs" if "c \<in> set cs" for c using that by simp
    have wf: "bag_wf k c" if "c \<in> set cs" for c using that Bag.prems(1) by (simp add: list_all_iff)
    show ?thesis
    proof (cases "\<exists>c \<in> set cs. \<exists>(cs, ds) \<in> set (bag_pairs h c ps qs). confused h cs ds")
      case True
      then obtain c p where c: "c \<in> set cs" "p \<in> set (bag_pairs h c ps qs)" "case_prod (confused h) p"
        by blast
      have "p \<in> set (bag_pairs h (Bag cs) ps qs)" using c(1,2) by auto
      with c(3) show ?thesis by blast
    next
      case False
      have "\<forall>i \<in> set (bag_leaves c). ps ! i = qs ! i" if "c \<in> set cs" for c
        using Bag.IH [OF that wf [OF that] eq [OF that]] False that by metis
      then show ?thesis by simp
    qed
  next
    case 2
    have "(?ps, ?qs) \<in> set (bag_pairs h (Bag cs) ps qs)" by simp
    with 2 show ?thesis by blast
  qed
qed simp

lemma bag_peaks_binding:
  assumes "2 \<le> k" "length ps = length qs" "bag_shape (length ps) k = Some t"
    and "bag_peaks h ps k = bag_peaks h qs k"
  shows "ps = qs \<or> (\<exists>(cs, ds) \<in> set (bag_pairs h t ps qs). confused h cs ds)"
proof -
  have "eval_bag h t ps = eval_bag h t qs" using assms by (simp add: bag_peaks_def)
  from eval_bag_binding [OF bag_shape_wf [OF assms(1,3)] this] consider
    "\<forall>i < length ps. ps ! i = qs ! i"
    | "\<exists>(cs, ds) \<in> set (bag_pairs h t ps qs). confused h cs ds"
    unfolding bag_shape_leaves [OF assms(3)] by auto
  then show ?thesis
  proof cases
    case 1
    with assms(2) have "ps = qs" by (simp add: list_eq_iff_nth_eq)
    then show ?thesis ..
  qed (rule disjI2)
qed

section \<open>Properties\<close>

text \<open>
  The bag tree only restructures the proof, not the commitment: the member root is the
  spine's grouping fold of the peaks, and the root of no peaks is the empty root.
\<close>

theorem bag_peaks_is_grouping_fold:
  "bag_peaks h peaks k = (if peaks = [] then hs_empty h else fold_frontier peaks k (nary_mr h))"
  by (simp add: bag_peaks_fold) (simp add: bag_peaks_def bag_shape_def)

text \<open>
  Producer and verifier of the bag agree: the path generated for a peak has the shape of
  the skeleton steps of that peak and climbs from the peak to the bagged root; its steps are
  well formed and at most 65 for every peak count a 64-bit log can have.
\<close>

theorem bag_path_lockstep:
  assumes "fixed_width h" "arity_ok k" "i < length peaks" "length peaks \<le> (k - 1) * 64"
    and "list_all (\<lambda>p. length p = digest_len h) peaks"
  shows "climb h (bag_path peaks i h k) (peaks ! i) = bag_peaks h peaks k
    \<and> (\<exists>t. bag_shape (length peaks) k = Some t \<and> map step_shape (bag_path peaks i h k) = bag_path_steps t i)
    \<and> list_all (step_ok (digest_len h)) (bag_path peaks i h k) \<and> length (bag_path peaks i h k) \<le> 65"
proof -
  obtain t where t: "bag_shape (length peaks) k = Some t"
    using assms(3) by (cases "bag_shape (length peaks) k") (auto simp: bag_shape_def split: if_splits)
  have "list_all (step_ok (digest_len h)) (bag_path peaks i h k) \<and> length (bag_path peaks i h k) \<le> 65"
    using assms by (intro bag_path_steps_ok) (auto simp: arity_ok_def list_all_iff)
  with bag_path_spec [OF t assms(3)] t show ?thesis by blast
qed

theorem bag_path_lockstep_witness:
  "climb toy_hasher (bag_path [[1], [2], [3]] 0 toy_hasher 2) ([[1], [2], [3]] ! 0)
      = bag_peaks toy_hasher [[1], [2], [3]] 2
    \<and> (\<exists>t. bag_shape (length [[1], [2], [3] :: digest]) 2 = Some t
        \<and> map step_shape (bag_path [[1], [2], [3]] 0 toy_hasher 2) = bag_path_steps t 0)
    \<and> list_all (step_ok (digest_len toy_hasher)) (bag_path [[1], [2], [3]] 0 toy_hasher 2)
    \<and> length (bag_path [[1], [2], [3]] 0 toy_hasher 2) \<le> 65"
  by (rule bag_path_lockstep [OF toy_hasher_fixed_width])
    (simp_all add: arity_ok_def digest_len_def toy_hasher_def)

text \<open>
  C40. The inclusion skeleton exists exactly for an arity in range and an index inside the log,
  at every size below the 64-bit limit: none of its checked operations overflows.
\<close>

theorem mountain_skeleton_domain:
  assumes "n < u64_limit"
  shows "mountain_skeleton k n i \<noteq> None \<longleftrightarrow> arity_ok k \<and> i < n"
  using mountain_skeleton_None_iff [OF assms] by (auto simp: not_le)

theorem mountain_skeleton_domain_witness:
  "mountain_skeleton 3 (2 ^ 63 + 5) (2 ^ 63) \<noteq> None \<longleftrightarrow> arity_ok 3 \<and> 2 ^ 63 < (2 ^ 63 + 5 :: nat)"
  by (rule mountain_skeleton_domain) (simp add: u64_limit_def)

end
