(* ===== verification/Cml_Engine.thy ===== *)
theory Cml_Engine
  imports Cml_Mountain
begin

text \<open>
  The single-algorithm engine of the append-only log: the merge schedule of
  \<^verbatim>\<open>cml/src/schedule.rs\<close>, the error type of \<^verbatim>\<open>cml/src/error.rs\<close> (its reason strings as
  constructors; \<open>Panic\<close> is a failed \<^verbatim>\<open>assert!\<close>) and the operations of
  \<^verbatim>\<open>cml/src/engine.rs\<close>: the epoch queries of a view, the frontier carry, the node reads, the
  proof generators, the historical roots and the reconstruction of a view.  The reader is a
  record of the two reads the trait has; \<^verbatim>\<open>async\<close> is not modelled.  The debug assertions,
  which a release build drops, are not modelled.
\<close>

section \<open>Schedule and types\<close>

function strip_factor :: "nat \<Rightarrow> nat \<Rightarrow> nat \<Rightarrow> nat \<times> nat" where
  "strip_factor k m count =
     (if 2 \<le> k \<and> 0 < m \<and> m mod k = 0 then strip_factor k (m div k) (Suc count) else (m, count))"
  by pat_completeness auto
termination
  by (relation "measure (\<lambda>(k, m, count). m)") auto

declare strip_factor.simps [simp del]

definition reduction_count :: "u64 \<Rightarrow> u64 \<Rightarrow> u32 option" where
  "reduction_count n k = (if k < 2 then None else Some (snd (strip_factor k (n + 1) 0)))"

datatype log_kind = Flat | Subtree

fun log_kind_to_byte :: "log_kind \<Rightarrow> u8" where
  "log_kind_to_byte Flat = 0"
| "log_kind_to_byte Subtree = 1"

definition log_kind_from_byte :: "u8 \<Rightarrow> log_kind option" where
  "log_kind_from_byte b = (if b = 0 then Some Flat else if b = 1 then Some Subtree else None)"

datatype reason =
    FrontierUnderflow
  | CoordsUnderflow
  | NodeWrongLength u64 u32 nat nat
  | MissingInternalNode u64 u32
  | EmptyOldCoords
  | EmptyEpochSequence
  | StartExceedsEnd u64 u64
  | StartBelowPriorEnd u64 u64
  | EndExceedsSize u64 u64
  | OpenEpochNotFinal
  | ActiveStartExceedsSize u64 u64
  | MissingFrontierNode u64 u32
  | SubtreeNodeWrongLength u64 nat nat

datatype 'e cml_error = Read 'e | Corrupted alg_id reason | Panic

record 'e node_reader =
  rd_node :: "alg_id \<Rightarrow> u64 \<Rightarrow> u32 \<Rightarrow> 'e + digest option"
  rd_leaf :: "u64 \<Rightarrow> 'e + bytes"

record alg_view =
  av_hasher :: hasher
  av_epochs :: epochs
  av_frontier :: "digest list"
  av_coords :: "coord list"

section \<open>Epoch queries\<close>

definition epochs_open :: "epochs \<Rightarrow> bool" where
  "epochs_open es \<longleftrightarrow> es \<noteq> [] \<and> snd (last es) = u64_max"

definition is_active :: "alg_view \<Rightarrow> bool" where
  "is_active v = epochs_open (av_epochs v)"

definition is_active_at :: "alg_view \<Rightarrow> u64 \<Rightarrow> bool" where
  "is_active_at v i = list_ex (\<lambda>(start, end'). start \<le> i \<and> i < end') (av_epochs v)"

definition epochs_tree_size :: "epochs \<Rightarrow> u64 \<Rightarrow> u64" where
  "epochs_tree_size es global_size =
     (if epochs_open es then global_size else if es = [] then 0 else snd (last es))"

definition tree_size :: "alg_view \<Rightarrow> u64 \<Rightarrow> u64" where
  "tree_size v global_size = epochs_tree_size (av_epochs v) global_size"

definition first_activation :: "alg_view \<Rightarrow> u64" where
  "first_activation v = (case av_epochs v of [] \<Rightarrow> 0 | (start, _) # _ \<Rightarrow> start)"

definition active_range :: "alg_view \<Rightarrow> u64 \<Rightarrow> u64 \<Rightarrow> bool" where
  "active_range v lo hi = list_ex (\<lambda>(start, end'). start < hi \<and> lo < end') (av_epochs v)"

definition fully_active :: "alg_view \<Rightarrow> u64 \<Rightarrow> u64 \<Rightarrow> bool" where
  "fully_active v lo hi = list_ex (\<lambda>(start, end'). start \<le> lo \<and> hi \<le> end') (av_epochs v)"

definition effective_size_at :: "alg_view \<Rightarrow> u64 \<Rightarrow> u64" where
  "effective_size_at v size' =
     (if size' \<le> first_activation v then size'
      else if is_active_at v (size' - 1) then size'
      else fold max (map snd (filter (\<lambda>(_, end'). end' < size') (av_epochs v))) 0)"

fun epochs_at_loop :: "u64 \<Rightarrow> epochs \<Rightarrow> epochs" where
  "epochs_at_loop size' [] = []"
| "epochs_at_loop size' ((start, end') # es) =
     (if size' < start then []
      else if size' < end' then [(start, u64_max)]
      else (start, end') # epochs_at_loop size' es)"

definition epochs_at :: "alg_view \<Rightarrow> u64 \<Rightarrow> epochs option" where
  "epochs_at v size' =
     (let out = epochs_at_loop size' (av_epochs v) in if out = [] then None else Some out)"

definition compute_root :: "alg_view \<Rightarrow> nat \<Rightarrow> digest" where
  "compute_root v k = bag_peaks (av_hasher v) (av_frontier v) k"

section \<open>The carry\<close>

type_synonym node_write = "alg_id \<times> u64 \<times> u32 \<times> digest"

text \<open>The inner loop pops one digest and one coordinate per child.\<close>

fun pop_children ::
    "alg_id \<Rightarrow> nat \<Rightarrow> digest list \<Rightarrow> coord list \<Rightarrow> digest list \<Rightarrow> coord list \<Rightarrow>
     'e cml_error + (digest list \<times> coord list \<times> digest list \<times> coord list)" where
  "pop_children alg 0 frontier coords children ccoords =
     Inr (frontier, coords, rev children, rev ccoords)"
| "pop_children alg (Suc m) frontier coords children ccoords =
     (if frontier = [] then Inl (Corrupted alg FrontierUnderflow)
      else if coords = [] then Inl (Corrupted alg CoordsUnderflow)
      else pop_children alg m (butlast frontier) (butlast coords)
             (children @ [last frontier]) (ccoords @ [last coords]))"

fun carry_loop ::
    "nat \<Rightarrow> alg_view \<Rightarrow> alg_id \<Rightarrow> u64 \<Rightarrow> node_write list \<Rightarrow>
     'e cml_error + (alg_view \<times> node_write list)" where
  "carry_loop 0 v alg k out = Inr (v, out)"
| "carry_loop (Suc m) v alg k out =
     bindE (pop_children alg k (av_frontier v) (av_coords v) [] [])
       (\<lambda>(frontier, coords, children, ccoords).
          let parent = nary_mr (av_hasher v) children;
              left = fst (ccoords ! 0);
              height = snd (ccoords ! 0) + 1;
              out' = (if parent \<noteq> hs_null (av_hasher v)
                      then out @ [(alg, left, height, parent)] else out)
          in carry_loop m
               (v\<lparr>av_frontier := frontier @ [parent], av_coords := coords @ [(left, height)]\<rparr>)
               alg k out')"

definition carry ::
    "alg_view \<Rightarrow> alg_id \<Rightarrow> digest \<Rightarrow> u64 \<Rightarrow> u64 \<Rightarrow> node_write list \<Rightarrow>
     'e cml_error + (alg_view \<times> node_write list)" where
  "carry v alg dig count k out =
     (case reduction_count count k of
        None \<Rightarrow> Inl Panic
      | Some merges \<Rightarrow>
          carry_loop merges
            (v\<lparr>av_frontier := av_frontier v @ [dig], av_coords := av_coords v @ [(count, 0)]\<rparr>)
            alg k out)"

section \<open>Node reads and proofs\<close>

definition get_node_hash ::
    "'e node_reader \<Rightarrow> alg_view \<Rightarrow> alg_id \<Rightarrow> u64 \<Rightarrow> u32 \<Rightarrow> u64 \<Rightarrow> 'e cml_error + digest" where
  "get_node_hash rd v alg left height k =
     (case checked_pow k height of
        None \<Rightarrow> Inr (hs_null (av_hasher v))
      | Some cap \<Rightarrow>
     (case checked_add left cap of
        None \<Rightarrow> Inr (hs_null (av_hasher v))
      | Some limit \<Rightarrow>
          if \<not> active_range v left limit then Inr (hs_null (av_hasher v))
          else bindE (map_err Read (rd_node rd alg left height)) (\<lambda>found.
            case found of
              Some hash \<Rightarrow>
                let expected = length (hs_null (av_hasher v))
                in if length hash \<noteq> expected
                   then Inl (Corrupted alg (NodeWrongLength left height expected (length hash)))
                   else Inr hash
            | None \<Rightarrow> Inl (Corrupted alg (MissingInternalNode left height)))))"

fun find_block :: "u64 \<Rightarrow> u64 \<Rightarrow> nat \<Rightarrow> coord list \<Rightarrow> (nat \<times> u64 \<times> u32) option" where
  "find_block k index f_idx [] = None"
| "find_block k index f_idx ((left, height) # coords) =
     (if left \<le> index \<and> index < left + k ^ height then Some (f_idx, left, height)
      else find_block k index (Suc f_idx) coords)"

text \<open>The bisection, which collects the steps from the top down.\<close>

function bisect_to_height ::
    "'e node_reader \<Rightarrow> alg_view \<Rightarrow> alg_id \<Rightarrow> u64 \<Rightarrow> u32 \<Rightarrow> u64 \<Rightarrow> u32 \<Rightarrow> u64 \<Rightarrow>
     proof_step list \<Rightarrow> 'e cml_error + proof_step list" where
  "bisect_to_height rd v alg curr_left curr_height target_index target_height k path =
     (if target_height < curr_height
      then let child_capacity = k ^ (curr_height - 1);
               child_idx = (target_index - curr_left) div child_capacity
           in bindE (mapE (\<lambda>j. get_node_hash rd v alg (curr_left + j * child_capacity)
                               (curr_height - 1) k)
                       (filter (\<lambda>j. j \<noteq> child_idx) [0..<k]))
                (\<lambda>siblings.
                   bisect_to_height rd v alg (curr_left + child_idx * child_capacity)
                     (curr_height - 1) target_index target_height k
                     (path @ [\<lparr>ps_siblings = siblings, ps_position = child_idx\<rparr>]))
      else Inr path)"
  by pat_completeness auto
termination
  by (relation "measure (\<lambda>(rd, v, alg, curr_left, curr_height, _). curr_height)") auto

declare bisect_to_height.simps [simp del]

definition get_node_hashes ::
    "'e node_reader \<Rightarrow> alg_view \<Rightarrow> alg_id \<Rightarrow> u64 \<Rightarrow> coord list \<Rightarrow> 'e cml_error + digest list" where
  "get_node_hashes rd v alg k coords =
     mapE (\<lambda>(l, h). get_node_hash rd v alg l h k) coords"

definition inclusion_proof ::
    "'e node_reader \<Rightarrow> alg_view \<Rightarrow> alg_id \<Rightarrow> u64 \<Rightarrow> u64 \<Rightarrow> u64 \<Rightarrow> u64 \<Rightarrow>
     'e cml_error + proof_step list option" where
  "inclusion_proof rd v alg index n global_size k =
     (let max_size = tree_size v global_size
      in if n = 0 \<or> n \<le> index \<or> max_size < n then Inr None
         else let coords = frontier_for_size n k
              in case find_block k index 0 coords of
                   None \<Rightarrow> Inr None
                 | Some (f_idx, left, height) \<Rightarrow>
                     bindE (bisect_to_height rd v alg left height index 0 k []) (\<lambda>path.
                     bindE (get_node_hashes rd v alg k coords) (\<lambda>peaks.
                       Inr (Some (rev path @ bag_path peaks f_idx (av_hasher v) k)))))"

definition leaf_proof_of ::
    "'e node_reader \<Rightarrow> alg_view \<Rightarrow> alg_id \<Rightarrow> u64 \<Rightarrow> u64 \<Rightarrow> u64 \<Rightarrow> u64 \<Rightarrow>
     'e cml_error + leaf_proof option" where
  "leaf_proof_of rd v alg index n global_size k =
     bindE (inclusion_proof rd v alg index n global_size k) (\<lambda>proof'.
       case proof' of
         None \<Rightarrow> Inr None
       | Some path \<Rightarrow>
           bindE (get_node_hash rd v alg index 0 k) (\<lambda>leaf_hash.
             Inr (Some \<lparr>lp_leaf_hash = leaf_hash, lp_index = index, lp_tree_size = n,
                        lp_arity = k, lp_path = path\<rparr>)))"

record consistency_proof =
  cp_boundary_hash :: digest
  cp_peak_path :: "proof_step list"
  cp_new_peaks :: "digest list"
  cp_split_index :: nat

definition consistency_proof_of ::
    "'e node_reader \<Rightarrow> alg_view \<Rightarrow> alg_id \<Rightarrow> u64 \<Rightarrow> u64 \<Rightarrow> u64 \<Rightarrow> u64 \<Rightarrow>
     'e cml_error + consistency_proof option" where
  "consistency_proof_of rd v alg old_size new_size global_size k =
     (let max_size = tree_size v global_size
      in if old_size = 0 \<or> new_size \<le> old_size \<or> max_size < new_size then Inr None
         else let old_coords = frontier_for_size old_size k
              in if old_coords = [] then Inl (Corrupted alg EmptyOldCoords)
                 else let (boundary_left, boundary_height) = last old_coords
                      in bindE (get_node_hash rd v alg boundary_left boundary_height k) (\<lambda>start_hash.
                           let new_coords = frontier_for_size new_size k
                           in case find_block k boundary_left 0 new_coords of
                                None \<Rightarrow> Inr None
                              | Some (f_idx, left, height) \<Rightarrow>
                                  if height < boundary_height then Inr None
                                  else
                                    bindE (bisect_to_height rd v alg left height boundary_left
                                             boundary_height k []) (\<lambda>path.
                                    bindE (get_node_hashes rd v alg k new_coords) (\<lambda>new_peaks.
                                      Inr (Some \<lparr>cp_boundary_hash = start_hash,
                                                 cp_peak_path = rev path,
                                                 cp_new_peaks = new_peaks,
                                                 cp_split_index = f_idx\<rparr>)))))"

definition peak_at ::
    "'e node_reader \<Rightarrow> alg_view \<Rightarrow> alg_id \<Rightarrow> u64 \<Rightarrow> u32 \<Rightarrow> u64 \<Rightarrow> 'e cml_error + digest" where
  "peak_at rd v alg left height k = get_node_hash rd v alg left height k"

definition root_for_at ::
    "'e node_reader \<Rightarrow> alg_view \<Rightarrow> alg_id \<Rightarrow> u64 \<Rightarrow> u64 \<Rightarrow> 'e cml_error + digest" where
  "root_for_at rd v alg size' k =
     (let alg_size = effective_size_at v size'
      in if alg_size = 0 then Inr (hs_empty (av_hasher v))
         else bindE (get_node_hashes rd v alg k (frontier_for_size alg_size k)) (\<lambda>frontier.
                Inr (bag_peaks (av_hasher v) frontier k)))"

definition frontier_peaks ::
    "'e node_reader \<Rightarrow> alg_view \<Rightarrow> alg_id \<Rightarrow> u64 \<Rightarrow> u64 \<Rightarrow> 'e cml_error + digest list" where
  "frontier_peaks rd v alg size' k =
     mapE (\<lambda>(l, h). peak_at rd v alg l h k) (frontier_for_size size' k)"

section \<open>Epoch validation and reconstruction\<close>

fun validate_epochs_loop ::
    "alg_id \<Rightarrow> u64 \<Rightarrow> u64 \<Rightarrow> epochs \<Rightarrow> 'e cml_error + unit" where
  "validate_epochs_loop alg global_size last_end [] = Inr ()"
| "validate_epochs_loop alg global_size last_end ((start, end') # es) =
     (if end' < start then Inl (Corrupted alg (StartExceedsEnd start end'))
      else if start < last_end then Inl (Corrupted alg (StartBelowPriorEnd start last_end))
      else if end' \<noteq> u64_max \<and> global_size < end'
      then Inl (Corrupted alg (EndExceedsSize end' global_size))
      else if end' = u64_max \<and> es \<noteq> [] then Inl (Corrupted alg OpenEpochNotFinal)
      else validate_epochs_loop alg global_size end' es)"

definition validate_epochs :: "alg_id \<Rightarrow> epochs \<Rightarrow> u64 \<Rightarrow> 'e cml_error + unit" where
  "validate_epochs alg es global_size =
     (if es = [] then Inl (Corrupted alg EmptyEpochSequence)
      else bindE (validate_epochs_loop alg global_size 0 es) (\<lambda>_.
             let (start, end') = last es
             in if end' = u64_max \<and> global_size < start
                then Inl (Corrupted alg (ActiveStartExceedsSize start global_size))
                else Inr ()))"

definition reconstruct_view ::
    "'e node_reader \<Rightarrow> alg_id \<Rightarrow> hasher \<Rightarrow> epochs \<Rightarrow> u64 \<Rightarrow> u64 \<Rightarrow> 'e cml_error + alg_view" where
  "reconstruct_view rd alg h es global_size k =
     bindE (validate_epochs alg es global_size) (\<lambda>_.
       let n = epochs_tree_size es global_size;
           view = \<lparr>av_hasher = h, av_epochs = es, av_frontier = [], av_coords = []\<rparr>
       in if n = 0 then Inr view
          else let coords = frontier_for_size n k
               in bindE (mapE (\<lambda>(left, height).
                           if \<not> active_range view left (left + k ^ height) then Inr (hs_null h)
                           else bindE (map_err Read (rd_node rd alg left height)) (\<lambda>found.
                             ok_or (Corrupted alg (MissingFrontierNode left height)) found)) coords)
                    (\<lambda>frontier. Inr (view\<lparr>av_frontier := frontier, av_coords := coords\<rparr>)))"

text \<open>
  The recursive subtree reader used when an algorithm is reopened.  For \<open>k = 1\<close> the source
  loops and for \<open>k = 0\<close> it divides by zero; both are excluded by the arity check of the log's
  constructor, and the guard \<open>2 \<le> k\<close> in the loops only stops the model there.
\<close>

definition is_power_of :: "nat \<Rightarrow> nat \<Rightarrow> bool" where
  "is_power_of k size' \<longleftrightarrow> fst (strip_factor k size' 0) = 1"

function log_loop :: "nat \<Rightarrow> nat \<Rightarrow> nat \<Rightarrow> nat" where
  "log_loop k temp h = (if 2 \<le> k \<and> 1 < temp then log_loop k (temp div k) (Suc h) else h)"
  by pat_completeness auto
termination
  by (relation "measure (\<lambda>(k, temp, h). temp)") auto

declare log_loop.simps [simp del]

lemma strip_factor_power: "2 \<le> k \<Longrightarrow> strip_factor k (k ^ h) c = (1, c + h)"
proof (induction h arbitrary: c)
  case 0
  then show ?case by (subst strip_factor.simps) simp
next
  case (Suc h)
  then show ?case by (subst strip_factor.simps) simp
qed

lemma strip_factor_small: "k < 2 \<Longrightarrow> strip_factor k m c = (m, c)"
  by (subst strip_factor.simps) simp

lemma block_less_size:
  assumes "(l, h) \<in> set (frontier_for_size n k)" "\<not> is_power_of k n" "1 < n"
  shows "k ^ h < n"
proof (rule ccontr)
  assume "\<not> k ^ h < n"
  then have eq: "n = k ^ h" using frontier_block_le [OF assms(1)] by simp
  then have "2 \<le> k" using assms(3)
    by (cases "k = 0"; cases "k = 1") (auto simp: power_0_left split: if_splits)
  then show False using assms(2) eq strip_factor_power [of k h 0] by (simp add: is_power_of_def)
qed

lemma power_child_less: "is_power_of k n \<Longrightarrow> 1 < n \<Longrightarrow> n div k < n"
  using strip_factor_small [of k n 0] by (cases "k < 2") (auto simp: is_power_of_def)

function reconstruct_subtree_root ::
    "'e node_reader \<Rightarrow> alg_id \<Rightarrow> alg_view \<Rightarrow> u64 \<Rightarrow> u64 \<Rightarrow> u64 \<Rightarrow> log_kind \<Rightarrow> bool \<Rightarrow>
     'e cml_error + (digest \<times> (u64 \<times> u32 \<times> digest) list)" where
  "reconstruct_subtree_root rd alg v lo hi k kind store_mixed =
     (let size' = hi - lo; null = hs_null (av_hasher v)
      in if size' = 0 then Inr (hs_empty (av_hasher v), [])
         else if size' = 1 then
           (if is_active_at v lo then
              (case kind of
                 Subtree \<Rightarrow>
                   bindE (map_err Read (rd_node rd alg lo 0)) (\<lambda>found.
                     case found of
                       Some hash \<Rightarrow>
                         if length hash \<noteq> length null
                         then Inl (Corrupted alg (SubtreeNodeWrongLength lo (length null) (length hash)))
                         else Inr (hash, [])
                     | None \<Rightarrow> Inr (null, []))
               | Flat \<Rightarrow>
                   bindE (map_err Read (rd_leaf rd lo)) (\<lambda>data.
                     Inr (hs_leaf (av_hasher v) data, [])))
            else Inr (null, []))
         else if \<not> active_range v lo hi then Inr (null, [])
         else if is_power_of k size' then
           let height = log_loop k size' 0;
               child_size = size' div k;
               descend = bindE (mapE (\<lambda>j. reconstruct_subtree_root rd alg v (lo + j * child_size)
                                 (lo + (j + 1) * child_size) k kind store_mixed) [0..<k])
                 (\<lambda>parts.
                    let hash = nary_mr (av_hasher v) (map fst parts);
                        mixed = concat (map snd parts)
                    in Inr (hash, if store_mixed then mixed @ [(lo, height, hash)] else mixed))
           in if fully_active v lo hi then
                bindE (map_err Read (rd_node rd alg lo height)) (\<lambda>found.
                  case found of
                    Some hash \<Rightarrow>
                      if length hash \<noteq> length null
                      then Inl (Corrupted alg (NodeWrongLength lo height (length null) (length hash)))
                      else Inr (hash, [])
                  | None \<Rightarrow> descend)
              else descend
         else
           bindE (mapE (\<lambda>(part_left, part_height).
                     reconstruct_subtree_root rd alg v (lo + part_left)
                       (lo + part_left + k ^ part_height) k kind store_mixed)
                   (frontier_for_size size' k))
             (\<lambda>parts. Inr (bag_peaks (av_hasher v) (map fst parts) k, concat (map snd parts))))"
  by pat_completeness auto
termination
  by (relation "measure (\<lambda>(rd, alg, v, lo, hi, _). hi - lo)")
    (auto dest: block_less_size power_child_less simp: algebra_simps)

declare reconstruct_subtree_root.simps [simp del]

end
