(* ===== verification/Cml_Epochs.thy ===== *)
theory Cml_Epochs
  imports Cml_Engine
begin

text \<open>
  The epoch intervals of a view: what \<^verbatim>\<open>validate_epochs\<close> accepts, and how the timeline at a
  smaller size (\<^verbatim>\<open>epochs_at\<close>) relates to the timeline itself.
\<close>

section \<open>Valid interval sequences\<close>

fun epochs_sorted :: "u64 \<Rightarrow> epochs \<Rightarrow> bool" where
  "epochs_sorted b [] \<longleftrightarrow> True"
| "epochs_sorted b ((s, e) # es) \<longleftrightarrow> b \<le> s \<and> s \<le> e \<and> epochs_sorted e es"

definition epochs_valid :: "u64 \<Rightarrow> epochs \<Rightarrow> bool" where
  "epochs_valid g es \<longleftrightarrow> es \<noteq> [] \<and> epochs_sorted 0 es
     \<and> (\<forall>(s, e) \<in> set (butlast es). e \<noteq> u64_max \<and> e \<le> g)
     \<and> (let (s, e) = last es in if e = u64_max then s \<le> g else e \<le> g)"

lemma validate_loop_iff:
  "validate_epochs_loop alg g b es = Inr () \<longleftrightarrow>
     epochs_sorted b es \<and> (\<forall>(s, e) \<in> set es. e = u64_max \<or> e \<le> g)
     \<and> (\<forall>(s, e) \<in> set (butlast es). e \<noteq> u64_max)"
proof (induction alg g b es rule: validate_epochs_loop.induct)
  case (2 alg g b s e es)
  show ?case
  proof (cases es)
    case Nil
    then show ?thesis by auto
  next
    case (Cons x xs)
    then show ?thesis using 2 by (auto split: if_splits)
  qed
qed simp

lemma validate_epochs_iff:
  "(validate_epochs alg es g :: 'e cml_error + unit) = Inr () \<longleftrightarrow> epochs_valid g es"
proof (cases es rule: rev_cases)
  case Nil
  then show ?thesis by (simp add: validate_epochs_def epochs_valid_def)
next
  case (snoc xs x)
  obtain s e where x: "x = (s, e)" by (cases x)
  have "(validate_epochs alg es g :: 'e cml_error + unit) = Inr () \<longleftrightarrow>
      ((validate_epochs_loop alg g 0 es :: 'e cml_error + unit) = Inr () \<and> (e = u64_max \<longrightarrow> s \<le> g))"
    by (cases "validate_epochs_loop alg g 0 es :: 'e cml_error + unit") (auto simp: validate_epochs_def snoc x)
  then show ?thesis
    unfolding validate_loop_iff by (auto simp: epochs_valid_def snoc x split: if_splits)
qed

section \<open>The timeline at a smaller size\<close>

lemma epochs_sorted_ge: "epochs_sorted b es \<Longrightarrow> (s, e) \<in> set es \<Longrightarrow> b \<le> s \<and> s \<le> e"
  by (induction b es rule: epochs_sorted.induct) force+

text \<open>Below the given size the committed timeline has the same active positions.\<close>

lemma epochs_at_loop_active:
  "epochs_sorted b es \<Longrightarrow> i < sz \<Longrightarrow> i < u64_max \<Longrightarrow>
    list_ex (\<lambda>(s, e). s \<le> i \<and> i < e) (epochs_at_loop sz es) \<longleftrightarrow> list_ex (\<lambda>(s, e). s \<le> i \<and> i < e) es"
proof (induction b es rule: epochs_sorted.induct)
  case (2 b s e es)
  have "\<not> list_ex (\<lambda>(s, e). s \<le> i \<and> i < e) es" if "sz < s \<or> sz < e"
  proof -
    have "i < e" using that "2.prems" by auto
    then have "\<forall>(s', e') \<in> set es. i < s'" using "2.prems"(1) epochs_sorted_ge by fastforce
    then show ?thesis by (fastforce simp: list_ex_iff)
  qed
  then show ?case using 2 by auto
qed simp

lemma epochs_at_loop_idem:
  "epochs_sorted b es \<Longrightarrow> m \<le> n \<Longrightarrow> n < u64_max \<Longrightarrow>
    epochs_at_loop m (epochs_at_loop n es) = epochs_at_loop m es"
  by (induction b es rule: epochs_sorted.induct) auto

lemma epochs_at_Some:
  "epochs_at v sz = Some es \<longleftrightarrow> es = epochs_at_loop sz (av_epochs v) \<and> es \<noteq> []"
  by (auto simp: epochs_at_def Let_def)

section \<open>Properties\<close>

text \<open>
  The epoch validation accepts exactly the interval sequences that are non-empty, ordered
  and disjoint, closed inside the log except for an open last interval that starts inside it.
\<close>

theorem validate_epochs_spec:
  "validate_epochs alg es g = Inr () \<longleftrightarrow> epochs_valid g es"
  by (rule validate_epochs_iff)

text \<open>
  Committing the timeline at a size loses nothing below it: at every earlier index the
  committed intervals are active exactly where the view is, and the timeline committed at a
  still earlier size can be recomputed from it.
\<close>

theorem epochs_at_prefix:
  assumes "validate_epochs alg (av_epochs v) g = Inr ()" "epochs_at v n = Some es"
    and "m \<le> n" "n < u64_max" "i < n"
  shows "(list_ex (\<lambda>(s, e). s \<le> i \<and> i < e) es \<longleftrightarrow> is_active_at v i)
    \<and> epochs_at (v\<lparr>av_epochs := es\<rparr>) m = epochs_at v m"
proof -
  have "epochs_sorted 0 (av_epochs v)"
    using assms(1) by (simp add: validate_epochs_iff epochs_valid_def)
  then show ?thesis
    using assms(2-) epochs_at_loop_active [of 0 "av_epochs v" i n] epochs_at_loop_idem [of 0 "av_epochs v" m n]
    by (auto simp: epochs_at_def is_active_at_def Let_def split: if_splits)
qed

theorem epochs_at_prefix_witness:
  "(list_ex (\<lambda>(s, e). s \<le> (4 :: u64) \<and> 4 < e) [(1, 3), (4, u64_max)] \<longleftrightarrow>
      is_active_at \<lparr>av_hasher = toy_hasher, av_epochs = [(1, 3), (4, 9)], av_frontier = [], av_coords = []\<rparr> 4)
    \<and> epochs_at (\<lparr>av_hasher = toy_hasher, av_epochs = [(1, 3), (4, 9)], av_frontier = [], av_coords = []\<rparr>
         \<lparr>av_epochs := [(1, 3), (4, u64_max)]\<rparr>) 2
      = epochs_at \<lparr>av_hasher = toy_hasher, av_epochs = [(1, 3), (4, 9)], av_frontier = [], av_coords = []\<rparr> 2"
  by (rule epochs_at_prefix [where 'a = unit and n = 5 and g = 10 and alg = 0])
    (simp_all add: validate_epochs_def epochs_at_def u64_max_def Let_def)

end
