(* ===== verification/Poly_Nullruns.thy ===== *)
theory Poly_Nullruns
  imports Cml_Epochs "HOL-Library.Product_Lexorder"
begin

text \<open>
  The null runs of \<^verbatim>\<open>polydigest/src/root.rs\<close>: the inactive positions of an algorithm as
  aligned blocks, and their serialization.  The additions of the greedy loop are unchecked in
  the source, so they wrap at \<open>2 ^ 64\<close>; a loop that never ends, or a division by zero, is the
  value \<open>None\<close>.  A timeline is the list of an algorithm's epochs per algorithm id.
\<close>

type_synonym timeline = "(alg_id \<times> epochs) list"

section \<open>Definitions\<close>

record null_run =
  nr_left :: u64
  nr_height :: u32

text \<open>The inner loop: grow the block while it stays aligned and inside the gap.\<close>

partial_function (option) grow_block :: "u64 \<Rightarrow> u64 \<Rightarrow> u64 \<Rightarrow> u32 \<Rightarrow> u32 option" where
  "grow_block arity left right height =
     (case checked_pow arity (height + 1) of
        None \<Rightarrow> Some height
      | Some span \<Rightarrow>
          if span = 0 then None
          else if left mod span = 0 \<and> wrapping_add left span \<le> right
          then grow_block arity left right (height + 1)
          else Some height)"

partial_function (option) decompose_inactive_gap ::
    "u64 \<Rightarrow> u64 \<Rightarrow> u64 \<Rightarrow> null_run list \<Rightarrow> null_run list option" where
  "decompose_inactive_gap left right arity runs =
     (if left < right
      then (case grow_block arity left right 0 of
              None \<Rightarrow> None
            | Some height \<Rightarrow>
                decompose_inactive_gap (wrapping_add left (arity ^ height)) right arity
                  (runs @ [\<lparr>nr_left = left, nr_height = height\<rparr>]))
      else Some runs)"

definition clip_epochs :: "u64 \<Rightarrow> epochs \<Rightarrow> epochs" where
  "clip_epochs tsize eps =
     List.map_filter (\<lambda>(s, e).
       let s = min s tsize; e = min e tsize in if s < e then Some (s, e) else None) eps"

definition merge_epoch :: "epochs \<Rightarrow> u64 \<times> u64 \<Rightarrow> epochs" where
  "merge_epoch merged se =
     (if merged \<noteq> [] \<and> fst se \<le> snd (last merged)
      then butlast merged @ [(fst (last merged), max (snd (last merged)) (snd se))]
      else merged @ [se])"

fun walk_gaps :: "u64 \<Rightarrow> u64 \<Rightarrow> u64 \<Rightarrow> epochs \<Rightarrow> null_run list \<Rightarrow> null_run list option" where
  "walk_gaps tsize arity cursor [] runs = decompose_inactive_gap cursor tsize arity runs"
| "walk_gaps tsize arity cursor ((s, e) # merged) runs =
     (case decompose_inactive_gap cursor s arity runs of
        None \<Rightarrow> None
      | Some runs' \<Rightarrow> walk_gaps tsize arity e merged runs')"

definition null_runs_for_alg :: "epochs \<Rightarrow> u64 \<Rightarrow> u64 \<Rightarrow> null_run list option" where
  "null_runs_for_alg eps tsize arity =
     (let active = sort (clip_epochs tsize eps);
          merged = foldl merge_epoch [] active
      in walk_gaps tsize arity 0 merged [])"

fun collect_runs :: "timeline \<Rightarrow> u64 \<Rightarrow> u64 \<Rightarrow> (alg_id \<times> null_run list) list option" where
  "collect_runs [] tsize arity = Some []"
| "collect_runs ((alg, eps) # alg_epochs) tsize arity =
     (case null_runs_for_alg eps tsize arity of
        None \<Rightarrow> None
      | Some runs \<Rightarrow>
          map_option (\<lambda>rest. if runs = [] then rest else (alg, runs) # rest)
            (collect_runs alg_epochs tsize arity))"

definition all_null_runs :: "timeline \<Rightarrow> u64 \<Rightarrow> u64 \<Rightarrow> (alg_id \<times> null_run list) list option" where
  "all_null_runs alg_epochs tsize arity =
     map_option (sort_key fst) (collect_runs alg_epochs tsize arity)"

definition null_runs_are_trivial :: "timeline \<Rightarrow> u64 \<Rightarrow> u64 \<Rightarrow> bool option" where
  "null_runs_are_trivial alg_epochs tsize arity =
     map_option (\<lambda>all. all = []) (all_null_runs alg_epochs tsize arity)"

text \<open>\<^verbatim>\<open>to_be_bytes\<close> of a value of \<open>w\<close> bytes.\<close>

fun be_bytes :: "nat \<Rightarrow> nat \<Rightarrow> bytes" where
  "be_bytes 0 n = []"
| "be_bytes (Suc w) n = be_bytes w (n div 256) @ [of_nat (n mod 256)]"

definition run_bytes :: "null_run \<Rightarrow> bytes" where
  "run_bytes r = be_bytes 8 (nr_left r) @ be_bytes 4 (nr_height r)"

definition alg_bytes :: "alg_id \<times> null_run list \<Rightarrow> bytes" where
  "alg_bytes p = be_bytes 8 (fst p) @ be_bytes 8 (length (snd p)) @ concat (map run_bytes (snd p))"

definition serialize_null_runs :: "timeline \<Rightarrow> u64 \<Rightarrow> u64 \<Rightarrow> bytes option" where
  "serialize_null_runs alg_epochs tsize arity =
     map_option (\<lambda>all. be_bytes 8 arity @ be_bytes 8 tsize @ be_bytes 8 (length all)
         @ concat (map alg_bytes all))
       (all_null_runs alg_epochs tsize arity)"

section \<open>The greedy decomposition\<close>

definition run_cells :: "nat \<Rightarrow> null_run \<Rightarrow> nat list" where
  "run_cells k r = [nr_left r..<nr_left r + k ^ nr_height r]"

definition aligned_run :: "nat \<Rightarrow> null_run \<Rightarrow> bool" where
  "aligned_run k r \<longleftrightarrow> nr_left r mod k ^ nr_height r = 0"

text \<open>Up to \<open>2 ^ 63\<close> no addition wraps: an aligned block that does not start at 0 is no longer
  than its left bound.\<close>

lemma aligned_add_no_wrap:
  assumes "left mod span = 0" "left < 2 ^ 63" "span < u64_limit"
  shows "wrapping_add left span = left + span"
proof (cases "left = 0")
  case True
  then show ?thesis using assms(3) by (simp add: wrapping_add_def u64_limit_def)
next
  case False
  then have "span \<le> left" using assms(1) by (intro dvd_imp_le) auto
  then have "left + span < 2 ^ 64" using assms(2) by simp
  then show ?thesis by (simp add: wrapping_add_def)
qed

lemma grow_block_step:
  assumes "2 \<le> k" "k ^ Suc h < u64_limit" "left mod k ^ Suc h = 0" "wrapping_add left (k ^ Suc h) \<le> right"
  shows "grow_block k left right h = grow_block k left right (Suc h)"
proof -
  have "k ^ Suc h \<noteq> 0" using assms(1) by simp
  then show ?thesis
    using assms(2-) by (subst grow_block.simps) (simp only: checked_pow_eq Suc_eq_plus1 option.case if_False
      simp_thms if_True)
qed

lemma grow_block_stop:
  assumes "2 \<le> k"
    and "\<not> (k ^ Suc h < u64_limit \<and> left mod k ^ Suc h = 0 \<and> wrapping_add left (k ^ Suc h) \<le> right)"
  shows "grow_block k left right h = Some h"
proof (cases "k ^ Suc h < u64_limit")
  case True
  have "k ^ Suc h \<noteq> 0" using assms(1) by simp
  then show ?thesis using True assms(2)
    by (subst grow_block.simps) (simp only: checked_pow_eq Suc_eq_plus1 [symmetric] option.case if_False simp_thms)
next
  case False
  then have "checked_pow k (h + 1) = None" by (simp only: checked_pow_def Suc_eq_plus1 if_False)
  then show ?thesis by (subst grow_block.simps) (simp only: option.case)
qed

lemma grow_block_spec:
  assumes k: "2 \<le> k" and r: "left < right" "right \<le> 2 ^ 63"
  shows "left mod k ^ height = 0 \<Longrightarrow> left + k ^ height \<le> right \<Longrightarrow>
    \<exists>h. grow_block k left right height = Some h \<and> left mod k ^ h = 0 \<and> left + k ^ h \<le> right
      \<and> k ^ h < u64_limit"
proof (induction "right - k ^ height" arbitrary: height rule: less_induct)
  case less
  have "right < u64_limit" using r(2) by (simp add: u64_limit_def)
  then have lim: "k ^ height < u64_limit" using less.prems(2) by linarith
  have left: "left < 2 ^ 63" using r by linarith
  show ?case
  proof (cases "k ^ Suc height < u64_limit \<and> left mod k ^ Suc height = 0
      \<and> wrapping_add left (k ^ Suc height) \<le> right")
    case True
    then have c: "k ^ Suc height < u64_limit" "left mod k ^ Suc height = 0"
      "wrapping_add left (k ^ Suc height) \<le> right" by blast+
    have le: "left + k ^ Suc height \<le> right"
      using aligned_add_no_wrap [OF c(2) left c(1)] c(3) by (simp only:)
    have "k ^ height < k ^ Suc height" using k by (intro power_strict_increasing) simp_all
    then have lt: "right - k ^ Suc height < right - k ^ height" using le by linarith
    from less.hyps [OF lt c(2) le] show ?thesis unfolding grow_block_step [OF k c] .
  next
    case False
    show ?thesis
      using grow_block_stop [OF k False] less.prems lim by (intro exI [of _ height] conjI)
  qed
qed

lemma decompose_spec:
  assumes k: "2 \<le> k" and r: "right \<le> 2 ^ 63"
  shows "left \<le> right \<Longrightarrow>
    \<exists>new. decompose_inactive_gap left right k runs = Some (runs @ new)
      \<and> concat (map (run_cells k) new) = [left..<right] \<and> list_all (aligned_run k) new"
proof (induction "right - left" arbitrary: left runs rule: less_induct)
  case less
  show ?case
  proof (cases "left < right")
    case True
    obtain h where h: "grow_block k left right 0 = Some h" "left mod k ^ h = 0" "left + k ^ h \<le> right"
      "k ^ h < u64_limit"
      using grow_block_spec [OF k True r, of 0] True by auto
    let ?r = "\<lparr>nr_left = left, nr_height = h\<rparr>"
    have add: "wrapping_add left (k ^ h) = left + k ^ h"
      using aligned_add_no_wrap [OF h(2) _ h(4)] True r by simp
    have "0 < k ^ h" using k by simp
    then have "right - (left + k ^ h) < right - left" using True by linarith
    then obtain new where new: "decompose_inactive_gap (left + k ^ h) right k (runs @ [?r]) = Some ((runs @ [?r]) @ new)"
      "concat (map (run_cells k) new) = [left + k ^ h..<right]" "list_all (aligned_run k) new"
      using less.hyps [of "left + k ^ h" "runs @ [?r]"] h(3) by blast
    have "decompose_inactive_gap left right k runs = Some (runs @ ?r # new)"
      using True h(1) new(1) add by (subst decompose_inactive_gap.simps) simp
    moreover have "concat (map (run_cells k) (?r # new)) = [left..<right]"
      using new(2) h(3) upt_add_eq_append [of left "left + k ^ h" "right - (left + k ^ h)"]
      by (simp add: run_cells_def)
    moreover have "list_all (aligned_run k) (?r # new)" using new(3) h(2) by (simp add: aligned_run_def)
    ultimately show ?thesis by blast
  next
    case False
    then have "decompose_inactive_gap left right k runs = Some (runs @ [])"
      by (subst decompose_inactive_gap.simps) simp
    then show ?thesis using False less.prems by (intro exI [of _ "[]"]) simp
  qed
qed

section \<open>Merging the epochs\<close>

definition active_in :: "epochs \<Rightarrow> u64 \<Rightarrow> bool" where
  "active_in eps i \<longleftrightarrow> list_ex (\<lambda>(s, e). s \<le> i \<and> i < e) eps"

lemma active_in_simps [simp]:
  "\<not> active_in [] i"
  "active_in ((s, e) # eps) i \<longleftrightarrow> s \<le> i \<and> i < e \<or> active_in eps i"
  "active_in (xs @ ys) i \<longleftrightarrow> active_in xs i \<or> active_in ys i"
  by (auto simp: active_in_def)

lemma active_in_cong: "set xs = set ys \<Longrightarrow> active_in xs i = active_in ys i"
  by (simp add: active_in_def list_ex_iff)

definition separate :: "u64 \<Rightarrow> epochs \<Rightarrow> bool" where
  "separate n eps \<longleftrightarrow> sorted_wrt (\<lambda>a b. snd a \<le> fst b) eps \<and> (\<forall>(s, e) \<in> set eps. s < e \<and> e \<le> n)"

lemma clip_epochs_Cons:
  "clip_epochs n ((s, e) # eps) =
     (if min s n < min e n then (min s n, min e n) # clip_epochs n eps else clip_epochs n eps)"
  by (simp add: clip_epochs_def map_filter_simps Let_def)

lemma clip_epochs_bounds: "(s, e) \<in> set (clip_epochs n eps) \<Longrightarrow> s < e \<and> e \<le> n"
proof (induction eps)
  case (Cons p eps)
  then show ?case by (cases p) (auto simp: clip_epochs_Cons split: if_splits)
qed (simp add: clip_epochs_def map_filter_simps)

lemma clip_epochs_active: "i < n \<Longrightarrow> active_in (clip_epochs n eps) i = active_in eps i"
proof (induction eps)
  case (Cons p eps)
  then show ?case by (cases p) (auto simp: clip_epochs_Cons)
qed (simp add: clip_epochs_def map_filter_simps)

lemma merge_epoch_separate:
  assumes "separate n acc" "s < e" "e \<le> n" "\<And>x. x \<in> set acc \<Longrightarrow> fst x \<le> s"
  shows "separate n (merge_epoch acc (s, e))
    \<and> (\<forall>i. active_in (merge_epoch acc (s, e)) i = active_in (acc @ [(s, e)]) i)
    \<and> (\<forall>x \<in> set (merge_epoch acc (s, e)). fst x \<le> s)"
proof (cases acc rule: rev_cases)
  case Nil
  then show ?thesis using assms by (simp add: merge_epoch_def separate_def)
next
  case (snoc ys p)
  obtain a b where p: "p = (a, b)" by (cases p)
  show ?thesis
  proof (cases "s \<le> b")
    case True
    then have m: "merge_epoch acc (s, e) = ys @ [(a, max b e)]" by (simp add: merge_epoch_def snoc p)
    have "a \<le> s" using assms(4) [of "(a, b)"] by (simp add: snoc p)
    have "a < b" "b \<le> n" using assms(1) by (simp_all add: separate_def snoc p)
    then have "separate n (ys @ [(a, max b e)])"
      using assms(1,3) by (auto simp: separate_def snoc p sorted_wrt_append)
    moreover have "active_in (ys @ [(a, max b e)]) i = active_in (acc @ [(s, e)]) i" for i
      using \<open>a \<le> s\<close> True by (auto simp: snoc p)
    moreover have "fst x \<le> s" if "x \<in> set (ys @ [(a, max b e)])" for x
      using that assms(4) [of x] \<open>a \<le> s\<close> by (auto simp: snoc p)
    ultimately show ?thesis unfolding m by blast
  next
    case False
    then have m: "merge_epoch acc (s, e) = acc @ [(s, e)]" by (simp add: merge_epoch_def snoc p)
    have "snd x \<le> s" if "x \<in> set acc" for x
    proof -
      have "snd x \<le> b \<or> x = (a, b)" using that assms(1) by (auto simp: separate_def snoc p sorted_wrt_append)
      then show ?thesis using False by auto
    qed
    then show ?thesis using assms unfolding m by (auto simp: separate_def sorted_wrt_append)
  qed
qed

lemma merge_epochs_separate:
  assumes "separate n acc" "sorted eps" "\<And>s e. (s, e) \<in> set eps \<Longrightarrow> s < e \<and> e \<le> n"
    and "\<And>x y. x \<in> set acc \<Longrightarrow> y \<in> set eps \<Longrightarrow> fst x \<le> fst y"
  shows "separate n (foldl merge_epoch acc eps)
    \<and> (\<forall>i. active_in (foldl merge_epoch acc eps) i = active_in (acc @ eps) i)"
  using assms
proof (induction eps arbitrary: acc)
  case (Cons p eps)
  obtain s e where p: "p = (s, e)" by (cases p)
  have "s < e" "e \<le> n" "\<And>x. x \<in> set acc \<Longrightarrow> fst x \<le> s" using Cons.prems(3,4) p by fastforce+
  from merge_epoch_separate [OF Cons.prems(1) this] have
    m: "separate n (merge_epoch acc p)" "\<And>i. active_in (merge_epoch acc p) i = active_in (acc @ [p]) i"
      "\<And>x. x \<in> set (merge_epoch acc p) \<Longrightarrow> fst x \<le> s" by (simp_all add: p)
  have below: "fst x \<le> fst y" if "x \<in> set (merge_epoch acc p)" "y \<in> set eps" for x y
  proof -
    have "p \<le> y" using Cons.prems(2) that(2) by simp
    then have "s \<le> fst y" by (cases y) (auto simp: p less_eq_prod_def)
    then show ?thesis using m(3) [OF that(1)] by simp
  qed
  have "separate n (foldl merge_epoch (merge_epoch acc p) eps)
    \<and> (\<forall>i. active_in (foldl merge_epoch (merge_epoch acc p) eps) i = active_in (merge_epoch acc p @ eps) i)"
  proof (rule Cons.IH [OF m(1)])
    show "sorted eps" using Cons.prems(2) by simp
    show "s' < e' \<and> e' \<le> n" if "(s', e') \<in> set eps" for s' e' using Cons.prems(3) [of s' e'] that by simp
  qed (rule below)
  then show ?case by (simp add: m(2), simp add: p)
qed simp

section \<open>The runs of an algorithm\<close>

lemma separate_Cons: "separate n ((s, e) # m) \<longleftrightarrow> s < e \<and> e \<le> n \<and> (\<forall>x \<in> set m. e \<le> fst x) \<and> separate n m"
  by (auto simp: separate_def)

lemma separate_active: "separate n m \<Longrightarrow> active_in m i \<Longrightarrow> \<exists>x \<in> set m. fst x \<le> i"
  by (induction m) (auto simp: separate_Cons)

lemma walk_gaps_spec:
  assumes k: "2 \<le> k" and n: "n \<le> 2 ^ 63"
  shows "separate n merged \<Longrightarrow> cursor \<le> n \<Longrightarrow> (\<And>x. x \<in> set merged \<Longrightarrow> cursor \<le> fst x) \<Longrightarrow>
    \<exists>new. walk_gaps n k cursor merged runs = Some (runs @ new)
      \<and> concat (map (run_cells k) new) = filter (\<lambda>i. \<not> active_in merged i) [cursor..<n]
      \<and> list_all (aligned_run k) new"
proof (induction merged arbitrary: cursor runs)
  case Nil
  then show ?case using decompose_spec [OF k n Nil.prems(2), of runs] by simp
next
  case (Cons p merged)
  obtain s e where p: "p = (s, e)" by (cases p)
  have se: "s < e" "e \<le> n" "separate n merged" "\<And>x. x \<in> set merged \<Longrightarrow> e \<le> fst x"
    using Cons.prems(1) by (simp_all add: p separate_Cons)
  have cs: "cursor \<le> s" using Cons.prems(3) [of p] by (simp add: p)
  have sn: "s \<le> 2 ^ 63" using se n by linarith
  from decompose_spec [OF k sn cs, of runs] obtain gap where
    gap: "decompose_inactive_gap cursor s k runs = Some (runs @ gap)"
      "concat (map (run_cells k) gap) = [cursor..<s]" "list_all (aligned_run k) gap" by blast
  from Cons.IH [OF se(3,2,4), of "runs @ gap"] obtain new where
    new: "walk_gaps n k e merged (runs @ gap) = Some ((runs @ gap) @ new)"
      "concat (map (run_cells k) new) = filter (\<lambda>i. \<not> active_in merged i) [e..<n]"
      "list_all (aligned_run k) new" by blast
  have late: "\<not> active_in merged i" if "i < e" for i
    using separate_active [OF se(3), of i] se(4) that by fastforce
  have "[s..<n] = [s..<e] @ [e..<n]" using upt_add_eq_append [of s e "n - e"] se(1,2) by simp
  moreover have "[cursor..<n] = [cursor..<s] @ [s..<n]"
    using upt_add_eq_append [of cursor s "n - s"] cs se(1,2) by simp
  ultimately have "[cursor..<n] = [cursor..<s] @ [s..<e] @ [e..<n]" by simp
  then have "filter (\<lambda>i. \<not> active_in (p # merged) i) [cursor..<n]
      = filter (\<lambda>i. \<not> active_in (p # merged) i) [cursor..<s]
        @ filter (\<lambda>i. \<not> active_in (p # merged) i) [s..<e]
        @ filter (\<lambda>i. \<not> active_in (p # merged) i) [e..<n]" by (simp only: filter_append)
  also have "filter (\<lambda>i. \<not> active_in (p # merged) i) [cursor..<s] = [cursor..<s]"
    using late se(1) by (intro filter_True) (auto simp: p)
  also have "filter (\<lambda>i. \<not> active_in (p # merged) i) [s..<e] = []"
    by (intro filter_False) (auto simp: p)
  also have "filter (\<lambda>i. \<not> active_in (p # merged) i) [e..<n] = filter (\<lambda>i. \<not> active_in merged i) [e..<n]"
    by (intro filter_cong) (auto simp: p)
  finally have "concat (map (run_cells k) (gap @ new)) = filter (\<lambda>i. \<not> active_in (p # merged) i) [cursor..<n]"
    using gap(2) new(2) by simp
  moreover have "walk_gaps n k cursor (p # merged) runs = Some (runs @ gap @ new)"
    using gap(1) new(1) by (simp add: p)
  ultimately show ?case using gap(3) new(3) by (intro exI [of _ "gap @ new"]) simp
qed

lemma null_runs_spec:
  assumes "2 \<le> k" "n \<le> 2 ^ 63"
  shows "\<exists>runs. null_runs_for_alg eps n k = Some runs
    \<and> concat (map (run_cells k) runs) = filter (\<lambda>i. \<not> active_in eps i) [0..<n]
    \<and> list_all (aligned_run k) runs"
proof -
  let ?act = "sort (clip_epochs n eps)"
  have "separate n (foldl merge_epoch [] ?act) \<and> (\<forall>i. active_in (foldl merge_epoch [] ?act) i = active_in ([] @ ?act) i)"
    by (rule merge_epochs_separate) (auto simp: separate_def dest: clip_epochs_bounds)
  then have sep: "separate n (foldl merge_epoch [] ?act)"
    and act: "\<And>i. active_in (foldl merge_epoch [] ?act) i = active_in (clip_epochs n eps) i"
    using active_in_cong [of ?act "clip_epochs n eps"] by simp_all
  from walk_gaps_spec [OF assms sep, of 0 "[]"] obtain runs where
    "walk_gaps n k 0 (foldl merge_epoch [] ?act) [] = Some runs"
    "concat (map (run_cells k) runs) = filter (\<lambda>i. \<not> active_in (foldl merge_epoch [] ?act) i) [0..<n]"
    "list_all (aligned_run k) runs" by auto
  moreover have "filter (\<lambda>i. \<not> active_in (foldl merge_epoch [] ?act) i) [0..<n]
      = filter (\<lambda>i. \<not> active_in eps i) [0..<n]"
    using act clip_epochs_active [of _ n eps] by (intro filter_cong) auto
  ultimately show ?thesis by (intro exI [of _ runs]) (simp add: null_runs_for_alg_def Let_def)
qed

section \<open>Where the greedy loop does not return\<close>

text \<open>
  With the wrap-around at \<open>2 ^ 64\<close> the block at \<open>2 ^ 63\<close> grows to height 63 although it ends
  outside the gap, and the next left bound is 0.
\<close>

lemma grow_block_top:
  assumes "left = 0 \<or> left = 2 ^ 63" "2 ^ 63 + 2 ^ 62 \<le> right"
  shows "h \<le> 63 \<Longrightarrow> grow_block 2 left right h = Some 63"
proof (induction "63 - h" arbitrary: h)
  case 0
  then have "h = 63" by simp
  moreover have "grow_block 2 left right 63 = Some 63"
    by (rule grow_block_stop) (simp_all add: u64_limit_def)
  ultimately show ?case by simp
next
  case (Suc d)
  then have h: "Suc h \<le> 63" by simp
  then obtain c where c: "63 = Suc h + c" using le_Suc_ex by blast
  have pow: "(2::nat) ^ 63 = 2 ^ Suc h * 2 ^ c" unfolding c by (simp only: power_add)
  have le: "(2::nat) ^ Suc h \<le> 2 ^ 63" by (rule power_increasing [OF h]) simp
  have "left mod 2 ^ Suc h = 0" using assms(1) unfolding pow by auto
  moreover have "wrapping_add left (2 ^ Suc h) \<le> right"
  proof (cases "left = 0")
    case True
    have "(2::nat) ^ Suc h mod 2 ^ 64 = 2 ^ Suc h" using le by (intro mod_less) simp
    then have "wrapping_add left (2 ^ Suc h) = 2 ^ Suc h" unfolding wrapping_add_def True by (simp only: add_0)
    then show ?thesis using assms(2) le by linarith
  next
    case False
    then have left: "left = 2 ^ 63" using assms(1) by simp
    show ?thesis
    proof (cases "Suc h = 63")
      case True
      then show ?thesis unfolding left True wrapping_add_def by simp
    next
      case False
      then have "(2::nat) ^ Suc h \<le> 2 ^ 62" using h by (intro power_increasing) simp_all
      moreover have "(2 ^ 63 + 2 ^ Suc h) mod 2 ^ 64 \<le> (2::nat) ^ 63 + 2 ^ Suc h" by (rule mod_less_eq_dividend)
      ultimately show ?thesis using assms(2) unfolding left wrapping_add_def by linarith
    qed
  qed
  moreover have "(2::nat) ^ Suc h < u64_limit" using le by (simp add: u64_limit_def del: power_Suc)
  ultimately have "grow_block 2 left right h = grow_block 2 left right (Suc h)"
    by (intro grow_block_step) simp_all
  also have "\<dots> = Some 63" using Suc h by (intro Suc.hyps) simp_all
  finally show ?case .
qed

lemma decompose_diverges_aux:
  assumes "decompose_inactive_gap left right arity runs = Some result"
  shows "\<not> (arity = 2 \<and> (left = 0 \<or> left = 2 ^ 63) \<and> 2 ^ 63 + 2 ^ 62 \<le> right)"
proof (rule decompose_inactive_gap.raw_induct [where P = "\<lambda>left right arity runs _.
    \<not> (arity = 2 \<and> (left = 0 \<or> left = 2 ^ 63) \<and> 2 ^ 63 + 2 ^ 62 \<le> right)", OF _ assms])
  fix decompose left right arity runs result
  assume IH: "\<And>left right arity runs result. decompose left right arity runs = Some result \<Longrightarrow>
      \<not> (arity = 2 \<and> (left = 0 \<or> left = 2 ^ 63) \<and> 2 ^ 63 + 2 ^ 62 \<le> right)"
    and body: "(if left < right
      then (case grow_block arity left right 0 of None \<Rightarrow> None
            | Some height \<Rightarrow> decompose (wrapping_add left (arity ^ height)) right arity
                (runs @ [\<lparr>nr_left = left, nr_height = height\<rparr>]))
      else Some runs) = Some result"
  show "\<not> (arity = 2 \<and> (left = 0 \<or> left = 2 ^ 63) \<and> 2 ^ 63 + 2 ^ 62 \<le> right)"
  proof
    assume "arity = 2 \<and> (left = 0 \<or> left = 2 ^ 63) \<and> 2 ^ 63 + 2 ^ 62 \<le> right"
    then have arity: "arity = 2" and left: "left = 0 \<or> left = 2 ^ 63" and right: "2 ^ 63 + 2 ^ 62 \<le> right"
      by blast+
    have "left < right" using left right by auto
    moreover have "grow_block arity left right 0 = Some 63"
      using grow_block_top [OF left right, of 0] arity by simp
    ultimately have "decompose (wrapping_add left (arity ^ 63)) right arity
        (runs @ [\<lparr>nr_left = left, nr_height = 63\<rparr>]) = Some result"
      using body by simp
    moreover have "wrapping_add left (arity ^ 63) = 0 \<or> wrapping_add left (arity ^ 63) = 2 ^ 63"
      using arity left by (auto simp: wrapping_add_def)
    ultimately show False using IH arity right by blast
  qed
qed

lemma decompose_diverges:
  "left = 0 \<or> left = 2 ^ 63 \<Longrightarrow> 2 ^ 63 + 2 ^ 62 \<le> right \<Longrightarrow>
     decompose_inactive_gap left right 2 runs = None"
  using decompose_diverges_aux [of left right 2 runs] by (cases "decompose_inactive_gap left right 2 runs") auto

section \<open>Reading the serialization back\<close>

text \<open>A reference reader of the layout documented in the source; the code itself never parses it.\<close>

definition be_value :: "bytes \<Rightarrow> nat" where
  "be_value bs = foldl (\<lambda>n b. n * 256 + unat b) 0 bs"

definition read_be :: "nat \<Rightarrow> bytes \<Rightarrow> (nat \<times> bytes) option" where
  "read_be w bs = (if length bs < w then None else Some (be_value (take w bs), drop w bs))"

fun read_many :: "(bytes \<Rightarrow> ('a \<times> bytes) option) \<Rightarrow> nat \<Rightarrow> bytes \<Rightarrow> ('a list \<times> bytes) option" where
  "read_many rd 0 bs = Some ([], bs)"
| "read_many rd (Suc n) bs =
     (case rd bs of None \<Rightarrow> None
      | Some (x, bs') \<Rightarrow> map_option (\<lambda>(xs, bs''). (x # xs, bs'')) (read_many rd n bs'))"

definition read_run :: "bytes \<Rightarrow> (null_run \<times> bytes) option" where
  "read_run bs = Option.bind (read_be 8 bs) (\<lambda>(l, bs).
     map_option (\<lambda>(h, bs). (\<lparr>nr_left = l, nr_height = h\<rparr>, bs)) (read_be 4 bs))"

definition read_alg :: "bytes \<Rightarrow> ((alg_id \<times> null_run list) \<times> bytes) option" where
  "read_alg bs = Option.bind (read_be 8 bs) (\<lambda>(alg, bs). Option.bind (read_be 8 bs) (\<lambda>(n, bs).
     map_option (\<lambda>(runs, bs). ((alg, runs), bs)) (read_many read_run n bs)))"

definition read_null_runs :: "bytes \<Rightarrow> (u64 \<times> u64 \<times> (alg_id \<times> null_run list) list) option" where
  "read_null_runs bs = Option.bind (read_be 8 bs) (\<lambda>(arity, bs). Option.bind (read_be 8 bs) (\<lambda>(n, bs).
     Option.bind (read_be 8 bs) (\<lambda>(m, bs). Option.bind (read_many read_alg m bs) (\<lambda>(all, bs).
       if bs = [] then Some (arity, n, all) else None))))"

lemma length_be_bytes [simp]: "length (be_bytes w n) = w"
  by (induction w n rule: be_bytes.induct) auto

lemma be_value_be_bytes: "n < 256 ^ w \<Longrightarrow> be_value (be_bytes w n) = n"
proof (induction w n rule: be_bytes.induct)
  case (2 w n)
  have "n div 256 < 256 ^ w" using 2(2) by (simp add: less_mult_imp_div_less mult.commute)
  then have "be_value (be_bytes w (n div 256)) = n div 256" by (rule 2(1))
  moreover have "unat (of_nat (n mod 256) :: u8) = n mod 256" by (simp add: unat_of_nat)
  ultimately show ?case by (simp add: be_value_def)
qed (simp add: be_value_def)

lemma read_be_bytes: "n < 256 ^ w \<Longrightarrow> read_be w (be_bytes w n @ rest) = Some (n, rest)"
  by (simp add: read_be_def be_value_be_bytes)

lemma read_be_8: "n < u64_limit \<Longrightarrow> read_be 8 (be_bytes 8 n @ rest) = Some (n, rest)"
  by (rule read_be_bytes) (simp add: u64_limit_def)

lemma read_many_concat:
  assumes "\<And>x rest. x \<in> set xs \<Longrightarrow> rd (enc x @ rest) = Some (x, rest)"
  shows "read_many rd (length xs) (concat (map enc xs) @ rest) = Some (xs, rest)"
  using assms by (induction xs) auto

definition run_fits :: "null_run \<Rightarrow> bool" where
  "run_fits r \<longleftrightarrow> nr_left r < u64_limit \<and> nr_height r < 2 ^ 32"

lemma read_run_bytes: "run_fits r \<Longrightarrow> read_run (run_bytes r @ rest) = Some (r, rest)"
  using read_be_bytes [of "nr_height r" 4 rest]
  by (simp add: run_fits_def read_run_def run_bytes_def read_be_8)

lemma read_alg_bytes:
  assumes "alg < u64_limit" "length runs < u64_limit" "\<And>r. r \<in> set runs \<Longrightarrow> run_fits r"
  shows "read_alg (alg_bytes (alg, runs) @ rest) = Some ((alg, runs), rest)"
  using assms by (simp add: read_alg_def alg_bytes_def read_be_8 read_many_concat read_run_bytes)

definition runs_fit :: "(alg_id \<times> null_run list) list \<Rightarrow> bool" where
  "runs_fit all \<longleftrightarrow> length all < u64_limit \<and> (\<forall>(alg, runs) \<in> set all. alg < u64_limit
     \<and> length runs < u64_limit \<and> (\<forall>r \<in> set runs. run_fits r))"

lemma read_null_runs_bytes:
  assumes "k < u64_limit" "n < u64_limit" "runs_fit all"
  shows "read_null_runs (be_bytes 8 k @ be_bytes 8 n @ be_bytes 8 (length all) @ concat (map alg_bytes all))
    = Some (k, n, all)"
proof -
  have "read_alg (alg_bytes x @ rest) = Some (x, rest)" if "x \<in> set all" for x rest
    using that assms(3) by (cases x) (auto simp: runs_fit_def intro!: read_alg_bytes)
  then have "read_many read_alg (length all) (concat (map alg_bytes all) @ []) = Some (all, [])"
    by (rule read_many_concat)
  then show ?thesis using assms by (simp add: read_null_runs_def read_be_8 runs_fit_def)
qed

section \<open>The runs of a timeline\<close>

lemma null_runs_fit:
  assumes "2 \<le> k" "n \<le> 2 ^ 63" "null_runs_for_alg eps n k = Some runs"
  shows "length runs \<le> n \<and> (\<forall>r \<in> set runs. run_fits r)"
proof -
  have cells: "concat (map (run_cells k) runs) = filter (\<lambda>i. \<not> active_in eps i) [0..<n]"
    using null_runs_spec [OF assms(1,2), of eps] assms(3) by auto
  have ne: "run_cells k r \<noteq> []" for r using assms(1) by (simp add: run_cells_def)
  have "length runs \<le> length (concat (map (run_cells k) runs))"
  proof (induction runs)
    case (Cons r runs)
    have "1 \<le> length (run_cells k r)" using ne [of r] by (simp add: Suc_le_eq)
    then show ?case using Cons by simp
  qed simp
  also have "\<dots> \<le> n" unfolding cells by (metis length_filter_le length_upt diff_zero)
  finally have "length runs \<le> n" .
  moreover have "run_fits r" if r: "r \<in> set runs" for r
  proof -
    have "set (run_cells k r) \<subseteq> set (filter (\<lambda>i. \<not> active_in eps i) [0..<n])"
      using r unfolding cells [symmetric] by auto
    then have sub: "set (run_cells k r) \<subseteq> {..<n}" by auto
    have "0 < k ^ nr_height r" using assms(1) by simp
    moreover have "l + x - 1 \<in> {l..<l + x} \<and> l \<in> {l..<l + x}" if "0 < x" for l x :: nat using that by auto
    ultimately have "nr_left r + k ^ nr_height r - 1 \<in> set (run_cells k r)" "nr_left r \<in> set (run_cells k r)"
      by (simp_all add: run_cells_def)
    then have "nr_left r + k ^ nr_height r - 1 < n" "nr_left r < n" using sub by blast+
    then have lt: "k ^ nr_height r < u64_limit" "nr_left r < u64_limit"
      using assms(2) by (auto simp: u64_limit_def)
    then show ?thesis using power_less_limit [OF assms(1) lt(1)] by (simp add: run_fits_def)
  qed
  ultimately show ?thesis by blast
qed

text \<open>The null runs of a timeline in the order of its algorithms, the fully active ones left out.\<close>

lemma collect_runs_spec:
  assumes "2 \<le> k" "n \<le> 2 ^ 63"
  shows "\<exists>all. collect_runs tml n k = Some all
    \<and> all = filter (\<lambda>p. snd p \<noteq> []) (map (\<lambda>(alg, eps). (alg, the (null_runs_for_alg eps n k))) tml)"
proof (induction tml)
  case (Cons p tml)
  obtain alg eps where p: "p = (alg, eps)" by (cases p)
  obtain runs where "null_runs_for_alg eps n k = Some runs" using null_runs_spec [OF assms, of eps] by blast
  then show ?case using Cons by (auto simp: p)
qed simp

lemma all_null_runs_spec:
  assumes "2 \<le> k" "n \<le> 2 ^ 63"
  shows "all_null_runs tml n k = Some (sort_key fst
    (filter (\<lambda>p. snd p \<noteq> []) (map (\<lambda>(alg, eps). (alg, the (null_runs_for_alg eps n k))) tml)))"
  using collect_runs_spec [OF assms, of tml] by (auto simp: all_null_runs_def)

lemma all_null_runs_set:
  assumes "2 \<le> k" "n \<le> 2 ^ 63" "all_null_runs tml n k = Some all"
  shows "(alg, runs) \<in> set all \<longleftrightarrow>
    runs \<noteq> [] \<and> (\<exists>eps. (alg, eps) \<in> set tml \<and> null_runs_for_alg eps n k = Some runs)"
proof -
  have "\<exists>runs. null_runs_for_alg eps n k = Some runs" for eps
    using null_runs_spec [OF assms(1,2), of eps] by blast
  then have the: "null_runs_for_alg eps n k = Some (the (null_runs_for_alg eps n k))" for eps
    by (metis option.sel)
  have "all = sort_key fst
      (filter (\<lambda>p. snd p \<noteq> []) (map (\<lambda>(alg, eps). (alg, the (null_runs_for_alg eps n k))) tml))"
    using assms(3) unfolding all_null_runs_spec [OF assms(1,2)] by simp
  then have "(alg, runs) \<in> set all \<longleftrightarrow>
      runs \<noteq> [] \<and> (\<exists>eps. (alg, eps) \<in> set tml \<and> runs = the (null_runs_for_alg eps n k))"
    by (force simp: image_iff)
  moreover have "runs = the (null_runs_for_alg eps n k) \<longleftrightarrow> null_runs_for_alg eps n k = Some runs" for eps
    using the [of eps] by auto
  ultimately show ?thesis by simp
qed

lemma all_null_runs_fit:
  assumes "2 \<le> k" "n \<le> 2 ^ 63" "all_null_runs tml n k = Some all"
    and "length tml < u64_limit" "\<And>alg eps. (alg, eps) \<in> set tml \<Longrightarrow> alg < u64_limit"
  shows "runs_fit all"
proof -
  have "length all \<le> length tml"
    using assms(3) unfolding all_null_runs_spec [OF assms(1,2)]
    by (auto intro: order_trans [OF length_filter_le])
  moreover have "alg < u64_limit \<and> length runs < u64_limit \<and> (\<forall>r \<in> set runs. run_fits r)"
    if m: "(alg, runs) \<in> set all" for alg runs
  proof -
    obtain eps where "(alg, eps) \<in> set tml" "null_runs_for_alg eps n k = Some runs"
      using m all_null_runs_set [OF assms(1-3)] by blast
    then show ?thesis
      using null_runs_fit [OF assms(1,2)] assms(2,5) by (fastforce simp: u64_limit_def)
  qed
  ultimately show ?thesis using assms(4) by (auto simp: runs_fit_def)
qed

section \<open>Properties\<close>

text \<open>
  C21. The null runs are exactly the inactive positions: for an arity in range and a size up to
  \<open>2 ^ 63\<close> the decomposition returns, whatever the epochs (unsorted or overlapping ones too), its
  runs list the positions below the size that no epoch covers, each once and in order, and every
  run starts at a multiple of its length.
\<close>

theorem null_runs_exact:
  assumes "arity_ok k" "n \<le> 2 ^ 63"
  shows "\<exists>runs. null_runs_for_alg eps n k = Some runs
    \<and> concat (map (run_cells k) runs) = filter (\<lambda>i. \<not> active_in eps i) [0..<n]
    \<and> list_all (aligned_run k) runs"
  by (rule null_runs_spec [OF arity_ok_ge2 [OF assms(1)] assms(2)])

theorem null_runs_exact_witness:
  "\<exists>runs. null_runs_for_alg [(5, 6), (1, 3)] 8 2 = Some runs
    \<and> concat (map (run_cells 2) runs) = filter (\<lambda>i. \<not> active_in [(5, 6), (1, 3)] i) [0..<8]
    \<and> list_all (aligned_run 2) runs"
  by (rule null_runs_exact) (simp_all add: arity_ok_def)

text \<open>
  Above that bound the greedy loop need not return: at every size from
  \<open>2 ^ 63 + 2 ^ 62\<close> on, an algorithm active over the first \<open>2 ^ 63\<close> positions sends the
  decomposition of a binary log into a cycle between the blocks at 0 and at \<open>2 ^ 63\<close>, because
  the unchecked additions wrap, and no list of runs is produced.
\<close>

theorem null_runs_diverge:
  assumes "2 ^ 63 + 2 ^ 62 \<le> n"
  shows "null_runs_for_alg [(0, 2 ^ 63)] n 2 = None \<and> all_null_runs [(alg, [(0, 2 ^ 63)])] n 2 = None"
proof -
  have m: "min (2 ^ 63) n = 2 ^ 63" "min 0 n = 0" using assms by simp_all
  have clip: "clip_epochs n [(0, 2 ^ 63)] = [(0, 2 ^ 63)]"
    unfolding clip_epochs_Cons m by (simp add: clip_epochs_def map_filter_simps)
  have "decompose_inactive_gap (2 ^ 63) n 2 [] = None" using assms by (intro decompose_diverges) simp_all
  moreover have "decompose_inactive_gap 0 0 2 [] = Some []" by (subst decompose_inactive_gap.simps) simp
  ultimately have "null_runs_for_alg [(0, 2 ^ 63)] n 2 = None"
    unfolding null_runs_for_alg_def clip by (simp add: merge_epoch_def)
  then show ?thesis by (simp add: all_null_runs_def)
qed

theorem null_runs_diverge_witness:
  "null_runs_for_alg [(0, 2 ^ 63)] (2 ^ 64 - 1) 2 = None
    \<and> all_null_runs [(7, [(0, 2 ^ 63)])] (2 ^ 64 - 1) 2 = None"
  by (rule null_runs_diverge) simp

text \<open>
  The serialization of the null runs is unambiguous: read back by the documented layout it
  gives the arity, the size and every algorithm's runs.
\<close>

theorem serialize_roundtrip:
  assumes "arity_ok k" "n \<le> 2 ^ 63" "length tml < u64_limit" "list_all (\<lambda>(alg, _). alg < u64_limit) tml"
  shows "Option.bind (serialize_null_runs tml n k) read_null_runs
    = map_option (\<lambda>all. (k, n, all)) (all_null_runs tml n k) \<and> all_null_runs tml n k \<noteq> None"
proof -
  have k: "2 \<le> k" "k < u64_limit" using assms(1) by (simp_all add: arity_ok_def u64_limit_def)
  obtain all where all: "all_null_runs tml n k = Some all" using all_null_runs_spec [OF k(1) assms(2)] by blast
  have "runs_fit all"
    using assms(4) by (intro all_null_runs_fit [OF k(1) assms(2) all assms(3)]) (auto simp: list_all_iff)
  moreover have "n < u64_limit" using assms(2) by (simp add: u64_limit_def)
  ultimately show ?thesis
    using all k(2) by (simp add: serialize_null_runs_def read_null_runs_bytes)
qed

theorem serialize_roundtrip_witness:
  "Option.bind (serialize_null_runs [(0, [(0, u64_max)]), (1, [(2, 3)])] 5 2) read_null_runs
    = map_option (\<lambda>all. (2, 5, all)) (all_null_runs [(0, [(0, u64_max)]), (1, [(2, 3)])] 5 2)
    \<and> all_null_runs [(0, [(0, u64_max)]), (1, [(2, 3)])] 5 2 \<noteq> None"
  by (rule serialize_roundtrip) (simp_all add: arity_ok_def u64_limit_def)

end
