(* ===== verification/Cml_Carry.thy ===== *)
theory Cml_Carry
  imports Cml_Engine
begin

text \<open>
  The frontier carry of \<^verbatim>\<open>cml/src/engine.rs\<close> is an increment in base \<open>k\<close>: after the merges the
  schedule mandates, the stack holds the perfect-subtree digests of the frontier of the next
  size, and the nodes handed to storage are the perfect subtrees completed by the append.
\<close>

section \<open>Perfect subtrees\<close>

text \<open>
  The reference value of the perfect subtree of height \<open>t\<close> at left bound \<open>l\<close> over the
  per-leaf digests \<open>f\<close>.
\<close>

fun pdig :: "hasher \<Rightarrow> nat \<Rightarrow> (nat \<Rightarrow> digest) \<Rightarrow> nat \<Rightarrow> nat \<Rightarrow> digest" where
  "pdig h k f l 0 = f l"
| "pdig h k f l (Suc t) = nary_mr h (map (\<lambda>j. pdig h k f (l + j * k ^ t) t) [0..<k])"

definition fdigs :: "hasher \<Rightarrow> nat \<Rightarrow> (nat \<Rightarrow> digest) \<Rightarrow> coord list \<Rightarrow> digest list" where
  "fdigs h k f coords = map (\<lambda>(l, t). pdig h k f l t) coords"

lemma fdigs_append [simp]: "fdigs h k f (xs @ ys) = fdigs h k f xs @ fdigs h k f ys"
  by (simp add: fdigs_def)

lemma length_fdigs [simp]: "length (fdigs h k f cs) = length cs"
  by (simp add: fdigs_def)

lemma fdigs_Nil_iff [simp]: "fdigs h k f cs = [] \<longleftrightarrow> cs = []"
  by (simp add: fdigs_def)

lemma fdigs_single: "fdigs h k f [(l, t)] = [pdig h k f l t]"
  by (simp add: fdigs_def)

lemma nth_fdigs: "i < length cs \<Longrightarrow> fdigs h k f cs ! i = (\<lambda>(l, t). pdig h k f l t) (cs ! i)"
  by (simp add: fdigs_def)

text \<open>A child block lies inside its parent block.\<close>

lemma child_in_block:
  fixes j k l t :: nat
  assumes "j < k" shows "l + j * k ^ t + k ^ t \<le> l + k ^ Suc t"
proof -
  have "Suc j * k ^ t \<le> k * k ^ t" using assms by (intro mult_le_mono1) simp
  then show ?thesis by simp
qed

lemma pdig_cong:
  "(\<And>i. l \<le> i \<Longrightarrow> i < l + k ^ t \<Longrightarrow> f i = g i) \<Longrightarrow> pdig h k f l t = pdig h k g l t"
proof (induction t arbitrary: l)
  case (Suc t)
  have "pdig h k f (l + j * k ^ t) t = pdig h k g (l + j * k ^ t) t" if "j < k" for j
    using child_in_block [OF that, of l t] by (intro Suc.IH Suc.prems) simp_all
  then show ?case by (auto intro!: arg_cong [where f = "nary_mr h"])
qed simp

lemma pdig_const:
  assumes "0 < k" shows "(\<And>i. l \<le> i \<Longrightarrow> i < l + k ^ t \<Longrightarrow> f i = v) \<Longrightarrow> pdig h k f l t = v"
proof (induction t arbitrary: l)
  case (Suc t)
  have "pdig h k f (l + j * k ^ t) t = v" if "j < k" for j
    using child_in_block [OF that, of l t] by (intro Suc.IH Suc.prems) simp_all
  then have "map (\<lambda>j. pdig h k f (l + j * k ^ t) t) [0..<k] = replicate k v"
    by (intro nth_equalityI) simp_all
  then show ?case using assms by (simp add: nary_mr_replicate)
qed simp

lemma length_pdig:
  assumes "fixed_width h" "\<And>i. length (f i) = digest_len h"
  shows "length (pdig h k f l t) = digest_len h"
proof (induction t arbitrary: l)
  case (Suc t)
  then show ?case by (auto intro!: length_nary_mr assms(1))
qed (simp add: assms(2))

section \<open>The merge schedule\<close>

lemma strip_factor_spec:
  assumes "2 \<le> k" "0 < m"
  shows "\<exists>d. snd (strip_factor k m c) = c + d \<and> m = fst (strip_factor k m c) * k ^ d
    \<and> \<not> k dvd fst (strip_factor k m c)"
  using assms
proof (induction k m c rule: strip_factor.induct)
  case (1 k m c)
  show ?case
  proof (cases "m mod k = 0")
    case True
    then have "0 < m div k" using "1.prems" by (auto elim: dvdE simp: mod_eq_0_iff_dvd)
    with 1 True obtain d where d: "snd (strip_factor k (m div k) (Suc c)) = Suc c + d"
      "m div k = fst (strip_factor k (m div k) (Suc c)) * k ^ d"
      "\<not> k dvd fst (strip_factor k (m div k) (Suc c))" by auto
    have eq: "strip_factor k m c = strip_factor k (m div k) (Suc c)"
      using True "1.prems" by (subst strip_factor.simps) simp
    have "m = m div k * k" using True by (simp add: mod_eq_0_iff_dvd)
    then have "m = fst (strip_factor k m c) * k ^ Suc d"
      unfolding eq using d(2) by (metis mult.assoc mult.commute power_Suc)
    then show ?thesis using d eq by (intro exI [of _ "Suc d"]) simp
  next
    case False
    then have "strip_factor k m c = (m, c)" by (subst strip_factor.simps) simp
    then show ?thesis using False by (intro exI [of _ 0]) (simp add: mod_eq_0_iff_dvd)
  qed
qed

text \<open>The schedule counts the factors of the arity in the 1-based index.\<close>

lemma reduction_count_Some:
  assumes "2 \<le> k"
  obtains c where "reduction_count n k = Some c" "k ^ c dvd n + 1" "\<not> k ^ Suc c dvd n + 1"
proof -
  obtain d where d: "snd (strip_factor k (n + 1) 0) = d"
    "n + 1 = fst (strip_factor k (n + 1) 0) * k ^ d" "\<not> k dvd fst (strip_factor k (n + 1) 0)"
    using strip_factor_spec [of k "n + 1" 0] assms by auto
  define r where "r = fst (strip_factor k (n + 1) 0)"
  have nr: "n + 1 = r * k ^ d" "\<not> k dvd r" using d by (simp_all add: r_def)
  have "\<not> k ^ Suc d dvd n + 1"
  proof
    assume "k ^ Suc d dvd n + 1"
    then have "k * k ^ d dvd r * k ^ d" using nr by simp
    then have "k dvd r" using assms by (subst (asm) dvd_times_right_cancel_iff) auto
    with nr show False by simp
  qed
  moreover have "k ^ d dvd n + 1" using nr by simp
  moreover have "reduction_count n k = Some d" using d assms by (simp add: reduction_count_def)
  ultimately show thesis using that by blast
qed

section \<open>The increment of a frontier\<close>

definition weak_canon :: "nat \<Rightarrow> nat list \<Rightarrow> nat \<Rightarrow> bool" where
  "weak_canon k gs j \<longleftrightarrow> sorted_wrt (\<ge>) (gs @ [j]) \<and> (\<forall>h. count_list gs h < k)"

lemma sorted_ge_split:
  fixes gs :: "nat list"
  shows "sorted_wrt (\<ge>) (gs @ [j]) \<Longrightarrow> gs = filter (\<lambda>h. j < h) gs @ replicate (count_list gs j) j"
proof (induction gs)
  case (Cons g gs)
  show ?case
  proof (cases "g = j")
    case True
    have "x \<le> g \<and> j \<le> x" if "x \<in> set gs" for x
      using Cons.prems that by (simp add: sorted_wrt_append)
    then have "\<forall>x \<in> set gs. x = j" using True by (simp add: order_antisym)
    then have "filter (\<lambda>h. j < h) gs = []" by (simp add: filter_empty_conv)
    then show ?thesis using Cons True by simp
  next
    case False
    then show ?thesis using Cons by simp
  qed
qed simp

lemma count_list_append_replicate:
  "count_list (xs @ replicate m j) x = count_list xs x + (if x = j then m else 0)"
  by (induction m) (auto simp: count_list_append)

lemma weak_canon_merge:
  assumes k: "2 \<le> k" and w: "weak_canon k gs j" and N: "hsum k gs + k ^ j = N"
    and dvd: "k ^ Suc j dvd N"
  shows "\<exists>hs. gs = hs @ replicate (k - 1) j \<and> weak_canon k hs (Suc j) \<and> hsum k hs + k ^ Suc j = N"
proof -
  let ?hs = "filter (\<lambda>h. j < h) gs" and ?m = "count_list gs j"
  have gs: "gs = ?hs @ replicate ?m j" using w by (intro sorted_ge_split) (simp add: weak_canon_def)
  have sorted: "sorted_wrt (\<ge>) (?hs @ [Suc j])"
    using w by (auto simp: weak_canon_def sorted_wrt_append sorted_wrt_filter)
  have "hsum k gs = hsum k ?hs + ?m * k ^ j" by (subst gs) simp
  then have N': "N = hsum k ?hs + Suc ?m * k ^ j" using N by simp
  have "k ^ Suc j dvd hsum k ?hs" by (rule canon_dvd [OF sorted])
  then have "k ^ Suc j dvd Suc ?m * k ^ j" using dvd N' by (simp only: dvd_add_right_iff)
  then have "k dvd Suc ?m" using k by (simp only: power_Suc) (subst (asm) dvd_times_right_cancel_iff, auto)
  moreover have lt: "?m < k" using w by (simp add: weak_canon_def)
  ultimately have m: "Suc ?m = k" using dvd_imp_le [of k "Suc ?m"] by simp
  have "\<forall>h. count_list ?hs h < k"
    using w by (auto simp: weak_canon_def intro: le_less_trans [OF count_list_filter_le])
  moreover have "hsum k ?hs + k ^ Suc j = N" using N' m by simp
  moreover have "gs = ?hs @ replicate (k - 1) j" using gs m by (metis diff_Suc_1)
  ultimately show ?thesis using sorted by (auto simp: weak_canon_def)
qed

lemma weak_canon_done:
  assumes k: "2 \<le> k" and w: "weak_canon k gs j" and N: "hsum k gs + k ^ j = N"
    and dvd: "\<not> k ^ Suc j dvd N"
  shows "canon k (gs @ [j]) \<and> hsum k (gs @ [j]) = N"
proof -
  let ?hs = "filter (\<lambda>h. j < h) gs" and ?m = "count_list gs j"
  have gs: "gs = ?hs @ replicate ?m j" using w by (intro sorted_ge_split) (simp add: weak_canon_def)
  have sorted: "sorted_wrt (\<ge>) (?hs @ [Suc j])"
    using w by (auto simp: weak_canon_def sorted_wrt_append sorted_wrt_filter)
  have "hsum k gs = hsum k ?hs + ?m * k ^ j" by (subst gs) simp
  then have N': "N = hsum k ?hs + Suc ?m * k ^ j" using N by simp
  have "Suc ?m \<noteq> k"
  proof
    assume "Suc ?m = k"
    then have "N = hsum k ?hs + k ^ Suc j" using N' by simp
    then show False using dvd canon_dvd [OF sorted] by simp
  qed
  moreover have "?m < k" using w by (simp add: weak_canon_def)
  ultimately have "Suc ?m < k" by simp
  then have "count_list (gs @ [j]) h < k" for h
    using w by (auto simp: weak_canon_def count_list_append)
  then show ?thesis using w N by (simp add: canon_def weak_canon_def)
qed

lemma canon_weak: "canon k hs \<Longrightarrow> weak_canon k hs 0"
  by (auto simp: canon_def weak_canon_def sorted_wrt_append)

section \<open>The carry\<close>

lemma pop_children_spec:
  assumes "length F = length C" "m \<le> length F"
  shows "pop_children alg m F C ch cc =
    Inr (take (length F - m) F, take (length C - m) C,
         drop (length F - m) F @ rev ch, drop (length C - m) C @ rev cc)"
  using assms
proof (induction alg m F C ch cc rule: pop_children.induct)
  case (2 alg m F C ch cc)
  then obtain F' x where F: "F = F' @ [x]" by (cases F rule: rev_cases) auto
  with 2 obtain C' y where C: "C = C' @ [y]" by (cases C rule: rev_cases) auto
  from 2 F C show ?case by simp
qed simp

definition completed :: "hasher \<Rightarrow> nat \<Rightarrow> (nat \<Rightarrow> digest) \<Rightarrow> alg_id \<Rightarrow> nat \<Rightarrow> nat list \<Rightarrow> node_write list" where
  "completed h k f alg N js =
     map (\<lambda>j. (alg, N - k ^ j, j, pdig h k f (N - k ^ j) j))
       (filter (\<lambda>j. pdig h k f (N - k ^ j) j \<noteq> hs_null h) js)"

lemma coords_of_replicate:
  "coords_of k lo (replicate m j) = map (\<lambda>i. (lo + i * k ^ j, j)) [0..<m]"
proof (induction m arbitrary: lo)
  case (Suc m)
  have "[0..<Suc m] = 0 # map Suc [0..<m]" by (simp add: upt_conv_Cons map_Suc_upt del: upt_Suc)
  then show ?case using Suc by (simp add: o_def algebra_simps del: upt_Suc)
qed simp

lemma carry_merge:
  assumes k: "2 \<le> k" and N: "hsum k hs + k ^ Suc j = N"
    and v: "av_coords v = coords_of k 0 (hs @ replicate k j)"
      "av_frontier v = fdigs (av_hasher v) k f (coords_of k 0 (hs @ replicate k j))"
  shows "carry_loop (Suc m) v alg k out = carry_loop m
     (v\<lparr>av_frontier := fdigs (av_hasher v) k f (coords_of k 0 (hs @ [Suc j])),
        av_coords := coords_of k 0 (hs @ [Suc j])\<rparr>) alg k
     (out @ completed (av_hasher v) k f alg N [Suc j])"
proof -
  let ?h = "av_hasher v"
  let ?A = "coords_of k 0 hs" and ?B = "coords_of k (hsum k hs) (replicate k j)"
  have C: "av_coords v = ?A @ ?B" "av_frontier v = fdigs ?h k f ?A @ fdigs ?h k f ?B"
    using v by (simp_all add: coords_of_append)
  have pop: "pop_children alg k (av_frontier v) (av_coords v) [] []
      = Inr (fdigs ?h k f ?A, ?A, fdigs ?h k f ?B, ?B)"
    using C by (subst pop_children_spec) simp_all
  have B: "?B = map (\<lambda>i. (hsum k hs + i * k ^ j, j)) [0..<k]" by (rule coords_of_replicate)
  have par: "nary_mr ?h (fdigs ?h k f ?B) = pdig ?h k f (hsum k hs) (Suc j)"
    by (simp add: B fdigs_def o_def)
  have B0: "?B ! 0 = (hsum k hs, j)" using k by (simp add: B)
  have left: "N - k * k ^ j = hsum k hs" using N by simp
  have A: "coords_of k 0 (hs @ [Suc j]) = ?A @ [(hsum k hs, Suc j)]"
    by (simp add: coords_of_append)
  show ?thesis
    by (simp add: pop par B0 Let_def completed_def left A fdigs_single del: pdig.simps)
qed

lemma carry_loop_spec:
  assumes k: "2 \<le> k"
  shows "weak_canon k gs j \<Longrightarrow> hsum k gs + k ^ j = N \<Longrightarrow> k ^ (j + m) dvd N \<Longrightarrow>
    \<not> k ^ Suc (j + m) dvd N \<Longrightarrow>
    av_coords v = coords_of k 0 (gs @ [j]) \<Longrightarrow>
    av_frontier v = fdigs (av_hasher v) k f (coords_of k 0 (gs @ [j])) \<Longrightarrow>
    \<exists>hs. canon k hs \<and> hsum k hs = N
      \<and> carry_loop m v alg k out =
        Inr (v\<lparr>av_frontier := fdigs (av_hasher v) k f (coords_of k 0 hs), av_coords := coords_of k 0 hs\<rparr>,
             out @ completed (av_hasher v) k f alg N [Suc j..<Suc (j + m)])"
proof (induction m arbitrary: gs j v out)
  case 0
  then have "canon k (gs @ [j]) \<and> hsum k (gs @ [j]) = N" using weak_canon_done [OF k] by simp
  then show ?case using 0 by (intro exI [of _ "gs @ [j]"]) (simp add: completed_def)
next
  case (Suc m)
  have "k ^ Suc j dvd N" using Suc.prems(3) by (rule dvd_trans [rotated]) (simp add: le_imp_power_dvd)
  from weak_canon_merge [OF k Suc.prems(1,2) this] obtain hs where
    hs: "gs = hs @ replicate (k - 1) j" "weak_canon k hs (Suc j)" "hsum k hs + k ^ Suc j = N"
    by blast
  have "gs @ [j] = hs @ replicate k j"
    using hs(1) k by (cases k) (simp_all add: replicate_append_same)
  then have step: "carry_loop (Suc m) v alg k out = carry_loop m
     (v\<lparr>av_frontier := fdigs (av_hasher v) k f (coords_of k 0 (hs @ [Suc j])),
        av_coords := coords_of k 0 (hs @ [Suc j])\<rparr>) alg k
     (out @ completed (av_hasher v) k f alg N [Suc j])"
    using Suc.prems by (intro carry_merge [OF k hs(3)]) simp_all
  have "[Suc j..<Suc (j + Suc m)] = Suc j # [Suc (Suc j)..<Suc (Suc j + m)]"
    by (simp add: upt_conv_Cons del: upt_Suc)
  then have split: "completed h k f alg N [Suc j..<Suc (j + Suc m)]
      = completed h k f alg N [Suc j] @ completed h k f alg N [Suc (Suc j)..<Suc (Suc j + m)]" for h
    by (simp add: completed_def del: upt_Suc)
  show ?case
    unfolding step split
    using Suc.IH [OF hs(2,3), of "v\<lparr>av_frontier := fdigs (av_hasher v) k f (coords_of k 0 (hs @ [Suc j])),
        av_coords := coords_of k 0 (hs @ [Suc j])\<rparr>" "out @ completed (av_hasher v) k f alg N [Suc j]"]
      Suc.prems by (simp del: upt_Suc)
qed

text \<open>A view that holds the frontier of a log of \<open>n\<close> leaves with digests \<open>f\<close>.\<close>

definition holds_frontier :: "alg_view \<Rightarrow> nat \<Rightarrow> (nat \<Rightarrow> digest) \<Rightarrow> nat \<Rightarrow> bool" where
  "holds_frontier v k f n \<longleftrightarrow>
     av_coords v = frontier_for_size n k
     \<and> av_frontier v = fdigs (av_hasher v) k f (frontier_for_size n k)"

lemma carry_spec:
  assumes k: "2 \<le> k" and n: "n + 1 < u64_limit" and v: "holds_frontier v k f n"
    and c: "reduction_count n k = Some c"
  shows "(carry v alg (f n) n k out :: 'e cml_error + _) =
     Inr (v\<lparr>av_frontier := fdigs (av_hasher v) k f (frontier_for_size (n + 1) k),
            av_coords := frontier_for_size (n + 1) k\<rparr>,
          out @ completed (av_hasher v) k f alg (n + 1) [1..<Suc c])"
proof -
  obtain hs where hs: "frontier_for_size n k = coords_of k 0 hs" "canon k hs" "hsum k hs = n"
    using frontier_canon [OF k, of n] n by auto
  have c': "k ^ (0 + c) dvd n + 1" "\<not> k ^ Suc (0 + c) dvd n + 1"
    using reduction_count_Some [OF k, of n] c by auto
  let ?v = "v\<lparr>av_frontier := av_frontier v @ [f n], av_coords := av_coords v @ [(n, 0)]\<rparr>"
  have "\<exists>gs. canon k gs \<and> hsum k gs = n + 1
      \<and> (carry_loop c ?v alg k out :: 'e cml_error + _) =
        Inr (?v\<lparr>av_frontier := fdigs (av_hasher ?v) k f (coords_of k 0 gs), av_coords := coords_of k 0 gs\<rparr>,
             out @ completed (av_hasher ?v) k f alg (n + 1) [Suc 0..<Suc (0 + c)])"
  proof (rule carry_loop_spec [OF k canon_weak [OF hs(2)]])
    show "av_coords ?v = coords_of k 0 (hs @ [0])"
      using v hs by (simp add: holds_frontier_def coords_of_append)
    show "av_frontier ?v = fdigs (av_hasher ?v) k f (coords_of k 0 (hs @ [0]))"
      using v hs by (simp add: holds_frontier_def coords_of_append fdigs_single)
  qed (use hs c' in simp_all)
  then obtain gs where gs: "canon k gs" "hsum k gs = n + 1"
    "(carry_loop c ?v alg k out :: 'e cml_error + _) =
        Inr (?v\<lparr>av_frontier := fdigs (av_hasher ?v) k f (coords_of k 0 gs), av_coords := coords_of k 0 gs\<rparr>,
             out @ completed (av_hasher ?v) k f alg (n + 1) [Suc 0..<Suc (0 + c)])"
    by blast
  have "frontier_for_size (n + 1) k = coords_of k 0 gs"
    using gs n by (intro frontier_unique [OF k]) simp_all
  with gs(3) show ?thesis by (simp add: carry_def c del: upt_Suc)
qed

lemma holds_frontier_empty:
  "av_coords v = [] \<Longrightarrow> av_frontier v = [] \<Longrightarrow> holds_frontier v k f 0"
  by (simp add: holds_frontier_def fdigs_def)

lemma holds_frontier_root:
  "holds_frontier v k f n \<Longrightarrow>
     compute_root v k = bag_peaks (av_hasher v) (fdigs (av_hasher v) k f (frontier_for_size n k)) k"
  by (simp add: compute_root_def holds_frontier_def)

section \<open>Properties\<close>

text \<open>
  The merge schedule: the number of merges after the append at index \<open>n\<close> is the exponent
  of the arity in \<open>n + 1\<close>, and the function panics exactly for an arity below 2.
\<close>

theorem reduction_count_spec:
  "case reduction_count n k of
     None \<Rightarrow> k < 2
   | Some c \<Rightarrow> 2 \<le> k \<and> k ^ c dvd n + 1 \<and> \<not> k ^ Suc c dvd n + 1"
proof (cases "k < 2")
  case False
  then obtain c where "reduction_count n k = Some c" "k ^ c dvd n + 1" "\<not> k ^ Suc c dvd n + 1"
    using reduction_count_Some [of k n] by auto
  with False show ?thesis by simp
qed (simp add: reduction_count_def)

text \<open>
  The carry never underflows and is exact: from a view that holds the frontier of \<open>n\<close>
  leaves, appending the digest of leaf \<open>n\<close> gives a view that holds the frontier of \<open>n + 1\<close>
  leaves, keeps the hasher and the epochs, and emits one node per perfect subtree the append
  completes, lowest first, except those equal to the null digest.
\<close>

theorem carry_increments:
  assumes "arity_ok k" "n + 1 < u64_limit" "holds_frontier v k f n"
  shows "\<exists>v' c. carry v alg (f n) n k out = Inr (v', out @ completed (av_hasher v) k f alg (n + 1) [1..<Suc c])
    \<and> reduction_count n k = Some c \<and> holds_frontier v' k f (n + 1)
    \<and> av_hasher v' = av_hasher v \<and> av_epochs v' = av_epochs v"
proof -
  have k: "2 \<le> k" using assms(1) by (simp add: arity_ok_def)
  obtain c where c: "reduction_count n k = Some c" using reduction_count_Some [OF k] by metis
  show ?thesis
    using carry_spec [OF k assms(2,3) c, of alg out] c by (auto simp: holds_frontier_def)
qed

definition toy_leaf :: "nat \<Rightarrow> digest" where
  "toy_leaf i = [of_nat i + 1]"

definition toy_view :: alg_view where
  "toy_view = \<lparr>av_hasher = toy_hasher, av_epochs = [(0, u64_max)],
     av_frontier = fdigs toy_hasher 2 toy_leaf (frontier_for_size 3 2),
     av_coords = frontier_for_size 3 2\<rparr>"

theorem carry_increments_witness:
  "\<exists>v' c. (carry toy_view 0 (toy_leaf 3) 3 2 [] :: unit cml_error + _)
      = Inr (v', [] @ completed (av_hasher toy_view) 2 toy_leaf 0 (3 + 1) [1..<Suc c])
    \<and> reduction_count 3 2 = Some c \<and> holds_frontier v' 2 toy_leaf (3 + 1)
    \<and> av_hasher v' = av_hasher toy_view \<and> av_epochs v' = av_epochs toy_view"
  by (rule carry_increments) (simp_all add: arity_ok_def u64_limit_def holds_frontier_def toy_view_def)

end
