(* ===== verification/Cml_Proofs.thy ===== *)
theory Cml_Proofs
  imports Cml_Carry
begin

text \<open>
  What the proof generators of \<^verbatim>\<open>cml/src/engine.rs\<close> return on a store that holds the perfect
  subtrees of a log (\<open>backed\<close>): the node reads give the reference digests, the bisection is
  the reference path \<open>hpath\<close> inside a mountain, and the inclusion proof of every index
  verifies against the mountain skeleton.  Reopening a view gives back the frontier.
\<close>

section \<open>A backed view\<close>

definition backed ::
    "'e node_reader \<Rightarrow> alg_view \<Rightarrow> alg_id \<Rightarrow> nat \<Rightarrow> (nat \<Rightarrow> digest) \<Rightarrow> nat \<Rightarrow> bool" where
  "backed rd v alg k f n \<longleftrightarrow>
     fixed_width (av_hasher v) \<and> (\<forall>i. length (f i) = digest_len (av_hasher v))
     \<and> (\<forall>i < n. \<not> is_active_at v i \<longrightarrow> f i = hs_null (av_hasher v))
     \<and> (\<forall>l t. k ^ t dvd l \<and> l + k ^ t \<le> n \<and> active_range v l (l + k ^ t) \<longrightarrow>
          rd_node rd alg l t = Inr (Some (pdig (av_hasher v) k f l t)))"

lemma inactive_range_leaf:
  "\<not> active_range v lo hi \<Longrightarrow> lo \<le> i \<Longrightarrow> i < hi \<Longrightarrow> \<not> is_active_at v i"
  by (fastforce simp: active_range_def is_active_at_def list_ex_iff)

lemma backed_inactive:
  assumes "backed rd v alg k f n" "2 \<le> k" "l + k ^ t \<le> n" "\<not> active_range v l (l + k ^ t)"
  shows "pdig (av_hasher v) k f l t = hs_null (av_hasher v)"
  using assms inactive_range_leaf [OF assms(4)]
  by (intro pdig_const) (auto simp: backed_def)

lemma backed_length:
  "backed rd v alg k f n \<Longrightarrow> length (pdig (av_hasher v) k f l t) = digest_len (av_hasher v)"
  by (rule length_pdig) (auto simp: backed_def)

lemma get_node_hash_backed:
  assumes b: "backed rd v alg k f n" and k: "2 \<le> k" and n: "n < u64_limit"
    and a: "k ^ t dvd l" "l + k ^ t \<le> n"
  shows "get_node_hash rd v alg l t k = Inr (pdig (av_hasher v) k f l t)"
proof -
  have "checked_pow k t = Some (k ^ t)" "checked_add l (k ^ t) = Some (l + k ^ t)"
    using a n by (auto intro!: checked_pow_eq checked_add_eq)
  moreover have "length (hs_null (av_hasher v)) = digest_len (av_hasher v)"
    using b by (simp add: backed_def fixed_width_simps)
  ultimately show ?thesis
    using b a backed_inactive [OF b k a(2)] backed_length [OF b, of l t]
    by (auto simp: get_node_hash_def backed_def Let_def)
qed

lemma get_node_hashes_backed:
  assumes "backed rd v alg k f n" "2 \<le> k" "m \<le> n" "n < u64_limit"
  shows "get_node_hashes rd v alg k (frontier_for_size m k)
     = Inr (fdigs (av_hasher v) k f (frontier_for_size m k))"
  unfolding get_node_hashes_def fdigs_def
proof (rule mapE_Inr, safe)
  fix l t assume c: "(l, t) \<in> set (frontier_for_size m k)"
  have m: "m < u64_limit" using assms by simp
  show "get_node_hash rd v alg l t k = Inr (pdig (av_hasher v) k f l t)"
    using frontier_aligned [OF assms(2) m c] frontier_bound [OF assms(2) m c] assms(3)
    by (intro get_node_hash_backed [OF assms(1,2,4)]) simp_all
qed

section \<open>The reference path inside a mountain\<close>

definition hstep :: "hasher \<Rightarrow> nat \<Rightarrow> (nat \<Rightarrow> digest) \<Rightarrow> nat \<Rightarrow> nat \<Rightarrow> proof_step" where
  "hstep h k f i t =
     \<lparr>ps_siblings = remove_nth (i div k ^ t mod k)
         (map (\<lambda>j. pdig h k f (i div k ^ Suc t * k ^ Suc t + j * k ^ t) t) [0..<k]),
      ps_position = i div k ^ t mod k\<rparr>"

definition hpath :: "hasher \<Rightarrow> nat \<Rightarrow> (nat \<Rightarrow> digest) \<Rightarrow> nat \<Rightarrow> nat \<Rightarrow> nat \<Rightarrow> proof_step list" where
  "hpath h k f i th ht = map (hstep h k f i) [th..<ht]"

lemma digit_offset:
  fixes i k t :: nat
  shows "i div k ^ Suc t * k ^ Suc t + i div k ^ t mod k * k ^ t = i div k ^ t * k ^ t"
proof -
  have "i div k ^ Suc t = i div k ^ t div k" by (simp only: power_Suc2 div_mult2_eq)
  moreover have "i div k ^ t * k ^ t = (i div k ^ t div k * k + i div k ^ t mod k) * k ^ t" by simp
  ultimately show ?thesis by (simp only: add_mult_distrib power_Suc mult.assoc)
qed

lemma hstep_climb:
  assumes "0 < k"
  shows "apply_step h (hstep h k f i t) (pdig h k f (i div k ^ t * k ^ t) t)
     = pdig h k f (i div k ^ Suc t * k ^ Suc t) (Suc t)"
proof -
  let ?ds = "map (\<lambda>j. pdig h k f (i div k ^ Suc t * k ^ Suc t + j * k ^ t) t) [0..<k]"
  let ?d = "i div k ^ t mod k"
  have d: "?d < k" using assms by simp
  then have "?ds ! ?d = pdig h k f (i div k ^ t * k ^ t) t"
    by (simp add: digit_offset del: power_Suc)
  then show ?thesis
    using apply_step_remove_nth [of ?d ?ds h] d by (simp add: hstep_def del: power_Suc)
qed

lemma hpath_climb:
  assumes "0 < k" "th \<le> ht"
  shows "climb h (hpath h k f i th ht) (pdig h k f (i div k ^ th * k ^ th) th)
     = pdig h k f (i div k ^ ht * k ^ ht) ht"
  using assms(2)
proof (induction ht)
  case (Suc ht)
  show ?case
  proof (cases "th = Suc ht")
    case False
    then have "th \<le> ht" using Suc.prems by simp
    then show ?thesis
      using Suc.IH hstep_climb [OF assms(1), of h f i ht] by (simp add: hpath_def del: pdig.simps power_Suc)
  qed (simp add: hpath_def)
qed (simp add: hpath_def)

lemma hpath_ok:
  assumes "2 \<le> k" "k \<le> 257" "fixed_width h" "\<And>i. length (f i) = digest_len h"
  shows "list_all (step_ok (digest_len h)) (hpath h k f i th ht)"
proof -
  have "step_ok (digest_len h) (hstep h k f i t)" for t
  proof -
    let ?ds = "map (\<lambda>j. pdig h k f (i div k ^ Suc t * k ^ Suc t + j * k ^ t) t) [0..<k]"
    have d: "i div k ^ t mod k < k" using assms by simp
    then have d': "i div k ^ t mod k \<le> k - 1" by linarith
    have "length (remove_nth (i div k ^ t mod k) ?ds) = k - 1" using d by simp
    moreover have "\<forall>x \<in> set (remove_nth (i div k ^ t mod k) ?ds). length x = digest_len h"
      using set_remove_nth_subset [of _ ?ds] length_pdig [OF assms(3,4)] by fastforce
    ultimately show ?thesis
      using assms d d' by (auto simp: step_ok_def hstep_def simp flip: length_greater_0_conv)
  qed
  then show ?thesis by (simp add: hpath_def list_all_iff)
qed

lemma mod_power_digit:
  fixes a k m i :: nat
  assumes "i < m" "0 < k" shows "a mod k ^ m div k ^ i mod k = a div k ^ i mod k"
proof -
  obtain d where m: "m = i + Suc d" using less_imp_Suc_add [OF assms(1)] by auto
  have "a div k ^ i = a div k ^ m * (k ^ d * k) + a mod k ^ m div k ^ i"
  proof -
    have "a = a div k ^ m * (k ^ d * k) * k ^ i + a mod k ^ m"
      using div_mult_mod_eq [of a "k ^ m"] by (simp add: m power_add ac_simps)
    then have "a div k ^ i = (a div k ^ m * (k ^ d * k) * k ^ i + a mod k ^ m) div k ^ i" by simp
    then show ?thesis using assms(2) by (simp add: div_mult_self3)
  qed
  then show ?thesis by (simp add: mult.assoc [symmetric])
qed

lemma digit_steps_map:
  "digit_steps k ht off = map (\<lambda>t. \<lparr>sk_position = off div k ^ t mod k, sk_sibling_count = k - 1\<rparr>) [0..<ht]"
proof (induction k ht off rule: digit_steps.induct)
  case (2 k ht off)
  have "[0..<Suc ht] = 0 # map Suc [0..<ht]" by (simp add: upt_conv_Cons map_Suc_upt del: upt_Suc)
  then show ?case using 2 by (simp add: o_def div_mult2_eq del: upt_Suc)
qed simp

lemma hpath_shape:
  assumes "0 < k" "k ^ ht dvd l" "l \<le> i" "i < l + k ^ ht"
  shows "map step_shape (hpath h k f i th ht) = drop th (digit_steps k ht (i - l))"
proof -
  obtain q where q: "l = q * k ^ ht" using assms(2) by (metis dvd_def mult.commute)
  have "i - l = i mod k ^ ht"
    using assms(3,4) q by (metis add_diff_inverse_nat diff_less_mono2 le_add_diff_inverse
        mod_less mod_mult_self3 nat_add_left_cancel_less not_less)
  then have "(i - l) div k ^ t mod k = i div k ^ t mod k" if "t < ht" for t
    using mod_power_digit [OF that assms(1)] by simp
  then show ?thesis
    using assms(1) by (simp add: digit_steps_map hpath_def hstep_def step_shape_def drop_map)
qed

lemma block_of_index:
  fixes k t l i :: nat
  assumes "k ^ t dvd l" "l \<le> i" "i < l + k ^ t" shows "i div k ^ t * k ^ t = l"
proof -
  obtain q where q: "l = q * k ^ t" using assms(1) by (metis dvd_def mult.commute)
  have "i div k ^ t = q" using assms(2,3) q by (intro div_nat_eqI) (simp_all add: algebra_simps)
  with q show ?thesis by simp
qed

section \<open>The generators\<close>

lemma filter_neq_upt_remove:
  "p < k \<Longrightarrow> filter (\<lambda>j. j \<noteq> p) [0..<k] = remove_nth p [0..<k]"
proof -
  assume p: "p < k"
  have "[0..<k] = [0..<p] @ p # [Suc p..<k]"
    using p upt_add_eq_append [of 0 p "k - p"] upt_conv_Cons [of p k] by simp
  moreover have "filter (\<lambda>j. j \<noteq> p) [0..<p] = [0..<p]" "filter (\<lambda>j. j \<noteq> p) [Suc p..<k] = [Suc p..<k]"
    by (auto simp: filter_id_conv)
  ultimately have "filter (\<lambda>j. j \<noteq> p) [0..<k] = [0..<p] @ [Suc p..<k]" by simp
  then show ?thesis using p by (simp add: remove_nth_def take_upt drop_upt)
qed

lemma bisect_backed:
  assumes b: "backed rd v alg k f n" and k: "2 \<le> k" and n: "n < u64_limit"
  shows "th \<le> ch \<Longrightarrow> i div k ^ ch * k ^ ch + k ^ ch \<le> n \<Longrightarrow>
    bisect_to_height rd v alg (i div k ^ ch * k ^ ch) ch i th k path
      = Inr (path @ rev (hpath (av_hasher v) k f i th ch))"
proof (induction ch arbitrary: path)
  case 0
  then show ?case by (subst bisect_to_height.simps) (simp add: hpath_def)
next
  case (Suc ch)
  let ?h = "av_hasher v"
  let ?cl = "i div k ^ Suc ch * k ^ Suc ch" and ?d = "i div k ^ ch mod k"
  show ?case
  proof (cases "th = Suc ch")
    case True
    then show ?thesis by (subst bisect_to_height.simps) (simp add: hpath_def)
  next
    case False
    then have th: "th \<le> ch" using Suc.prems(1) by simp
    have le: "?cl \<le> i" by simp
    have "i - ?cl = i mod k ^ Suc ch" by (simp only: minus_div_mult_eq_mod)
    moreover have "i mod k ^ Suc ch div k ^ ch = ?d"
    proof -
      have "i mod k ^ Suc ch div k ^ ch < k"
        using k by (simp add: less_mult_imp_div_less)
      then show ?thesis using mod_power_digit [of ch "Suc ch" k i] k by simp
    qed
    ultimately have idx: "(i - ?cl) div k ^ ch = ?d" by simp
    have d: "?d < k" using k by simp
    have "get_node_hash rd v alg (?cl + j * k ^ ch) ch k = Inr (pdig ?h k f (?cl + j * k ^ ch) ch)"
      if "j < k" for j
    proof (rule get_node_hash_backed [OF b k n])
      show "k ^ ch dvd ?cl + j * k ^ ch" by (simp add: dvd_add le_imp_power_dvd)
      show "?cl + j * k ^ ch + k ^ ch \<le> n"
        using child_in_block [OF that, of ?cl ch] Suc.prems(2) by linarith
    qed
    then have "mapE (\<lambda>j. get_node_hash rd v alg (?cl + j * k ^ ch) ch k)
         (filter (\<lambda>j. j \<noteq> ?d) [0..<k])
       = Inr (map (\<lambda>j. pdig ?h k f (?cl + j * k ^ ch) ch) (filter (\<lambda>j. j \<noteq> ?d) [0..<k]))"
      by (intro mapE_Inr) simp
    then have sib: "mapE (\<lambda>j. get_node_hash rd v alg (?cl + j * k ^ ch) ch k)
         (filter (\<lambda>j. j \<noteq> ?d) [0..<k]) = Inr (ps_siblings (hstep ?h k f i ch))"
      by (simp add: hstep_def filter_neq_upt_remove [OF d] map_remove_nth del: power_Suc)
    have left: "?cl + ?d * k ^ ch = i div k ^ ch * k ^ ch" by (rule digit_offset)
    have bound: "i div k ^ ch * k ^ ch + k ^ ch \<le> n"
      using child_in_block [OF d, of ?cl ch] Suc.prems(2) left by linarith
    have "bisect_to_height rd v alg ?cl (Suc ch) i th k path
        = bisect_to_height rd v alg (i div k ^ ch * k ^ ch) ch i th k (path @ [hstep ?h k f i ch])"
      using th sib left
      by (subst bisect_to_height.simps) (simp add: Let_def idx hstep_def del: power_Suc)
    also have "\<dots> = Inr ((path @ [hstep ?h k f i ch]) @ rev (hpath ?h k f i th ch))"
      by (rule Suc.IH [OF th bound])
    finally show ?thesis using th by (simp add: hpath_def)
  qed
qed

lemma find_block_coords:
  assumes "j < length hs" "in_block k x (coords_of k lo hs ! j)"
  shows "find_block k x f (coords_of k lo hs) = Some (f + j, coords_of k lo hs ! j)"
  using assms
proof (induction hs arbitrary: lo j f)
  case (Cons h hs)
  show ?case
  proof (cases j)
    case 0
    then show ?thesis using Cons.prems(2) by (simp add: in_block_def)
  next
    case (Suc j')
    have blk: "in_block k x (coords_of k (lo + k ^ h) hs ! j')" using Cons.prems(2) Suc by simp
    then have "lo + k ^ h \<le> x"
      using Cons.prems(1) Suc by (auto simp: in_block_def nth_coords_of)
    then show ?thesis
      using Cons.IH [of j' "lo + k ^ h" "Suc f"] Cons.prems Suc blk by simp
  qed
qed simp

lemma find_block_frontier:
  assumes "2 \<le> k" "n < u64_limit" "i < n"
  obtains j l t where "find_block k i 0 (frontier_for_size n k) = Some (j, l, t)"
    "j < length (frontier_for_size n k)" "frontier_for_size n k ! j = (l, t)"
    "l \<le> i" "i < l + k ^ t" "k ^ t dvd l" "l + k ^ t \<le> n"
proof -
  obtain hs where hs: "frontier_for_size n k = coords_of k 0 hs" "hsum k hs = n"
    using frontier_canon [OF assms(1,2)] by metis
  then obtain j where j: "j < length hs" "in_block k i (coords_of k 0 hs ! j)"
    using coords_locate [of 0 i k hs] assms(3) by auto
  obtain l t where lt: "coords_of k 0 hs ! j = (l, t)" by (cases "coords_of k 0 hs ! j")
  have mem: "(l, t) \<in> set (frontier_for_size n k)"
    using j(1) lt hs(1) by (metis length_coords_of nth_mem)
  show thesis
  proof (rule that [of j l t])
    show "find_block k i 0 (frontier_for_size n k) = Some (j, l, t)"
      using find_block_coords [OF j, of 0] lt hs(1) by simp
    show "l \<le> i" "i < l + k ^ t" using j(2) lt by (auto simp: in_block_def)
    show "k ^ t dvd l" by (rule frontier_aligned [OF assms(1,2) mem])
    show "l + k ^ t \<le> n" by (rule frontier_bound [OF assms(1,2) mem])
  qed (use j lt hs in simp_all)
qed

text \<open>The inclusion proof: up the mountain, then through the bag.\<close>

lemma inclusion_proof_path:
  assumes b: "backed rd v alg k f n" and k: "2 \<le> k" and n: "n < u64_limit"
    and m: "i < m" "m \<le> n" "m \<le> tree_size v g"
    and blk: "find_block k i 0 (frontier_for_size m k) = Some (j, l, t)"
      "l \<le> i" "i < l + k ^ t" "k ^ t dvd l" "l + k ^ t \<le> m"
  shows "inclusion_proof rd v alg i m g k = Inr (Some (hpath (av_hasher v) k f i 0 t
     @ bag_path (fdigs (av_hasher v) k f (frontier_for_size m k)) j (av_hasher v) k))"
proof -
  have left: "i div k ^ t * k ^ t = l" by (rule block_of_index [OF blk(4,2,3)])
  have "bisect_to_height rd v alg l t i 0 k [] = Inr (rev (hpath (av_hasher v) k f i 0 t))"
    using bisect_backed [OF b k n, of 0 t i "[]"] left blk(5) m(2) by simp
  then show ?thesis
    using blk(1) get_node_hashes_backed [OF b k m(2) n] m
    by (simp add: inclusion_proof_def Let_def)
qed

lemma inclusion_proof_backed:
  assumes b: "backed rd v alg k f n" and k: "arity_ok k" and n: "n < u64_limit"
    and m: "i < m" "m \<le> n" "m \<le> tree_size v g"
  shows "\<exists>path sk. inclusion_proof rd v alg i m g k = Inr (Some path)
    \<and> mountain_skeleton k m i = Some sk \<and> map step_shape path = sk
    \<and> length path \<le> 256 \<and> list_all (step_ok (digest_len (av_hasher v))) path
    \<and> climb (av_hasher v) path (f i)
        = bag_peaks (av_hasher v) (fdigs (av_hasher v) k f (frontier_for_size m k)) k"
proof -
  let ?h = "av_hasher v" and ?C = "frontier_for_size m k"
  let ?P = "fdigs ?h k f ?C"
  have k2: "2 \<le> k" "k \<le> 257" using k by (auto simp: arity_ok_def)
  have ml: "m < u64_limit" using m n by simp
  have fw: "fixed_width ?h" "\<And>i. length (f i) = digest_len ?h" using b by (simp_all add: backed_def)
  obtain j l t where blk: "find_block k i 0 ?C = Some (j, l, t)" "j < length ?C" "?C ! j = (l, t)"
    "l \<le> i" "i < l + k ^ t" "k ^ t dvd l" "l + k ^ t \<le> m"
    using find_block_frontier [OF k2(1) ml m(1)] by metis
  have left: "i div k ^ t * k ^ t = l" by (rule block_of_index [OF blk(6,4,5)])
  let ?path = "hpath ?h k f i 0 t @ bag_path ?P j ?h k"
  have gen: "inclusion_proof rd v alg i m g k = Inr (Some ?path)"
    by (rule inclusion_proof_path [OF b k2(1) n m blk(1,4-7)])
  obtain s where s: "bag_shape (length ?C) k = Some s"
    "mountain_skeleton k m i = Some (digit_steps k t (i - l) @ bag_path_steps s j)"
    using mountain_skeleton_at [OF k ml blk(2,3,4,5)] by blast
  have jP: "j < length ?P" and sP: "bag_shape (length ?P) k = Some s" using blk(2) s(1) by simp_all
  have shape: "map step_shape ?path = digit_steps k t (i - l) @ bag_path_steps s j"
    using hpath_shape [of k t l i ?h f 0] blk(4-6) k2 bag_path_spec(2) [OF sP jP] by simp
  have Pj: "?P ! j = pdig ?h k f l t" using blk(2,3) by (simp add: nth_fdigs)
  have "climb ?h ?path (f i) = bag_peaks ?h ?P k"
    using hpath_climb [of k 0 t ?h f i] bag_path_spec(1) [OF sP jP, of ?h] k2 left Pj by simp
  moreover have "list_all (step_ok (digest_len ?h)) (bag_path ?P j ?h k)
      \<and> length (bag_path ?P j ?h k) \<le> 65"
    using k2 jP frontier_length [OF k2(1) ml] length_pdig [OF fw]
    by (intro bag_path_steps_ok fw) (auto simp: fdigs_def)
  moreover have "list_all (step_ok (digest_len ?h)) (hpath ?h k f i 0 t)"
    by (rule hpath_ok [OF k2 fw])
  moreover have "t < 64" using blk(7) ml by (intro power_less_limit [OF k2(1)]) simp
  ultimately show ?thesis
    using gen s(2) shape
    by (intro exI [of _ ?path] exI [of _ "digit_steps k t (i - l) @ bag_path_steps s j"])
      (auto simp: hpath_def)
qed

text \<open>The mountain of an index only grows with the log.\<close>

lemma canon_append2: "canon k (xs @ ys) \<Longrightarrow> canon k ys"
  by (auto simp: canon_def sorted_wrt_append count_list_append) (metis add_lessD1 add.commute)

lemma block_at_bound:
  assumes k: "2 \<le> k" and n: "n < u64_limit" and b: "k ^ b dvd a" "a + k ^ b \<le> n"
    and c: "(l, t) \<in> set (frontier_for_size n k)" "l \<le> a" "a < l + k ^ t"
  shows "b \<le> t"
proof (rule ccontr)
  assume "\<not> b \<le> t"
  then have lt: "Suc t \<le> b" by simp
  have "k ^ t dvd a" using b(1) lt by (meson dvd_trans le_imp_power_dvd Suc_leD)
  then have la: "l = a"
    using block_of_index [OF frontier_aligned [OF k n c(1)] c(2,3)] by simp
  obtain hs where hs: "frontier_for_size n k = coords_of k 0 hs" "canon k hs" "hsum k hs = n"
    using frontier_canon [OF k n] by metis
  then obtain j where j: "j < length hs" "coords_of k 0 hs ! j = (l, t)"
    using c(1) by (metis in_set_conv_nth length_coords_of)
  then have lt': "l = hsum k (take j hs)" "t = hs ! j" by (simp_all add: nth_coords_of)
  have split: "hs = take j hs @ t # drop (Suc j) hs" using j lt'(2) by (simp add: id_take_nth_drop)
  then have "canon k (t # drop (Suc j) hs)" using hs(2) canon_append2 by metis
  then have "hsum k (t # drop (Suc j) hs) < k ^ Suc t" by (rule canon_bound [OF k])
  moreover have "n = l + hsum k (t # drop (Suc j) hs)"
    using hs(3) lt'(1) by (subst (asm) split) simp
  moreover have "k ^ Suc t \<le> k ^ b" using k lt by (intro power_increasing) simp_all
  ultimately show False using b(2) la by linarith
qed

lemma block_covers:
  fixes a b i k l t :: nat
  assumes "k ^ b dvd a" "k ^ t dvd l" "b \<le> t" "l \<le> a" "a < l + k ^ t" "a \<le> i" "i < a + k ^ b"
  shows "l \<le> i \<and> i < l + k ^ t"
proof -
  obtain q where q: "l + k ^ t = q * k ^ b"
    using assms(2,3) by (metis dvd_add dvd_def dvd_refl dvd_trans le_imp_power_dvd mult.commute)
  obtain p where p: "a = p * k ^ b" using assms(1) by (metis dvd_def mult.commute)
  have "p < q" using assms(5) p q by (metis mult_less_cancel2)
  then have "Suc p * k ^ b \<le> q * k ^ b" by (intro mult_le_mono1) simp
  then show ?thesis using assms p q by simp
qed

lemma mountain_grows:
  assumes k: "2 \<le> k" and n: "n < u64_limit" and mn: "m \<le> n"
    and m: "(l, t) \<in> set (frontier_for_size m k)" "l \<le> i" "i < l + k ^ t"
    and n': "(l', t') \<in> set (frontier_for_size n k)" "l' \<le> i" "i < l' + k ^ t'"
  shows "t \<le> t'"
proof -
  have ml: "m < u64_limit" using mn n by simp
  have al: "k ^ t dvd l" "l + k ^ t \<le> n"
    using frontier_aligned [OF k ml m(1)] frontier_bound [OF k ml m(1)] mn by simp_all
  have pos: "0 < k ^ t" using k by simp
  then have "l < n" using al by linarith
  then obtain l0 t0 where c: "(l0, t0) \<in> set (frontier_for_size n k)" "l0 \<le> l" "l < l0 + k ^ t0"
    using frontier_block_ex1 [OF k n, of l] by (auto simp: in_block_def)
  have t0: "t \<le> t0" by (rule block_at_bound [OF k n al c])
  have "l0 \<le> i \<and> i < l0 + k ^ t0"
    by (rule block_covers [OF al(1) frontier_aligned [OF k n c(1)] t0 c(2,3) m(2,3)])
  then have "(l0, t0) = (l', t')"
    using frontier_block_ex1 [OF k n, of i] c n' frontier_bound [OF k n n'(1)]
    by (auto simp: in_block_def)
  then show ?thesis using t0 by simp
qed

lemma inclusion_complete_at:
  assumes "backed rd v alg k f n" "arity_ok k" "width_ok (av_hasher v)" "n < u64_limit"
    and "i < m" "m \<le> n" "m \<le> tree_size v g" "effective_size_at v m = m"
  shows "\<exists>lp sk root. leaf_proof_of rd v alg i m g k = Inr (Some lp)
    \<and> lp_leaf_hash lp = f i \<and> lp_index lp = i \<and> lp_tree_size lp = m \<and> lp_arity lp = k
    \<and> mountain_skeleton k m i = Some sk \<and> root_for_at rd v alg m k = Inr root
    \<and> leaf_proof_verify lp (av_hasher v) sk root"
proof -
  let ?h = "av_hasher v"
  have k: "2 \<le> k" using assms(2) by (simp add: arity_ok_def)
  obtain path sk where p: "inclusion_proof rd v alg i m g k = Inr (Some path)"
    "mountain_skeleton k m i = Some sk" "map step_shape path = sk" "length path \<le> 256"
    "list_all (step_ok (digest_len ?h)) path"
    "climb ?h path (f i) = bag_peaks ?h (fdigs ?h k f (frontier_for_size m k)) k"
    using inclusion_proof_backed [OF assms(1,2,4-7)] by metis
  have "get_node_hash rd v alg i 0 k = Inr (f i)"
    using get_node_hash_backed [OF assms(1) k assms(4), of 0 i] assms(5,6) by simp
  moreover have "root_for_at rd v alg m k = Inr (bag_peaks ?h (fdigs ?h k f (frontier_for_size m k)) k)"
    using get_node_hashes_backed [OF assms(1) k assms(6,4)] assms(5,8)
    by (simp add: root_for_at_def Let_def)
  moreover have "length (f i) = digest_len ?h" using assms(1) by (simp add: backed_def)
  ultimately show ?thesis
    using p assms(3) structure_exact [OF p(3)]
    by (simp add: leaf_proof_of_def leaf_proof_verify_def verify_inclusion_iff)
qed

section \<open>Reopening a view\<close>

lemma reconstruct_view_backed:
  assumes b: "backed rd v alg k f n" and k: "2 \<le> k" and n: "n < u64_limit"
    and size: "n = epochs_tree_size (av_epochs v) g"
    and ok: "(validate_epochs alg (av_epochs v) g :: 'e cml_error + unit) = Inr ()"
    and v: "holds_frontier v k f n"
  shows "(reconstruct_view rd alg (av_hasher v) (av_epochs v) g k :: 'e cml_error + _) = Inr v"
proof (cases "n = 0")
  case True
  then have "av_frontier v = []" "av_coords v = []"
    using v by (simp_all add: holds_frontier_def fdigs_def)
  then show ?thesis using True size ok by (simp add: reconstruct_view_def Let_def)
next
  case False
  let ?v = "\<lparr>av_hasher = av_hasher v, av_epochs = av_epochs v, av_frontier = [], av_coords = []\<rparr>"
  let ?get = "\<lambda>(left, height).
     if \<not> active_range ?v left (left + k ^ height) then Inr (hs_null (av_hasher v))
     else bindE (map_err Read (rd_node rd alg left height)) (\<lambda>found.
       ok_or (Corrupted alg (MissingFrontierNode left height)) found)"
  have ar: "active_range ?v = active_range v" by (simp add: active_range_def fun_eq_iff)
  have get: "?get c = Inr ((\<lambda>(l, t). pdig (av_hasher v) k f l t) c)"
    if "c \<in> set (frontier_for_size n k)" for c
  proof -
    obtain l t where c: "c = (l, t)" by (cases c)
    have "k ^ t dvd l" "l + k ^ t \<le> n"
      using frontier_aligned [OF k n] frontier_bound [OF k n] that c by simp_all
    then show ?thesis
      using b backed_inactive [OF b k, of l t] by (auto simp: c ar backed_def)
  qed
  have "mapE ?get (frontier_for_size n k) = Inr (fdigs (av_hasher v) k f (frontier_for_size n k))"
    unfolding fdigs_def by (rule mapE_Inr [OF get])
  moreover have "?v\<lparr>av_frontier := fdigs (av_hasher v) k f (frontier_for_size n k),
      av_coords := frontier_for_size n k\<rparr> = v"
    using v by (cases v) (simp add: holds_frontier_def)
  ultimately show ?thesis
    using False size ok by (simp add: reconstruct_view_def Let_def)
qed

section \<open>Properties\<close>

text \<open>A small log of three leaves at arity 2, whose store holds every perfect subtree.\<close>

definition toy_reader :: "unit node_reader" where
  "toy_reader = \<lparr>rd_node = (\<lambda>_ l t. Inr (Some (pdig toy_hasher 2 toy_leaf l t))), rd_leaf = (\<lambda>_. Inl ())\<rparr>"

lemma toy_backed: "n \<le> 3 \<Longrightarrow> backed toy_reader toy_view 0 2 toy_leaf n"
  by (simp add: backed_def toy_reader_def toy_view_def toy_hasher_fixed_width toy_leaf_def
      toy_hasher_digest_len is_active_at_def u64_max_def)

lemma toy_size: "tree_size toy_view 3 = 3"
  by (simp add: tree_size_def epochs_tree_size_def epochs_open_def toy_view_def)



text \<open>
  Durable witnesses: the inclusion proofs of one index at two sizes share the whole climb
  inside the smaller log's mountain, which ends in that mountain's peak; only the rest of the
  path is derived anew when the log grows.
\<close>

theorem durable_witness:
  assumes "backed rd v alg k f n" "arity_ok k" "n < u64_limit"
    and "i < m" "m \<le> m'" "m' \<le> n" "m' \<le> tree_size v g"
  shows "\<exists>j l t prefix rest rest'.
    find_block k i 0 (frontier_for_size m k) = Some (j, l, t)
    \<and> inclusion_proof rd v alg i m g k = Inr (Some (prefix @ rest))
    \<and> inclusion_proof rd v alg i m' g k = Inr (Some (prefix @ rest'))
    \<and> length prefix = t \<and> climb (av_hasher v) prefix (f i) = pdig (av_hasher v) k f l t"
proof -
  let ?h = "av_hasher v"
  have k: "2 \<le> k" "0 < k" using assms(2) by (simp_all add: arity_ok_def)
  have lim: "m < u64_limit" "m' < u64_limit" "i < m'" "m \<le> n" "m \<le> tree_size v g" using assms by simp_all
  obtain j l t where b: "find_block k i 0 (frontier_for_size m k) = Some (j, l, t)"
    "j < length (frontier_for_size m k)" "frontier_for_size m k ! j = (l, t)"
    "l \<le> i" "i < l + k ^ t" "k ^ t dvd l" "l + k ^ t \<le> m"
    using find_block_frontier [OF k(1) lim(1) assms(4)] by metis
  obtain j' l' t' where b': "find_block k i 0 (frontier_for_size m' k) = Some (j', l', t')"
    "j' < length (frontier_for_size m' k)" "frontier_for_size m' k ! j' = (l', t')"
    "l' \<le> i" "i < l' + k ^ t'" "k ^ t' dvd l'" "l' + k ^ t' \<le> m'"
    using find_block_frontier [OF k(1) lim(2,3)] by metis
  have "t \<le> t'"
    using mountain_grows [OF k(1) lim(2) assms(5), of l t i l' t'] b b' by (metis nth_mem)
  then have split: "hpath ?h k f i 0 t' = hpath ?h k f i 0 t @ hpath ?h k f i t t'"
    using upt_add_eq_append [of 0 t "t' - t"] by (simp add: hpath_def)
  have "climb ?h (hpath ?h k f i 0 t) (f i) = pdig ?h k f l t"
    using hpath_climb [OF k(2), of 0 t ?h f i] block_of_index [OF b(6,4,5)] by simp
  moreover have "inclusion_proof rd v alg i m' g k = Inr (Some (hpath ?h k f i 0 t @ hpath ?h k f i t t'
      @ bag_path (fdigs ?h k f (frontier_for_size m' k)) j' ?h k))"
    using inclusion_proof_path [OF assms(1) k(1) assms(3) lim(3) assms(6,7) b'(1,4-7)] split by simp
  moreover have "length (hpath ?h k f i 0 t) = t" by (simp add: hpath_def)
  ultimately show ?thesis
    using b(1) inclusion_proof_path [OF assms(1) k(1) assms(3,4) lim(4,5) b(1,4-7)] by blast
qed

theorem durable_witness_witness:
  "\<exists>j l t prefix rest rest'.
    find_block 2 0 0 (frontier_for_size 2 2) = Some (j, l, t)
    \<and> inclusion_proof toy_reader toy_view 0 0 2 3 2 = Inr (Some (prefix @ rest))
    \<and> inclusion_proof toy_reader toy_view 0 0 3 3 2 = Inr (Some (prefix @ rest'))
    \<and> length prefix = t \<and> climb (av_hasher toy_view) prefix (toy_leaf 0) = pdig (av_hasher toy_view) 2 toy_leaf l t"
  by (rule durable_witness [OF toy_backed [of 3]]) (simp_all add: arity_ok_def u64_limit_def toy_size)

text \<open>
  Reopening gives back the live view: reconstructing an algorithm from a backed store
  under its own validated timeline returns exactly the view whose frontier the appends built.
\<close>

theorem reconstruct_view_roundtrip:
  assumes "backed rd v alg k f n" "arity_ok k" "n < u64_limit"
    and "n = tree_size v g" "(validate_epochs alg (av_epochs v) g :: 'e cml_error + unit) = Inr ()"
    and "holds_frontier v k f n"
  shows "(reconstruct_view rd alg (av_hasher v) (av_epochs v) g k :: 'e cml_error + alg_view) = Inr v"
  by (rule reconstruct_view_backed [OF assms(1) _ assms(3) _ assms(5,6)])
    (use assms in \<open>simp_all add: arity_ok_def tree_size_def\<close>)

theorem reconstruct_view_roundtrip_witness:
  "(reconstruct_view toy_reader 0 (av_hasher toy_view) (av_epochs toy_view) 3 2 :: unit cml_error + alg_view)
     = Inr toy_view"
  by (rule reconstruct_view_roundtrip [OF toy_backed [of 3]])
    (simp_all add: arity_ok_def u64_limit_def toy_size,
     simp_all add: toy_view_def holds_frontier_def validate_epochs_def u64_max_def)

end
