(* ===== verification/Cml_Reopen.thy ===== *)
theory Cml_Reopen
  imports Cml_Proofs
begin

text \<open>
  The subtree reader \<^verbatim>\<open>reconstruct_subtree_root\<close> of \<^verbatim>\<open>cml/src/engine.rs\<close>: on a store whose
  nodes are right where they exist and whose leaves can be read, it returns the perfect-subtree
  digest of every aligned block, and the nodes it asks to be stored are right as well.
\<close>

definition sound_store ::
    "'e node_reader \<Rightarrow> alg_view \<Rightarrow> alg_id \<Rightarrow> nat \<Rightarrow> (nat \<Rightarrow> digest) \<Rightarrow> nat \<Rightarrow> log_kind \<Rightarrow> bool" where
  "sound_store rd v alg k f n kind \<longleftrightarrow>
     fixed_width (av_hasher v) \<and> (\<forall>i. length (f i) = digest_len (av_hasher v))
     \<and> (\<forall>i < n. \<not> is_active_at v i \<longrightarrow> f i = hs_null (av_hasher v))
     \<and> (\<forall>l t. k ^ t dvd l \<and> l + k ^ t \<le> n \<longrightarrow>
          rd_node rd alg l t = Inr None \<or> rd_node rd alg l t = Inr (Some (pdig (av_hasher v) k f l t)))
     \<and> (\<forall>i < n. is_active_at v i \<longrightarrow>
          (case kind of
             Flat \<Rightarrow> \<exists>data. rd_leaf rd i = Inr data \<and> f i = hs_leaf (av_hasher v) data
           | Subtree \<Rightarrow> rd_node rd alg i 0 = Inr None \<longrightarrow> f i = hs_null (av_hasher v)))"

lemma log_loop_power: "2 \<le> k \<Longrightarrow> log_loop k (k ^ t) c = c + t"
proof (induction t arbitrary: c)
  case (Suc t)
  have "1 < k ^ Suc t" using Suc.prems one_less_power [of k "Suc t"] by simp
  then show ?case using Suc by (subst log_loop.simps) simp
qed (subst log_loop.simps, simp)

lemma is_power_of_power: "2 \<le> k \<Longrightarrow> is_power_of k (k ^ t)"
  by (simp add: is_power_of_def strip_factor_power)

definition right_nodes :: "hasher \<Rightarrow> nat \<Rightarrow> (nat \<Rightarrow> digest) \<Rightarrow> nat \<Rightarrow> nat \<Rightarrow> (u64 \<times> u32 \<times> digest) list \<Rightarrow> bool" where
  "right_nodes h k f lo hi ns \<longleftrightarrow>
     (\<forall>(l, t, d) \<in> set ns. k ^ t dvd l \<and> lo \<le> l \<and> l + k ^ t \<le> hi \<and> d = pdig h k f l t)"

lemma right_nodes_mono:
  "right_nodes h k f lo hi ns \<Longrightarrow> lo' \<le> lo \<Longrightarrow> hi \<le> hi' \<Longrightarrow> right_nodes h k f lo' hi' ns"
  by (fastforce simp: right_nodes_def)

lemma subtree_root_leaf:
  "reconstruct_subtree_root rd alg v lo (lo + 1) k kind sm =
     (if is_active_at v lo then
        (case kind of
           Subtree \<Rightarrow>
             bindE (map_err Read (rd_node rd alg lo 0)) (\<lambda>found.
               case found of
                 Some hash \<Rightarrow>
                   if length hash \<noteq> length (hs_null (av_hasher v))
                   then Inl (Corrupted alg (SubtreeNodeWrongLength lo (length (hs_null (av_hasher v))) (length hash)))
                   else Inr (hash, [])
               | None \<Rightarrow> Inr (hs_null (av_hasher v), []))
         | Flat \<Rightarrow>
             bindE (map_err Read (rd_leaf rd lo)) (\<lambda>data.
               Inr (hs_leaf (av_hasher v) data, [])))
      else Inr (hs_null (av_hasher v), []))"
  by (subst reconstruct_subtree_root.simps) (simp add: Let_def)

lemma subtree_root_null:
  assumes "1 < sz" "\<not> active_range v lo (lo + sz)"
  shows "reconstruct_subtree_root rd alg v lo (lo + sz) k kind sm = Inr (hs_null (av_hasher v), [])"
  using assms by (subst reconstruct_subtree_root.simps) (simp add: Let_def)

definition children_root ::
    "'e node_reader \<Rightarrow> alg_id \<Rightarrow> alg_view \<Rightarrow> u64 \<Rightarrow> u32 \<Rightarrow> u64 \<Rightarrow> log_kind \<Rightarrow> bool \<Rightarrow>
     'e cml_error + (digest \<times> (u64 \<times> u32 \<times> digest) list)" where
  "children_root rd alg v lo t k kind sm =
     bindE (mapE (\<lambda>j. reconstruct_subtree_root rd alg v (lo + j * k ^ t) (lo + (j + 1) * k ^ t)
                   k kind sm) [0..<k])
       (\<lambda>parts.
          let hash = nary_mr (av_hasher v) (map fst parts); mixed = concat (map snd parts)
          in Inr (hash, if sm then mixed @ [(lo, Suc t, hash)] else mixed))"

lemma subtree_root_inner:
  assumes k: "2 \<le> k" and act: "active_range v lo (lo + k ^ Suc t)"
  shows "reconstruct_subtree_root rd alg v lo (lo + k ^ Suc t) k kind sm =
      (if fully_active v lo (lo + k ^ Suc t) then
         bindE (map_err Read (rd_node rd alg lo (Suc t))) (\<lambda>found.
           case found of
             Some hash \<Rightarrow>
               if length hash \<noteq> length (hs_null (av_hasher v))
               then Inl (Corrupted alg (NodeWrongLength lo (Suc t) (length (hs_null (av_hasher v))) (length hash)))
               else Inr (hash, [])
           | None \<Rightarrow> children_root rd alg v lo t k kind sm)
       else children_root rd alg v lo t k kind sm)"
proof -
  have "1 < k ^ Suc t" using k one_less_power [of k "Suc t"] by simp
  then have sz: "lo + k ^ Suc t - lo = k ^ Suc t" "k ^ Suc t = 0 \<longleftrightarrow> False" "k ^ Suc t = 1 \<longleftrightarrow> False"
    "k ^ Suc t div k = k ^ t" using k by simp_all
  show ?thesis
    by (subst reconstruct_subtree_root.simps)
      (simp only: Let_def sz act is_power_of_power [OF k] log_loop_power [OF k] if_True if_False
        not_True_eq_False add_0 children_root_def)
qed

text \<open>One level of the recursion, from what it gives on the children.\<close>

lemma children_root_sound:
  assumes child: "\<And>j. j < k \<Longrightarrow>
      \<exists>mixed. reconstruct_subtree_root rd alg v (lo + j * k ^ t) (lo + (j + 1) * k ^ t) k kind sm
          = Inr (pdig (av_hasher v) k f (lo + j * k ^ t) t, mixed)
        \<and> right_nodes (av_hasher v) k f lo (lo + k ^ Suc t) mixed"
    and dvd: "k ^ Suc t dvd lo"
  shows "\<exists>mixed. children_root rd alg v lo t k kind sm = Inr (pdig (av_hasher v) k f lo (Suc t), mixed)
    \<and> right_nodes (av_hasher v) k f lo (lo + k ^ Suc t) mixed"
proof -
  let ?h = "av_hasher v"
  let ?rec = "\<lambda>j. reconstruct_subtree_root rd alg v (lo + j * k ^ t) (lo + (j + 1) * k ^ t) k kind sm"
  let ?mx = "\<lambda>j. snd (projr (?rec j))"
  have mx: "?rec j = Inr (pdig ?h k f (lo + j * k ^ t) t, ?mx j)"
    "right_nodes ?h k f lo (lo + k ^ Suc t) (?mx j)" if "j < k" for j
    using child [OF that] by auto
  have parts: "mapE ?rec [0..<k] = Inr (map (\<lambda>j. (pdig ?h k f (lo + j * k ^ t) t, ?mx j)) [0..<k])"
    by (rule mapE_Inr) (use mx(1) in simp)
  have right: "right_nodes ?h k f lo (lo + k ^ Suc t) (concat (map ?mx [0..<k]))"
    using mx(2) by (fastforce simp: right_nodes_def)
  have self: "right_nodes ?h k f lo (lo + k ^ Suc t) [(lo, Suc t, pdig ?h k f lo (Suc t))]"
    using dvd by (simp add: right_nodes_def del: pdig.simps power_Suc)
  have app: "right_nodes ?h k f lo (lo + k ^ Suc t) (xs @ ys)"
    if "right_nodes ?h k f lo (lo + k ^ Suc t) xs" "right_nodes ?h k f lo (lo + k ^ Suc t) ys" for xs ys
    using that unfolding right_nodes_def by (simp only: set_append ball_Un simp_thms)
  have "children_root rd alg v lo t k kind sm = Inr (pdig ?h k f lo (Suc t),
      if sm then concat (map ?mx [0..<k]) @ [(lo, Suc t, pdig ?h k f lo (Suc t))]
      else concat (map ?mx [0..<k]))"
    unfolding children_root_def parts by (simp add: o_def Let_def)
  then show ?thesis using right app [OF right self] by (cases sm) auto
qed

lemma subtree_root_sound:
  assumes s: "sound_store rd v alg k f n kind" and k: "2 \<le> k"
  shows "k ^ t dvd lo \<Longrightarrow> lo + k ^ t \<le> n \<Longrightarrow>
    \<exists>mixed. reconstruct_subtree_root rd alg v lo (lo + k ^ t) k kind sm
        = Inr (pdig (av_hasher v) k f lo t, mixed)
      \<and> right_nodes (av_hasher v) k f lo (lo + k ^ t) mixed"
proof (induction t arbitrary: lo)
  case 0
  let ?h = "av_hasher v"
  have "rd_node rd alg lo 0 = Inr None \<or> rd_node rd alg lo 0 = Inr (Some (pdig ?h k f lo 0))"
    using s 0 unfolding sound_store_def by blast
  then have node: "rd_node rd alg lo 0 = Inr None \<or> rd_node rd alg lo 0 = Inr (Some (f lo))" by simp
  have len: "length (f lo) = length (hs_null ?h)"
    using s by (simp add: sound_store_def fixed_width_simps)
  have "lo < n" using 0 by simp
  then have act: "is_active_at v lo \<Longrightarrow> (case kind of
             Flat \<Rightarrow> \<exists>data. rd_leaf rd lo = Inr data \<and> f lo = hs_leaf ?h data
           | Subtree \<Rightarrow> rd_node rd alg lo 0 = Inr None \<longrightarrow> f lo = hs_null ?h)"
    "\<not> is_active_at v lo \<Longrightarrow> f lo = hs_null ?h"
    using s unfolding sound_store_def by blast+
  have "reconstruct_subtree_root rd alg v lo (lo + 1) k kind sm = Inr (f lo, [])"
    unfolding subtree_root_leaf using node len act by (auto split: log_kind.splits)
  then show ?case by (simp add: right_nodes_def)
next
  case (Suc t)
  let ?h = "av_hasher v" and ?sz = "k ^ Suc t"
  have child: "\<exists>mixed. reconstruct_subtree_root rd alg v (lo + j * k ^ t) (lo + (j + 1) * k ^ t) k kind sm
          = Inr (pdig ?h k f (lo + j * k ^ t) t, mixed) \<and> right_nodes ?h k f lo (lo + ?sz) mixed"
    if "j < k" for j
  proof -
    have "k ^ t dvd lo + j * k ^ t" using Suc.prems(1) by (intro dvd_add) (auto dest: dvd_mult_right)
    moreover have b: "lo + j * k ^ t + k ^ t \<le> lo + ?sz" by (rule child_in_block [OF that])
    ultimately obtain mixed where
      "reconstruct_subtree_root rd alg v (lo + j * k ^ t) (lo + j * k ^ t + k ^ t) k kind sm
        = Inr (pdig ?h k f (lo + j * k ^ t) t, mixed)"
      "right_nodes ?h k f (lo + j * k ^ t) (lo + j * k ^ t + k ^ t) mixed"
      using Suc.IH [of "lo + j * k ^ t"] le_trans [OF b Suc.prems(2)] by blast
    moreover have "lo + (j + 1) * k ^ t = lo + j * k ^ t + k ^ t" by simp
    ultimately show ?thesis using right_nodes_mono [OF _ le_add1 b] by metis
  qed
  obtain mixed where down: "children_root rd alg v lo t k kind sm = Inr (pdig ?h k f lo (Suc t), mixed)"
    "right_nodes ?h k f lo (lo + ?sz) mixed"
    using children_root_sound [OF child Suc.prems(1)] by blast
  have node: "rd_node rd alg lo (Suc t) = Inr None
      \<or> rd_node rd alg lo (Suc t) = Inr (Some (pdig ?h k f lo (Suc t)))"
    using s Suc.prems unfolding sound_store_def by blast
  have len: "length (pdig ?h k f lo (Suc t)) = length (hs_null ?h)"
    using s length_pdig [of ?h f k lo "Suc t"] by (simp add: sound_store_def fixed_width_simps)
  have none: "right_nodes ?h k f lo (lo + ?sz) []" by (simp add: right_nodes_def)
  show ?case
  proof (cases "active_range v lo (lo + ?sz)")
    case True
    show ?thesis
      unfolding subtree_root_inner [OF k True] down(1)
      using node len down(2) none by (auto simp del: pdig.simps power_Suc)
  next
    case False
    have "1 < ?sz" using k one_less_power [of k "Suc t"] by simp
    moreover have "pdig ?h k f lo (Suc t) = hs_null ?h"
      using s Suc.prems(2) inactive_range_leaf [OF False] k
      by (intro pdig_const) (auto simp: sound_store_def)
    ultimately show ?thesis
      using subtree_root_null [OF _ False, of rd alg k kind sm] none by metis
  qed
qed

section \<open>Which nodes are missing afterwards\<close>

text \<open>
  The nodes handed back complete the store: if the store had every active block below the size
  \<open>d\<close> at which the algorithm was frozen, then afterwards every active block of the block that was
  read is either still in the store or among the mixed nodes.
\<close>

definition fills ::
    "'e node_reader \<Rightarrow> alg_view \<Rightarrow> alg_id \<Rightarrow> nat \<Rightarrow> (nat \<Rightarrow> digest) \<Rightarrow> nat \<Rightarrow> nat \<Rightarrow> (u64 \<times> u32 \<times> digest) list \<Rightarrow> bool" where
  "fills rd v alg k f lo hi mixed \<longleftrightarrow>
     (\<forall>l s. k ^ s dvd l \<and> lo \<le> l \<and> l + k ^ s \<le> hi \<and> active_range v l (l + k ^ s) \<longrightarrow>
        rd_node rd alg l s = Inr (Some (pdig (av_hasher v) k f l s))
        \<or> (l, s, pdig (av_hasher v) k f l s) \<in> set mixed)"

definition frozen_store ::
    "'e node_reader \<Rightarrow> alg_view \<Rightarrow> alg_id \<Rightarrow> nat \<Rightarrow> (nat \<Rightarrow> digest) \<Rightarrow> nat \<Rightarrow> nat \<Rightarrow> bool" where
  "frozen_store rd v alg k f d n \<longleftrightarrow>
     (\<forall>l s. k ^ s dvd l \<and> l + k ^ s \<le> d \<and> active_range v l (l + k ^ s) \<longrightarrow>
        rd_node rd alg l s = Inr (Some (pdig (av_hasher v) k f l s)))
     \<and> (\<forall>i < n. is_active_at v i \<longrightarrow> i < d)"

lemma block_in_child:
  fixes k l lo s t :: nat
  assumes k: "2 \<le> k" and b: "k ^ s dvd l" "lo \<le> l" "l + k ^ s \<le> lo + k ^ Suc t" "k ^ Suc t dvd lo"
  shows "s = Suc t \<and> l = lo \<or> (\<exists>j < k. lo + j * k ^ t \<le> l \<and> l + k ^ s \<le> lo + j * k ^ t + k ^ t)"
proof -
  have "k ^ s \<le> k ^ Suc t" using b(2,3) by linarith
  then have s: "s \<le> Suc t" using k power_increasing_iff [of k s "Suc t"] by simp
  show ?thesis
  proof (cases "s = Suc t")
    case True
    then show ?thesis using b(2,3) by simp
  next
    case False
    then have st: "s \<le> t" using s by simp
    have pos: "0 < k ^ t" "0 < k ^ s" using k by simp_all
    define j where "j = (l - lo) div k ^ t"
    have "l - lo < k ^ Suc t" using b(2,3) pos(2) by linarith
    then have j: "j < k" using pos(1) by (simp add: j_def div_less_iff_less_mult)
    have in1: "lo + j * k ^ t \<le> l"
    proof -
      have "(l - lo) div k ^ t * k ^ t \<le> l - lo" by (rule div_times_less_eq_dividend)
      then show ?thesis using b(2) unfolding j_def by linarith
    qed
    have in2: "l < lo + j * k ^ t + k ^ t"
    proof -
      have "l - lo < (l - lo) div k ^ t * k ^ t + k ^ t"
        using mod_less_divisor [OF pos(1), of "l - lo"] div_mult_mod_eq [of "l - lo" "k ^ t"] by linarith
      then show ?thesis using b(2) unfolding j_def by linarith
    qed
    have "k ^ t dvd lo + j * k ^ t" using b(4) by (intro dvd_add) (auto dest: dvd_mult_right)
    from block_covers [OF b(1) this st in1 in2, of "l + k ^ s - 1"] pos(2)
    have "l + k ^ s \<le> lo + j * k ^ t + k ^ t" by linarith
    then show ?thesis using j in1 by blast
  qed
qed

lemma subrange_active: "active_range v l h \<Longrightarrow> l' \<le> l \<Longrightarrow> h \<le> h' \<Longrightarrow> active_range v l' h'"
  unfolding active_range_def list_ex_iff case_prod_beta by (meson le_less_trans less_le_trans)

lemma fully_active_at: "fully_active v lo hi \<Longrightarrow> lo \<le> i \<Longrightarrow> i < hi \<Longrightarrow> is_active_at v i"
  unfolding fully_active_def is_active_at_def list_ex_iff case_prod_beta by (meson le_trans less_le_trans)

lemma active_range_one: "active_range v i (i + 1) \<longleftrightarrow> is_active_at v i"
  by (simp add: active_range_def is_active_at_def less_Suc_eq_le)

lemma children_root_fills:
  assumes k: "2 \<le> k" and dvd: "k ^ Suc t dvd lo"
    and child: "\<And>j. j < k \<Longrightarrow>
      \<exists>mixed. reconstruct_subtree_root rd alg v (lo + j * k ^ t) (lo + j * k ^ t + k ^ t) k kind True
          = Inr (pdig (av_hasher v) k f (lo + j * k ^ t) t, mixed)
        \<and> fills rd v alg k f (lo + j * k ^ t) (lo + j * k ^ t + k ^ t) mixed"
  shows "\<exists>mixed. children_root rd alg v lo t k kind True = Inr (pdig (av_hasher v) k f lo (Suc t), mixed)
    \<and> fills rd v alg k f lo (lo + k ^ Suc t) mixed"
proof -
  let ?h = "av_hasher v"
  let ?rec = "\<lambda>j. reconstruct_subtree_root rd alg v (lo + j * k ^ t) (lo + (j + 1) * k ^ t) k kind True"
  let ?mx = "\<lambda>j. snd (projr (?rec j))"
  have nxt: "lo + (j + 1) * k ^ t = lo + j * k ^ t + k ^ t" for j by simp
  have mx: "?rec j = Inr (pdig ?h k f (lo + j * k ^ t) t, ?mx j)"
    "fills rd v alg k f (lo + j * k ^ t) (lo + j * k ^ t + k ^ t) (?mx j)" if "j < k" for j
    using child [OF that] unfolding nxt by auto
  let ?all = "concat (map ?mx [0..<k]) @ [(lo, Suc t, pdig ?h k f lo (Suc t))]"
  have parts: "mapE ?rec [0..<k] = Inr (map (\<lambda>j. (pdig ?h k f (lo + j * k ^ t) t, ?mx j)) [0..<k])"
    by (rule mapE_Inr) (use mx(1) in simp)
  have "children_root rd alg v lo t k kind True = Inr (pdig ?h k f lo (Suc t), ?all)"
    unfolding children_root_def parts by (simp add: o_def Let_def)
  moreover have "fills rd v alg k f lo (lo + k ^ Suc t) ?all"
    unfolding fills_def
  proof (intro allI impI, elim conjE)
    fix l s assume b: "k ^ s dvd l" "lo \<le> l" "l + k ^ s \<le> lo + k ^ Suc t" "active_range v l (l + k ^ s)"
    from block_in_child [OF k b(1-3) dvd]
    show "rd_node rd alg l s = Inr (Some (pdig ?h k f l s)) \<or> (l, s, pdig ?h k f l s) \<in> set ?all"
    proof (elim disjE exE conjE)
      fix j assume j: "j < k" "lo + j * k ^ t \<le> l" "l + k ^ s \<le> lo + j * k ^ t + k ^ t"
      have "rd_node rd alg l s = Inr (Some (pdig ?h k f l s)) \<or> (l, s, pdig ?h k f l s) \<in> set (?mx j)"
        using mx(2) [OF j(1)] b(1,4) j(2,3) unfolding fills_def by blast
      moreover have "set (?mx j) \<subseteq> set ?all" using j(1) by auto
      ultimately show ?thesis by blast
    next
      assume "s = Suc t" "l = lo"
      then show ?thesis by (simp only: set_append list.set) blast
    qed
  qed
  ultimately show ?thesis by blast
qed

lemma subtree_root_fills:
  assumes s: "sound_store rd v alg k f n kind" and z: "frozen_store rd v alg k f d n" and k: "2 \<le> k"
  shows "k ^ t dvd lo \<Longrightarrow> lo + k ^ t \<le> n \<Longrightarrow>
    \<exists>mixed. reconstruct_subtree_root rd alg v lo (lo + k ^ t) k kind True
        = Inr (pdig (av_hasher v) k f lo t, mixed)
      \<and> fills rd v alg k f lo (lo + k ^ t) mixed"
proof (induction t arbitrary: lo)
  case 0
  have kept: "fills rd v alg k f lo (lo + 1) mixed" for mixed
    unfolding fills_def
  proof (intro allI impI, elim conjE)
    fix l s assume b: "k ^ s dvd l" "lo \<le> l" "l + k ^ s \<le> lo + 1" "active_range v l (l + k ^ s)"
    have "0 < k ^ s" using k by simp
    then have l: "l = lo" "k ^ s = 1" using b(2,3) by linarith+
    then have "is_active_at v lo" using b(4) active_range_one [of v lo] by (metis l)
    then have "lo < d" using z 0 by (simp add: frozen_store_def)
    then have "l + k ^ s \<le> d" using l by linarith
    then show "rd_node rd alg l s = Inr (Some (pdig (av_hasher v) k f l s))
        \<or> (l, s, pdig (av_hasher v) k f l s) \<in> set mixed"
      using z b(1,4) unfolding frozen_store_def by blast
  qed
  show ?case using subtree_root_sound [OF s k 0] kept by auto
next
  case (Suc t)
  let ?h = "av_hasher v" and ?sz = "k ^ Suc t"
  have child: "\<exists>mixed. reconstruct_subtree_root rd alg v (lo + j * k ^ t) (lo + j * k ^ t + k ^ t) k kind True
          = Inr (pdig ?h k f (lo + j * k ^ t) t, mixed)
        \<and> fills rd v alg k f (lo + j * k ^ t) (lo + j * k ^ t + k ^ t) mixed"
    if "j < k" for j
  proof (rule Suc.IH)
    show "k ^ t dvd lo + j * k ^ t" using Suc.prems(1) by (intro dvd_add) (auto dest: dvd_mult_right)
    show "lo + j * k ^ t + k ^ t \<le> n" using child_in_block [OF that, of lo t] Suc.prems(2) by linarith
  qed
  obtain mixed where down: "children_root rd alg v lo t k kind True = Inr (pdig ?h k f lo (Suc t), mixed)"
    "fills rd v alg k f lo (lo + ?sz) mixed"
    using children_root_fills [OF k Suc.prems(1) child] by blast
  obtain mx where full: "reconstruct_subtree_root rd alg v lo (lo + ?sz) k kind True
      = Inr (pdig ?h k f lo (Suc t), mx)"
    using subtree_root_sound [OF s k Suc.prems] by blast
  show ?case
  proof (cases "active_range v lo (lo + ?sz)")
    case False
    then have "fills rd v alg k f lo (lo + ?sz) mx"
      unfolding fills_def using subrange_active by blast
    then show ?thesis using full by blast
  next
    case True
    note inner = subtree_root_inner [OF k True, of rd alg kind True]
    show ?thesis
    proof (cases "fully_active v lo (lo + ?sz)")
      case False
      then show ?thesis using inner down by simp
    next
      case fa: True
      have pos: "0 < ?sz" using k by simp
      have "is_active_at v (lo + ?sz - 1)" by (rule fully_active_at [OF fa]) (use pos in linarith)+
      moreover have "lo + ?sz - 1 < n" using Suc.prems(2) pos by linarith
      ultimately have "lo + ?sz - 1 < d" using z unfolding frozen_store_def by blast
      then have "lo + ?sz \<le> d" by linarith
      then have "fills rd v alg k f lo (lo + ?sz) mx"
        using z unfolding fills_def frozen_store_def by (meson le_trans)
      then show ?thesis using full by blast
    qed
  qed
qed

section \<open>Properties\<close>

text \<open>
  Reading a block while an algorithm is reopened is sound: whatever nodes the store still
  has, as long as they and the leaves are right, the reader returns the perfect-subtree digest
  of the block, and every mixed node it hands back for storing is the right digest of an
  aligned block inside it.
\<close>

theorem reconstruct_subtree_root_sound:
  assumes "sound_store rd v alg k f n kind" "arity_ok k" "k ^ t dvd lo" "lo + k ^ t \<le> n"
  shows "\<exists>mixed. reconstruct_subtree_root rd alg v lo (lo + k ^ t) k kind store_mixed
        = Inr (pdig (av_hasher v) k f lo t, mixed)
      \<and> right_nodes (av_hasher v) k f lo (lo + k ^ t) mixed"
  by (rule subtree_root_sound [OF assms(1) _ assms(3,4)]) (use assms(2) in \<open>simp add: arity_ok_def\<close>)

theorem reconstruct_subtree_root_sound_witness:
  "\<exists>mixed. reconstruct_subtree_root
        (\<lparr>rd_node = (\<lambda>_ _ _. Inr None), rd_leaf = (\<lambda>i. Inr [of_nat i])\<rparr> :: unit node_reader) 0 toy_view
        2 (2 + 2 ^ 1) 2 Flat True
        = Inr (pdig (av_hasher toy_view) 2 (\<lambda>i. hs_leaf toy_hasher [of_nat i]) 2 1, mixed)
      \<and> right_nodes (av_hasher toy_view) 2 (\<lambda>i. hs_leaf toy_hasher [of_nat i]) 2 (2 + 2 ^ 1) mixed"
  by (rule reconstruct_subtree_root_sound [where n = 4])
    (simp_all add: sound_store_def toy_view_def toy_hasher_fixed_width is_active_at_def u64_max_def
      arity_ok_def, simp_all add: digest_len_def toy_hasher_def)

end
