(* ===== verification/Cml_Consistency.thy ===== *)
theory Cml_Consistency
  imports Cml_Proofs Cml_Epochs Cml_Reopen
begin

text \<open>
  The consistency verifier of \<^verbatim>\<open>cml/src/consistency.rs\<close>.  The frontier of the old size is
  read off the frontier of the new one and the digits of the boundary (\<open>frontier_prefix\<close>);
  with it, honest proofs verify, and an accepted proof against an honest new root carries the
  honest old root unless two child lists the node fold confuses are exhibited.
\<close>

section \<open>Definitions\<close>

text \<open>The left siblings along a climb, highest step first.\<close>

definition left_siblings :: "proof_step list \<Rightarrow> digest list" where
  "left_siblings path =
     concat (map (\<lambda>step. take (min (ps_position step) (length (ps_siblings step)))
                            (ps_siblings step)) (rev path))"

definition reconstruct_consistency_roots ::
    "hasher \<Rightarrow> u64 \<Rightarrow> u64 \<Rightarrow> u64 \<Rightarrow> digest \<Rightarrow> proof_step list \<Rightarrow> digest list \<Rightarrow> nat \<Rightarrow>
     (digest \<times> digest) option" where
  "reconstruct_consistency_roots h old_size new_size k boundary_hash peak_path new_peaks split_index =
     (let dl = length (hs_empty h) in
      if dl = 0 \<or> 64 < dl then None
      else if length boundary_hash \<noteq> dl then None
      else if old_size = 0 \<or> new_size \<le> old_size then None
      else if \<not> arity_ok k then None
      else
      let old_coords = frontier_for_size old_size k;
          new_coords = frontier_for_size new_size k in
      if old_coords = [] then None
      else
      let (boundary_left, boundary_height) = last old_coords in
      if length new_peaks \<noteq> length new_coords then None
      else if length new_coords \<le> split_index then None
      else if list_ex (\<lambda>p. length p \<noteq> dl) new_peaks then None
      else
      let (new_left, new_height) = new_coords ! split_index in
      case checked_pow k new_height of None \<Rightarrow> None | Some cap \<Rightarrow>
      case checked_add new_left cap of None \<Rightarrow> None | Some limit \<Rightarrow>
      if boundary_left < new_left \<or> limit \<le> boundary_left then None
      else if new_height < boundary_height then None
      else
      case mountain_skeleton k new_size boundary_left of None \<Rightarrow> None | Some full_skeleton \<Rightarrow>
      if length full_skeleton < new_height then None
      else
      let climb' = take (new_height - boundary_height) (drop boundary_height full_skeleton) in
      if length peak_path \<noteq> length climb' then None
      else
      case reconstruct_inclusion_root h boundary_hash climb' peak_path of None \<Rightarrow> None
      | Some recovered \<Rightarrow>
      if \<not> constant_time_eq recovered (new_peaks ! split_index) then None
      else Some (bag_peaks h (take split_index new_peaks @ left_siblings peak_path @ [boundary_hash]) k,
                 bag_peaks h new_peaks k))"

definition verify_consistency ::
    "hasher \<Rightarrow> u64 \<Rightarrow> u64 \<Rightarrow> u64 \<Rightarrow> digest \<Rightarrow> proof_step list \<Rightarrow> digest list \<Rightarrow> nat \<Rightarrow>
     digest \<Rightarrow> digest \<Rightarrow> bool" where
  "verify_consistency h old_size new_size k boundary_hash peak_path new_peaks split_index
      old_root new_root =
     (case reconstruct_consistency_roots h old_size new_size k boundary_hash peak_path new_peaks
             split_index of
        None \<Rightarrow> False
      | Some (computed_old, computed_new) \<Rightarrow>
          constant_time_eq computed_old old_root \<and> constant_time_eq computed_new new_root)"

section \<open>The old frontier inside the new one\<close>

lemma canon_last_not_dvd:
  assumes "2 \<le> k" "canon k (gs @ [b])" shows "\<not> k ^ Suc b dvd hsum k (gs @ [b])"
proof
  assume dvd: "k ^ Suc b dvd hsum k (gs @ [b])"
  have c: "count_list gs h + count_list [b] h < k" for h
    using assms(2) by (simp add: canon_def count_list_append)
  have "weak_canon k gs b"
    using assms(2) by (auto simp: canon_def weak_canon_def intro: le_less_trans [OF le_add1 c])
  from weak_canon_merge [OF assms(1) this _ dvd] obtain hs where "gs = hs @ replicate (k - 1) b"
    by auto
  then have "count_list gs b = count_list hs b + (k - 1)"
    by (simp only: count_list_append_replicate if_True refl)
  with c [of b] assms(1) show False by simp
qed

definition tail_heights :: "nat \<Rightarrow> nat \<Rightarrow> nat \<Rightarrow> nat \<Rightarrow> nat list" where
  "tail_heights k i b t = concat (map (\<lambda>u. replicate (i div k ^ u mod k) u) (rev [b..<t])) @ [b]"

lemma tail_heights_simps:
  "tail_heights k i b b = [b]"
  "b \<le> t \<Longrightarrow> tail_heights k i b (Suc t) = replicate (i div k ^ t mod k) t @ tail_heights k i b t"
  by (simp_all add: tail_heights_def)

definition level_coords :: "nat \<Rightarrow> nat \<Rightarrow> nat \<Rightarrow> coord list" where
  "level_coords k i u =
     map (\<lambda>j. (i div k ^ Suc u * k ^ Suc u + j * k ^ u, u)) [0..<i div k ^ u mod k]"

lemma tail_coords:
  assumes "k ^ b dvd i" "b \<le> t"
  shows "coords_of k (i div k ^ t * k ^ t) (tail_heights k i b t)
      = concat (map (level_coords k i) (rev [b..<t])) @ [(i, b)]"
    and "i div k ^ t * k ^ t + hsum k (tail_heights k i b t) = i + k ^ b"
  using assms(2)
proof (induction t rule: dec_induct)
  case base
  {
    case 1 show ?case using assms(1) by (simp add: tail_heights_simps)
  next
    case 2 show ?case using assms(1) by (simp add: tail_heights_simps)
  }
next
  case (step t)
  {
    case 1
    have "coords_of k (i div k ^ Suc t * k ^ Suc t + hsum k (replicate (i div k ^ t mod k) t))
        (tail_heights k i b t) = concat (map (level_coords k i) (rev [b..<t])) @ [(i, b)]"
      using step.IH(1) digit_offset [of i k t] by simp
    moreover have "coords_of k (i div k ^ Suc t * k ^ Suc t) (replicate (i div k ^ t mod k) t)
        = level_coords k i t"
      by (simp add: coords_of_replicate level_coords_def del: power_Suc)
    ultimately show ?case using step.hyps
      by (simp add: tail_heights_simps coords_of_append del: power_Suc)
  next
    case 2
    show ?case using step.IH(2) step.hyps digit_offset [of i k t]
      by (simp add: tail_heights_simps del: power_Suc)
  }
qed

lemma tail_heights_le: "x \<in> set (tail_heights k i b t) \<Longrightarrow> b \<le> t \<Longrightarrow> b \<le> x \<and> x \<le> t"
  by (auto simp: tail_heights_def split: if_splits)

lemma count_tail_heights:
  assumes "b \<le> t"
  shows "count_list (tail_heights k i b t) x =
    (if b \<le> x \<and> x < t then i div k ^ x mod k else 0) + (if x = b then 1 else 0)"
  using assms
proof (induction t rule: dec_induct)
  case (step t)
  then show ?case
    by (auto simp: tail_heights_simps count_list_append count_list_append_replicate [of "[]", simplified])
qed (simp add: tail_heights_simps)

lemma sorted_ge_replicate: "sorted_wrt (\<ge>) (replicate m (x :: nat))"
  by (induction m) auto

lemma sorted_tail_heights: "b \<le> t \<Longrightarrow> sorted_wrt (\<ge>) (tail_heights k i b t)"
proof (induction t rule: dec_induct)
  case (step t)
  then show ?case using tail_heights_le [of _ k i b t]
    by (auto simp: tail_heights_simps sorted_wrt_append sorted_ge_replicate)
qed (simp add: tail_heights_simps)

lemma canon_prefix:
  assumes c: "canon k (xs @ t # ys)" and bt: "b \<le> t" and k: "2 \<le> k"
    and dig: "b < t \<Longrightarrow> i div k ^ b mod k + 1 < k"
  shows "canon k (xs @ tail_heights k i b t)"
  unfolding canon_def
proof (intro conjI allI)
  have ge: "t \<le> x" if "x \<in> set xs" for x using c that by (simp add: canon_def sorted_wrt_append)
  have "y \<le> x" if "x \<in> set xs" "y \<in> set (tail_heights k i b t)" for x y
    using ge [OF that(1)] tail_heights_le [OF that(2) bt] by simp
  then show "sorted_wrt (\<ge>) (xs @ tail_heights k i b t)"
    using c sorted_tail_heights [OF bt] by (simp add: canon_def sorted_wrt_append)
  fix x
  have "count_list xs x + count_list (t # ys) x < k" using c by (simp add: canon_def count_list_append)
  then have cnt: "count_list xs x + (if x = t then 1 else 0) < k" by (auto split: if_splits)
  have small: "count_list xs x = 0" if "x < t"
    using ge that by (meson count_list_0_iff not_less)
  have "i div k ^ x mod k < k" using k by simp
  with cnt small dig bt show "count_list (xs @ tail_heights k i b t) x < k"
    by (cases "x < t"; cases "x = b") (auto simp: count_list_append count_tail_heights [OF bt] tail_heights_simps)
qed

text \<open>
  The frontier of the old size is the new frontier up to the mountain of the boundary, the
  children left of the boundary's path in that mountain, and the boundary block.
\<close>

lemma frontier_prefix:
  assumes k: "2 \<le> k" and n: "n < u64_limit" and mn: "0 < m" "m < n"
  obtains bl bh j l t where
    "frontier_for_size m k \<noteq> []" "last (frontier_for_size m k) = (bl, bh)"
    "find_block k bl 0 (frontier_for_size n k) = Some (j, l, t)"
    "j < length (frontier_for_size n k)" "frontier_for_size n k ! j = (l, t)"
    "l \<le> bl" "bl < l + k ^ t" "k ^ t dvd l" "l + k ^ t \<le> n" "bh \<le> t" "k ^ bh dvd bl"
    "bl + k ^ bh = m"
    "frontier_for_size m k = take j (frontier_for_size n k)
       @ concat (map (level_coords k bl) (rev [bh..<t])) @ [(bl, bh)]"
proof -
  have ml: "m < u64_limit" using mn n by simp
  obtain hs where hs: "frontier_for_size m k = coords_of k 0 hs" "canon k hs" "hsum k hs = m"
    using frontier_canon [OF k ml] by metis
  then have "hs \<noteq> []" using mn by auto
  then obtain gs bh where gs: "hs = gs @ [bh]" by (metis append_butlast_last_id)
  define bl where "bl = hsum k gs"
  have last: "last (frontier_for_size m k) = (bl, bh)" "frontier_for_size m k \<noteq> []"
    by (simp_all add: hs gs coords_of_append bl_def)
  have bm: "bl + k ^ bh = m" using hs(3) gs by (simp add: bl_def)
  have bdvd: "k ^ bh dvd bl"
    using hs(2) unfolding gs bl_def canon_def by (intro canon_dvd) simp
  obtain hs' where hs': "frontier_for_size n k = coords_of k 0 hs'" "canon k hs'" "hsum k hs' = n"
    using frontier_canon [OF k n] by metis
  have "bl < n" using bm mn by linarith
  then obtain j l t where blk: "find_block k bl 0 (frontier_for_size n k) = Some (j, l, t)"
    "j < length (frontier_for_size n k)" "frontier_for_size n k ! j = (l, t)"
    "l \<le> bl" "bl < l + k ^ t" "k ^ t dvd l" "l + k ^ t \<le> n"
    using find_block_frontier [OF k n, of bl] by metis
  have j: "j < length hs'" and lt: "l = hsum k (take j hs')" "t = hs' ! j"
    using blk(2,3) hs'(1) by (simp_all add: nth_coords_of)
  have split: "hs' = take j hs' @ t # drop (Suc j) hs'" using j lt(2) by (simp add: id_take_nth_drop)
  have bt: "bh \<le> t"
  proof (rule ccontr)
    assume "\<not> bh \<le> t"
    then have lt': "Suc t \<le> bh" by simp
    then have "k ^ t dvd bl" using bdvd by (meson dvd_trans le_imp_power_dvd Suc_leD)
    then have "bl = l" using block_of_index [OF blk(6,4,5)] by simp
    have "canon k (t # drop (Suc j) hs')" using hs'(2) split canon_append2 by metis
    then have "hsum k (t # drop (Suc j) hs') < k ^ Suc t" by (rule canon_bound [OF k])
    moreover have "n = l + hsum k (t # drop (Suc j) hs')"
      using hs'(3) lt(1) by (subst (asm) split) simp
    moreover have "k ^ Suc t \<le> k ^ bh" using k lt' by (intro power_increasing) simp_all
    ultimately show False using bm mn \<open>bl = l\<close> by linarith
  qed
  have left: "bl div k ^ t * k ^ t = l" by (rule block_of_index [OF blk(6,4,5)])
  let ?hs = "take j hs' @ tail_heights k bl bh t"
  have coords: "coords_of k 0 ?hs = take j (frontier_for_size n k)
       @ concat (map (level_coords k bl) (rev [bh..<t])) @ [(bl, bh)]"
  proof -
    have "coords_of k 0 hs' = coords_of k 0 (take j hs') @ coords_of k l (t # drop (Suc j) hs')"
      using lt(1) coords_of_append [of k 0 "take j hs'" "t # drop (Suc j) hs'"]
      unfolding split [symmetric] by simp
    then have "take j (frontier_for_size n k) = coords_of k 0 (take j hs')"
      using hs'(1) j by simp
    then show ?thesis using tail_coords(1) [OF bdvd bt] left lt(1) by (simp add: coords_of_append)
  qed
  have sum: "hsum k ?hs = m" using tail_coords(2) [OF bdvd bt] left lt(1) bm by simp
  have dig: "bl div k ^ bh mod k + 1 < k" if "bh < t"
  proof -
    have "bl div k ^ bh mod k + 1 \<noteq> k"
    proof
      assume eq: "bl div k ^ bh mod k + 1 = k"
      have "bl div k ^ bh + 1 = bl div k ^ bh div k * k + (bl div k ^ bh mod k + 1)" by simp
      then have "k dvd bl div k ^ bh + 1" unfolding eq by simp
      then have "k * k ^ bh dvd (bl div k ^ bh + 1) * k ^ bh" by (rule mult_dvd_mono) simp
      moreover have "(bl div k ^ bh + 1) * k ^ bh = m" using bdvd bm by (simp add: algebra_simps)
      ultimately have "k ^ Suc bh dvd m" by simp
      then show False using canon_last_not_dvd [OF k] hs(2,3) gs by metis
    qed
    moreover have "bl div k ^ bh mod k < k" using k by simp
    ultimately show ?thesis by linarith
  qed
  have canon: "canon k ?hs"
    using hs'(2) dig bt k by (intro canon_prefix [where ys = "drop (Suc j) hs'"]) (simp_all flip: split)
  show thesis
    using frontier_unique [OF k ml canon sum] coords last blk bt bdvd bm by (intro that) simp_all
qed

section \<open>Completeness\<close>

lemma left_siblings_hpath:
  assumes "0 < k"
  shows "left_siblings (hpath h k f i b t)
    = fdigs h k f (concat (map (level_coords k i) (rev [b..<t])))"
proof -
  have "take (min (ps_position s) (length (ps_siblings s))) (ps_siblings s) = fdigs h k f (level_coords k i u)"
    if "s = hstep h k f i u" for s u
  proof -
    let ?d = "i div k ^ u mod k"
    have d: "?d < k" "?d \<le> k - 1" using assms mod_less_divisor [of k "i div k ^ u"] by linarith+
    have "take ?d (remove_nth ?d xs) = take ?d xs" for xs :: "digest list"
      by (cases "?d \<le> length xs") (simp_all add: remove_nth_def)
    then show ?thesis using d that
      by (simp add: hstep_def level_coords_def fdigs_def take_map o_def min_def take_upt del: power_Suc)
  qed
  then have "map (\<lambda>s. take (min (ps_position s) (length (ps_siblings s))) (ps_siblings s))
      (rev (hpath h k f i b t)) = map (fdigs h k f) (map (level_coords k i) (rev [b..<t]))"
    by (simp add: hpath_def rev_map [symmetric])
  moreover have "concat (map (fdigs h k f) xss) = fdigs h k f (concat xss)" for xss
    by (induction xss) (simp_all add: fdigs_def)
  ultimately show ?thesis by (simp only: left_siblings_def)
qed

lemma skeleton_slice:
  assumes "b \<le> t" "length ds = t"
  shows "take (t - b) (drop b (ds @ rest)) = drop b ds"
  using assms by simp

lemma consistency_roots_guarded:
  assumes k: "2 \<le> k" and n: "n < u64_limit" and mn: "0 < m" "m < n"
    and last: "last (frontier_for_size m k) = (bl, bh)" "frontier_for_size m k \<noteq> []"
    and blk: "j < length (frontier_for_size n k)" "frontier_for_size n k ! j = (l, t)"
      "l \<le> bl" "bl < l + k ^ t" "l + k ^ t \<le> n" "bh \<le> t"
  shows "reconstruct_consistency_roots h m n k bd path peaks j =
    (if arity_ok k \<and> width_ok h \<and> length bd = digest_len h
       \<and> length peaks = length (frontier_for_size n k) \<and> list_all (\<lambda>p. length p = digest_len h) peaks
       \<and> length path = t - bh
     then case reconstruct_inclusion_root h bd (drop bh (digit_steps k t (bl - l))) path of
            None \<Rightarrow> None
          | Some recovered \<Rightarrow>
              if recovered \<noteq> peaks ! j then None
              else Some (bag_peaks h (take j peaks @ left_siblings path @ [bd]) k, bag_peaks h peaks k)
     else None)"
proof (cases "arity_ok k")
  case True
  obtain s where s: "mountain_skeleton k n bl = Some (digit_steps k t (bl - l) @ bag_path_steps s j)"
    using mountain_skeleton_at [OF True n blk(1-4)] by blast
  have pow: "checked_pow k t = Some (k ^ t)" "checked_add l (k ^ t) = Some (l + k ^ t)"
    using blk n by (auto intro!: checked_pow_eq checked_add_eq)
  have ex: "list_ex (\<lambda>p. length p \<noteq> digest_len h) peaks \<longleftrightarrow> \<not> list_all (\<lambda>p. length p = digest_len h) peaks"
    by (auto simp: list_ex_iff list_all_iff)
  have w: "digest_len h = 0 \<or> 64 < digest_len h \<longleftrightarrow> \<not> width_ok h" by (auto simp: width_ok_def)
  have g: "\<not> (m = 0 \<or> n \<le> m)" "\<not> length (frontier_for_size n k) \<le> j" "\<not> (bl < l \<or> l + k ^ t \<le> bl)" "\<not> t < bh"
    "length (digit_steps k t (bl - l) @ bag_path_steps s j) < t \<longleftrightarrow> False"
    using mn blk by simp_all
  have sl: "take (t - bh) (drop bh (digit_steps k t (bl - l) @ bag_path_steps s j))
      = drop bh (digit_steps k t (bl - l))" "length (drop bh (digit_steps k t (bl - l))) = t - bh"
    using skeleton_slice [OF blk(6)] by simp_all
  show ?thesis
    unfolding reconstruct_consistency_roots_def Let_def digest_len_def [symmetric] last(1) blk(2) w g ex
      prod.case pow s option.case sl constant_time_eq_iff
    using True last(2) g by simp
next
  case False
  then show ?thesis by (simp add: reconstruct_consistency_roots_def Let_def)
qed

lemma consistency_roots_iff:
  assumes k: "2 \<le> k" and n: "n < u64_limit" and mn: "0 < m" "m < n"
    and last: "last (frontier_for_size m k) = (bl, bh)" "frontier_for_size m k \<noteq> []"
    and blk: "j < length (frontier_for_size n k)" "frontier_for_size n k ! j = (l, t)"
      "l \<le> bl" "bl < l + k ^ t" "l + k ^ t \<le> n" "bh \<le> t"
  shows "reconstruct_consistency_roots h m n k bd path peaks j = Some (r, r') \<longleftrightarrow>
    arity_ok k \<and> width_ok h \<and> length bd = digest_len h
    \<and> length peaks = length (frontier_for_size n k) \<and> list_all (\<lambda>p. length p = digest_len h) peaks
    \<and> map step_shape path = drop bh (digit_steps k t (bl - l))
    \<and> length path \<le> 256 \<and> list_all (step_ok (digest_len h)) path
    \<and> climb h path bd = peaks ! j
    \<and> r = bag_peaks h (take j peaks @ left_siblings path @ [bd]) k \<and> r' = bag_peaks h peaks k"
proof -
  let ?sk = "drop bh (digit_steps k t (bl - l))"
  have len: "map step_shape path = ?sk \<Longrightarrow> length path = t - bh" by (drule arg_cong [where f = length]) simp
  show ?thesis
  proof (cases "reconstruct_inclusion_root h bd ?sk path")
    case None
    have "\<not> (width_ok h \<and> length bd = digest_len h \<and> length path \<le> 256
        \<and> verify_inclusion_path_structure ?sk path \<and> list_all (step_ok (digest_len h)) path)"
      using None reconstruct_inclusion_root_iff [of h bd ?sk path "climb h path bd"] by simp
    then show ?thesis
      unfolding consistency_roots_guarded [OF assms] None using structure_exact [of path ?sk] by auto
  next
    case (Some r0)
    then have r0: "r0 = climb h path bd" "length path \<le> 256"
      "verify_inclusion_path_structure ?sk path" "list_all (step_ok (digest_len h)) path"
      using reconstruct_inclusion_root_iff [of h bd ?sk path r0] by simp_all
    have "length path = t - bh \<longleftrightarrow> map step_shape path = ?sk"
      using len structure_same_length [of path ?sk] r0(3) by auto
    then show ?thesis
      unfolding consistency_roots_guarded [OF assms] Some using r0 by auto
  qed
qed

lemma fdigs_take: "fdigs h k f (take j cs) = take j (fdigs h k f cs)"
  by (simp add: fdigs_def take_map)

lemma consistency_backed:
  assumes b: "backed rd v alg k f g" and k: "arity_ok k" and w: "width_ok (av_hasher v)"
    and n: "n < u64_limit" and mn: "0 < m" "m < n" "n \<le> g" "n \<le> tree_size v gs" "g < u64_limit"
  shows "\<exists>cp. consistency_proof_of rd v alg m n gs k = Inr (Some cp)
    \<and> reconstruct_consistency_roots (av_hasher v) m n k (cp_boundary_hash cp) (cp_peak_path cp)
         (cp_new_peaks cp) (cp_split_index cp)
       = Some (bag_peaks (av_hasher v) (fdigs (av_hasher v) k f (frontier_for_size m k)) k,
               bag_peaks (av_hasher v) (fdigs (av_hasher v) k f (frontier_for_size n k)) k)"
proof -
  let ?h = "av_hasher v"
  have k2: "2 \<le> k" "k \<le> 257" "0 < k" using k by (auto simp: arity_ok_def)
  have fw: "fixed_width ?h" "\<And>i. length (f i) = digest_len ?h" using b by (simp_all add: backed_def)
  obtain bl bh j l t where
    old: "frontier_for_size m k \<noteq> []" "last (frontier_for_size m k) = (bl, bh)" and
    fb: "find_block k bl 0 (frontier_for_size n k) = Some (j, l, t)" and
    blk: "j < length (frontier_for_size n k)" "frontier_for_size n k ! j = (l, t)"
    "l \<le> bl" "bl < l + k ^ t" "k ^ t dvd l" "l + k ^ t \<le> n" "bh \<le> t" and
    bd: "k ^ bh dvd bl" "bl + k ^ bh = m" and
    pre: "frontier_for_size m k = take j (frontier_for_size n k)
       @ concat (map (level_coords k bl) (rev [bh..<t])) @ [(bl, bh)]"
    using frontier_prefix [OF k2(1) n mn(1,2)] by metis
  have start: "get_node_hash rd v alg bl bh k = Inr (pdig ?h k f bl bh)"
    using bd mn by (intro get_node_hash_backed [OF b k2(1) mn(5)]) simp_all
  have left: "bl div k ^ t * k ^ t = l" by (rule block_of_index [OF blk(5,3,4)])
  have bis: "bisect_to_height rd v alg l t bl bh k [] = Inr (rev (hpath ?h k f bl bh t))"
    using bisect_backed [OF b k2(1) mn(5) blk(7), of bl "[]"] left blk(6) mn(3) by simp
  let ?P = "fdigs ?h k f (frontier_for_size n k)"
  have peaks: "get_node_hashes rd v alg k (frontier_for_size n k) = Inr ?P"
    by (rule get_node_hashes_backed [OF b k2(1) mn(3,5)])
  let ?cp = "\<lparr>cp_boundary_hash = pdig ?h k f bl bh, cp_peak_path = hpath ?h k f bl bh t,
     cp_new_peaks = ?P, cp_split_index = j\<rparr>"
  have gen: "consistency_proof_of rd v alg m n gs k = Inr (Some ?cp)"
    using old fb start bis peaks mn blk(7) by (simp add: consistency_proof_of_def Let_def)
  have bb: "bl div k ^ bh * k ^ bh = bl" using bd(1) by simp
  have old_peaks: "take j ?P @ left_siblings (hpath ?h k f bl bh t) @ [pdig ?h k f bl bh]
      = fdigs ?h k f (frontier_for_size m k)"
    unfolding left_siblings_hpath [OF k2(3)] pre by (simp add: fdigs_take fdigs_single)
  have "reconstruct_consistency_roots ?h m n k (pdig ?h k f bl bh) (hpath ?h k f bl bh t) ?P j
      = Some (bag_peaks ?h (fdigs ?h k f (frontier_for_size m k)) k, bag_peaks ?h ?P k)"
    unfolding consistency_roots_iff [OF k2(1) n mn(1,2) old(2,1) blk(1-4,6,7)]
  proof (intro conjI)
    show "length (pdig ?h k f bl bh) = digest_len ?h" by (rule length_pdig [OF fw])
    show "list_all (\<lambda>p. length p = digest_len ?h) ?P"
      using length_pdig [OF fw] by (auto simp: list_all_iff fdigs_def)
    show "map step_shape (hpath ?h k f bl bh t) = drop bh (digit_steps k t (bl - l))"
      by (rule hpath_shape [OF k2(3) blk(5,3,4)])
    show "list_all (step_ok (digest_len ?h)) (hpath ?h k f bl bh t)" by (rule hpath_ok [OF k2(1,2) fw])
    have "t < 64" using blk(6) n by (intro power_less_limit [OF k2(1)]) simp
    then show "length (hpath ?h k f bl bh t) \<le> 256" by (simp add: hpath_def)
    show "climb ?h (hpath ?h k f bl bh t) (pdig ?h k f bl bh) = ?P ! j"
      using hpath_climb [OF k2(3) blk(7), of ?h f bl] left bb blk(1,2) by (simp add: nth_fdigs)
  qed (simp_all add: k w old_peaks)
  with gen show ?thesis by (intro exI [of _ ?cp]) simp
qed

lemma consistency_sound:
  assumes k: "arity_ok k" and n: "n < u64_limit" and mn: "0 < m" "m < n"
    and fw: "fixed_width h" "\<And>i. length (f i) = digest_len h"
    and split: "find_block k (fst (last (frontier_for_size m k))) 0 (frontier_for_size n k) = Some (j, l, t)"
    and acc: "reconstruct_consistency_roots h m n k bd path peaks j =
        Some (r, bag_peaks h (fdigs h k f (frontier_for_size n k)) k)"
    and shape: "bag_shape (length (frontier_for_size n k)) k = Some s"
    and last: "last (frontier_for_size m k) = (bl, bh)"
  shows "r = bag_peaks h (fdigs h k f (frontier_for_size m k)) k
    \<or> (\<exists>(cs, ds) \<in> set (bag_pairs h s peaks (fdigs h k f (frontier_for_size n k))). confused h cs ds)
    \<or> (\<exists>(cs, ds) \<in> set (zip (climb_children h path bd)
          (climb_children h (hpath h k f bl bh t) (pdig h k f bl bh))). confused h cs ds)"
proof -
  let ?P = "fdigs h k f (frontier_for_size n k)"
  have k2: "2 \<le> k" "k \<le> 257" "0 < k" using k by (auto simp: arity_ok_def)
  obtain j' l' t' where
    old: "frontier_for_size m k \<noteq> []" and
    fb: "find_block k bl 0 (frontier_for_size n k) = Some (j', l', t')" and
    blk: "j' < length (frontier_for_size n k)" "frontier_for_size n k ! j' = (l', t')"
    "l' \<le> bl" "bl < l' + k ^ t'" "k ^ t' dvd l'" "l' + k ^ t' \<le> n" "bh \<le> t'" and
    bd: "k ^ bh dvd bl" and
    pre: "frontier_for_size m k = take j' (frontier_for_size n k)
       @ concat (map (level_coords k bl) (rev [bh..<t'])) @ [(bl, bh)]"
    using frontier_prefix [OF k2(1) n mn] last by (metis Pair_inject)
  have eq: "j' = j" "l' = l" "t' = t" using fb split last by simp_all
  note iff = consistency_roots_iff [OF k2(1) n mn last old blk(1-4,6,7), unfolded eq]
  have a: "length peaks = length ?P" "map step_shape path = drop bh (digit_steps k t (bl - l))"
    "list_all (step_ok (digest_len h)) path" "climb h path bd = peaks ! j"
    "r = bag_peaks h (take j peaks @ left_siblings path @ [bd]) k" "bag_peaks h peaks k = bag_peaks h ?P k"
    using acc unfolding iff by simp_all
  consider "peaks = ?P" | "\<exists>(cs, ds) \<in> set (bag_pairs h s peaks ?P). confused h cs ds"
    using bag_peaks_binding [OF k2(1) a(1) _ a(6), of s] shape a(1) by auto
  then show ?thesis
  proof cases
    case 1
    have left: "bl div k ^ t * k ^ t = l" using block_of_index [OF blk(5,3,4)] eq by simp
    have bb: "bl div k ^ bh * k ^ bh = bl" using bd by simp
    have "climb h (hpath h k f bl bh t) (pdig h k f bl bh) = climb h path bd"
      using hpath_climb [OF k2(3) blk(7), of h f bl] left bb blk(1,2) a(4) 1 eq by (simp add: nth_fdigs)
    moreover have "map step_shape path = map step_shape (hpath h k f bl bh t)"
      using hpath_shape [OF k2(3) blk(5,3,4), of h f bh] a(2) eq by simp
    ultimately consider "bd = pdig h k f bl bh" "path = hpath h k f bl bh t"
      | "\<exists>(cs, ds) \<in> set (zip (climb_children h path bd)
          (climb_children h (hpath h k f bl bh t) (pdig h k f bl bh))). confused h cs ds"
      using climb_binding [of path "hpath h k f bl bh t" "digest_len h" h bd "pdig h k f bl bh"] a(3)
      by auto
    then show ?thesis
    proof cases
      case 1
      have "take j ?P @ left_siblings (hpath h k f bl bh t) @ [pdig h k f bl bh]
          = fdigs h k f (frontier_for_size m k)"
        unfolding left_siblings_hpath [OF k2(3)] pre eq by (simp add: fdigs_take fdigs_single)
      then show ?thesis using a(5) 1 \<open>peaks = ?P\<close> by simp
    qed simp
  qed simp
qed

section \<open>Properties\<close>



text \<open>
  C7. Consistency is sound: a proof accepted against the member root of a log of \<open>n\<close> leaves
  fixes the old root as the member root of that log's first \<open>m\<close> leaves, or it exhibits, in the
  bag or on the boundary's path, two child lists the node fold does not tell apart.
\<close>

theorem consistency_soundness:
  assumes "fixed_width h" "\<And>i. length (f i) = digest_len h" "n < u64_limit"
    and "verify_consistency h m n k boundary path peaks j old_root
           (bag_peaks h (fdigs h k f (frontier_for_size n k)) k)"
    and "bag_shape (length (frontier_for_size n k)) k = Some s"
    and "last (frontier_for_size m k) = (bl, bh)" "frontier_for_size n k ! j = (l, t)"
  shows "old_root = bag_peaks h (fdigs h k f (frontier_for_size m k)) k
    \<or> (\<exists>(cs, ds) \<in> set (bag_pairs h s peaks (fdigs h k f (frontier_for_size n k))). confused h cs ds)
    \<or> (\<exists>(cs, ds) \<in> set (zip (climb_children h path boundary)
          (climb_children h (hpath h k f bl bh t) (pdig h k f bl bh))). confused h cs ds)"
proof -
  obtain r where acc: "reconstruct_consistency_roots h m n k boundary path peaks j
      = Some (old_root, bag_peaks h (fdigs h k f (frontier_for_size n k)) k)"
    using assms(4) by (auto simp: verify_consistency_def split: option.splits)
  then have k: "arity_ok k" and mn: "0 < m" "m < n" and j: "j < length (frontier_for_size n k)"
    and blk: "l \<le> bl" "bl < l + k ^ t"
    using assms(6,7) by (auto simp: reconstruct_consistency_roots_def Let_def checked_pow_def checked_add_def
        split: if_splits option.splits)
  have k2: "2 \<le> k" using k by (simp add: arity_ok_def)
  obtain hs where hs: "frontier_for_size n k = coords_of k 0 hs"
    using frontier_canon [OF k2 assms(3)] by metis
  have "find_block k bl 0 (frontier_for_size n k) = Some (j, l, t)"
    using find_block_coords [of j hs k bl 0 0] j blk assms(7) hs by (simp add: in_block_def)
  then show ?thesis
    using consistency_sound [OF k assms(3) mn assms(1,2) _ acc assms(5,6), of l t] assms(6) by simp
qed

lemma toy_frontiers:
  "frontier_for_size 3 2 = [(0, 1), (2, 0)]" "frontier_for_size 1 2 = [(0, 0)]"
  by (simp_all add: frontier_for_size_def frontier_loop.simps grow_cap.simps checked_mul_def u64_limit_def)

lemma toy_frontier_one: "frontier_for_size (Suc 0) 2 = [(0, 0)]"
  using toy_frontiers(2) by simp

lemma toy_bag_shape: "bag_shape 2 2 = Some (Bag [Peak 0, Peak 1])"
  by (simp add: bag_shape_def fold_frontier_def fold_loop.simps upt_rec)

theorem consistency_soundness_witness:
  "bag_peaks toy_hasher [toy_leaf 0] 2 = bag_peaks toy_hasher (fdigs toy_hasher 2 toy_leaf (frontier_for_size 1 2)) 2
    \<or> (\<exists>(cs, ds) \<in> set (bag_pairs toy_hasher (Bag [Peak 0, Peak 1])
          (fdigs toy_hasher 2 toy_leaf [(0, 1), (2, 0)])
          (fdigs toy_hasher 2 toy_leaf (frontier_for_size 3 2))). confused toy_hasher cs ds)
    \<or> (\<exists>(cs, ds) \<in> set (zip (climb_children toy_hasher (hpath toy_hasher 2 toy_leaf 0 0 1) (toy_leaf 0))
          (climb_children toy_hasher (hpath toy_hasher 2 toy_leaf 0 0 1) (pdig toy_hasher 2 toy_leaf 0 0))).
          confused toy_hasher cs ds)"
proof (rule consistency_soundness [where l = 0 and t = 1 and bl = 0 and bh = 0 and n = 3 and j = 0])
  show "verify_consistency toy_hasher 1 3 2 (toy_leaf 0) (hpath toy_hasher 2 toy_leaf 0 0 1)
     (fdigs toy_hasher 2 toy_leaf [(0, 1), (2, 0)]) 0 (bag_peaks toy_hasher [toy_leaf 0] 2)
     (bag_peaks toy_hasher (fdigs toy_hasher 2 toy_leaf (frontier_for_size 3 2)) 2)"
  proof -
    have 1: "length (toy_leaf i) = digest_len toy_hasher" for i
      by (simp add: toy_leaf_def toy_hasher_digest_len)
    have 2: "list_all (\<lambda>p. length p = digest_len toy_hasher) (fdigs toy_hasher 2 toy_leaf cs)" for cs
      using length_pdig [of toy_hasher toy_leaf, OF toy_hasher_fixed_width 1]
      by (auto simp: fdigs_def list_all_iff)
    have "reconstruct_consistency_roots toy_hasher 1 3 2 (toy_leaf 0) (hpath toy_hasher 2 toy_leaf 0 0 1)
        (fdigs toy_hasher 2 toy_leaf [(0, 1), (2, 0)]) 0
      = Some (bag_peaks toy_hasher [toy_leaf 0] 2,
              bag_peaks toy_hasher (fdigs toy_hasher 2 toy_leaf (frontier_for_size 3 2)) 2)"
    proof (subst consistency_roots_iff [where bl = 0 and bh = 0 and l = 0 and t = 1])
      show "arity_ok 2 \<and> width_ok toy_hasher \<and> length (toy_leaf 0) = digest_len toy_hasher
        \<and> length (fdigs toy_hasher 2 toy_leaf [(0, 1), (2, 0)]) = length (frontier_for_size 3 2)
        \<and> list_all (\<lambda>p. length p = digest_len toy_hasher) (fdigs toy_hasher 2 toy_leaf [(0, 1), (2, 0)])
        \<and> map step_shape (hpath toy_hasher 2 toy_leaf 0 0 1) = drop 0 (digit_steps 2 1 (0 - 0))
        \<and> length (hpath toy_hasher 2 toy_leaf 0 0 1) \<le> 256
        \<and> list_all (step_ok (digest_len toy_hasher)) (hpath toy_hasher 2 toy_leaf 0 0 1)
        \<and> climb toy_hasher (hpath toy_hasher 2 toy_leaf 0 0 1) (toy_leaf 0)
            = fdigs toy_hasher 2 toy_leaf [(0, 1), (2, 0)] ! 0
        \<and> bag_peaks toy_hasher [toy_leaf 0] 2 = bag_peaks toy_hasher
            (take 0 (fdigs toy_hasher 2 toy_leaf [(0, 1), (2, 0)])
              @ left_siblings (hpath toy_hasher 2 toy_leaf 0 0 1) @ [toy_leaf 0]) 2
        \<and> bag_peaks toy_hasher (fdigs toy_hasher 2 toy_leaf (frontier_for_size 3 2)) 2
            = bag_peaks toy_hasher (fdigs toy_hasher 2 toy_leaf [(0, 1), (2, 0)]) 2"
        using hpath_climb [of 2 0 1 toy_hasher toy_leaf 0] hpath_shape [of 2 1 0 0 toy_hasher toy_leaf 0]
          hpath_ok [of 2 toy_hasher toy_leaf 0 0 1, OF _ _ toy_hasher_fixed_width 1]
        by (simp add: arity_ok_def toy_hasher_width_ok 1 2 toy_frontiers nth_fdigs
            left_siblings_def hpath_def hstep_def)
    qed (simp_all add: u64_limit_def toy_frontiers toy_frontier_one)
    then show ?thesis by (simp add: verify_consistency_def)
  qed
  show "bag_shape (length (frontier_for_size 3 2)) 2 = Some (Bag [Peak 0, Peak 1])"
    unfolding toy_frontiers using toy_bag_shape by (simp add: numeral_2_eq_2)
qed (simp_all add: toy_hasher_fixed_width toy_frontiers toy_frontier_one u64_limit_def, simp add: toy_leaf_def toy_hasher_digest_len)

end
