(* ===== verification/Poly_Root.thy ===== *)
theory Poly_Root
  imports Poly_Nullruns Cml_Consistency
begin

text \<open>
  The binding root and the coupling proofs of \<^verbatim>\<open>polydigest/src/root.rs\<close>.  A verifier may fail
  to return through the null runs, so its verdict is optional: \<open>None\<close> is a call that does not
  return.  \<^verbatim>\<open>binary_search_by_key\<close> is the association-list lookup, which agrees with it on the
  lists it is used on, those sorted by algorithm.
\<close>

section \<open>Definitions\<close>

definition combined_root ::
    "hasher \<Rightarrow> (alg_id \<times> digest) list \<Rightarrow> timeline \<Rightarrow> u64 \<Rightarrow> u64 \<Rightarrow> digest option" where
  "combined_root h member_roots alg_epochs n arity =
     (case null_runs_are_trivial alg_epochs n arity of
        None \<Rightarrow> None
      | Some trivial \<Rightarrow>
          let children = map snd member_roots
          in if trivial then Some (nary_mr h children)
             else map_option (\<lambda>bs. nary_mr h (children @ [hs_hash h bs]))
               (serialize_null_runs alg_epochs n arity))"

definition strictly_sorted :: "(alg_id \<times> 'a) list \<Rightarrow> bool" where
  "strictly_sorted xs \<longleftrightarrow> \<not> list_ex (\<lambda>(a, b). fst a \<ge> fst b) (zip xs (tl xs))"

fun committed_epochs_loop :: "u64 \<Rightarrow> u64 \<Rightarrow> epochs \<Rightarrow> bool" where
  "committed_epochs_loop n last_end [] \<longleftrightarrow> True"
| "committed_epochs_loop n last_end ((start, end') # rest) \<longleftrightarrow>
     (if start > end' \<or> start < last_end then False
      else if end' = u64_max
      then (if rest \<noteq> [] \<or> start > n then False else committed_epochs_loop n end' rest)
      else if end' > n then False
      else committed_epochs_loop n end' rest)"

definition validate_committed_epochs :: "timeline \<Rightarrow> u64 \<Rightarrow> bool" where
  "validate_committed_epochs alg_epochs n \<longleftrightarrow>
     strictly_sorted alg_epochs
     \<and> list_all (\<lambda>(_, epochs). epochs \<noteq> [] \<and> committed_epochs_loop n 0 epochs) alg_epochs"

definition committed_active_at :: "timeline \<Rightarrow> alg_id \<Rightarrow> u64 \<Rightarrow> bool option" where
  "committed_active_at alg_epochs alg index =
     map_option (list_ex (\<lambda>(start, end'). start \<le> index \<and> index < end')) (map_of alg_epochs alg)"

definition committed_active_algs :: "timeline \<Rightarrow> u64 \<Rightarrow> alg_id list" where
  "committed_active_algs alg_epochs n =
     (if n = 0 then []
      else let last' = n - 1
           in map fst (filter (\<lambda>(_, epochs). list_ex (\<lambda>(start, end'). start \<le> last' \<and> last' < end') epochs)
                alg_epochs))"

record verifier_config =
  vc_max_active_algorithms :: nat
  vc_max_algorithms :: nat
  vc_max_epochs_per_algorithm :: nat

definition default_config :: verifier_config where
  "default_config = \<lparr>vc_max_active_algorithms = 8, vc_max_algorithms = 64,
     vc_max_epochs_per_algorithm = 1024\<rparr>"

record coupling_proof =
  cp_active_roots :: "(alg_id \<times> digest) list"
  cp_alg_epochs :: timeline

definition coupling_authenticate ::
    "coupling_proof \<Rightarrow> hasher \<Rightarrow> u64 \<Rightarrow> u64 \<Rightarrow> digest \<Rightarrow> alg_id list \<Rightarrow> verifier_config \<Rightarrow> bool option" where
  "coupling_authenticate cp h n arity expected_root expected_algs cfg =
     (if n = 0 then Some False
      else if \<not> arity_ok arity then Some False
      else if length (cp_active_roots cp) > vc_max_active_algorithms cfg then Some False
      else if length (cp_alg_epochs cp) > vc_max_algorithms cfg then Some False
      else if list_ex (\<lambda>(_, e). length e > vc_max_epochs_per_algorithm cfg) (cp_alg_epochs cp) then Some False
      else if length (cp_active_roots cp) \<noteq> length expected_algs then Some False
      else if list_ex (\<lambda>((alg, _), expected). alg \<noteq> expected) (zip (cp_active_roots cp) expected_algs)
      then Some False
      else if list_ex (\<lambda>(_, r). length r > 64) (cp_active_roots cp) then Some False
      else if \<not> strictly_sorted (cp_active_roots cp) then Some False
      else if \<not> validate_committed_epochs (cp_alg_epochs cp) n then Some False
      else let derived = committed_active_algs (cp_alg_epochs cp) n
           in if length derived \<noteq> length (cp_active_roots cp)
                \<or> list_ex (\<lambda>(d, (alg, _)). d \<noteq> alg) (zip derived (cp_active_roots cp))
              then Some False
              else map_option (\<lambda>computed. constant_time_eq computed expected_root)
                (combined_root h (cp_active_roots cp) (cp_alg_epochs cp) n arity))"

definition coupling_verify ::
    "coupling_proof \<Rightarrow> hasher \<Rightarrow> alg_id \<Rightarrow> u64 \<Rightarrow> u64 \<Rightarrow> digest \<Rightarrow> alg_id list \<Rightarrow> verifier_config \<Rightarrow>
     digest option option" where
  "coupling_verify cp h target n arity root expected_algs cfg =
     map_option (\<lambda>ok. if \<not> ok then None
         else map_option snd (find (\<lambda>(alg, _). alg = target) (cp_active_roots cp)))
       (coupling_authenticate cp h n arity root expected_algs cfg)"

definition verify_inclusion_with_coupling ::
    "hasher \<Rightarrow> alg_id \<Rightarrow> digest \<Rightarrow> u64 \<Rightarrow> u64 \<Rightarrow> u64 \<Rightarrow> skeleton_step list \<Rightarrow> proof_step list \<Rightarrow>
     coupling_proof \<Rightarrow> digest \<Rightarrow> alg_id list \<Rightarrow> verifier_config \<Rightarrow> bool option" where
  "verify_inclusion_with_coupling h alg leaf_hash index n arity sk path cp root expected_algs cfg =
     map_option (\<lambda>res. case res of
         None \<Rightarrow> False
       | Some raw_root \<Rightarrow>
           (case committed_active_at (cp_alg_epochs cp) alg index of
              Some False \<Rightarrow>
                if \<not> constant_time_eq leaf_hash (hs_null h) then False
                else verify_inclusion h leaf_hash sk path raw_root
            | Some True \<Rightarrow> verify_inclusion h leaf_hash sk path raw_root
            | None \<Rightarrow> False))
       (coupling_verify cp h alg n arity root expected_algs cfg)"

definition verify_inactivity_with_coupling ::
    "hasher \<Rightarrow> alg_id \<Rightarrow> u64 \<Rightarrow> u64 \<Rightarrow> u64 \<Rightarrow> skeleton_step list \<Rightarrow> proof_step list \<Rightarrow>
     coupling_proof \<Rightarrow> digest \<Rightarrow> alg_id list \<Rightarrow> verifier_config \<Rightarrow> bool option" where
  "verify_inactivity_with_coupling h alg index n arity sk path cp root expected_algs cfg =
     (if n \<le> index then Some False
      else map_option (\<lambda>ok.
        if \<not> ok then False
        else if committed_active_at (cp_alg_epochs cp) alg index \<noteq> Some False then False
        else case find (\<lambda>(id', _). id' = alg) (cp_active_roots cp) of
               Some (_, raw_root) \<Rightarrow> verify_inclusion h (hs_null h) sk path raw_root
             | None \<Rightarrow> path = [])
        (coupling_authenticate cp h n arity root expected_algs cfg))"

record audit_payload =
  ap_log_id :: bytes
  ap_tree_size :: u64
  ap_active_algs :: "alg_id list"
  ap_combined_roots :: "(alg_id \<times> digest) list"
  ap_alg_epochs :: timeline

section \<open>Timelines\<close>

lemma strictly_sorted_Cons:
  "strictly_sorted (x # xs) \<longleftrightarrow> (xs = [] \<or> fst x < fst (hd xs)) \<and> strictly_sorted xs"
  by (cases xs) (auto simp: strictly_sorted_def)

lemma strictly_sorted_keys: "strictly_sorted xs \<longleftrightarrow> bt_keys xs"
proof (induction xs)
  case (Cons x xs)
  have hd: "(\<forall>y \<in> set xs. fst x < fst y) \<longleftrightarrow> xs = [] \<or> fst x < fst (hd xs)" if "bt_keys xs"
    using that by (cases xs) (auto simp: bt_keys_def)
  then show ?case using Cons unfolding strictly_sorted_Cons by (auto simp: bt_keys_def)
qed (simp add: strictly_sorted_def bt_keys_def)

lemma committed_loop_iff:
  "committed_epochs_loop n b es \<longleftrightarrow> epochs_sorted b es
     \<and> (\<forall>(s, e) \<in> set (butlast es). e \<noteq> u64_max \<and> e \<le> n)
     \<and> (es \<noteq> [] \<longrightarrow> (let (s, e) = last es in if e = u64_max then s \<le> n else e \<le> n))"
  by (induction n b es rule: committed_epochs_loop.induct) (auto simp: Let_def)

text \<open>A committed timeline is valid exactly when it is sorted and every entry is a valid view timeline.\<close>

lemma validate_committed_iff:
  "validate_committed_epochs tml n \<longleftrightarrow> bt_keys tml \<and> (\<forall>(alg, es) \<in> set tml. epochs_valid n es)"
  by (auto simp: validate_committed_epochs_def strictly_sorted_keys list_all_iff epochs_valid_def
      committed_loop_iff)

lemma committed_active_at_active: "committed_active_at tml alg i = map_option (\<lambda>es. active_in es i) (map_of tml alg)"
  by (simp add: committed_active_at_def active_in_def [abs_def])

lemma committed_active_algs_iff:
  "0 < n \<Longrightarrow> committed_active_algs tml n = map fst (filter (\<lambda>(_, es). active_in es (n - 1)) tml)"
  by (simp add: committed_active_algs_def active_in_def Let_def)

lemma lists_agree_iff:
  "\<not> (length xs \<noteq> length ys \<or> list_ex (\<lambda>(d, (alg, _)). d \<noteq> alg) (zip xs ys)) \<longleftrightarrow> xs = map fst ys"
  by (induction xs ys rule: list_induct2') auto

lemma lists_agree_iff':
  "\<not> (length ys \<noteq> length xs \<or> list_ex (\<lambda>((alg, _), d). alg \<noteq> d) (zip ys xs)) \<longleftrightarrow> map fst ys = xs"
  by (auto simp: list_ex_length list_eq_iff_nth_eq case_prod_beta)

section \<open>The combined root\<close>

text \<open>The coverage child and the children of the fold.\<close>

definition coverage :: "hasher \<Rightarrow> timeline \<Rightarrow> u64 \<Rightarrow> u64 \<Rightarrow> digest list" where
  "coverage h tml n k =
     (if null_runs_are_trivial tml n k = Some True then []
      else [hs_hash h (the (serialize_null_runs tml n k))])"

definition root_children :: "hasher \<Rightarrow> (alg_id \<times> digest) list \<Rightarrow> timeline \<Rightarrow> u64 \<Rightarrow> u64 \<Rightarrow> digest list" where
  "root_children h ms tml n k = map snd ms @ coverage h tml n k"

lemma combined_root_children:
  assumes "2 \<le> k" "n \<le> 2 ^ 63"
  shows "combined_root h ms tml n k = Some (nary_mr h (root_children h ms tml n k))"
proof -
  obtain all where "all_null_runs tml n k = Some all" using all_null_runs_spec [OF assms] by blast
  then show ?thesis
    by (simp add: combined_root_def null_runs_are_trivial_def serialize_null_runs_def root_children_def
        coverage_def Let_def)
qed

lemma authenticate_iff:
  "coupling_authenticate cp h n k root algs cfg = Some True \<longleftrightarrow>
     0 < n \<and> arity_ok k
     \<and> length (cp_active_roots cp) \<le> vc_max_active_algorithms cfg
     \<and> length (cp_alg_epochs cp) \<le> vc_max_algorithms cfg
     \<and> (\<forall>(alg, e) \<in> set (cp_alg_epochs cp). length e \<le> vc_max_epochs_per_algorithm cfg)
     \<and> map fst (cp_active_roots cp) = algs
     \<and> (\<forall>(alg, r) \<in> set (cp_active_roots cp). length r \<le> 64)
     \<and> bt_keys (cp_active_roots cp)
     \<and> validate_committed_epochs (cp_alg_epochs cp) n
     \<and> committed_active_algs (cp_alg_epochs cp) n = algs
     \<and> combined_root h (cp_active_roots cp) (cp_alg_epochs cp) n k = Some root"
proof -
  have len: "length (cp_active_roots cp) \<noteq> length algs
      \<or> list_ex (\<lambda>((alg, _), expected). alg \<noteq> expected) (zip (cp_active_roots cp) algs)
      \<longleftrightarrow> map fst (cp_active_roots cp) \<noteq> algs"
    using lists_agree_iff' [of "cp_active_roots cp" algs] by blast
  have der: "length (committed_active_algs (cp_alg_epochs cp) n) \<noteq> length (cp_active_roots cp)
      \<or> list_ex (\<lambda>(d, (alg, _)). d \<noteq> alg) (zip (committed_active_algs (cp_alg_epochs cp) n) (cp_active_roots cp))
      \<longleftrightarrow> committed_active_algs (cp_alg_epochs cp) n \<noteq> map fst (cp_active_roots cp)"
    using lists_agree_iff [of "committed_active_algs (cp_alg_epochs cp) n" "cp_active_roots cp"] by blast
  have two: "(if length (cp_active_roots cp) \<noteq> length algs then Some False
      else if list_ex (\<lambda>((alg, _), expected). alg \<noteq> expected) (zip (cp_active_roots cp) algs)
      then Some False else rest) = (if map fst (cp_active_roots cp) \<noteq> algs then Some False else rest)" for rest
  proof (cases "map fst (cp_active_roots cp) = algs")
    case True
    then show ?thesis using len by auto
  next
    case False
    then show ?thesis using len by (cases "length (cp_active_roots cp) = length algs") simp_all
  qed
  have last': "(map_option (\<lambda>computed. constant_time_eq computed root) c = Some True) \<longleftrightarrow> c = Some root" for c
    by auto
  have wide: "list_ex (\<lambda>(_, r). length r > 64) xs \<longleftrightarrow> \<not> (\<forall>(alg, r) \<in> set xs. length r \<le> 64)"
    for xs :: "(alg_id \<times> digest) list" by (auto simp: list_ex_iff case_prod_beta not_le)
  have eps: "list_ex (\<lambda>(_, e). length e > m) xs \<longleftrightarrow> \<not> (\<forall>(alg, e) \<in> set xs. length e \<le> m)"
    for m and xs :: timeline by (auto simp: list_ex_iff case_prod_beta not_le)
  show ?thesis
    unfolding coupling_authenticate_def two der Let_def wide eps strictly_sorted_keys
    using last' by (auto split: if_splits)
qed

lemma coupling_verify_iff:
  "coupling_verify cp h alg n k root algs cfg = Some (Some r) \<longleftrightarrow>
     coupling_authenticate cp h n k root algs cfg = Some True \<and> map_of (cp_active_roots cp) alg = Some r"
  by (cases "coupling_authenticate cp h n k root algs cfg")
    (auto simp: coupling_verify_def find_alg_eq_map_of split: if_splits)

section \<open>What equal null runs determine\<close>

lemma null_runs_of:
  assumes "2 \<le> k" "n \<le> 2 ^ 63"
  obtains runs where "null_runs_for_alg es n k = Some runs"
    "\<And>i. i < n \<Longrightarrow> active_in es i \<longleftrightarrow> i \<notin> set (concat (map (run_cells k) runs))"
proof -
  obtain runs where r: "null_runs_for_alg es n k = Some runs"
    "concat (map (run_cells k) runs) = filter (\<lambda>i. \<not> active_in es i) [0..<n]"
    using null_runs_spec [OF assms, of es] by blast
  have "active_in es i \<longleftrightarrow> i \<notin> set (concat (map (run_cells k) runs))" if "i < n" for i
    unfolding r(2) using that by simp
  with r(1) that show thesis by blast
qed

lemma runs_in_all:
  assumes "2 \<le> k" "n \<le> 2 ^ 63" "bt_keys tml" "all_null_runs tml n k = Some all"
    and "map_of tml alg = Some es" "null_runs_for_alg es n k = Some runs"
  shows "(alg, runs') \<in> set all \<longleftrightarrow> runs' = runs \<and> runs \<noteq> []"
proof -
  have "(alg, es') \<in> set tml \<longleftrightarrow> es' = es" for es'
    using assms(3,5) bt_keys_distinct [of tml] by (metis map_of_eq_Some_iff option.inject)
  then show ?thesis using all_null_runs_set [OF assms(1,2,4), of alg runs'] assms(6) by auto
qed

lemma same_runs_activity:
  assumes "2 \<le> k" "n \<le> 2 ^ 63" "bt_keys t" "bt_keys u"
    and "all_null_runs t n k = all_null_runs u n k" "i < n"
    and "map_of t alg = Some es" "map_of u alg = Some fs"
  shows "active_in es i = active_in fs i"
proof -
  obtain all where all: "all_null_runs t n k = Some all" "all_null_runs u n k = Some all"
    using all_null_runs_spec [OF assms(1,2)] assms(5) by metis
  obtain r where r: "null_runs_for_alg es n k = Some r"
    "active_in es i \<longleftrightarrow> i \<notin> set (concat (map (run_cells k) r))"
    using null_runs_of [OF assms(1,2), of es] assms(6) by metis
  obtain q where q: "null_runs_for_alg fs n k = Some q"
    "active_in fs i \<longleftrightarrow> i \<notin> set (concat (map (run_cells k) q))"
    using null_runs_of [OF assms(1,2), of fs] assms(6) by metis
  have "runs' = r \<and> r \<noteq> [] \<longleftrightarrow> runs' = q \<and> q \<noteq> []" for runs'
    using runs_in_all [OF assms(1,2,3) all(1) assms(7) r(1)] runs_in_all [OF assms(1,2,4) all(2) assms(8) q(1)]
    by metis
  then have "r = q" by metis
  then show ?thesis using r(2) q(2) by simp
qed

lemma unregistered_fully_active:
  assumes "2 \<le> k" "n \<le> 2 ^ 63" "bt_keys t"
    and "all_null_runs t n k = all_null_runs u n k" "i < n"
    and "map_of t alg = Some es" "map_of u alg = None"
  shows "active_in es i"
proof -
  obtain all where all: "all_null_runs t n k = Some all" "all_null_runs u n k = Some all"
    using all_null_runs_spec [OF assms(1,2)] assms(4) by metis
  obtain r where r: "null_runs_for_alg es n k = Some r"
    "active_in es i \<longleftrightarrow> i \<notin> set (concat (map (run_cells k) r))"
    using null_runs_of [OF assms(1,2), of es] assms(5) by metis
  have "(alg, fs) \<notin> set u" for fs using assms(7) by (auto simp: map_of_eq_None_iff image_iff)
  then have "(alg, r) \<notin> set all" using all_null_runs_set [OF assms(1,2) all(2)] by blast
  then have "r = []" using runs_in_all [OF assms(1,2,3) all(1) assms(6) r(1)] by blast
  then show ?thesis using r(2) by simp
qed

text \<open>Two timelines with the same null runs and the same active algorithms have the same activity.\<close>

lemma same_runs_committed:
  assumes "2 \<le> k" "n \<le> 2 ^ 63" "bt_keys t" "bt_keys u"
    and "all_null_runs t n k = all_null_runs u n k" "i < n"
    and "committed_active_algs t n = committed_active_algs u n"
  shows "committed_active_at t alg i = committed_active_at u alg i"
proof -
  have n: "0 < n" "n - 1 < n" using assms(6) by simp_all
  have act: "map_of t alg = Some es \<Longrightarrow> map_of u alg = None \<Longrightarrow> False"
    if k: "bt_keys t" "bt_keys u" "all_null_runs t n k = all_null_runs u n k"
      "committed_active_algs t n = committed_active_algs u n" for t u es
  proof -
    assume es: "map_of t alg = Some es" and none: "map_of u alg = None"
    have "active_in es (n - 1)"
      by (rule unregistered_fully_active [OF assms(1,2) k(1,3) n(2) es none])
    then have "alg \<in> set (committed_active_algs t n)"
      unfolding committed_active_algs_iff [OF n(1)] using map_of_SomeD [OF es] by force
    then have "alg \<in> set (committed_active_algs u n)" by (simp only: k(4))
    then have "alg \<in> fst ` set u" unfolding committed_active_algs_iff [OF n(1)] by auto
    then show False using none by (auto simp: map_of_eq_None_iff)
  qed
  show ?thesis
  proof (cases "map_of t alg"; cases "map_of u alg")
    fix es fs assume "map_of t alg = Some es" "map_of u alg = Some fs"
    then show ?thesis using same_runs_activity [OF assms(1-6)] by (simp add: committed_active_at_active)
  qed (use act [OF assms(3,4,5,7)] act [OF assms(4,3) assms(5)[symmetric] assms(7)[symmetric]] in
      \<open>auto simp: committed_active_at_active\<close>)
qed

section \<open>Binding of the combined root\<close>

text \<open>The ways two openings of one root can differ: two child lists with one fold, two preimages
  of one coverage child.\<close>

definition fold_clash :: "hasher \<Rightarrow> digest list \<Rightarrow> digest list \<Rightarrow> bool" where
  "fold_clash h cs ds \<longleftrightarrow> cs \<noteq> ds \<and> nary_mr h cs = nary_mr h ds"

definition hash_collision :: "hasher \<Rightarrow> bytes option \<Rightarrow> bytes option \<Rightarrow> bool" where
  "hash_collision h x y \<longleftrightarrow> x \<noteq> y \<and> map_option (hs_hash h) x = map_option (hs_hash h) y"

definition ids_fit :: "timeline \<Rightarrow> bool" where
  "ids_fit tml \<longleftrightarrow> length tml < u64_limit \<and> list_all (\<lambda>(alg, _). alg < u64_limit) tml"

lemma serialize_inj:
  assumes "arity_ok k" "n \<le> 2 ^ 63" "ids_fit t" "ids_fit u"
    and "serialize_null_runs t n k = serialize_null_runs u n k"
  shows "all_null_runs t n k = all_null_runs u n k"
proof -
  have k: "2 \<le> k" "k < u64_limit" using assms(1) by (simp_all add: arity_ok_def u64_limit_def)
  have n: "n < u64_limit" using assms(2) by (simp add: u64_limit_def)
  have rd: "\<exists>all. all_null_runs t n k = Some all
      \<and> Option.bind (serialize_null_runs t n k) read_null_runs = Some (k, n, all)" if "ids_fit t" for t
  proof -
    obtain all where all: "all_null_runs t n k = Some all" using all_null_runs_spec [OF k(1) assms(2)] by blast
    then have "runs_fit all"
      using that by (intro all_null_runs_fit [OF k(1) assms(2) all]) (auto simp: ids_fit_def list_all_iff)
    then show ?thesis using all k(2) n by (simp add: serialize_null_runs_def read_null_runs_bytes)
  qed
  from rd [OF assms(3)] rd [OF assms(4)] assms(5) show ?thesis by auto
qed

lemma coverage_eq:
  assumes "arity_ok k" "n \<le> 2 ^ 63" "ids_fit t" "ids_fit u" "coverage h t n k = coverage h u n k"
  shows "all_null_runs t n k = all_null_runs u n k
    \<or> hash_collision h (serialize_null_runs t n k) (serialize_null_runs u n k)"
proof -
  have k: "2 \<le> k" using assms(1) by (rule arity_ok_ge2)
  obtain all1 where 1: "all_null_runs t n k = Some all1" using all_null_runs_spec [OF k assms(2)] by blast
  obtain all2 where 2: "all_null_runs u n k = Some all2" using all_null_runs_spec [OF k assms(2)] by blast
  show ?thesis
  proof (cases "all1 = []")
    case True
    then have "all2 = []" using assms(5) 1 2 by (auto simp: coverage_def null_runs_are_trivial_def split: if_splits)
    then show ?thesis using 1 2 True by simp
  next
    case False
    then have "all2 \<noteq> []" using assms(5) 1 2 by (auto simp: coverage_def null_runs_are_trivial_def split: if_splits)
    then have "map_option (hs_hash h) (serialize_null_runs t n k) = map_option (hs_hash h) (serialize_null_runs u n k)"
      using assms(5) 1 2 False by (simp add: coverage_def null_runs_are_trivial_def serialize_null_runs_def)
    then show ?thesis using serialize_inj [OF assms(1-4)] by (auto simp: hash_collision_def)
  qed
qed

lemma same_fst_snd: "map fst xs = map fst ys \<Longrightarrow> map snd xs = map snd ys \<Longrightarrow> xs = ys"
  by (metis zip_map_fst_snd)

lemma coupling_binding_core:
  assumes "coupling_authenticate cp h n k root algs cfg = Some True"
    and "coupling_authenticate cq h n k root algs cfg' = Some True"
    and "n \<le> 2 ^ 63" "ids_fit (cp_alg_epochs cp)" "ids_fit (cp_alg_epochs cq)"
  shows "(cp_active_roots cp = cp_active_roots cq
      \<and> list_all (\<lambda>i. committed_active_at (cp_alg_epochs cp) alg i = committed_active_at (cp_alg_epochs cq) alg i)
          [0..<n])
    \<or> fold_clash h (root_children h (cp_active_roots cp) (cp_alg_epochs cp) n k)
        (root_children h (cp_active_roots cq) (cp_alg_epochs cq) n k)
    \<or> hash_collision h (serialize_null_runs (cp_alg_epochs cp) n k) (serialize_null_runs (cp_alg_epochs cq) n k)"
proof -
  let ?t = "cp_alg_epochs cp" and ?u = "cp_alg_epochs cq"
  let ?cs = "root_children h (cp_active_roots cp) ?t n k"
  let ?ds = "root_children h (cp_active_roots cq) ?u n k"
  note p = assms(1) [unfolded authenticate_iff] and q = assms(2) [unfolded authenticate_iff]
  have ar: "arity_ok k" and k: "2 \<le> k" using p by (simp_all add: arity_ok_ge2)
  have keys: "bt_keys ?t" "bt_keys ?u" using p q by (simp_all add: validate_committed_iff)
  have act: "committed_active_algs ?t n = committed_active_algs ?u n" using p q by simp
  have algs: "map fst (cp_active_roots cp) = map fst (cp_active_roots cq)" using p q by simp
  have "nary_mr h ?cs = nary_mr h ?ds"
    using p q by (simp add: combined_root_children [OF k assms(3)])
  then consider "fold_clash h ?cs ?ds" | "?cs = ?ds" by (auto simp: fold_clash_def)
  then show ?thesis
  proof cases
    case 2
    have "length (map snd (cp_active_roots cp)) = length (map snd (cp_active_roots cq))"
      using arg_cong [OF algs, of length] by simp
    then have roots: "map snd (cp_active_roots cp) = map snd (cp_active_roots cq)"
      and cov: "coverage h ?t n k = coverage h ?u n k"
      using 2 by (simp_all add: root_children_def)
    have eq: "cp_active_roots cp = cp_active_roots cq" by (rule same_fst_snd [OF algs roots])
    from coverage_eq [OF ar assms(3,4,5) cov] show ?thesis
    proof
      assume "all_null_runs ?t n k = all_null_runs ?u n k"
      then have "committed_active_at ?t alg i = committed_active_at ?u alg i" if "i < n" for i
        by (rule same_runs_committed [OF k assms(3) keys _ that act])
      then show ?thesis using eq by (simp add: list_all_iff)
    qed simp
  qed simp
qed

text \<open>A registry of two algorithms active from genesis, opened by a root both folds promote to.\<close>

definition uniform_coupling :: "alg_id list \<Rightarrow> digest \<Rightarrow> coupling_proof" where
  "uniform_coupling algs r =
     \<lparr>cp_active_roots = map (\<lambda>alg. (alg, r)) algs, cp_alg_epochs = map (\<lambda>alg. (alg, [(0, u64_max)])) algs\<rparr>"

lemma map_of_uniform: "alg \<in> set algs \<Longrightarrow> map_of (map (\<lambda>alg. (alg, v)) algs) alg = Some v"
  by (induction algs) auto

lemma uniform_no_runs:
  assumes "2 \<le> k" "n \<le> 2 ^ 63"
  shows "null_runs_for_alg [(0, u64_max)] n k = Some []"
proof -
  have "n < u64_max" using assms(2) by (simp add: u64_max_def)
  then have f: "filter (\<lambda>i. \<not> active_in [(0, u64_max)] i) [0..<n] = []"
    by (intro filter_False) (simp add: u64_max_def)
  obtain runs where r: "null_runs_for_alg [(0, u64_max)] n k = Some runs"
    "concat (map (run_cells k) runs) = []"
    using null_runs_spec [OF assms, of "[(0, u64_max)]"] unfolding f by blast
  have "0 < k ^ h" for h using assms(1) by simp
  then have "runs = []" using r(2) by (cases runs) (auto simp: run_cells_def)
  then show ?thesis using r(1) by simp
qed

lemma uniform_authenticates:
  assumes "arity_ok k" "0 < n" "n \<le> 2 ^ 63" "algs \<noteq> []" "sorted_wrt (<) algs" "length algs \<le> 8" "length r \<le> 64"
  shows "coupling_authenticate (uniform_coupling algs r) h n k r algs default_config = Some True"
proof -
  let ?tml = "map (\<lambda>alg. (alg, [(0, u64_max)])) algs"
  have k: "2 \<le> k" by (rule arity_ok_ge2 [OF assms(1)])
  have "collect_runs ?tml n k = Some []" using uniform_no_runs [OF k assms(3)] by (induction algs) simp_all
  then have "combined_root h (map (\<lambda>alg. (alg, r)) algs) ?tml n k = Some (nary_mr h (map (\<lambda>_. r) algs))"
    by (simp add: combined_root_def null_runs_are_trivial_def all_null_runs_def o_def)
  also have "nary_mr h (map (\<lambda>_. r) algs) = r"
    using assms(4) nary_mr_replicate [of "length algs" h r] by (simp add: map_replicate_const)
  finally have root: "combined_root h (map (\<lambda>alg. (alg, r)) algs) ?tml n k = Some r" .
  have "n - 1 < u64_max" using assms(3) by (simp add: u64_max_def)
  then have act: "committed_active_algs ?tml n = algs"
    by (simp add: committed_active_algs_iff [OF assms(2)] o_def)
  have valid: "validate_committed_epochs ?tml n"
    using assms(5) by (simp add: validate_committed_iff bt_keys_def o_def epochs_valid_def Let_def)
  show ?thesis
    using assms root act valid
    by (auto simp: authenticate_iff uniform_coupling_def default_config_def bt_keys_def o_def)
qed

section \<open>Properties\<close>

text \<open>
  C4. A binding root pins what its coupling proof opens: two coupling proofs that authenticate
  under one root, size, arity and active set give every algorithm the same member root and every
  position below the size the same activity for every algorithm, or they exhibit two different
  child lists with one fold, or two different null-run serializations with one hash.
\<close>

theorem coupling_binding:
  assumes "coupling_authenticate cp h n k root algs cfg = Some True"
    and "coupling_authenticate cq h n k root algs cfg' = Some True"
    and "n \<le> 2 ^ 63" "ids_fit (cp_alg_epochs cp)" "ids_fit (cp_alg_epochs cq)"
  shows "(cp_active_roots cp = cp_active_roots cq
      \<and> list_all (\<lambda>i. committed_active_at (cp_alg_epochs cp) alg i = committed_active_at (cp_alg_epochs cq) alg i)
          [0..<n])
    \<or> fold_clash h (root_children h (cp_active_roots cp) (cp_alg_epochs cp) n k)
        (root_children h (cp_active_roots cq) (cp_alg_epochs cq) n k)
    \<or> hash_collision h (serialize_null_runs (cp_alg_epochs cp) n k) (serialize_null_runs (cp_alg_epochs cq) n k)"
  by (rule coupling_binding_core [OF assms])

theorem coupling_binding_witness:
  "(cp_active_roots (uniform_coupling [0, 1] [9]) = cp_active_roots (uniform_coupling [0, 1] [9])
      \<and> list_all (\<lambda>i. committed_active_at (cp_alg_epochs (uniform_coupling [0, 1] [9])) 1 i
          = committed_active_at (cp_alg_epochs (uniform_coupling [0, 1] [9])) 1 i) [0..<3])
    \<or> fold_clash toy_hasher (root_children toy_hasher (cp_active_roots (uniform_coupling [0, 1] [9]))
          (cp_alg_epochs (uniform_coupling [0, 1] [9])) 3 2)
        (root_children toy_hasher (cp_active_roots (uniform_coupling [0, 1] [9]))
          (cp_alg_epochs (uniform_coupling [0, 1] [9])) 3 2)
    \<or> hash_collision toy_hasher (serialize_null_runs (cp_alg_epochs (uniform_coupling [0, 1] [9])) 3 2)
        (serialize_null_runs (cp_alg_epochs (uniform_coupling [0, 1] [9])) 3 2)"
proof (rule coupling_binding)
  show "coupling_authenticate (uniform_coupling [0, 1] [9]) toy_hasher 3 2 [9] [0, 1] default_config = Some True"
    by (rule uniform_authenticates) (simp_all add: arity_ok_def)
  then show "coupling_authenticate (uniform_coupling [0, 1] [9]) toy_hasher 3 2 [9] [0, 1] default_config = Some True" .
qed (simp_all add: ids_fit_def uniform_coupling_def u64_limit_def)

text \<open>
  The collapse arm voids the coupling proof: for every root of at most 64 bytes and every
  set of expected algorithms, the proof that names the root itself as every member root, under a
  timeline of algorithms active from genesis, authenticates; with it, the root is accepted as
  the leaf hash of every position whose skeleton is well formed.
\<close>

theorem coupling_forgery:
  assumes "arity_ok k" "0 < n" "n \<le> 2 ^ 63" "algs \<noteq> []" "sorted_wrt (<) algs" "length algs \<le> 8"
    and "width_ok h" "length root = digest_len h" "skeleton_ok sk" "alg \<in> set algs" "i < n"
  shows "coupling_authenticate (uniform_coupling algs root) h n k root algs default_config = Some True
    \<and> verify_inclusion_with_coupling h alg root i n k sk (map (forged_step root) sk)
        (uniform_coupling algs root) root algs default_config = Some True"
proof -
  have "length root \<le> 64" using assms(7,8) by (simp add: width_ok_def)
  with assms have auth: "coupling_authenticate (uniform_coupling algs root) h n k root algs default_config = Some True"
    by (intro uniform_authenticates)
  have m: "map_of (cp_active_roots (uniform_coupling algs root)) alg = Some root"
    "committed_active_at (cp_alg_epochs (uniform_coupling algs root)) alg i = Some True"
    using assms(3,11) map_of_uniform [OF assms(10), of root]
      map_of_uniform [OF assms(10), of "[(0 :: u64, u64_max)]"]
    by (simp_all add: uniform_coupling_def committed_active_at_def) (simp add: u64_max_def)
  have "list_all (step_ok (digest_len h)) (map (forged_step root) sk)"
    using assms(8,9) by (auto simp: skeleton_ok_def list_all_iff step_ok_def forged_step_def)
  moreover have "climb h (map (forged_step root) sk) root = root"
    using assms(9) by (intro climb_forged) (auto simp: skeleton_ok_def list_all_iff)
  ultimately have "verify_inclusion h root sk (map (forged_step root) sk) root"
    using assms(7-9) structure_exact [OF map_step_shape_forged]
    unfolding verify_inclusion_iff by (simp add: skeleton_ok_def)
  moreover have "coupling_verify (uniform_coupling algs root) h alg n k root algs default_config = Some (Some root)"
    using auth m(1) by (simp add: coupling_verify_iff)
  ultimately show ?thesis using auth m(2) by (simp add: verify_inclusion_with_coupling_def)
qed

theorem coupling_forgery_witness:
  "coupling_authenticate (uniform_coupling [0, 1] [9]) toy_hasher 3 2 [9] [0, 1] default_config = Some True
    \<and> verify_inclusion_with_coupling toy_hasher 1 [9] 2 3 2 [\<lparr>sk_position = 1, sk_sibling_count = 1\<rparr>]
        (map (forged_step [9]) [\<lparr>sk_position = 1, sk_sibling_count = 1\<rparr>])
        (uniform_coupling [0, 1] [9]) [9] [0, 1] default_config = Some True"
  by (rule coupling_forgery [OF _ _ _ _ _ _ toy_hasher_width_ok])
    (simp_all add: arity_ok_def toy_hasher_digest_len skeleton_ok_def)

text \<open>
  C34. Inactivity and inclusion exclude each other: if one proof shows an algorithm inactive at a
  position and another shows a leaf there that is not the null digest, under one root, size and
  active set, then the two coupling proofs clash in the sense of the binding of the root.  An
  accepted proof at an inactive position is for the null digest.
\<close>

theorem inactivity_excludes_inclusion:
  assumes "verify_inactivity_with_coupling h alg i n k sk path cp root algs cfg = Some True"
    and "verify_inclusion_with_coupling h alg leaf i n k sk' path' cq root algs cfg' = Some True"
    and "n \<le> 2 ^ 63" "ids_fit (cp_alg_epochs cp)" "ids_fit (cp_alg_epochs cq)"
  shows "leaf = hs_null h
    \<or> fold_clash h (root_children h (cp_active_roots cp) (cp_alg_epochs cp) n k)
        (root_children h (cp_active_roots cq) (cp_alg_epochs cq) n k)
    \<or> hash_collision h (serialize_null_runs (cp_alg_epochs cp) n k) (serialize_null_runs (cp_alg_epochs cq) n k)"
proof -
  have i: "i < n" and p: "coupling_authenticate cp h n k root algs cfg = Some True"
    "committed_active_at (cp_alg_epochs cp) alg i = Some False"
    using assms(1) by (auto simp: verify_inactivity_with_coupling_def split: if_splits)
  obtain raw where v: "coupling_verify cq h alg n k root algs cfg' = Some (Some raw)"
    using assms(2) by (auto simp: verify_inclusion_with_coupling_def split: option.splits)
  then have q: "coupling_authenticate cq h n k root algs cfg' = Some True" by (simp add: coupling_verify_iff)
  have null: "leaf = hs_null h" if "committed_active_at (cp_alg_epochs cq) alg i = Some False"
    using assms(2) v that by (simp add: verify_inclusion_with_coupling_def split: if_splits)
  from coupling_binding_core [OF p(1) q assms(3-5), of alg] show ?thesis
  proof (elim disjE)
    assume "cp_active_roots cp = cp_active_roots cq
      \<and> list_all (\<lambda>i. committed_active_at (cp_alg_epochs cp) alg i = committed_active_at (cp_alg_epochs cq) alg i)
          [0..<n]"
    then have "committed_active_at (cp_alg_epochs cq) alg i = Some False"
      using p(2) i by (simp add: list_all_iff)
    then show ?thesis using null by simp
  qed simp_all
qed

text \<open>An opening in which algorithm 1 joins at size 2 of 3.\<close>

definition toy_opening :: coupling_proof where
  "toy_opening =
     \<lparr>cp_active_roots = [(0, [5]), (1, nary_mr toy_hasher [hs_null toy_hasher, [8]])],
      cp_alg_epochs = [(0, [(0, u64_max)]), (1, [(2, u64_max)])]\<rparr>"

definition toy_binding_root :: digest where
  "toy_binding_root = nary_mr toy_hasher
     (root_children toy_hasher (cp_active_roots toy_opening) (cp_alg_epochs toy_opening) 3 2)"

lemma toy_opening_authenticates:
  "coupling_authenticate toy_opening toy_hasher 3 2 toy_binding_root [0, 1] default_config = Some True"
proof -
  have "combined_root toy_hasher (cp_active_roots toy_opening) (cp_alg_epochs toy_opening) 3 2 = Some toy_binding_root"
    unfolding toy_binding_root_def by (rule combined_root_children) simp_all
  moreover have "validate_committed_epochs (cp_alg_epochs toy_opening) 3"
    by (simp add: validate_committed_iff toy_opening_def bt_keys_def epochs_valid_def u64_max_def Let_def)
  moreover have "committed_active_algs (cp_alg_epochs toy_opening) 3 = [0, 1]"
    by (simp add: committed_active_algs_def toy_opening_def u64_max_def)
  moreover have "length (nary_mr toy_hasher [hs_null toy_hasher, [8]]) = digest_len toy_hasher"
    by (rule length_nary_mr [OF toy_hasher_fixed_width])
      (auto simp: toy_hasher_digest_len fixed_width_simps [OF toy_hasher_fixed_width])
  ultimately show ?thesis
    unfolding authenticate_iff
    by (auto simp: arity_ok_def default_config_def bt_keys_def toy_opening_def toy_hasher_digest_len)
qed

lemma toy_null_included:
  "verify_inclusion toy_hasher (hs_null toy_hasher) [\<lparr>sk_position = 0, sk_sibling_count = 1\<rparr>]
     [\<lparr>ps_siblings = [[8]], ps_position = 0\<rparr>] (nary_mr toy_hasher [hs_null toy_hasher, [8]])"
  unfolding verify_inclusion_iff
  by (auto simp: toy_hasher_width_ok toy_hasher_digest_len fixed_width_simps [OF toy_hasher_fixed_width]
      verify_inclusion_path_structure_def step_shape_def step_ok_def apply_step_def insert_at_def)

theorem inactivity_excludes_inclusion_witness:
  "hs_null toy_hasher = hs_null toy_hasher
    \<or> fold_clash toy_hasher (root_children toy_hasher (cp_active_roots toy_opening) (cp_alg_epochs toy_opening) 3 2)
        (root_children toy_hasher (cp_active_roots toy_opening) (cp_alg_epochs toy_opening) 3 2)
    \<or> hash_collision toy_hasher (serialize_null_runs (cp_alg_epochs toy_opening) 3 2)
        (serialize_null_runs (cp_alg_epochs toy_opening) 3 2)"
proof (rule inactivity_excludes_inclusion)
  let ?sk = "[\<lparr>sk_position = 0, sk_sibling_count = 1\<rparr>]" and ?path = "[\<lparr>ps_siblings = [[8]], ps_position = 0\<rparr>]"
  show "verify_inactivity_with_coupling toy_hasher 1 0 3 2 ?sk ?path toy_opening toy_binding_root [0, 1]
      default_config = Some True"
    using toy_opening_authenticates toy_null_included
    by (simp add: verify_inactivity_with_coupling_def committed_active_at_def toy_opening_def)
  have "coupling_verify toy_opening toy_hasher 1 3 2 toy_binding_root [0, 1] default_config
      = Some (Some (nary_mr toy_hasher [hs_null toy_hasher, [8]]))"
    using toy_opening_authenticates unfolding coupling_verify_iff by (simp add: toy_opening_def)
  then show "verify_inclusion_with_coupling toy_hasher 1 (hs_null toy_hasher) 0 3 2 ?sk ?path toy_opening
      toy_binding_root [0, 1] default_config = Some True"
    using toy_null_included
    by (simp add: verify_inclusion_with_coupling_def committed_active_at_def toy_opening_def)
qed (simp_all add: toy_opening_def ids_fit_def u64_limit_def)

end
