(* ===== verification/Poly_Evolution.thy ===== *)
theory Poly_Evolution
  imports Poly_Root
begin

text \<open>
  The checks over two committed sizes, \<^verbatim>\<open>polydigest/src/evolution.rs\<close>: the temporal evolution
  of the epoch timeline, and structural consistency under two coupling proofs.
\<close>

section \<open>Definitions\<close>

text \<open>The transition of one algorithm's epochs; both lists are non-empty when it is asked.\<close>

definition epochs_evolve :: "u64 \<Rightarrow> epochs \<Rightarrow> epochs \<Rightarrow> bool" where
  "epochs_evolve old_size old new \<longleftrightarrow>
     (if length new < length old then False
      else let last' = length old - 1
           in if take last' new \<noteq> take last' old then False
              else let (o_start, o_end) = old ! last'; (n_start, n_end) = new ! last'
                   in if n_start \<noteq> o_start then False
                      else if o_end = u64_max \<and> n_end \<noteq> u64_max \<and> n_end < old_size then False
                      else if o_end \<noteq> u64_max \<and> n_end \<noteq> o_end then False
                      else \<not> list_ex (\<lambda>(start, _). start < old_size) (drop (length old) new))"

definition verify_epoch_evolution :: "timeline \<Rightarrow> u64 \<Rightarrow> timeline \<Rightarrow> u64 \<Rightarrow> bool" where
  "verify_epoch_evolution old_epochs old_size new_epochs new_size \<longleftrightarrow>
     (if old_size > new_size then False
      else if \<not> validate_committed_epochs old_epochs old_size
        \<or> \<not> validate_committed_epochs new_epochs new_size then False
      else if \<not> list_all (\<lambda>(alg, old).
          case map_of new_epochs alg of
            None \<Rightarrow> False
          | Some new \<Rightarrow> epochs_evolve old_size old new) old_epochs then False
      else list_all (\<lambda>(alg, new).
          \<not> (map_of old_epochs alg = None \<and> new \<noteq> [] \<and> fst (hd new) < old_size)) new_epochs)"

definition verify_consistency_with_coupling ::
    "hasher \<Rightarrow> alg_id \<Rightarrow> u64 \<Rightarrow> u64 \<Rightarrow> u64 \<Rightarrow> digest \<Rightarrow> proof_step list \<Rightarrow> digest list \<Rightarrow> nat \<Rightarrow>
     coupling_proof \<Rightarrow> coupling_proof \<Rightarrow> digest \<Rightarrow> digest \<Rightarrow> alg_id list \<Rightarrow> alg_id list \<Rightarrow>
     verifier_config \<Rightarrow> bool option" where
  "verify_consistency_with_coupling h alg old_size new_size arity boundary_hash peak_path new_peaks
      split_index old_coupling new_coupling old_root new_root old_algs new_algs cfg =
     Option.bind (coupling_verify old_coupling h alg old_size arity old_root old_algs cfg) (\<lambda>old_res.
       map_option (\<lambda>new_res.
         case (old_res, new_res) of
           (Some old_raw, Some new_raw) \<Rightarrow>
             verify_consistency h old_size new_size arity boundary_hash peak_path new_peaks split_index
               old_raw new_raw
         | _ \<Rightarrow> False)
       (coupling_verify new_coupling h alg new_size arity new_root new_algs cfg))"

section \<open>Evolution keeps the past\<close>

lemma epochs_evolve_active:
  assumes "epochs_evolve n old new" "epochs_sorted 0 old" "old \<noteq> []" "i < n" "n \<le> u64_max"
  shows "active_in new i = active_in old i"
proof -
  let ?l = "length old - 1"
  have len: "length old \<le> length new" using assms(1) by (auto simp: epochs_evolve_def split: if_splits)
  obtain os oe where o: "old ! ?l = (os, oe)" by (cases "old ! ?l")
  obtain ns ne where ne: "new ! ?l = (ns, ne)" by (cases "new ! ?l")
  have e: "take ?l new = take ?l old" "ns = os" "oe = u64_max \<longrightarrow> ne = u64_max \<or> n \<le> ne"
    "oe \<noteq> u64_max \<longrightarrow> ne = oe" "\<forall>(s, e) \<in> set (drop (length old) new). n \<le> s"
    using assms(1) o ne by (auto simp: epochs_evolve_def Let_def list_ex_iff not_less split: if_splits)
  have l: "?l < length old" using assms(3) by simp
  have old: "old = take ?l old @ [(os, oe)]"
    using l o by (metis Suc_diff_1 append.right_neutral assms(3) drop_all id_take_nth_drop length_greater_0_conv le_refl)
  have "new = take ?l new @ new ! ?l # drop (Suc ?l) new" using l len by (intro id_take_nth_drop) simp
  moreover have "Suc ?l = length old" using l by linarith
  ultimately have new: "new = take ?l old @ (ns, ne) # drop (length old) new" using e(1) ne by simp
  have "\<not> active_in (drop (length old) new) i" using e(5) assms(4) by (fastforce simp: active_in_def list_ex_iff)
  moreover have "(ns \<le> i \<and> i < ne) = (os \<le> i \<and> i < oe)" using e(2-4) assms(4,5) by auto
  ultimately show ?thesis by (subst new, subst (2) old) simp
qed

lemma evolution_iff:
  "verify_epoch_evolution t m u n \<longleftrightarrow> m \<le> n \<and> validate_committed_epochs t m \<and> validate_committed_epochs u n
     \<and> (\<forall>(alg, old) \<in> set t. \<exists>new. map_of u alg = Some new \<and> epochs_evolve m old new)
     \<and> (\<forall>(alg, new) \<in> set u. map_of t alg = None \<longrightarrow> new = [] \<or> m \<le> fst (hd new))"
proof -
  have old: "(case map_of u (fst p) of None \<Rightarrow> False | Some new \<Rightarrow> epochs_evolve m (snd p) new)
      \<longleftrightarrow> (\<exists>new. map_of u (fst p) = Some new \<and> epochs_evolve m (snd p) new)" for p
    by (simp split: option.split)
  show ?thesis
    unfolding verify_epoch_evolution_def list_all_iff case_prod_beta old by (auto simp: not_less)
qed

lemma sorted_starts_late:
  assumes "epochs_sorted b es" "es = [] \<or> m \<le> fst (hd es)" "i < m"
  shows "\<not> active_in es i"
proof (cases es)
  case (Cons p ps)
  obtain s e where p: "p = (s, e)" by (cases p)
  have "s' \<ge> s" if "(s', e') \<in> set es" for s' e'
    using that assms(1) epochs_sorted_ge [of e ps s' e'] by (auto simp: Cons p)
  moreover have "m \<le> s" using assms(2) by (simp add: Cons p)
  ultimately show ?thesis using assms(3) by (fastforce simp: active_in_def list_ex_iff)
qed simp

lemma valid_member:
  "validate_committed_epochs t n \<Longrightarrow> (alg, es) \<in> set t \<Longrightarrow> epochs_valid n es \<and> map_of t alg = Some es"
  using bt_keys_distinct [of t] by (auto simp: validate_committed_iff)

lemma evolution_active:
  assumes "verify_epoch_evolution t m u n" "i < m" "m \<le> u64_max"
  shows "committed_active_at u alg i =
    (case committed_active_at t alg i of Some b \<Rightarrow> Some b
     | None \<Rightarrow> map_option (\<lambda>_. False) (map_of u alg))"
proof (cases "map_of t alg")
  case (Some old)
  then have mem: "(alg, old) \<in> set t" by (rule map_of_SomeD)
  then obtain new where new: "map_of u alg = Some new" "epochs_evolve m old new"
    using assms(1) unfolding evolution_iff by blast
  have "epochs_valid m old" using valid_member [of t m] mem assms(1) unfolding evolution_iff by blast
  then have "active_in new i = active_in old i"
    using epochs_evolve_active [OF new(2) _ _ assms(2,3)] by (simp add: epochs_valid_def)
  then show ?thesis using Some new(1) by (simp add: committed_active_at_active)
next
  case None
  show ?thesis
  proof (cases "map_of u alg")
    case (Some new)
    then have mem: "(alg, new) \<in> set u" by (rule map_of_SomeD)
    then have "new = [] \<or> m \<le> fst (hd new)" using assms(1) None unfolding evolution_iff by blast
    moreover have "epochs_sorted 0 new"
      using valid_member [of u n] mem assms(1) unfolding evolution_iff epochs_valid_def by blast
    ultimately have "\<not> active_in new i" using sorted_starts_late assms(2) by blast
    then show ?thesis using None Some by (simp add: committed_active_at_active)
  qed (use None in \<open>simp add: committed_active_at_active\<close>)
qed

section \<open>Properties\<close>

text \<open>
  C35. An accepted evolution is append-only in time: no algorithm disappears, below the old size
  every algorithm keeps the activity it had, and an algorithm registered since is inactive there.
\<close>

theorem epoch_evolution_append_only:
  assumes "verify_epoch_evolution t m u n" "i < m" "m \<le> u64_max"
  shows "committed_active_at u alg i =
    (case committed_active_at t alg i of Some b \<Rightarrow> Some b
     | None \<Rightarrow> map_option (\<lambda>_. False) (map_of u alg))"
  by (rule evolution_active [OF assms])

theorem epoch_evolution_append_only_witness:
  "committed_active_at [(0, [(0, 4), (5, u64_max)]), (1, [(4, u64_max)])] 0 2 =
    (case committed_active_at [(0, [(0, u64_max)])] 0 2 of Some b \<Rightarrow> Some b
     | None \<Rightarrow> map_option (\<lambda>_. False) (map_of ([(0, [(0, 4), (5, u64_max)]), (1, [(4, u64_max)])] :: timeline) 0))"
proof (rule epoch_evolution_append_only)
  show "verify_epoch_evolution [(0, [(0, u64_max)])] 3 [(0, [(0, 4), (5, u64_max)]), (1, [(4, u64_max)])] 6"
    by (simp add: verify_epoch_evolution_def validate_committed_iff bt_keys_def epochs_valid_def Let_def
        epochs_evolve_def u64_max_def)
qed (simp_all add: u64_max_def)

end
