(* ===== verification/Cmt_Shape.thy ===== *)
theory Cmt_Shape
  imports Cml_Carry
begin

text \<open>
  The rebalanced topology of the mutable tree, \<^verbatim>\<open>cmt/src/shape.rs\<close>: the shape tree of a size
  and an arity, its inclusion skeleton and the bagging of frontier peaks.  An \<^verbatim>\<open>expect\<close> that
  would panic is the value \<open>None\<close> of the descent; \<open>rebalanced_skeleton_domain\<close> shows it is
  not reached.  A shape is also a bag tree whose peaks are the cells (\<open>to_bag\<close>), which carries
  the path lemmas of the log's bag over to the mutable tree.
\<close>

section \<open>Definitions\<close>

datatype shape_node = ShapeLeaf u64 | Inner "shape_node list"

fun perfect :: "u64 \<Rightarrow> u32 \<Rightarrow> u64 \<Rightarrow> shape_node" where
  "perfect left 0 k = ShapeLeaf left"
| "perfect left (Suc height) k = Inner (map (\<lambda>c. perfect (left + c * k ^ height) height k) [0..<k])"

definition build :: "u64 \<Rightarrow> u64 \<Rightarrow> shape_node option" where
  "build size' k =
     (if \<not> arity_ok k \<or> size' = 0 then None
      else let coords = frontier_for_size size' k
           in if coords = [] then None
              else Some (fold_frontier (map (\<lambda>(left, height). perfect left height k) coords) k Inner))"

text \<open>An inner node always has children; the value for an empty one is not used.\<close>

fun leftmost :: "shape_node \<Rightarrow> u64" where
  "leftmost (ShapeLeaf pos) = pos"
| "leftmost (Inner []) = 0"
| "leftmost (Inner (c # cs)) = leftmost c"

function rightmost :: "shape_node \<Rightarrow> u64" where
  "rightmost (ShapeLeaf pos) = pos"
| "rightmost (Inner cs) = (if cs = [] then 0 else rightmost (last cs))"
  by pat_completeness auto
termination
proof (relation "measure size")
  fix cs :: "shape_node list"
  assume "cs \<noteq> []"
  then have "size (last cs) \<le> size_list size cs" by (intro size_list_estimation') auto
  then show "(last cs, Inner cs) \<in> measure size" by simp
qed simp

definition covers :: "shape_node \<Rightarrow> u64 \<Rightarrow> bool" where
  "covers node index \<longleftrightarrow> leftmost node \<le> index \<and> index \<le> rightmost node"

lemma size_position_shape:
  "position P children = Some pos \<Longrightarrow> size (children ! pos) < size (Inner children)"
proof -
  assume "position P children = Some pos"
  then have "children ! pos \<in> set children" by (auto dest: position_Some_len)
  then have "size (children ! pos) \<le> size_list size children"
    by (rule size_list_estimation') simp
  then show ?thesis by simp
qed

function descend_skeleton :: "shape_node \<Rightarrow> u64 \<Rightarrow> skeleton_step list \<Rightarrow> skeleton_step list option" where
  "descend_skeleton (ShapeLeaf pos) index out = Some out"
| "descend_skeleton (Inner children) index out =
     (case position (\<lambda>c. covers c index) children of
        None \<Rightarrow> None
      | Some pos \<Rightarrow>
          descend_skeleton (children ! pos) index
            (out @ [\<lparr>sk_position = pos, sk_sibling_count = length children - 1\<rparr>]))"
  by pat_completeness auto
termination
  by (relation "measure (\<lambda>(node, _). size node)") (auto dest: size_position_shape)

definition rebalanced_skeleton :: "u64 \<Rightarrow> u64 \<Rightarrow> u64 \<Rightarrow> skeleton_step list option" where
  "rebalanced_skeleton size' k index =
     (if size' \<le> index then None
      else case build size' k of
             None \<Rightarrow> None
           | Some shape \<Rightarrow> map_option rev (descend_skeleton shape index []))"

definition rebalanced_bag :: "hasher \<Rightarrow> digest list \<Rightarrow> u64 \<Rightarrow> digest" where
  "rebalanced_bag h peaks k =
     (if peaks = [] then hs_empty h else fold_frontier peaks k (nary_mr h))"

interpretation rebalanced: bagging rebalanced_bag
proof unfold_locales
  show "rebalanced_bag h [p] k = p" for h p k by (simp add: rebalanced_bag_def)
  show "length (rebalanced_bag h ps k) = digest_len h"
    if "fixed_width h" "2 \<le> k" "ps \<noteq> []" "\<And>p. p \<in> set ps \<Longrightarrow> length p = digest_len h" for h ps k
    using mountain_bag.bag_width [OF that] that(3) by (simp add: rebalanced_bag_def bag_peaks_fold)
qed

section \<open>Shapes as bag trees\<close>

fun to_bag :: "shape_node \<Rightarrow> bag_node" where
  "to_bag (ShapeLeaf p) = Peak p"
| "to_bag (Inner cs) = Bag (map to_bag cs)"

definition cells :: "shape_node \<Rightarrow> nat list" where
  "cells node = bag_leaves (to_bag node)"

lemma cells_simps [simp]:
  "cells (ShapeLeaf p) = [p]"
  "cells (Inner cs) = concat (map cells cs)"
  by (simp_all add: cells_def [abs_def] o_def)

text \<open>A shape of an interval of cells: every inner node branches.\<close>

fun branching :: "shape_node \<Rightarrow> bool" where
  "branching (ShapeLeaf p) \<longleftrightarrow> True"
| "branching (Inner cs) \<longleftrightarrow> 2 \<le> length cs \<and> list_all branching cs"

definition interval :: "shape_node \<Rightarrow> bool" where
  "interval node \<longleftrightarrow> branching node \<and> (\<exists>lo hi. cells node = [lo..<hi])"

lemma cells_nonempty: "branching node \<Longrightarrow> cells node \<noteq> []"
proof (induction node)
  case (Inner cs)
  then obtain c cs' where "cs = c # cs'" by (cases cs) auto
  then show ?case using Inner by simp
qed simp

lemma upt_split:
  assumes "xs @ ys @ zs = [lo..<hi]" shows "ys = [lo + length xs..<lo + length xs + length ys]"
proof (rule nth_equalityI)
  have len: "length xs + length ys + length zs = hi - lo" using arg_cong [OF assms, of length] by simp
  fix i assume i: "i < length ys"
  have "ys ! i = (xs @ ys @ zs) ! (length xs + i)" using i by (simp add: nth_append)
  also have "\<dots> = lo + (length xs + i)" unfolding assms using i len by simp
  finally show "ys ! i = [lo + length xs..<lo + length xs + length ys] ! i" using i by simp
qed simp

lemma interval_child:
  assumes "interval (Inner cs)" "c \<in> set cs" shows "interval c"
proof -
  obtain as bs where cs: "cs = as @ c # bs" using assms(2) by (auto dest: split_list)
  obtain lo hi where "concat (map cells as) @ cells c @ concat (map cells bs) = [lo..<hi]"
    using assms(1) cs by (auto simp: interval_def)
  from upt_split [OF this] show ?thesis
    using assms by (auto simp: interval_def list_all_iff)
qed

lemma leftmost_hd: "branching node \<Longrightarrow> leftmost node = hd (cells node)"
proof (induction node)
  case (Inner cs)
  then obtain c cs' where cs: "cs = c # cs'" by (cases cs) auto
  then show ?case using Inner cells_nonempty [of c] by simp
qed simp

lemma rightmost_last: "branching node \<Longrightarrow> rightmost node = last (cells node)"
proof (induction node)
  case (Inner cs)
  then obtain cs' c where cs: "cs = cs' @ [c]" by (cases cs rule: rev_cases) auto
  then show ?case using Inner cells_nonempty [of c] by simp
qed simp

lemma covers_iff: "interval node \<Longrightarrow> covers node i \<longleftrightarrow> i \<in> set (cells node)"
proof -
  assume n: "interval node"
  then obtain lo hi where c: "cells node = [lo..<hi]" and b: "branching node"
    by (auto simp: interval_def)
  then have "lo < hi" using cells_nonempty [OF b] by simp
  then show ?thesis
    using leftmost_hd [OF b] rightmost_last [OF b] by (auto simp: covers_def c hd_upt)
qed

lemma covers_peak_to_bag: "interval node \<Longrightarrow> covers_peak (to_bag node) i \<longleftrightarrow> covers node i"
  by (simp add: covers_iff covers_peak_iff cells_def)

lemma position_map_cong:
  "(\<And>x. x \<in> set xs \<Longrightarrow> P x = Q (f x)) \<Longrightarrow> position P xs = position Q (map f xs)"
  by (induction xs) auto

lemma position_covers:
  "interval (Inner cs) \<Longrightarrow>
     position (\<lambda>c. covers c i) cs = position (\<lambda>c. covers_peak c i) (map to_bag cs)"
  by (rule position_map_cong) (simp add: covers_peak_to_bag interval_child)

lemma position_covers_Some:
  assumes "interval (Inner cs)" "i \<in> set (cells (Inner cs))"
  obtains pos where "position (\<lambda>c. covers c i) cs = Some pos" "pos < length cs"
    "interval (cs ! pos)" "i \<in> set (cells (cs ! pos))"
proof -
  have cov: "covers c i \<longleftrightarrow> i \<in> set (cells c)" if "c \<in> set cs" for c
    using interval_child [OF assms(1) that] by (rule covers_iff)
  have "position (\<lambda>c. covers c i) cs \<noteq> None" using assms(2) cov by (auto simp: position_None)
  then obtain pos where p: "position (\<lambda>c. covers c i) cs = Some pos" by auto
  then have "pos < length cs" "covers (cs ! pos) i"
    by (rule position_Some_len, use position_Some_sat [OF p] in simp)
  then show thesis using that p cov interval_child [OF assms(1)] by simp
qed

lemma descend_skeleton_bag:
  "interval node \<Longrightarrow> i \<in> set (cells node) \<Longrightarrow>
     descend_skeleton node i out = Some (snd (descend_bag (to_bag node) i out))"
proof (induction node i out rule: descend_skeleton.induct)
  case (2 children index out)
  from position_covers_Some [OF 2(2,3)] obtain pos where
    pos: "position (\<lambda>c. covers c index) children = Some pos" "pos < length children"
    "interval (children ! pos)" "index \<in> set (cells (children ! pos))" by metis
  then have "position (\<lambda>c. covers_peak c index) (map to_bag children) = Some pos"
    using position_covers [OF 2(2)] by metis
  then show ?case using 2(1) [OF pos(1)] pos by simp
qed simp

section \<open>The shape of a size\<close>

lemma branching_perfect: "2 \<le> k \<Longrightarrow> branching (perfect l t k)"
  by (induction t arbitrary: l) (auto simp: list_all_iff)

lemma concat_blocks: "concat (map (\<lambda>c. [l + c * s..<l + c * s + s]) [0..<k]) = [l..<l + k * s]"
proof (induction k)
  case (Suc k)
  have "l + Suc k * s = l + k * s + s" by simp
  then have "[l..<l + Suc k * s] = [l..<l + k * s] @ [l + k * s..<l + k * s + s]"
    using upt_add_eq_append [of l "l + k * s" s] by (simp only: le_add1)
  then show ?case using Suc by (simp only: upt_Suc_append le0 map_append concat_append) simp
qed simp

lemma cells_perfect: "cells (perfect l t k) = [l..<l + k ^ t]"
proof (induction t arbitrary: l)
  case (Suc t)
  then show ?case using concat_blocks [of l "k ^ t" k] by (simp add: o_def)
qed simp

fun ev :: "hasher \<Rightarrow> (nat \<Rightarrow> digest) \<Rightarrow> shape_node \<Rightarrow> digest" where
  "ev h f (ShapeLeaf p) = f p"
| "ev h f (Inner cs) = nary_mr h (map (ev h f) cs)"

lemma ev_cong: "(\<And>p. p \<in> set (cells node) \<Longrightarrow> f p = g p) \<Longrightarrow> ev h f node = ev h g node"
proof (induction node)
  case (Inner cs)
  then have "map (ev h f) cs = map (ev h g) cs" by auto
  then show ?case unfolding ev.simps by (rule arg_cong)
qed simp

lemma eval_to_bag: "eval_bag h (to_bag node) ps = ev h (\<lambda>i. ps ! i) node"
proof (induction node)
  case (Inner cs)
  then have "map (\<lambda>c. eval_bag h c ps) (map to_bag cs) = map (ev h (\<lambda>i. ps ! i)) cs" by simp
  then show ?case unfolding ev.simps to_bag.simps eval_bag.simps by (rule arg_cong)
qed simp

lemma ev_perfect: "ev h f (perfect l t k) = pdig h k f l t"
  by (induction t arbitrary: l) (simp_all add: o_def)

lemma build_Some:
  assumes "arity_ok k" "0 < n" "n < u64_limit"
  shows "build n k = Some (fold_frontier (map (\<lambda>(l, t). perfect l t k) (frontier_for_size n k)) k Inner)"
  using assms frontier_empty_iff [of k n] by (simp add: build_def Let_def arity_ok_def)

lemma coords_cells:
  "concat (map cells (map (\<lambda>(l, t). perfect l t k) (coords_of k lo hs))) = [lo..<lo + hsum k hs]"
proof (induction hs arbitrary: lo)
  case (Cons h hs)
  then show ?case
    using upt_add_eq_append [of lo "lo + k ^ h" "hsum k hs"] by (simp add: cells_perfect add.assoc)
qed simp

lemma build_wf:
  assumes "build n k = Some s" "n < u64_limit"
  shows "cells s = [0..<n] \<and> interval s \<and> bag_wf k (to_bag s)"
proof -
  have k: "arity_ok k" "2 \<le> k" "0 < n"
    using assms(1) by (auto simp: build_def arity_ok_def split: if_splits)
  let ?items = "map (\<lambda>(l, t). perfect l t k) (frontier_for_size n k)"
  obtain hs where hs: "frontier_for_size n k = coords_of k 0 hs" "hsum k hs = n"
    using frontier_canon [OF k(2) assms(2)] by metis
  have s: "s = fold_frontier ?items k Inner" using build_Some [OF k(1,3) assms(2)] assms(1) by simp
  have ne: "?items \<noteq> []" using frontier_empty_iff [OF k(2) assms(2)] k(3) by simp
  have c: "cells s = [0..<n]"
    unfolding s using fold_frontier_concat [of cells Inner ?items k, OF _ ne] coords_cells [of k 0 hs] hs
    by simp
  have wfp: "bag_wf k (to_bag (perfect l t k))" for l t
    using k(2) by (induction t arbitrary: l) (auto simp: list_all_iff)
  have "bag_wf k (to_bag s) \<and> branching s"
    unfolding s
    by (rule fold_frontier_preserves [where P = "\<lambda>x. bag_wf k (to_bag x) \<and> branching x"])
      (use k ne wfp branching_perfect in \<open>auto simp: list_all_iff\<close>)
  with c show ?thesis by (auto simp: interval_def)
qed

lemma ev_build:
  assumes "build n k = Some s" "n < u64_limit"
  shows "ev h f s = rebalanced_bag h (fdigs h k f (frontier_for_size n k)) k"
proof -
  have k: "arity_ok k" "2 \<le> k" "0 < n"
    using assms(1) by (auto simp: build_def arity_ok_def split: if_splits)
  have ne: "frontier_for_size n k \<noteq> []" using frontier_empty_iff [OF k(2) assms(2)] k(3) by simp
  have s: "s = fold_frontier (map (\<lambda>(l, t). perfect l t k) (frontier_for_size n k)) k Inner"
    using build_Some [OF k(1,3) assms(2)] assms(1) by simp
  have "ev h f s = fold_frontier (map (ev h f) (map (\<lambda>(l, t). perfect l t k) (frontier_for_size n k))) k (nary_mr h)"
    unfolding s using ne by (intro fold_frontier_map) simp_all
  moreover have "map (ev h f) (map (\<lambda>(l, t). perfect l t k) cs) = fdigs h k f cs" for cs
    by (induction cs) (auto simp: fdigs_def ev_perfect)
  ultimately show ?thesis using ne by (simp add: rebalanced_bag_def)
qed

lemma skeleton_bag:
  assumes "build n k = Some s" "n < u64_limit" "i < n"
  shows "rebalanced_skeleton n k i = Some (bag_path_steps (to_bag s) i)"
  using assms build_wf [OF assms(1,2)] descend_skeleton_bag [of s i "[]"]
  by (simp add: rebalanced_skeleton_def bag_path_steps_def)

end
