(* ===== verification/Cmt_Tree.thy ===== *)
theory Cmt_Tree
  imports Cmt_Shape
begin

text \<open>
  The mutable tree of \<^verbatim>\<open>cmt/src/tree.rs\<close> with its proof paths (\<^verbatim>\<open>cmt/src/proof.rs\<close>) and
  errors (\<^verbatim>\<open>cmt/src/error.rs\<close>).  The node cache, keyed by the closed interval of cells a node
  covers, is a partial map; the evaluation routines return the updated cache.  The two
  \<^verbatim>\<open>BTreeMap\<close>s over algorithms are key-ordered entry lists; an \<^verbatim>\<open>expect\<close> that fails is the
  error \<open>CmtPanic\<close>, or \<open>None\<close> in the path descent.  The miss counter of the tests is not
  modelled.
\<close>

section \<open>State\<close>

datatype cmt_error =
    InvalidArity u64
  | CmtDuplicateAlgorithm alg_id
  | IndexGap u64 u64
  | EmptySeal
  | MalformedSeal
  | CmtPanic

record cell =
  ce_payload :: bytes
  ce_metadata :: bytes

type_synonym cache = "(u64 \<times> u64) \<Rightarrow> digest option"

record alg_state =
  as_root :: "digest option"
  as_cache :: cache

record cmt =
  cm_arity :: u64
  cm_cells :: "cell list"
  cm_hashers :: "(alg_id \<times> hasher) list"
  cm_states :: "(alg_id \<times> alg_state) list"

definition cmt_new :: "u64 \<Rightarrow> cmt_error + cmt" where
  "cmt_new arity =
     (if \<not> arity_ok arity then Inl (InvalidArity arity)
      else Inr \<lparr>cm_arity = arity, cm_cells = [], cm_hashers = [], cm_states = []\<rparr>)"

section \<open>Evaluation\<close>

definition leaf_digest_raw :: "cell list \<Rightarrow> hasher \<Rightarrow> u64 \<Rightarrow> digest" where
  "leaf_digest_raw cs h pos =
     (if pos < length cs then hs_leaf h (ce_payload (cs ! pos)) else hs_null h)"

definition node_key :: "shape_node \<Rightarrow> u64 \<times> u64" where
  "node_key node = (leftmost node, rightmost node)"

fun eval_subtree :: "cache \<Rightarrow> hasher \<Rightarrow> shape_node \<Rightarrow> (u64 \<Rightarrow> digest) \<Rightarrow> cache \<times> digest"
and eval_subtrees :: "cache \<Rightarrow> hasher \<Rightarrow> shape_node list \<Rightarrow> (u64 \<Rightarrow> digest) \<Rightarrow> cache \<times> digest list" where
  "eval_subtree ca h (ShapeLeaf pos) leaf_fn =
     (let dig = leaf_fn pos in (ca(node_key (ShapeLeaf pos) \<mapsto> dig), dig))"
| "eval_subtree ca h (Inner children) leaf_fn =
     (let (ca', digs) = eval_subtrees ca h children leaf_fn;
          dig = nary_mr h digs
      in (ca'(node_key (Inner children) \<mapsto> dig), dig))"
| "eval_subtrees ca h [] leaf_fn = (ca, [])"
| "eval_subtrees ca h (c # cs) leaf_fn =
     (let (ca1, dig) = eval_subtree ca h c leaf_fn;
          (ca2, digs) = eval_subtrees ca1 h cs leaf_fn
      in (ca2, dig # digs))"

definition recompute_full :: "cell list \<Rightarrow> u64 \<Rightarrow> hasher \<Rightarrow> alg_state \<Rightarrow> alg_state" where
  "recompute_full cs k h st =
     (case build (length cs) k of
        None \<Rightarrow> st\<lparr>as_cache := (\<lambda>_. None), as_root := None\<rparr>
      | Some shape \<Rightarrow>
          let (ca, dig) = eval_subtree (\<lambda>_. None) h shape (leaf_digest_raw cs h)
          in st\<lparr>as_cache := ca, as_root := Some dig\<rparr>)"

text \<open>The walk to a cell: off-path children are read from the cache.\<close>

fun eval_on_path ::
    "cell list \<Rightarrow> hasher \<Rightarrow> cache \<Rightarrow> shape_node \<Rightarrow> u64 \<Rightarrow> nat \<Rightarrow> cache \<times> digest \<times> nat"
and eval_on_paths ::
    "cell list \<Rightarrow> hasher \<Rightarrow> cache \<Rightarrow> shape_node list \<Rightarrow> u64 \<Rightarrow> nat \<Rightarrow> cache \<times> digest list \<times> nat" where
  "eval_on_path cs h ca (ShapeLeaf pos) index recomputed =
     (let dig = leaf_digest_raw cs h (leftmost (ShapeLeaf pos))
      in (ca(node_key (ShapeLeaf pos) \<mapsto> dig), dig, recomputed))"
| "eval_on_path cs h ca (Inner children) index recomputed =
     (let (ca', digs, recomputed') = eval_on_paths cs h ca children index recomputed;
          dig = nary_mr h digs
      in (ca'(node_key (Inner children) \<mapsto> dig), dig, recomputed' + 1))"
| "eval_on_paths cs h ca [] index recomputed = (ca, [], recomputed)"
| "eval_on_paths cs h ca (child # children) index recomputed =
     (let (ca1, dig, recomputed1) =
            (if covers child index then eval_on_path cs h ca child index recomputed
             else case ca (node_key child) of
                    Some d \<Rightarrow> (ca, d, recomputed)
                  | None \<Rightarrow>
                      let (ca', d) = eval_subtree ca h child (leaf_digest_raw cs h)
                      in (ca', d, recomputed));
          (ca2, digs, recomputed2) = eval_on_paths cs h ca1 children index recomputed1
      in (ca2, dig # digs, recomputed2))"

definition recompute_path ::
    "cell list \<Rightarrow> u64 \<Rightarrow> hasher \<Rightarrow> alg_state \<Rightarrow> u64 \<Rightarrow> alg_state \<times> nat" where
  "recompute_path cs k h st index =
     (case build (length cs) k of
        None \<Rightarrow> (st\<lparr>as_root := None\<rparr>, 0)
      | Some shape \<Rightarrow>
          let (ca, dig, recomputed) = eval_on_path cs h (as_cache st) shape index 0
          in (st\<lparr>as_cache := ca, as_root := Some dig\<rparr>, recomputed))"

definition seed_null :: "cell list \<Rightarrow> u64 \<Rightarrow> hasher \<Rightarrow> alg_state \<Rightarrow> alg_state" where
  "seed_null cs k h st =
     (case build (length cs) k of
        None \<Rightarrow> st\<lparr>as_cache := (\<lambda>_. None), as_root := None\<rparr>
      | Some shape \<Rightarrow>
          let (ca, dig) = eval_subtree (\<lambda>_. None) h shape (\<lambda>_. hs_null h)
          in st\<lparr>as_cache := ca, as_root := Some dig\<rparr>)"

definition add_alg_seeded ::
    "cell list \<Rightarrow> u64 \<Rightarrow> hasher \<Rightarrow> alg_state \<Rightarrow> u64 \<Rightarrow> alg_state \<times> nat" where
  "add_alg_seeded cs k h st index = recompute_path cs k h (seed_null cs k h st) index"

definition peak_digest ::
    "cell list \<Rightarrow> hasher \<Rightarrow> cache \<Rightarrow> u64 \<Rightarrow> u32 \<Rightarrow> u64 \<Rightarrow> cache \<times> digest" where
  "peak_digest cs h ca left height k =
     (let right = left + k ^ height - 1
      in case ca (left, right) of
           Some d \<Rightarrow> (ca, d)
         | None \<Rightarrow> eval_subtree ca h (perfect left height k) (leaf_digest_raw cs h))"

section \<open>Operations\<close>

definition empty_state :: alg_state where
  "empty_state = \<lparr>as_root = None, as_cache = (\<lambda>_. None)\<rparr>"

definition cmt_len :: "cmt \<Rightarrow> u64" where
  "cmt_len t = length (cm_cells t)"

definition register_algorithm :: "cmt \<Rightarrow> alg_id \<Rightarrow> hasher \<Rightarrow> cmt_error + cmt" where
  "register_algorithm t alg h =
     (if map_of (cm_hashers t) alg \<noteq> None then Inl (CmtDuplicateAlgorithm alg)
      else let st = recompute_full (cm_cells t) (cm_arity t) h empty_state
           in Inr (t\<lparr>cm_hashers := bt_insert alg h (cm_hashers t),
                     cm_states := bt_insert alg st (cm_states t)\<rparr>))"

definition cmt_set :: "cmt \<Rightarrow> u64 \<Rightarrow> bytes \<Rightarrow> bytes \<Rightarrow> cmt_error + cmt" where
  "cmt_set t index payload metadata =
     (let len = cmt_len t
      in if len < index then Inl (IndexGap index len)
         else let c = \<lparr>ce_payload = payload, ce_metadata = metadata\<rparr>;
                  appended = (index = len);
                  cs = (if appended then cm_cells t @ [c] else (cm_cells t)[index := c])
              in bindE (mapE (\<lambda>(id, st).
                   case map_of (cm_hashers t) id of
                     None \<Rightarrow> Inl CmtPanic
                   | Some h \<Rightarrow>
                       Inr (id, if appended then recompute_full cs (cm_arity t) h st
                                else fst (recompute_path cs (cm_arity t) h st index)))
                 (cm_states t))
                 (\<lambda>states. Inr (t\<lparr>cm_cells := cs, cm_states := states\<rparr>)))"

definition cmt_get :: "cmt \<Rightarrow> u64 \<Rightarrow> bytes option" where
  "cmt_get t index =
     (if index < length (cm_cells t) then Some (ce_payload (cm_cells t ! index)) else None)"

definition cmt_metadata :: "cmt \<Rightarrow> u64 \<Rightarrow> bytes option" where
  "cmt_metadata t index =
     (if index < length (cm_cells t) then Some (ce_metadata (cm_cells t ! index)) else None)"

definition cmt_root :: "cmt \<Rightarrow> alg_id \<Rightarrow> digest option" where
  "cmt_root t alg = (case map_of (cm_states t) alg of None \<Rightarrow> None | Some st \<Rightarrow> as_root st)"

definition cmt_member_roots :: "cmt \<Rightarrow> (alg_id \<times> digest) list" where
  "cmt_member_roots t =
     List.map_filter (\<lambda>(id, st). map_option (\<lambda>r. (id, r)) (as_root st)) (cm_states t)"

text \<open>Evaluation off the path: the cache first, then the children.\<close>

fun eval_cached :: "shape_node \<Rightarrow> cache \<Rightarrow> (u64 \<Rightarrow> digest) \<Rightarrow> (digest list \<Rightarrow> digest) \<Rightarrow> digest" where
  "eval_cached (ShapeLeaf pos) ca leaf_fn node =
     (case ca (node_key (ShapeLeaf pos)) of Some d \<Rightarrow> d | None \<Rightarrow> leaf_fn pos)"
| "eval_cached (Inner children) ca leaf_fn node =
     (case ca (node_key (Inner children)) of
        Some d \<Rightarrow> d
      | None \<Rightarrow> node (map (\<lambda>c. eval_cached c ca leaf_fn node) children))"

function descend_proof ::
    "shape_node \<Rightarrow> u64 \<Rightarrow> cache \<Rightarrow> (u64 \<Rightarrow> digest) \<Rightarrow> (digest list \<Rightarrow> digest) \<Rightarrow> proof_step list \<Rightarrow>
     (digest \<times> proof_step list) option" where
  "descend_proof (ShapeLeaf pos) index ca leaf_fn node path = Some (leaf_fn pos, path)"
| "descend_proof (Inner children) index ca leaf_fn node path =
     (case position (\<lambda>c. covers c index) children of
        None \<Rightarrow> None
      | Some pos \<Rightarrow>
          (case descend_proof (children ! pos) index ca leaf_fn node path of
             None \<Rightarrow> None
           | Some (dig, path') \<Rightarrow>
               let child_digests = (map (\<lambda>c. eval_cached c ca leaf_fn node) children)[pos := dig];
                   siblings = map snd (filter (\<lambda>(i, _). i \<noteq> pos) (enumerate 0 child_digests))
               in Some (node child_digests,
                        path' @ [\<lparr>ps_siblings = siblings, ps_position = pos\<rparr>])))"
  by pat_completeness auto
termination
  by (relation "measure (\<lambda>(node, _). size node)") (auto dest: size_position_shape)

definition inclusion_path ::
    "shape_node \<Rightarrow> u64 \<Rightarrow> cache \<Rightarrow> (u64 \<Rightarrow> digest) \<Rightarrow> (digest list \<Rightarrow> digest) \<Rightarrow> proof_step list option" where
  "inclusion_path shape index ca leaf_fn node =
     map_option snd (descend_proof shape index ca leaf_fn node [])"

definition cmt_inclusion_proof :: "cmt \<Rightarrow> alg_id \<Rightarrow> u64 \<Rightarrow> (digest \<times> proof_step list) option" where
  "cmt_inclusion_proof t alg index =
     (if cmt_len t \<le> index then None
      else case map_of (cm_hashers t) alg of None \<Rightarrow> None | Some h \<Rightarrow>
           case map_of (cm_states t) alg of None \<Rightarrow> None | Some st \<Rightarrow>
           case build (cmt_len t) (cm_arity t) of None \<Rightarrow> None | Some shape \<Rightarrow>
             let leaf_hash = leaf_digest_raw (cm_cells t) h index
             in map_option (\<lambda>path. (leaf_hash, path))
                  (inclusion_path shape index (as_cache st) (leaf_digest_raw (cm_cells t) h) (nary_mr h)))"

definition cmt_leaf_proof :: "cmt \<Rightarrow> alg_id \<Rightarrow> u64 \<Rightarrow> leaf_proof option" where
  "cmt_leaf_proof t alg index =
     map_option (\<lambda>(leaf_hash, path).
       \<lparr>lp_leaf_hash = leaf_hash, lp_index = index, lp_tree_size = cmt_len t,
        lp_arity = cm_arity t, lp_path = path\<rparr>) (cmt_inclusion_proof t alg index)"

definition non_membership_proof :: "cmt \<Rightarrow> alg_id \<Rightarrow> u64 \<Rightarrow> (digest \<times> proof_step list) option" where
  "non_membership_proof t alg index =
     (case map_of (cm_hashers t) alg of None \<Rightarrow> None | Some h \<Rightarrow>
      case cmt_inclusion_proof t alg index of None \<Rightarrow> None
      | Some (leaf_hash, path) \<Rightarrow> if leaf_hash = hs_null h then Some (leaf_hash, path) else None)"

definition add_algorithm_at :: "cmt \<Rightarrow> alg_id \<Rightarrow> u64 \<Rightarrow> hasher \<Rightarrow> cmt_error + (cmt \<times> nat)" where
  "add_algorithm_at t alg index h =
     (if map_of (cm_hashers t) alg \<noteq> None then Inl (CmtDuplicateAlgorithm alg)
      else if cmt_len t \<le> index then Inl (IndexGap index (cmt_len t))
      else let (st, recomputed) = add_alg_seeded (cm_cells t) (cm_arity t) h empty_state index
           in Inr (t\<lparr>cm_hashers := bt_insert alg h (cm_hashers t),
                     cm_states := bt_insert alg st (cm_states t)\<rparr>, recomputed))"

text \<open>The peaks of one algorithm, healing its cache on the way.\<close>

fun peak_digests ::
    "cell list \<Rightarrow> hasher \<Rightarrow> cache \<Rightarrow> u64 \<Rightarrow> coord list \<Rightarrow> digest list" where
  "peak_digests cs h ca k [] = []"
| "peak_digests cs h ca k ((left, height) # coords) =
     (let (ca', d) = peak_digest cs h ca left height k
      in d # peak_digests cs h ca' k coords)"

definition cmt_seal :: "cmt \<Rightarrow> cmt_error + seal" where
  "cmt_seal t =
     (if cm_cells t = [] then Inl EmptySeal
      else let n = length (cm_cells t); k = cm_arity t; coords = frontier_for_size n k
           in bindE (mapE (\<lambda>(id, st).
                case map_of (cm_hashers t) id of
                  None \<Rightarrow> Inl CmtPanic
                | Some h \<Rightarrow> Inr (id, peak_digests (cm_cells t) h (as_cache st) k coords))
              (filter (\<lambda>(id, st). as_root st \<noteq> None) (cm_states t)))
              (\<lambda>frontiers. map_err (\<lambda>_. MalformedSeal) (seal_new n k frontiers)))"

end
