(* ===== verification/Cmt_Cache.thy ===== *)
theory Cmt_Cache
  imports Cmt_Tree
begin

text \<open>
  The node cache of the mutable tree.  Every node of a shape has its own interval key, so a
  full evaluation stores every node, and a walk to one cell rewrites the nodes on the path and
  leaves a cache that is complete for the changed cell digests.
\<close>

section \<open>Keys\<close>

fun subnodes :: "shape_node \<Rightarrow> shape_node list" where
  "subnodes (ShapeLeaf p) = [ShapeLeaf p]"
| "subnodes (Inner cs) = Inner cs # concat (map subnodes cs)"

definition keys :: "shape_node \<Rightarrow> (nat \<times> nat) set" where
  "keys node = node_key ` set (subnodes node)"

definition complete :: "cache \<Rightarrow> hasher \<Rightarrow> (nat \<Rightarrow> digest) \<Rightarrow> shape_node \<Rightarrow> bool" where
  "complete ca h g node \<longleftrightarrow> (\<forall>x \<in> set (subnodes node). ca (node_key x) = Some (ev h g x))"

lemma subnodes_self: "node \<in> set (subnodes node)"
  by (cases node) auto

lemma keys_Inner: "keys (Inner cs) = insert (node_key (Inner cs)) (\<Union>c \<in> set cs. keys c)"
  by (auto simp: keys_def)

lemma complete_Inner:
  "complete ca h g (Inner cs) \<longleftrightarrow>
     ca (node_key (Inner cs)) = Some (ev h g (Inner cs)) \<and> (\<forall>c \<in> set cs. complete ca h g c)"
  by (auto simp: complete_def)

lemma complete_upd: "complete ca h g c \<Longrightarrow> k \<notin> keys c \<Longrightarrow> complete (ca(k \<mapsto> d)) h g c"
  by (auto simp: complete_def keys_def)

lemma key_in_cells:
  assumes "branching node" "(a, b) \<in> keys node" shows "a \<in> set (cells node) \<and> b \<in> set (cells node)"
  using assms
proof (induction node)
  case (ShapeLeaf p)
  then show ?case by (simp add: keys_def node_key_def)
next
  case (Inner cs)
  show ?case
  proof (cases "(a, b) = node_key (Inner cs)")
    case True
    then have "a = hd (cells (Inner cs))" "b = last (cells (Inner cs))"
      using leftmost_hd [OF Inner.prems(1)] rightmost_last [OF Inner.prems(1)] by (simp_all add: node_key_def)
    then show ?thesis using cells_nonempty [OF Inner.prems(1)] by (simp del: cells_simps)
  next
    case False
    then obtain c where c: "c \<in> set cs" "(a, b) \<in> keys c" using Inner.prems(2) by (auto simp: keys_Inner)
    then have "a \<in> set (cells c) \<and> b \<in> set (cells c)"
      using Inner.prems(1) by (intro Inner.IH) (auto simp: list_all_iff)
    then show ?thesis using c(1) by auto
  qed
qed

lemma keys_subset: "branching node \<Longrightarrow> keys node \<subseteq> set (cells node) \<times> set (cells node)"
  using key_in_cells by auto

lemma distinct_concat_disjoint:
  "distinct (concat (map F cs)) \<Longrightarrow> i < j \<Longrightarrow> j < length cs \<Longrightarrow> set (F (cs ! i)) \<inter> set (F (cs ! j)) = {}"
proof (induction cs arbitrary: i j)
  case (Cons c cs)
  obtain j' where j: "j = Suc j'" "j' < length cs" using Cons.prems(2,3) by (cases j) auto
  show ?case
  proof (cases i)
    case 0
    have "set (F c) \<inter> set (concat (map F cs)) = {}" using Cons.prems(1) by simp
    moreover have "set (F (cs ! j')) \<subseteq> set (concat (map F cs))" using nth_mem [OF j(2)] by auto
    ultimately show ?thesis using 0 j(1) by (simp only: nth_Cons_0 nth_Cons_Suc) blast
  next
    case (Suc i')
    have "set (F (cs ! i')) \<inter> set (F (cs ! j')) = {}"
      using Cons.prems(1,2) Suc j by (intro Cons.IH) simp_all
    then show ?thesis using Suc j(1) by simp
  qed
qed simp

text \<open>Children of a node have disjoint keys, all different from the node's own.\<close>

definition separated :: "shape_node list \<Rightarrow> bool" where
  "separated cs \<longleftrightarrow> (\<forall>i j. i < j \<longrightarrow> j < length cs \<longrightarrow> keys (cs ! i) \<inter> keys (cs ! j) = {})"

lemma separated_Cons:
  "separated (c # cs) \<longleftrightarrow> (\<forall>x \<in> set cs. keys c \<inter> keys x = {}) \<and> separated cs"
proof
  assume s: "separated (c # cs)"
  have "keys c \<inter> keys (cs ! j) = {}" if "j < length cs" for j
    using s that unfolding separated_def by (elim allE [of _ 0] allE [of _ "Suc j"]) simp
  moreover have "separated cs"
    unfolding separated_def
  proof (intro allI impI)
    fix i j assume "i < j" "j < length cs"
    then show "keys (cs ! i) \<inter> keys (cs ! j) = {}"
      using s unfolding separated_def by (elim allE [of _ "Suc i"] allE [of _ "Suc j"]) simp
  qed
  ultimately show "(\<forall>x \<in> set cs. keys c \<inter> keys x = {}) \<and> separated cs"
    by (metis in_set_conv_nth)
next
  assume "(\<forall>x \<in> set cs. keys c \<inter> keys x = {}) \<and> separated cs"
  then show "separated (c # cs)"
    unfolding separated_def by (auto simp: nth_Cons split: nat.splits)
qed

lemma interval_separated:
  assumes "interval (Inner cs)"
  shows "separated cs" and "c \<in> set cs \<Longrightarrow> node_key (Inner cs) \<notin> keys c"
proof -
  obtain lo hi where cells: "concat (map cells cs) = [lo..<hi]" and b: "branching (Inner cs)"
    using assms by (auto simp: interval_def)
  then have dist: "distinct (concat (map cells cs))" by simp
  have disj: "set (cells (cs ! i)) \<inter> set (cells (cs ! j)) = {}" if "i < j" "j < length cs" for i j
    by (rule distinct_concat_disjoint [OF dist that])
  have br: "branching (cs ! i)" if "i < length cs" for i using b that by (auto simp: list_all_iff)
  show "separated cs"
    unfolding separated_def
  proof (intro allI impI)
    fix i j assume ij: "i < j" "j < length cs"
    then have il: "i < length cs" by simp
    show "keys (cs ! i) \<inter> keys (cs ! j) = {}"
    proof (intro equals0I)
      fix x assume "x \<in> keys (cs ! i) \<inter> keys (cs ! j)"
      then obtain a b where "(a, b) \<in> keys (cs ! i)" "(a, b) \<in> keys (cs ! j)" by (cases x) auto
      then have "a \<in> set (cells (cs ! i))" "a \<in> set (cells (cs ! j))"
        using key_in_cells [OF br [OF il]] key_in_cells [OF br [OF ij(2)]] by blast+
      then show False using disj [OF ij] by blast
    qed
  qed
  show "node_key (Inner cs) \<notin> keys c" if c: "c \<in> set cs"
  proof
    assume "node_key (Inner cs) \<in> keys c"
    then have *: "leftmost (Inner cs) \<in> set (cells c)" "rightmost (Inner cs) \<in> set (cells c)"
      using key_in_cells [of c] b c by (auto simp: node_key_def list_all_iff)
    obtain i where i: "i < length cs" "c = cs ! i" using c by (metis in_set_conv_nth)
    have len: "2 \<le> length cs" using b by simp
    then have ne: "cs \<noteq> []" by auto
    have "leftmost (Inner cs) = leftmost (cs ! 0)" "rightmost (Inner cs) = rightmost (cs ! (length cs - 1))"
      using ne by (cases cs, simp_all add: last_conv_nth)
    then have l: "leftmost (Inner cs) \<in> set (cells (cs ! 0))"
      and r: "rightmost (Inner cs) \<in> set (cells (cs ! (length cs - 1)))"
      using leftmost_hd rightmost_last cells_nonempty br len ne by (metis hd_in_set length_greater_0_conv,
        metis last_in_set length_greater_0_conv diff_less zero_less_one)
    have "i = 0" using disj [of 0 i] i l *(1) by (cases "i = 0") auto
    moreover have "i = length cs - 1"
    proof (rule ccontr)
      assume "i \<noteq> length cs - 1"
      then have "i < length cs - 1" "length cs - 1 < length cs" using i(1) len by simp_all
      from disj [OF this] r *(2) i(2) show False by blast
    qed
    ultimately show False using len by simp
  qed
qed

section \<open>Full evaluation\<close>

lemma eval_subtrees_spec:
  assumes "\<And>c ca. c \<in> set cs \<Longrightarrow> \<exists>ca'. eval_subtree ca h c g = (ca', ev h g c)
      \<and> complete ca' h g c \<and> (\<forall>x. x \<notin> keys c \<longrightarrow> ca' x = ca x)"
    and "separated cs"
  shows "\<exists>ca'. eval_subtrees ca h cs g = (ca', map (ev h g) cs) \<and> (\<forall>c \<in> set cs. complete ca' h g c)
      \<and> (\<forall>x. x \<notin> (\<Union>c \<in> set cs. keys c) \<longrightarrow> ca' x = ca x)"
  using assms
proof (induction cs arbitrary: ca)
  case (Cons c cs)
  obtain ca1 where 1: "eval_subtree ca h c g = (ca1, ev h g c)" "complete ca1 h g c"
    "\<forall>x. x \<notin> keys c \<longrightarrow> ca1 x = ca x"
    using Cons.prems(1) [of c ca] by auto
  have sep: "\<forall>x \<in> set cs. keys c \<inter> keys x = {}" "separated cs"
    using Cons.prems(2) by (simp_all add: separated_Cons)
  obtain ca2 where 2: "eval_subtrees ca1 h cs g = (ca2, map (ev h g) cs)"
    "\<forall>c \<in> set cs. complete ca2 h g c" "\<forall>x. x \<notin> (\<Union>c \<in> set cs. keys c) \<longrightarrow> ca2 x = ca1 x"
    using Cons.IH [of ca1] Cons.prems(1) sep(2) by auto
  have "complete ca2 h g c"
    unfolding complete_def
  proof
    fix x assume x: "x \<in> set (subnodes c)"
    then have "node_key x \<in> keys c" by (simp add: keys_def)
    then have "node_key x \<notin> (\<Union>c \<in> set cs. keys c)" using sep(1) by blast
    then have "ca2 (node_key x) = ca1 (node_key x)" using 2(3) by blast
    then show "ca2 (node_key x) = Some (ev h g x)" using 1(2) x by (simp add: complete_def)
  qed
  then show ?case using 1 2 by auto
qed simp

lemma eval_subtree_spec:
  "interval node \<Longrightarrow> \<exists>ca'. eval_subtree ca h node g = (ca', ev h g node) \<and> complete ca' h g node
     \<and> (\<forall>x. x \<notin> keys node \<longrightarrow> ca' x = ca x)"
proof (induction node arbitrary: ca)
  case (ShapeLeaf p)
  show ?case
    by (intro exI [of _ "ca(node_key (ShapeLeaf p) \<mapsto> g p)"]) (auto simp: complete_def keys_def Let_def)
next
  case (Inner cs)
  have "\<exists>ca'. eval_subtrees ca h cs g = (ca', map (ev h g) cs) \<and> (\<forall>c \<in> set cs. complete ca' h g c)
      \<and> (\<forall>x. x \<notin> (\<Union>c \<in> set cs. keys c) \<longrightarrow> ca' x = ca x)"
    using Inner.IH interval_child [OF Inner.prems] interval_separated(1) [OF Inner.prems]
    by (intro eval_subtrees_spec) blast+
  then obtain ca' where ca': "eval_subtrees ca h cs g = (ca', map (ev h g) cs)"
    "\<forall>c \<in> set cs. complete ca' h g c" "\<forall>x. x \<notin> (\<Union>c \<in> set cs. keys c) \<longrightarrow> ca' x = ca x" by blast
  let ?k = "node_key (Inner cs)" and ?d = "nary_mr h (map (ev h g) cs)"
  define ca2 where "ca2 = ca'(?k \<mapsto> ?d)"
  have "complete ca2 h g c" if "c \<in> set cs" for c
    unfolding ca2_def using ca'(2) that interval_separated(2) [OF Inner.prems that]
    by (intro complete_upd) blast+
  moreover have "ca2 ?k = Some ?d" by (simp add: ca2_def)
  ultimately have "complete ca2 h g (Inner cs)" by (simp add: complete_Inner)
  moreover have "eval_subtree ca h (Inner cs) g = (ca2, ev h g (Inner cs))"
    unfolding eval_subtree.simps ca'(1) Let_def prod.case ca2_def ev.simps by (rule refl)
  moreover have "\<forall>x. x \<notin> keys (Inner cs) \<longrightarrow> ca2 x = ca x"
    using ca'(3) by (simp add: ca2_def keys_Inner)
  ultimately show ?case by blast
qed

section \<open>The walk to one cell\<close>

text \<open>The inner nodes on the path to a cell.\<close>

fun path_len :: "nat \<Rightarrow> shape_node \<Rightarrow> nat" where
  "path_len i (ShapeLeaf p) = 0"
| "path_len i (Inner cs) = Suc (sum_list (map (\<lambda>c. if covers c i then path_len i c else 0) cs))"

lemma complete_change:
  assumes "complete ca h g node" "i \<notin> set (cells node)" "\<And>j. j \<noteq> i \<Longrightarrow> g' j = g j"
  shows "complete ca h g' node"
proof -
  have sub: "x \<in> set (subnodes node) \<Longrightarrow> set (cells x) \<subseteq> set (cells node)" for x node
    by (induction node) auto
  have "ev h g' x = ev h g x" if "x \<in> set (subnodes node)" for x
    using sub [OF that] assms(2) by (intro ev_cong assms(3)) auto
  then show ?thesis using assms(1) by (simp add: complete_def)
qed

lemma eval_on_paths_spec:
  assumes "\<And>j. j \<noteq> i \<Longrightarrow> g' j = g j"
    and "\<And>c ca n. c \<in> set cs \<Longrightarrow> covers c i \<Longrightarrow> complete ca h g c \<Longrightarrow>
      \<exists>ca'. eval_on_path cells' h ca c i n = (ca', ev h g' c, n + path_len i c)
        \<and> complete ca' h g' c \<and> (\<forall>x. x \<notin> keys c \<longrightarrow> ca' x = ca x)"
    and "separated cs" "\<And>c. c \<in> set cs \<Longrightarrow> interval c" "\<And>c. c \<in> set cs \<Longrightarrow> complete ca h g c"
  shows "\<exists>ca'. eval_on_paths cells' h ca cs i n = (ca', map (ev h g') cs,
        n + sum_list (map (\<lambda>c. if covers c i then path_len i c else 0) cs))
      \<and> (\<forall>c \<in> set cs. complete ca' h g' c)
      \<and> (\<forall>x. x \<notin> (\<Union>c \<in> set cs. keys c) \<longrightarrow> ca' x = ca x)"
  using assms(2-)
proof (induction cs arbitrary: ca n)
  case (Cons c cs)
  let ?n = "n + (if covers c i then path_len i c else 0)"
  have "\<exists>ca1. (if covers c i then eval_on_path cells' h ca c i n
      else case ca (node_key c) of Some d \<Rightarrow> (ca, d, n)
        | None \<Rightarrow> let (ca', d) = eval_subtree ca h c (leaf_digest_raw cells' h) in (ca', d, n))
      = (ca1, ev h g' c, ?n) \<and> complete ca1 h g' c \<and> (\<forall>x. x \<notin> keys c \<longrightarrow> ca1 x = ca x)"
  proof (cases "covers c i")
    case True
    have "\<exists>ca1. eval_on_path cells' h ca c i n = (ca1, ev h g' c, n + path_len i c)
        \<and> complete ca1 h g' c \<and> (\<forall>x. x \<notin> keys c \<longrightarrow> ca1 x = ca x)"
      using True Cons.prems(4) by (intro Cons.prems(1)) simp_all
    then show ?thesis using True by (simp only: if_True)
  next
    case False
    then have i: "i \<notin> set (cells c)" using covers_iff [of c i] Cons.prems(3) by simp
    have com: "complete ca h g' c" using Cons.prems(4) i by (intro complete_change [OF _ _ assms(1)]) simp_all
    then have "ca (node_key c) = Some (ev h g' c)" using subnodes_self by (simp add: complete_def)
    then show ?thesis using False com by simp
  qed
  then obtain ca1 where 1: "(if covers c i then eval_on_path cells' h ca c i n
      else case ca (node_key c) of Some d \<Rightarrow> (ca, d, n)
        | None \<Rightarrow> let (ca', d) = eval_subtree ca h c (leaf_digest_raw cells' h) in (ca', d, n))
      = (ca1, ev h g' c, ?n)" "complete ca1 h g' c" "\<forall>x. x \<notin> keys c \<longrightarrow> ca1 x = ca x" by blast
  have sep: "\<forall>x \<in> set cs. keys c \<inter> keys x = {}" "separated cs"
    using Cons.prems(2) by (simp_all add: separated_Cons)
  have "complete ca1 h g x" if "x \<in> set cs" for x
  proof -
    have "complete ca h g x" using Cons.prems(4) that by simp
    moreover have "ca1 k = ca k" if "k \<in> keys x" for k
    proof -
      have "k \<notin> keys c" using sep(1) \<open>x \<in> set cs\<close> that by blast
      then show ?thesis using 1(3) by blast
    qed
    ultimately show ?thesis by (simp add: complete_def keys_def)
  qed
  then have "\<exists>ca2. eval_on_paths cells' h ca1 cs i ?n = (ca2, map (ev h g') cs,
        ?n + sum_list (map (\<lambda>c. if covers c i then path_len i c else 0) cs))
      \<and> (\<forall>c \<in> set cs. complete ca2 h g' c)
      \<and> (\<forall>x. x \<notin> (\<Union>c \<in> set cs. keys c) \<longrightarrow> ca2 x = ca1 x)"
    using Cons.prems(1,3) sep(2) by (intro Cons.IH) simp_all
  then obtain ca2 where 2: "eval_on_paths cells' h ca1 cs i ?n = (ca2, map (ev h g') cs,
        ?n + sum_list (map (\<lambda>c. if covers c i then path_len i c else 0) cs))"
      "\<forall>c \<in> set cs. complete ca2 h g' c" "\<forall>x. x \<notin> (\<Union>c \<in> set cs. keys c) \<longrightarrow> ca2 x = ca1 x" by blast
  have "complete ca2 h g' c"
    unfolding complete_def
  proof
    fix x assume x: "x \<in> set (subnodes c)"
    then have "node_key x \<in> keys c" by (simp add: keys_def)
    then have "node_key x \<notin> (\<Union>c \<in> set cs. keys c)" using sep(1) by blast
    then have "ca2 (node_key x) = ca1 (node_key x)" using 2(3) by blast
    then show "ca2 (node_key x) = Some (ev h g' x)" using 1(2) x by (simp add: complete_def)
  qed
  moreover have "eval_on_paths cells' h ca (c # cs) i n = (ca2, map (ev h g') (c # cs),
        n + sum_list (map (\<lambda>c. if covers c i then path_len i c else 0) (c # cs)))"
    unfolding eval_on_paths.simps 1(1)
    by (simp only: Let_def prod.case 2(1) list.map sum_list.Cons add.assoc)
  moreover have "\<forall>x. x \<notin> (\<Union>c \<in> set (c # cs). keys c) \<longrightarrow> ca2 x = ca x" using 1(3) 2(3) by simp
  ultimately show ?case using 2(2) by (intro exI [of _ ca2]) simp
qed simp

lemma eval_on_path_spec:
  assumes g': "\<And>j. j \<noteq> i \<Longrightarrow> g' j = g j" "g' i = leaf_digest_raw cells' h i"
  shows "interval node \<Longrightarrow> covers node i \<Longrightarrow> complete ca h g node \<Longrightarrow>
    \<exists>ca'. eval_on_path cells' h ca node i n
        = (ca', ev h g' node, n + path_len i node)
      \<and> complete ca' h g' node
      \<and> (\<forall>x. x \<notin> keys node \<longrightarrow> ca' x = ca x)"
proof (induction node arbitrary: ca n)
  case (ShapeLeaf p)
  then have "p = i" by (simp add: covers_def)
  then show ?case
    by (intro exI [of _ "ca((i, i) \<mapsto> leaf_digest_raw cells' h i)"])
      (auto simp: complete_def keys_def node_key_def Let_def g'(2))
next
  case (Inner cs)
  have "\<exists>ca'. eval_on_paths cells' h ca cs i n = (ca', map (ev h g') cs,
        n + sum_list (map (\<lambda>c. if covers c i then path_len i c else 0) cs))
      \<and> (\<forall>c \<in> set cs. complete ca' h g' c)
      \<and> (\<forall>x. x \<notin> (\<Union>c \<in> set cs. keys c) \<longrightarrow> ca' x = ca x)"
  proof (rule eval_on_paths_spec [OF g'(1)])
    fix c ca n assume "c \<in> set cs" "covers c i" "complete ca h g c"
    then show "\<exists>ca'. eval_on_path cells' h ca c i n = (ca', ev h g' c, n + path_len i c)
        \<and> complete ca' h g' c \<and> (\<forall>x. x \<notin> keys c \<longrightarrow> ca' x = ca x)"
      using Inner.IH interval_child [OF Inner.prems(1)] by blast
  next
    show "separated cs" by (rule interval_separated(1) [OF Inner.prems(1)])
  next
    show "interval c" if "c \<in> set cs" for c by (rule interval_child [OF Inner.prems(1) that])
  next
    show "complete ca h g c" if "c \<in> set cs" for c
      using Inner.prems(3) that by (simp add: complete_Inner)
  qed
  then obtain ca' where ca': "eval_on_paths cells' h ca cs i n = (ca', map (ev h g') cs,
        n + sum_list (map (\<lambda>c. if covers c i then path_len i c else 0) cs))"
      "\<forall>c \<in> set cs. complete ca' h g' c" "\<forall>x. x \<notin> (\<Union>c \<in> set cs. keys c) \<longrightarrow> ca' x = ca x" by blast
  let ?k = "node_key (Inner cs)" and ?d = "nary_mr h (map (ev h g') cs)"
  define ca2 where "ca2 = ca'(?k \<mapsto> ?d)"
  have "complete ca2 h g' c" if "c \<in> set cs" for c
    unfolding ca2_def using ca'(2) that interval_separated(2) [OF Inner.prems(1) that]
    by (intro complete_upd) blast+
  moreover have "ca2 ?k = Some ?d" by (simp add: ca2_def)
  ultimately have "complete ca2 h g' (Inner cs)" by (simp add: complete_Inner)
  moreover have "eval_on_path cells' h ca (Inner cs) i n
      = (ca2, ev h g' (Inner cs), n + path_len i (Inner cs))"
    unfolding eval_on_path.simps ca'(1) Let_def prod.case ca2_def ev.simps path_len.simps by simp
  moreover have "\<forall>x. x \<notin> keys (Inner cs) \<longrightarrow> ca2 x = ca x"
    using ca'(3) by (simp add: ca2_def keys_Inner)
  ultimately show ?case by blast
qed

section \<open>The proof path\<close>

lemma eval_cached_complete:
  "complete ca h g node \<Longrightarrow> eval_cached node ca lf nd = ev h g node"
proof -
  assume "complete ca h g node"
  then have "ca (node_key node) = Some (ev h g node)" using subnodes_self [of node] by (simp add: complete_def)
  then show ?thesis by (cases node) simp_all
qed

text \<open>
  The path to a cell climbs from the cell's digest to the node, and its shape is the skeleton
  of the same descent.
\<close>

lemma descend_bag_out: "snd (descend_bag t i out) = out @ snd (descend_bag t i [])"
proof -
  have "snd (descend_bag t i (out1 @ out2)) = out1 @ snd (descend_bag t i out2)" for out1 out2
  proof (induction t i out2 arbitrary: out1 rule: descend_bag.induct)
    case (2 children target out)
    then show ?case by (cases "position (\<lambda>c. covers_peak c target) children") simp_all
  qed simp
  from this [of out "[]"] show ?thesis by simp
qed

text \<open>The digests a sibling list may hold have the width of the hasher.\<close>

definition wide_nodes :: "hasher \<Rightarrow> (nat \<Rightarrow> digest) \<Rightarrow> shape_node \<Rightarrow> bool" where
  "wide_nodes h g node \<longleftrightarrow> (\<forall>x \<in> set (subnodes node). length (ev h g x) = digest_len h)"

lemma wide_nodes_Inner: "wide_nodes h g (Inner cs) \<Longrightarrow> c \<in> set cs \<Longrightarrow> wide_nodes h g c"
  by (auto simp: wide_nodes_def)

lemma wide_nodes_child:
  assumes "wide_nodes h g (Inner cs)" "c \<in> set cs" shows "length (ev h g c) = digest_len h"
  using wide_nodes_Inner [OF assms] subnodes_self [of c] by (simp add: wide_nodes_def)

lemma sibling_step_ok:
  assumes "bag_wf k (to_bag (Inner cs))" "k \<le> 257" "wide_nodes h g (Inner cs)" "pos < length cs"
  shows "step_ok (digest_len h) \<lparr>ps_siblings = remove_nth pos (map (ev h g) cs), ps_position = pos\<rparr>"
proof -
  have "length x = digest_len h" if "x \<in> set (remove_nth pos (map (ev h g) cs))" for x
    using that set_remove_nth_subset [of pos "map (ev h g) cs"] wide_nodes_child [OF assms(3)] by auto
  moreover have "length (remove_nth pos (map (ev h g) cs)) = length cs - 1" using assms(4) by simp
  moreover have "2 \<le> length cs" "length cs \<le> 257" using assms(1,2) by simp_all
  moreover from calculation have "remove_nth pos (map (ev h g) cs) \<noteq> []" by auto
  moreover have "length cs - 1 \<le> 256" "pos \<le> length cs - 1" using assms(4) calculation(3,4) by linarith+
  ultimately show ?thesis by (simp add: step_ok_def)
qed

lemma descend_proof_Inner:
  assumes "position (\<lambda>c. covers c i) cs = Some pos" "pos < length cs"
    and "\<And>c. c \<in> set cs \<Longrightarrow> complete ca h g c"
    and "descend_proof (cs ! pos) i ca lf (nary_mr h) path = Some (ev h g (cs ! pos), path')"
  shows "descend_proof (Inner cs) i ca lf (nary_mr h) path = Some (ev h g (Inner cs),
     path' @ [\<lparr>ps_siblings = remove_nth pos (map (ev h g) cs), ps_position = pos\<rparr>])"
proof -
  have "map (\<lambda>c. eval_cached c ca lf (nary_mr h)) cs = map (ev h g) cs"
    using eval_cached_complete [OF assms(3)] by (intro map_cong) simp_all
  then have "(map (\<lambda>c. eval_cached c ca lf (nary_mr h)) cs)[pos := ev h g (cs ! pos)] = map (ev h g) cs"
    using assms(2) by (metis list_update_id nth_map)
  then show ?thesis
    using assms(1,4) by (simp add: Let_def enumerate_filter_remove_nth)
qed

lemma descend_proof_spec:
  "interval node \<Longrightarrow> i \<in> set (cells node) \<Longrightarrow> complete ca h g node \<Longrightarrow> g i = lf i \<Longrightarrow>
    \<exists>q. descend_proof node i ca lf (nary_mr h) path = Some (ev h g node, path @ q)
      \<and> climb h q (lf i) = ev h g node
      \<and> rev (map step_shape q) = snd (descend_bag (to_bag node) i [])
      \<and> (bag_wf k (to_bag node) \<longrightarrow> k \<le> 257 \<longrightarrow> wide_nodes h g node \<longrightarrow> list_all (step_ok (digest_len h)) q)"
proof (induction node arbitrary: path)
  case (ShapeLeaf p)
  then show ?case by simp
next
  case (Inner cs)
  from position_covers_Some [OF Inner.prems(1,2)] obtain pos where
    pos: "position (\<lambda>c. covers c i) cs = Some pos" "pos < length cs"
    "interval (cs ! pos)" "i \<in> set (cells (cs ! pos))" by metis
  have mem: "cs ! pos \<in> set cs" using pos(2) by simp
  have com: "complete ca h g c" if "c \<in> set cs" for c
    using Inner.prems(3) that by (simp add: complete_Inner)
  from Inner.IH [OF mem pos(3,4) com [OF mem] Inner.prems(4), of path] obtain q where
    q: "descend_proof (cs ! pos) i ca lf (nary_mr h) path = Some (ev h g (cs ! pos), path @ q)"
    "climb h q (lf i) = ev h g (cs ! pos)"
    "rev (map step_shape q) = snd (descend_bag (to_bag (cs ! pos)) i [])"
    "bag_wf k (to_bag (cs ! pos)) \<longrightarrow> k \<le> 257 \<longrightarrow> wide_nodes h g (cs ! pos)
       \<longrightarrow> list_all (step_ok (digest_len h)) q" by (elim exE conjE)
  let ?s = "\<lparr>ps_siblings = remove_nth pos (map (ev h g) cs), ps_position = pos\<rparr>"
  have eq: "descend_proof (Inner cs) i ca lf (nary_mr h) path = Some (ev h g (Inner cs), path @ q @ [?s])"
    using descend_proof_Inner [OF pos(1,2) com q(1)] by (simp only: append_assoc)
  have climb: "climb h (q @ [?s]) (lf i) = ev h g (Inner cs)"
    using apply_step_remove_nth [of pos "map (ev h g) cs" h] pos(2) q(2) by simp
  have "position (\<lambda>c. covers_peak c i) (map to_bag cs) = Some pos"
    using position_covers [OF Inner.prems(1)] pos(1) by metis
  then have shape: "rev (map step_shape (q @ [?s])) = snd (descend_bag (to_bag (Inner cs)) i [])"
    using q(3) pos(2) descend_bag_out [of "to_bag (cs ! pos)" i "[\<lparr>sk_position = pos, sk_sibling_count = length cs - 1\<rparr>]"]
    by (simp add: step_shape_def)
  have "list_all (step_ok (digest_len h)) (q @ [?s])"
    if wf: "bag_wf k (to_bag (Inner cs))" "k \<le> 257" "wide_nodes h g (Inner cs)"
  proof -
    have "bag_wf k (to_bag (cs ! pos))" using wf(1) mem by (simp add: list_all_iff)
    then have "list_all (step_ok (digest_len h)) q"
      using q(4) wf(2) wide_nodes_Inner [OF wf(3) mem] by blast
    then show ?thesis using sibling_step_ok [OF wf pos(2)] by simp
  qed
  then show ?case using eq climb shape by blast
qed

end
