(* ===== verification/Cmt_Correct.thy ===== *)
theory Cmt_Correct
  imports Cmt_Cache
begin

text \<open>
  What the mutable tree promises.  The abstract tree has, per algorithm, its hasher and the
  list of leaf digests it has committed; every operation of \<^verbatim>\<open>cmt/src/tree.rs\<close> is a
  refinement of an update of those lists, the cache and the path walk being hidden.  Proofs,
  the cost of a path recompute and the seal follow from the abstract state.
\<close>

section \<open>The abstract tree\<close>

type_synonym commitments = "alg_id \<Rightarrow> (hasher \<times> digest list) option"

definition leaf_list :: "cell list \<Rightarrow> hasher \<Rightarrow> digest list" where
  "leaf_list cs h = map (\<lambda>c. hs_leaf h (ce_payload c)) cs"

definition spec_root :: "hasher \<Rightarrow> nat \<Rightarrow> digest list \<Rightarrow> digest option" where
  "spec_root h k ds =
     (if ds = [] then None
      else Some (rebalanced_bag h (fdigs h k (\<lambda>i. ds ! i) (frontier_for_size (length ds) k)) k))"

definition spec_register :: "cmt \<Rightarrow> alg_id \<Rightarrow> hasher \<Rightarrow> commitments \<Rightarrow> commitments" where
  "spec_register t alg h A = A(alg \<mapsto> (h, leaf_list (cm_cells t) h))"

text \<open>An append commits every cell under every algorithm, an overwrite only the cell.\<close>

definition spec_set :: "cmt \<Rightarrow> u64 \<Rightarrow> bytes \<Rightarrow> commitments \<Rightarrow> commitments" where
  "spec_set t index payload A =
     (\<lambda>alg. map_option (\<lambda>(h, ds).
        (h, if index = cmt_len t then leaf_list (cm_cells t) h @ [hs_leaf h payload]
            else ds[index := hs_leaf h payload])) (A alg))"

definition spec_add_at :: "cmt \<Rightarrow> alg_id \<Rightarrow> u64 \<Rightarrow> hasher \<Rightarrow> commitments \<Rightarrow> commitments" where
  "spec_add_at t alg index h A =
     A(alg \<mapsto> (h, (replicate (length (cm_cells t)) (hs_null h))
         [index := hs_leaf h (ce_payload (cm_cells t ! index))]))"

definition state_for :: "nat \<Rightarrow> hasher \<Rightarrow> digest list \<Rightarrow> alg_state \<Rightarrow> bool" where
  "state_for k h ds st \<longleftrightarrow>
     (case build (length ds) k of
        None \<Rightarrow> as_root st = None
      | Some s \<Rightarrow> as_root st = Some (ev h (\<lambda>i. ds ! i) s) \<and> complete (as_cache st) h (\<lambda>i. ds ! i) s)"

definition represents :: "cmt \<Rightarrow> commitments \<Rightarrow> bool" where
  "represents t A \<longleftrightarrow>
     arity_ok (cm_arity t) \<and> length (cm_cells t) < u64_limit
     \<and> bt_keys (cm_hashers t) \<and> bt_keys (cm_states t)
     \<and> (\<forall>alg. case A alg of
          None \<Rightarrow> map_of (cm_hashers t) alg = None \<and> map_of (cm_states t) alg = None
        | Some (h, ds) \<Rightarrow> map_of (cm_hashers t) alg = Some h \<and> length ds = length (cm_cells t)
            \<and> (\<exists>st. map_of (cm_states t) alg = Some st \<and> state_for (cm_arity t) h ds st))"

lemma represents_dest:
  assumes "represents t A" "A alg = Some (h, ds)"
  obtains st where "map_of (cm_hashers t) alg = Some h" "length ds = length (cm_cells t)"
    "map_of (cm_states t) alg = Some st" "state_for (cm_arity t) h ds st"
proof -
  from assms(1) have "case A alg of
          None \<Rightarrow> map_of (cm_hashers t) alg = None \<and> map_of (cm_states t) alg = None
        | Some (h, ds) \<Rightarrow> map_of (cm_hashers t) alg = Some h \<and> length ds = length (cm_cells t)
            \<and> (\<exists>st. map_of (cm_states t) alg = Some st \<and> state_for (cm_arity t) h ds st)"
    by (simp add: represents_def)
  with assms(2) that show thesis by auto
qed

lemma represents_None:
  assumes "represents t A"
  shows "A alg = None \<longleftrightarrow> map_of (cm_hashers t) alg = None"
    and "A alg = None \<longleftrightarrow> map_of (cm_states t) alg = None"
proof -
  from assms have "case A alg of
          None \<Rightarrow> map_of (cm_hashers t) alg = None \<and> map_of (cm_states t) alg = None
        | Some (h, ds) \<Rightarrow> map_of (cm_hashers t) alg = Some h \<and> length ds = length (cm_cells t)
            \<and> (\<exists>st. map_of (cm_states t) alg = Some st \<and> state_for (cm_arity t) h ds st)"
    by (simp add: represents_def)
  then show "A alg = None \<longleftrightarrow> map_of (cm_hashers t) alg = None"
    and "A alg = None \<longleftrightarrow> map_of (cm_states t) alg = None"
    by (auto split: option.splits)
qed

lemma representsI:
  assumes "arity_ok (cm_arity t)" "length (cm_cells t) < u64_limit"
    and "bt_keys (cm_hashers t)" "bt_keys (cm_states t)"
    and "\<And>alg. A alg = None \<Longrightarrow> map_of (cm_hashers t) alg = None \<and> map_of (cm_states t) alg = None"
    and "\<And>alg h ds. A alg = Some (h, ds) \<Longrightarrow> map_of (cm_hashers t) alg = Some h
      \<and> length ds = length (cm_cells t)
      \<and> (\<exists>st. map_of (cm_states t) alg = Some st \<and> state_for (cm_arity t) h ds st)"
  shows "represents t A"
  using assms by (auto simp: represents_def split: option.split)

lemma represents_arity: "represents t A \<Longrightarrow> arity_ok (cm_arity t) \<and> length (cm_cells t) < u64_limit"
  by (simp add: represents_def)

section \<open>The evaluation routines\<close>

lemma build_None: "arity_ok k \<Longrightarrow> n < u64_limit \<Longrightarrow> build n k = None \<longleftrightarrow> n = 0"
  using build_Some [of k n] by (cases "n = 0") (simp_all add: build_def)

lemma build_obtain:
  assumes "arity_ok k" "n < u64_limit" "0 < n" obtains s where "build n k = Some s"
  using build_None [OF assms(1,2)] assms(3) that by (cases "build n k") auto

lemma state_for_root:
  assumes "state_for k h ds st" "arity_ok k" "length ds < u64_limit"
  shows "as_root st = spec_root h k ds"
proof (cases "ds = []")
  case True
  then show ?thesis using assms(1) by (simp add: state_for_def spec_root_def build_def)
next
  case False
  obtain s where s: "build (length ds) k = Some s"
    using build_obtain [OF assms(2,3)] False by auto
  then show ?thesis
    using assms(1) False ev_build [OF s assms(3)] by (simp add: state_for_def spec_root_def)
qed

lemma leaf_list_nth: "i < length cs \<Longrightarrow> leaf_list cs h ! i = leaf_digest_raw cs h i"
  by (simp add: leaf_list_def leaf_digest_raw_def)

lemma length_leaf_list [simp]: "length (leaf_list cs h) = length cs"
  by (simp add: leaf_list_def)

text \<open>A full evaluation over a leaf function that agrees with a list on its indices.\<close>

lemma eval_subtree_state:
  assumes "build n k = Some s" "n < u64_limit" "length ds = n" "\<And>i. i < n \<Longrightarrow> lf i = ds ! i"
    and "eval_subtree ca0 h s lf = (ca, dig)"
  shows "state_for k h ds (st\<lparr>as_cache := ca, as_root := Some dig\<rparr>)"
proof -
  from build_wf [OF assms(1,2)] have c: "cells s = [0..<n]" and i: "interval s" by simp_all
  obtain ca' where e: "eval_subtree ca0 h s lf = (ca', ev h lf s)" "complete ca' h lf s"
    using eval_subtree_spec [OF i, of ca0 h lf] by blast
  have sub: "x \<in> set (subnodes node) \<Longrightarrow> set (cells x) \<subseteq> set (cells node)" for x node
    by (induction node) auto
  have ev: "ev h lf x = ev h (\<lambda>i. ds ! i) x" if "x \<in> set (subnodes s)" for x
    using sub [OF that] c assms(4) by (intro ev_cong) auto
  have "ca = ca'" "dig = ev h lf s" using e(1) assms(5) by simp_all
  then show ?thesis
    using e(2) ev subnodes_self [of s] assms(1,3) by (simp add: state_for_def complete_def)
qed

lemma recompute_full_state:
  assumes "arity_ok k" "length cs < u64_limit"
  shows "state_for k h (leaf_list cs h) (recompute_full cs k h st)"
proof (cases "build (length cs) k")
  case None
  then show ?thesis by (simp add: recompute_full_def state_for_def)
next
  case (Some s)
  obtain ca dig where e: "eval_subtree (\<lambda>_. None) h s (leaf_digest_raw cs h) = (ca, dig)" by fastforce
  have "state_for k h (leaf_list cs h) (st\<lparr>as_cache := ca, as_root := Some dig\<rparr>)"
    using leaf_list_nth by (intro eval_subtree_state [OF Some assms(2) _ _ e]) simp_all
  then show ?thesis using Some e by (simp add: recompute_full_def)
qed

lemma seed_null_state:
  assumes "arity_ok k" "length cs < u64_limit"
  shows "state_for k h (replicate (length cs) (hs_null h)) (seed_null cs k h st)"
proof (cases "build (length cs) k")
  case None
  then show ?thesis by (simp add: seed_null_def state_for_def)
next
  case (Some s)
  obtain ca dig where e: "eval_subtree (\<lambda>_. None) h s (\<lambda>_. hs_null h) = (ca, dig)" by fastforce
  have "state_for k h (replicate (length cs) (hs_null h)) (st\<lparr>as_cache := ca, as_root := Some dig\<rparr>)"
    by (intro eval_subtree_state [OF Some assms(2) _ _ e]) simp_all
  then show ?thesis using Some e by (simp add: seed_null_def)
qed

lemma recompute_path_state:
  assumes "arity_ok k" "length cs < u64_limit" "length ds = length cs" "i < length cs"
    and st: "state_for k h ds st" and s: "build (length cs) k = Some s"
  shows "state_for k h (ds[i := leaf_digest_raw cs h i]) (fst (recompute_path cs k h st i))
    \<and> snd (recompute_path cs k h st i) = path_len i s"
proof -
  let ?g = "\<lambda>j. ds ! j" and ?g' = "\<lambda>j. ds[i := leaf_digest_raw cs h i] ! j"
  from build_wf [OF s assms(2)] have c: "cells s = [0..<length cs]" and iv: "interval s" by simp_all
  have com: "complete (as_cache st) h ?g s" using st s assms(3) by (simp add: state_for_def)
  have cov: "covers s i" using covers_iff [OF iv] c assms(4) by simp
  have "?g' j = ?g j" if "j \<noteq> i" for j using that by simp
  moreover have "?g' i = leaf_digest_raw cs h i" using assms(3,4) by simp
  ultimately obtain ca where
    "eval_on_path cs h (as_cache st) s i 0 = (ca, ev h ?g' s, 0 + path_len i s)" "complete ca h ?g' s"
    using eval_on_path_spec [of i ?g' ?g cs h, OF _ _ iv cov com, of 0] by blast
  then show ?thesis using s assms(3) by (simp add: recompute_path_def state_for_def)
qed

section \<open>The operations refine the abstract tree\<close>

lemma map_of_map_value:
  "map_of (map (\<lambda>(i, v). (i, F i v)) xs) a = map_option (F a) (map_of xs a)"
  by (induction xs) auto

lemma cmt_new_represents: "cmt_new k = Inr t \<Longrightarrow> represents t (\<lambda>_. None)"
  by (auto simp: cmt_new_def represents_def u64_limit_def bt_keys_def split: if_splits)

lemma represents_update:
  assumes "represents t A" "state_for (cm_arity t) h ds st" "length ds = length (cm_cells t)"
  shows "represents (t\<lparr>cm_hashers := bt_insert alg h (cm_hashers t),
      cm_states := bt_insert alg st (cm_states t)\<rparr>) (A(alg \<mapsto> (h, ds)))"
proof (rule representsI)
  have keys: "bt_keys (cm_hashers t)" "bt_keys (cm_states t)" using assms(1) by (simp_all add: represents_def)
  let ?t = "t\<lparr>cm_hashers := bt_insert alg h (cm_hashers t), cm_states := bt_insert alg st (cm_states t)\<rparr>"
  show "map_of (cm_hashers ?t) a = None \<and> map_of (cm_states ?t) a = None"
    if "(A(alg \<mapsto> (h, ds))) a = None" for a
    using that keys represents_None [OF assms(1)] by (auto simp: map_of_bt_insert split: if_splits)
  show "map_of (cm_hashers ?t) a = Some h' \<and> length ds' = length (cm_cells ?t)
      \<and> (\<exists>st. map_of (cm_states ?t) a = Some st \<and> state_for (cm_arity ?t) h' ds' st)"
    if a: "(A(alg \<mapsto> (h, ds))) a = Some (h', ds')" for a h' ds'
  proof (cases "a = alg")
    case True
    then show ?thesis using a assms keys by (simp add: map_of_bt_insert)
  next
    case False
    then obtain st' where "map_of (cm_hashers t) a = Some h'" "length ds' = length (cm_cells t)"
      "map_of (cm_states t) a = Some st'" "state_for (cm_arity t) h' ds' st'"
      using represents_dest [OF assms(1)] a by (metis fun_upd_other)
    then show ?thesis using False keys by (simp add: map_of_bt_insert)
  qed
qed (use assms(1) in \<open>simp_all add: represents_def bt_keys_insert\<close>)

lemma register_represents:
  assumes "represents t A" "A alg = None"
  shows "\<exists>t'. register_algorithm t alg h = Inr t' \<and> cm_cells t' = cm_cells t \<and> cm_arity t' = cm_arity t
    \<and> represents t' (spec_register t alg h A)"
proof -
  have st: "state_for (cm_arity t) h (leaf_list (cm_cells t) h)
      (recompute_full (cm_cells t) (cm_arity t) h empty_state)"
    using represents_arity [OF assms(1)] by (intro recompute_full_state) simp_all
  have "represents (t\<lparr>cm_hashers := bt_insert alg h (cm_hashers t),
      cm_states := bt_insert alg (recompute_full (cm_cells t) (cm_arity t) h empty_state) (cm_states t)\<rparr>)
      (spec_register t alg h A)"
    unfolding spec_register_def by (rule represents_update [OF assms(1) st]) simp
  moreover have "map_of (cm_hashers t) alg = None" using represents_None(1) [OF assms(1)] assms(2) by simp
  ultimately show ?thesis by (simp add: register_algorithm_def Let_def)
qed

lemma add_at_represents:
  assumes "represents t A" "A alg = None" "i < length (cm_cells t)" "build (length (cm_cells t)) (cm_arity t) = Some s"
  shows "\<exists>t'. add_algorithm_at t alg i h = Inr (t', path_len i s) \<and> cm_cells t' = cm_cells t
    \<and> cm_arity t' = cm_arity t \<and> represents t' (spec_add_at t alg i h A)"
proof -
  let ?n = "length (cm_cells t)"
  let ?st = "seed_null (cm_cells t) (cm_arity t) h empty_state"
  note ar = represents_arity [OF assms(1)]
  have "state_for (cm_arity t) h (replicate ?n (hs_null h)) ?st"
    using ar by (intro seed_null_state) simp_all
  then have st: "state_for (cm_arity t) h ((replicate ?n (hs_null h))[i := leaf_digest_raw (cm_cells t) h i])
      (fst (recompute_path (cm_cells t) (cm_arity t) h ?st i))"
    and cost: "snd (recompute_path (cm_cells t) (cm_arity t) h ?st i) = path_len i s"
    using recompute_path_state [OF _ _ _ assms(3) _ assms(4), of "replicate ?n (hs_null h)" h ?st] ar by simp_all
  have leaf: "leaf_digest_raw (cm_cells t) h i = hs_leaf h (ce_payload (cm_cells t ! i))"
    using assms(3) by (simp add: leaf_digest_raw_def)
  have "map_of (cm_hashers t) alg = None" using represents_None(1) [OF assms(1)] assms(2) by simp
  moreover have "represents (t\<lparr>cm_hashers := bt_insert alg h (cm_hashers t),
      cm_states := bt_insert alg (fst (recompute_path (cm_cells t) (cm_arity t) h ?st i)) (cm_states t)\<rparr>)
      (spec_add_at t alg i h A)"
    unfolding spec_add_at_def leaf [symmetric] by (rule represents_update [OF assms(1) st]) simp
  ultimately show ?thesis
    using assms(3) cost by (simp add: add_algorithm_at_def add_alg_seeded_def cmt_len_def split_beta)
qed

text \<open>The loop of \<open>set\<close> over the algorithms never misses a hasher.\<close>

definition set_state :: "cmt \<Rightarrow> cell list \<Rightarrow> u64 \<Rightarrow> bool \<Rightarrow> alg_id \<Rightarrow> alg_state \<Rightarrow> alg_state" where
  "set_state t cs index appended alg st =
     (let h = the (map_of (cm_hashers t) alg)
      in if appended then recompute_full cs (cm_arity t) h st
         else fst (recompute_path cs (cm_arity t) h st index))"

definition set_cells :: "cmt \<Rightarrow> u64 \<Rightarrow> cell \<Rightarrow> cell list" where
  "set_cells t index c = (if index = cmt_len t then cm_cells t @ [c] else (cm_cells t)[index := c])"

lemma cmt_set_Inr:
  assumes "represents t A" "index \<le> cmt_len t"
  shows "cmt_set t index payload metadata =
     (let cs = set_cells t index \<lparr>ce_payload = payload, ce_metadata = metadata\<rparr>
      in Inr (t\<lparr>cm_cells := cs,
        cm_states := map (\<lambda>(alg, st). (alg, set_state t cs index (index = cmt_len t) alg st)) (cm_states t)\<rparr>))"
proof -
  let ?cs = "set_cells t index \<lparr>ce_payload = payload, ce_metadata = metadata\<rparr>"
  have has: "map_of (cm_hashers t) id \<noteq> None" if "(id, st) \<in> set (cm_states t)" for id st
  proof -
    have "map_of (cm_states t) id \<noteq> None"
      using that by (metis map_of_eq_None_iff fst_conv image_eqI)
    then show ?thesis using represents_None [OF assms(1)] by metis
  qed
  have "mapE (\<lambda>(id, st). case map_of (cm_hashers t) id of None \<Rightarrow> Inl CmtPanic
        | Some h \<Rightarrow> Inr (id, if index = cmt_len t then recompute_full ?cs (cm_arity t) h st
                            else fst (recompute_path ?cs (cm_arity t) h st index))) (cm_states t)
      = Inr (map (\<lambda>(alg, st). (alg, set_state t ?cs index (index = cmt_len t) alg st)) (cm_states t))"
    using has by (intro mapE_Inr) (fastforce simp: set_state_def)
  then show ?thesis using assms(2) unfolding cmt_set_def set_cells_def by (simp add: Let_def)
qed

lemma set_state_for:
  assumes "represents t A" "A alg = Some (h, ds)" "map_of (cm_states t) alg = Some st"
    and "index \<le> cmt_len t" "cmt_len t + 1 < u64_limit"
  shows "state_for (cm_arity t) h
     (if index = cmt_len t then leaf_list (cm_cells t) h @ [hs_leaf h (ce_payload c)]
      else ds[index := hs_leaf h (ce_payload c)])
     (set_state t (set_cells t index c) index (index = cmt_len t) alg st)"
proof -
  obtain st' where r: "map_of (cm_hashers t) alg = Some h" "length ds = length (cm_cells t)"
    "map_of (cm_states t) alg = Some st'" "state_for (cm_arity t) h ds st'"
    using represents_dest [OF assms(1,2)] by metis
  note ar = represents_arity [OF assms(1)]
  show ?thesis
  proof (cases "index = cmt_len t")
    case True
    then have "leaf_list (cm_cells t) h @ [hs_leaf h (ce_payload c)] = leaf_list (set_cells t index c) h"
      by (simp add: set_cells_def leaf_list_def)
    then show ?thesis
      using True ar r(1) recompute_full_state [of "cm_arity t" "set_cells t index c" h st] assms(5)
      by (simp add: set_state_def set_cells_def cmt_len_def)
  next
    case False
    then have i: "index < length (cm_cells t)" using assms(4) by (simp add: cmt_len_def)
    obtain s where s: "build (length (cm_cells t)) (cm_arity t) = Some s"
      using build_obtain [of "cm_arity t" "length (cm_cells t)"] ar i by (metis gr_zeroI not_less_zero)
    have "state_for (cm_arity t) h (ds[index := leaf_digest_raw (set_cells t index c) h index])
        (fst (recompute_path (set_cells t index c) (cm_arity t) h st index))"
      using recompute_path_state [of "cm_arity t" "set_cells t index c" ds index h st s] ar i r assms(3) s False
      by (simp add: set_cells_def)
    then show ?thesis using False i r(1) by (simp add: set_state_def set_cells_def leaf_digest_raw_def)
  qed
qed

lemma set_represents:
  assumes "represents t A" "index \<le> cmt_len t" "cmt_len t + 1 < u64_limit"
  shows "\<exists>t'. cmt_set t index payload metadata = Inr t'
    \<and> cm_cells t' = set_cells t index \<lparr>ce_payload = payload, ce_metadata = metadata\<rparr>
    \<and> cm_arity t' = cm_arity t \<and> represents t' (spec_set t index payload A)"
proof -
  let ?c = "\<lparr>ce_payload = payload, ce_metadata = metadata\<rparr>"
  let ?cs = "set_cells t index ?c"
  let ?t = "t\<lparr>cm_cells := ?cs,
      cm_states := map (\<lambda>(alg, st). (alg, set_state t ?cs index (index = cmt_len t) alg st)) (cm_states t)\<rparr>"
  have len: "length ?cs = (if index = cmt_len t then Suc (length (cm_cells t)) else length (cm_cells t))"
    by (simp add: set_cells_def)
  have keys: "map fst (map (\<lambda>(alg, st). (alg, set_state t ?cs index (index = cmt_len t) alg st)) (cm_states t))
      = map fst (cm_states t)" by auto
  have "represents ?t (spec_set t index payload A)"
  proof (rule representsI)
    show "map_of (cm_hashers ?t) alg = None \<and> map_of (cm_states ?t) alg = None"
      if "spec_set t index payload A alg = None" for alg
      using that represents_None [OF assms(1), of alg] by (simp add: spec_set_def map_of_map_value)
    show "map_of (cm_hashers ?t) alg = Some h \<and> length ds' = length (cm_cells ?t)
      \<and> (\<exists>st. map_of (cm_states ?t) alg = Some st \<and> state_for (cm_arity ?t) h ds' st)"
      if upd: "spec_set t index payload A alg = Some (h, ds')" for alg h ds'
    proof -
      obtain ds where a: "A alg = Some (h, ds)"
        and ds': "ds' = (if index = cmt_len t then leaf_list (cm_cells t) h @ [hs_leaf h payload]
            else ds[index := hs_leaf h payload])"
        using upd by (auto simp: spec_set_def)
      obtain st where r: "map_of (cm_hashers t) alg = Some h" "length ds = length (cm_cells t)"
        "map_of (cm_states t) alg = Some st" "state_for (cm_arity t) h ds st"
        using represents_dest [OF assms(1) a] by metis
      have "length ds' = length ?cs" using ds' len r(2) by (cases "index = cmt_len t") simp_all
      moreover have "state_for (cm_arity t) h ds' (set_state t ?cs index (index = cmt_len t) alg st)"
        using set_state_for [OF assms(1) a r(3) assms(2,3), of ?c] unfolding ds' by (simp only: cell.select_convs)
      ultimately show ?thesis using r(1,3) by (simp add: map_of_map_value)
    qed
  qed (use assms(1,3) len bt_keys_map [OF _ keys] in \<open>simp_all add: represents_def cmt_len_def\<close>)
  then show ?thesis using cmt_set_Inr [OF assms(1,2)] by (simp add: Let_def)
qed

lemma root_represents:
  assumes "represents t A"
  shows "cmt_root t alg = (case A alg of None \<Rightarrow> None | Some (h, ds) \<Rightarrow> spec_root h (cm_arity t) ds)"
proof (cases "A alg")
  case None
  then have "map_of (cm_states t) alg = None" using represents_None(2) [OF assms] by simp
  then show ?thesis using None by (simp add: cmt_root_def)
next
  case (Some p)
  then obtain h ds where a: "A alg = Some (h, ds)" by (cases p) auto
  obtain st where r: "length ds = length (cm_cells t)"
      "map_of (cm_states t) alg = Some st" "state_for (cm_arity t) h ds st"
    using represents_dest [OF assms a] by metis
  show ?thesis
    using state_for_root [OF r(3)] represents_arity [OF assms] r(1,2) a by (simp add: cmt_root_def)
qed

section \<open>The cost of a path recompute\<close>

lemma sum_list_single:
  "pos < length xs \<Longrightarrow> \<forall>j < length xs. j \<noteq> pos \<longrightarrow> F (xs ! j) = 0 \<Longrightarrow>
     sum_list (map F xs) = (F (xs ! pos) :: nat)"
proof (induction xs arbitrary: pos)
  case (Cons x xs)
  have zero: "F (xs ! j) = 0" if "j < length xs" "Suc j \<noteq> pos" for j
    using Cons.prems(2) that by (metis Suc_less_eq length_Cons nth_Cons_Suc)
  show ?case
  proof (cases pos)
    case 0
    then have "F y = 0" if "y \<in> set xs" for y
      using that zero by (metis in_set_conv_nth nat.distinct(1))
    then have "sum_list (map F xs) = 0" by simp
    then show ?thesis using 0 by simp
  next
    case (Suc p)
    then have "sum_list (map F xs) = F (xs ! p)"
      using Cons.prems(1) zero by (intro Cons.IH) simp_all
    moreover have "F x = 0" using Cons.prems(2) Suc by (metis length_Cons nat.distinct(1) nth_Cons_0 zero_less_Suc)
    ultimately show ?thesis using Suc by simp
  qed
qed simp

lemma path_len_descend:
  "interval node \<Longrightarrow> i \<in> set (cells node) \<Longrightarrow> path_len i node = length (snd (descend_bag (to_bag node) i []))"
proof (induction node)
  case (Inner cs)
  from position_covers_Some [OF Inner.prems(1,2)] obtain pos where
    pos: "position (\<lambda>c. covers c i) cs = Some pos" "pos < length cs"
    "interval (cs ! pos)" "i \<in> set (cells (cs ! pos))" by metis
  obtain lo hi where "concat (map cells cs) = [lo..<hi]" using Inner.prems(1) by (auto simp: interval_def)
  then have dist: "distinct (concat (map cells cs))" by simp
  have "\<not> covers (cs ! j) i" if j: "j < length cs" "j \<noteq> pos" for j
  proof -
    have "set (cells (cs ! j)) \<inter> set (cells (cs ! pos)) = {}"
      using distinct_concat_disjoint [OF dist, of j pos] distinct_concat_disjoint [OF dist, of pos j] j pos(2)
      by (cases "j < pos") auto
    moreover have "interval (cs ! j)" using j(1) by (intro interval_child [OF Inner.prems(1)]) simp
    ultimately show ?thesis using covers_iff [of "cs ! j" i] pos(4) by auto
  qed
  then have "sum_list (map (\<lambda>c. if covers c i then path_len i c else 0) cs)
      = (if covers (cs ! pos) i then path_len i (cs ! pos) else 0)"
    by (intro sum_list_single [OF pos(2)]) simp
  moreover have "covers (cs ! pos) i" using covers_iff [OF pos(3)] pos(4) by simp
  moreover have "path_len i (cs ! pos) = length (snd (descend_bag (to_bag (cs ! pos)) i []))"
    using pos by (intro Inner.IH) simp_all
  moreover have "position (\<lambda>c. covers_peak c i) (map to_bag cs) = Some pos"
    using position_covers [OF Inner.prems(1)] pos(1) by metis
  ultimately show ?case
    using pos(2) descend_bag_out [of "to_bag (cs ! pos)" i "[\<lparr>sk_position = pos, sk_sibling_count = length cs - 1\<rparr>]"]
    by simp
qed simp

lemma length_descend_bag: "length (snd (descend_bag t i out)) \<le> length out + bag_depth t"
proof (induction t i out rule: descend_bag.induct)
  case (2 children target out)
  show ?case
  proof (cases "position (\<lambda>c. covers_peak c target) children")
    case (Some pos)
    have "bag_depth (children ! pos) \<le> fold max (map bag_depth children) 0"
      using position_Some_len [OF Some] by (intro le_fold_max_map) simp
    then show ?thesis using 2 [OF Some] Some by simp
  qed simp
qed simp

lemma bag_depth_merge:
  assumes "\<And>x. x \<in> set c \<Longrightarrow> bag_depth (to_bag x) \<le> e" shows "bag_depth (to_bag (Inner c)) \<le> Suc e"
proof -
  have "fold max xs a \<le> e" if "\<And>x. x \<in> set xs \<Longrightarrow> x \<le> e" "a \<le> e" for xs and a :: nat
    using that by (induction xs arbitrary: a) auto
  then have "fold max (map bag_depth (map to_bag c)) 0 \<le> e" by this (use assms in auto)
  then show ?thesis by simp
qed

lemma bag_depth_perfect: "bag_depth (to_bag (perfect l t k)) \<le> t"
proof (induction t arbitrary: l)
  case (Suc t)
  show ?case unfolding perfect.simps by (rule bag_depth_merge) (use Suc in auto)
qed simp

lemma shape_depth:
  assumes "build n k = Some s" "n < u64_limit" shows "bag_depth (to_bag s) \<le> 128"
proof -
  have k: "arity_ok k" "2 \<le> k" "0 < n"
    using assms(1) by (auto simp: build_def arity_ok_def split: if_splits)
  let ?items = "map (\<lambda>(l, t). perfect l t k) (frontier_for_size n k)"
  have s: "s = fold_frontier ?items k Inner" using build_Some [OF k(1,3) assms(2)] assms(1) by simp
  have ne: "?items \<noteq> []" using frontier_empty_iff [OF k(2) assms(2)] k(3) by simp
  have t: "t \<le> 63" if "(l, t) \<in> set (frontier_for_size n k)" for l t
    using frontier_bound [OF k(2) assms(2) that] assms(2) power_less_limit [OF k(2), of t] by simp
  have d: "bag_depth (to_bag x) \<le> 63" if "x \<in> set ?items" for x
  proof -
    obtain c where "c \<in> set (frontier_for_size n k)" "x = (\<lambda>(l, t). perfect l t k) c"
      using \<open>x \<in> set ?items\<close> unfolding set_map by blast
    moreover obtain l h where "c = (l, h)" by (rule prod.exhaust)
    ultimately show ?thesis using t [of l h] bag_depth_perfect [of l h k] by simp
  qed
  have "bag_depth (to_bag s) \<le> 63 + Suc ((length ?items - 2) div (k - 1))"
    unfolding s
    by (rule fold_frontier_depth [where D = "\<lambda>x. bag_depth (to_bag x)", OF d bag_depth_merge k(2) ne])
  moreover have "(length ?items - 2) div (k - 1) \<le> 64"
    using frontier_length [OF k(2) assms(2)] k(2) div_le_mono [of "length ?items - 2" "(k - 1) * 64" "k - 1"]
    by simp
  ultimately show ?thesis by simp
qed

lemma path_cost:
  assumes "build n k = Some s" "n < u64_limit" "i < n"
  shows "\<exists>sk. rebalanced_skeleton n k i = Some sk \<and> path_len i s = length sk \<and> length sk \<le> 128"
  using skeleton_bag [OF assms] build_wf [OF assms(1,2)] assms(3) shape_depth [OF assms(1,2)]
    path_len_descend [of s i] length_descend_bag [of "to_bag s" i "[]"]
  by (simp add: bag_path_steps_def)

section \<open>Proofs\<close>

lemma spec_wide:
  assumes "fixed_width h" "build (length ds) k = Some s" "length ds < u64_limit"
    and "\<And>d. d \<in> set ds \<Longrightarrow> length d = digest_len h"
  shows "wide_nodes h (\<lambda>i. ds ! i) s"
proof -
  have w: "set (cells x) \<subseteq> {..<length ds} \<Longrightarrow> length (ev h (\<lambda>i. ds ! i) x) = digest_len h" for x
  proof (induction x)
    case (Inner cs)
    then have "length d = digest_len h" if "d \<in> set (map (ev h (\<lambda>i. ds ! i)) cs)" for d
      using that by (auto simp: UN_subset_iff)
    then show ?case unfolding ev.simps by (intro length_nary_mr assms(1))
  qed (use assms(4) in simp)
  have sub: "x \<in> set (subnodes node) \<Longrightarrow> set (cells x) \<subseteq> set (cells node)" for x node
    by (induction node) auto
  have "set (cells s) = {..<length ds}" using build_wf [OF assms(2,3)] by (simp add: atLeast0LessThan)
  then show ?thesis using w sub unfolding wide_nodes_def by blast
qed

text \<open>The leaf function reaches only the digest at the foot of the path, not the path.\<close>

lemma remove_nth_update: "pos < length xs \<Longrightarrow> remove_nth pos (xs[pos := d]) = remove_nth pos xs"
  by (simp add: remove_nth_def)

lemma descend_path_leaf:
  "interval node \<Longrightarrow> i \<in> set (cells node) \<Longrightarrow> complete ca h g node \<Longrightarrow>
     map_option snd (descend_proof node i ca lf nd path) = map_option snd (descend_proof node i ca lf' nd path)"
proof (induction node)
  case (Inner cs)
  from position_covers_Some [OF Inner.prems(1,2)] obtain pos where
    pos: "position (\<lambda>c. covers c i) cs = Some pos" "pos < length cs"
    "interval (cs ! pos)" "i \<in> set (cells (cs ! pos))" by metis
  have com: "complete ca h g c" if "c \<in> set cs" for c
    using Inner.prems(3) that by (simp add: complete_Inner)
  have sib: "map (\<lambda>c. eval_cached c ca lf nd) cs = map (ev h g) cs" for lf
    using eval_cached_complete [OF com] by (intro map_cong) simp_all
  have "map_option snd (descend_proof (cs ! pos) i ca lf nd path)
      = map_option snd (descend_proof (cs ! pos) i ca lf' nd path)"
    using pos com by (intro Inner.IH) simp_all
  then show ?case
    using pos(1,2)
    by (cases "descend_proof (cs ! pos) i ca lf nd path"; cases "descend_proof (cs ! pos) i ca lf' nd path")
      (auto simp: sib Let_def enumerate_filter_remove_nth remove_nth_update split_beta)
qed simp

lemma cmt_inclusion_spec:
  assumes "represents t A" "A alg = Some (h, ds)" "i < cmt_len t"
    and "fixed_width h" "width_ok h" "\<And>d. d \<in> set ds \<Longrightarrow> length d = digest_len h"
  shows "\<exists>path sk root. cmt_inclusion_proof t alg i = Some (leaf_digest_raw (cm_cells t) h i, path)
    \<and> rebalanced_skeleton (cmt_len t) (cm_arity t) i = Some sk \<and> map step_shape path = sk
    \<and> cmt_root t alg = Some root \<and> verify_inclusion h (ds ! i) sk path root"
proof -
  obtain st where r: "map_of (cm_hashers t) alg = Some h" "length ds = length (cm_cells t)"
    "map_of (cm_states t) alg = Some st" "state_for (cm_arity t) h ds st"
    using represents_dest [OF assms(1,2)] by metis
  note ar = represents_arity [OF assms(1)]
  let ?n = "length (cm_cells t)" and ?k = "cm_arity t" and ?g = "\<lambda>i. ds ! i"
  let ?lf = "leaf_digest_raw (cm_cells t) h"
  have i: "i < ?n" using assms(3) by (simp add: cmt_len_def)
  then obtain s where s: "build ?n ?k = Some s"
    using build_obtain [of ?k ?n] ar by (metis gr_zeroI not_less_zero)
  from build_wf [OF s] ar have c: "cells s = [0..<?n]" and iv: "interval s" and wf: "bag_wf ?k (to_bag s)"
    by simp_all
  have com: "complete (as_cache st) h ?g s" and root: "as_root st = Some (ev h ?g s)"
    using r(2,4) s by (simp_all add: state_for_def)
  have mem: "i \<in> set (cells s)" using c i by simp
  from descend_proof_spec [where g = ?g and lf = ?g and path = "[]" and k = ?k, OF iv mem com refl] obtain q where
    q: "descend_proof s i (as_cache st) ?g (nary_mr h) [] = Some (ev h ?g s, q)"
    "climb h q (ds ! i) = ev h ?g s"
    "rev (map step_shape q) = snd (descend_bag (to_bag s) i [])"
    "bag_wf ?k (to_bag s) \<longrightarrow> ?k \<le> 257 \<longrightarrow> wide_nodes h ?g s \<longrightarrow> list_all (step_ok (digest_len h)) q"
    by (simp only: append_Nil) (elim exE conjE)
  have path: "inclusion_path s i (as_cache st) ?lf (nary_mr h) = Some q"
    unfolding inclusion_path_def descend_path_leaf [OF iv mem com, of ?lf "nary_mr h" "[]" ?g] q(1) by simp
  have sk: "rebalanced_skeleton ?n ?k i = Some (map step_shape q)"
    unfolding skeleton_bag [OF s conjunct2 [OF ar] i] bag_path_steps_def q(3) [symmetric] by simp
  have "wide_nodes h ?g s" using spec_wide [OF assms(4) _ _ assms(6)] s r(2) ar by simp
  then have ok: "list_all (step_ok (digest_len h)) q" using q(4) wf ar by (simp add: arity_ok_def)
  have "length q = length (snd (descend_bag (to_bag s) i []))" using arg_cong [OF q(3), of length] by simp
  then have len: "length q \<le> 256"
    using length_descend_bag [of "to_bag s" i "[]"] shape_depth [OF s] ar by simp
  have "ds ! i \<in> set ds" using i r(2) by simp
  then have "length (ds ! i) = digest_len h" by (rule assms(6))
  then have "verify_inclusion h (ds ! i) (map step_shape q) q (ev h ?g s)"
    unfolding verify_inclusion_iff using assms(5) len ok q(2) structure_exact [of q] by simp
  moreover have "cmt_inclusion_proof t alg i = Some (?lf i, q)"
    using i r(1,3) s path by (simp add: cmt_inclusion_proof_def cmt_len_def)
  ultimately show ?thesis
    using sk r(3) root by (simp add: cmt_len_def cmt_root_def)
qed

section \<open>The seal\<close>

lemma fold_loop_subnodes:
  "y \<in> set items \<Longrightarrow> x \<in> set (subnodes y) \<Longrightarrow>
     \<exists>z \<in> set (fold_loop k Inner items). x \<in> set (subnodes z)"
proof (induction k "Inner" items arbitrary: y rule: fold_loop.induct)
  case (1 k items)
  show ?case
  proof (cases "2 \<le> k \<and> k < length items")
    case True
    let ?a = "take (length items - k) items" and ?b = "drop (length items - k) items"
    have "y \<in> set (?a @ ?b)" using "1.prems"(1) by (simp only: append_take_drop_id)
    then have "y \<in> set ?a \<or> y \<in> set ?b" by (simp only: set_append Un_iff)
    then have "\<exists>y' \<in> set (?a @ [Inner ?b]). x \<in> set (subnodes y')"
      using "1.prems"(2) by auto
    then have "\<exists>z \<in> set (fold_loop k Inner (?a @ [Inner ?b])). x \<in> set (subnodes z)"
      using "1.hyps" [OF True refl] by blast
    then show ?thesis using True by (subst fold_loop.simps) (simp add: Let_def)
  next
    case False
    then have "fold_loop k Inner items = items" by (subst fold_loop.simps) auto
    then show ?thesis using "1.prems" by auto
  qed
qed

lemma fold_frontier_subnodes:
  assumes "x \<in> set items" shows "x \<in> set (subnodes (fold_frontier items k Inner))"
proof (cases "length items = 1")
  case True
  then have "fold_frontier items k Inner = x" using assms by (cases items) auto
  then show ?thesis by (simp add: subnodes_self)
next
  case False
  then show ?thesis using fold_loop_subnodes [OF assms subnodes_self, of k] by (auto simp: fold_frontier_def)
qed

lemma node_key_perfect: "2 \<le> k \<Longrightarrow> node_key (perfect l t k) = (l, l + k ^ t - 1)"
proof -
  assume k: "2 \<le> k"
  then have "l < l + k ^ t" by simp
  then show ?thesis
    using leftmost_hd [OF branching_perfect [OF k]] rightmost_last [OF branching_perfect [OF k]]
    by (simp add: node_key_def cells_perfect hd_upt last_upt)
qed

lemma peak_digests_spec:
  assumes "2 \<le> k" "\<And>l t. (l, t) \<in> set coords \<Longrightarrow> ca (node_key (perfect l t k)) = Some (ev h g (perfect l t k))"
  shows "peak_digests cs h ca k coords = fdigs h k g coords"
  using assms(2)
proof (induction coords)
  case (Cons c coords)
  obtain l t where c: "c = (l, t)" by (rule prod.exhaust)
  have "ca (l, l + k ^ t - 1) = Some (pdig h k g l t)"
    using Cons.prems [of l t] c by (simp add: node_key_perfect [OF assms(1)] ev_perfect)
  then have "peak_digest cs h ca l t k = (ca, pdig h k g l t)" by (simp add: peak_digest_def Let_def)
  moreover have "peak_digests cs h ca k coords = fdigs h k g coords" using Cons by simp
  ultimately show ?case using c by (simp add: fdigs_def)
qed (simp add: fdigs_def)

lemma state_peaks:
  assumes "state_for k h ds st" "arity_ok k" "length ds = n" "0 < n" "n < u64_limit"
  shows "peak_digests cs h (as_cache st) k (frontier_for_size n k)
    = fdigs h k (\<lambda>i. ds ! i) (frontier_for_size n k)"
proof (rule peak_digests_spec)
  show "2 \<le> k" by (rule arity_ok_ge2 [OF assms(2)])
  obtain s where s: "build n k = Some s" using build_obtain [OF assms(2,5,4)] .
  then have com: "complete (as_cache st) h (\<lambda>i. ds ! i) s"
    using assms(1,3) by (simp add: state_for_def)
  have fold: "s = fold_frontier (map (\<lambda>(l, t). perfect l t k) (frontier_for_size n k)) k Inner"
    using build_Some [OF assms(2,4,5)] s by simp
  show "as_cache st (node_key (perfect l t k)) = Some (ev h (\<lambda>i. ds ! i) (perfect l t k))"
    if lt: "(l, t) \<in> set (frontier_for_size n k)" for l t
  proof -
    have "perfect l t k \<in> (\<lambda>(l, t). perfect l t k) ` set (frontier_for_size n k)"
      using lt by (intro image_eqI [of _ _ "(l, t)"]) simp_all
    then have "perfect l t k \<in> set (subnodes s)"
      unfolding fold by (intro fold_frontier_subnodes) simp
    then show ?thesis using com unfolding complete_def by (rule bspec [rotated])
  qed
qed

lemma cmt_seal_spec:
  assumes "represents t A" "cm_cells t \<noteq> []"
  shows "\<exists>s. cmt_seal t = Inr s \<and> sl_tree_size s = cmt_len t \<and> sl_arity s = cm_arity t
    \<and> (\<forall>alg h ds. A alg = Some (h, ds) \<longrightarrow>
         map_of (sl_frontiers s) alg = Some (fdigs h (cm_arity t) (\<lambda>i. ds ! i)
           (frontier_for_size (cmt_len t) (cm_arity t))))"
proof -
  let ?n = "length (cm_cells t)" and ?k = "cm_arity t"
  let ?co = "frontier_for_size ?n ?k"
  note ar = represents_arity [OF assms(1)]
  define F where "F id st = peak_digests (cm_cells t) (the (map_of (cm_hashers t) id)) (as_cache st) ?k ?co"
    for id and st :: alg_state
  have sound: "\<exists>h ds. A id = Some (h, ds) \<and> map_of (cm_hashers t) id = Some h \<and> as_root st \<noteq> None
      \<and> F id st = fdigs h ?k (\<lambda>i. ds ! i) ?co" if "(id, st) \<in> set (cm_states t)" for id st
  proof -
    have dist: "distinct (map fst (cm_states t))"
      using assms(1) by (simp add: represents_def bt_keys_distinct)
    then have m: "map_of (cm_states t) id = Some st" using that by simp
    then obtain h ds where a: "A id = Some (h, ds)"
      using represents_None(2) [OF assms(1), of id] by (cases "A id") auto
    obtain st' where r: "map_of (cm_hashers t) id = Some h" "length ds = ?n"
      "map_of (cm_states t) id = Some st'" "state_for ?k h ds st'"
      using represents_dest [OF assms(1) a] by metis
    then have st: "state_for ?k h ds st" using m by simp
    have "as_root st \<noteq> None"
      using state_for_root [OF st] ar r(2) assms(2) by (auto simp: spec_root_def)
    moreover have "F id st = fdigs h ?k (\<lambda>i. ds ! i) ?co"
      unfolding F_def using r(1,2) st ar assms(2) by (simp add: state_peaks)
    ultimately show ?thesis using a r(1) by blast
  qed
  have flt: "filter (\<lambda>(id, st). as_root st \<noteq> None) (cm_states t) = cm_states t"
    using sound by (intro filter_True) blast
  have loop: "mapE (\<lambda>(id, st). case map_of (cm_hashers t) id of None \<Rightarrow> Inl CmtPanic
        | Some h \<Rightarrow> Inr (id, peak_digests (cm_cells t) h (as_cache st) ?k ?co)) (cm_states t)
      = Inr (map (\<lambda>(id, st). (id, F id st)) (cm_states t))"
    using sound by (intro mapE_Inr) (fastforce simp: F_def)
  let ?s = "\<lparr>sl_tree_size = ?n, sl_arity = ?k, sl_frontiers = map (\<lambda>(id, st). (id, F id st)) (cm_states t),
      sl_meta = None\<rparr>"
  have "length (F id st) = length ?co" if "(id, st) \<in> set (cm_states t)" for id st
    using sound [OF that] by auto
  then have "seal_new ?n ?k (sl_frontiers ?s) = Inr ?s"
    unfolding seal_new_Inr_iff using ar by auto
  then have "cmt_seal t = Inr ?s"
    using assms(2) flt loop by (simp add: cmt_seal_def Let_def)
  moreover have "map_of (sl_frontiers ?s) alg = Some (fdigs h ?k (\<lambda>i. ds ! i) ?co)"
    if a: "A alg = Some (h, ds)" for alg h ds
  proof -
    obtain st where m: "map_of (cm_states t) alg = Some st" using represents_dest [OF assms(1) a] by metis
    then have "F alg st = fdigs h ?k (\<lambda>i. ds ! i) ?co" using sound [OF map_of_SomeD [OF m]] a by auto
    then show ?thesis using m by (simp add: map_of_map_value)
  qed
  ultimately show ?thesis by (intro exI [of _ ?s]) (simp add: cmt_len_def)
qed

section \<open>Properties\<close>

text \<open>A small tree: three cells under one algorithm.\<close>

definition toy_cells :: "cell list" where
  "toy_cells = map (\<lambda>b. \<lparr>ce_payload = [b], ce_metadata = []\<rparr>) [4, 5, 6]"

definition toy_cmt :: cmt where
  "toy_cmt = \<lparr>cm_arity = 2, cm_cells = toy_cells, cm_hashers = [(1, toy_hasher)],
     cm_states = [(1, recompute_full toy_cells 2 toy_hasher empty_state)]\<rparr>"

definition toy_commitments :: commitments where
  "toy_commitments = [1 \<mapsto> (toy_hasher, leaf_list toy_cells toy_hasher)]"

lemma toy_represents: "represents toy_cmt toy_commitments"
proof (rule representsI)
  have "length toy_cells = 3" by (simp add: toy_cells_def)
  then have "state_for 2 toy_hasher (leaf_list toy_cells toy_hasher)
      (recompute_full toy_cells 2 toy_hasher empty_state)"
    by (intro recompute_full_state) (simp_all add: arity_ok_def u64_limit_def)
  then show "map_of (cm_hashers toy_cmt) alg = Some h \<and> length ds = length (cm_cells toy_cmt)
      \<and> (\<exists>st. map_of (cm_states toy_cmt) alg = Some st \<and> state_for (cm_arity toy_cmt) h ds st)"
    if "toy_commitments alg = Some (h, ds)" for alg h ds
    using that by (auto simp: toy_commitments_def toy_cmt_def split: if_splits)
qed (auto simp: toy_commitments_def toy_cmt_def toy_cells_def arity_ok_def u64_limit_def bt_keys_def
      split: if_splits)

text \<open>
  C20. Setting a cell refines the update of the committed digests: a position past the end is the
  gap error and changes nothing; at the end every algorithm commits all cells; before the end
  every algorithm replaces exactly the digest of that cell.  The cell reads back.
\<close>

theorem cmt_set_refines:
  assumes "represents t A" "cmt_len t + 1 < u64_limit"
  shows "case cmt_set t index payload metadata of
      Inl e \<Rightarrow> e = IndexGap index (cmt_len t) \<and> cmt_len t < index
    | Inr t' \<Rightarrow> index \<le> cmt_len t \<and> represents t' (spec_set t index payload A)
        \<and> cmt_get t' index = Some payload \<and> cmt_metadata t' index = Some metadata
        \<and> cmt_len t' = max (cmt_len t) (index + 1)"
proof (cases "index \<le> cmt_len t")
  case True
  from set_represents [OF assms(1) True assms(2), of payload metadata]
  obtain t' where "cmt_set t index payload metadata = Inr t'"
    "cm_cells t' = set_cells t index \<lparr>ce_payload = payload, ce_metadata = metadata\<rparr>"
    "represents t' (spec_set t index payload A)" by blast
  then show ?thesis using True
    by (auto simp: cmt_get_def cmt_metadata_def set_cells_def cmt_len_def)
next
  case False
  then show ?thesis by (simp add: cmt_set_def Let_def)
qed

theorem cmt_set_refines_witness:
  "case cmt_set toy_cmt 1 [9] [7] of
      Inl e \<Rightarrow> e = IndexGap 1 (cmt_len toy_cmt) \<and> cmt_len toy_cmt < 1
    | Inr t' \<Rightarrow> 1 \<le> cmt_len toy_cmt \<and> represents t' (spec_set toy_cmt 1 [9] toy_commitments)
        \<and> cmt_get t' 1 = Some [9] \<and> cmt_metadata t' 1 = Some [7]
        \<and> cmt_len t' = max (cmt_len toy_cmt) (1 + 1)"
  by (rule cmt_set_refines [OF toy_represents])
    (simp add: toy_cmt_def toy_cells_def cmt_len_def u64_limit_def)

text \<open>
  Adding an algorithm refines the commitment of its digests: a registered algorithm commits
  every cell, one added at a cell commits that cell and the null digest elsewhere, and both
  refuse an algorithm that is already there.  The nodes an addition recomputes are the steps of
  the skeleton of the cell, at most 128.
\<close>

theorem cmt_algorithms_refine:
  assumes "represents t A"
  shows "(case register_algorithm t alg h of
        Inl e \<Rightarrow> e = CmtDuplicateAlgorithm alg \<and> A alg \<noteq> None
      | Inr t' \<Rightarrow> A alg = None \<and> represents t' (spec_register t alg h A))
    \<and> (case add_algorithm_at t alg i h of
        Inl e \<Rightarrow> (if A alg \<noteq> None then e = CmtDuplicateAlgorithm alg
                 else e = IndexGap i (cmt_len t) \<and> cmt_len t \<le> i)
      | Inr (t', recomputed) \<Rightarrow> A alg = None \<and> i < cmt_len t \<and> represents t' (spec_add_at t alg i h A)
          \<and> recomputed \<le> 128
          \<and> map_option length (rebalanced_skeleton (cmt_len t) (cm_arity t) i) = Some recomputed)"
proof (cases "A alg")
  case (Some p)
  then have "map_of (cm_hashers t) alg \<noteq> None" using represents_None(1) [OF assms, of alg] by auto
  then show ?thesis using Some by (simp add: register_algorithm_def add_algorithm_at_def)
next
  case None
  note ar = represents_arity [OF assms]
  have new: "map_of (cm_hashers t) alg = None" using represents_None(1) [OF assms, of alg] None by simp
  have reg: "case register_algorithm t alg h of
        Inl e \<Rightarrow> e = CmtDuplicateAlgorithm alg \<and> A alg \<noteq> None
      | Inr t' \<Rightarrow> A alg = None \<and> represents t' (spec_register t alg h A)"
    using register_represents [OF assms None, of h] None by auto
  show ?thesis
  proof (cases "i < cmt_len t")
    case True
    then have i: "i < length (cm_cells t)" by (simp add: cmt_len_def)
    then obtain s where s: "build (length (cm_cells t)) (cm_arity t) = Some s"
      using build_obtain [of "cm_arity t" "length (cm_cells t)"] ar by (metis gr_zeroI not_less_zero)
    obtain t' where "add_algorithm_at t alg i h = Inr (t', path_len i s)" "represents t' (spec_add_at t alg i h A)"
      using add_at_represents [OF assms None i s] by blast
    then show ?thesis using reg path_cost [OF s _ i] ar True None by (auto simp: cmt_len_def)
  next
    case False
    then show ?thesis using reg new None by (simp add: add_algorithm_at_def)
  qed
qed

theorem cmt_algorithms_refine_witness:
  "(case register_algorithm toy_cmt 2 toy_hasher of
        Inl e \<Rightarrow> e = CmtDuplicateAlgorithm 2 \<and> toy_commitments 2 \<noteq> None
      | Inr t' \<Rightarrow> toy_commitments 2 = None \<and> represents t' (spec_register toy_cmt 2 toy_hasher toy_commitments))
    \<and> (case add_algorithm_at toy_cmt 2 1 toy_hasher of
        Inl e \<Rightarrow> (if toy_commitments 2 \<noteq> None then e = CmtDuplicateAlgorithm 2
                 else e = IndexGap 1 (cmt_len toy_cmt) \<and> cmt_len toy_cmt \<le> 1)
      | Inr (t', recomputed) \<Rightarrow> toy_commitments 2 = None \<and> 1 < cmt_len toy_cmt
          \<and> represents t' (spec_add_at toy_cmt 2 1 toy_hasher toy_commitments)
          \<and> recomputed \<le> 128
          \<and> map_option length (rebalanced_skeleton (cmt_len toy_cmt) (cm_arity toy_cmt) 1) = Some recomputed)"
  by (rule cmt_algorithms_refine [OF toy_represents])

text \<open>
  The live root depends on the committed digests only, not on the history that produced
  them: it is the rebalanced bag of the perfect-subtree digests of the frontier of the tree's
  size, and no root for an empty tree or an unknown algorithm.
\<close>

theorem cmt_root_of_commitments:
  assumes "represents t A"
  shows "cmt_root t alg = (case A alg of None \<Rightarrow> None | Some (h, ds) \<Rightarrow> spec_root h (cm_arity t) ds)"
  by (rule root_represents [OF assms])

theorem cmt_root_of_commitments_witness:
  "cmt_root toy_cmt 1 = (case toy_commitments 1 of None \<Rightarrow> None
     | Some (h, ds) \<Rightarrow> spec_root h (cm_arity toy_cmt) ds)"
  by (rule cmt_root_of_commitments [OF toy_represents])

text \<open>
  C32. The path recompute of an overwrite equals a full recompute: for an algorithm that has
  committed every cell, the state after the overwrite has the root of a full evaluation of the
  new cells, and only the nodes of the skeleton of the cell, at most 128, were hashed.
\<close>

theorem overwrite_equals_recompute:
  assumes "arity_ok k" "length cs < u64_limit" "i < length cs" "state_for k h (leaf_list cs h) st"
  shows "as_root (fst (recompute_path (cs[i := c]) k h st i)) = as_root (recompute_full (cs[i := c]) k h st)
    \<and> snd (recompute_path (cs[i := c]) k h st i) \<le> 128
    \<and> map_option length (rebalanced_skeleton (length cs) k i) = Some (snd (recompute_path (cs[i := c]) k h st i))"
proof -
  let ?cs = "cs[i := c]"
  obtain s where s: "build (length cs) k = Some s"
    using build_obtain [OF assms(1,2)] assms(3) by (metis gr_zeroI not_less_zero)
  from recompute_path_state [of k ?cs "leaf_list cs h" i h st s] assms s
  have p: "state_for k h ((leaf_list cs h)[i := leaf_digest_raw ?cs h i]) (fst (recompute_path ?cs k h st i))"
    "snd (recompute_path ?cs k h st i) = path_len i s" by simp_all
  have "(leaf_list cs h)[i := leaf_digest_raw ?cs h i] = leaf_list ?cs h"
    using assms(3) by (simp add: leaf_list_def leaf_digest_raw_def map_update)
  then have "as_root (fst (recompute_path ?cs k h st i)) = spec_root h k (leaf_list ?cs h)"
    using state_for_root [OF p(1) assms(1)] assms(2) by simp
  moreover have "as_root (recompute_full ?cs k h st) = spec_root h k (leaf_list ?cs h)"
    using state_for_root [OF recompute_full_state [OF assms(1), of ?cs]] assms(1,2) by simp
  ultimately show ?thesis using p(2) path_cost [OF s assms(2,3)] by auto
qed

theorem overwrite_equals_recompute_witness:
  "as_root (fst (recompute_path (toy_cells[1 := toy_cells ! 0]) 2 toy_hasher
        (recompute_full toy_cells 2 toy_hasher empty_state) 1))
      = as_root (recompute_full (toy_cells[1 := toy_cells ! 0]) 2 toy_hasher
        (recompute_full toy_cells 2 toy_hasher empty_state))
    \<and> snd (recompute_path (toy_cells[1 := toy_cells ! 0]) 2 toy_hasher
        (recompute_full toy_cells 2 toy_hasher empty_state) 1) \<le> 128
    \<and> map_option length (rebalanced_skeleton (length toy_cells) 2 1)
      = Some (snd (recompute_path (toy_cells[1 := toy_cells ! 0]) 2 toy_hasher
        (recompute_full toy_cells 2 toy_hasher empty_state) 1))"
proof (rule overwrite_equals_recompute)
  show "state_for 2 toy_hasher (leaf_list toy_cells toy_hasher)
      (recompute_full toy_cells 2 toy_hasher empty_state)"
    by (rule recompute_full_state) (simp_all add: arity_ok_def u64_limit_def toy_cells_def)
qed (simp_all add: arity_ok_def u64_limit_def toy_cells_def)

text \<open>
  Inclusion proofs of the mutable tree are complete: for a cell whose digest the algorithm
  has committed, the proof carries that digest and verifies against the live root under the
  rebalanced skeleton of the trusted size, arity and index.
\<close>

theorem cmt_inclusion_complete:
  assumes "represents t A" "A alg = Some (h, ds)" "i < cmt_len t"
    and "ds ! i = leaf_digest_raw (cm_cells t) h i"
    and "fixed_width h" "width_ok h" "\<And>d. d \<in> set ds \<Longrightarrow> length d = digest_len h"
  shows "\<exists>path sk root. cmt_inclusion_proof t alg i = Some (ds ! i, path)
    \<and> rebalanced_skeleton (cmt_len t) (cm_arity t) i = Some sk
    \<and> cmt_root t alg = Some root \<and> verify_inclusion h (ds ! i) sk path root"
  using cmt_inclusion_spec [OF assms(1-3,5,6,7)] assms(4) by metis

theorem cmt_inclusion_complete_witness:
  "\<exists>path sk root. cmt_inclusion_proof toy_cmt 1 2 = Some (leaf_list toy_cells toy_hasher ! 2, path)
    \<and> rebalanced_skeleton (cmt_len toy_cmt) (cm_arity toy_cmt) 2 = Some sk
    \<and> cmt_root toy_cmt 1 = Some root
    \<and> verify_inclusion toy_hasher (leaf_list toy_cells toy_hasher ! 2) sk path root"
proof (rule cmt_inclusion_complete [OF toy_represents _ _ _ toy_hasher_fixed_width toy_hasher_width_ok])
  show "toy_commitments 1 = Some (toy_hasher, leaf_list toy_cells toy_hasher)"
    by (simp add: toy_commitments_def)
  show "2 < cmt_len toy_cmt" by (simp add: cmt_len_def toy_cmt_def toy_cells_def)
  show "leaf_list toy_cells toy_hasher ! 2 = leaf_digest_raw (cm_cells toy_cmt) toy_hasher 2"
    by (simp add: leaf_list_def leaf_digest_raw_def toy_cmt_def toy_cells_def)
  show "length d = digest_len toy_hasher" if "d \<in> set (leaf_list toy_cells toy_hasher)" for d
    using that by (auto simp: leaf_list_def toy_hasher_def digest_len_def)
qed

text \<open>
  After an algorithm is added at one cell, the proof generator at another cell answers with
  the digest of the cell's payload, which the algorithm never committed: the path it returns
  proves the null digest, and the non-membership proof of the null position is refused.
\<close>

theorem post_facto_other_cells:
  assumes "represents t A" "A alg = None" "i < cmt_len t" "j < cmt_len t" "j \<noteq> i"
    and "fixed_width h" "width_ok h" "hs_leaf h (ce_payload (cm_cells t ! j)) \<noteq> hs_null h"
  shows "\<exists>t' n path sk root. add_algorithm_at t alg i h = Inr (t', n)
    \<and> cmt_inclusion_proof t' alg j = Some (hs_leaf h (ce_payload (cm_cells t ! j)), path)
    \<and> rebalanced_skeleton (cmt_len t) (cm_arity t) j = Some sk
    \<and> cmt_root t' alg = Some root \<and> verify_inclusion h (hs_null h) sk path root
    \<and> non_membership_proof t' alg j = None"
proof -
  let ?n = "length (cm_cells t)" and ?l = "hs_leaf h (ce_payload (cm_cells t ! j))"
  let ?ds = "(replicate ?n (hs_null h))[i := hs_leaf h (ce_payload (cm_cells t ! i))]"
  have ij: "i < ?n" "j < ?n" using assms(3,4) by (simp_all add: cmt_len_def)
  obtain s where s: "build ?n (cm_arity t) = Some s"
    using build_obtain [of "cm_arity t" ?n] represents_arity [OF assms(1)] ij(1)
    by (metis gr_zeroI not_less_zero)
  obtain t' where t': "add_algorithm_at t alg i h = Inr (t', path_len i s)" "cm_cells t' = cm_cells t"
    "cm_arity t' = cm_arity t" "represents t' (spec_add_at t alg i h A)"
    using add_at_represents [OF assms(1,2) ij(1) s] by blast
  have a: "spec_add_at t alg i h A alg = Some (h, ?ds)" by (simp add: spec_add_at_def)
  have wide: "length d = digest_len h" if "d \<in> set ?ds" for d
  proof -
    have "d \<in> insert (hs_leaf h (ce_payload (cm_cells t ! i))) {hs_null h}"
      using set_update_subset_insert [of "replicate ?n (hs_null h)" i] that set_replicate_conv_if [of ?n "hs_null h"]
      by (metis (no_types, lifting) empty_subsetI insert_mono subset_iff subset_insertI2 subset_refl)
    then show ?thesis using fixed_width_simps [OF assms(6)] by auto
  qed
  have jt': "j < cmt_len t'" using ij(2) t'(2) by (simp add: cmt_len_def)
  from cmt_inclusion_spec [OF t'(4) a jt' assms(6,7) wide] obtain path sk root where
    p: "cmt_inclusion_proof t' alg j = Some (leaf_digest_raw (cm_cells t') h j, path)"
    "rebalanced_skeleton (cmt_len t') (cm_arity t') j = Some sk" "cmt_root t' alg = Some root"
    "verify_inclusion h (?ds ! j) sk path root" by blast
  have leaf: "leaf_digest_raw (cm_cells t') h j = ?l" using ij(2) t'(2) by (simp add: leaf_digest_raw_def)
  have null: "?ds ! j = hs_null h" using ij(2) assms(5) by simp
  have "map_of (cm_hashers t') alg = Some h" using represents_dest [OF t'(4) a] by metis
  then have "non_membership_proof t' alg j = None"
    using p(1) leaf assms(8) by (simp add: non_membership_proof_def)
  then show ?thesis using t' p leaf null by (auto simp: cmt_len_def)
qed

theorem post_facto_other_cells_witness:
  "\<exists>t' n path sk root. add_algorithm_at toy_cmt 2 1 toy_hasher = Inr (t', n)
    \<and> cmt_inclusion_proof t' 2 0 = Some (hs_leaf toy_hasher (ce_payload (cm_cells toy_cmt ! 0)), path)
    \<and> rebalanced_skeleton (cmt_len toy_cmt) (cm_arity toy_cmt) 0 = Some sk
    \<and> cmt_root t' 2 = Some root \<and> verify_inclusion toy_hasher (hs_null toy_hasher) sk path root
    \<and> non_membership_proof t' 2 0 = None"
  by (rule post_facto_other_cells [OF toy_represents _ _ _ _ toy_hasher_fixed_width toy_hasher_width_ok])
    (simp_all add: toy_commitments_def toy_cmt_def toy_cells_def cmt_len_def toy_hasher_def hs_null_def
      null_bytes_def)

text \<open>
  Sealing keeps the roots: the seal of a non-empty tree records its size and arity, and the
  member root of the seal under the rebalanced bagging is the live root of every algorithm; an
  empty tree is refused.
\<close>

theorem seal_keeps_roots:
  assumes "represents t A"
  shows "case cmt_seal t of
      Inl e \<Rightarrow> e = EmptySeal \<and> cm_cells t = []
    | Inr s \<Rightarrow> sl_tree_size s = cmt_len t \<and> sl_arity s = cm_arity t
        \<and> list_all (\<lambda>(alg, h). seal_member_root s alg h rebalanced_bag = cmt_root t alg) (cm_hashers t)"
proof (cases "cm_cells t = []")
  case True
  then show ?thesis by (simp add: cmt_seal_def)
next
  case False
  from cmt_seal_spec [OF assms False] obtain s where s: "cmt_seal t = Inr s"
    "sl_tree_size s = cmt_len t" "sl_arity s = cm_arity t"
    and peaks: "\<And>alg h ds. A alg = Some (h, ds) \<Longrightarrow>
         map_of (sl_frontiers s) alg = Some (fdigs h (cm_arity t) (\<lambda>i. ds ! i)
           (frontier_for_size (cmt_len t) (cm_arity t)))" by blast
  have "seal_member_root s alg h rebalanced_bag = cmt_root t alg" if m: "(alg, h) \<in> set (cm_hashers t)" for alg h
  proof -
    have "distinct (map fst (cm_hashers t))" using assms by (simp add: represents_def bt_keys_distinct)
    then have h: "map_of (cm_hashers t) alg = Some h" using m by simp
    then obtain ds where a: "A alg = Some (h, ds)" and len: "length ds = cmt_len t"
    proof -
      obtain h' ds where a: "A alg = Some (h', ds)"
        using h represents_None(1) [OF assms, of alg] by (cases "A alg") auto
      from represents_dest [OF assms a] h have "h' = h" "length ds = cmt_len t"
        by (auto simp: cmt_len_def)
      then show thesis using that a by blast
    qed
    have "ds \<noteq> []" using len False by (auto simp: cmt_len_def)
    then show ?thesis
      using root_represents [OF assms, of alg] a peaks [OF a] s(3) len
      by (simp add: seal_member_root_def seal_peaks_map_of spec_root_def)
  qed
  then show ?thesis using s by (auto simp: list_all_iff)
qed

theorem seal_keeps_roots_witness:
  "case cmt_seal toy_cmt of
      Inl e \<Rightarrow> e = EmptySeal \<and> cm_cells toy_cmt = []
    | Inr s \<Rightarrow> sl_tree_size s = cmt_len toy_cmt \<and> sl_arity s = cm_arity toy_cmt
        \<and> list_all (\<lambda>(alg, h). seal_member_root s alg h rebalanced_bag = cmt_root toy_cmt alg)
            (cm_hashers toy_cmt)"
  by (rule seal_keeps_roots [OF toy_represents])

text \<open>
  The rebalanced skeleton is defined exactly for an arity in \<open>2..256\<close> and an index below
  the size: the descent it runs never misses a child, and it has at most 128 steps.
\<close>

theorem rebalanced_skeleton_domain:
  assumes "n < u64_limit"
  shows "(rebalanced_skeleton n k i \<noteq> None \<longleftrightarrow> arity_ok k \<and> i < n)
    \<and> map_option (\<lambda>sk. length sk \<le> 128) (rebalanced_skeleton n k i) \<noteq> Some False"
proof (cases "arity_ok k \<and> i < n")
  case True
  then obtain s where s: "build n k = Some s"
    using build_obtain [OF _ assms] by (metis gr_zeroI not_less_zero)
  obtain sk where "rebalanced_skeleton n k i = Some sk" "length sk \<le> 128"
    using path_cost [OF s assms conjunct2 [OF True]] by blast
  then show ?thesis using True by simp
next
  case False
  then have "rebalanced_skeleton n k i = None" by (auto simp: rebalanced_skeleton_def build_def)
  then show ?thesis using False by simp
qed

theorem rebalanced_skeleton_domain_witness:
  "(rebalanced_skeleton 5 2 3 \<noteq> None \<longleftrightarrow> arity_ok 2 \<and> 3 < (5 :: nat))
    \<and> map_option (\<lambda>sk. length sk \<le> 128) (rebalanced_skeleton 5 2 3) \<noteq> Some False"
  by (rule rebalanced_skeleton_domain) (simp add: u64_limit_def)

end
