(* ===== verification/Poly_Snapshot.thy ===== *)
theory Poly_Snapshot
  imports Poly_Root Cmt_Correct
begin

text \<open>
  The epoch facet over the structural seal: \<^verbatim>\<open>BoundSnapshot\<close> (\<^verbatim>\<open>polydigest/src/snapshot.rs\<close>),
  \<^verbatim>\<open>Sealed\<close> (\<^verbatim>\<open>polydigest/src/sealed.rs\<close>), the binding proof
  (\<^verbatim>\<open>polydigest/src/binding_proof.rs\<close>) and the snapshot proof
  (\<^verbatim>\<open>polydigest/src/snapshot_proof.rs\<close>).  A value that goes through the null runs is optional,
  \<open>None\<close> being a call that does not return.
\<close>

section \<open>Snapshots\<close>

datatype poly_error = MalformedEpochs | Spine spine_error

record bound_snapshot =
  bs_seal :: seal
  bs_alg_epochs :: timeline

type_synonym sealed = bound_snapshot

definition bound_snapshot_new :: "seal \<Rightarrow> timeline \<Rightarrow> poly_error + bound_snapshot" where
  "bound_snapshot_new s alg_epochs =
     (if \<not> validate_committed_epochs alg_epochs (sl_tree_size s) then Inl MalformedEpochs
      else Inr \<lparr>bs_seal = s, bs_alg_epochs = alg_epochs\<rparr>)"

text \<open>The roots of all members, each folded under its own hasher; the lookup error cannot happen.\<close>

definition binding_roots ::
    "bound_snapshot \<Rightarrow> (alg_id \<times> hasher) list \<Rightarrow> bag_fn \<Rightarrow>
     (poly_error + (alg_id \<times> digest option) list)" where
  "binding_roots b hashers bag =
     bindE (map_err Spine (seal_all_member_roots (bs_seal b) hashers bag)) (\<lambda>members.
       mapE (\<lambda>(alg, _).
         case find_hasher hashers alg of
           None \<Rightarrow> Inl (Spine (MissingHasher alg))
         | Some h \<Rightarrow>
             Inr (alg, combined_root h members (bs_alg_epochs b) (sl_tree_size (bs_seal b))
               (sl_arity (bs_seal b)))) members)"

definition binding_root ::
    "bound_snapshot \<Rightarrow> alg_id \<Rightarrow> hasher \<Rightarrow> (alg_id \<times> hasher) list \<Rightarrow> bag_fn \<Rightarrow>
     poly_error + digest option option" where
  "binding_root b alg h all_hashers bag =
     (if seal_peaks (bs_seal b) alg = None then Inr None
      else bindE (map_err Spine (seal_all_member_roots (bs_seal b) all_hashers bag)) (\<lambda>members.
        Inr (Some (combined_root h members (bs_alg_epochs b) (sl_tree_size (bs_seal b))
          (sl_arity (bs_seal b))))))"

definition sealed_new ::
    "u64 \<Rightarrow> u64 \<Rightarrow> (alg_id \<times> digest list) list \<Rightarrow> timeline \<Rightarrow> poly_error + sealed" where
  "sealed_new n arity frontiers alg_epochs =
     bindE (map_err Spine (seal_new n arity frontiers)) (\<lambda>s. bound_snapshot_new s alg_epochs)"

text \<open>The re-validation cannot fail; its error branch would be a panic.\<close>

definition sealed_with_meta :: "sealed \<Rightarrow> meta \<Rightarrow> sealed option" where
  "sealed_with_meta b m =
     (case bound_snapshot_new (seal_with_meta (bs_seal b) m) (bs_alg_epochs b) of
        Inl _ \<Rightarrow> None
      | Inr b' \<Rightarrow> Some b')"

definition sealed_member_roots :: "sealed \<Rightarrow> (alg_id \<times> hasher) list \<Rightarrow> bag_fn \<Rightarrow> (alg_id \<times> digest) list" where
  "sealed_member_roots b hashers bag = seal_member_roots (bs_seal b) hashers bag"

section \<open>The binding proof\<close>

record trusted_root =
  tr_alg :: alg_id
  tr_hasher :: hasher
  tr_root :: digest

record binding_proof =
  bp_member_roots :: "(alg_id \<times> digest) list"
  bp_alg_epochs :: timeline

definition binding_produce :: "(alg_id \<times> digest) list \<Rightarrow> timeline \<Rightarrow> binding_proof" where
  "binding_produce member_roots alg_epochs =
     \<lparr>bp_member_roots = member_roots, bp_alg_epochs = alg_epochs\<rparr>"

text \<open>\<open>all\<close> over calls that may not return: it stops at the first false one.\<close>

fun all_returning :: "('a \<Rightarrow> bool option) \<Rightarrow> 'a list \<Rightarrow> bool option" where
  "all_returning f [] = Some True"
| "all_returning f (x # xs) =
     (case f x of None \<Rightarrow> None | Some b \<Rightarrow> if b then all_returning f xs else Some False)"

definition binding_verify :: "binding_proof \<Rightarrow> trusted_root list \<Rightarrow> u64 \<Rightarrow> u64 \<Rightarrow> bool option" where
  "binding_verify bp trusted n arity =
     (if trusted = [] then Some False
      else if \<not> validate_committed_epochs (bp_alg_epochs bp) n then Some False
      else if \<not> strictly_sorted (bp_member_roots bp) then Some False
      else if list_ex (\<lambda>t. \<not> list_ex (\<lambda>(alg, _). alg = tr_alg t) (bp_member_roots bp)) trusted
      then Some False
      else all_returning (\<lambda>t.
        map_option (\<lambda>computed. constant_time_eq computed (tr_root t))
          (combined_root (tr_hasher t) (bp_member_roots bp) (bp_alg_epochs bp) n arity)) trusted)"

section \<open>The snapshot proof\<close>

record claimed_leaf =
  cl_alg :: alg_id
  cl_leaf_proof :: leaf_proof

record snapshot_proof =
  sp_member_roots :: "(alg_id \<times> digest) list"
  sp_alg_epochs :: timeline
  sp_tree_size :: u64
  sp_arity :: u64
  sp_claims :: "claimed_leaf list"

definition snapshot_produce ::
    "sealed \<Rightarrow> (alg_id \<times> hasher) list \<Rightarrow> bag_fn \<Rightarrow> claimed_leaf list \<Rightarrow> snapshot_proof" where
  "snapshot_produce b hashers bag claims =
     \<lparr>sp_member_roots = sealed_member_roots b hashers bag, sp_alg_epochs = bs_alg_epochs b,
      sp_tree_size = sl_tree_size (bs_seal b), sp_arity = sl_arity (bs_seal b), sp_claims = claims\<rparr>"

definition snapshot_member_root :: "snapshot_proof \<Rightarrow> alg_id \<Rightarrow> digest option" where
  "snapshot_member_root sp alg = map_option snd (find (\<lambda>(a, _). a = alg) (sp_member_roots sp))"

definition recompute_head :: "snapshot_proof \<Rightarrow> hasher \<Rightarrow> digest option" where
  "recompute_head sp h =
     combined_root h (sp_member_roots sp) (sp_alg_epochs sp) (sp_tree_size sp) (sp_arity sp)"

definition claim_verifies ::
    "snapshot_proof \<Rightarrow> (alg_id \<times> hasher) list \<Rightarrow> skeleton_fn \<Rightarrow> claimed_leaf \<Rightarrow> bool" where
  "claim_verifies sp hashers skeleton c =
     (case snapshot_member_root sp (cl_alg c) of None \<Rightarrow> False | Some member_root \<Rightarrow>
      case find_hasher hashers (cl_alg c) of None \<Rightarrow> False | Some h \<Rightarrow>
      case skeleton (lp_arity (cl_leaf_proof c)) (lp_tree_size (cl_leaf_proof c))
             (lp_index (cl_leaf_proof c)) of
        None \<Rightarrow> False
      | Some sk \<Rightarrow> leaf_proof_verify (cl_leaf_proof c) h sk member_root)"

definition snapshot_verify ::
    "snapshot_proof \<Rightarrow> trusted_root list \<Rightarrow> (alg_id \<times> hasher) list \<Rightarrow> skeleton_fn \<Rightarrow> bool option" where
  "snapshot_verify sp trusted hashers skeleton =
     (if trusted = [] then Some False
      else if \<not> validate_committed_epochs (sp_alg_epochs sp) (sp_tree_size sp) then Some False
      else let derived = committed_active_algs (sp_alg_epochs sp) (sp_tree_size sp)
           in if length derived \<noteq> length (sp_member_roots sp)
                \<or> list_ex (\<lambda>(d, (alg, _)). d \<noteq> alg) (zip derived (sp_member_roots sp))
              then Some False
              else if \<not> strictly_sorted (sp_member_roots sp) then Some False
              else if list_ex (\<lambda>t. snapshot_member_root sp (tr_alg t) = None) trusted then Some False
              else map_option (\<lambda>heads. heads \<and> list_all (claim_verifies sp hashers skeleton) (sp_claims sp))
                (all_returning (\<lambda>t.
                  map_option (\<lambda>head. constant_time_eq head (tr_root t)) (recompute_head sp (tr_hasher t)))
                  trusted))"

section \<open>Verdicts\<close>

lemma all_returning_iff: "all_returning f xs = Some True \<longleftrightarrow> (\<forall>x \<in> set xs. f x = Some True)"
  by (induction xs) (auto split: option.splits if_splits)

lemma all_returning_total:
  "(\<And>x. x \<in> set xs \<Longrightarrow> f x \<noteq> None) \<Longrightarrow> all_returning f xs = Some (\<forall>x \<in> set xs. f x = Some True)"
  by (induction xs) (auto split: option.splits)

lemma snapshot_member_root_map_of: "snapshot_member_root sp alg = map_of (sp_member_roots sp) alg"
  by (simp add: snapshot_member_root_def find_alg_eq_map_of)

lemma snapshot_verify_iff:
  assumes "arity_ok (sp_arity sp)" "sp_tree_size sp \<le> 2 ^ 63"
  shows "snapshot_verify sp trusted hashers skeleton = Some True \<longleftrightarrow>
     trusted \<noteq> [] \<and> validate_committed_epochs (sp_alg_epochs sp) (sp_tree_size sp)
     \<and> committed_active_algs (sp_alg_epochs sp) (sp_tree_size sp) = map fst (sp_member_roots sp)
     \<and> bt_keys (sp_member_roots sp)
     \<and> (\<forall>t \<in> set trusted. tr_alg t \<in> fst ` set (sp_member_roots sp)
          \<and> nary_mr (tr_hasher t) (root_children (tr_hasher t) (sp_member_roots sp) (sp_alg_epochs sp)
              (sp_tree_size sp) (sp_arity sp)) = tr_root t)
     \<and> (\<forall>c \<in> set (sp_claims sp). claim_verifies sp hashers skeleton c)"
proof -
  have k: "2 \<le> sp_arity sp" by (rule arity_ok_ge2 [OF assms(1)])
  have der: "length (committed_active_algs (sp_alg_epochs sp) (sp_tree_size sp)) \<noteq> length (sp_member_roots sp)
      \<or> list_ex (\<lambda>(d, (alg, _)). d \<noteq> alg)
          (zip (committed_active_algs (sp_alg_epochs sp) (sp_tree_size sp)) (sp_member_roots sp))
      \<longleftrightarrow> committed_active_algs (sp_alg_epochs sp) (sp_tree_size sp) \<noteq> map fst (sp_member_roots sp)"
    using lists_agree_iff by blast
  have mem: "list_ex (\<lambda>t. snapshot_member_root sp (tr_alg t) = None) trusted
      \<longleftrightarrow> \<not> (\<forall>t \<in> set trusted. tr_alg t \<in> fst ` set (sp_member_roots sp))"
    by (auto simp: list_ex_iff snapshot_member_root_map_of map_of_eq_None_iff)
  have head: "recompute_head sp h = Some (nary_mr h (root_children h (sp_member_roots sp) (sp_alg_epochs sp)
      (sp_tree_size sp) (sp_arity sp)))" for h
    unfolding recompute_head_def by (rule combined_root_children [OF k assms(2)])
  have both: "map_option (\<lambda>heads. heads \<and> q) m = Some True \<longleftrightarrow> m = Some True \<and> q" for m q
    by (cases m) auto
  have all: "all_returning (\<lambda>t. map_option (\<lambda>head. constant_time_eq head (tr_root t))
        (Some (nary_mr (tr_hasher t) (root_children (tr_hasher t) (sp_member_roots sp) (sp_alg_epochs sp)
          (sp_tree_size sp) (sp_arity sp))))) trusted = Some True
      \<longleftrightarrow> (\<forall>t \<in> set trusted. nary_mr (tr_hasher t) (root_children (tr_hasher t) (sp_member_roots sp)
          (sp_alg_epochs sp) (sp_tree_size sp) (sp_arity sp)) = tr_root t)"
    by (simp add: all_returning_iff)
  have ifs: "(if b then Some False else x) = Some True \<longleftrightarrow> \<not> b \<and> x = Some True" for b x
    by simp
  show ?thesis
    unfolding snapshot_verify_def der mem Let_def head strictly_sorted_keys ifs both all list_all_iff
    by blast
qed

lemma snapshot_verify_claims:
  "snapshot_verify sp trusted hashers skeleton = Some True \<Longrightarrow>
     \<forall>c \<in> set (sp_claims sp). claim_verifies sp hashers skeleton c"
  by (auto simp: snapshot_verify_def Let_def list_all_iff split: if_splits)

lemma sealed_new_Inr_iff:
  "sealed_new n k fs tml = Inr b \<longleftrightarrow>
     seal_new n k fs = Inr (bs_seal b) \<and> bs_alg_epochs b = tml \<and> validate_committed_epochs tml n"
proof -
  have "bound_snapshot_new s tml = Inr b \<longleftrightarrow> s = bs_seal b \<and> bs_alg_epochs b = tml
      \<and> validate_committed_epochs tml (sl_tree_size s)" for s
    by (cases b) (auto simp: bound_snapshot_new_def)
  moreover have "map_err Spine (seal_new n k fs) = Inr s \<longleftrightarrow> seal_new n k fs = Inr s" for s
    by simp
  ultimately show ?thesis
    unfolding sealed_new_def bindE_Inr_iff by (auto simp: seal_new_Inr_iff)
qed

lemma bound_binding_root:
  assumes "2 \<le> sl_arity (bs_seal b)" "sl_tree_size (bs_seal b) \<le> 2 ^ 63"
    and "fst ` set (sl_frontiers (bs_seal b)) \<subseteq> fst ` set hashers" "alg \<in> fst ` set (sl_frontiers (bs_seal b))"
  shows "binding_root b alg h hashers bag = Inr (Some (Some (nary_mr h
     (root_children h (sealed_member_roots b hashers bag) (bs_alg_epochs b) (sl_tree_size (bs_seal b))
       (sl_arity (bs_seal b))))))"
proof -
  have "seal_peaks (bs_seal b) alg \<noteq> None"
    using assms(4) by (simp add: seal_peaks_map_of map_of_eq_None_iff)
  moreover have "seal_all_member_roots (bs_seal b) hashers bag = Inr (sealed_member_roots b hashers bag)"
    using assms(3) by (simp add: all_member_roots_Inr_iff sealed_member_roots_def)
  ultimately show ?thesis
    by (simp add: binding_root_def combined_root_children [OF assms(1,2)])
qed

section \<open>Properties\<close>

text \<open>
  A snapshot proof produced from a sealed commitment verifies against the binding roots of that
  commitment exactly when all its claimed leaves verify against the sealed member roots: the
  well-formedness checks and the recomputed heads never reject what an honest seal produced.
\<close>

theorem snapshot_complete:
  assumes "sealed_new n k frontiers tml = Inr b" "n \<le> 2 ^ 63"
    and "committed_active_algs tml n = map fst frontiers" "fst ` set frontiers \<subseteq> fst ` set hashers"
    and "trusted \<noteq> []"
    and "list_all (\<lambda>t. tr_alg t \<in> fst ` set frontiers
      \<and> binding_root b (tr_alg t) (tr_hasher t) hashers bag = Inr (Some (Some (tr_root t)))) trusted"
  shows "snapshot_verify (snapshot_produce b hashers bag claims) trusted hashers skeleton = Some True
    \<longleftrightarrow> list_all (claim_verifies (snapshot_produce b hashers bag claims) hashers skeleton) claims"
proof -
  let ?sp = "snapshot_produce b hashers bag claims"
  have ar: "arity_ok k" and s: "sl_tree_size (bs_seal b) = n" "sl_arity (bs_seal b) = k"
    "sl_frontiers (bs_seal b) = frontiers" "bs_alg_epochs b = tml" "validate_committed_epochs tml n"
    using assms(1) by (auto simp: sealed_new_Inr_iff seal_new_Inr_iff)
  have algs: "map fst (sealed_member_roots b hashers bag) = map fst frontiers"
    using assms(4) s(3) by (simp add: sealed_member_roots_def member_roots_algs)
  have keys: "bt_keys (sealed_member_roots b hashers bag)"
  proof (cases "0 < n")
    case True
    have "bt_keys (filter (\<lambda>(_, es). active_in es (n - 1)) tml)"
      using s(5) by (auto simp: validate_committed_iff bt_keys_def sorted_wrt_map intro: sorted_wrt_filter)
    then show ?thesis using algs assms(3) by (simp add: bt_keys_def committed_active_algs_iff [OF True])
  next
    case False
    then have "map fst (sealed_member_roots b hashers bag) = []"
      using algs assms(3) by (simp add: committed_active_algs_def)
    then show ?thesis by (simp add: bt_keys_def)
  qed
  have heads: "\<forall>t \<in> set trusted. tr_alg t \<in> fst ` set (sp_member_roots ?sp)
      \<and> nary_mr (tr_hasher t) (root_children (tr_hasher t) (sp_member_roots ?sp) (sp_alg_epochs ?sp)
          (sp_tree_size ?sp) (sp_arity ?sp)) = tr_root t"
  proof
    fix t assume "t \<in> set trusted"
    then have t: "tr_alg t \<in> fst ` set frontiers"
      "binding_root b (tr_alg t) (tr_hasher t) hashers bag = Inr (Some (Some (tr_root t)))"
      using assms(6) by (auto simp: list_all_iff)
    have "fst ` set (sealed_member_roots b hashers bag) = fst ` set frontiers"
      using arg_cong [OF algs, of set] by simp
    then show "tr_alg t \<in> fst ` set (sp_member_roots ?sp)
      \<and> nary_mr (tr_hasher t) (root_children (tr_hasher t) (sp_member_roots ?sp) (sp_alg_epochs ?sp)
          (sp_tree_size ?sp) (sp_arity ?sp)) = tr_root t"
      using t bound_binding_root [of b hashers "tr_alg t" "tr_hasher t" bag] arity_ok_ge2 [OF ar] s assms(2,4)
      by (simp add: snapshot_produce_def)
  qed
  have "arity_ok (sp_arity ?sp)" "sp_tree_size ?sp \<le> 2 ^ 63"
    using ar s assms(2) by (simp_all add: snapshot_produce_def)
  note iff = snapshot_verify_iff [OF this, of trusted hashers skeleton]
  show ?thesis
    unfolding iff using heads assms(3,5) s algs keys
    by (simp add: snapshot_produce_def list_all_iff)
qed

text \<open>A sealed log of one leaf under one algorithm.\<close>

definition toy_sealed :: sealed where
  "toy_sealed =
     \<lparr>bs_seal = \<lparr>sl_tree_size = 1, sl_arity = 2, sl_frontiers = [(1, [[5]])], sl_meta = None\<rparr>,
      bs_alg_epochs = [(1, [(0, u64_max)])]\<rparr>"

lemma toy_sealed_new: "sealed_new 1 2 [(1, [[5]])] [(1, [(0, u64_max)])] = Inr toy_sealed"
  using toy_frontiers(2)
  by (simp add: sealed_new_Inr_iff seal_new_Inr_iff toy_sealed_def arity_ok_def validate_committed_iff
      bt_keys_def epochs_valid_def u64_max_def Let_def)

lemma toy_sealed_root:
  "binding_root toy_sealed 1 toy_hasher [(1, toy_hasher)] bag_peaks = Inr (Some (Some
     (nary_mr toy_hasher (root_children toy_hasher (sealed_member_roots toy_sealed [(1, toy_hasher)] bag_peaks)
       [(1, [(0, u64_max)])] 1 2))))"
proof -
  have "binding_root toy_sealed 1 toy_hasher [(1, toy_hasher)] bag_peaks = Inr (Some (Some (nary_mr toy_hasher
     (root_children toy_hasher (sealed_member_roots toy_sealed [(1, toy_hasher)] bag_peaks)
       (bs_alg_epochs toy_sealed) (sl_tree_size (bs_seal toy_sealed)) (sl_arity (bs_seal toy_sealed))))))"
    by (rule bound_binding_root) (simp_all add: toy_sealed_def)
  then show ?thesis by (simp add: toy_sealed_def)
qed

theorem snapshot_complete_witness:
  "snapshot_verify (snapshot_produce toy_sealed [(1, toy_hasher)] bag_peaks []) [\<lparr>tr_alg = 1, tr_hasher = toy_hasher,
       tr_root = nary_mr toy_hasher (root_children toy_hasher
         (sealed_member_roots toy_sealed [(1, toy_hasher)] bag_peaks) [(1, [(0, u64_max)])] 1 2)\<rparr>]
       [(1, toy_hasher)] mountain_skeleton = Some True
    \<longleftrightarrow> list_all (claim_verifies (snapshot_produce toy_sealed [(1, toy_hasher)] bag_peaks [])
      [(1, toy_hasher)] mountain_skeleton) []"
proof (rule snapshot_complete [OF toy_sealed_new])
  show "committed_active_algs [(1, [(0, u64_max)])] 1 = map fst [(1 :: alg_id, [[5 :: u8]])]"
    by (simp add: committed_active_algs_def u64_max_def)
qed (use toy_sealed_root in simp_all)

text \<open>
  A skeleton function is called with the arity first and the tree size second, but the skeleton
  of the mutable tree takes the size first.  So at every position from the arity on, the leaf
  proof of a committed cell of the mutable tree verifies against its live root under the
  skeleton of its size, arity and index, and yet no snapshot proof that claims it verifies when
  that skeleton function is handed over as it is.
\<close>

theorem skeleton_argument_order:
  assumes "represents t A" "A alg = Some (h, ds)" "i < cmt_len t"
    and "ds ! i = leaf_digest_raw (cm_cells t) h i"
    and "fixed_width h" "width_ok h" "\<And>d. d \<in> set ds \<Longrightarrow> length d = digest_len h"
    and "cm_arity t \<le> i"
  shows "\<exists>lp sk root. cmt_leaf_proof t alg i = Some lp \<and> cmt_root t alg = Some root
    \<and> rebalanced_skeleton (cmt_len t) (cm_arity t) i = Some sk \<and> leaf_proof_verify lp h sk root
    \<and> snapshot_verify (sp\<lparr>sp_claims := \<lparr>cl_alg = alg, cl_leaf_proof = lp\<rparr> # claims\<rparr>) trusted hashers
        rebalanced_skeleton \<noteq> Some True"
proof -
  obtain path sk root where p: "cmt_inclusion_proof t alg i = Some (ds ! i, path)"
    "rebalanced_skeleton (cmt_len t) (cm_arity t) i = Some sk" "cmt_root t alg = Some root"
    "verify_inclusion h (ds ! i) sk path root"
    using cmt_inclusion_spec [OF assms(1-3,5,6,7)] assms(4) by metis
  let ?lp = "\<lparr>lp_leaf_hash = ds ! i, lp_index = i, lp_tree_size = cmt_len t, lp_arity = cm_arity t, lp_path = path\<rparr>"
  have "cmt_leaf_proof t alg i = Some ?lp" using p(1) by (simp add: cmt_leaf_proof_def)
  moreover have "leaf_proof_verify ?lp h sk root" using p(4) by (simp add: leaf_proof_verify_def)
  moreover have "\<not> claim_verifies sp' hashers rebalanced_skeleton \<lparr>cl_alg = alg, cl_leaf_proof = ?lp\<rparr>" for sp'
    using assms(8) by (auto simp: claim_verifies_def rebalanced_skeleton_def split: option.splits)
  then have "snapshot_verify (sp\<lparr>sp_claims := \<lparr>cl_alg = alg, cl_leaf_proof = ?lp\<rparr> # claims\<rparr>) trusted hashers
      rebalanced_skeleton \<noteq> Some True"
    using snapshot_verify_claims by fastforce
  ultimately show ?thesis using p(2,3) by blast
qed

theorem skeleton_argument_order_witness:
  "\<exists>lp sk root. cmt_leaf_proof toy_cmt 1 2 = Some lp \<and> cmt_root toy_cmt 1 = Some root
    \<and> rebalanced_skeleton (cmt_len toy_cmt) (cm_arity toy_cmt) 2 = Some sk
    \<and> leaf_proof_verify lp toy_hasher sk root
    \<and> snapshot_verify ((snapshot_produce toy_sealed [(1, toy_hasher)] rebalanced_bag [])
          \<lparr>sp_claims := [\<lparr>cl_alg = 1, cl_leaf_proof = lp\<rparr>]\<rparr>)
        [\<lparr>tr_alg = 1, tr_hasher = toy_hasher, tr_root = the (cmt_root toy_cmt 1)\<rparr>] [(1, toy_hasher)]
        rebalanced_skeleton \<noteq> Some True"
proof (rule skeleton_argument_order [OF toy_represents _ _ _ toy_hasher_fixed_width toy_hasher_width_ok])
  show "toy_commitments 1 = Some (toy_hasher, leaf_list toy_cells toy_hasher)"
    by (simp add: toy_commitments_def)
  show "2 < cmt_len toy_cmt" "cm_arity toy_cmt \<le> 2" by (simp_all add: cmt_len_def toy_cmt_def toy_cells_def)
  show "leaf_list toy_cells toy_hasher ! 2 = leaf_digest_raw (cm_cells toy_cmt) toy_hasher 2"
    by (simp add: leaf_list_def leaf_digest_raw_def toy_cmt_def toy_cells_def)
  show "length d = digest_len toy_hasher" if "d \<in> set (leaf_list toy_cells toy_hasher)" for d
    using that by (auto simp: leaf_list_def toy_hasher_def digest_len_def)
qed

end
