(* ===== verification/Poly_Storage.thy ===== *)
theory Poly_Storage
  imports Cml_Reopen Cml_Epochs
begin

text \<open>
  The storage interface of \<^verbatim>\<open>polydigest/src/storage.rs\<close>: the six write operations, the trait
  as a record of functions over a store, and the in-memory store with its two-pass \<open>apply\<close>.
  \<open>abs_apply\<close> is the contract the trait's comments state, one operation after the other on an
  abstract store; the locale \<open>lawful_storage\<close> is what the log relies on, interpreted on the
  in-memory store.  The reason strings of the errors are constructors.
\<close>

section \<open>Write operations\<close>

record algorithm_seed =
  sd_alg :: alg_id
  sd_epochs :: epochs
  sd_nodes :: "node_write list"

datatype write_op =
    AppendLeaf u64 bytes "node_write list"
  | AppendSubtree u64 "node_write list"
  | AddAlgorithm alg_id epochs
  | RemoveAlgorithm alg_id epochs
  | ResumeAlgorithm alg_id epochs "node_write list"
  | SeedFrontier u64 "algorithm_seed list"

record ('s, 'e) storage =
  st_get_leaf :: "'s \<Rightarrow> u64 \<Rightarrow> 'e + bytes"
  st_len :: "'s \<Rightarrow> 'e + u64"
  st_get_node :: "'s \<Rightarrow> alg_id \<Rightarrow> u64 \<Rightarrow> u32 \<Rightarrow> 'e + digest option"
  st_load_algorithm_metas :: "'s \<Rightarrow> 'e + (alg_id \<times> epochs) list"
  st_append_count :: "'s \<Rightarrow> 'e + u64"
  st_apply :: "'s \<Rightarrow> write_op list \<Rightarrow> 'e + 's"

definition st_is_empty :: "('s, 'e) storage \<Rightarrow> 's \<Rightarrow> 'e + bool" where
  "st_is_empty S s = bindE (st_len S s) (\<lambda>n. Inr (n = 0))"

definition storage_reader :: "('s, 'e) storage \<Rightarrow> 's \<Rightarrow> 'e node_reader" where
  "storage_reader S s = \<lparr>rd_node = st_get_node S s, rd_leaf = st_get_leaf S s\<rparr>"

section \<open>The in-memory store\<close>

text \<open>The hash maps are partial functions; the algorithms keep the order of their registration.\<close>

record memory_storage =
  ms_leaves :: "bytes list"
  ms_nodes :: "alg_id \<times> u64 \<times> u32 \<Rightarrow> digest option"
  ms_metas :: "(alg_id \<times> epochs) list"
  ms_count :: u64

datatype invalid_reason =
    WrongPosition u64 u64
  | AlreadyRegistered alg_id
  | NotRegistered alg_id
  | SeedNotFresh
  | SeedAlgorithmsNotFresh
  | SeedNamedTwice alg_id

datatype memory_storage_error =
    LeafNotFound u64 u64
  | InvalidOperation invalid_reason

definition mem_new :: memory_storage where
  "mem_new = \<lparr>ms_leaves = [], ms_nodes = (\<lambda>_. None), ms_metas = [], ms_count = 0\<rparr>"

definition mem_get_leaf :: "memory_storage \<Rightarrow> u64 \<Rightarrow> memory_storage_error + bytes" where
  "mem_get_leaf s index =
     (if index < length (ms_leaves s) then Inr (ms_leaves s ! index)
      else Inl (LeafNotFound index (length (ms_leaves s))))"

definition mem_len :: "memory_storage \<Rightarrow> memory_storage_error + u64" where
  "mem_len s = Inr (length (ms_leaves s))"

definition mem_get_node ::
    "memory_storage \<Rightarrow> alg_id \<Rightarrow> u64 \<Rightarrow> u32 \<Rightarrow> memory_storage_error + digest option" where
  "mem_get_node s alg left height = Inr (ms_nodes s (alg, left, height))"

definition mem_load_algorithm_metas ::
    "memory_storage \<Rightarrow> memory_storage_error + (alg_id \<times> epochs) list" where
  "mem_load_algorithm_metas s = Inr (ms_metas s)"

definition mem_append_count :: "memory_storage \<Rightarrow> memory_storage_error + u64" where
  "mem_append_count s = Inr (ms_count s)"

text \<open>The first pass keeps the projected count and the algorithms registered by the batch.\<close>

fun register_seeds :: "alg_id set \<Rightarrow> algorithm_seed list \<Rightarrow> memory_storage_error + alg_id set" where
  "register_seeds reg [] = Inr reg"
| "register_seeds reg (seed # seeds) =
     (if sd_alg seed \<in> reg then Inl (InvalidOperation (SeedNamedTwice (sd_alg seed)))
      else register_seeds (insert (sd_alg seed) reg) seeds)"

fun mem_validate ::
    "memory_storage \<Rightarrow> u64 \<Rightarrow> alg_id set \<Rightarrow> write_op list \<Rightarrow> memory_storage_error + unit" where
  "mem_validate s projected reg [] = Inr ()"
| "mem_validate s projected reg (AppendLeaf at _ _ # ops) =
     (if at \<noteq> projected then Inl (InvalidOperation (WrongPosition at projected))
      else mem_validate s (wrapping_add projected 1) reg ops)"
| "mem_validate s projected reg (AppendSubtree at _ # ops) =
     (if at \<noteq> projected then Inl (InvalidOperation (WrongPosition at projected))
      else mem_validate s (wrapping_add projected 1) reg ops)"
| "mem_validate s projected reg (AddAlgorithm alg _ # ops) =
     (if alg \<in> reg \<or> map_of (ms_metas s) alg \<noteq> None
      then Inl (InvalidOperation (AlreadyRegistered alg))
      else mem_validate s projected (insert alg reg) ops)"
| "mem_validate s projected reg (RemoveAlgorithm alg _ # ops) =
     (if alg \<notin> reg \<and> map_of (ms_metas s) alg = None
      then Inl (InvalidOperation (NotRegistered alg))
      else mem_validate s projected reg ops)"
| "mem_validate s projected reg (ResumeAlgorithm alg _ _ # ops) =
     (if alg \<notin> reg \<and> map_of (ms_metas s) alg = None
      then Inl (InvalidOperation (NotRegistered alg))
      else mem_validate s projected reg ops)"
| "mem_validate s projected reg (SeedFrontier n algorithms # ops) =
     (if projected \<noteq> 0 \<or> reg \<noteq> {} then Inl (InvalidOperation SeedNotFresh)
      else if ms_metas s \<noteq> [] then Inl (InvalidOperation SeedAlgorithmsNotFresh)
      else bindE (register_seeds reg algorithms) (\<lambda>reg'. mem_validate s n reg' ops))"

definition write_node ::
    "node_write \<Rightarrow> (alg_id \<times> u64 \<times> u32 \<Rightarrow> digest option) \<Rightarrow> (alg_id \<times> u64 \<times> u32 \<Rightarrow> digest option)" where
  "write_node nw nodes = (case nw of (alg, left, height, hash) \<Rightarrow> nodes((alg, left, height) \<mapsto> hash))"

lemma dom_fold_write: "dom (fold write_node nws N) = dom N \<union> (\<lambda>(a, l, t, _). (a, l, t)) ` set nws"
  by (induction nws arbitrary: N) (auto simp: write_node_def split: prod.splits)

lemma fold_write_dom: "(a, l, t, d) \<in> set nws \<Longrightarrow> fold write_node nws N (a, l, t) \<noteq> None"
  using dom_fold_write [of nws N] by force

definition write_nodes :: "node_write list \<Rightarrow> memory_storage \<Rightarrow> memory_storage" where
  "write_nodes nws s = s\<lparr>ms_nodes := fold write_node nws (ms_nodes s)\<rparr>"

definition put_meta :: "alg_id \<Rightarrow> epochs \<Rightarrow> memory_storage \<Rightarrow> memory_storage" where
  "put_meta alg es s = s\<lparr>ms_metas := AList.update alg es (ms_metas s)\<rparr>"

fun mem_write :: "write_op \<Rightarrow> memory_storage \<Rightarrow> memory_storage" where
  "mem_write (AppendLeaf _ data nodes) s =
     (write_nodes nodes (s\<lparr>ms_leaves := ms_leaves s @ [data]\<rparr>))\<lparr>ms_count := wrapping_add (ms_count s) 1\<rparr>"
| "mem_write (AppendSubtree _ nodes) s = (write_nodes nodes s)\<lparr>ms_count := wrapping_add (ms_count s) 1\<rparr>"
| "mem_write (AddAlgorithm alg es) s = put_meta alg es s"
| "mem_write (RemoveAlgorithm alg es) s = put_meta alg es s"
| "mem_write (ResumeAlgorithm alg es nodes) s = write_nodes nodes (put_meta alg es s)"
| "mem_write (SeedFrontier n algorithms) s =
     fold (\<lambda>seed s. write_nodes (sd_nodes seed) (put_meta (sd_alg seed) (sd_epochs seed) s)) algorithms
       (s\<lparr>ms_count := n\<rparr>)"

definition mem_apply :: "memory_storage \<Rightarrow> write_op list \<Rightarrow> memory_storage_error + memory_storage" where
  "mem_apply s ops =
     bindE (mem_validate s (ms_count s) {} ops) (\<lambda>_. Inr (fold mem_write ops s))"

definition memory_ops :: "(memory_storage, memory_storage_error) storage" where
  "memory_ops = \<lparr>st_get_leaf = mem_get_leaf, st_len = mem_len, st_get_node = mem_get_node,
     st_load_algorithm_metas = mem_load_algorithm_metas, st_append_count = mem_append_count,
     st_apply = mem_apply\<rparr>"

section \<open>The contract\<close>

text \<open>
  The abstract store and the effect of one operation; \<open>None\<close> is a violated precondition.  A batch
  is its operations one after the other, all of them or none.
\<close>

record store =
  so_leaves :: "bytes list"
  so_nodes :: "alg_id \<times> u64 \<times> u32 \<Rightarrow> digest option"
  so_metas :: "alg_id \<Rightarrow> epochs option"
  so_count :: u64

definition store_nodes :: "node_write list \<Rightarrow> store \<Rightarrow> store" where
  "store_nodes nws st = st\<lparr>so_nodes := fold write_node nws (so_nodes st)\<rparr>"

definition store_seed :: "algorithm_seed \<Rightarrow> store \<Rightarrow> store" where
  "store_seed seed st =
     store_nodes (sd_nodes seed) (st\<lparr>so_metas := (so_metas st)(sd_alg seed \<mapsto> sd_epochs seed)\<rparr>)"

fun abs_step :: "write_op \<Rightarrow> store \<Rightarrow> store option" where
  "abs_step (AppendLeaf at data nodes) st =
     (if at \<noteq> so_count st then None
      else Some (store_nodes nodes (st\<lparr>so_leaves := so_leaves st @ [data], so_count := so_count st + 1\<rparr>)))"
| "abs_step (AppendSubtree at nodes) st =
     (if at \<noteq> so_count st then None
      else Some (store_nodes nodes (st\<lparr>so_count := so_count st + 1\<rparr>)))"
| "abs_step (AddAlgorithm alg es) st =
     (if so_metas st alg \<noteq> None then None else Some (st\<lparr>so_metas := (so_metas st)(alg \<mapsto> es)\<rparr>))"
| "abs_step (RemoveAlgorithm alg es) st =
     (if so_metas st alg = None then None else Some (st\<lparr>so_metas := (so_metas st)(alg \<mapsto> es)\<rparr>))"
| "abs_step (ResumeAlgorithm alg es nodes) st =
     (if so_metas st alg = None then None
      else Some (store_nodes nodes (st\<lparr>so_metas := (so_metas st)(alg \<mapsto> es)\<rparr>)))"
| "abs_step (SeedFrontier n seeds) st =
     (if so_count st \<noteq> 0 \<or> so_metas st \<noteq> Map.empty \<or> \<not> distinct (map sd_alg seeds) then None
      else Some (fold store_seed seeds (st\<lparr>so_count := n\<rparr>)))"

fun abs_apply :: "write_op list \<Rightarrow> store \<Rightarrow> store option" where
  "abs_apply [] st = Some st"
| "abs_apply (op # ops) st = Option.bind (abs_step op st) (abs_apply ops)"

text \<open>
  The count after an operation.  The source counts in 64 bits without a check; a batch whose count
  stays below the limit is one where the count never wraps.
\<close>

fun count_after :: "write_op \<Rightarrow> u64 \<Rightarrow> u64" where
  "count_after (AppendLeaf _ _ _) n = n + 1"
| "count_after (AppendSubtree _ _) n = n + 1"
| "count_after (SeedFrontier seeded _) n = seeded"
| "count_after _ n = n"

fun counts_fit :: "u64 \<Rightarrow> write_op list \<Rightarrow> bool" where
  "counts_fit n [] \<longleftrightarrow> True"
| "counts_fit n (op # ops) \<longleftrightarrow> count_after op n < u64_limit \<and> counts_fit (count_after op n) ops"

lemma counts_fit_append: "counts_fit n (ops @ ops') \<longleftrightarrow> counts_fit n ops \<and> counts_fit (fold count_after ops n) ops'"
  by (induction ops arbitrary: n) auto

text \<open>
  What the log hands to a store: numbers of the machine's width, a height that fits two hex digits,
  timelines that are valid at the count, and leaves for either every position or none.
\<close>

definition node_fits :: "node_write \<Rightarrow> bool" where
  "node_fits = (\<lambda>(alg, left, height, _). alg < u64_limit \<and> left < u64_limit \<and> height < 256)"

fun op_fits :: "store \<Rightarrow> write_op \<Rightarrow> bool" where
  "op_fits st (AppendLeaf at data nodes) \<longleftrightarrow>
     so_count st + 1 < u64_max \<and> length (so_leaves st) = so_count st \<and> list_all node_fits nodes"
| "op_fits st (AppendSubtree at nodes) \<longleftrightarrow>
     so_count st + 1 < u64_max \<and> so_leaves st = [] \<and> list_all node_fits nodes"
| "op_fits st (AddAlgorithm alg es) \<longleftrightarrow> alg < u64_limit \<and> epochs_valid (so_count st) es"
| "op_fits st (RemoveAlgorithm alg es) \<longleftrightarrow> alg < u64_limit \<and> epochs_valid (so_count st) es"
| "op_fits st (ResumeAlgorithm alg es nodes) \<longleftrightarrow>
     alg < u64_limit \<and> epochs_valid (so_count st) es \<and> list_all node_fits nodes"
| "op_fits st (SeedFrontier n seeds) \<longleftrightarrow> n + 1 < u64_max \<and> so_leaves st = []
     \<and> list_all (\<lambda>sd. sd_alg sd < u64_limit \<and> epochs_valid n (sd_epochs sd) \<and> list_all node_fits (sd_nodes sd)) seeds"

lemma op_fits_count: "op_fits st op \<Longrightarrow> so_count st < u64_limit \<Longrightarrow> count_after op (so_count st) < u64_limit"
  using u64_max_less_limit by (cases op) (auto intro: less_trans dest: Suc_lessD)

locale lawful_storage =
  fixes S :: "('s, 'e) storage" and valid :: "'s \<Rightarrow> bool" and content :: "'s \<Rightarrow> store"
  assumes get_node: "valid s \<Longrightarrow> st_get_node S s alg l t = Inr (so_nodes (content s) (alg, l, t))"
    and get_leaf: "valid s \<Longrightarrow> i < length (so_leaves (content s)) \<Longrightarrow> st_get_leaf S s i = Inr (so_leaves (content s) ! i)"
    and get_len: "valid s \<Longrightarrow> st_len S s = Inr (length (so_leaves (content s)))"
    and get_count: "valid s \<Longrightarrow> st_append_count S s = Inr (so_count (content s))"
    and get_metas: "valid s \<Longrightarrow> \<exists>ms. st_load_algorithm_metas S s = Inr ms \<and> distinct (map fst ms)
      \<and> map_of ms = so_metas (content s)"
    and apply_one: "valid s \<Longrightarrow> op_fits (content s) op \<Longrightarrow> abs_step op (content s) = Some st \<Longrightarrow>
      \<exists>s'. st_apply S s [op] = Inr s' \<and> valid s' \<and> content s' = st"
begin

lemma reader_node: "valid s \<Longrightarrow> rd_node (storage_reader S s) alg l t = Inr (so_nodes (content s) (alg, l, t))"
  by (simp add: storage_reader_def get_node)

lemma reader_leaf:
  "valid s \<Longrightarrow> i < length (so_leaves (content s)) \<Longrightarrow> rd_leaf (storage_reader S s) i = Inr (so_leaves (content s) ! i)"
  by (simp add: storage_reader_def get_leaf)

end

section \<open>The in-memory store keeps the contract\<close>

definition mem_wf :: "memory_storage \<Rightarrow> bool" where
  "mem_wf s \<longleftrightarrow> distinct (map fst (ms_metas s)) \<and> ms_count s < u64_limit"

definition mem_abs :: "memory_storage \<Rightarrow> store" where
  "mem_abs s = \<lparr>so_leaves = ms_leaves s, so_nodes = ms_nodes s, so_metas = map_of (ms_metas s),
     so_count = ms_count s\<rparr>"

lemma mem_abs_simps [simp]:
  "so_leaves (mem_abs s) = ms_leaves s" "so_nodes (mem_abs s) = ms_nodes s"
  "so_metas (mem_abs s) = map_of (ms_metas s)" "so_count (mem_abs s) = ms_count s"
  by (simp_all add: mem_abs_def)

lemma mem_abs_nodes: "mem_abs (write_nodes nws s) = store_nodes nws (mem_abs s)"
  by (simp add: mem_abs_def write_nodes_def store_nodes_def)

lemma mem_abs_meta: "mem_abs (put_meta alg es s) = (mem_abs s)\<lparr>so_metas := (so_metas (mem_abs s))(alg \<mapsto> es)\<rparr>"
  by (simp add: mem_abs_def put_meta_def update_conv')

lemma mem_wf_nodes [simp]: "mem_wf (write_nodes nws s) = mem_wf s"
  by (simp add: mem_wf_def write_nodes_def)

lemma mem_wf_meta: "mem_wf s \<Longrightarrow> mem_wf (put_meta alg es s)"
  by (simp add: mem_wf_def put_meta_def distinct_update)

lemma mem_write_step:
  assumes "mem_wf s" "count_after op (ms_count s) < u64_limit" "abs_step op (mem_abs s) = Some st"
  shows "mem_wf (mem_write op s) \<and> mem_abs (mem_write op s) = st"
proof (cases op)
  case (SeedFrontier n seeds)
  have "mem_wf (fold (\<lambda>seed s. write_nodes (sd_nodes seed) (put_meta (sd_alg seed) (sd_epochs seed) s)) seeds s)
      \<and> mem_abs (fold (\<lambda>seed s. write_nodes (sd_nodes seed) (put_meta (sd_alg seed) (sd_epochs seed) s)) seeds s)
        = fold store_seed seeds (mem_abs s)" if "mem_wf s" for s
    using that by (induction seeds arbitrary: s) (simp_all add: store_seed_def mem_abs_nodes mem_abs_meta mem_wf_meta)
  note seeds = this [of "s\<lparr>ms_count := n\<rparr>"]
  have eq: "mem_abs (s\<lparr>ms_count := n\<rparr>) = (mem_abs s)\<lparr>so_count := n\<rparr>" by (simp add: mem_abs_def)
  have "mem_wf (s\<lparr>ms_count := n\<rparr>)" using assms(1,2) by (simp add: mem_wf_def SeedFrontier)
  from seeds [OF this, unfolded eq] show ?thesis
    using assms(3) unfolding SeedFrontier by (simp split: if_splits)
next
  case (AppendLeaf at data nodes)
  then show ?thesis using assms
    by (auto simp: mem_wf_def mem_abs_def write_nodes_def store_nodes_def wrapping_add_eq split: if_splits)
next
  case (AppendSubtree at nodes)
  then show ?thesis using assms
    by (auto simp: mem_wf_def mem_abs_def write_nodes_def store_nodes_def wrapping_add_eq split: if_splits)
qed (use assms in \<open>auto simp: mem_abs_nodes mem_abs_meta mem_wf_meta split: if_splits\<close>)

text \<open>The first pass, with its projection, tells whether every operation is admissible in turn.\<close>

lemma register_seeds_iff:
  "register_seeds reg seeds = (case register_seeds reg seeds of Inl e \<Rightarrow> Inl e | Inr _ \<Rightarrow> Inr (reg \<union> sd_alg ` set seeds))
   \<and> ((\<exists>r. register_seeds reg seeds = Inr r) \<longleftrightarrow> distinct (map sd_alg seeds) \<and> reg \<inter> sd_alg ` set seeds = {})"
  by (induction reg seeds rule: register_seeds.induct) (auto split: sum.splits)

lemma seeds_metas: "so_metas (fold store_seed seeds st) = fold (\<lambda>sd m. m(sd_alg sd \<mapsto> sd_epochs sd)) seeds (so_metas st)"
  and seeds_count: "so_count (fold store_seed seeds st) = so_count st"
  by (induction seeds arbitrary: st) (simp_all add: store_seed_def store_nodes_def)

lemma dom_seeds: "dom (fold (\<lambda>sd m. m(sd_alg sd \<mapsto> sd_epochs sd)) seeds m) = dom m \<union> sd_alg ` set seeds"
  by (induction seeds arbitrary: m) auto

lemma register_seeds_Inr:
  "register_seeds reg seeds = Inr r \<Longrightarrow> r = reg \<union> sd_alg ` set seeds"
  using register_seeds_iff [of reg seeds] by auto

lemma store_nodes_fields [simp]:
  "so_leaves (store_nodes nws st) = so_leaves st" "so_metas (store_nodes nws st) = so_metas st"
  "so_count (store_nodes nws st) = so_count st"
  by (simp_all add: store_nodes_def)

lemma abs_step_count: "abs_step op st = Some st' \<Longrightarrow> so_count st' = count_after op (so_count st)"
  by (cases op) (auto simp: seeds_count split: if_splits)

lemma mem_validate_iff:
  assumes "p = so_count st" "dom (so_metas st) = reg \<union> fst ` set (ms_metas s)" "counts_fit p ops"
  shows "mem_validate s p reg ops = Inr () \<longleftrightarrow> abs_apply ops st \<noteq> None"
  using assms
proof (induction ops arbitrary: p reg st)
  case (Cons op ops)
  have known: "map_of (ms_metas s) alg \<noteq> None \<longleftrightarrow> alg \<in> fst ` set (ms_metas s)" for alg
    by (simp add: map_of_eq_None_iff)
  have reg: "so_metas st alg \<noteq> None \<longleftrightarrow> alg \<in> reg \<or> alg \<in> fst ` set (ms_metas s)" for alg
    using Cons.prems(2) by (auto simp: domIff [symmetric])
  show ?case
  proof (cases op)
    case (AppendLeaf at data nodes)
    then show ?thesis
      using Cons.IH [of "p + 1" "store_nodes nodes (st\<lparr>so_leaves := so_leaves st @ [data], so_count := so_count st + 1\<rparr>)" reg]
        Cons.prems by (simp add: wrapping_add_eq)
  next
    case (AppendSubtree at nodes)
    then show ?thesis
      using Cons.IH [of "p + 1" "store_nodes nodes (st\<lparr>so_count := so_count st + 1\<rparr>)" reg] Cons.prems
      by (simp add: wrapping_add_eq)
  next
    case (AddAlgorithm alg es)
    have "mem_validate s p (insert alg reg) ops = Inr ()
        \<longleftrightarrow> abs_apply ops (st\<lparr>so_metas := (so_metas st)(alg \<mapsto> es)\<rparr>) \<noteq> None"
      by (rule Cons.IH) (use Cons.prems AddAlgorithm in \<open>simp_all del: fun_upd_apply\<close>)
    then show ?thesis using reg [of alg] known [of alg] AddAlgorithm by auto
  next
    case (RemoveAlgorithm alg es)
    show ?thesis
    proof (cases "so_metas st alg = None")
      case False
      then have "mem_validate s p reg ops = Inr ()
          \<longleftrightarrow> abs_apply ops (st\<lparr>so_metas := (so_metas st)(alg \<mapsto> es)\<rparr>) \<noteq> None"
        using reg [of alg] Cons.prems by (intro Cons.IH) (auto simp: RemoveAlgorithm insert_absorb simp del: fun_upd_apply)
      then show ?thesis using reg [of alg] known [of alg] RemoveAlgorithm False by auto
    qed (use reg [of alg] known [of alg] RemoveAlgorithm in auto)
  next
    case (ResumeAlgorithm alg es nodes)
    show ?thesis
    proof (cases "so_metas st alg = None")
      case False
      then have "mem_validate s p reg ops = Inr ()
          \<longleftrightarrow> abs_apply ops (store_nodes nodes (st\<lparr>so_metas := (so_metas st)(alg \<mapsto> es)\<rparr>)) \<noteq> None"
        using reg [of alg] Cons.prems by (intro Cons.IH) (auto simp: ResumeAlgorithm insert_absorb simp del: fun_upd_apply)
      then show ?thesis using reg [of alg] known [of alg] ResumeAlgorithm False by auto
    qed (use reg [of alg] known [of alg] ResumeAlgorithm in auto)
  next
    case (SeedFrontier n seeds)
    let ?st = "fold store_seed seeds (st\<lparr>so_count := n\<rparr>)"
    have fresh: "so_metas st \<noteq> Map.empty \<longleftrightarrow> reg \<noteq> {} \<or> ms_metas s \<noteq> []"
      using Cons.prems(2) by (metis Un_empty dom_eq_empty_conv image_is_empty set_empty2)
    have "mem_validate s n r ops = Inr () \<longleftrightarrow> abs_apply ops ?st \<noteq> None"
      if "r = {} \<union> sd_alg ` set seeds" "so_metas st = Map.empty" "ms_metas s = []" for r
      using that Cons.prems(3) by (intro Cons.IH) (simp_all add: SeedFrontier seeds_count seeds_metas dom_seeds)
    then show ?thesis
      using register_seeds_iff [of "{}" seeds] register_seeds_Inr [of "{}" seeds] fresh Cons.prems(1)
      by (cases "register_seeds {} seeds") (auto simp: SeedFrontier)
  qed
qed simp

lemma abs_apply_append: "abs_apply (ops @ ops') st = Option.bind (abs_apply ops st) (abs_apply ops')"
  by (induction ops arbitrary: st) (auto split: bind_split)

lemma abs_apply_count: "abs_apply ops st = Some st' \<Longrightarrow> so_count st' = fold count_after ops (so_count st)"
  by (induction ops arbitrary: st) (auto simp: bind_eq_Some_conv abs_step_count)

lemma mem_writes:
  "mem_wf s \<Longrightarrow> counts_fit (ms_count s) ops \<Longrightarrow> abs_apply ops (mem_abs s) = Some st \<Longrightarrow>
    mem_wf (fold mem_write ops s) \<and> mem_abs (fold mem_write ops s) = st"
proof (induction ops arbitrary: s)
  case (Cons op ops)
  then obtain st' where st': "abs_step op (mem_abs s) = Some st'" "abs_apply ops st' = Some st"
    by (auto simp: bind_eq_Some_conv)
  have c: "count_after op (ms_count s) < u64_limit" "counts_fit (count_after op (ms_count s)) ops" using Cons.prems(2) by simp_all
  note step = mem_write_step [OF Cons.prems(1) c(1) st'(1)]
  then have "ms_count (mem_write op s) = count_after op (ms_count s)" using abs_step_count [OF st'(1)] by auto
  then show ?case using step c(2) st'(2) Cons.IH [of "mem_write op s"] by simp
qed simp

lemma mem_apply_cases:
  assumes "mem_wf s" "counts_fit (ms_count s) ops"
  shows "(\<exists>st. abs_apply ops (mem_abs s) = Some st \<and> mem_apply s ops = Inr (fold mem_write ops s)
      \<and> mem_wf (fold mem_write ops s) \<and> mem_abs (fold mem_write ops s) = st)
    \<or> abs_apply ops (mem_abs s) = None \<and> (\<exists>e. mem_apply s ops = Inl e)"
proof -
  have "mem_validate s (ms_count s) {} ops = Inr () \<longleftrightarrow> abs_apply ops (mem_abs s) \<noteq> None"
    by (rule mem_validate_iff) (simp_all add: assms(2) dom_map_of_conv_image_fst)
  then show ?thesis
    using mem_writes [OF assms]
    by (cases "mem_validate s (ms_count s) {} ops") (auto simp: mem_apply_def)
qed

interpretation mem: lawful_storage memory_ops mem_wf mem_abs
proof
  fix s op st assume s: "mem_wf s"
  show "\<exists>s'. st_apply memory_ops s [op] = Inr s' \<and> mem_wf s' \<and> mem_abs s' = st"
    if "op_fits (mem_abs s) op" "abs_step op (mem_abs s) = Some st"
  proof -
    have "count_after op (so_count (mem_abs s)) < u64_limit"
      by (rule op_fits_count [OF that(1)]) (use s in \<open>simp add: mem_wf_def\<close>)
    then show ?thesis using mem_apply_cases [OF s, of "[op]"] that(2) by (auto simp: memory_ops_def)
  qed
qed (simp_all add: memory_ops_def mem_get_node_def mem_get_leaf_def mem_len_def mem_append_count_def
    mem_load_algorithm_metas_def mem_wf_def)

section \<open>Properties\<close>

text \<open>
  C9. A batch is atomic and its operations take effect in order: as long as the count stays below
  the 64-bit limit, the in-memory store accepts a batch exactly when every operation is admissible
  after the ones before it, and then holds what they write one after the other; a rejected batch has
  no effect.  A batch of one operation after another is the same as the two batches in turn.
\<close>

theorem apply_atomic:
  assumes "mem_wf s" "counts_fit (ms_count s) (ops @ ops')"
  shows "(case mem_apply s ops of
      Inl e \<Rightarrow> abs_apply ops (mem_abs s) = None
    | Inr s' \<Rightarrow> mem_wf s' \<and> abs_apply ops (mem_abs s) = Some (mem_abs s'))
    \<and> (\<forall>s'. mem_apply s (ops @ ops') = Inr s' \<longleftrightarrow>
        bindE (mem_apply s ops) (\<lambda>s1. mem_apply s1 ops') = Inr s')"
proof
  have fit: "counts_fit (ms_count s) ops" using assms(2) by (simp add: counts_fit_append)
  note first = mem_apply_cases [OF assms(1) fit] and both = mem_apply_cases [OF assms]
  show "case mem_apply s ops of
      Inl e \<Rightarrow> abs_apply ops (mem_abs s) = None
    | Inr s' \<Rightarrow> mem_wf s' \<and> abs_apply ops (mem_abs s) = Some (mem_abs s')"
    using first by auto
  show "\<forall>s'. mem_apply s (ops @ ops') = Inr s' \<longleftrightarrow>
        bindE (mem_apply s ops) (\<lambda>s1. mem_apply s1 ops') = Inr s'"
  proof (cases "abs_apply ops (mem_abs s)")
    case None
    then show ?thesis using first both by (auto simp: abs_apply_append)
  next
    case (Some st)
    then have one: "mem_apply s ops = Inr (fold mem_write ops s)" "mem_wf (fold mem_write ops s)"
      "mem_abs (fold mem_write ops s) = st"
      using first by auto
    have "ms_count (fold mem_write ops s) = fold count_after ops (ms_count s)"
      using abs_apply_count [OF Some] one(3) by auto
    then have "counts_fit (ms_count (fold mem_write ops s)) ops'" using assms(2) by (simp add: counts_fit_append)
    from mem_apply_cases [OF one(2) this] show ?thesis using both one Some by (auto simp: abs_apply_append)
  qed
qed

theorem apply_atomic_witness:
  "(case mem_apply mem_new [AddAlgorithm 1 [(0, 9)], AppendLeaf 0 [5] [(1, 0, 0, [7])]] of
      Inl e \<Rightarrow> abs_apply [AddAlgorithm 1 [(0, 9)], AppendLeaf 0 [5] [(1, 0, 0, [7])]] (mem_abs mem_new) = None
    | Inr s' \<Rightarrow> mem_wf s'
        \<and> abs_apply [AddAlgorithm 1 [(0, 9)], AppendLeaf 0 [5] [(1, 0, 0, [7])]] (mem_abs mem_new) = Some (mem_abs s'))
    \<and> (\<forall>s'. mem_apply mem_new ([AddAlgorithm 1 [(0, 9)], AppendLeaf 0 [5] [(1, 0, 0, [7])]] @ [AddAlgorithm 1 []]) = Inr s' \<longleftrightarrow>
        bindE (mem_apply mem_new [AddAlgorithm 1 [(0, 9)], AppendLeaf 0 [5] [(1, 0, 0, [7])]])
          (\<lambda>s1. mem_apply s1 [AddAlgorithm 1 []]) = Inr s')"
  by (rule apply_atomic) (simp_all add: mem_wf_def mem_new_def u64_limit_def)

text \<open>
  Past the limit the count wraps: a store seeded at \<^verbatim>\<open>u64::MAX\<close> accepts one more leaf and then counts
  zero items, so that it accepts an append at position 0 again.  (A build with overflow checks panics.)
\<close>

theorem memory_count_wraps:
  "\<exists>s. mem_apply mem_new [SeedFrontier u64_max [], AppendLeaf u64_max d nodes] = Inr s
    \<and> mem_append_count s = Inr 0 \<and> mem_len s = Inr 1
    \<and> (\<exists>s'. mem_apply s [AppendSubtree 0 []] = Inr s')"
  by (simp add: mem_apply_def mem_new_def mem_append_count_def mem_len_def write_nodes_def wrapping_add_def u64_max_def)

end
