(* ===== verification/Poly_Log.thy ===== *)
theory Poly_Log
  imports Poly_Snapshot Poly_Storage
begin

text \<open>
  The log of \<^verbatim>\<open>polydigest/src/tree.rs\<close>: one store, one view per algorithm, the append count and
  the kind.  This theory holds its constructors, its five mutating operations and its queries,
  and the seal (\<^verbatim>\<open>polydigest/src/seal.rs\<close>).  The hash map of the views is an association list; the
  order in which the source walks it is arbitrary, here it is the order of the list.  An error of
  the source is \<open>Inl\<close> and leaves the log as it was; \<open>LogStuck\<close> is no value of the source, it
  stands for a call that panics or does not return.
\<close>

section \<open>Types\<close>

datatype log_reason =
    InvalidArity u64
  | InvalidSealedArity u64
  | LeafAfterSubtree
  | SubtreeAfterLeaf
  | CapacityExceeded
  | AuditUnderflow
  | ReplayUnderflow
  | ReplayCoordsUnderflow
  | EngineReason reason

datatype 'e log_error =
    Storage 'e
  | UnknownAlgorithm alg_id
  | DuplicateAlgorithm alg_id
  | FrozenAlgorithm alg_id
  | AlgorithmActive alg_id
  | NoActiveAlgorithms
  | IndexOutOfBounds u64 u64
  | OrphanedMetadata alg_id
  | UnknownMetadata alg_id
  | CorruptedMetadata alg_id log_reason
  | MalformedSeal
  | ResumeTargetNotFresh u64
  | MissingTrustedRoot alg_id
  | LogStuck

fun log_error_of :: "'e cml_error \<Rightarrow> 'e log_error" where
  "log_error_of (Read e) = Storage e"
| "log_error_of (Corrupted alg r) = CorruptedMetadata alg (EngineReason r)"
| "log_error_of Panic = LogStuck"

record 's merkle_log =
  lg_storage :: 's
  lg_arity :: u64
  lg_algs :: "(alg_id \<times> alg_view) list"
  lg_count :: u64
  lg_kind :: log_kind

definition log_capacity :: u64 where
  "log_capacity = 2 ^ 47"

definition log_size :: "'s merkle_log \<Rightarrow> u64" where
  "log_size L = (if lg_kind L = Flat then lg_count L else 0)"

definition subtree_count :: "'s merkle_log \<Rightarrow> u64" where
  "subtree_count L = (if lg_kind L = Subtree then lg_count L else 0)"

definition frontier_for :: "'s merkle_log \<Rightarrow> alg_id \<Rightarrow> digest list option" where
  "frontier_for L alg = map_option av_frontier (map_of (lg_algs L) alg)"

definition log_frontier :: "'s merkle_log \<Rightarrow> digest list" where
  "log_frontier L = (case frontier_for L 0 of None \<Rightarrow> [] | Some f \<Rightarrow> f)"

section \<open>Registering, freezing and reactivating algorithms\<close>

definition add_algorithm ::
    "('s, 'e) storage \<Rightarrow> 's merkle_log \<Rightarrow> alg_id \<Rightarrow> hasher \<Rightarrow> 'e log_error + 's merkle_log" where
  "add_algorithm S L alg h =
     (if map_of (lg_algs L) alg \<noteq> None then Inl (DuplicateAlgorithm alg)
      else let epochs = [(lg_count L, u64_max)]
           in bindE (map_err Storage (st_apply S (lg_storage L) [AddAlgorithm alg epochs])) (\<lambda>s.
                let coords = frontier_for_size (lg_count L) (lg_arity L);
                    view = \<lparr>av_hasher = h, av_epochs = epochs,
                            av_frontier = replicate (length coords) (hs_null h), av_coords = coords\<rparr>
                in Inr (L\<lparr>lg_storage := s, lg_algs := AList.update alg view (lg_algs L)\<rparr>)))"

definition log_new ::
    "('s, 'e) storage \<Rightarrow> 's \<Rightarrow> hasher \<Rightarrow> u64 \<Rightarrow> 'e log_error + 's merkle_log" where
  "log_new S s h arity =
     (if \<not> arity_ok arity then Inl (CorruptedMetadata 0 (InvalidArity arity))
      else add_algorithm S \<lparr>lg_storage = s, lg_arity = arity, lg_algs = [], lg_count = 0,
             lg_kind = Flat\<rparr> 0 h)"

definition remove_algorithm ::
    "('s, 'e) storage \<Rightarrow> 's merkle_log \<Rightarrow> alg_id \<Rightarrow> 'e log_error + 's merkle_log" where
  "remove_algorithm S L alg =
     (case map_of (lg_algs L) alg of None \<Rightarrow> Inl (UnknownAlgorithm alg) | Some view \<Rightarrow>
        if \<not> is_active view then Inl (FrozenAlgorithm alg)
        else let es = av_epochs view;
                 new_epochs = (if es = [] then [] else butlast es @ [(fst (last es), lg_count L)])
             in bindE (map_err Storage (st_apply S (lg_storage L) [RemoveAlgorithm alg new_epochs])) (\<lambda>s.
                  Inr (L\<lparr>lg_storage := s,
                         lg_algs := AList.update alg (view\<lparr>av_epochs := new_epochs\<rparr>) (lg_algs L)\<rparr>)))"

definition resume_algorithm ::
    "('s, 'e) storage \<Rightarrow> 's merkle_log \<Rightarrow> alg_id \<Rightarrow> 'e log_error + 's merkle_log" where
  "resume_algorithm S L alg =
     (case map_of (lg_algs L) alg of None \<Rightarrow> Inl (UnknownAlgorithm alg) | Some view \<Rightarrow>
        if is_active view then Inl (AlgorithmActive alg)
        else let new_epochs = av_epochs view @ [(lg_count L, u64_max)];
                 k = lg_arity L;
                 coords = frontier_for_size (lg_count L) k;
                 temp_view = \<lparr>av_hasher = av_hasher view, av_epochs = new_epochs, av_frontier = [],
                              av_coords = []\<rparr>
             in bindE (map_err log_error_of (mapE (\<lambda>(left, height).
                    reconstruct_subtree_root (storage_reader S (lg_storage L)) alg temp_view left
                      (left + k ^ height) k (lg_kind L) True) coords)) (\<lambda>parts.
                  let nodes = map (\<lambda>(left, height, hash). (alg, left, height, hash)) (concat (map snd parts))
                  in bindE (map_err Storage (st_apply S (lg_storage L) [ResumeAlgorithm alg new_epochs nodes])) (\<lambda>s.
                       Inr (L\<lparr>lg_storage := s,
                              lg_algs := AList.update alg (view\<lparr>av_epochs := new_epochs,
                                av_frontier := map fst parts, av_coords := coords\<rparr>) (lg_algs L)\<rparr>))))"

section \<open>Appending\<close>

text \<open>The loop over the views: an inactive one is kept, an active one gets the digest and carries.\<close>

fun build_append_state ::
    "(alg_id \<Rightarrow> alg_view \<Rightarrow> digest \<times> node_write option) \<Rightarrow> u64 \<Rightarrow> u64 \<Rightarrow> (alg_id \<times> alg_view) list \<Rightarrow>
     node_write list \<Rightarrow> 'e log_error + ((alg_id \<times> alg_view) list \<times> node_write list)" where
  "build_append_state digest_fn count k [] nodes = Inr ([], nodes)"
| "build_append_state digest_fn count k ((alg, view) # algs) nodes =
     (if \<not> is_active view then
        bindE (build_append_state digest_fn count k algs nodes) (\<lambda>(algs', nodes').
          Inr ((alg, view) # algs', nodes'))
      else let (digest, extra) = digest_fn alg view;
               nodes1 = (case extra of None \<Rightarrow> nodes | Some node \<Rightarrow> nodes @ [node])
           in bindE (map_err log_error_of (carry view alg digest count k nodes1)) (\<lambda>(view', nodes2).
                bindE (build_append_state digest_fn count k algs nodes2) (\<lambda>(algs', nodes').
                  Inr ((alg, view') # algs', nodes'))))"

definition item_digest ::
    "u64 \<Rightarrow> (hasher \<Rightarrow> digest) \<Rightarrow> alg_id \<Rightarrow> alg_view \<Rightarrow> digest \<times> node_write option" where
  "item_digest at value alg view =
     (if is_active_at view at
      then (value (av_hasher view), Some (alg, at, 0, value (av_hasher view)))
      else (hs_null (av_hasher view), None))"

definition append_leaf ::
    "('s, 'e) storage \<Rightarrow> 's merkle_log \<Rightarrow> bytes \<Rightarrow> 'e log_error + 's merkle_log" where
  "append_leaf S L data =
     (if lg_kind L = Subtree \<and> lg_count L > 0 then Inl (CorruptedMetadata 0 LeafAfterSubtree)
      else if lg_count L \<ge> log_capacity then Inl (CorruptedMetadata 0 CapacityExceeded)
      else if \<not> list_ex (\<lambda>(_, view). is_active view) (lg_algs L) then Inl NoActiveAlgorithms
      else let at = lg_count L
           in bindE (build_append_state (item_digest at (\<lambda>h. hs_leaf h data)) at (lg_arity L) (lg_algs L) [])
                (\<lambda>(new_algs, nodes).
                  bindE (map_err Storage (st_apply S (lg_storage L) [AppendLeaf at data nodes])) (\<lambda>s.
                    Inr (L\<lparr>lg_storage := s, lg_algs := new_algs, lg_count := at + 1, lg_kind := Flat\<rparr>))))"

definition append_subtree ::
    "('s, 'e) storage \<Rightarrow> 's merkle_log \<Rightarrow> subtree \<Rightarrow> 'e log_error + 's merkle_log" where
  "append_subtree S L st =
     (if lg_kind L = Flat \<and> lg_count L > 0 then Inl (CorruptedMetadata 0 SubtreeAfterLeaf)
      else if lg_count L \<ge> log_capacity then Inl (CorruptedMetadata 0 CapacityExceeded)
      else if \<not> list_ex (\<lambda>(_, view). is_active view) (lg_algs L) then Inl NoActiveAlgorithms
      else let at = lg_count L
           in bindE (build_append_state (item_digest at (\<lambda>h. evaluate h st)) at (lg_arity L) (lg_algs L) [])
                (\<lambda>(new_algs, nodes).
                  bindE (map_err Storage (st_apply S (lg_storage L) [AppendSubtree at nodes])) (\<lambda>s.
                    Inr (L\<lparr>lg_storage := s, lg_algs := new_algs, lg_count := at + 1, lg_kind := Subtree\<rparr>))))"

section \<open>Queries\<close>

definition committed_epochs_at :: "'s merkle_log \<Rightarrow> u64 \<Rightarrow> timeline" where
  "committed_epochs_at L n =
     sort_key fst (List.map_filter (\<lambda>(alg, view). map_option (Pair alg) (epochs_at view n)) (lg_algs L))"

definition active_algs_at :: "'s merkle_log \<Rightarrow> u64 \<Rightarrow> alg_id list" where
  "active_algs_at L n =
     sort (map fst (filter (\<lambda>(_, view). n > 0 \<and> is_active_at view (n - 1)) (lg_algs L)))"

text \<open>The lookup every query starts with.\<close>

definition with_view :: "'s merkle_log \<Rightarrow> alg_id \<Rightarrow> (alg_view \<Rightarrow> 'e log_error + 'a) \<Rightarrow> 'e log_error + 'a" where
  "with_view L alg f =
     (case map_of (lg_algs L) alg of None \<Rightarrow> Inl (UnknownAlgorithm alg) | Some view \<Rightarrow> f view)"

definition log_root_for :: "'s merkle_log \<Rightarrow> alg_id \<Rightarrow> 'e log_error + digest" where
  "log_root_for L alg = with_view L alg (\<lambda>view. Inr (compute_root view (lg_arity L)))"

definition live_combined_root :: "'s merkle_log \<Rightarrow> alg_id \<Rightarrow> 'e log_error + digest" where
  "live_combined_root L alg = with_view L alg (\<lambda>view.
     if lg_count L = 0 then Inr (hs_empty (av_hasher view))
     else bindE (mapE (\<lambda>a. bindE (log_root_for L a) (\<lambda>r. Inr (a, r))) (active_algs_at L (lg_count L)))
            (\<lambda>member_roots.
               ok_or LogStuck (combined_root (av_hasher view) member_roots
                 (committed_epochs_at L (lg_count L)) (lg_count L) (lg_arity L))))"

definition log_root :: "'s merkle_log \<Rightarrow> digest" where
  "log_root L = (case live_combined_root L 0 :: unit log_error + digest of Inl _ \<Rightarrow> [] | Inr r \<Rightarrow> r)"

definition log_inclusion_proof_for ::
    "('s, 'e) storage \<Rightarrow> 's merkle_log \<Rightarrow> alg_id \<Rightarrow> u64 \<Rightarrow> u64 \<Rightarrow> 'e log_error + proof_step list option" where
  "log_inclusion_proof_for S L alg index n = with_view L alg (\<lambda>view.
     map_err log_error_of (inclusion_proof (storage_reader S (lg_storage L)) view alg index n
       (lg_count L) (lg_arity L)))"

definition log_leaf_proof_for ::
    "('s, 'e) storage \<Rightarrow> 's merkle_log \<Rightarrow> alg_id \<Rightarrow> u64 \<Rightarrow> u64 \<Rightarrow> 'e log_error + leaf_proof option" where
  "log_leaf_proof_for S L alg index n = with_view L alg (\<lambda>view.
     map_err log_error_of (leaf_proof_of (storage_reader S (lg_storage L)) view alg index n
       (lg_count L) (lg_arity L)))"

definition log_consistency_proof_for ::
    "('s, 'e) storage \<Rightarrow> 's merkle_log \<Rightarrow> alg_id \<Rightarrow> u64 \<Rightarrow> u64 \<Rightarrow> 'e log_error + consistency_proof option" where
  "log_consistency_proof_for S L alg old_size new_size = with_view L alg (\<lambda>view.
     map_err log_error_of (consistency_proof_of (storage_reader S (lg_storage L)) view alg old_size new_size
       (lg_count L) (lg_arity L)))"

text \<open>The forms for the default algorithm 0.\<close>

definition log_inclusion_proof ::
    "('s, 'e) storage \<Rightarrow> 's merkle_log \<Rightarrow> u64 \<Rightarrow> u64 \<Rightarrow> 'e log_error + proof_step list option" where
  "log_inclusion_proof S L index n = log_inclusion_proof_for S L 0 index n"

definition log_leaf_proof ::
    "('s, 'e) storage \<Rightarrow> 's merkle_log \<Rightarrow> u64 \<Rightarrow> u64 \<Rightarrow> 'e log_error + leaf_proof option" where
  "log_leaf_proof S L index n = log_leaf_proof_for S L 0 index n"

definition log_consistency_proof ::
    "('s, 'e) storage \<Rightarrow> 's merkle_log \<Rightarrow> u64 \<Rightarrow> u64 \<Rightarrow> 'e log_error + consistency_proof option" where
  "log_consistency_proof S L old_size new_size = log_consistency_proof_for S L 0 old_size new_size"

definition log_peak_at ::
    "('s, 'e) storage \<Rightarrow> 's merkle_log \<Rightarrow> alg_id \<Rightarrow> u64 \<Rightarrow> u32 \<Rightarrow> 'e log_error + digest" where
  "log_peak_at S L alg left height = with_view L alg (\<lambda>view.
     map_err log_error_of (peak_at (storage_reader S (lg_storage L)) view alg left height (lg_arity L)))"

definition log_root_for_at ::
    "('s, 'e) storage \<Rightarrow> 's merkle_log \<Rightarrow> alg_id \<Rightarrow> u64 \<Rightarrow> 'e log_error + digest" where
  "log_root_for_at S L alg n = with_view L alg (\<lambda>view.
     if n > lg_count L then Inl (IndexOutOfBounds n (lg_count L))
     else map_err log_error_of (root_for_at (storage_reader S (lg_storage L)) view alg n (lg_arity L)))"

definition frontier_peaks_at ::
    "('s, 'e) storage \<Rightarrow> 's merkle_log \<Rightarrow> alg_id \<Rightarrow> u64 \<Rightarrow> 'e log_error + digest list" where
  "frontier_peaks_at S L alg n = with_view L alg (\<lambda>view.
     map_err log_error_of (frontier_peaks (storage_reader S (lg_storage L)) view alg n (lg_arity L)))"

text \<open>The raw roots of the active algorithms at a size.\<close>

definition member_roots_at ::
    "('s, 'e) storage \<Rightarrow> 's merkle_log \<Rightarrow> u64 \<Rightarrow> 'e log_error + (alg_id \<times> digest) list" where
  "member_roots_at S L n =
     mapE (\<lambda>a. bindE (log_root_for_at S L a n) (\<lambda>r. Inr (a, r))) (active_algs_at L n)"

definition combined_root_at ::
    "('s, 'e) storage \<Rightarrow> 's merkle_log \<Rightarrow> alg_id \<Rightarrow> u64 \<Rightarrow> 'e log_error + digest" where
  "combined_root_at S L alg n = with_view L alg (\<lambda>view.
     if n = 0 then Inr (hs_empty (av_hasher view))
     else if active_algs_at L n = [] then Inl NoActiveAlgorithms
     else if alg \<notin> set (active_algs_at L n) then Inl (FrozenAlgorithm alg)
     else bindE (member_roots_at S L n) (\<lambda>member_roots.
            ok_or LogStuck (combined_root (av_hasher view) member_roots (committed_epochs_at L n) n (lg_arity L))))"

definition combined_root_for ::
    "('s, 'e) storage \<Rightarrow> 's merkle_log \<Rightarrow> alg_id \<Rightarrow> 'e log_error + digest" where
  "combined_root_for S L alg = combined_root_at S L alg (lg_count L)"

definition log_combined_root :: "('s, 'e) storage \<Rightarrow> 's merkle_log \<Rightarrow> digest" where
  "log_combined_root S L = (case combined_root_for S L 0 of Inl _ \<Rightarrow> [] | Inr r \<Rightarrow> r)"

definition audit_payload_at ::
    "('s, 'e) storage \<Rightarrow> 's merkle_log \<Rightarrow> bytes \<Rightarrow> u64 \<Rightarrow> 'e log_error + audit_payload" where
  "audit_payload_at S L log_id n =
     (if n = 0 then Inl (IndexOutOfBounds 0 0)
      else let active = active_algs_at L n
           in if active = [] then Inl NoActiveAlgorithms
              else bindE (mapE (\<lambda>a. bindE (combined_root_at S L a n) (\<lambda>cr. Inr (a, cr))) active)
                     (\<lambda>combined_roots.
                        Inr \<lparr>ap_log_id = log_id, ap_tree_size = n, ap_active_algs = active,
                             ap_combined_roots = combined_roots, ap_alg_epochs = committed_epochs_at L n\<rparr>))"

definition audit_payload_of ::
    "('s, 'e) storage \<Rightarrow> 's merkle_log \<Rightarrow> bytes \<Rightarrow> 'e log_error + audit_payload" where
  "audit_payload_of S L log_id = audit_payload_at S L log_id (lg_count L)"

definition coupling_proof_at ::
    "('s, 'e) storage \<Rightarrow> 's merkle_log \<Rightarrow> u64 \<Rightarrow> 'e log_error + coupling_proof" where
  "coupling_proof_at S L n =
     (if n = 0 then Inl (IndexOutOfBounds 0 0)
      else if active_algs_at L n = [] then Inl NoActiveAlgorithms
      else bindE (member_roots_at S L n) (\<lambda>active_roots.
             Inr \<lparr>cp_active_roots = active_roots, cp_alg_epochs = committed_epochs_at L n\<rparr>))"

section \<open>The seal\<close>

text \<open>The shared body of the two seals.  \<open>MalformedSeal\<close> hides the error of the snapshot; the
  metadata is attached by a step that cannot fail.\<close>

definition seal_inner ::
    "('s, 'e) storage \<Rightarrow> 's merkle_log \<Rightarrow> meta option \<Rightarrow> 'e log_error + sealed" where
  "seal_inner S L m =
     (let n = lg_count L;
          alg_epochs = (if n = 0 then [] else committed_epochs_at L n);
          active = filter (\<lambda>(alg, _). committed_active_at alg_epochs alg n = Some True) alg_epochs
      in bindE (mapE (\<lambda>(alg, _). bindE (frontier_peaks_at S L alg n) (\<lambda>peaks. Inr (alg, peaks))) active)
           (\<lambda>frontiers.
         bindE (map_err (\<lambda>_. MalformedSeal) (sealed_new n (lg_arity L) frontiers alg_epochs)) (\<lambda>b.
           case m of None \<Rightarrow> Inr b | Some md \<Rightarrow> ok_or LogStuck (sealed_with_meta b md))))"

definition log_seal :: "('s, 'e) storage \<Rightarrow> 's merkle_log \<Rightarrow> 'e log_error + sealed" where
  "log_seal S L = seal_inner S L None"

definition log_seal_with_meta ::
    "('s, 'e) storage \<Rightarrow> 's merkle_log \<Rightarrow> meta \<Rightarrow> 'e log_error + sealed" where
  "log_seal_with_meta S L md = seal_inner S L (Some md)"

section \<open>Resuming and reloading\<close>

text \<open>Collecting pairs into a hash map keeps the last entry of a key.\<close>

definition hash_map :: "('k \<times> 'v) list \<Rightarrow> 'k \<Rightarrow> 'v option" where
  "hash_map xs = map_of (rev xs)"

fun resume_views ::
    "u64 \<Rightarrow> coord list \<Rightarrow> timeline \<Rightarrow> (alg_id \<Rightarrow> hasher option) \<Rightarrow> (alg_id \<times> digest list) list \<Rightarrow>
     'e log_error + (alg_view \<times> algorithm_seed) list" where
  "resume_views k coords tml hashers [] = Inr []"
| "resume_views k coords tml hashers ((alg, peaks) # frontiers) =
     (case hashers alg of None \<Rightarrow> Inl (UnknownAlgorithm alg) | Some h \<Rightarrow>
        let es = (case find (\<lambda>(i, _). i = alg) tml of None \<Rightarrow> [(0, u64_max)] | Some (_, e) \<Rightarrow> e);
            view = \<lparr>av_hasher = h, av_epochs = es, av_frontier = peaks, av_coords = coords\<rparr>;
            nodes = List.map_filter (\<lambda>((left, height), peak).
                      if active_range view left (left + k ^ height)
                      then Some (alg, left, height, peak) else None) (zip coords peaks)
        in bindE (resume_views k coords tml (hashers(alg := None)) frontiers) (\<lambda>rest.
             Inr ((view, \<lparr>sd_alg = alg, sd_epochs = es, sd_nodes = nodes\<rparr>) # rest)))"

definition log_resume ::
    "('s, 'e) storage \<Rightarrow> sealed \<Rightarrow> 's \<Rightarrow> (alg_id \<times> hasher) list \<Rightarrow> 'e log_error + 's merkle_log" where
  "log_resume S b s hashers =
     bindE (map_err Storage (st_append_count S s)) (\<lambda>existing_count.
     bindE (map_err Storage (st_load_algorithm_metas S s)) (\<lambda>existing_metas.
       if existing_count > 0 \<or> existing_metas \<noteq> [] then Inl (ResumeTargetNotFresh existing_count)
       else let k = sl_arity (bs_seal b); n = sl_tree_size (bs_seal b)
            in if \<not> arity_ok k then Inl (CorruptedMetadata 0 (InvalidSealedArity k))
               else bindE (resume_views k (frontier_for_size n k) (bs_alg_epochs b) (hash_map hashers)
                      (sl_frontiers (bs_seal b))) (\<lambda>views.
                    bindE (map_err Storage (st_apply S s [SeedFrontier n (map snd views)])) (\<lambda>s'.
                      Inr \<lparr>lg_storage = s', lg_arity = k,
                           lg_algs = map (\<lambda>(view, seed). (sd_alg seed, view)) views,
                           lg_count = n, lg_kind = Subtree\<rparr>))))"

fun check_metas ::
    "(alg_id \<Rightarrow> hasher option) \<Rightarrow> alg_id set \<Rightarrow> (alg_id \<times> epochs) list \<Rightarrow> 'e log_error + unit" where
  "check_metas hashers seen [] = Inr ()"
| "check_metas hashers seen ((alg, _) # metas) =
     (if alg \<in> seen then Inl (DuplicateAlgorithm alg)
      else if hashers alg = None then Inl (OrphanedMetadata alg)
      else check_metas hashers (insert alg seen) metas)"

definition from_storage_with_config ::
    "('s, 'e) storage \<Rightarrow> 's \<Rightarrow> (alg_id \<times> hasher) list \<Rightarrow> u64 \<Rightarrow> 'e log_error + 's merkle_log" where
  "from_storage_with_config S s hashers arity =
     (if \<not> arity_ok arity then Inl (CorruptedMetadata 0 (InvalidArity arity))
      else
        bindE (map_err Storage (st_load_algorithm_metas S s)) (\<lambda>metas.
        bindE (check_metas (hash_map hashers) {} metas) (\<lambda>_.
          case find (\<lambda>(alg, _). alg \<notin> fst ` set metas) hashers of
            Some (alg, _) \<Rightarrow> Inl (UnknownMetadata alg)
          | None \<Rightarrow>
              bindE (map_err Storage (st_append_count S s)) (\<lambda>global_size.
              bindE (map_err Storage (st_len S s)) (\<lambda>leaves.
                let kind = (if leaves > 0 then Flat else Subtree)
                in bindE (mapE (\<lambda>(alg, epochs).
                       case hash_map hashers alg of None \<Rightarrow> Inl (OrphanedMetadata alg) | Some h \<Rightarrow>
                         bindE (map_err log_error_of (reconstruct_view (storage_reader S s) alg h epochs
                             global_size arity)) (\<lambda>view. Inr (alg, view))) metas) (\<lambda>algs.
                     Inr \<lparr>lg_storage = s, lg_arity = arity, lg_algs = algs, lg_count = global_size,
                          lg_kind = kind\<rparr>))))))"

definition from_storage ::
    "('s, 'e) storage \<Rightarrow> 's \<Rightarrow> (alg_id \<times> hasher) list \<Rightarrow> 'e log_error + 's merkle_log" where
  "from_storage S s hashers = from_storage_with_config S s hashers 2"

end
