(* ===== verification/Poly_Log_State.thy ===== *)
theory Poly_Log_State
  imports Poly_Log
begin

text \<open>
  The state invariant of the log, over any lawful store.  The history of a log is its list of
  appended items; per algorithm it determines the digest of every position (\<open>history\<close>: the
  item's digest where the algorithm is active, the null digest elsewhere).  The invariant says
  that every view holds the frontier of its history and that the store holds exactly the
  perfect-subtree digests of its active blocks.
\<close>

section \<open>Histories\<close>

datatype item = LeafItem bytes | TreeItem subtree

fun item_value :: "item \<Rightarrow> hasher \<Rightarrow> digest" where
  "item_value (LeafItem data) h = hs_leaf h data"
| "item_value (TreeItem st) h = evaluate h st"

fun item_kind :: "item \<Rightarrow> log_kind" where
  "item_kind (LeafItem _) = Flat"
| "item_kind (TreeItem _) = Subtree"

definition leaf_payloads :: "item list \<Rightarrow> bytes list" where
  "leaf_payloads items = List.map_filter (\<lambda>it. case it of LeafItem d \<Rightarrow> Some d | TreeItem _ \<Rightarrow> None) items"

definition history :: "item list \<Rightarrow> alg_view \<Rightarrow> nat \<Rightarrow> digest" where
  "history items v i =
     (if i < length items \<and> is_active_at v i then item_value (items ! i) (av_hasher v)
      else hs_null (av_hasher v))"

text \<open>
  What the log relies on of a hasher: digests of one width, and no inner node that hashes to the
  null digest.
\<close>

definition null_free :: "hasher \<Rightarrow> bool" where
  "null_free h \<longleftrightarrow> fixed_width h
     \<and> (\<forall>cs. list_all (\<lambda>c. length c = digest_len h) cs \<longrightarrow> hs_node h cs \<noteq> hs_null h)"

lemma null_free_width: "null_free h \<Longrightarrow> fixed_width h"
  by (simp add: null_free_def)

lemma length_history: "fixed_width (av_hasher v) \<Longrightarrow> length (history items v i) = digest_len (av_hasher v)"
  by (cases "items ! i") (simp_all add: history_def fixed_width_simps length_evaluate)

lemma history_inactive: "\<not> is_active_at v i \<Longrightarrow> history items v i = hs_null (av_hasher v)"
  by (simp add: history_def)

lemma history_cong:
  assumes "av_hasher v' = av_hasher v" "\<And>i. i < length items \<Longrightarrow> is_active_at v' i = is_active_at v i"
  shows "history items v' = history items v"
  using assms by (auto simp: history_def fun_eq_iff)

lemma history_append:
  "i < length items \<Longrightarrow> history (items @ [it]) v i = history items v i"
  by (simp add: history_def nth_append)

text \<open>A block with an active position never hashes to the null digest.\<close>

lemma nary_mr_not_null:
  assumes "null_free h" "\<And>c. c \<in> set cs \<Longrightarrow> length c = digest_len h" "c \<in> set cs" "c \<noteq> hs_null h"
  shows "nary_mr h cs \<noteq> hs_null h"
proof (cases "uniform cs")
  case True
  then have "\<forall>x \<in> set cs. x = hd cs" by (simp add: uniform_def list_all_iff)
  then have "c = hd cs" using assms(3) by blast
  moreover have "nary_mr h cs = hd cs" using True assms(3) by (intro nary_mr_uniform) auto
  ultimately show ?thesis using assms(4) by simp
next
  case False
  then have "2 \<le> length cs" using assms(3) by (cases cs; cases "tl cs") (auto simp: uniform_def)
  then have "nary_mr h cs = hs_node h cs" using False by (rule nary_mr_node)
  then show ?thesis using assms(1,2) by (simp add: null_free_def list_all_iff)
qed

lemma pdig_not_null:
  assumes h: "null_free (av_hasher v)" and k: "2 \<le> k"
    and w: "\<And>i. length (f i) = digest_len (av_hasher v)"
    and nn: "\<And>i. i < n \<Longrightarrow> is_active_at v i \<Longrightarrow> f i \<noteq> hs_null (av_hasher v)"
  shows "l \<le> i \<Longrightarrow> i < l + k ^ t \<Longrightarrow> i < n \<Longrightarrow> is_active_at v i \<Longrightarrow>
    pdig (av_hasher v) k f l t \<noteq> hs_null (av_hasher v)"
proof (induction t arbitrary: l)
  case 0
  then have "l = i" by simp
  then show ?case using nn [of i] 0 by simp
next
  case (Suc t)
  define j where "j = (i - l) div k ^ t"
  have pos: "0 < k ^ t" using k by simp
  have "i - l < k ^ Suc t" using Suc.prems(1,2) by linarith
  then have j: "j < k" using pos by (simp add: j_def div_less_iff_less_mult)
  have "j * k ^ t \<le> i - l" "i - l < j * k ^ t + k ^ t"
    using mod_less_divisor [OF pos, of "i - l"] div_mult_mod_eq [of "i - l" "k ^ t"]
    unfolding j_def by linarith+
  then have "l + j * k ^ t \<le> i" "i < l + j * k ^ t + k ^ t" using Suc.prems(1) by linarith+
  then have "pdig (av_hasher v) k f (l + j * k ^ t) t \<noteq> hs_null (av_hasher v)"
    using Suc.prems(3,4) by (rule Suc.IH)
  moreover have "length (pdig (av_hasher v) k f l t) = digest_len (av_hasher v)" for l
    by (rule length_pdig [OF null_free_width [OF h] w])
  ultimately show ?case
    unfolding pdig.simps using j h by (intro nary_mr_not_null) auto
qed

section \<open>The invariant of one algorithm\<close>

definition alg_ok ::
    "(alg_id \<times> u64 \<times> u32 \<Rightarrow> digest option) \<Rightarrow> nat \<Rightarrow> item list \<Rightarrow> alg_id \<Rightarrow> alg_view \<Rightarrow> bool" where
  "alg_ok N k items alg v \<longleftrightarrow>
     (let n = length items; m = tree_size v n; h = av_hasher v; f = history items v in
      null_free h \<and> epochs_valid n (av_epochs v)
      \<and> (\<forall>i < n. is_active_at v i \<longrightarrow> item_value (items ! i) h \<noteq> hs_null h)
      \<and> holds_frontier v k f m
      \<and> (\<forall>l t. k ^ t dvd l \<and> l + k ^ t \<le> m \<and> active_range v l (l + k ^ t) \<longrightarrow>
           N (alg, l, t) = Some (pdig h k f l t))
      \<and> (\<forall>l t d. N (alg, l, t) = Some d \<longrightarrow> k ^ t dvd l \<and> l + k ^ t \<le> m \<and> d = pdig h k f l t))"

text \<open>Epochs of a valid timeline: an open one counts every append, a closed one stops at its end.\<close>

lemma epochs_sorted_snoc:
  "epochs_sorted b (es @ [(s, e)]) \<longleftrightarrow> epochs_sorted b es \<and> (if es = [] then b else snd (last es)) \<le> s \<and> s \<le> e"
  by (induction b es rule: epochs_sorted.induct) auto

lemma tree_size_open: "is_active v \<Longrightarrow> tree_size v n = n"
  by (simp add: is_active_def tree_size_def epochs_tree_size_def)

lemma tree_size_closed: "\<not> is_active v \<Longrightarrow> av_epochs v \<noteq> [] \<Longrightarrow> tree_size v n = snd (last (av_epochs v))"
  by (simp add: is_active_def tree_size_def epochs_tree_size_def)

lemma epochs_sorted_le_last: "epochs_sorted b es \<Longrightarrow> (s, e) \<in> set es \<Longrightarrow> e \<le> snd (last es)"
proof (induction b es rule: epochs_sorted.induct)
  case (2 b s2 e2 es)
  show ?case
  proof (cases "es = []")
    case False
    then have "last es \<in> set es" by simp
    then have "e2 \<le> snd (last es)"
      using epochs_sorted_ge [of e2 es "fst (last es)" "snd (last es)"] "2.prems"(1) by simp
    then show ?thesis using 2 False by auto
  qed (use 2 in simp)
qed simp

lemma epochs_validD:
  assumes "epochs_valid n es"
  shows "es \<noteq> []" "epochs_sorted 0 es" "snd (last es) = u64_max \<Longrightarrow> fst (last es) \<le> n"
    "snd (last es) \<noteq> u64_max \<Longrightarrow> snd (last es) \<le> n"
  using assms by (auto simp: epochs_valid_def split: if_splits prod.splits)

lemma epochs_valid_butlast:
  "epochs_valid n es \<Longrightarrow> (s, e) \<in> set (butlast es) \<Longrightarrow> e \<noteq> u64_max \<and> e \<le> n"
  by (auto simp: epochs_valid_def)

lemma epochs_valid_mono: "epochs_valid n es \<Longrightarrow> n \<le> m \<Longrightarrow> epochs_valid m es"
  by (fastforce simp: epochs_valid_def Let_def split: if_splits prod.splits)

lemma epochs_valid_reopen:
  assumes v: "epochs_valid n es" and c: "snd (last es) \<noteq> u64_max" and n: "n < u64_max"
  shows "epochs_valid n (es @ [(n, u64_max)])"
proof -
  note d = epochs_validD [OF v]
  have "e \<noteq> u64_max \<and> e \<le> n" if "(s, e) \<in> set es" for s e
    using epochs_sorted_le_last [OF d(2) that] d(4) [OF c] n by simp
  then have "\<forall>(s, e) \<in> set es. e \<noteq> u64_max \<and> e \<le> n" by blast
  then show ?thesis using d(1,2) d(4) [OF c] n by (simp add: epochs_valid_def epochs_sorted_snoc)
qed

lemma closed_inactive:
  assumes "epochs_valid (length items) (av_epochs v)" "\<not> is_active v" "is_active_at v i"
  shows "i < tree_size v n" "tree_size v n \<le> length items"
proof -
  have ne: "av_epochs v \<noteq> []" using assms(1) by (rule epochs_validD)
  have sz: "tree_size v n = snd (last (av_epochs v))" using assms(2) ne by (rule tree_size_closed)
  obtain s e where "(s, e) \<in> set (av_epochs v)" "i < e"
    using assms(3) by (auto simp: is_active_at_def list_ex_iff)
  then show "i < tree_size v n"
    using sz epochs_sorted_le_last [OF epochs_validD(2) [OF assms(1)]] by fastforce
  have "snd (last (av_epochs v)) \<noteq> u64_max" using assms(2) ne by (simp add: is_active_def epochs_open_def)
  then show "tree_size v n \<le> length items" using sz epochs_validD(4) [OF assms(1)] by simp
qed

lemma open_active:
  assumes "epochs_valid n (av_epochs v)" "is_active v" "n < u64_max"
  shows "is_active_at v n"
proof -
  have l: "last (av_epochs v) \<in> set (av_epochs v)" "snd (last (av_epochs v)) = u64_max"
    "fst (last (av_epochs v)) \<le> n"
    using epochs_validD [OF assms(1)] assms(2) by (simp_all add: is_active_def epochs_open_def)
  then show ?thesis using assms(3) by (auto simp: is_active_at_def list_ex_iff case_prod_beta intro!: bexI [of _ "last (av_epochs v)"])
qed

section \<open>Every operation keeps the invariant of an algorithm\<close>

lemma alg_okD:
  assumes "alg_ok N k items alg v"
  shows "null_free (av_hasher v)" "fixed_width (av_hasher v)" "epochs_valid (length items) (av_epochs v)"
    "i < length items \<Longrightarrow> is_active_at v i \<Longrightarrow> item_value (items ! i) (av_hasher v) \<noteq> hs_null (av_hasher v)"
    "holds_frontier v k (history items v) (tree_size v (length items))"
    "k ^ t dvd l \<Longrightarrow> l + k ^ t \<le> tree_size v (length items) \<Longrightarrow> active_range v l (l + k ^ t) \<Longrightarrow>
      N (alg, l, t) = Some (pdig (av_hasher v) k (history items v) l t)"
    "N (alg, l, t) = Some d \<Longrightarrow> k ^ t dvd l \<and> l + k ^ t \<le> tree_size v (length items)
      \<and> d = pdig (av_hasher v) k (history items v) l t"
proof -
  note a = assms [unfolded alg_ok_def Let_def]
  show "null_free (av_hasher v)" by (rule conjunct1 [OF a])
  then show "fixed_width (av_hasher v)" by (rule null_free_width)
  note a = conjunct2 [OF a]
  show "epochs_valid (length items) (av_epochs v)" by (rule conjunct1 [OF a])
  note a = conjunct2 [OF a]
  show "i < length items \<Longrightarrow> is_active_at v i \<Longrightarrow> item_value (items ! i) (av_hasher v) \<noteq> hs_null (av_hasher v)"
    using conjunct1 [OF a] by (elim allE impE)
  note a = conjunct2 [OF a]
  show "holds_frontier v k (history items v) (tree_size v (length items))" by (rule conjunct1 [OF a])
  note a = conjunct2 [OF a]
  show "k ^ t dvd l \<Longrightarrow> l + k ^ t \<le> tree_size v (length items) \<Longrightarrow> active_range v l (l + k ^ t) \<Longrightarrow>
      N (alg, l, t) = Some (pdig (av_hasher v) k (history items v) l t)"
    using conjunct1 [OF a] by simp
  show "N (alg, l, t) = Some d \<Longrightarrow> k ^ t dvd l \<and> l + k ^ t \<le> tree_size v (length items)
      \<and> d = pdig (av_hasher v) k (history items v) l t"
    using conjunct2 [OF a] by (elim allE impE)
qed

lemma alg_okI:
  assumes "null_free (av_hasher v)" "epochs_valid (length items) (av_epochs v)"
    "\<And>i. i < length items \<Longrightarrow> is_active_at v i \<Longrightarrow> item_value (items ! i) (av_hasher v) \<noteq> hs_null (av_hasher v)"
    "holds_frontier v k (history items v) (tree_size v (length items))"
    "\<And>l t. k ^ t dvd l \<Longrightarrow> l + k ^ t \<le> tree_size v (length items) \<Longrightarrow> active_range v l (l + k ^ t) \<Longrightarrow>
      N (alg, l, t) = Some (pdig (av_hasher v) k (history items v) l t)"
    "\<And>l t d. N (alg, l, t) = Some d \<Longrightarrow> k ^ t dvd l \<and> l + k ^ t \<le> tree_size v (length items)
      \<and> d = pdig (av_hasher v) k (history items v) l t"
  shows "alg_ok N k items alg v"
  using assms unfolding alg_ok_def Let_def by blast

lemma alg_ok_added:
  assumes h: "null_free h" and k: "2 \<le> k" and n: "length items < u64_limit"
    and none: "\<And>l t. N (alg, l, t) = None"
  shows "alg_ok N k items alg \<lparr>av_hasher = h, av_epochs = [(length items, u64_max)],
      av_frontier = replicate (length (frontier_for_size (length items) k)) (hs_null h),
      av_coords = frontier_for_size (length items) k\<rparr>"
proof -
  let ?n = "length items"
  define v where "v = \<lparr>av_hasher = h, av_epochs = [(?n, u64_max)],
      av_frontier = replicate (length (frontier_for_size ?n k)) (hs_null h), av_coords = frontier_for_size ?n k\<rparr>"
  have v: "av_hasher v = h" "av_epochs v = [(?n, u64_max)]" "av_coords v = frontier_for_size ?n k"
    "av_frontier v = replicate (length (frontier_for_size ?n k)) (hs_null h)" by (simp_all add: v_def)
  have inact: "\<not> is_active_at v i" if "i < ?n" for i using that by (simp add: v is_active_at_def)
  have sz: "tree_size v ?n = ?n" by (rule tree_size_open) (simp add: v is_active_def epochs_open_def)
  have hist: "history items v = (\<lambda>_. hs_null h)" using inact by (auto simp: history_def v fun_eq_iff)
  have null: "pdig h k (\<lambda>_. hs_null h) l t = hs_null h" for l t using k by (intro pdig_const) simp_all
  have "fdigs h k (\<lambda>_. hs_null h) C = replicate (length C) (hs_null h)" for C
    by (induction C) (auto simp: fdigs_def null)
  then have "holds_frontier v k (history items v) ?n" unfolding hist by (simp add: holds_frontier_def v)
  moreover have "epochs_valid ?n (av_epochs v)" using n
    by (simp add: v epochs_valid_def le_u64_max_iff)
  moreover have "\<not> active_range v l (l + k ^ t)" if "l + k ^ t \<le> ?n" for l t
    using that by (simp add: v active_range_def)
  ultimately have "alg_ok N k items alg v"
    using inact none h v(1) by (intro alg_okI) (simp_all only: sz simp_thms option.distinct(1))
  then show ?thesis by (simp add: v_def)
qed

lemma alg_ok_removed:
  assumes ok: "alg_ok N k items alg v" and act: "is_active v" and n: "length items < u64_max" and k: "2 \<le> k"
  defines "v' \<equiv> v\<lparr>av_epochs := butlast (av_epochs v) @ [(fst (last (av_epochs v)), length items)]\<rparr>"
  shows "alg_ok N k items alg v'"
proof -
  let ?n = "length items" and ?es = "av_epochs v"
  have val: "epochs_valid ?n ?es" by (rule alg_okD [OF ok])
  have ne: "?es \<noteq> []" and l: "snd (last ?es) = u64_max" using act by (simp_all add: is_active_def epochs_open_def)
  have split: "?es = butlast ?es @ [(fst (last ?es), u64_max)]"
    using append_butlast_last_id [OF ne] l by (metis prod.collapse)
  have sorted: "epochs_sorted 0 (butlast ?es)"
    "(if butlast ?es = [] then 0 else snd (last (butlast ?es))) \<le> fst (last ?es)"
    using epochs_validD(2) [OF val] split by (metis epochs_sorted_snoc)+
  have start: "fst (last ?es) \<le> ?n" using epochs_validD(3) [OF val] l by simp
  have mem: "set (av_epochs v) = insert (fst (last ?es), u64_max) (set (butlast ?es))"
    using split by (metis Un_insert_right list.simps(15) set_append sup_bot.right_neutral list.set(1))
  have mem': "set (av_epochs v') = insert (fst (last ?es), ?n) (set (butlast ?es))" by (simp add: v'_def)
  have at: "is_active_at v' i = is_active_at v i" if "i < ?n" for i
    using that n unfolding is_active_at_def list_ex_iff mem mem' by auto
  have range: "active_range v' lo hi = active_range v lo hi" if "hi \<le> ?n" "lo < hi" for lo hi
    using that n unfolding active_range_def list_ex_iff mem mem' by auto
  have hv: "av_hasher v' = av_hasher v" by (simp add: v'_def)
  have frozen: "\<not> is_active v'" using n by (simp add: v'_def is_active_def epochs_open_def)
  have sz: "tree_size v' ?n = ?n" "tree_size v ?n = ?n"
    using tree_size_closed [OF frozen] tree_size_open [OF act] by (simp_all add: v'_def)
  have hist: "history items v' = history items v"
    using at by (intro history_cong) (simp_all add: v'_def)
  have "epochs_valid ?n (av_epochs v')"
    using sorted start n epochs_valid_butlast [OF val]
    by (auto simp: v'_def epochs_valid_def epochs_sorted_snoc Let_def)
  moreover have "holds_frontier v' k (history items v') ?n"
    using alg_okD(5) [OF ok] unfolding hist sz by (simp add: holds_frontier_def v'_def)
  moreover have "active_range v l (l + k ^ t)" if "active_range v' l (l + k ^ t)" "l + k ^ t \<le> ?n" for l t
    using range [OF that(2)] that(1) k by simp
  moreover have "item_value (items ! i) (av_hasher v) \<noteq> hs_null (av_hasher v)"
    if "i < ?n" "is_active_at v' i" for i
    using alg_okD(4) [OF ok that(1)] at [OF that(1)] that(2) by simp
  ultimately show ?thesis
    using alg_okD(1) [OF ok] alg_okD(6,7) [OF ok, unfolded sz]
    by - (rule alg_okI, unfold sz hist hv, blast+)
qed

text \<open>Reopening: the subtree reader gives the frontier, the store and the mixed nodes together have
  every active block.\<close>

lemma subtree_block_in_frontier:
  assumes k: "2 \<le> k" and n: "n < u64_limit" and b: "k ^ s dvd l" "l + k ^ s \<le> n"
  obtains lo t where "(lo, t) \<in> set (frontier_for_size n k)" "lo \<le> l" "l + k ^ s \<le> lo + k ^ t"
proof -
  have pos: "0 < k ^ s" using k by simp
  then have "l < n" using b(2) by linarith
  then obtain lo t where c: "(lo, t) \<in> set (frontier_for_size n k)" "in_block k l (lo, t)"
    using frontier_block_ex1 [OF k n] by (metis surj_pair)
  then have lt: "lo \<le> l" "l < lo + k ^ t" by (simp_all add: in_block_def)
  have "s \<le> t" by (rule block_at_bound [OF k n b c(1) lt])
  from block_covers [OF b(1) frontier_aligned [OF k n c(1)] this lt, of "l + k ^ s - 1"] pos
  have "l + k ^ s \<le> lo + k ^ t" by linarith
  then show thesis using that c(1) lt(1) by blast
qed

lemma write_node_simp [simp]: "write_node (a, l, t, d) N = N((a, l, t) \<mapsto> d)"
  by (simp add: write_node_def)

text \<open>A batch of writes whose digests are a function of their coordinates.\<close>

lemma fold_write_nodes:
  assumes "\<And>a l t d. (a, l, t, d) \<in> set nws \<Longrightarrow> d = g a l t"
  shows "fold write_node nws N (a, l, t) = (if \<exists>d. (a, l, t, d) \<in> set nws then Some (g a l t) else N (a, l, t))"
  using assms
proof (induction nws arbitrary: N)
  case (Cons nw nws)
  obtain a' l' t' d' where nw: "nw = (a', l', t', d')" by (metis surj_pair)
  have "d' = g a' l' t'" using Cons.prems nw by simp
  moreover have "fold write_node nws N' (a, l, t)
      = (if \<exists>d. (a, l, t, d) \<in> set nws then Some (g a l t) else N' (a, l, t))" for N'
    by (rule Cons.IH) (use Cons.prems in auto)
  ultimately show ?case by (auto simp: nw)
qed simp

text \<open>The view a frozen algorithm is reconstructed under: its timeline with the new epoch, no frontier yet.\<close>

definition reopened :: "u64 \<Rightarrow> alg_view \<Rightarrow> alg_view" where
  "reopened n v = \<lparr>av_hasher = av_hasher v, av_epochs = av_epochs v @ [(n, u64_max)], av_frontier = [], av_coords = []\<rparr>"

lemma reopened_past:
  "av_hasher (reopened n v) = av_hasher v"
  "i < n \<Longrightarrow> is_active_at (reopened n v) i = is_active_at v i"
  "hi \<le> n \<Longrightarrow> active_range (reopened n v) lo hi = active_range v lo hi"
  by (auto simp: reopened_def is_active_at_def active_range_def)

lemma frozen_tree_size:
  assumes "epochs_valid n (av_epochs v)" "\<not> is_active v"
  shows "tree_size v n \<le> n"
proof -
  have "tree_size v n = snd (last (av_epochs v))" by (rule tree_size_closed [OF assms(2) epochs_validD(1) [OF assms(1)]])
  moreover have "snd (last (av_epochs v)) \<noteq> u64_max"
    using assms(2) epochs_validD(1) [OF assms(1)] by (simp add: is_active_def epochs_open_def)
  ultimately show ?thesis using epochs_validD(4) [OF assms(1)] by simp
qed

text \<open>The store answers the blocks of a frozen algorithm up to its end, and is right wherever it answers.\<close>

lemma frozen_node:
  assumes "alg_ok N k items alg v" "\<And>l t. rd_node rd alg l t = Inr (N (alg, l, t))"
    and "k ^ s dvd l" "l + k ^ s \<le> tree_size v (length items)" "active_range v l (l + k ^ s)"
  shows "rd_node rd alg l s = Inr (Some (pdig (av_hasher v) k (history items v) l s))"
  using alg_okD(6) [OF assms(1,3-5)] assms(2) by simp

lemma reopened_frozen_store:
  assumes ok: "alg_ok N k items alg v" and frozen: "\<not> is_active v"
    and rd: "\<And>l t. rd_node rd alg l t = Inr (N (alg, l, t))"
  shows "frozen_store rd (reopened (length items) v) alg k (history items v) (tree_size v (length items)) (length items)"
  unfolding frozen_store_def reopened_past
proof (intro conjI allI impI, elim conjE)
  note val = alg_okD(3) [OF ok]
  fix l s assume b: "k ^ s dvd l" "l + k ^ s \<le> tree_size v (length items)"
    "active_range (reopened (length items) v) l (l + k ^ s)"
  then have "active_range v l (l + k ^ s)"
    using reopened_past(3) [of "l + k ^ s" "length items" v l] frozen_tree_size [OF val frozen] by simp
  then show "rd_node rd alg l s = Inr (Some (pdig (av_hasher v) k (history items v) l s))"
    by (rule frozen_node [OF ok rd b(1,2)])
next
  fix i assume "i < length items" "is_active_at (reopened (length items) v) i"
  then show "i < tree_size v (length items)"
    using reopened_past(2) closed_inactive(1) [OF alg_okD(3) [OF ok] frozen] by simp
qed

lemma reopened_sound_store:
  assumes ok: "alg_ok N k items alg v" and frozen: "\<not> is_active v" and rd: "\<And>l t. rd_node rd alg l t = Inr (N (alg, l, t))"
    and leaves: "kind = Flat \<Longrightarrow> (\<forall>i < length items. \<exists>data. items ! i = LeafItem data \<and> rd_leaf rd i = Inr data)"
  shows "sound_store rd (reopened (length items) v) alg k (history items v) (length items) kind"
  unfolding sound_store_def reopened_past
proof (intro conjI allI impI)
  let ?h = "av_hasher v" and ?f = "history items v"
  show "fixed_width ?h" by (rule alg_okD(2) [OF ok])
  show "length (?f i) = digest_len ?h" for i by (rule length_history [OF alg_okD(2) [OF ok]])
  show "?f i = hs_null ?h" if "i < length items" "\<not> is_active_at (reopened (length items) v) i" for i
    using that reopened_past(2) history_inactive by simp
  show "rd_node rd alg l t = Inr None \<or> rd_node rd alg l t = Inr (Some (pdig ?h k ?f l t))" for l t
    using alg_okD(7) [OF ok, of l t] rd by (cases "N (alg, l, t)") auto
  show "case kind of Flat \<Rightarrow> \<exists>data. rd_leaf rd i = Inr data \<and> ?f i = hs_leaf ?h data
      | Subtree \<Rightarrow> rd_node rd alg i 0 = Inr None \<longrightarrow> ?f i = hs_null ?h"
    if "i < length items" "is_active_at (reopened (length items) v) i" for i
  proof -
    have i: "i < length items" "is_active_at v i" using that reopened_past(2) by auto
    show ?thesis
    proof (cases kind)
      case Flat
      then obtain data where "items ! i = LeafItem data" "rd_leaf rd i = Inr data" using leaves i(1) by blast
      then show ?thesis using i Flat by (auto simp: history_def)
    next
      case Subtree
      have "i < tree_size v (length items)" using i closed_inactive(1) [OF alg_okD(3) [OF ok] frozen] by simp
      then have "rd_node rd alg i 0 = Inr (Some (pdig ?h k ?f i 0))"
        using i active_range_one [of v i] by (intro frozen_node [OF ok rd]) simp_all
      then show ?thesis using Subtree by simp
    qed
  qed
qed

text \<open>Each peak of the frontier is reconstructed, with right nodes that fill its block.\<close>

lemma reopened_blocks:
  assumes ok: "alg_ok N k items alg v" and frozen: "\<not> is_active v" and k: "2 \<le> k" and lim: "length items < u64_limit"
    and rd: "\<And>l t. rd_node rd alg l t = Inr (N (alg, l, t))"
    and leaves: "kind = Flat \<Longrightarrow> (\<forall>i < length items. \<exists>data. items ! i = LeafItem data \<and> rd_leaf rd i = Inr data)"
  shows "\<exists>mx. \<forall>(l, t) \<in> set (frontier_for_size (length items) k).
    reconstruct_subtree_root rd alg (reopened (length items) v) l (l + k ^ t) k kind True
      = Inr (pdig (av_hasher v) k (history items v) l t, mx (l, t))
    \<and> right_nodes (av_hasher v) k (history items v) l (l + k ^ t) (mx (l, t))
    \<and> fills rd (reopened (length items) v) alg k (history items v) l (l + k ^ t) (mx (l, t))"
proof -
  let ?h = "av_hasher v" and ?f = "history items v" and ?v = "reopened (length items) v"
  have ss: "sound_store rd ?v alg k ?f (length items) kind" by (rule reopened_sound_store [OF ok frozen rd leaves])
  have fz: "frozen_store rd ?v alg k ?f (tree_size v (length items)) (length items)"
    by (rule reopened_frozen_store [OF ok frozen rd])
  have "\<exists>m. reconstruct_subtree_root rd alg ?v l (l + k ^ t) k kind True = Inr (pdig ?h k ?f l t, m)
      \<and> right_nodes ?h k ?f l (l + k ^ t) m \<and> fills rd ?v alg k ?f l (l + k ^ t) m"
    if c: "(l, t) \<in> set (frontier_for_size (length items) k)" for l t
  proof -
    note b = frontier_aligned [OF k lim c] frontier_bound [OF k lim c]
    obtain m1 where m1: "reconstruct_subtree_root rd alg ?v l (l + k ^ t) k kind True = Inr (pdig ?h k ?f l t, m1)"
      "right_nodes ?h k ?f l (l + k ^ t) m1"
      using subtree_root_sound [OF ss k b, of True] unfolding reopened_past by auto
    obtain m2 where m2: "reconstruct_subtree_root rd alg ?v l (l + k ^ t) k kind True = Inr (pdig ?h k ?f l t, m2)"
      "fills rd ?v alg k ?f l (l + k ^ t) m2"
      using subtree_root_fills [OF ss fz k b] unfolding reopened_past by auto
    have "m1 = m2" using m1(1) m2(1) by simp
    with m1 m2(2) show ?thesis by blast
  qed
  then have "\<forall>c \<in> set (frontier_for_size (length items) k). \<exists>m. case c of (l, t) \<Rightarrow>
      reconstruct_subtree_root rd alg ?v l (l + k ^ t) k kind True = Inr (pdig ?h k ?f l t, m)
      \<and> right_nodes ?h k ?f l (l + k ^ t) m \<and> fills rd ?v alg k ?f l (l + k ^ t) m"
    by fast
  from bchoice [OF this] show ?thesis by fast
qed

text \<open>Writing nodes that are right and fill the blocks of the frontier reopens the algorithm.\<close>

lemma alg_ok_filled:
  assumes ok: "alg_ok N k items alg v" and frozen: "\<not> is_active v" and k: "2 \<le> k"
    and n: "length items < u64_max" and lim: "length items < u64_limit"
    and right: "\<And>l t d. (alg, l, t, d) \<in> set nws \<Longrightarrow>
      k ^ t dvd l \<and> l + k ^ t \<le> length items \<and> d = pdig (av_hasher v) k (history items v) l t"
    and only: "\<And>a l t d. (a, l, t, d) \<in> set nws \<Longrightarrow> a = alg"
    and filled: "\<And>lo s l t. (lo, s) \<in> set (frontier_for_size (length items) k) \<Longrightarrow> k ^ t dvd l \<Longrightarrow> lo \<le> l \<Longrightarrow>
      l + k ^ t \<le> lo + k ^ s \<Longrightarrow> active_range v l (l + k ^ t) \<Longrightarrow>
      N (alg, l, t) = Some (pdig (av_hasher v) k (history items v) l t)
      \<or> (alg, l, t, pdig (av_hasher v) k (history items v) l t) \<in> set nws"
  shows "alg_ok (fold write_node nws N) k items alg
    (v\<lparr>av_epochs := av_epochs v @ [(length items, u64_max)],
       av_frontier := fdigs (av_hasher v) k (history items v) (frontier_for_size (length items) k),
       av_coords := frontier_for_size (length items) k\<rparr>)"
proof -
  let ?n = "length items" and ?h = "av_hasher v" and ?f = "history items v"
  note val = alg_okD(3) [OF ok]
  define N' where "N' = fold write_node nws N"
  have N': "N' (alg, l, t) = (if \<exists>d. (alg, l, t, d) \<in> set nws then Some (pdig ?h k ?f l t) else N (alg, l, t))" for l t
    unfolding N'_def by (rule fold_write_nodes) (use right only in blast)
  define v2 where "v2 = v\<lparr>av_epochs := av_epochs v @ [(?n, u64_max)], av_frontier := fdigs ?h k ?f (frontier_for_size ?n k),
    av_coords := frontier_for_size ?n k\<rparr>"
  have same: "av_hasher v2 = ?h" "av_epochs v2 = av_epochs (reopened ?n v)" by (simp_all add: v2_def reopened_def)
  have at2: "is_active_at v2 i = is_active_at v i" if "i < ?n" for i
    using reopened_past(2) [OF that, of v] same(2) by (simp add: is_active_at_def)
  have range2: "active_range v2 lo hi = active_range v lo hi" if "hi \<le> ?n" for lo hi
    using reopened_past(3) [OF that, of v lo] same(2) by (simp add: active_range_def)
  have hist2: "history items v2 = ?f" using at2 same by (intro history_cong)
  have sz: "tree_size v2 ?n = ?n"
    by (rule tree_size_open) (simp add: same reopened_def is_active_def epochs_open_def)
  have "alg_ok N' k items alg v2"
  proof (rule alg_okI, unfold sz hist2 same(1))
    show "null_free ?h" by (rule alg_okD [OF ok])
    show "epochs_valid ?n (av_epochs v2)"
      using epochs_valid_reopen [OF val _ n] epochs_validD(1) [OF val] frozen
      by (simp add: same reopened_def is_active_def epochs_open_def)
    show "item_value (items ! i) ?h \<noteq> hs_null ?h" if "i < ?n" "is_active_at v2 i" for i
      using that at2 alg_okD(4) [OF ok] by simp
    show "holds_frontier v2 k ?f ?n" by (simp add: holds_frontier_def v2_def)
    show "N' (alg, l, t) = Some (pdig ?h k ?f l t)"
      if b: "k ^ t dvd l" "l + k ^ t \<le> ?n" "active_range v2 l (l + k ^ t)" for l t
    proof -
      obtain lo s where "(lo, s) \<in> set (frontier_for_size ?n k)" "lo \<le> l" "l + k ^ t \<le> lo + k ^ s"
        using subtree_block_in_frontier [OF k lim b(1,2)] by blast
      from filled [OF this(1) b(1) this(2,3)] show ?thesis using b(2,3) range2 N' [of l t] by auto
    qed
    show "k ^ t dvd l \<and> l + k ^ t \<le> ?n \<and> d = pdig ?h k ?f l t" if "N' (alg, l, t) = Some d" for l t d
    proof (cases "\<exists>d. (alg, l, t, d) \<in> set nws")
      case True
      then show ?thesis using that right N' [of l t] by auto
    next
      case False
      then have "N (alg, l, t) = Some d" using that N' [of l t] by simp
      from alg_okD(7) [OF ok this] frozen_tree_size [OF val frozen] show ?thesis by simp
    qed
  qed
  then show ?thesis unfolding N'_def v2_def .
qed

lemma alg_ok_resumed:
  assumes ok: "alg_ok N k items alg v" and frozen: "\<not> is_active v" and k: "2 \<le> k"
    and n: "length items < u64_max"
    and rd: "\<And>l t. rd_node rd alg l t = Inr (N (alg, l, t))"
    and leaves: "kind = Flat \<Longrightarrow> (\<forall>i < length items. \<exists>data. items ! i = LeafItem data \<and> rd_leaf rd i = Inr data)"
  defines "v1 \<equiv> \<lparr>av_hasher = av_hasher v, av_epochs = av_epochs v @ [(length items, u64_max)],
      av_frontier = [], av_coords = []\<rparr>"
  shows "\<exists>parts. mapE (\<lambda>(left, height). reconstruct_subtree_root rd alg v1 left (left + k ^ height) k kind True)
        (frontier_for_size (length items) k) = Inr parts
    \<and> alg_ok (fold write_node (map (Pair alg) (concat (map snd parts))) N) k items alg
        (v\<lparr>av_epochs := av_epochs v1, av_frontier := map fst parts,
           av_coords := frontier_for_size (length items) k\<rparr>)"
proof -
  let ?h = "av_hasher v" and ?f = "history items v" and ?C = "frontier_for_size (length items) k"
  have v1: "v1 = reopened (length items) v" by (simp add: v1_def reopened_def)
  have lim: "length items < u64_limit" using n u64_max_less_limit by linarith
  obtain mx where mx: "\<forall>(l, t) \<in> set ?C. reconstruct_subtree_root rd alg v1 l (l + k ^ t) k kind True
        = Inr (pdig ?h k ?f l t, mx (l, t))
      \<and> right_nodes ?h k ?f l (l + k ^ t) (mx (l, t)) \<and> fills rd v1 alg k ?f l (l + k ^ t) (mx (l, t))"
    using reopened_blocks [OF ok frozen k lim rd leaves] unfolding v1 by blast
  let ?parts = "map (\<lambda>(l, t). (pdig ?h k ?f l t, mx (l, t))) ?C"
  let ?nws = "map (Pair alg) (concat (map snd ?parts))"
  have parts: "mapE (\<lambda>(left, height). reconstruct_subtree_root rd alg v1 left (left + k ^ height) k kind True) ?C = Inr ?parts"
    by (rule mapE_Inr) (use mx in auto)
  have writes: "(a, l, t, d) \<in> set ?nws \<longleftrightarrow> a = alg \<and> (\<exists>(lo, s) \<in> set ?C. (l, t, d) \<in> set (mx (lo, s)))" for a l t d
    by force
  have "alg_ok (fold write_node ?nws N) k items alg
    (v\<lparr>av_epochs := av_epochs v @ [(length items, u64_max)], av_frontier := fdigs ?h k ?f ?C, av_coords := ?C\<rparr>)"
  proof (rule alg_ok_filled [OF ok frozen k n lim])
    show "k ^ t dvd l \<and> l + k ^ t \<le> length items \<and> d = pdig ?h k ?f l t" if w: "(alg, l, t, d) \<in> set ?nws" for l t d
    proof -
      obtain lo s where c: "(lo, s) \<in> set ?C" "(l, t, d) \<in> set (mx (lo, s))" using w unfolding writes by blast
      then have "right_nodes ?h k ?f lo (lo + k ^ s) (mx (lo, s))" using mx by blast
      then show ?thesis using c(2) frontier_bound [OF k lim c(1)] unfolding right_nodes_def by fastforce
    qed
    show "a = alg" if "(a, l, t, d) \<in> set ?nws" for a l t d using that unfolding writes by blast
    show "N (alg, l, t) = Some (pdig ?h k ?f l t) \<or> (alg, l, t, pdig ?h k ?f l t) \<in> set ?nws"
      if c: "(lo, s) \<in> set ?C" "k ^ t dvd l" "lo \<le> l" "l + k ^ t \<le> lo + k ^ s" "active_range v l (l + k ^ t)" for lo s l t
    proof -
      have "l + k ^ t \<le> length items" using c(4) frontier_bound [OF k lim c(1)] by linarith
      then have "active_range v1 l (l + k ^ t)" using c(5) reopened_past(3) by (simp add: v1)
      moreover have "fills rd v1 alg k ?f lo (lo + k ^ s) (mx (lo, s))" using mx c(1) by blast
      ultimately have "rd_node rd alg l t = Inr (Some (pdig ?h k ?f l t)) \<or> (l, t, pdig ?h k ?f l t) \<in> set (mx (lo, s))"
        using c(2-4) unfolding fills_def v1 reopened_past by simp
      then show ?thesis using rd [of l t] c(1) unfolding writes by auto
    qed
  qed
  moreover have "map fst ?parts = fdigs ?h k ?f ?C" by (simp add: fdigs_def o_def case_prod_beta)
  ultimately show ?thesis using parts by (intro exI [of _ ?parts]) (simp add: v1_def)
qed

section \<open>Appending\<close>

text \<open>The nodes one append writes for one algorithm: the blocks it completes.\<close>

definition append_nodes :: "nat \<Rightarrow> item list \<Rightarrow> item \<Rightarrow> alg_id \<Rightarrow> alg_view \<Rightarrow> node_write list" where
  "append_nodes k items it alg v =
     (if \<not> is_active v then []
      else map (\<lambda>j. (alg, length items + 1 - k ^ j, j,
             pdig (av_hasher v) k (history (items @ [it]) v) (length items + 1 - k ^ j) j))
           [0..<Suc (the (reduction_count (length items) k))])"

definition append_view :: "nat \<Rightarrow> item list \<Rightarrow> item \<Rightarrow> alg_view \<Rightarrow> alg_view" where
  "append_view k items it v =
     (if \<not> is_active v then v
      else v\<lparr>av_frontier := fdigs (av_hasher v) k (history (items @ [it]) v) (frontier_for_size (length items + 1) k),
             av_coords := frontier_for_size (length items + 1) k\<rparr>)"

lemma append_view_fields [simp]:
  "av_hasher (append_view k items it v) = av_hasher v" "av_epochs (append_view k items it v) = av_epochs v"
  "is_active (append_view k items it v) = is_active v" "is_active_at (append_view k items it v) = is_active_at v"
  "active_range (append_view k items it v) = active_range v" "tree_size (append_view k items it v) = tree_size v"
  "history is (append_view k items it v) = history is v"
  by (auto simp: append_view_def is_active_def is_active_at_def active_range_def tree_size_def history_def fun_eq_iff)

lemma append_nodes_iff:
  assumes k: "2 \<le> k"
  shows "(a, l, t, d) \<in> set (append_nodes k items it alg v) \<longleftrightarrow>
     is_active v \<and> a = alg \<and> k ^ t dvd l \<and> l + k ^ t = length items + 1
     \<and> d = pdig (av_hasher v) k (history (items @ [it]) v) l t"
proof -
  let ?N = "length items + 1"
  obtain c where c: "reduction_count (length items) k = Some c" "k ^ c dvd ?N" "\<not> k ^ Suc c dvd ?N"
    using reduction_count_Some [OF k] by metis
  have "t \<le> c \<and> l = ?N - k ^ t \<longleftrightarrow> k ^ t dvd l \<and> l + k ^ t = ?N" for l t
  proof
    assume t: "t \<le> c \<and> l = ?N - k ^ t"
    then have d: "k ^ t dvd ?N" using c(2) by (meson dvd_trans le_imp_power_dvd)
    then have "k ^ t \<le> ?N" by (intro dvd_imp_le) simp_all
    then show "k ^ t dvd l \<and> l + k ^ t = ?N" using t d by (auto intro: dvd_diff_nat)
  next
    assume l: "k ^ t dvd l \<and> l + k ^ t = ?N"
    then have d: "k ^ t dvd ?N" by (metis dvd_add dvd_refl)
    have "t \<le> c"
    proof (rule ccontr)
      assume "\<not> t \<le> c"
      then have "k ^ Suc c dvd k ^ t" by (intro le_imp_power_dvd) simp
      then show False using d c(3) dvd_trans by blast
    qed
    then show "t \<le> c \<and> l = ?N - k ^ t" using l by (metis add_diff_cancel_right')
  qed
  note eq = this [of t l]
  have "(a, l, t, d) \<in> set (append_nodes k items it alg v) \<longleftrightarrow>
      is_active v \<and> a = alg \<and> (t \<le> c \<and> l = ?N - k ^ t)
      \<and> d = pdig (av_hasher v) k (history (items @ [it]) v) (?N - k ^ t) t"
    by (auto simp: append_nodes_def c(1) image_iff less_Suc_eq_le simp del: upt_Suc)
  then show ?thesis using eq by metis
qed

lemma carry_append:
  assumes ok: "alg_ok N k items alg v" and act: "is_active v" and k: "2 \<le> k" and n: "length items + 1 < u64_max"
    and item: "item_value it (av_hasher v) \<noteq> hs_null (av_hasher v)"
  shows "item_digest (length items) (item_value it) alg v
      = (history (items @ [it]) v (length items), Some (alg, length items, 0, history (items @ [it]) v (length items)))"
    and "(carry v alg (history (items @ [it]) v (length items)) (length items) k
        (nodes @ [(alg, length items, 0, history (items @ [it]) v (length items))]) :: 'e cml_error + _)
      = Inr (append_view k items it v, nodes @ append_nodes k items it alg v)"
proof -
  let ?n = "length items" and ?h = "av_hasher v" and ?f = "history (items @ [it]) v"
  have at: "is_active_at v ?n" using open_active [OF alg_okD(3) [OF ok] act] n by simp
  then have fn: "?f ?n = item_value it ?h" by (simp add: history_def)
  then show "item_digest ?n (item_value it) alg v = (?f ?n, Some (alg, ?n, 0, ?f ?n))"
    using at by (simp add: item_digest_def)
  have lim: "?n + 1 < u64_limit" "?n < u64_limit" using n u64_max_less_limit by linarith+
  have hold: "holds_frontier v k ?f ?n"
  proof -
    have "holds_frontier v k (history items v) ?n"
      using alg_okD(5) [OF ok] unfolding tree_size_open [OF act] .
    moreover have "fdigs ?h k (history items v) (frontier_for_size ?n k) = fdigs ?h k ?f (frontier_for_size ?n k)"
      unfolding fdigs_def
    proof (rule map_cong [OF refl], safe)
      fix l t assume "(l, t) \<in> set (frontier_for_size ?n k)"
      then have "l + k ^ t \<le> ?n" using frontier_bound [OF k lim(2)] by blast
      then show "pdig ?h k (history items v) l t = pdig ?h k ?f l t"
        by (intro pdig_cong) (simp add: history_append)
    qed
    ultimately show ?thesis by (simp add: holds_frontier_def)
  qed
  obtain c where c: "reduction_count ?n k = Some c" using reduction_count_Some [OF k] by metis
  have keep: "pdig ?h k ?f (?n + 1 - k ^ j) j \<noteq> hs_null ?h" if "k ^ j \<le> ?n + 1" for j
  proof (rule pdig_not_null [where n = "?n + 1" and i = ?n])
    show "?f i \<noteq> hs_null ?h" if "i < ?n + 1" "is_active_at v i" for i
      using that item fn alg_okD(4) [OF ok, of i] by (cases "i = ?n") (auto simp: history_def nth_append)
    have "0 < k ^ j" using k by simp
    then show "?n + 1 - k ^ j \<le> ?n" "?n < ?n + 1 - k ^ j + k ^ j" using that by linarith+
  qed (use at k alg_okD(1) [OF ok] length_history [OF alg_okD(2) [OF ok]] in simp_all)
  have "k ^ c dvd ?n + 1" using reduction_count_Some [OF k, of ?n] c by auto
  then have le: "k ^ j \<le> ?n + 1" if "j \<le> c" for j
    using that by (meson dvd_imp_le dvd_trans le_imp_power_dvd zero_less_Suc add_gr_0 zero_less_one)
  have "completed ?h k ?f alg (?n + 1) [1..<Suc c]
      = map (\<lambda>j. (alg, ?n + 1 - k ^ j, j, pdig ?h k ?f (?n + 1 - k ^ j) j)) [1..<Suc c]"
    unfolding completed_def using keep le by (intro arg_cong [where f = "map _"] filter_True) auto
  moreover have "[0..<Suc c] = 0 # [1..<Suc c]" by (simp add: upt_conv_Cons del: upt_Suc)
  ultimately have nodes: "append_nodes k items it alg v
      = (alg, ?n, 0, ?f ?n) # completed ?h k ?f alg (?n + 1) [1..<Suc c]"
    using act by (simp add: append_nodes_def c del: upt_Suc)
  show "(carry v alg (?f ?n) ?n k (nodes @ [(alg, ?n, 0, ?f ?n)]) :: 'e cml_error + _)
      = Inr (append_view k items it v, nodes @ append_nodes k items it alg v)"
    unfolding carry_spec [OF k lim(1) hold c] nodes using act by (simp add: append_view_def)
qed

lemma alg_ok_appended:
  assumes ok: "alg_ok N k items alg v" and k: "2 \<le> k" and n: "length items + 1 < u64_max"
    and item: "is_active v \<Longrightarrow> item_value it (av_hasher v) \<noteq> hs_null (av_hasher v)"
    and N': "\<And>l t. N' (alg, l, t) = (if \<exists>d. (alg, l, t, d) \<in> set (append_nodes k items it alg v)
        then Some (pdig (av_hasher v) k (history (items @ [it]) v) l t) else N (alg, l, t))"
  shows "alg_ok N' k (items @ [it]) alg (append_view k items it v)"
proof -
  let ?n = "length items" and ?h = "av_hasher v" and ?f = "history (items @ [it]) v"
  let ?m = "tree_size v (length items)" and ?v = "append_view k items it v"
  note val = alg_okD(3) [OF ok]
  have len: "length (items @ [it]) = ?n + 1" by simp
  have m: "?m \<le> ?n" using closed_inactive(2) [OF val] tree_size_open [of v ?n]
  proof (cases "is_active v")
    case False
    have "snd (last (av_epochs v)) \<noteq> u64_max"
      using False epochs_validD(1) [OF val] by (simp add: is_active_def epochs_open_def)
    then show ?thesis using tree_size_closed [OF False epochs_validD(1) [OF val]] epochs_validD(4) [OF val] by simp
  qed simp
  have cong: "pdig ?h k (history items v) l t = pdig ?h k ?f l t" if "l + k ^ t \<le> ?m" for l t
    using that m by (intro pdig_cong) (simp add: history_append)
  have old: "N' (alg, l, t) = N (alg, l, t)" if "\<not> (is_active v \<and> k ^ t dvd l \<and> l + k ^ t = ?n + 1)" for l t
    unfolding N' append_nodes_iff [OF k] using that by auto
  have new: "N' (alg, l, t) = Some (pdig ?h k ?f l t)" if "is_active v" "k ^ t dvd l" "l + k ^ t = ?n + 1" for l t
    unfolding N' append_nodes_iff [OF k] using that by simp
  have m': "tree_size v (Suc ?n) = (if is_active v then ?n + 1 else ?m)"
    using tree_size_open [of v] tree_size_closed [of v] epochs_validD(1) [OF val] by simp
  have lim: "?n < u64_limit" using n u64_max_less_limit by linarith
  show ?thesis
  proof (rule alg_okI, unfold append_view_fields len)
    show "null_free ?h" by (rule alg_okD [OF ok])
    show "epochs_valid (?n + 1) (av_epochs v)" using val by (rule epochs_valid_mono) simp
    show "item_value ((items @ [it]) ! i) ?h \<noteq> hs_null ?h" if i: "i < ?n + 1" "is_active_at v i" for i
    proof (cases "i < ?n")
      case True
      then show ?thesis using alg_okD(4) [OF ok True i(2)] by (simp add: nth_append)
    next
      case False
      then have "i = ?n" using i(1) by simp
      moreover have "is_active v"
        using closed_inactive(1) [OF val _ i(2), of ?n] m \<open>i = ?n\<close> by fastforce
      ultimately show ?thesis using item by simp
    qed
    show "holds_frontier ?v k ?f (tree_size v (?n + 1))"
    proof (cases "is_active v")
      case True
      then show ?thesis by (simp add: m' holds_frontier_def append_view_def)
    next
      case False
      have "holds_frontier v k (history items v) ?m" by (rule alg_okD [OF ok])
      moreover have "fdigs ?h k (history items v) (frontier_for_size ?m k) = fdigs ?h k ?f (frontier_for_size ?m k)"
        unfolding fdigs_def using frontier_bound [OF k le_less_trans [OF m lim]] cong
        by (intro map_cong [OF refl]) auto
      ultimately show ?thesis using False by (simp add: m' holds_frontier_def append_view_def)
    qed
    show "N' (alg, l, t) = Some (pdig ?h k ?f l t)"
      if b: "k ^ t dvd l" "l + k ^ t \<le> tree_size v (?n + 1)" "active_range v l (l + k ^ t)" for l t
    proof (cases "is_active v \<and> l + k ^ t = ?n + 1")
      case True
      then show ?thesis using new b(1) by simp
    next
      case False
      then have le: "l + k ^ t \<le> ?m" using b(2) m' tree_size_open [of v ?n] by (cases "is_active v") auto
      have "N' (alg, l, t) = N (alg, l, t)" using False by (intro old) blast
      then show ?thesis using alg_okD(6) [OF ok b(1) le b(3)] cong [OF le] by simp
    qed
    show "k ^ t dvd l \<and> l + k ^ t \<le> tree_size v (?n + 1) \<and> d = pdig ?h k ?f l t"
      if d: "N' (alg, l, t) = Some d" for l t d
    proof (cases "is_active v \<and> k ^ t dvd l \<and> l + k ^ t = ?n + 1")
      case True
      then show ?thesis using new [of t l] d m' by simp
    next
      case False
      from alg_okD(7) [OF ok] d old [OF False] have a: "k ^ t dvd l" "l + k ^ t \<le> ?m"
        "d = pdig ?h k (history items v) l t" by simp_all
      moreover have "?m \<le> tree_size v (?n + 1)" using m m' by simp
      ultimately show ?thesis using cong [OF a(2)] by simp
    qed
  qed
qed

end
