(* ===== verification/Poly_Log_Inv.thy ===== *)
theory Poly_Log_Inv
  imports Poly_Log_State
begin

text \<open>
  The log as a state machine: the five mutating operations of \<^verbatim>\<open>polydigest/src/tree.rs\<close> as steps
  of a log together with its history, and the invariant every reachable state has, over any
  store that keeps the storage contract.
\<close>

section \<open>Steps and the invariant\<close>

definition empty_store :: store where
  "empty_store = \<lparr>so_leaves = [], so_nodes = (\<lambda>_. None), so_metas = Map.empty, so_count = 0\<rparr>"

text \<open>An item is safe for a log when no active algorithm hashes it to its null digest.\<close>

definition safe_item :: "item \<Rightarrow> 's merkle_log \<Rightarrow> bool" where
  "safe_item it L \<longleftrightarrow>
     list_all (\<lambda>(_, v). is_active v \<longrightarrow> item_value it (av_hasher v) \<noteq> hs_null (av_hasher v)) (lg_algs L)"

inductive log_step ::
    "('s, 'e) storage \<Rightarrow> 's merkle_log \<times> item list \<Rightarrow> 's merkle_log \<times> item list \<Rightarrow> bool"
  for S :: "('s, 'e) storage" where
  add: "null_free h \<Longrightarrow> alg < u64_limit \<Longrightarrow> add_algorithm S L alg h = Inr L' \<Longrightarrow> log_step S (L, items) (L', items)"
| remove: "remove_algorithm S L alg = Inr L' \<Longrightarrow> log_step S (L, items) (L', items)"
| resume: "resume_algorithm S L alg = Inr L' \<Longrightarrow> log_step S (L, items) (L', items)"
| leaf: "safe_item (LeafItem data) L \<Longrightarrow> append_leaf S L data = Inr L' \<Longrightarrow>
    log_step S (L, items) (L', items @ [LeafItem data])"
| subtree: "safe_item (TreeItem st) L \<Longrightarrow> append_subtree S L st = Inr L' \<Longrightarrow>
    log_step S (L, items) (L', items @ [TreeItem st])"

inductive reachable_log ::
    "('s, 'e) storage \<Rightarrow> 's \<Rightarrow> u64 \<Rightarrow> 's merkle_log \<Rightarrow> item list \<Rightarrow> bool"
  for S :: "('s, 'e) storage" and s :: 's and k :: u64 where
  init: "null_free h \<Longrightarrow> log_new S s h k = Inr L \<Longrightarrow> reachable_log S s k L []"
| step: "reachable_log S s k L items \<Longrightarrow> log_step S (L, items) (L', items') \<Longrightarrow> reachable_log S s k L' items'"

definition log_inv :: "('s \<Rightarrow> bool) \<Rightarrow> ('s \<Rightarrow> store) \<Rightarrow> 's merkle_log \<Rightarrow> item list \<Rightarrow> bool" where
  "log_inv valid content L items \<longleftrightarrow>
     valid (lg_storage L) \<and> arity_ok (lg_arity L)
     \<and> length items = lg_count L \<and> lg_count L \<le> log_capacity
     \<and> list_all (\<lambda>it. item_kind it = lg_kind L) items
     \<and> distinct (map fst (lg_algs L))
     \<and> so_count (content (lg_storage L)) = lg_count L
     \<and> so_leaves (content (lg_storage L)) = leaf_payloads items
     \<and> so_metas (content (lg_storage L)) = (\<lambda>a. map_option av_epochs (map_of (lg_algs L) a))
     \<and> (\<forall>a l t. map_of (lg_algs L) a = None \<longrightarrow> so_nodes (content (lg_storage L)) (a, l, t) = None)
     \<and> (\<forall>a v. map_of (lg_algs L) a = Some v \<longrightarrow> alg_ok (so_nodes (content (lg_storage L))) (lg_arity L) items a v)
     \<and> list_all (\<lambda>(a, _). a < u64_limit) (lg_algs L)"

lemma log_invI:
  assumes "valid (lg_storage L)" "arity_ok (lg_arity L)" "length items = lg_count L" "lg_count L \<le> log_capacity"
    "list_all (\<lambda>it. item_kind it = lg_kind L) items" "distinct (map fst (lg_algs L))"
    "so_count (content (lg_storage L)) = lg_count L" "so_leaves (content (lg_storage L)) = leaf_payloads items"
    "so_metas (content (lg_storage L)) = (\<lambda>a. map_option av_epochs (map_of (lg_algs L) a))"
    "\<And>a l t. map_of (lg_algs L) a = None \<Longrightarrow> so_nodes (content (lg_storage L)) (a, l, t) = None"
    "\<And>a v. map_of (lg_algs L) a = Some v \<Longrightarrow> alg_ok (so_nodes (content (lg_storage L))) (lg_arity L) items a v"
    "list_all (\<lambda>(a, _). a < u64_limit) (lg_algs L)"
  shows "log_inv valid content L items"
  unfolding log_inv_def by (intro conjI allI impI assms)

lemma log_invD:
  assumes "log_inv valid content L items"
  shows "valid (lg_storage L)" "arity_ok (lg_arity L)" "length items = lg_count L" "lg_count L \<le> log_capacity"
    "list_all (\<lambda>it. item_kind it = lg_kind L) items" "distinct (map fst (lg_algs L))"
    "so_count (content (lg_storage L)) = lg_count L" "so_leaves (content (lg_storage L)) = leaf_payloads items"
    "so_metas (content (lg_storage L)) = (\<lambda>a. map_option av_epochs (map_of (lg_algs L) a))"
    "map_of (lg_algs L) a = None \<Longrightarrow> so_nodes (content (lg_storage L)) (a, l, t) = None"
    "map_of (lg_algs L) a = Some v \<Longrightarrow> alg_ok (so_nodes (content (lg_storage L))) (lg_arity L) items a v"
    "2 \<le> lg_arity L" "lg_count L + 1 < u64_max" "list_all (\<lambda>(a, _). a < u64_limit) (lg_algs L)"
proof -
  note a = assms [unfolded log_inv_def]
  show "lg_count L + 1 < u64_max" using a by (simp add: log_capacity_def u64_max_def)
  show "2 \<le> lg_arity L" using a arity_ok_ge2 by blast
qed (use assms [unfolded log_inv_def] in \<open>(elim conjE, (assumption | simp))\<close>)+

section \<open>Registration, freezing, reopening\<close>

lemma alg_ok_store:
  assumes ok: "alg_ok N k items a v" and eq: "\<And>l t. N' (a, l, t) = N (a, l, t)"
  shows "alg_ok N' k items a v"
proof (rule alg_okI)
  note d = alg_okD [OF ok]
  show "null_free (av_hasher v)" by (rule d)
  show "epochs_valid (length items) (av_epochs v)" by (rule d)
  show "holds_frontier v k (history items v) (tree_size v (length items))" by (rule d)
  show "item_value (items ! i) (av_hasher v) \<noteq> hs_null (av_hasher v)"
    if "i < length items" "is_active_at v i" for i by (rule d(4) [OF that])
  show "N' (a, l, t) = Some (pdig (av_hasher v) k (history items v) l t)"
    if "k ^ t dvd l" "l + k ^ t \<le> tree_size v (length items)" "active_range v l (l + k ^ t)" for l t
    unfolding eq by (rule d(6) [OF that])
  show "k ^ t dvd l \<and> l + k ^ t \<le> tree_size v (length items) \<and> dg = pdig (av_hasher v) k (history items v) l t"
    if "N' (a, l, t) = Some dg" for l t dg
    by (rule d(7) [OF that [unfolded eq]])
qed

lemma so_metas_update:
  "(\<lambda>a. map_option av_epochs (map_of (AList.update alg v algs) a))
     = (\<lambda>a. map_option av_epochs (map_of algs a))(alg \<mapsto> av_epochs v)"
  by (simp add: update_conv' fun_eq_iff)

lemma set_update_bound: "set (AList.update alg v algs) \<subseteq> insert (alg, v) (set algs)"
  by (induction algs) auto

lemma log_inv_alg_bound: "log_inv valid content L items \<Longrightarrow> map_of (lg_algs L) a = Some v \<Longrightarrow> a < u64_limit"
  using log_invD(14) [of valid content L items] map_of_SomeD [of "lg_algs L" a v] unfolding list_all_iff by blast

text \<open>Coordinates of blocks below the capacity fit.\<close>

lemma block_fits:
  assumes "2 \<le> k" "l + k ^ t \<le> n" "n < u64_limit"
  shows "l < u64_limit \<and> t < 256"
proof -
  have "2 ^ t \<le> k ^ t" using assms(1) by (rule power_mono) simp
  then have "(2 :: nat) ^ t < 2 ^ 64" using assms(2,3) by (simp add: u64_limit_def)
  then have "t < 64" by (rule power_less_imp_less_exp [rotated]) simp
  moreover have "l < u64_limit" using assms(2,3) by simp
  ultimately show ?thesis by simp
qed

text \<open>An operation that replaces one view and changes nodes of that algorithm only.\<close>

lemma log_inv_update:
  assumes inv: "log_inv valid content L items" and "valid s"
    and "so_leaves (content s) = so_leaves (content (lg_storage L))"
    and "so_count (content s) = so_count (content (lg_storage L))"
    and "so_metas (content s) = (so_metas (content (lg_storage L)))(alg \<mapsto> av_epochs v)"
    and "\<And>a l t. a \<noteq> alg \<Longrightarrow> so_nodes (content s) (a, l, t) = so_nodes (content (lg_storage L)) (a, l, t)"
    and ok: "alg_ok (so_nodes (content s)) (lg_arity L) items alg v" and "alg < u64_limit"
  shows "log_inv valid content (L\<lparr>lg_storage := s, lg_algs := AList.update alg v (lg_algs L)\<rparr>) items"
proof (rule log_invI)
  let ?L = "L\<lparr>lg_storage := s, lg_algs := AList.update alg v (lg_algs L)\<rparr>"
  note i = log_invD [OF inv]
  show "distinct (map fst (lg_algs ?L))" using i(6) by (simp add: distinct_update)
  show "list_all (\<lambda>(a, _). a < u64_limit) (lg_algs ?L)"
    using i(14) \<open>alg < u64_limit\<close> set_update_bound [of alg v "lg_algs L"] by (auto simp: list_all_iff)
  show "so_metas (content (lg_storage ?L)) = (\<lambda>a. map_option av_epochs (map_of (lg_algs ?L) a))"
    using assms(5) i(9) by (simp add: so_metas_update)
  show "so_nodes (content (lg_storage ?L)) (a, l, t) = None" if "map_of (lg_algs ?L) a = None" for a l t
    using that assms(6) i(10) by (simp add: update_conv' split: if_splits)
  show "alg_ok (so_nodes (content (lg_storage ?L))) (lg_arity ?L) items a w" if "map_of (lg_algs ?L) a = Some w" for a w
  proof (cases "a = alg")
    case True
    then show ?thesis using that ok by (simp add: update_conv')
  next
    case False
    then have "alg_ok (so_nodes (content (lg_storage L))) (lg_arity L) items a w"
      using that i(11) by (simp add: update_conv')
    then show ?thesis using assms(6) [OF False] by (simp add: alg_ok_store)
  qed
qed (use assms log_invD [OF inv] in simp_all)

lemma flat_items:
  assumes "list_all (\<lambda>it. item_kind it = Flat) items"
  shows "\<exists>ds. items = map LeafItem ds \<and> leaf_payloads items = ds"
proof -
  have "\<exists>ds. items = map LeafItem ds"
    using assms by (induction items) (auto elim!: item_kind.elims, metis list.simps(9))
  then obtain ds where ds: "items = map LeafItem ds" by blast
  have "leaf_payloads items = ds" unfolding ds by (induction ds) (simp_all add: leaf_payloads_def map_filter_simps)
  then show ?thesis using ds by blast
qed

context lawful_storage begin

lemma inv_add:
  assumes inv: "log_inv valid content L items" and new: "map_of (lg_algs L) alg = None" and h: "null_free h"
    and alg: "alg < u64_limit"
  shows "\<exists>L'. add_algorithm S L alg h = Inr L' \<and> log_inv valid content L' items"
proof -
  note i = log_invD [OF inv]
  let ?v = "\<lparr>av_hasher = h, av_epochs = [(length items, u64_max)],
      av_frontier = replicate (length (frontier_for_size (length items) (lg_arity L))) (hs_null h),
      av_coords = frontier_for_size (length items) (lg_arity L)\<rparr>"
  have "so_metas (content (lg_storage L)) alg = None" using i(9) new by simp
  moreover have "op_fits (content (lg_storage L)) (AddAlgorithm alg [(lg_count L, u64_max)])"
    using alg i(7,13) by (simp add: epochs_valid_def)
  ultimately obtain s where s: "st_apply S (lg_storage L) [AddAlgorithm alg [(lg_count L, u64_max)]] = Inr s" "valid s"
    "content s = (content (lg_storage L))\<lparr>so_metas := (so_metas (content (lg_storage L)))(alg \<mapsto> [(lg_count L, u64_max)])\<rparr>"
    using apply_one [OF i(1), of "AddAlgorithm alg [(lg_count L, u64_max)]"] by auto
  have "add_algorithm S L alg h = Inr (L\<lparr>lg_storage := s, lg_algs := AList.update alg ?v (lg_algs L)\<rparr>)"
    using new s(1) i(3) by (simp add: add_algorithm_def Let_def)
  moreover have "log_inv valid content (L\<lparr>lg_storage := s, lg_algs := AList.update alg ?v (lg_algs L)\<rparr>) items"
  proof (rule log_inv_update [OF inv s(2)])
    have "length items < u64_limit" using i(3,13) u64_max_less_limit by linarith
    then show "alg_ok (so_nodes (content s)) (lg_arity L) items alg ?v"
      using i(10) [OF new] s(3) by (intro alg_ok_added [OF h i(12)]) simp_all
  qed (use s(3) i(3) alg in simp_all)
  ultimately show ?thesis by blast
qed

lemma inv_new:
  assumes "valid s" "content s = empty_store" "arity_ok k" "null_free h"
  shows "\<exists>L. log_new S s h k = Inr L \<and> log_inv valid content L [] \<and> lg_arity L = k"
proof -
  let ?L = "\<lparr>lg_storage = s, lg_arity = k, lg_algs = [], lg_count = 0, lg_kind = Flat\<rparr>"
  have inv: "log_inv valid content ?L []"
    using assms by (intro log_invI) (simp_all add: empty_store_def leaf_payloads_def map_filter_simps)
  from inv_add [OF inv _ assms(4), of 0] u64_max_less_limit obtain L where L: "add_algorithm S ?L 0 h = Inr L" "log_inv valid content L []"
    by auto
  have "lg_arity L = k" using L(1) by (auto simp: add_algorithm_def bindE_Inr_iff Let_def split: if_splits)
  then show ?thesis using L assms(3) by (simp add: log_new_def)
qed

lemma inv_remove:
  assumes inv: "log_inv valid content L items" and v: "map_of (lg_algs L) alg = Some v" "is_active v"
  shows "\<exists>L'. remove_algorithm S L alg = Inr L' \<and> log_inv valid content L' items"
proof -
  note i = log_invD [OF inv]
  define es where "es = butlast (av_epochs v) @ [(fst (last (av_epochs v)), length items)]"
  have ne: "av_epochs v \<noteq> []" using v(2) by (simp add: is_active_def epochs_open_def)
  have ok: "alg_ok (so_nodes (content (lg_storage L))) (lg_arity L) items alg (v\<lparr>av_epochs := es\<rparr>)"
    using alg_ok_removed [OF i(11) [OF v(1)] v(2) _ i(12)] i(3,13) by (simp add: es_def)
  have "so_metas (content (lg_storage L)) alg \<noteq> None" using i(9) v(1) by simp
  moreover have "op_fits (content (lg_storage L)) (RemoveAlgorithm alg es)"
    using alg_okD(3) [OF ok] i(3,7) log_inv_alg_bound [OF inv v(1)] by simp
  ultimately obtain s where s: "st_apply S (lg_storage L) [RemoveAlgorithm alg es] = Inr s" "valid s"
    "content s = (content (lg_storage L))\<lparr>so_metas := (so_metas (content (lg_storage L)))(alg \<mapsto> es)\<rparr>"
    using apply_one [OF i(1), of "RemoveAlgorithm alg es"] by auto
  let ?L = "L\<lparr>lg_storage := s, lg_algs := AList.update alg (v\<lparr>av_epochs := es\<rparr>) (lg_algs L)\<rparr>"
  have "remove_algorithm S L alg = Inr ?L"
    using v s(1) ne i(3) by (simp add: remove_algorithm_def Let_def es_def)
  moreover have "log_inv valid content ?L items"
  proof (rule log_inv_update [OF inv s(2)])
    show "alg_ok (so_nodes (content s)) (lg_arity L) items alg (v\<lparr>av_epochs := es\<rparr>)"
      using ok by (simp add: s(3))
  qed (use s(3) log_inv_alg_bound [OF inv v(1)] in simp_all)
  ultimately show ?thesis by blast
qed

lemma inv_resume:
  assumes inv: "log_inv valid content L items" and v: "map_of (lg_algs L) alg = Some v" "\<not> is_active v"
  shows "\<exists>L'. resume_algorithm S L alg = Inr L' \<and> log_inv valid content L' items"
proof -
  note i = log_invD [OF inv]
  let ?N = "so_nodes (content (lg_storage L))" and ?k = "lg_arity L" and ?n = "length items"
  let ?rd = "storage_reader S (lg_storage L)" and ?es = "av_epochs v @ [(length items, u64_max)]"
  let ?v1 = "\<lparr>av_hasher = av_hasher v, av_epochs = ?es, av_frontier = [], av_coords = []\<rparr>"
  have n: "?n < u64_max" using i(3,13) by linarith
  have leaves: "\<forall>j < ?n. \<exists>data. items ! j = LeafItem data \<and> rd_leaf ?rd j = Inr data" if "lg_kind L = Flat"
  proof -
    have "list_all (\<lambda>it. item_kind it = Flat) items" using i(5) unfolding that .
    from flat_items [OF this] obtain ds where ds: "items = map LeafItem ds" "leaf_payloads items = ds" by blast
    show ?thesis using i(8) ds reader_leaf [OF i(1)] by simp
  qed
  obtain parts where p: "mapE (\<lambda>(left, height). reconstruct_subtree_root ?rd alg ?v1 left (left + ?k ^ height) ?k
          (lg_kind L) True) (frontier_for_size ?n ?k) = Inr parts"
    "alg_ok (fold write_node (map (Pair alg) (concat (map snd parts))) ?N) ?k items alg
        (v\<lparr>av_epochs := ?es, av_frontier := map fst parts, av_coords := frontier_for_size ?n ?k\<rparr>)"
    using alg_ok_resumed [OF i(11) [OF v(1)] v(2) i(12) n reader_node [OF i(1)] leaves] by auto
  let ?nws = "map (Pair alg) (concat (map snd parts))"
  let ?v = "v\<lparr>av_epochs := ?es, av_frontier := map fst parts, av_coords := frontier_for_size ?n ?k\<rparr>"
  have fits: "list_all node_fits ?nws"
  proof -
    have "l + ?k ^ t \<le> ?n" if nw: "(a, l, t, d) \<in> set ?nws" for a l t d
    proof -
      have "a = alg" using nw by auto
      then have "fold write_node ?nws ?N (alg, l, t) \<noteq> None" using nw fold_write_dom by blast
      then obtain d' where "fold write_node ?nws ?N (alg, l, t) = Some d'" by blast
      from alg_okD(7) [OF p(2) this] have "l + ?k ^ t \<le> tree_size ?v ?n" by blast
      moreover have "tree_size ?v ?n = ?n" by (rule tree_size_open) (simp add: is_active_def epochs_open_def)
      ultimately show ?thesis by simp
    qed
    moreover have "a = alg" if "(a, l, t, d) \<in> set ?nws" for a l t d using that by auto
    moreover have "?n < u64_limit" using n u64_max_less_limit by linarith
    ultimately have "node_fits (a, l, t, d)" if "(a, l, t, d) \<in> set ?nws" for a l t d
      using block_fits [OF i(12)] log_inv_alg_bound [OF inv v(1)] that unfolding node_fits_def prod.case by blast
    then show ?thesis unfolding list_all_iff by (metis surj_pair)
  qed
  have "so_metas (content (lg_storage L)) alg \<noteq> None" using i(9) v(1) by simp
  moreover have "op_fits (content (lg_storage L)) (ResumeAlgorithm alg ?es ?nws)"
    using alg_okD(3) [OF p(2)] i(3,7) log_inv_alg_bound [OF inv v(1)] fits by simp
  ultimately obtain s where s: "st_apply S (lg_storage L) [ResumeAlgorithm alg ?es ?nws] = Inr s" "valid s"
    "content s = store_nodes ?nws
      ((content (lg_storage L))\<lparr>so_metas := (so_metas (content (lg_storage L)))(alg \<mapsto> ?es)\<rparr>)"
    using apply_one [OF i(1), of "ResumeAlgorithm alg ?es ?nws"] by auto
  have nodes: "so_nodes (content s) = fold write_node ?nws ?N" by (simp add: s(3) store_nodes_def)
  have other: "fold write_node (map (Pair alg) xs) N (a, l, t) = N (a, l, t)" if "a \<noteq> alg" for a l t xs N
    using that by (induction xs arbitrary: N) auto
  let ?L = "L\<lparr>lg_storage := s, lg_algs := AList.update alg ?v (lg_algs L)\<rparr>"
  have "map (\<lambda>(left, height, hash). (alg, left, height, hash)) (concat (map snd parts)) = ?nws"
    by (simp add: case_prod_beta)
  then have "resume_algorithm S L alg = Inr ?L"
    using v s(1) p(1) i(3) by (simp add: resume_algorithm_def Let_def)
  moreover have "log_inv valid content ?L items"
  proof (rule log_inv_update [OF inv s(2)])
    show "alg_ok (so_nodes (content s)) (lg_arity L) items alg ?v" unfolding nodes by (rule p(2))
    show "so_nodes (content s) (a, l, t) = ?N (a, l, t)" if "a \<noteq> alg" for a l t
      unfolding nodes by (rule other [OF that])
  qed (use s(3) log_inv_alg_bound [OF inv v(1)] in simp_all)
  ultimately show ?thesis by blast
qed

end

section \<open>Appending\<close>

definition append_algs :: "nat \<Rightarrow> item list \<Rightarrow> item \<Rightarrow> (alg_id \<times> alg_view) list \<Rightarrow> (alg_id \<times> alg_view) list" where
  "append_algs k items it algs = map (\<lambda>(a, v). (a, append_view k items it v)) algs"

definition batch_nodes :: "nat \<Rightarrow> item list \<Rightarrow> item \<Rightarrow> (alg_id \<times> alg_view) list \<Rightarrow> node_write list" where
  "batch_nodes k items it algs = concat (map (\<lambda>(a, v). append_nodes k items it a v) algs)"

lemma map_of_append_algs:
  "map_of (append_algs k items it algs) a = map_option (append_view k items it) (map_of algs a)"
  by (induction algs) (auto simp: append_algs_def)

lemma build_append_state_spec:
  assumes k: "2 \<le> k" and n: "length items + 1 < u64_max"
    and "\<And>a v. (a, v) \<in> set algs \<Longrightarrow> alg_ok N k items a v
      \<and> (is_active v \<longrightarrow> item_value it (av_hasher v) \<noteq> hs_null (av_hasher v))"
  shows "(build_append_state (item_digest (length items) (item_value it)) (length items) k algs nodes
      :: 'e log_error + _) = Inr (append_algs k items it algs, nodes @ batch_nodes k items it algs)"
  using assms(3)
proof (induction algs arbitrary: nodes)
  case (Cons p algs)
  obtain a v where p: "p = (a, v)" by (cases p)
  have ok: "alg_ok N k items a v" and it: "is_active v \<Longrightarrow> item_value it (av_hasher v) \<noteq> hs_null (av_hasher v)"
    using Cons.prems [of a v] p by simp_all
  have IH: "(build_append_state (item_digest (length items) (item_value it)) (length items) k algs ns
      :: 'e log_error + _) = Inr (append_algs k items it algs, ns @ batch_nodes k items it algs)" for ns
    using Cons.prems by (intro Cons.IH) auto
  show ?case
  proof (cases "is_active v")
    case True
    note c = carry_append [OF ok True k n it [OF True]]
    show ?thesis
      unfolding p build_append_state.simps c(1)
      by (simp add: True c(2) IH append_algs_def batch_nodes_def)
  next
    case False
    then show ?thesis
      by (simp add: p IH append_algs_def batch_nodes_def append_view_def append_nodes_def)
  qed
qed (simp add: append_algs_def batch_nodes_def)

lemma batch_nodes_iff:
  assumes k: "2 \<le> k" and d: "distinct (map fst algs)"
  shows "(a, l, t, dg) \<in> set (batch_nodes k items it algs) \<longleftrightarrow>
     (\<exists>v. map_of algs a = Some v \<and> (a, l, t, dg) \<in> set (append_nodes k items it a v))"
proof -
  have "(a, l, t, dg) \<in> set (batch_nodes k items it algs) \<longleftrightarrow>
      (\<exists>b v. (b, v) \<in> set algs \<and> (a, l, t, dg) \<in> set (append_nodes k items it b v))"
    by (auto simp: batch_nodes_def)
  also have "\<dots> \<longleftrightarrow> (\<exists>v. (a, v) \<in> set algs \<and> (a, l, t, dg) \<in> set (append_nodes k items it a v))"
    unfolding append_nodes_iff [OF k] by blast
  finally show ?thesis using d by (simp only: map_of_eq_Some_iff)
qed

lemma batch_written:
  assumes k: "2 \<le> k" and d: "distinct (map fst algs)"
  shows "map_of algs a = None \<Longrightarrow> fold write_node (batch_nodes k items it algs) N (a, l, t) = N (a, l, t)"
    and "map_of algs a = Some v \<Longrightarrow> fold write_node (batch_nodes k items it algs) N (a, l, t)
      = (if \<exists>dg. (a, l, t, dg) \<in> set (append_nodes k items it a v)
         then Some (pdig (av_hasher v) k (history (items @ [it]) v) l t) else N (a, l, t))"
proof -
  define g where "g = (\<lambda>a l t. pdig (av_hasher (the (map_of algs a))) k (history (items @ [it]) (the (map_of algs a))) l t)"
  have g: "dg = g a l t" if "(a, l, t, dg) \<in> set (batch_nodes k items it algs)" for a l t dg
    using that unfolding batch_nodes_iff [OF k d] append_nodes_iff [OF k] by (auto simp: g_def)
  note w = fold_write_nodes [of "batch_nodes k items it algs" g N a l t, OF g]
  show "fold write_node (batch_nodes k items it algs) N (a, l, t) = N (a, l, t)" if "map_of algs a = None"
    using w that unfolding batch_nodes_iff [OF k d] by simp
  show "fold write_node (batch_nodes k items it algs) N (a, l, t)
      = (if \<exists>dg. (a, l, t, dg) \<in> set (append_nodes k items it a v)
         then Some (pdig (av_hasher v) k (history (items @ [it]) v) l t) else N (a, l, t))"
    if m: "map_of algs a = Some v"
    using w unfolding batch_nodes_iff [OF k d] m by (simp add: g_def m)
qed

text \<open>The common part of the two appends, once the store has taken the batch.\<close>

lemma log_inv_appended:
  assumes inv: "log_inv valid content L items" and safe: "safe_item it L"
    and cap: "lg_count L < log_capacity" and kind: "items = [] \<or> lg_kind L = item_kind it"
    and s: "valid s" "so_leaves (content s) = leaf_payloads (items @ [it])" "so_count (content s) = lg_count L + 1"
      "so_metas (content s) = so_metas (content (lg_storage L))"
      "so_nodes (content s) = fold write_node (batch_nodes (lg_arity L) items it (lg_algs L))
         (so_nodes (content (lg_storage L)))"
  shows "log_inv valid content (L\<lparr>lg_storage := s, lg_algs := append_algs (lg_arity L) items it (lg_algs L),
      lg_count := lg_count L + 1, lg_kind := item_kind it\<rparr>) (items @ [it])"
proof (rule log_invI)
  let ?L = "L\<lparr>lg_storage := s, lg_algs := append_algs (lg_arity L) items it (lg_algs L),
      lg_count := lg_count L + 1, lg_kind := item_kind it\<rparr>"
  note i = log_invD [OF inv]
  have n: "length items + 1 < u64_max" using i(3,13) by simp
  note written = batch_written [OF i(12) i(6), where items = items and it = it
      and N = "so_nodes (content (lg_storage L))"]
  show "distinct (map fst (lg_algs ?L))" using i(6) by (simp add: append_algs_def case_prod_beta o_def)
  show "list_all (\<lambda>(a, _). a < u64_limit) (lg_algs ?L)"
    using i(14) by (auto simp: append_algs_def list_all_iff)
  show "so_metas (content (lg_storage ?L)) = (\<lambda>a. map_option av_epochs (map_of (lg_algs ?L) a))"
    using s(4) i(9) by (simp add: map_of_append_algs fun_eq_iff option.map_comp o_def)
  show "list_all (\<lambda>x. item_kind x = lg_kind ?L) (items @ [it])"
    using kind i(5) by auto
  show "so_nodes (content (lg_storage ?L)) (a, l, t) = None" if "map_of (lg_algs ?L) a = None" for a l t
  proof -
    have "map_of (lg_algs L) a = None" using that by (simp add: map_of_append_algs)
    then show ?thesis using s(5) written(1) i(10) by simp
  qed
  show "alg_ok (so_nodes (content (lg_storage ?L))) (lg_arity ?L) (items @ [it]) a w"
    if w: "map_of (lg_algs ?L) a = Some w" for a w
  proof -
    obtain v where v: "map_of (lg_algs L) a = Some v" "w = append_view (lg_arity L) items it v"
      using w by (auto simp: map_of_append_algs)
    have "is_active v \<Longrightarrow> item_value it (av_hasher v) \<noteq> hs_null (av_hasher v)"
      using safe map_of_SomeD [OF v(1)] by (auto simp: safe_item_def list_all_iff)
    from alg_ok_appended [OF i(11) [OF v(1)] i(12) n this written(2) [OF v(1)]]
    show ?thesis using v(2) s(5) by simp
  qed
qed (use assms log_invD [OF inv] in simp_all)

lemma batch_fits:
  assumes inv: "log_inv valid content L items" and "set algs \<subseteq> set (lg_algs L)"
  shows "list_all node_fits (batch_nodes (lg_arity L) items it algs)"
proof -
  note i = log_invD [OF inv]
  let ?k = "lg_arity L" and ?n = "length items"
  have n: "?n + 1 < u64_limit" using i(3,13) u64_max_less_limit by linarith
  have "node_fits (a, l, t, d)" if mem: "(a, l, t, d) \<in> set (batch_nodes ?k items it algs)" for a l t d
  proof -
    obtain v j where v: "(a, v) \<in> set algs" and j: "l = ?n + 1 - ?k ^ j" "t = j"
        "j \<le> the (reduction_count ?n ?k)"
      using mem by (auto simp: batch_nodes_def append_nodes_def split: if_splits)
    obtain c where "reduction_count ?n ?k = Some c" "?k ^ c dvd ?n + 1" using reduction_count_Some [OF i(12)] by metis
    then have "?k ^ j dvd ?n + 1" using j(3) by (metis dvd_trans le_imp_power_dvd option.sel)
    then have "?k ^ j \<le> ?n + 1" by (rule dvd_imp_le) simp
    then have "l + ?k ^ t \<le> ?n + 1" using j by simp
    from block_fits [OF i(12) this n] v assms(2) i(14) show ?thesis
      by (auto simp: node_fits_def list_all_iff)
  qed
  then show ?thesis unfolding list_all_iff by (metis surj_pair)
qed

lemma subtree_items: "list_all (\<lambda>it. item_kind it = Subtree) items \<Longrightarrow> leaf_payloads items = []"
  by (induction items) (auto simp: leaf_payloads_def map_filter_simps elim!: item_kind.elims)

lemma leaf_payloads_append:
  "leaf_payloads (items @ [it]) = leaf_payloads items @ (case it of LeafItem d \<Rightarrow> [d] | TreeItem _ \<Rightarrow> [])"
  by (induction items) (auto simp: leaf_payloads_def map_filter_simps split: item.splits option.splits)

lemma item_kind_Flat: "item_kind it = Flat \<longleftrightarrow> (\<exists>d. it = LeafItem d)"
  and item_kind_Subtree: "item_kind it = Subtree \<longleftrightarrow> (\<exists>st. it = TreeItem st)"
  by (cases it; simp)+

context lawful_storage begin

lemma inv_build:
  assumes inv: "log_inv valid content L items" and safe: "safe_item it L"
  shows "(build_append_state (item_digest (lg_count L) (item_value it)) (lg_count L) (lg_arity L) (lg_algs L) []
      :: 'e log_error + _) = Inr (append_algs (lg_arity L) items it (lg_algs L),
         batch_nodes (lg_arity L) items it (lg_algs L))"
proof -
  note i = log_invD [OF inv]
  have "alg_ok (so_nodes (content (lg_storage L))) (lg_arity L) items a v
      \<and> (is_active v \<longrightarrow> item_value it (av_hasher v) \<noteq> hs_null (av_hasher v))" if m: "(a, v) \<in> set (lg_algs L)" for a v
  proof
    have "map_of (lg_algs L) a = Some v" using m i(6) by simp
    then show "alg_ok (so_nodes (content (lg_storage L))) (lg_arity L) items a v" by (rule i(11))
    show "is_active v \<longrightarrow> item_value it (av_hasher v) \<noteq> hs_null (av_hasher v)"
      using safe m by (auto simp: safe_item_def list_all_iff)
  qed
  from build_append_state_spec [OF i(12) _ this, where nodes = "[]"] i(3,13) show ?thesis by simp
qed

lemma inv_append_leaf:
  assumes inv: "log_inv valid content L items" and safe: "safe_item (LeafItem data) L"
    and pre: "lg_kind L = Subtree \<Longrightarrow> lg_count L = 0" "lg_count L < log_capacity"
      "list_ex (\<lambda>(_, v). is_active v) (lg_algs L)"
  shows "\<exists>L'. append_leaf S L data = Inr L' \<and> log_inv valid content L' (items @ [LeafItem data])"
proof -
  note i = log_invD [OF inv]
  let ?it = "LeafItem data" and ?k = "lg_arity L" and ?n = "lg_count L"
  let ?nws = "batch_nodes ?k items ?it (lg_algs L)"
  have val: "(\<lambda>h. hs_leaf h data) = item_value ?it" by (simp add: fun_eq_iff)
  have "length (leaf_payloads items) = length items"
  proof (cases "lg_kind L")
    case Flat
    then have "list_all (\<lambda>it. item_kind it = Flat) items" using i(5) by simp
    from flat_items [OF this] show ?thesis by force
  qed (use pre(1) i(3) in \<open>simp add: leaf_payloads_def map_filter_simps\<close>)
  then have "op_fits (content (lg_storage L)) (AppendLeaf ?n data ?nws)"
    using batch_fits [OF inv order.refl] i(3,7,8,13) by simp
  then obtain s where s: "st_apply S (lg_storage L) [AppendLeaf ?n data ?nws] = Inr s" "valid s"
    "content s = store_nodes ?nws ((content (lg_storage L))\<lparr>so_leaves := so_leaves (content (lg_storage L)) @ [data],
       so_count := ?n + 1\<rparr>)"
    using apply_one [OF i(1), of "AppendLeaf ?n data ?nws"] i(7) by auto
  let ?L = "L\<lparr>lg_storage := s, lg_algs := append_algs ?k items ?it (lg_algs L), lg_count := ?n + 1, lg_kind := Flat\<rparr>"
  have "append_leaf S L data = Inr ?L"
    using pre s(1) by (simp add: append_leaf_def Let_def val inv_build [OF inv safe] not_le)
  moreover have "log_inv valid content (L\<lparr>lg_storage := s, lg_algs := append_algs ?k items ?it (lg_algs L),
      lg_count := ?n + 1, lg_kind := item_kind ?it\<rparr>) (items @ [?it])"
  proof (rule log_inv_appended [OF inv safe pre(2)])
    show "items = [] \<or> lg_kind L = item_kind ?it" using pre(1) i(3) by (cases "lg_kind L") auto
    show "so_leaves (content s) = leaf_payloads (items @ [?it])"
      using s(3) i(8) by (simp add: leaf_payloads_append)
  qed (use s in \<open>simp_all add: store_nodes_def\<close>)
  ultimately show ?thesis by auto
qed

lemma inv_append_subtree:
  assumes inv: "log_inv valid content L items" and safe: "safe_item (TreeItem st) L"
    and pre: "lg_kind L = Flat \<Longrightarrow> lg_count L = 0" "lg_count L < log_capacity"
      "list_ex (\<lambda>(_, v). is_active v) (lg_algs L)"
  shows "\<exists>L'. append_subtree S L st = Inr L' \<and> log_inv valid content L' (items @ [TreeItem st])"
proof -
  note i = log_invD [OF inv]
  let ?it = "TreeItem st" and ?k = "lg_arity L" and ?n = "lg_count L"
  let ?nws = "batch_nodes ?k items ?it (lg_algs L)"
  have val: "(\<lambda>h. evaluate h st) = item_value ?it" by (simp add: fun_eq_iff)
  have "leaf_payloads items = []"
    using subtree_items [of items] i(5) pre(1) i(3) by (cases "lg_kind L") (simp_all add: leaf_payloads_def map_filter_simps)
  then have "op_fits (content (lg_storage L)) (AppendSubtree ?n ?nws)"
    using batch_fits [OF inv order.refl] i(7,8,13) by simp
  then obtain s where s: "st_apply S (lg_storage L) [AppendSubtree ?n ?nws] = Inr s" "valid s"
    "content s = store_nodes ?nws ((content (lg_storage L))\<lparr>so_count := ?n + 1\<rparr>)"
    using apply_one [OF i(1), of "AppendSubtree ?n ?nws"] i(7) by auto
  let ?L = "L\<lparr>lg_storage := s, lg_algs := append_algs ?k items ?it (lg_algs L), lg_count := ?n + 1, lg_kind := Subtree\<rparr>"
  have "append_subtree S L st = Inr ?L"
    using pre s(1) by (simp add: append_subtree_def Let_def val inv_build [OF inv safe] not_le)
  moreover have "log_inv valid content (L\<lparr>lg_storage := s, lg_algs := append_algs ?k items ?it (lg_algs L),
      lg_count := ?n + 1, lg_kind := item_kind ?it\<rparr>) (items @ [?it])"
  proof (rule log_inv_appended [OF inv safe pre(2)])
    show "items = [] \<or> lg_kind L = item_kind ?it" using pre(1) i(3) by (cases "lg_kind L") auto
    show "so_leaves (content s) = leaf_payloads (items @ [?it])"
      using s(3) i(8) by (simp add: leaf_payloads_append)
  qed (use s in \<open>simp_all add: store_nodes_def\<close>)
  ultimately show ?thesis by auto
qed

end

section \<open>Reachable logs\<close>

context lawful_storage begin

lemma step_inv:
  assumes inv: "log_inv valid content L items" and st: "log_step S (L, items) (L', items')"
  shows "log_inv valid content L' items'"
  using st
proof (cases rule: log_step.cases)
  case (add h alg)
  then have "map_of (lg_algs L) alg = None" by (auto simp: add_algorithm_def split: if_splits)
  then show ?thesis using inv_add [OF inv _ add(2,3)] add by auto
next
  case (remove alg)
  then obtain v where "map_of (lg_algs L) alg = Some v" "is_active v"
    by (auto simp: remove_algorithm_def split: option.splits if_splits)
  then show ?thesis using inv_remove [OF inv] remove by fastforce
next
  case (resume alg)
  then obtain v where "map_of (lg_algs L) alg = Some v" "\<not> is_active v"
    by (auto simp: resume_algorithm_def split: option.splits if_splits)
  then show ?thesis using inv_resume [OF inv] resume by fastforce
next
  case (leaf data)
  then have "lg_kind L = Subtree \<Longrightarrow> lg_count L = 0" "lg_count L < log_capacity"
    "list_ex (\<lambda>(_, v). is_active v) (lg_algs L)"
    by (auto simp: append_leaf_def split: if_splits)
  then show ?thesis using inv_append_leaf [OF inv leaf(2)] leaf by auto
next
  case (subtree st)
  then have "lg_kind L = Flat \<Longrightarrow> lg_count L = 0" "lg_count L < log_capacity"
    "list_ex (\<lambda>(_, v). is_active v) (lg_algs L)"
    by (auto simp: append_subtree_def split: if_splits)
  then show ?thesis using inv_append_subtree [OF inv subtree(2)] subtree by auto
qed

lemma reachable_inv:
  assumes "reachable_log S s k L items" "valid s" "content s = empty_store"
  shows "log_inv valid content L items"
  using assms(1)
proof (induction rule: reachable_log.induct)
  case (init h L)
  have "arity_ok k" using init(2) by (simp add: log_new_def split: if_splits)
  from inv_new [OF assms(2,3) this init(1)] init(2) show ?case by auto
next
  case (step L items L' items')
  then show ?case by (blast intro: step_inv)
qed

end

lemma mem_new_ok: "mem_wf mem_new" "mem_abs mem_new = empty_store"
  by (simp_all add: mem_wf_def mem_new_def mem_abs_def empty_store_def u64_limit_def)

text \<open>A hasher whose leaves, nodes, and other digests never meet, and a log that runs through all
  kinds of steps.\<close>

definition tagged_hasher :: hasher where
  "tagged_hasher = \<lparr>hs_leaf = (\<lambda>d. [1, sum_list d]), hs_node = (\<lambda>cs. [2, sum_list (map sum_list cs)]),
     hs_empty = [0, 0], hs_hash = (\<lambda>d. [3, sum_list d])\<rparr>"

lemma tagged_null_free: "null_free tagged_hasher"
  by (simp add: null_free_def fixed_width_def tagged_hasher_def digest_len_def hs_null_def)

lemma tagged_width_ok: "width_ok tagged_hasher" "digest_len tagged_hasher = 2"
  by (simp_all add: width_ok_def tagged_hasher_def digest_len_def)

lemma tagged_safe: "hs_leaf tagged_hasher d \<noteq> hs_null tagged_hasher"
  by (simp add: tagged_hasher_def hs_null_def)

text \<open>What the operations do to the shape of a log: arity, count, kind, hashers and epochs.\<close>

definition log_shape :: "'s merkle_log \<Rightarrow> u64 \<times> u64 \<times> log_kind \<times> (alg_id \<times> hasher \<times> epochs) list" where
  "log_shape L = (lg_arity L, lg_count L, lg_kind L, map (\<lambda>(a, v). (a, av_hasher v, av_epochs v)) (lg_algs L))"

definition run_state :: "u64 \<Rightarrow> u64 \<times> u64 \<times> log_kind \<times> (alg_id \<times> hasher \<times> epochs) list \<Rightarrow> item list \<Rightarrow>
    memory_storage merkle_log \<Rightarrow> bool" where
  "run_state k sh items L \<longleftrightarrow> reachable_log memory_ops mem_new k L items \<and> log_shape L = sh"

lemma run_state_inv: "run_state k sh items L \<Longrightarrow> log_inv mem_wf mem_abs L items"
  unfolding run_state_def by (blast intro: mem.reachable_inv mem_new_ok)

lemma shape_view:
  assumes "log_shape L = (k, n, kind, tl')" "map_of tl' a = Some (h, es)"
  obtains v where "map_of (lg_algs L) a = Some v" "av_hasher v = h" "av_epochs v = es"
proof -
  have "map_of (map (\<lambda>(a, v). (a, av_hasher v, av_epochs v)) algs) a = map_option (\<lambda>v. (av_hasher v, av_epochs v)) (map_of algs a)"
    for algs by (induction algs) auto
  from this [of "lg_algs L"] assms obtain v where "map_of (lg_algs L) a = Some v" "av_hasher v = h" "av_epochs v = es"
    unfolding log_shape_def by (cases "map_of (lg_algs L) a") auto
  then show thesis by (rule that)
qed

lemma shape_none:
  "log_shape L = (k, n, kind, tl') \<Longrightarrow> map_of tl' a = None \<Longrightarrow> map_of (lg_algs L) a = None"
  unfolding log_shape_def by (auto simp: map_of_eq_None_iff image_iff split_beta) (metis fst_conv)

lemma shape_update:
  "map (\<lambda>(a, v). (a, av_hasher v, av_epochs v)) (AList.update a w algs)
     = AList.update a (av_hasher w, av_epochs w) (map (\<lambda>(a, v). (a, av_hasher v, av_epochs v)) algs)"
  by (induction algs) auto

lemma run_new:
  "null_free h \<Longrightarrow> arity_ok k \<Longrightarrow> \<exists>L. run_state k (k, 0, Flat, [(0, h, [(0, u64_max)])]) [] L"
proof -
  assume h: "null_free h" "arity_ok k"
  obtain L where L: "log_new memory_ops mem_new h k = Inr L"
    using mem.inv_new [OF mem_new_ok h(2,1)] by blast
  have "log_shape L = (k, 0, Flat, [(0, h, [(0, u64_max)])])"
    using L by (auto simp: log_new_def add_algorithm_def log_shape_def bindE_Inr_iff Let_def split: if_splits)
  then show ?thesis using reachable_log.init [OF h(1) L] by (auto simp: run_state_def)
qed

lemma run_add:
  assumes r: "run_state k (k, n, kind, tl') items L" and new: "map_of tl' a = None" "null_free h" "a < u64_limit"
  shows "\<exists>L'. run_state k (k, n, kind, AList.update a (h, [(n, u64_max)]) tl') items L'"
proof -
  have sh: "log_shape L = (k, n, kind, tl')" and re: "reachable_log memory_ops mem_new k L items"
    using r by (simp_all add: run_state_def)
  obtain L' where L': "add_algorithm memory_ops L a h = Inr L'"
    using mem.inv_add [OF run_state_inv [OF r] shape_none [OF sh new(1)] new(2,3)] by blast
  then have "log_shape L' = (k, n, kind, AList.update a (h, [(n, u64_max)]) tl')"
    using sh by (auto simp: add_algorithm_def log_shape_def bindE_Inr_iff Let_def shape_update split: if_splits)
  then show ?thesis using reachable_log.step [OF re log_step.add [OF new(2,3) L']] by (auto simp: run_state_def)
qed

lemma run_remove:
  assumes r: "run_state k (k, n, kind, tl') items L" and a: "map_of tl' a = Some (h, es)" "epochs_open es"
  shows "\<exists>L'. run_state k (k, n, kind, AList.update a (h, butlast es @ [(fst (last es), n)]) tl') items L'"
proof -
  have sh: "log_shape L = (k, n, kind, tl')" and re: "reachable_log memory_ops mem_new k L items"
    using r by (simp_all add: run_state_def)
  obtain v where v: "map_of (lg_algs L) a = Some v" "av_hasher v = h" "av_epochs v = es"
    using shape_view [OF sh a(1)] by blast
  obtain L' where L': "remove_algorithm memory_ops L a = Inr L'"
    using mem.inv_remove [OF run_state_inv [OF r] v(1)] a(2) v(3) by (auto simp: is_active_def)
  have "es \<noteq> []" using a(2) by (simp add: epochs_open_def)
  then have "log_shape L' = (k, n, kind, AList.update a (h, butlast es @ [(fst (last es), n)]) tl')"
    using L' sh v by (auto simp: remove_algorithm_def log_shape_def bindE_Inr_iff Let_def shape_update split: if_splits)
  then show ?thesis using reachable_log.step [OF re log_step.remove [OF L']] by (auto simp: run_state_def)
qed

lemma run_resume:
  assumes r: "run_state k (k, n, kind, tl') items L" and a: "map_of tl' a = Some (h, es)" "\<not> epochs_open es"
  shows "\<exists>L'. run_state k (k, n, kind, AList.update a (h, es @ [(n, u64_max)]) tl') items L'"
proof -
  have sh: "log_shape L = (k, n, kind, tl')" and re: "reachable_log memory_ops mem_new k L items"
    using r by (simp_all add: run_state_def)
  obtain v where v: "map_of (lg_algs L) a = Some v" "av_hasher v = h" "av_epochs v = es"
    using shape_view [OF sh a(1)] by blast
  obtain L' where L': "resume_algorithm memory_ops L a = Inr L'"
    using mem.inv_resume [OF run_state_inv [OF r] v(1)] a(2) v(3) by (auto simp: is_active_def)
  then have "log_shape L' = (k, n, kind, AList.update a (h, es @ [(n, u64_max)]) tl')"
    using sh v by (auto simp: resume_algorithm_def log_shape_def bindE_Inr_iff Let_def shape_update split: if_splits)
  then show ?thesis using reachable_log.step [OF re log_step.resume [OF L']] by (auto simp: run_state_def)
qed

lemma run_leaf:
  assumes r: "run_state k (k, n, Flat, tl') items L" and n: "n < log_capacity"
    and act: "list_ex (\<lambda>(_, _, es). epochs_open es) tl'" and safe: "list_all (\<lambda>(_, h, _). hs_leaf h d \<noteq> hs_null h) tl'"
  shows "\<exists>L'. run_state k (k, n + 1, Flat, tl') (items @ [LeafItem d]) L'"
proof -
  have sh: "log_shape L = (k, n, Flat, tl')" and re: "reachable_log memory_ops mem_new k L items"
    using r by (simp_all add: run_state_def)
  note inv = run_state_inv [OF r]
  have sf: "safe_item (LeafItem d) L"
    using sh safe by (auto simp: safe_item_def log_shape_def list_all_iff)
  have "list_ex (\<lambda>(_, v). is_active v) (lg_algs L)"
    using sh act by (auto simp: log_shape_def list_ex_iff is_active_def case_prod_beta)
  then obtain L' where L': "append_leaf memory_ops L d = Inr L'"
    using mem.inv_append_leaf [OF inv sf] sh n by (auto simp: log_shape_def)
  have b: "(build_append_state (item_digest (lg_count L) (\<lambda>h. hs_leaf h d)) (lg_count L) (lg_arity L) (lg_algs L) []
      :: memory_storage_error log_error + _)
      = Inr (append_algs (lg_arity L) items (LeafItem d) (lg_algs L), batch_nodes (lg_arity L) items (LeafItem d) (lg_algs L))"
  proof -
    have "(\<lambda>h. hs_leaf h d) = item_value (LeafItem d)" by (simp add: fun_eq_iff)
    then show ?thesis using mem.inv_build [OF inv sf] by simp
  qed
  have "map (\<lambda>(a, v). (a, av_hasher v, av_epochs v)) (append_algs k' is it algs)
      = map (\<lambda>(a, v). (a, av_hasher v, av_epochs v)) algs" for k' "is" it algs
    by (induction algs) (auto simp: append_algs_def)
  then have "log_shape L' = (k, n + 1, Flat, tl')"
    using L' sh b by (auto simp: append_leaf_def log_shape_def bindE_Inr_iff Let_def split: if_splits)
  then show ?thesis using reachable_log.step [OF re log_step.leaf [OF sf L']] by (auto simp: run_state_def)
qed

lemma one_fits: "1 < u64_limit"
  by (simp add: u64_limit_def)

text \<open>Two leaves with an algorithm registered between them and the first one frozen after them.\<close>

definition toy_shape :: "u64 \<times> u64 \<times> log_kind \<times> (alg_id \<times> hasher \<times> epochs) list" where
  "toy_shape = (2, 2, Flat, [(0, tagged_hasher, [(0, 2)]), (1, tagged_hasher, [(1, u64_max)])])"

definition toy_items :: "item list" where
  "toy_items = [LeafItem [1], LeafItem [2]]"

lemma toy_run: "\<exists>L. run_state 2 toy_shape toy_items L"
proof -
  have cap: "1 < log_capacity" by (simp add: log_capacity_def)
  obtain L0 where "run_state 2 (2, 0, Flat, [(0, tagged_hasher, [(0, u64_max)])]) [] L0"
    using run_new [OF tagged_null_free, of 2] by (auto simp: arity_ok_def)
  from run_leaf [OF this, of "[1]"] cap obtain L1
    where "run_state 2 (2, 1, Flat, [(0, tagged_hasher, [(0, u64_max)])]) [LeafItem [1]] L1"
    by (auto simp: epochs_open_def tagged_safe)
  from run_add [OF this _ tagged_null_free one_fits] obtain L2
    where "run_state 2 (2, 1, Flat, [(0, tagged_hasher, [(0, u64_max)]), (1, tagged_hasher, [(1, u64_max)])])
      [LeafItem [1]] L2" by auto
  from run_leaf [OF this cap, of "[2]"] obtain L3
    where "run_state 2 (2, 2, Flat, [(0, tagged_hasher, [(0, u64_max)]), (1, tagged_hasher, [(1, u64_max)])])
      [LeafItem [1], LeafItem [2]] L3" by (auto simp: epochs_open_def tagged_safe numeral_2_eq_2)
  from run_remove [OF this, of 0] show ?thesis
    by (auto simp: epochs_open_def toy_shape_def toy_items_def)
qed

section \<open>Properties\<close>

text \<open>
  C1. The invariant of the log: in every state the log reaches from an empty store through
  registering, freezing and reopening algorithms and appending items, every view holds the
  frontier of its history, the store holds exactly the digests of the active blocks of every
  algorithm and the leaves, timelines and count of the log, and the kind is that of the items.
\<close>

theorem log_invariant:
  assumes "reachable_log memory_ops mem_new k L items"
  shows "log_inv mem_wf mem_abs L items"
  by (rule mem.reachable_inv [OF assms mem_new_ok])

theorem log_invariant_witness:
  "\<exists>L. log_shape L = (2, 3, Flat, [(0, tagged_hasher, [(0, 2), (3, u64_max)]), (1, tagged_hasher, [(1, u64_max)])])
     \<and> log_inv mem_wf mem_abs L (toy_items @ [LeafItem [3]])"
proof -
  have cap: "2 < log_capacity" by (simp add: log_capacity_def)
  obtain L where "run_state 2 toy_shape toy_items L" using toy_run by blast
  from run_leaf [OF this [unfolded toy_shape_def] cap, of "[3]"] obtain L1
    where "run_state 2 (2, 3, Flat, [(0, tagged_hasher, [(0, 2)]), (1, tagged_hasher, [(1, u64_max)])])
      (toy_items @ [LeafItem [3]]) L1" by (auto simp: epochs_open_def tagged_safe)
  from run_resume [OF this, of 0] obtain L2
    where L2: "run_state 2 (2, 3, Flat, [(0, tagged_hasher, [(0, 2), (3, u64_max)]), (1, tagged_hasher, [(1, u64_max)])])
      (toy_items @ [LeafItem [3]]) L2" by (auto simp: epochs_open_def u64_max_def)
  then have "reachable_log memory_ops mem_new 2 L2 (toy_items @ [LeafItem [3]])" by (simp add: run_state_def)
  from log_invariant [OF this] L2 show ?thesis by (auto simp: run_state_def)
qed

text \<open>
  C31. An append of a leaf that no active algorithm hashes to null never fails half-way: in a
  reachable state it returns the log with the item appended, unless the log holds subtrees, is
  full, or has no active algorithm, and then the error says which.
\<close>

theorem append_leaf_total:
  assumes "reachable_log memory_ops mem_new k L items" "safe_item (LeafItem data) L"
  shows "case append_leaf memory_ops L data of
      Inr L' \<Rightarrow> reachable_log memory_ops mem_new k L' (items @ [LeafItem data])
        \<and> lg_count L' = lg_count L + 1 \<and> lg_kind L' = Flat
    | Inl e \<Rightarrow> e = CorruptedMetadata 0 LeafAfterSubtree \<and> lg_kind L = Subtree \<and> items \<noteq> []
        \<or> e = CorruptedMetadata 0 CapacityExceeded \<and> length items = log_capacity
        \<or> e = NoActiveAlgorithms \<and> list_all (\<lambda>(_, v). \<not> is_active v) (lg_algs L)"
proof -
  have inv: "log_inv mem_wf mem_abs L items" by (rule mem.reachable_inv [OF assms(1) mem_new_ok])
  note i = log_invD [OF inv]
  show ?thesis
  proof (cases "append_leaf memory_ops L data")
    case (Inr L')
    have "log_step memory_ops (L, items) (L', items @ [LeafItem data])"
      using assms(2) Inr by (rule log_step.leaf)
    then have "reachable_log memory_ops mem_new k L' (items @ [LeafItem data])"
      using assms(1) by (rule reachable_log.step [rotated])
    moreover have "lg_count L' = lg_count L + 1 \<and> lg_kind L' = Flat"
      using Inr by (auto simp: append_leaf_def Let_def bindE_Inr_iff split: if_splits)
    ultimately show ?thesis using Inr by simp
  next
    case (Inl e)
    show ?thesis
    proof (cases "(lg_kind L = Subtree \<and> lg_count L > 0) \<or> \<not> lg_count L < log_capacity
        \<or> \<not> list_ex (\<lambda>(_, v). is_active v) (lg_algs L)")
      case True
      then show ?thesis using Inl i(3,4)
        by (auto simp: append_leaf_def list_all_iff list_ex_iff split: if_splits)
    next
      case False
      then show ?thesis using mem.inv_append_leaf [OF inv assms(2)] Inl by auto
    qed
  qed
qed

theorem append_leaf_total_witness:
  "\<exists>L. log_shape L = toy_shape \<and> (case append_leaf memory_ops L [3] of
      Inr L' \<Rightarrow> reachable_log memory_ops mem_new 2 L' (toy_items @ [LeafItem [3]])
        \<and> lg_count L' = lg_count L + 1 \<and> lg_kind L' = Flat
    | Inl e \<Rightarrow> e = CorruptedMetadata 0 LeafAfterSubtree \<and> lg_kind L = Subtree \<and> toy_items \<noteq> []
        \<or> e = CorruptedMetadata 0 CapacityExceeded \<and> length toy_items = log_capacity
        \<or> e = NoActiveAlgorithms \<and> list_all (\<lambda>(_, v). \<not> is_active v) (lg_algs L))"
proof -
  obtain L where L: "run_state 2 toy_shape toy_items L" using toy_run by blast
  then have "reachable_log memory_ops mem_new 2 L toy_items" "safe_item (LeafItem [3]) L"
    by (auto simp: run_state_def log_shape_def toy_shape_def safe_item_def tagged_safe list_all_iff)
  from append_leaf_total [OF this] show ?thesis using L by (auto simp: run_state_def)
qed

end
