(* ===== verification/Poly_Log_Correct.thy ===== *)
theory Poly_Log_Correct
  imports Poly_Log_Inv Poly_Evolution
begin

text \<open>
  What a log in an invariant state answers: its roots are the reference roots of its history, live
  and historical, its committed timeline is valid and names the active algorithms, its coupling
  proofs open its combined roots, its leaf proofs are accepted under them, and reloading it from
  its store gives it back.
\<close>

section \<open>The committed timeline\<close>

lemma epochs_at_loop_valid:
  "epochs_sorted b es \<Longrightarrow> n < u64_max \<Longrightarrow> epochs_at_loop n es \<noteq> [] \<Longrightarrow>
    epochs_sorted b (epochs_at_loop n es)
    \<and> (\<forall>(s, e) \<in> set (butlast (epochs_at_loop n es)). e \<noteq> u64_max \<and> e \<le> n)
    \<and> (case last (epochs_at_loop n es) of (s, e) \<Rightarrow> if e = u64_max then s \<le> n else e \<le> n)"
proof (induction b es rule: epochs_sorted.induct)
  case (2 b s e es)
  show ?case
  proof (cases "n < s \<or> n < e")
    case True
    then show ?thesis using 2 by (auto simp: u64_max_def split: if_splits)
  next
    case False
    then have le: "e \<le> n" "e \<noteq> u64_max" using 2 by auto
    show ?thesis
    proof (cases "epochs_at_loop n es = []")
      case True
      then show ?thesis using False le 2 by simp
    next
      case ne: False
      then show ?thesis using False le 2 by auto
    qed
  qed
qed simp

lemma committed_map_of:
  assumes "distinct (map fst algs)"
  shows "(a, es) \<in> set (List.map_filter (\<lambda>(alg, view). map_option (Pair alg) (epochs_at view n)) algs)
    \<longleftrightarrow> (\<exists>v. map_of algs a = Some v \<and> epochs_at v n = Some es)"
proof -
  have "(a, es) \<in> set (List.map_filter (\<lambda>(alg, view). map_option (Pair alg) (epochs_at view n)) algs)
      \<longleftrightarrow> (\<exists>v. (a, v) \<in> set algs \<and> epochs_at v n = Some es)"
    by (induction algs) (auto simp: map_filter_simps split: option.splits)
  then show ?thesis using assms by (simp only: map_of_eq_Some_iff)
qed

lemma distinct_map_filter_keys:
  "distinct (map fst algs) \<Longrightarrow>
    distinct (map fst (List.map_filter (\<lambda>(alg, view). map_option (Pair alg) (f view)) algs))
    \<and> fst ` set (List.map_filter (\<lambda>(alg, view). map_option (Pair alg) (f view)) algs) \<subseteq> fst ` set algs"
proof (induction algs)
  case (Cons p algs)
  obtain a v where p: "p = (a, v)" by (cases p)
  show ?case
  proof (cases "f v")
    case (Some es)
    have "a \<notin> fst ` set algs" using Cons.prems p by simp
    then show ?thesis using Cons p Some by (auto simp: map_filter_simps)
  qed (use Cons p in \<open>auto simp: map_filter_simps\<close>)
qed (simp add: map_filter_simps)

lemma committed_keys:
  assumes "distinct (map fst (lg_algs L))"
  shows "bt_keys (committed_epochs_at L n)"
proof -
  let ?xs = "List.map_filter (\<lambda>(alg, view). map_option (Pair alg) (epochs_at view n)) (lg_algs L)"
  have d: "distinct (map fst ?xs)" by (rule conjunct1 [OF distinct_map_filter_keys [OF assms]])
  have "distinct (map fst (sort_key fst ?xs))"
    using d unfolding distinct_map distinct_sort set_sort .
  then show ?thesis
    unfolding bt_keys_def committed_epochs_at_def strict_sorted_iff by (intro conjI sorted_sort_key)
qed

lemma committed_map:
  assumes d: "distinct (map fst (lg_algs L))"
  shows "map_of (committed_epochs_at L n) a = Option.bind (map_of (lg_algs L) a) (\<lambda>v. epochs_at v n)"
proof -
  let ?tml = "committed_epochs_at L n"
  have mem: "(a, es) \<in> set ?tml \<longleftrightarrow> (\<exists>v. map_of (lg_algs L) a = Some v \<and> epochs_at v n = Some es)" for es
    using committed_map_of [OF d, of a es n] by (simp add: committed_epochs_at_def)
  have "distinct (map fst ?tml)" by (rule bt_keys_distinct [OF committed_keys [OF d]])
  then have "map_of ?tml a = Some es \<longleftrightarrow> Option.bind (map_of (lg_algs L) a) (\<lambda>v. epochs_at v n) = Some es" for es
    by (simp add: map_of_eq_Some_iff mem bind_eq_Some_conv)
  then show ?thesis by (metis option.exhaust)
qed

lemma epochs_at_valid:
  assumes "epochs_valid g (av_epochs v)" "n < u64_max" "epochs_at v n = Some es"
  shows "epochs_valid n es"
proof -
  have "epochs_sorted 0 (av_epochs v)" by (rule epochs_validD [OF assms(1)])
  from epochs_at_loop_valid [OF this assms(2)] assms(3) show ?thesis
    by (auto simp: epochs_valid_def epochs_at_Some case_prod_beta split: if_splits)
qed

lemma epochs_at_active:
  assumes "epochs_valid g (av_epochs v)" "n < u64_max" "i < n"
  shows "(case epochs_at v n of None \<Rightarrow> False | Some es \<Rightarrow> active_in es i) = is_active_at v i"
proof -
  have s: "epochs_sorted 0 (av_epochs v)" by (rule epochs_validD [OF assms(1)])
  have "i < u64_max" using assms(2,3) by simp
  from epochs_at_loop_active [OF s assms(3) this] show ?thesis
    by (auto simp: epochs_at_def active_in_def is_active_at_def Let_def)
qed

lemma committed_valid:
  assumes inv: "log_inv valid content L items" and n: "n \<le> lg_count L"
  shows "validate_committed_epochs (committed_epochs_at L n) n"
    and "0 < n \<Longrightarrow> committed_active_algs (committed_epochs_at L n) n = active_algs_at L n"
    and "i < n \<Longrightarrow> map_of (lg_algs L) a = Some v \<Longrightarrow> epochs_at v n \<noteq> None \<Longrightarrow>
      committed_active_at (committed_epochs_at L n) a i = Some (is_active_at v i)"
    and "i < n \<Longrightarrow> map_of (lg_algs L) a = Some v \<Longrightarrow> is_active_at v i \<Longrightarrow> epochs_at v n \<noteq> None"
proof -
  note i = log_invD [OF inv]
  let ?tml = "committed_epochs_at L n"
  have nm: "n < u64_max" using n i(13) by simp
  have ev: "epochs_valid (length items) (av_epochs v)" if "map_of (lg_algs L) a = Some v" for a v
    by (rule alg_okD [OF i(11) [OF that]])
  have keys: "bt_keys ?tml" by (rule committed_keys [OF i(6)])
  have dk: "distinct (map fst ?tml)" by (rule bt_keys_distinct [OF keys])
  have mem: "(a, es) \<in> set ?tml \<longleftrightarrow> (\<exists>v. map_of (lg_algs L) a = Some v \<and> epochs_at v n = Some es)" for a es
    using committed_map_of [OF i(6), of a es n] by (simp add: committed_epochs_at_def)
  have "epochs_valid n es" if "(a, es) \<in> set ?tml" for a es
    using that epochs_at_valid [OF ev nm] unfolding mem by blast
  then show "validate_committed_epochs ?tml n" using keys by (auto simp: validate_committed_iff)
  show "committed_active_at ?tml a i = Some (is_active_at v i)"
    if "i < n" "map_of (lg_algs L) a = Some v" "epochs_at v n \<noteq> None"
    using epochs_at_active [OF ev [OF that(2)] nm that(1)] that(2,3)
    by (auto simp: committed_active_at_active committed_map [OF i(6)])
  show "epochs_at v n \<noteq> None"
    if "i < n" "map_of (lg_algs L) a = Some v" "is_active_at v i"
    using epochs_at_active [OF ev [OF that(2)] nm that(1)] that(3) by (auto split: option.splits)
  assume n0: "0 < n"
  have ni: "n - 1 < n" using n0 by simp
  let ?as = "map fst (filter (\<lambda>(_, es). active_in es (n - 1)) ?tml)"
  have "sorted_wrt (<) ?as" using keys unfolding bt_keys_def
    by (simp add: sorted_wrt_map sorted_wrt_filter)
  moreover have "set ?as = {a. \<exists>v. map_of (lg_algs L) a = Some v \<and> is_active_at v (n - 1)}"
  proof (intro set_eqI)
    fix a
    have "a \<in> set ?as \<longleftrightarrow> (\<exists>es. (a, es) \<in> set ?tml \<and> active_in es (n - 1))" by force
    also have "\<dots> \<longleftrightarrow> (\<exists>v. map_of (lg_algs L) a = Some v \<and>
        (case epochs_at v n of None \<Rightarrow> False | Some es \<Rightarrow> active_in es (n - 1)))"
      unfolding mem by (auto split: option.splits)
    also have "\<dots> \<longleftrightarrow> (\<exists>v. map_of (lg_algs L) a = Some v \<and> is_active_at v (n - 1))"
      using epochs_at_active [OF ev nm ni] by metis
    finally show "a \<in> set ?as \<longleftrightarrow> a \<in> {a. \<exists>v. map_of (lg_algs L) a = Some v \<and> is_active_at v (n - 1)}" by simp
  qed
  moreover have "set (active_algs_at L n) = {a. \<exists>v. map_of (lg_algs L) a = Some v \<and> is_active_at v (n - 1)}"
    using i(6) n0 by (auto simp: active_algs_at_def map_of_eq_Some_iff image_iff)
  moreover have "sorted_wrt (<) (active_algs_at L n)"
  proof -
    have "distinct (map fst (filter P (lg_algs L)))" for P using i(6) by (rule distinct_map_filter)
    then show ?thesis by (simp add: active_algs_at_def strict_sorted_iff)
  qed
  ultimately have "?as = active_algs_at L n"
    by (metis sorted_distinct_set_unique strict_sorted_iff)
  then show "committed_active_algs ?tml n = active_algs_at L n"
    by (simp add: committed_active_algs_iff [OF n0])
qed

section \<open>Roots\<close>

text \<open>The reference root of an algorithm at a size: the bagged frontier digests of its history.\<close>

definition history_root :: "nat \<Rightarrow> item list \<Rightarrow> alg_view \<Rightarrow> nat \<Rightarrow> digest" where
  "history_root k items v n =
     bag_peaks (av_hasher v) (fdigs (av_hasher v) k (history items v) (frontier_for_size n k)) k"

definition view_of :: "'s merkle_log \<Rightarrow> alg_id \<Rightarrow> alg_view" where
  "view_of L a = the (map_of (lg_algs L) a)"

definition history_roots :: "'s merkle_log \<Rightarrow> item list \<Rightarrow> nat \<Rightarrow> (alg_id \<times> digest) list" where
  "history_roots L items n = map (\<lambda>a. (a, history_root (lg_arity L) items (view_of L a) n)) (active_algs_at L n)"

lemma active_algs_iff:
  assumes "log_inv valid content L items"
  shows "a \<in> set (active_algs_at L n) \<longleftrightarrow> 0 < n \<and> (\<exists>v. map_of (lg_algs L) a = Some v \<and> is_active_at v (n - 1))"
  using log_invD(6) [OF assms] by (auto simp: active_algs_at_def map_of_eq_Some_iff image_iff)

lemma tree_size_le: "epochs_valid n (av_epochs v) \<Longrightarrow> tree_size v n \<le> n"
proof (cases "is_active v")
  case False
  assume "epochs_valid n (av_epochs v)"
  note d = epochs_validD [OF this]
  show ?thesis using False d(1) d(4) tree_size_closed [OF False d(1)] by (simp add: is_active_def epochs_open_def)
qed (simp add: tree_size_open)

lemma active_within:
  assumes "epochs_valid (length items) (av_epochs v)" "0 < n" "n \<le> length items" "is_active_at v (n - 1)"
  shows "n \<le> tree_size v (length items)" "effective_size_at v n = n"
proof -
  show "n \<le> tree_size v (length items)"
  proof (cases "is_active v")
    case False
    then have "n - 1 < tree_size v (length items)" using assms(1,4) by (intro closed_inactive)
    then show ?thesis by simp
  qed (use assms(3) in \<open>simp add: tree_size_open\<close>)
  show "effective_size_at v n = n" using assms(4) by (simp add: effective_size_at_def)
qed

context lawful_storage begin

lemma alg_backed:
  assumes inv: "log_inv valid content L items" and v: "map_of (lg_algs L) a = Some v"
  shows "backed (storage_reader S (lg_storage L)) v a (lg_arity L) (history items v) (tree_size v (length items))"
proof -
  note i = log_invD [OF inv] and ok = alg_okD [OF log_invD(11) [OF inv v]]
  show ?thesis
    unfolding backed_def
    using ok(2) ok(6) length_history [OF ok(2)] history_inactive reader_node [OF i(1)] by auto
qed

lemma size_bounds:
  assumes "log_inv valid content L items" "n \<le> lg_count L"
  shows "n < u64_limit" "n \<le> 2 ^ 63" "n < u64_max"
proof -
  have "n \<le> log_capacity" using log_invD(4) [OF assms(1)] assms(2) by simp
  then show "n < u64_limit" "n \<le> 2 ^ 63" "n < u64_max"
    by (simp_all add: log_capacity_def u64_limit_def u64_max_def)
qed

lemma root_at:
  assumes inv: "log_inv valid content L items" and n: "n \<le> lg_count L" and a: "a \<in> set (active_algs_at L n)"
  shows "log_root_for_at S L a n = Inr (history_root (lg_arity L) items (view_of L a) n)"
    and "frontier_peaks_at S L a n = Inr (fdigs (av_hasher (view_of L a)) (lg_arity L)
      (history items (view_of L a)) (frontier_for_size n (lg_arity L)))"
proof -
  note i = log_invD [OF inv]
  obtain v where v: "map_of (lg_algs L) a = Some v" "is_active_at v (n - 1)" and n0: "0 < n"
    using a unfolding active_algs_iff [OF inv] by blast
  have ev: "epochs_valid (length items) (av_epochs v)" by (rule alg_okD [OF i(11) [OF v(1)]])
  note w = active_within [OF ev n0 n [folded i(3)] v(2)]
  have t: "tree_size v (length items) < u64_limit"
    using tree_size_le [OF ev] size_bounds(1) [OF inv, of "lg_count L"] i(3) by simp
  have g: "get_node_hashes (storage_reader S (lg_storage L)) v a (lg_arity L) (frontier_for_size n (lg_arity L))
     = Inr (fdigs (av_hasher v) (lg_arity L) (history items v) (frontier_for_size n (lg_arity L)))"
    by (rule get_node_hashes_backed [OF alg_backed [OF inv v(1)] i(12) w(1) t])
  show "log_root_for_at S L a n = Inr (history_root (lg_arity L) items (view_of L a) n)"
    using v(1) n n0 w(2) g by (simp add: log_root_for_at_def with_view_def root_for_at_def view_of_def history_root_def)
  show "frontier_peaks_at S L a n = Inr (fdigs (av_hasher (view_of L a)) (lg_arity L)
      (history items (view_of L a)) (frontier_for_size n (lg_arity L)))"
    using v(1) g by (simp add: frontier_peaks_at_def with_view_def frontier_peaks_def view_of_def
        peak_at_def get_node_hashes_def)
qed

lemma member_roots:
  assumes "log_inv valid content L items" "n \<le> lg_count L"
  shows "member_roots_at S L n = Inr (history_roots L items n)"
  unfolding member_roots_at_def history_roots_def
  by (rule mapE_Inr) (simp add: root_at(1) [OF assms])

lemma combined_at:
  assumes inv: "log_inv valid content L items" and n: "n \<le> lg_count L" and a: "a \<in> set (active_algs_at L n)"
  shows "\<exists>r. combined_root_at S L a n = Inr r
    \<and> combined_root (av_hasher (view_of L a)) (history_roots L items n) (committed_epochs_at L n) n (lg_arity L) = Some r"
proof -
  obtain v where v: "map_of (lg_algs L) a = Some v" and n0: "0 < n"
    using a unfolding active_algs_iff [OF inv] by blast
  have ne: "active_algs_at L n \<noteq> []" using a by auto
  show ?thesis
    using v n0 a ne combined_root_children [OF log_invD(12) [OF inv] size_bounds(2) [OF inv n]]
    by (simp add: combined_root_at_def with_view_def view_of_def member_roots [OF inv n])
qed

lemma live_root_of:
  assumes inv: "log_inv valid content L items" and a: "a \<in> set (active_algs_at L (lg_count L))"
  shows "log_root_for L a = Inr (history_root (lg_arity L) items (view_of L a) (lg_count L))"
proof -
  note i = log_invD [OF inv]
  obtain v where v: "map_of (lg_algs L) a = Some v" "is_active_at v (lg_count L - 1)" and n0: "0 < lg_count L"
    using a unfolding active_algs_iff [OF inv] by blast
  note ok = alg_okD [OF i(11) [OF v(1)]]
  have "tree_size v (length items) = lg_count L"
    using active_within(1) [OF ok(3), of "lg_count L"] tree_size_le [OF ok(3)] i(3) n0 v(2) by simp
  then show ?thesis
    using ok(5) v(1)
    by (simp add: log_root_for_def with_view_def compute_root_def holds_frontier_def view_of_def history_root_def)
qed

lemma live_combined:
  assumes inv: "log_inv valid content L items" and v: "map_of (lg_algs L) a = Some v" and n: "0 < lg_count L"
  shows "\<exists>r. (live_combined_root L a :: 'x log_error + digest) = Inr r
    \<and> combined_root (av_hasher v) (history_roots L items (lg_count L))
        (committed_epochs_at L (lg_count L)) (lg_count L) (lg_arity L) = Some r"
proof -
  have "mapE (\<lambda>a. bindE (log_root_for L a) (\<lambda>r. Inr (a, r))) (active_algs_at L (lg_count L))
      = (Inr (history_roots L items (lg_count L)) :: 'x log_error + _)"
    unfolding history_roots_def by (rule mapE_Inr) (simp add: live_root_of [OF inv])
  then show ?thesis
    using v n combined_root_children [OF log_invD(12) [OF inv] size_bounds(2) [OF inv le_refl]]
    by (simp add: live_combined_root_def with_view_def)
qed

end

section \<open>Coupling and inclusion\<close>

text \<open>The budgets of a verifier configuration that a log fits at a size.\<close>

definition fits :: "verifier_config \<Rightarrow> 's merkle_log \<Rightarrow> nat \<Rightarrow> bool" where
  "fits cfg L n \<longleftrightarrow>
     length (active_algs_at L n) \<le> vc_max_active_algorithms cfg
     \<and> length (committed_epochs_at L n) \<le> vc_max_algorithms cfg
     \<and> list_all (\<lambda>(_, es). length es \<le> vc_max_epochs_per_algorithm cfg) (committed_epochs_at L n)
     \<and> list_all (\<lambda>a. width_ok (av_hasher (view_of L a))) (active_algs_at L n)"

context lawful_storage begin

lemma length_history_root:
  assumes inv: "log_inv valid content L items" and n: "n \<le> lg_count L" and a: "a \<in> set (active_algs_at L n)"
  shows "length (history_root (lg_arity L) items (view_of L a) n) = digest_len (av_hasher (view_of L a))"
proof -
  note i = log_invD [OF inv]
  obtain v where v: "map_of (lg_algs L) a = Some v" and n0: "0 < n" using a unfolding active_algs_iff [OF inv] by blast
  have va: "view_of L a = v" using v by (simp add: view_of_def)
  have fw: "fixed_width (av_hasher v)" by (rule alg_okD [OF i(11) [OF v]])
  have "frontier_for_size n (lg_arity L) \<noteq> []"
    using frontier_empty_iff [OF i(12) size_bounds(1) [OF inv n]] n0 by simp
  then show ?thesis
    unfolding va history_root_def
    using length_pdig [OF fw length_history [OF fw]]
    by (intro mountain_bag.bag_width fw i(12)) (auto simp: fdigs_def)
qed

lemma coupling_authentic:
  assumes inv: "log_inv valid content L items" and n: "n \<le> lg_count L" and a: "a \<in> set (active_algs_at L n)"
    and fit: "fits cfg L n"
  defines "cp \<equiv> \<lparr>cp_active_roots = history_roots L items n, cp_alg_epochs = committed_epochs_at L n\<rparr>"
  shows "coupling_proof_at S L n = Inr cp"
    and "\<exists>root. combined_root_at S L a n = Inr root
      \<and> coupling_authenticate cp (av_hasher (view_of L a)) n (lg_arity L) root (active_algs_at L n) cfg = Some True"
proof -
  note i = log_invD [OF inv]
  have n0: "0 < n" using a unfolding active_algs_iff [OF inv] by blast
  have ne: "active_algs_at L n \<noteq> []" using a by auto
  show "coupling_proof_at S L n = Inr cp"
    using n0 ne by (simp add: coupling_proof_at_def member_roots [OF inv n] cp_def)
  obtain root where root: "combined_root_at S L a n = Inr root"
    "combined_root (av_hasher (view_of L a)) (history_roots L items n) (committed_epochs_at L n) n (lg_arity L) = Some root"
    using combined_at [OF inv n a] by blast
  have fst_roots: "map fst (history_roots L items n) = active_algs_at L n"
    by (simp add: history_roots_def o_def)
  have act: "committed_active_algs (committed_epochs_at L n) n = active_algs_at L n"
    by (rule committed_valid(2) [OF inv n n0])
  have sorted: "bt_keys (history_roots L items n)"
  proof -
    have "distinct (map fst (filter P (lg_algs L)))" for P using i(6) by (rule distinct_map_filter)
    then have "sorted_wrt (<) (active_algs_at L n)" by (simp add: active_algs_at_def strict_sorted_iff)
    then show ?thesis by (simp add: bt_keys_def fst_roots)
  qed
  have width: "length r \<le> 64" if "(b, r) \<in> set (history_roots L items n)" for b r
  proof -
    have b: "b \<in> set (active_algs_at L n)" "r = history_root (lg_arity L) items (view_of L b) n"
      using that by (auto simp: history_roots_def)
    then show ?thesis
      using fit length_history_root [OF inv n b(1)] by (simp add: fits_def list_all_iff width_ok_def)
  qed
  have len: "length (history_roots L items n) = length (active_algs_at L n)" by (simp add: history_roots_def)
  have "coupling_authenticate cp (av_hasher (view_of L a)) n (lg_arity L) root (active_algs_at L n) cfg = Some True"
    unfolding authenticate_iff
    using n0 i(2) fit committed_valid(1) [OF inv n] act sorted width root(2) fst_roots
    by (auto simp: cp_def fits_def list_all_iff len)
  then show "\<exists>root. combined_root_at S L a n = Inr root
      \<and> coupling_authenticate cp (av_hasher (view_of L a)) n (lg_arity L) root (active_algs_at L n) cfg = Some True"
    using root(1) by blast
qed

lemma leaf_proof_at:
  assumes inv: "log_inv valid content L items" and n: "n \<le> lg_count L" and a: "a \<in> set (active_algs_at L n)"
    and w: "width_ok (av_hasher (view_of L a))" and i: "i < n"
  shows "\<exists>lp sk. log_leaf_proof_for S L a i n = Inr (Some lp) \<and> lp_leaf_hash lp = history items (view_of L a) i
    \<and> lp_index lp = i \<and> lp_tree_size lp = n \<and> lp_arity lp = lg_arity L
    \<and> mountain_skeleton (lg_arity L) n i = Some sk
    \<and> leaf_proof_verify lp (av_hasher (view_of L a)) sk (history_root (lg_arity L) items (view_of L a) n)"
proof -
  note iv = log_invD [OF inv]
  obtain v where v: "map_of (lg_algs L) a = Some v" "is_active_at v (n - 1)" and n0: "0 < n"
    using a unfolding active_algs_iff [OF inv] by blast
  have va: "view_of L a = v" using v by (simp add: view_of_def)
  have ev: "epochs_valid (length items) (av_epochs v)" by (rule alg_okD [OF iv(11) [OF v(1)]])
  note wi = active_within [OF ev n0 n [folded iv(3)] v(2)]
  have t: "tree_size v (length items) < u64_limit"
    using tree_size_le [OF ev] size_bounds(1) [OF inv, of "lg_count L"] iv(3) by simp
  have "root_for_at (storage_reader S (lg_storage L)) v a n (lg_arity L) = Inr (history_root (lg_arity L) items v n)"
    using root_at(1) [OF inv n a] v(1) n va by (simp add: log_root_for_at_def with_view_def)
  with inclusion_complete_at [OF alg_backed [OF inv v(1)] iv(2) w [unfolded va] t i wi(1) wi(1) wi(2)]
  show ?thesis
    using v(1) iv(3) by (auto simp: log_leaf_proof_for_def with_view_def va)
qed

end

section \<open>Reloading\<close>

lemma dom_hash_map: "dom (hash_map xs) = fst ` set xs"
  by (simp add: hash_map_def dom_map_of_conv_image_fst)

lemma check_metas_ok:
  "distinct (map fst ms) \<Longrightarrow> fst ` set ms \<inter> seen = {} \<Longrightarrow> fst ` set ms \<subseteq> dom hs \<Longrightarrow> check_metas hs seen ms = Inr ()"
  by (induction hs seen ms rule: check_metas.induct) auto

lemma leaf_payloads_kind:
  "list_all (\<lambda>it. item_kind it = kind) items \<Longrightarrow> items \<noteq> [] \<Longrightarrow> leaf_payloads items \<noteq> [] \<longleftrightarrow> kind = Flat"
proof (induction items)
  case (Cons it items)
  then show ?case by (cases it; cases items) (auto simp: leaf_payloads_def map_filter_simps)
qed simp

text \<open>Two logs with the same views, up to the order of the hash map.\<close>

definition same_log :: "'s merkle_log \<Rightarrow> 's merkle_log \<Rightarrow> bool" where
  "same_log L L' \<longleftrightarrow> lg_storage L' = lg_storage L \<and> lg_arity L' = lg_arity L \<and> lg_count L' = lg_count L
     \<and> map_of (lg_algs L') = map_of (lg_algs L) \<and> distinct (map fst (lg_algs L'))
     \<and> (0 < lg_count L \<longrightarrow> lg_kind L' = lg_kind L)"

context lawful_storage begin

lemma reload:
  assumes inv: "log_inv valid content L items"
    and hs: "hash_map hashers = (\<lambda>a. map_option av_hasher (map_of (lg_algs L) a))"
  shows "\<exists>L'. from_storage_with_config S (lg_storage L) hashers (lg_arity L) = Inr L' \<and> same_log L L'"
proof -
  note i = log_invD [OF inv]
  let ?s = "lg_storage L" and ?k = "lg_arity L" and ?g = "lg_count L"
  obtain ms where ms: "st_load_algorithm_metas S ?s = Inr ms" "distinct (map fst ms)" "map_of ms = so_metas (content ?s)"
    using get_metas [OF i(1)] by blast
  have dom: "fst ` set ms = dom (hash_map hashers)"
    using ms(3) i(9) hs by (auto simp: dom_map_of_conv_image_fst [symmetric])
  have none: "find (\<lambda>(alg, _). alg \<notin> fst ` set ms) hashers = None"
    unfolding find_None_iff dom dom_hash_map by (auto intro: rev_image_eqI)
  have disj: "fst ` set ms \<inter> {} = {}" "fst ` set ms \<subseteq> dom (hash_map hashers)" using dom by simp_all
  note check = check_metas_ok [OF ms(2) disj]
  define algs where "algs = map (\<lambda>(a, es). (a, view_of L a)) ms"
  have view: "\<exists>v. map_of (lg_algs L) a = Some v \<and> es = av_epochs v \<and> hash_map hashers a = Some (av_hasher v)
      \<and> reconstruct_view (storage_reader S ?s) a (av_hasher v) es ?g ?k = Inr v" if "(a, es) \<in> set ms" for a es
  proof -
    have "so_metas (content ?s) a = Some es" using that ms(2,3) by (metis map_of_eq_Some_iff)
    then obtain v where v: "map_of (lg_algs L) a = Some v" "es = av_epochs v" using i(9) by auto
    note ok = alg_okD [OF i(11) [OF v(1)]]
    have "reconstruct_view (storage_reader S ?s) a (av_hasher v) (av_epochs v) ?g ?k = Inr v"
    proof (rule reconstruct_view_backed [OF alg_backed [OF inv v(1)] i(12)])
      show "tree_size v (length items) < u64_limit"
        using tree_size_le [OF ok(3)] size_bounds(1) [OF inv, of ?g] i(3) by simp
      show "tree_size v (length items) = epochs_tree_size (av_epochs v) ?g" using i(3) by (simp add: tree_size_def)
      show "validate_epochs a (av_epochs v) ?g = Inr ()" using ok(3) i(3) by (simp add: validate_epochs_iff)
      show "holds_frontier v ?k (history items v) (tree_size v (length items))" by (rule ok(5))
    qed
    then show ?thesis using v hs by auto
  qed
  have mapE: "mapE (\<lambda>(alg, epochs). case hash_map hashers alg of None \<Rightarrow> Inl (OrphanedMetadata alg) | Some h \<Rightarrow>
         bindE (map_err log_error_of (reconstruct_view (storage_reader S ?s) alg h epochs ?g ?k))
           (\<lambda>view. Inr (alg, view))) ms = Inr algs"
    unfolding algs_def
  proof (rule mapE_Inr)
    fix p assume p: "p \<in> set ms"
    obtain a es where ae: "p = (a, es)" by (cases p)
    from view [OF p [unfolded ae]] show "(case p of (alg, epochs) \<Rightarrow> case hash_map hashers alg of
         None \<Rightarrow> Inl (OrphanedMetadata alg) | Some h \<Rightarrow>
         bindE (map_err log_error_of (reconstruct_view (storage_reader S ?s) alg h epochs ?g ?k))
           (\<lambda>view. Inr (alg, view))) = Inr (case p of (a, es) \<Rightarrow> (a, view_of L a))"
      by (auto simp: ae view_of_def)
  qed
  let ?L = "\<lparr>lg_storage = ?s, lg_arity = ?k, lg_algs = algs, lg_count = ?g,
      lg_kind = (if length (leaf_payloads items) > 0 then Flat else Subtree)\<rparr>"
  have "from_storage_with_config S ?s hashers ?k = Inr ?L"
    unfolding from_storage_with_config_def Let_def
    using i(2) ms(1) none get_count [OF i(1)] get_len [OF i(1)] i(7,8) mapE by (simp add: check)
  moreover have "map_of algs = map_of (lg_algs L)"
  proof (rule ext)
    fix a
    have "map_of algs a = map_option (\<lambda>_. view_of L a) (map_of ms a)"
      unfolding algs_def by (induction ms) auto
    also have "\<dots> = map_of (lg_algs L) a"
      unfolding ms(3) i(9) by (cases "map_of (lg_algs L) a") (simp_all add: view_of_def)
    finally show "map_of algs a = map_of (lg_algs L) a" .
  qed
  moreover have "distinct (map fst algs)" using ms(2) by (simp add: algs_def case_prod_beta o_def)
  moreover have "lg_kind ?L = lg_kind L" if "0 < ?g"
  proof -
    have "items \<noteq> []" using that i(3) by auto
    from leaf_payloads_kind [OF i(5) this] show ?thesis by (cases "lg_kind L") auto
  qed
  ultimately show ?thesis by (auto simp: same_log_def)
qed

end

section \<open>Properties\<close>

lemma toy_algs:
  assumes "log_shape L = toy_shape"
  obtains v0 v1 where "lg_algs L = [(0, v0), (1, v1)]" "av_hasher v0 = tagged_hasher" "av_hasher v1 = tagged_hasher"
    "av_epochs v0 = [(0, 2)]" "av_epochs v1 = [(1, u64_max)]" "lg_count L = 2" "lg_arity L = 2" "lg_kind L = Flat"
  using assms by (auto simp: log_shape_def toy_shape_def map_eq_Cons_conv)

lemma toy_fits:
  assumes "log_shape L = toy_shape"
  shows "fits default_config L 2" "active_algs_at L 2 = [0, 1]" "view_of L 1 \<in> {v. av_hasher v = tagged_hasher \<and> av_epochs v = [(1, u64_max)]}"
proof -
  obtain v0 v1 where L: "lg_algs L = [(0, v0), (1, v1)]" "av_hasher v0 = tagged_hasher" "av_hasher v1 = tagged_hasher"
    "av_epochs v0 = [(0, 2)]" "av_epochs v1 = [(1, u64_max)]" by (rule toy_algs [OF assms])
  have big: "2 < u64_max" by (simp add: u64_max_def)
  show act: "active_algs_at L 2 = [0, 1]" using L big by (simp add: active_algs_at_def is_active_at_def)
  show "view_of L 1 \<in> {v. av_hasher v = tagged_hasher \<and> av_epochs v = [(1, u64_max)]}"
    using L by (simp add: view_of_def)
  have "committed_epochs_at L 2 = [(0, [(0, 2)]), (1, [(1, u64_max)])]"
    using L big by (simp add: committed_epochs_at_def epochs_at_def map_filter_simps Let_def)
  then show "fits default_config L 2"
    using L act by (simp add: fits_def default_config_def view_of_def tagged_width_ok)
qed

text \<open>
  C2. From append to verifier: for every earlier size, every algorithm active there and every
  index below it, the log returns a coupling proof, a combined root and a leaf proof, and the
  coupled verifier accepts them: the leaf hash is the item's digest where the algorithm was
  active and the null digest elsewhere.
\<close>

theorem coupled_proofs_complete:
  assumes "reachable_log memory_ops mem_new k L items" "n \<le> lg_count L"
    and "a \<in> set (active_algs_at L n)" "fits cfg L n" "i < n"
  shows "\<exists>cp root lp sk. coupling_proof_at memory_ops L n = Inr cp \<and> combined_root_at memory_ops L a n = Inr root
    \<and> log_leaf_proof_for memory_ops L a i n = Inr (Some lp) \<and> lp_leaf_hash lp = history items (view_of L a) i
    \<and> mountain_skeleton (lg_arity L) n i = Some sk
    \<and> verify_inclusion_with_coupling (av_hasher (view_of L a)) a (lp_leaf_hash lp) i n (lg_arity L) sk
        (lp_path lp) cp root (active_algs_at L n) cfg = Some True"
proof -
  have inv: "log_inv mem_wf mem_abs L items" by (rule mem.reachable_inv [OF assms(1) mem_new_ok])
  let ?h = "av_hasher (view_of L a)" and ?algs = "active_algs_at L n"
  let ?cp = "\<lparr>cp_active_roots = history_roots L items n, cp_alg_epochs = committed_epochs_at L n\<rparr>"
  obtain v where v: "map_of (lg_algs L) a = Some v" "is_active_at v (n - 1)" "0 < n"
    using assms(3) unfolding active_algs_iff [OF inv] by blast
  have va: "view_of L a = v" using v(1) by (simp add: view_of_def)
  obtain root where root: "combined_root_at memory_ops L a n = Inr root"
    "coupling_authenticate ?cp ?h n (lg_arity L) root ?algs cfg = Some True"
    using mem.coupling_authentic(2) [OF inv assms(2-4)] by blast
  have w: "width_ok ?h" using assms(3,4) by (simp add: fits_def list_all_iff)
  obtain lp sk where lp: "log_leaf_proof_for memory_ops L a i n = Inr (Some lp)"
    "lp_leaf_hash lp = history items (view_of L a) i" "mountain_skeleton (lg_arity L) n i = Some sk"
    "leaf_proof_verify lp ?h sk (history_root (lg_arity L) items (view_of L a) n)"
    using mem.leaf_proof_at [OF inv assms(2,3) w assms(5)] by blast
  have "map_of (history_roots L items n) a = Some (history_root (lg_arity L) items (view_of L a) n)"
    using assms(3) by (simp add: history_roots_def map_of_map_restrict)
  then have cv: "coupling_verify ?cp ?h a n (lg_arity L) root ?algs cfg
      = Some (Some (history_root (lg_arity L) items (view_of L a) n))"
    unfolding coupling_verify_iff using root(2) by simp
  have last: "n - 1 < n" using v(3) by simp
  have "epochs_at v n \<noteq> None" by (rule committed_valid(4) [OF inv assms(2) last v(1,2)])
  then have act: "committed_active_at (cp_alg_epochs ?cp) a i = Some (is_active_at v i)"
    using committed_valid(3) [OF inv assms(2,5) v(1)] by simp
  have null: "lp_leaf_hash lp = hs_null ?h" if "\<not> is_active_at v i"
    using that lp(2) va by (simp add: history_inactive)
  have "verify_inclusion_with_coupling ?h a (lp_leaf_hash lp) i n (lg_arity L) sk (lp_path lp) ?cp root ?algs cfg
      = Some True"
    using cv act null lp(4) by (cases "is_active_at v i") (simp_all add: verify_inclusion_with_coupling_def leaf_proof_verify_def)
  then show ?thesis using mem.coupling_authentic(1) [OF inv assms(2-4)] root(1) lp(1-3) by blast
qed

theorem coupled_proofs_complete_witness:
  "\<exists>L cp root lp sk. log_shape L = toy_shape \<and> coupling_proof_at memory_ops L 2 = Inr cp
    \<and> combined_root_at memory_ops L 1 2 = Inr root \<and> log_leaf_proof_for memory_ops L 1 0 2 = Inr (Some lp)
    \<and> lp_leaf_hash lp = hs_null tagged_hasher \<and> mountain_skeleton 2 2 0 = Some sk
    \<and> verify_inclusion_with_coupling tagged_hasher 1 (lp_leaf_hash lp) 0 2 2 sk (lp_path lp) cp root [0, 1]
        default_config = Some True"
proof -
  obtain L where L: "run_state 2 toy_shape toy_items L" using toy_run by blast
  then have re: "reachable_log memory_ops mem_new 2 L toy_items" and sh: "log_shape L = toy_shape"
    by (simp_all add: run_state_def)
  have n: "2 \<le> lg_count L" and k: "lg_arity L = 2" using toy_algs [OF sh] by (metis le_refl)+
  note f = toy_fits [OF sh]
  have a: "1 \<in> set (active_algs_at L 2)" unfolding f(2) by simp
  have "\<not> is_active_at (view_of L 1) 0" using f(3) by (simp add: is_active_at_def)
  then have "history toy_items (view_of L 1) 0 = hs_null tagged_hasher" using f(3) by (simp add: history_inactive)
  with coupled_proofs_complete [OF re n a f(1), of 0] show ?thesis
    unfolding k f(2) using sh f(3) by auto
qed

text \<open>
  The live root is the historical root of the current size: the root computed from the views
  in memory is the one recomputed from the store, for every algorithm active at the last
  position; for a frozen algorithm the live root still exists where the historical one is refused.
\<close>

theorem live_root_is_historical:
  assumes "reachable_log memory_ops mem_new k L items" "0 < lg_count L" "map_of (lg_algs L) a = Some v"
  shows "\<exists>r. (live_combined_root L a :: memory_storage_error log_error + digest) = Inr r
    \<and> combined_root_at memory_ops L a (lg_count L) =
        (if active_algs_at L (lg_count L) = [] then Inl NoActiveAlgorithms
         else if a \<notin> set (active_algs_at L (lg_count L)) then Inl (FrozenAlgorithm a) else Inr r)
    \<and> (\<forall>b \<in> set (active_algs_at L (lg_count L)).
          (log_root_for L b :: memory_storage_error log_error + digest) = log_root_for_at memory_ops L b (lg_count L))"
proof -
  have inv: "log_inv mem_wf mem_abs L items" by (rule mem.reachable_inv [OF assms(1) mem_new_ok])
  obtain r where r: "(live_combined_root L a :: memory_storage_error log_error + digest) = Inr r"
    "combined_root (av_hasher v) (history_roots L items (lg_count L)) (committed_epochs_at L (lg_count L))
       (lg_count L) (lg_arity L) = Some r"
    using mem.live_combined [OF inv assms(3,2)] by blast
  have "combined_root_at memory_ops L a (lg_count L) =
        (if active_algs_at L (lg_count L) = [] then Inl NoActiveAlgorithms
         else if a \<notin> set (active_algs_at L (lg_count L)) then Inl (FrozenAlgorithm a) else Inr r)"
    using assms(2,3) r(2) by (simp add: combined_root_at_def with_view_def mem.member_roots [OF inv le_refl])
  then show ?thesis
    using r(1) mem.root_at(1) [OF inv le_refl] by (simp add: mem.live_root_of [OF inv])
qed

theorem live_root_is_historical_witness:
  "\<exists>L r. log_shape L = toy_shape \<and> (live_combined_root L 1 :: memory_storage_error log_error + digest) = Inr r
    \<and> combined_root_at memory_ops L 1 2 = Inr r"
proof -
  obtain L where L: "run_state 2 toy_shape toy_items L" using toy_run by blast
  then have re: "reachable_log memory_ops mem_new 2 L toy_items" and sh: "log_shape L = toy_shape"
    by (simp_all add: run_state_def)
  obtain v0 v1 where v: "lg_algs L = [(0, v0), (1, v1)]" "lg_count L = 2" by (rule toy_algs [OF sh])
  then have "map_of (lg_algs L) 1 = Some v1" "0 < lg_count L" by simp_all
  from live_root_is_historical [OF re this(2,1)] show ?thesis
    unfolding v(2) toy_fits(2) [OF sh] using sh by auto
qed

text \<open>
  C16. Reloading gives the log back: a reachable log reopened from its own store with the same
  hashers has the same views, count, arity and (once anything is appended) kind.
\<close>

theorem reload_roundtrip:
  assumes "reachable_log memory_ops mem_new k L items"
    and "hash_map hashers = (\<lambda>a. map_option av_hasher (map_of (lg_algs L) a))"
  shows "\<exists>L'. from_storage_with_config memory_ops (lg_storage L) hashers (lg_arity L) = Inr L' \<and> same_log L L'"
  by (rule mem.reload [OF mem.reachable_inv [OF assms(1) mem_new_ok] assms(2)])

theorem reload_roundtrip_witness:
  "\<exists>L L'. log_shape L = toy_shape \<and> same_log L L'
    \<and> from_storage memory_ops (lg_storage L) [(0, tagged_hasher), (1, tagged_hasher)] = Inr L'"
proof -
  obtain L where L: "run_state 2 toy_shape toy_items L" using toy_run by blast
  then have re: "reachable_log memory_ops mem_new 2 L toy_items" and sh: "log_shape L = toy_shape"
    by (simp_all add: run_state_def)
  obtain v0 v1 where v: "lg_algs L = [(0, v0), (1, v1)]" "av_hasher v0 = tagged_hasher" "av_hasher v1 = tagged_hasher"
    and k: "lg_arity L = 2" by (rule toy_algs [OF sh])
  have "hash_map [(0, tagged_hasher), (1, tagged_hasher)] = (\<lambda>a. map_option av_hasher (map_of (lg_algs L) a))"
    by (simp add: hash_map_def v fun_eq_iff)
  from reload_roundtrip [OF re this] show ?thesis
    unfolding k using sh by (auto simp: from_storage_def)
qed

text \<open>
  The log after \<open>n\<close> appends of the payload \<open>null\<close> at arity 2, under a hasher with
  \<^verbatim>\<open>leaf(b"null") == null()\<close>.  After two, the frontier holds one null peak of height 1, which the
  carry did not store.
\<close>

definition null_log :: "hasher \<Rightarrow> nat \<Rightarrow> (alg_id \<times> u64 \<times> u32 \<Rightarrow> digest option) \<Rightarrow> coord list \<Rightarrow>
    memory_storage merkle_log" where
  "null_log h n nodes coords =
     \<lparr>lg_storage = \<lparr>ms_leaves = replicate n null_bytes, ms_nodes = nodes, ms_metas = [(0, [(0, u64_max)])],
        ms_count = n\<rparr>,
      lg_arity = 2,
      lg_algs = [(0, \<lparr>av_hasher = h, av_epochs = [(0, u64_max)], av_frontier = map (\<lambda>_. hs_null h) coords,
        av_coords = coords\<rparr>)],
      lg_count = n, lg_kind = Flat\<rparr>"

definition null_pair :: "hasher \<Rightarrow> memory_storage merkle_log" where
  "null_pair h = null_log h 2 [(0, 0, 0) \<mapsto> hs_null h, (0, 1, 0) \<mapsto> hs_null h] [(0, 1)]"

lemma pair_frontiers: "frontier_for_size 0 2 = []" "frontier_for_size 2 2 = [(0, 1)]"
  by (simp_all add: frontier_for_size_def frontier_loop.simps grow_cap.simps checked_mul_def u64_limit_def)

lemma pair_reductions: "reduction_count 0 2 = Some 0" "reduction_count (Suc 0) 2 = Some (Suc 0)"
  by (simp_all add: reduction_count_def strip_factor.simps)

lemma null_log_new: "log_new memory_ops mem_new h 2 = Inr (null_log h 0 Map.empty [])"
  by (simp add: log_new_def add_algorithm_def arity_ok_def memory_ops_def mem_apply_def mem_new_def
      put_meta_def pair_frontiers null_log_def Let_def)

lemma null_log_first:
  assumes "hs_leaf h null_bytes = hs_null h"
  shows "append_leaf memory_ops (null_log h 0 Map.empty []) null_bytes
    = Inr (null_log h 1 [(0, 0, 0) \<mapsto> hs_null h] [(0, 0)])"
  by (simp add: append_leaf_def null_log_def log_capacity_def is_active_def epochs_open_def item_digest_def
      is_active_at_def u64_max_def assms carry_def pair_reductions memory_ops_def mem_apply_def wrapping_add_def write_nodes_def
      write_node_def Let_def)

lemma pop_pair: "pop_children alg 2 [a, b] [c, d] [] [] = Inr ([], [], [a, b], [c, d])"
  by (simp add: numeral_2_eq_2)

lemma upt_pair: "[0..<2] = [0, Suc 0]"
  by (simp add: numeral_2_eq_2)

lemma null_log_second:
  assumes "hs_leaf h null_bytes = hs_null h"
  shows "append_leaf memory_ops (null_log h 1 [(0, 0, 0) \<mapsto> hs_null h] [(0, 0)]) null_bytes = Inr (null_pair h)"
proof -
  have nary: "nary_mr h [hs_null h, hs_null h] = hs_null h" by (simp add: nary_mr_uniform uniform_def)
  have two: "Suc (Suc 0) = 2" "replicate 2 null_bytes = [null_bytes, null_bytes]" by (simp_all add: numeral_2_eq_2)
  show ?thesis
    by (simp add: append_leaf_def null_pair_def null_log_def log_capacity_def is_active_def epochs_open_def item_digest_def
      is_active_at_def u64_max_def assms carry_def pair_reductions memory_ops_def mem_apply_def wrapping_add_def write_nodes_def
      write_node_def Let_def pop_pair nary two)
qed

text \<open>
  C36. A payload the documentation calls inert breaks the log: for every hasher with the documented
  \<^verbatim>\<open>leaf(b"null") == null()\<close>, two appends of \<^verbatim>\<open>null\<close> at arity 2 succeed, and then the leaf proof and the
  combined root fail with a corruption error and the log cannot be reopened from its store,
  because the carry does not store a parent equal to the null digest and the readers expect it.
\<close>

theorem null_leaves_corrupt:
  assumes "hs_leaf h null_bytes = hs_null h"
  shows "\<exists>L1 L2 L. log_new memory_ops mem_new h 2 = Inr L1 \<and> append_leaf memory_ops L1 null_bytes = Inr L2
    \<and> append_leaf memory_ops L2 null_bytes = Inr L
    \<and> log_leaf_proof_for memory_ops L 0 0 2 = Inl (CorruptedMetadata 0 (EngineReason (MissingInternalNode 0 1)))
    \<and> combined_root_at memory_ops L 0 2 = Inl (CorruptedMetadata 0 (EngineReason (MissingInternalNode 0 1)))
    \<and> from_storage memory_ops (lg_storage L) [(0, h)]
        = Inl (CorruptedMetadata 0 (EngineReason (MissingFrontierNode 0 1)))"
proof (intro exI conjI)
  show "log_new memory_ops mem_new h 2 = Inr (null_log h 0 Map.empty [])" by (rule null_log_new)
  show "append_leaf memory_ops (null_log h 0 Map.empty []) null_bytes
      = Inr (null_log h 1 [(0, 0, 0) \<mapsto> hs_null h] [(0, 0)])" by (rule null_log_first [OF assms])
  show "append_leaf memory_ops (null_log h 1 [(0, 0, 0) \<mapsto> hs_null h] [(0, 0)]) null_bytes = Inr (null_pair h)"
    by (rule null_log_second [OF assms])
  show "log_leaf_proof_for memory_ops (null_pair h) 0 0 2
      = Inl (CorruptedMetadata 0 (EngineReason (MissingInternalNode 0 1)))"
    by (simp add: log_leaf_proof_for_def null_pair_def null_log_def with_view_def leaf_proof_of_def inclusion_proof_def
        tree_size_def epochs_tree_size_def epochs_open_def pair_frontiers bisect_to_height.simps get_node_hashes_def
        get_node_hash_def checked_pow_def checked_add_def u64_limit_def active_range_def storage_reader_def
        memory_ops_def mem_get_node_def Let_def u64_max_def upt_pair)
  show "combined_root_at memory_ops (null_pair h) 0 2
      = Inl (CorruptedMetadata 0 (EngineReason (MissingInternalNode 0 1)))"
    by (simp add: combined_root_at_def null_pair_def null_log_def with_view_def active_algs_at_def is_active_at_def
        member_roots_at_def log_root_for_at_def root_for_at_def effective_size_at_def first_activation_def
        pair_frontiers get_node_hashes_def
        get_node_hash_def checked_pow_def checked_add_def u64_limit_def active_range_def storage_reader_def
        memory_ops_def mem_get_node_def Let_def u64_max_def)
  show "from_storage memory_ops (lg_storage (null_pair h)) [(0, h)]
        = Inl (CorruptedMetadata 0 (EngineReason (MissingFrontierNode 0 1)))"
    by (simp add: from_storage_def from_storage_with_config_def arity_ok_def null_pair_def null_log_def hash_map_def
        reconstruct_view_def validate_epochs_def epochs_tree_size_def epochs_open_def pair_frontiers active_range_def
        storage_reader_def memory_ops_def mem_get_node_def mem_load_algorithm_metas_def mem_append_count_def
        mem_len_def Let_def u64_max_def)
qed

text \<open>A hasher without domain separation, of the kind the documentation describes.\<close>

definition plain_hasher :: hasher where
  "plain_hasher = \<lparr>hs_leaf = (\<lambda>d. [sum_list d]), hs_node = (\<lambda>cs. [sum_list (concat cs)]),
     hs_empty = [0], hs_hash = (\<lambda>d. [sum_list d])\<rparr>"

theorem null_leaves_corrupt_witness:
  "\<exists>L. log_leaf_proof_for memory_ops L 0 0 2 = Inl (CorruptedMetadata 0 (EngineReason (MissingInternalNode 0 1)))
    \<and> (\<exists>L2. append_leaf memory_ops L2 null_bytes = Inr L)
    \<and> from_storage memory_ops (lg_storage L) [(0, plain_hasher)]
        = Inl (CorruptedMetadata 0 (EngineReason (MissingFrontierNode 0 1)))"
proof -
  have "hs_leaf plain_hasher null_bytes = hs_null plain_hasher" by (simp add: plain_hasher_def hs_null_def)
  from null_leaves_corrupt [OF this] show ?thesis by blast
qed

section \<open>A short run over any store\<close>

context lawful_storage begin

text \<open>A log of one algorithm and one leaf, over any store that keeps the contract.\<close>

lemma one_leaf_log:
  assumes s: "valid s" "content s = empty_store"
  shows "\<exists>L. reachable_log S s 2 L [LeafItem [1]] \<and> lg_count L = 1 \<and> lg_kind L = Flat
    \<and> map (\<lambda>(a, v). (a, av_hasher v)) (lg_algs L) = [(0, tagged_hasher)]
    \<and> hash_map [(0, tagged_hasher)] = (\<lambda>a. map_option av_hasher (map_of (lg_algs L) a))"
proof -
  have ar: "arity_ok 2" by (simp add: arity_ok_def)
  obtain L0 where L0: "log_new S s tagged_hasher 2 = Inr L0" "log_inv valid content L0 []"
    using inv_new [OF s ar tagged_null_free] by blast
  have l0: "lg_count L0 = 0" "lg_kind L0 = Flat"
    "map (\<lambda>(a, v). (a, av_hasher v, av_epochs v)) (lg_algs L0) = [(0, tagged_hasher, [(0, u64_max)])]"
    using L0(1) by (auto simp: log_new_def add_algorithm_def bindE_Inr_iff Let_def split: if_splits)
  have safe: "safe_item (LeafItem [1]) L0"
    using l0(3) by (auto simp: safe_item_def list_all_iff tagged_safe)
  have "list_ex (\<lambda>(_, v). is_active v) (lg_algs L0)"
    using l0(3) by (auto simp: is_active_def epochs_open_def)
  then obtain L where L: "append_leaf S L0 [1] = Inr L"
    using inv_append_leaf [OF L0(2) safe] l0(1) by (auto simp: log_capacity_def)
  have re: "reachable_log S s 2 L [LeafItem [1]]"
    using reachable_log.step [OF reachable_log.init [OF tagged_null_free L0(1)] log_step.leaf [OF safe L]] by simp
  have val: "(\<lambda>h. hs_leaf h [1]) = item_value (LeafItem [1])" by (simp add: fun_eq_iff)
  have algs: "lg_count L = 1 \<and> lg_kind L = Flat \<and> lg_algs L = append_algs (lg_arity L0) [] (LeafItem [1]) (lg_algs L0)"
    using L l0 inv_build [OF L0(2) safe]
    by (auto simp: append_leaf_def bindE_Inr_iff Let_def val split: if_splits)
  moreover have "map (\<lambda>(a, v). (a, av_hasher v)) (append_algs k is it xs) = map (\<lambda>(a, v). (a, av_hasher v)) xs"
    for k "is" it xs by (induction xs) (auto simp: append_algs_def append_view_def)
  moreover have "map (\<lambda>(a, v). (a, av_hasher v)) (lg_algs L0) = [(0, tagged_hasher)]" using l0(3) by auto
  ultimately have l: "map (\<lambda>(a, v). (a, av_hasher v)) (lg_algs L) = [(0, tagged_hasher)]" by simp
  have "hash_map [(0, tagged_hasher)] = (\<lambda>a. map_option av_hasher (map_of (lg_algs L) a))"
    using l by (auto simp: hash_map_def fun_eq_iff)
  show ?thesis
    by (intro exI [of _ L] conjI) (rule re, simp add: algs, simp add: algs, rule l, rule \<open>hash_map _ = _\<close>)
qed

end

end
