(* ===== verification/Poly_Log_Past.thy ===== *)
theory Poly_Log_Past
  imports Poly_Log_Correct
begin

text \<open>
  The append-only promise of the log: no operation changes what the log answers about a size
  below its count.
\<close>

section \<open>The past is fixed\<close>

text \<open>
  Every step of the log extends its history and keeps, for every algorithm, the hasher and the
  activity of every position below the count.
\<close>

definition extends :: "'s merkle_log \<Rightarrow> item list \<Rightarrow> 's merkle_log \<Rightarrow> item list \<Rightarrow> bool" where
  "extends L items L' items' \<longleftrightarrow>
     lg_arity L' = lg_arity L \<and> lg_count L \<le> lg_count L' \<and> (\<exists>more. items' = items @ more)
     \<and> (\<forall>a v. map_of (lg_algs L) a = Some v \<longrightarrow>
          (\<exists>v'. map_of (lg_algs L') a = Some v' \<and> av_hasher v' = av_hasher v
            \<and> (\<forall>n < lg_count L. epochs_at v' n = epochs_at v n)
            \<and> (\<forall>i < lg_count L. is_active_at v' i = is_active_at v i)))
     \<and> (\<forall>a v'. map_of (lg_algs L) a = None \<longrightarrow> map_of (lg_algs L') a = Some v' \<longrightarrow>
          (\<forall>n < lg_count L. epochs_at v' n = None) \<and> (\<forall>i < lg_count L. \<not> is_active_at v' i))"

lemma extends_refl: "extends L items L items"
  by (auto simp: extends_def)

lemma extends_trans:
  assumes "extends L items L1 items1" "extends L1 items1 L2 items2"
  shows "extends L items L2 items2"
proof -
  note e1 = assms(1) [unfolded extends_def] and e2 = assms(2) [unfolded extends_def]
  have le: "lg_count L \<le> lg_count L1" using e1 by blast
  have "\<exists>v2. map_of (lg_algs L2) a = Some v2 \<and> av_hasher v2 = av_hasher v
      \<and> (\<forall>n < lg_count L. epochs_at v2 n = epochs_at v n) \<and> (\<forall>i < lg_count L. is_active_at v2 i = is_active_at v i)"
    if "map_of (lg_algs L) a = Some v" for a v
  proof -
    obtain v1 where v1: "map_of (lg_algs L1) a = Some v1" "av_hasher v1 = av_hasher v"
      "\<forall>n < lg_count L. epochs_at v1 n = epochs_at v n" "\<forall>i < lg_count L. is_active_at v1 i = is_active_at v i"
      using e1 \<open>map_of (lg_algs L) a = Some v\<close> by blast
    obtain v2 where "map_of (lg_algs L2) a = Some v2" "av_hasher v2 = av_hasher v1"
      "\<forall>n < lg_count L1. epochs_at v2 n = epochs_at v1 n" "\<forall>i < lg_count L1. is_active_at v2 i = is_active_at v1 i"
      using e2 v1(1) by blast
    then show ?thesis using v1 le by auto
  qed
  moreover have "(\<forall>n < lg_count L. epochs_at v2 n = None) \<and> (\<forall>i < lg_count L. \<not> is_active_at v2 i)"
    if "map_of (lg_algs L) a = None" "map_of (lg_algs L2) a = Some v2" for a v2
  proof (cases "map_of (lg_algs L1) a")
    case None
    then show ?thesis using e2 that(2) le by (meson order_less_le_trans)
  next
    case (Some v1)
    then have 1: "(\<forall>n < lg_count L. epochs_at v1 n = None) \<and> (\<forall>i < lg_count L. \<not> is_active_at v1 i)"
      using e1 that(1) by blast
    have "(\<forall>n < lg_count L1. epochs_at v2 n = epochs_at v1 n) \<and> (\<forall>i < lg_count L1. is_active_at v2 i = is_active_at v1 i)"
      using e2 Some that(2) by fastforce
    then show ?thesis using 1 le by auto
  qed
  ultimately show ?thesis using e1 e2 by (auto simp: extends_def)
qed

lemma epochs_at_loop_close:
  "epochs_sorted b (es @ [(s, u64_max)]) \<Longrightarrow> n < m \<Longrightarrow> m < u64_max \<Longrightarrow>
    epochs_at_loop n (es @ [(s, m)]) = epochs_at_loop n (es @ [(s, u64_max)])"
  by (induction es arbitrary: b) auto

lemma epochs_at_loop_open:
  "epochs_sorted b es \<Longrightarrow> n < m \<Longrightarrow> epochs_at_loop n (es @ [(m, u64_max)]) = epochs_at_loop n es"
  by (induction b es rule: epochs_sorted.induct) auto

lemma closed_view_past:
  assumes "epochs_valid m (av_epochs v)" "is_active v" "m < u64_max" "n < m"
  defines "es \<equiv> butlast (av_epochs v) @ [(fst (last (av_epochs v)), m)]"
  shows "epochs_at (v\<lparr>av_epochs := es\<rparr>) n = epochs_at v n" "is_active_at (v\<lparr>av_epochs := es\<rparr>) n = is_active_at v n"
proof -
  have ne: "av_epochs v \<noteq> []" and l: "snd (last (av_epochs v)) = u64_max"
    using assms(2) by (simp_all add: is_active_def epochs_open_def)
  then have split: "av_epochs v = butlast (av_epochs v) @ [(fst (last (av_epochs v)), u64_max)]"
    by (metis append_butlast_last_id prod.collapse)
  have "epochs_sorted 0 (butlast (av_epochs v) @ [(fst (last (av_epochs v)), u64_max)])"
    using epochs_validD(2) [OF assms(1)] split by simp
  from epochs_at_loop_close [OF this assms(4,3)] split
  show "epochs_at (v\<lparr>av_epochs := es\<rparr>) n = epochs_at v n" by (simp add: epochs_at_def es_def)
  have "list_ex P (av_epochs v) \<longleftrightarrow> list_ex P (butlast (av_epochs v)) \<or> P (fst (last (av_epochs v)), u64_max)" for P
    by (subst split) simp
  then show "is_active_at (v\<lparr>av_epochs := es\<rparr>) n = is_active_at v n"
    using assms(3,4) by (simp add: is_active_at_def es_def)
qed

lemma opened_view_past:
  assumes "epochs_valid m (av_epochs v)" "n < m"
  shows "epochs_at (v\<lparr>av_epochs := av_epochs v @ [(m, u64_max)], av_frontier := f, av_coords := c\<rparr>) n = epochs_at v n"
    "is_active_at (v\<lparr>av_epochs := av_epochs v @ [(m, u64_max)], av_frontier := f, av_coords := c\<rparr>) n = is_active_at v n"
  using epochs_at_loop_open [OF epochs_validD(2) [OF assms(1)] assms(2)] assms(2)
  by (simp_all add: epochs_at_def is_active_at_def)

lemma extends_update:
  assumes "\<And>v. map_of (lg_algs L) alg = Some v \<Longrightarrow> av_hasher w = av_hasher v
      \<and> (\<forall>n < lg_count L. epochs_at w n = epochs_at v n \<and> is_active_at w n = is_active_at v n)"
    and "map_of (lg_algs L) alg = None \<Longrightarrow> \<forall>n < lg_count L. epochs_at w n = None \<and> \<not> is_active_at w n"
  shows "extends L items (L\<lparr>lg_storage := s, lg_algs := AList.update alg w (lg_algs L)\<rparr>) items"
  using assms by (auto simp: extends_def update_conv')

lemma extends_append:
  "extends L items (L\<lparr>lg_storage := s, lg_algs := append_algs k items it (lg_algs L), lg_count := lg_count L + 1,
     lg_kind := kind\<rparr>) (items @ [it])"
  by (auto simp: extends_def map_of_append_algs epochs_at_def)

context lawful_storage begin

lemma step_extends:
  assumes inv: "log_inv valid content L items" and st: "log_step S (L, items) (L', items')"
  shows "extends L items L' items'"
  using st
proof cases
  case (add h alg)
  let ?w = "\<lparr>av_hasher = h, av_epochs = [(lg_count L, u64_max)],
      av_frontier = replicate (length (frontier_for_size (lg_count L) (lg_arity L))) (hs_null h),
      av_coords = frontier_for_size (lg_count L) (lg_arity L)\<rparr>"
  obtain s where "map_of (lg_algs L) alg = None"
    "L' = L\<lparr>lg_storage := s, lg_algs := AList.update alg ?w (lg_algs L)\<rparr>"
    using add(4) by (auto simp: add_algorithm_def bindE_Inr_iff Let_def split: if_splits)
  then show ?thesis
    using add(1) by (auto intro!: extends_update simp: epochs_at_def is_active_at_def)
next
  case (remove alg)
  obtain v s where v: "map_of (lg_algs L) alg = Some v" "is_active v"
    "L' = L\<lparr>lg_storage := s, lg_algs := AList.update alg
       (v\<lparr>av_epochs := butlast (av_epochs v) @ [(fst (last (av_epochs v)), lg_count L)]\<rparr>) (lg_algs L)\<rparr>"
    using remove(2)
    by (auto simp: remove_algorithm_def bindE_Inr_iff Let_def is_active_def epochs_open_def
        split: if_splits option.splits)
  have ev: "epochs_valid (lg_count L) (av_epochs v)"
    using alg_okD(3) [OF log_invD(11) [OF inv v(1)]] log_invD(3) [OF inv] by simp
  note past = closed_view_past [OF ev v(2) size_bounds(3) [OF inv le_refl]]
  show ?thesis unfolding v(3) remove(1) by (rule extends_update) (simp_all add: v(1) past)
next
  case (resume alg)
  obtain v s f c where v: "map_of (lg_algs L) alg = Some v"
    "L' = L\<lparr>lg_storage := s, lg_algs := AList.update alg
       (v\<lparr>av_epochs := av_epochs v @ [(lg_count L, u64_max)], av_frontier := f, av_coords := c\<rparr>) (lg_algs L)\<rparr>"
    using resume(2)
    by (auto simp: resume_algorithm_def bindE_Inr_iff Let_def split: if_splits option.splits)
  have ev: "epochs_valid (lg_count L) (av_epochs v)"
    using alg_okD(3) [OF log_invD(11) [OF inv v(1)]] log_invD(3) [OF inv] by simp
  show ?thesis unfolding v(2) resume(1) by (rule extends_update) (simp_all add: v(1) opened_view_past [OF ev])
next
  case (leaf data)
  have "(\<lambda>h. hs_leaf h data) = item_value (LeafItem data)" by (simp add: fun_eq_iff)
  then obtain s where "L' = L\<lparr>lg_storage := s, lg_algs := append_algs (lg_arity L) items (LeafItem data) (lg_algs L),
      lg_count := lg_count L + 1, lg_kind := Flat\<rparr>"
    using leaf(3) inv_build [OF inv leaf(2)]
    by (auto simp: append_leaf_def bindE_Inr_iff Let_def split: if_splits)
  then show ?thesis unfolding leaf(1) by (simp only: extends_append)
next
  case (subtree t)
  have "(\<lambda>h. evaluate h t) = item_value (TreeItem t)" by (simp add: fun_eq_iff)
  then obtain s where "L' = L\<lparr>lg_storage := s, lg_algs := append_algs (lg_arity L) items (TreeItem t) (lg_algs L),
      lg_count := lg_count L + 1, lg_kind := Subtree\<rparr>"
    using subtree(3) inv_build [OF inv subtree(2)]
    by (auto simp: append_subtree_def bindE_Inr_iff Let_def split: if_splits)
  then show ?thesis unfolding subtree(1) by (simp only: extends_append)
qed

lemma steps_extend:
  assumes "(log_step S)\<^sup>*\<^sup>* p q" "log_inv valid content (fst p) (snd p)"
  shows "extends (fst p) (snd p) (fst q) (snd q) \<and> log_inv valid content (fst q) (snd q)"
  using assms
proof (induction rule: rtranclp_induct)
  case base
  then show ?case by (simp add: extends_refl)
next
  case (step q r)
  have q: "extends (fst p) (snd p) (fst q) (snd q)" "log_inv valid content (fst q) (snd q)" using step by blast+
  have st: "log_step S (fst q, snd q) (fst r, snd r)" using step(2) by simp
  show ?case using extends_trans [OF q(1) step_extends [OF q(2) st]] step_inv [OF q(2) st] by blast
qed

end

section \<open>What a past size answers\<close>

lemma bt_map_of_eq: "bt_keys xs \<Longrightarrow> bt_keys ys \<Longrightarrow> map_of xs = map_of ys \<Longrightarrow> xs = ys"
proof -
  assume k: "bt_keys xs" "bt_keys ys" and m: "map_of xs = map_of ys"
  note d = bt_keys_distinct [OF k(1)] bt_keys_distinct [OF k(2)]
  have s: "set xs = set ys" using map_of_eq_Some_iff [OF d(1)] map_of_eq_Some_iff [OF d(2)] m by auto
  have "inj_on fst (set xs \<union> set ys)" using d(1) s by (simp add: distinct_map)
  then show "xs = ys"
    using k d s by (intro map_sorted_distinct_set_unique [where f = fst]) (simp_all add: bt_keys_def strict_sorted_iff)
qed

lemma history_root_extends:
  assumes "av_hasher v' = av_hasher v" "\<And>i. i < n \<Longrightarrow> is_active_at v' i = is_active_at v i"
    and "n \<le> length items" "2 \<le> k" "n < u64_limit"
  shows "history_root k (items @ rest) v' n = history_root k items v n"
proof -
  have "history (items @ rest) v' i = history items v i" if "i < n" for i
    using assms that by (simp add: history_def nth_append)
  then have "pdig (av_hasher v') k (history (items @ rest) v') l t = pdig (av_hasher v) k (history items v) l t"
    if "(l, t) \<in> set (frontier_for_size n k)" for l t
    unfolding assms(1) using frontier_bound [OF assms(4,5) that] by (intro pdig_cong) simp
  then have "fdigs (av_hasher v') k (history (items @ rest) v') (frontier_for_size n k)
      = fdigs (av_hasher v) k (history items v) (frontier_for_size n k)"
    by (auto simp: fdigs_def)
  then show ?thesis by (simp add: history_root_def assms(1))
qed

context lawful_storage begin

lemma past_answers:
  assumes inv: "log_inv valid content L items" and inv': "log_inv valid content L' items'"
    and ex: "extends L items L' items'" and n: "0 < n" "n < lg_count L"
  shows "active_algs_at L' n = active_algs_at L n" "committed_epochs_at L' n = committed_epochs_at L n"
    "history_roots L' items' n = history_roots L items n"
    "a \<in> set (active_algs_at L n) \<Longrightarrow> combined_root_at S L' a n = combined_root_at S L a n"
proof -
  note i = log_invD [OF inv] and i' = log_invD [OF inv'] and e = ex [unfolded extends_def]
  have n1: "n - 1 < lg_count L" using n by simp
  have old: "\<exists>v'. map_of (lg_algs L') a = Some v' \<and> av_hasher v' = av_hasher v
      \<and> epochs_at v' n = epochs_at v n \<and> (\<forall>i < lg_count L. is_active_at v' i = is_active_at v i)"
    if "map_of (lg_algs L) a = Some v" for a v using e that n(2) by blast
  have new: "epochs_at v' n = None \<and> \<not> is_active_at v' (n - 1)"
    if "map_of (lg_algs L) a = None" "map_of (lg_algs L') a = Some v'" for a v' using e that n(2) n1 by blast
  have "Option.bind (map_of (lg_algs L') a) (\<lambda>v. epochs_at v n) = Option.bind (map_of (lg_algs L) a) (\<lambda>v. epochs_at v n)" for a
  proof (cases "map_of (lg_algs L) a")
    case None
    then show ?thesis using new by (cases "map_of (lg_algs L') a") auto
  next
    case (Some v)
    then show ?thesis using old [OF Some] by auto
  qed
  then show tml: "committed_epochs_at L' n = committed_epochs_at L n"
    using committed_map [OF i(6), of n] committed_map [OF i'(6), of n]
    by (intro bt_map_of_eq committed_keys i(6) i'(6)) (simp add: fun_eq_iff)
  have le: "n \<le> lg_count L" "n \<le> lg_count L'" using n e by simp_all
  show act: "active_algs_at L' n = active_algs_at L n"
    using committed_valid(2) [OF inv le(1) n(1)] committed_valid(2) [OF inv' le(2) n(1)] tml by simp
  have view: "\<exists>v v'. map_of (lg_algs L) a = Some v \<and> map_of (lg_algs L') a = Some v' \<and> av_hasher v' = av_hasher v
      \<and> history_root (lg_arity L') items' v' n = history_root (lg_arity L) items v n"
    if "a \<in> set (active_algs_at L n)" for a
  proof -
    note mem = that [unfolded active_algs_iff [OF inv]]
    obtain v where v: "map_of (lg_algs L) a = Some v" using mem by blast
    obtain v' where v': "map_of (lg_algs L') a = Some v'" "av_hasher v' = av_hasher v"
      "\<forall>i < lg_count L. is_active_at v' i = is_active_at v i" using old [OF v] by blast
    obtain rest where "items' = items @ rest" using e by blast
    moreover have "history_root (lg_arity L) (items @ rest) v' n = history_root (lg_arity L) items v n"
      using v'(2,3) n(2) i(3,12) size_bounds(1) [OF inv le(1)] by (intro history_root_extends) simp_all
    ultimately show ?thesis using v v' e by auto
  qed
  show roots: "history_roots L' items' n = history_roots L items n"
    unfolding history_roots_def act using view by (fastforce simp: view_of_def)
  show "combined_root_at S L' a n = combined_root_at S L a n" if "a \<in> set (active_algs_at L n)"
  proof -
    note both = view [OF that]
    obtain v v' where v: "map_of (lg_algs L) a = Some v" "map_of (lg_algs L') a = Some v'" "av_hasher v' = av_hasher v"
      using both by blast
    have "lg_arity L' = lg_arity L" using e by blast
    then show ?thesis
      by (simp add: combined_root_at_def with_view_def v act tml roots member_roots [OF inv le(1)]
          member_roots [OF inv' le(2)])
  qed
qed

end

section \<open>Properties\<close>

text \<open>
  C6. The log is append-only: whatever is registered, frozen, reopened or appended later, the set
  of active algorithms, the committed timeline, the member roots and the combined roots it
  answers for a size below its count never change.
\<close>

theorem past_answers_fixed:
  assumes "reachable_log memory_ops mem_new k L items"
    and "(log_step memory_ops)\<^sup>*\<^sup>* (L, items) (L', items')" "0 < n" "n < lg_count L"
  shows "active_algs_at L' n = active_algs_at L n \<and> committed_epochs_at L' n = committed_epochs_at L n
    \<and> member_roots_at memory_ops L' n = member_roots_at memory_ops L n
    \<and> (\<forall>a \<in> set (active_algs_at L n). combined_root_at memory_ops L' a n = combined_root_at memory_ops L a n)"
proof -
  have inv: "log_inv mem_wf mem_abs L items" by (rule mem.reachable_inv [OF assms(1) mem_new_ok])
  have ex: "extends L items L' items'" and inv': "log_inv mem_wf mem_abs L' items'"
    using mem.steps_extend [OF assms(2)] inv by simp_all
  have le: "n \<le> lg_count L" "n \<le> lg_count L'" using assms(4) ex by (auto simp: extends_def)
  show ?thesis
    using mem.past_answers [OF inv inv' ex assms(3,4)]
    by (simp add: mem.member_roots [OF inv le(1)] mem.member_roots [OF inv' le(2)])
qed

theorem past_answers_fixed_witness:
  "\<exists>L L'. log_shape L = toy_shape \<and> resume_algorithm memory_ops L 0 = Inr L' \<and> active_algs_at L 1 = [0]
    \<and> active_algs_at L' 1 = active_algs_at L 1 \<and> committed_epochs_at L' 1 = committed_epochs_at L 1
    \<and> combined_root_at memory_ops L' 0 1 = combined_root_at memory_ops L 0 1"
proof -
  obtain L where L: "run_state 2 toy_shape toy_items L" using toy_run by blast
  then have re: "reachable_log memory_ops mem_new 2 L toy_items" and sh: "log_shape L = toy_shape"
    by (simp_all add: run_state_def)
  have inv: "log_inv mem_wf mem_abs L toy_items" by (rule run_state_inv [OF L])
  obtain v where v: "map_of (lg_algs L) 0 = Some v" "av_epochs v = [(0, 2)]"
    using shape_view [OF sh [unfolded toy_shape_def], of 0] by auto
  then have "\<not> is_active v" by (simp add: is_active_def epochs_open_def u64_max_def)
  then obtain L' where L': "resume_algorithm memory_ops L 0 = Inr L'" using mem.inv_resume [OF inv v(1)] by blast
  have st: "log_step memory_ops (L, toy_items) (L', toy_items)" by (rule log_step.resume [OF L'])
  have act: "active_algs_at L 1 = [0]"
    using sh by (auto simp: log_shape_def toy_shape_def active_algs_at_def is_active_at_def)
  moreover have "lg_count L = 2" using sh by (simp add: log_shape_def toy_shape_def)
  ultimately show ?thesis
    using past_answers_fixed [OF re r_into_rtranclp [of "log_step memory_ops", OF st], of 1] sh L' by auto
qed

end
