(* ===== verification/Poly_Log_Seal.thy ===== *)
theory Poly_Log_Seal
  imports Poly_Log_Correct
begin

text \<open>
  The seal of a log in an invariant state (\<^verbatim>\<open>polydigest/src/seal.rs\<close>) and the log that resumes
  from it: what the seal freezes, when its binding root is the log's combined root, and that the
  resumed log continues in lockstep with the original.
\<close>

section \<open>Sealing\<close>

text \<open>
  The seal tests activity at index \<open>n\<close>, the queries at index \<open>n - 1\<close>: they agree on a settled
  log, one whose last change of the active set was followed by an append.
\<close>

definition settled :: "'s merkle_log \<Rightarrow> bool" where
  "settled L \<longleftrightarrow> list_all (\<lambda>(_, v). is_active v \<longleftrightarrow> is_active_at v (lg_count L - 1)) (lg_algs L)"

definition sealed_frontiers :: "'s merkle_log \<Rightarrow> item list \<Rightarrow> (alg_id \<times> digest list) list" where
  "sealed_frontiers L items =
     map (\<lambda>(a, _). (a, fdigs (av_hasher (view_of L a)) (lg_arity L) (history items (view_of L a))
          (frontier_for_size (lg_count L) (lg_arity L))))
       (filter (\<lambda>(a, _). is_active (view_of L a)) (committed_epochs_at L (lg_count L)))"

definition sealed_of :: "'s merkle_log \<Rightarrow> item list \<Rightarrow> sealed" where
  "sealed_of L items =
     \<lparr>bs_seal = \<lparr>sl_tree_size = lg_count L, sl_arity = lg_arity L, sl_frontiers = sealed_frontiers L items,
        sl_meta = None\<rparr>, bs_alg_epochs = committed_epochs_at L (lg_count L)\<rparr>"

lemma epochs_at_now:
  assumes "epochs_valid n (av_epochs v)" "n < u64_max" "epochs_at v n = Some es"
  shows "active_in es n \<longleftrightarrow> is_active v"
proof -
  have "list_ex (\<lambda>(s, e). s \<le> n \<and> n < e) (epochs_at_loop n es) = epochs_open es"
    if "epochs_sorted b es" "\<forall>(s, e) \<in> set (butlast es). e \<noteq> u64_max \<and> e \<le> n"
      "es \<noteq> [] \<Longrightarrow> case last es of (s, e) \<Rightarrow> if e = u64_max then s \<le> n else e \<le> n" for b es
    using that assms(2) by (induction b es rule: epochs_sorted.induct)
      (auto simp: epochs_open_def split: if_splits)
  from this [of 0 "av_epochs v"] assms(1,3) show ?thesis
    by (auto simp: epochs_valid_def epochs_at_Some active_in_def is_active_def)
qed

lemma epochs_at_open:
  assumes "epochs_valid n (av_epochs v)" "n < u64_max" "is_active v"
  shows "epochs_at v n = Some (av_epochs v)"
proof -
  have "epochs_at_loop n es = es"
    if "epochs_sorted b es" "\<forall>(s, e) \<in> set (butlast es). e \<noteq> u64_max \<and> e \<le> n"
      "es \<noteq> [] \<Longrightarrow> case last es of (s, e) \<Rightarrow> e = u64_max \<and> s \<le> n" for b es
    using that assms(2) by (induction b es rule: epochs_sorted.induct) (auto split: if_splits)
  from this [of 0 "av_epochs v"] assms(1,3) show ?thesis
    by (auto simp: epochs_valid_def epochs_at_Some is_active_def epochs_open_def split: if_splits)
qed

context lawful_storage begin

lemma open_peaks:
  assumes inv: "log_inv valid content L items" and v: "map_of (lg_algs L) a = Some v" "is_active v"
  shows "frontier_peaks_at S L a (lg_count L) = Inr (fdigs (av_hasher (view_of L a)) (lg_arity L)
      (history items (view_of L a)) (frontier_for_size (lg_count L) (lg_arity L)))"
    and "av_frontier v = fdigs (av_hasher (view_of L a)) (lg_arity L)
      (history items (view_of L a)) (frontier_for_size (lg_count L) (lg_arity L))"
    and "av_coords v = frontier_for_size (lg_count L) (lg_arity L)"
    and "epochs_at v (lg_count L) = Some (av_epochs v)"
proof -
  note i = log_invD [OF inv] and ok = alg_okD [OF log_invD(11) [OF inv v(1)]]
  have t: "tree_size v (length items) = lg_count L" using tree_size_open [OF v(2)] i(3) by simp
  have "get_node_hashes (storage_reader S (lg_storage L)) v a (lg_arity L) (frontier_for_size (lg_count L) (lg_arity L))
     = Inr (fdigs (av_hasher v) (lg_arity L) (history items v) (frontier_for_size (lg_count L) (lg_arity L)))"
    using alg_backed [OF inv v(1)] size_bounds(1) [OF inv le_refl] i(12) unfolding t
    by (intro get_node_hashes_backed) simp_all
  then show "frontier_peaks_at S L a (lg_count L) = Inr (fdigs (av_hasher (view_of L a)) (lg_arity L)
      (history items (view_of L a)) (frontier_for_size (lg_count L) (lg_arity L)))"
    using v(1) by (simp add: frontier_peaks_at_def with_view_def frontier_peaks_def view_of_def
        peak_at_def get_node_hashes_def)
  show "av_frontier v = fdigs (av_hasher (view_of L a)) (lg_arity L)
      (history items (view_of L a)) (frontier_for_size (lg_count L) (lg_arity L))"
    "av_coords v = frontier_for_size (lg_count L) (lg_arity L)"
    using ok(5) v(1) unfolding t by (simp_all add: holds_frontier_def view_of_def)
  show "epochs_at v (lg_count L) = Some (av_epochs v)"
    using epochs_at_open [of "lg_count L" v] ok(3) i(3) size_bounds(3) [OF inv le_refl] v(2) by simp
qed

lemma seal_at:
  assumes inv: "log_inv valid content L items" and n: "0 < lg_count L"
  shows "seal_inner S L None = Inr (sealed_of L items)"
proof -
  note i = log_invD [OF inv]
  let ?n = "lg_count L" and ?tml = "committed_epochs_at L (lg_count L)"
  have mem: "\<exists>v. map_of (lg_algs L) a = Some v \<and> epochs_at v ?n = Some es" if "(a, es) \<in> set ?tml" for a es
    using committed_map_of [OF i(6), of a es ?n] that by (simp add: committed_epochs_at_def)
  have act: "committed_active_at ?tml a ?n = Some True \<longleftrightarrow> is_active (view_of L a)" if "(a, es) \<in> set ?tml" for a es
  proof -
    note m = mem [OF that]
    from m obtain v where v: "map_of (lg_algs L) a = Some v" "epochs_at v ?n = Some es" by blast
    have "epochs_valid ?n (av_epochs v)" using alg_okD(3) [OF i(11) [OF v(1)]] i(3) by simp
    from epochs_at_now [OF this size_bounds(3) [OF inv le_refl] v(2)] show ?thesis
      using v by (simp add: committed_active_at_active committed_map [OF i(6)] view_of_def)
  qed
  have flt: "filter (\<lambda>(alg, _). committed_active_at ?tml alg ?n = Some True) ?tml
      = filter (\<lambda>(a, _). is_active (view_of L a)) ?tml"
    using act by (intro filter_cong) auto
  have "mapE (\<lambda>(alg, _). bindE (frontier_peaks_at S L alg ?n) (\<lambda>peaks. Inr (alg, peaks)))
      (filter (\<lambda>(a, _). is_active (view_of L a)) ?tml) = Inr (sealed_frontiers L items)"
    unfolding sealed_frontiers_def
  proof (rule mapE_Inr)
    fix p assume p: "p \<in> set (filter (\<lambda>(a, _). is_active (view_of L a)) ?tml)"
    obtain a es where ae: "p = (a, es)" by (cases p)
    obtain v where v: "map_of (lg_algs L) a = Some v" using mem [of a es] p ae by auto
    have "is_active v" using p ae v by (simp add: view_of_def)
    from open_peaks(1) [OF inv v this]
    show "(case p of (alg, _) \<Rightarrow> bindE (frontier_peaks_at S L alg ?n) (\<lambda>peaks. Inr (alg, peaks)))
        = Inr (case p of (a, _) \<Rightarrow> (a, fdigs (av_hasher (view_of L a)) (lg_arity L) (history items (view_of L a))
            (frontier_for_size ?n (lg_arity L))))"
      by (simp add: ae)
  qed
  moreover have "sealed_new ?n (lg_arity L) (sealed_frontiers L items) ?tml = Inr (sealed_of L items)"
    using i(2) committed_valid(1) [OF inv le_refl]
    by (auto simp: sealed_new_def seal_new_def bound_snapshot_new_def sealed_of_def sealed_frontiers_def
        list_ex_iff)
  ultimately show ?thesis
    using n by (simp add: seal_inner_def Let_def flt)
qed

lemma sealed_members:
  assumes inv: "log_inv valid content L items" and n: "0 < lg_count L" and s: "settled L"
    and hs: "\<And>a. a \<in> set (active_algs_at L (lg_count L)) \<Longrightarrow> find_hasher hashers a = Some (av_hasher (view_of L a))"
  shows "map fst (sealed_frontiers L items) = active_algs_at L (lg_count L)"
    and "seal_all_member_roots (bs_seal (sealed_of L items)) hashers bag_peaks = Inr (history_roots L items (lg_count L))"
proof -
  note i = log_invD [OF inv]
  let ?n = "lg_count L" and ?tml = "committed_epochs_at L (lg_count L)"
  have mem: "\<exists>v. map_of (lg_algs L) a = Some v \<and> epochs_at v ?n = Some es" if "(a, es) \<in> set ?tml" for a es
    using committed_map_of [OF i(6), of a es ?n] that by (simp add: committed_epochs_at_def)
  have act: "is_active (view_of L a) \<longleftrightarrow> active_in es (?n - 1)" if "(a, es) \<in> set ?tml" for a es
  proof -
    note m = mem [OF that]
    from m obtain v where v: "map_of (lg_algs L) a = Some v" "epochs_at v ?n = Some es" by blast
    have ev: "epochs_valid (length items) (av_epochs v)" by (rule alg_okD [OF i(11) [OF v(1)]])
    have "(a, v) \<in> set (lg_algs L)" using v(1) by (rule map_of_SomeD)
    then have "is_active v \<longleftrightarrow> is_active_at v (?n - 1)" using s by (auto simp: settled_def list_all_iff)
    moreover have "active_in es (?n - 1) = is_active_at v (?n - 1)"
      using epochs_at_active [OF ev size_bounds(3) [OF inv le_refl], of "?n - 1"] v(2) n by simp
    ultimately show ?thesis using v(1) by (simp add: view_of_def)
  qed
  have flt: "filter (\<lambda>(a, _). is_active (view_of L a)) ?tml = filter (\<lambda>(_, es). active_in es (?n - 1)) ?tml"
    using act by (intro filter_cong) auto
  have "active_algs_at L ?n = map fst (filter (\<lambda>(_, es). active_in es (?n - 1)) ?tml)"
    using committed_valid(2) [OF inv le_refl n] committed_active_algs_iff [OF n] by simp
  then show fst: "map fst (sealed_frontiers L items) = active_algs_at L ?n"
    by (simp add: sealed_frontiers_def flt case_prod_beta o_def)
  have roots: "history_roots L items ?n = map (\<lambda>(a, peaks). (a, bag_peaks (av_hasher (view_of L a)) peaks (lg_arity L)))
      (sl_frontiers (bs_seal (sealed_of L items)))"
    unfolding history_roots_def history_root_def fst [symmetric]
    by (simp add: sealed_of_def sealed_frontiers_def case_prod_beta o_def)
  show "seal_all_member_roots (bs_seal (sealed_of L items)) hashers bag_peaks = Inr (history_roots L items ?n)"
    unfolding roots seal_all_member_roots_def
  proof (rule mapE_Inr)
    fix p assume p: "p \<in> set (sl_frontiers (bs_seal (sealed_of L items)))"
    obtain a peaks where ap: "p = (a, peaks)" by (cases p)
    have "a \<in> set (active_algs_at L ?n)" unfolding fst [symmetric] using p ap by (force simp: sealed_of_def)
    from hs [OF this] show "(case p of (b, peaks) \<Rightarrow> (case find_hasher hashers b of None \<Rightarrow> Inl (MissingHasher b)
        | Some h \<Rightarrow> Inr (b, bag_peaks h peaks (sl_arity (bs_seal (sealed_of L items))))))
      = Inr (case p of (a, peaks) \<Rightarrow> (a, bag_peaks (av_hasher (view_of L a)) peaks (lg_arity L)))"
      by (simp add: ap sealed_of_def)
  qed
qed

end

section \<open>Resuming a seal\<close>

text \<open>
  A log that continues another one from its seal: the same active views, an own store, and
  subtree kind, since the leaves of the past are not there.
\<close>

definition continues ::
    "('s \<Rightarrow> bool) \<Rightarrow> ('s \<Rightarrow> store) \<Rightarrow> 't merkle_log \<Rightarrow> 's merkle_log \<Rightarrow> bool" where
  "continues valid content L L' \<longleftrightarrow>
     valid (lg_storage L') \<and> so_count (content (lg_storage L')) = lg_count L
     \<and> so_leaves (content (lg_storage L')) = []
     \<and> lg_count L' = lg_count L \<and> lg_arity L' = lg_arity L \<and> lg_kind L' = Subtree
     \<and> distinct (map fst (lg_algs L'))
     \<and> (\<forall>a v. map_of (lg_algs L') a = Some v \<longleftrightarrow> map_of (lg_algs L) a = Some v \<and> is_active v)"

definition resumed_seed :: "nat \<Rightarrow> alg_id \<Rightarrow> alg_view \<Rightarrow> algorithm_seed" where
  "resumed_seed k a v = \<lparr>sd_alg = a, sd_epochs = av_epochs v,
     sd_nodes = List.map_filter (\<lambda>((left, height), peak).
       if active_range v left (left + k ^ height) then Some (a, left, height, peak) else None)
       (zip (av_coords v) (av_frontier v))\<rparr>"

lemma resumed_seed_fits:
  assumes k: "2 \<le> k" and "av_coords v = frontier_for_size n k" and n: "n < u64_limit" and "a < u64_limit"
  shows "list_all node_fits (sd_nodes (resumed_seed k a v))"
proof -
  have "node_fits (a, l, t, d)" if c: "(l, t) \<in> set (frontier_for_size n k)" for l t d
    using block_fits [OF k frontier_bound [OF k n c] n] assms(4) by (simp add: node_fits_def)
  then show ?thesis
    using assms(2) by (auto simp: resumed_seed_def list_all_iff List.map_filter_def split: if_splits dest!: set_zip_leftD)
qed

lemma resume_views_spec:
  assumes "distinct (map fst fs)"
    and "\<And>a peaks. (a, peaks) \<in> set fs \<Longrightarrow> hs a = Some (av_hasher (w a)) \<and> av_frontier (w a) = peaks
      \<and> av_coords (w a) = coords \<and> map_of tml a = Some (av_epochs (w a))"
  shows "(resume_views k coords tml hs fs :: 'e log_error + _) = Inr (map (\<lambda>(a, _). (w a, resumed_seed k a (w a))) fs)"
  using assms
proof (induction fs arbitrary: hs)
  case (Cons p fs)
  obtain a peaks where p: "p = (a, peaks)" by (cases p)
  have a: "hs a = Some (av_hasher (w a))" "av_frontier (w a) = peaks" "av_coords (w a) = coords"
    "map_of tml a = Some (av_epochs (w a))"
    using Cons.prems(2) [of a peaks] p by simp_all
  have f: "\<exists>i. find (\<lambda>(i, _). i = a) tml = Some (i, av_epochs (w a))"
    using a(4) find_alg_eq_map_of [of a tml] by (cases "find (\<lambda>(i, _). i = a) tml") auto
  have v: "\<lparr>av_hasher = av_hasher (w a), av_epochs = av_epochs (w a), av_frontier = peaks, av_coords = coords\<rparr> = w a"
    using a by (cases "w a") simp
  have "a \<notin> fst ` set fs" using Cons.prems(1) p by simp
  then have "(resume_views k coords tml (hs(a := None)) fs :: 'e log_error + _) = Inr (map (\<lambda>(a, _). (w a, resumed_seed k a (w a))) fs)"
    using Cons.prems p by (intro Cons.IH) force+
  then show ?case
    using f a(1) by (auto simp: p Let_def v resumed_seed_def a(2,3))
qed simp

context lawful_storage begin

text \<open>The entries of a sealed log are its active algorithms, with their open peaks and committed epochs.\<close>

lemma sealed_keys:
  assumes "log_inv valid content L items"
  shows "distinct (map fst (sealed_frontiers L items))"
  using bt_keys_distinct [OF committed_keys [OF log_invD(6) [OF assms]]] distinct_map_filter
  by (fastforce simp: sealed_frontiers_def case_prod_beta o_def)

lemma sealed_view:
  assumes inv: "log_inv valid content L items" and mem: "(a, peaks) \<in> set (sealed_frontiers L items)"
  shows "map_of (lg_algs L) a = Some (view_of L a)" "is_active (view_of L a)"
proof -
  obtain es where es: "(a, es) \<in> set (committed_epochs_at L (lg_count L))" "is_active (view_of L a)"
    using mem by (auto simp: sealed_frontiers_def)
  then show "map_of (lg_algs L) a = Some (view_of L a)" "is_active (view_of L a)"
    using committed_map_of [OF log_invD(6) [OF inv], of a es "lg_count L"] by (auto simp: committed_epochs_at_def view_of_def)
qed

lemma sealed_peaks:
  assumes inv: "log_inv valid content L items" and mem: "(a, peaks) \<in> set (sealed_frontiers L items)"
  shows "av_frontier (view_of L a) = peaks" "av_coords (view_of L a) = frontier_for_size (lg_count L) (lg_arity L)"
    "map_of (committed_epochs_at L (lg_count L)) a = Some (av_epochs (view_of L a))"
proof -
  note v = sealed_view [OF inv mem]
  note p = open_peaks(2-4) [OF inv v]
  have "peaks = av_frontier (view_of L a)" using mem p(1) by (auto simp: sealed_frontiers_def)
  then show "av_frontier (view_of L a) = peaks" "av_coords (view_of L a) = frontier_for_size (lg_count L) (lg_arity L)"
    "map_of (committed_epochs_at L (lg_count L)) a = Some (av_epochs (view_of L a))"
    using p v(1) by (simp_all add: committed_map [OF log_invD(6) [OF inv]])
qed

lemma sealed_active:
  assumes inv: "log_inv valid content L items"
  shows "map_of (map (\<lambda>(a, _). (a, view_of L a)) (sealed_frontiers L items)) a = Some v
    \<longleftrightarrow> map_of (lg_algs L) a = Some v \<and> is_active v"
proof -
  let ?fs = "sealed_frontiers L items" and ?tml = "committed_epochs_at L (lg_count L)"
  have d: "distinct (map fst (map (\<lambda>(a, _). (a, view_of L a)) ?fs))"
    using sealed_keys [OF inv] by (simp add: case_prod_beta o_def)
  have "map_of (map (\<lambda>(a, _). (a, view_of L a)) ?fs) a = Some v \<longleftrightarrow> v = view_of L a \<and> a \<in> fst ` set ?fs"
    unfolding map_of_eq_Some_iff [OF d] by force
  also have "\<dots> \<longleftrightarrow> map_of (lg_algs L) a = Some v \<and> is_active v"
  proof
    assume "v = view_of L a \<and> a \<in> fst ` set ?fs"
    then show "map_of (lg_algs L) a = Some v \<and> is_active v" using sealed_view [OF inv] by force
  next
    assume v: "map_of (lg_algs L) a = Some v \<and> is_active v"
    then have "map_of ?tml a = Some (av_epochs v)"
      using open_peaks(4) [OF inv conjunct1 [OF v] conjunct2 [OF v]] by (simp add: committed_map [OF log_invD(6) [OF inv]])
    then have "(a, av_epochs v) \<in> set ?tml" by (rule map_of_SomeD)
    then show "v = view_of L a \<and> a \<in> fst ` set ?fs"
      using v by (force simp: view_of_def sealed_frontiers_def)
  qed
  finally show ?thesis .
qed

lemma sealed_seed_fits:
  assumes inv: "log_inv valid content L items" and mem: "(a, peaks) \<in> set (sealed_frontiers L items)"
    and sd: "sd = resumed_seed (lg_arity L) a (view_of L a)"
  shows "sd_alg sd < u64_limit \<and> epochs_valid (lg_count L) (sd_epochs sd) \<and> list_all node_fits (sd_nodes sd)"
proof -
  let ?n = "lg_count L"
  note i = log_invD [OF inv] and v = sealed_view(1) [OF inv mem] and co = sealed_peaks [OF inv mem]
  have "epochs_valid ?n (av_epochs (view_of L a))" using alg_okD(3) [OF i(11) [OF v]] i(3) by simp
  moreover have "list_all node_fits (sd_nodes sd)"
    using resumed_seed_fits [OF i(12) _ _ log_inv_alg_bound [OF inv v], of "view_of L a" ?n] co i(13)
      u64_max_less_limit sd by simp
  ultimately show ?thesis using log_inv_alg_bound [OF inv v] by (simp add: sd resumed_seed_def)
qed

lemma resumed:
  assumes inv: "log_inv valid content L items"
    and s: "valid s" "content s = empty_store"
    and hs: "\<And>a v. map_of (lg_algs L) a = Some v \<Longrightarrow> is_active v \<Longrightarrow> hash_map hashers a = Some (av_hasher v)"
  shows "\<exists>L'. log_resume S (sealed_of L items) s hashers = Inr L' \<and> continues valid content L L'"
proof -
  note i = log_invD [OF inv]
  let ?n = "lg_count L" and ?k = "lg_arity L" and ?tml = "committed_epochs_at L (lg_count L)"
  let ?fs = "sealed_frontiers L items"
  note keys = sealed_keys [OF inv]
  have fs: "hash_map hashers a = Some (av_hasher (view_of L a)) \<and> av_frontier (view_of L a) = peaks
      \<and> av_coords (view_of L a) = frontier_for_size ?n ?k \<and> map_of ?tml a = Some (av_epochs (view_of L a))"
    if "(a, peaks) \<in> set ?fs" for a peaks
    using hs [OF sealed_view [OF inv that]] sealed_peaks [OF inv that] by simp
  note rv = resume_views_spec [OF keys fs, of ?k]
  let ?views = "map (\<lambda>(a, _). (view_of L a, resumed_seed ?k a (view_of L a))) ?fs"
  have ks: "map sd_alg (map snd ?views) = map fst ?fs" by (simp add: resumed_seed_def case_prod_beta o_def)
  obtain ms where "st_load_algorithm_metas S s = Inr ms" "map_of ms = Map.empty"
    using get_metas [OF s(1)] s(2) by (auto simp: empty_store_def)
  then have ms: "st_load_algorithm_metas S s = Inr []" by (cases ms) (auto simp: fun_eq_iff split: if_splits)
  have step: "abs_step (SeedFrontier ?n (map snd ?views)) (content s)
      = Some (fold store_seed (map snd ?views) ((content s)\<lparr>so_count := ?n\<rparr>))"
    unfolding abs_step.simps ks using keys s(2) by (simp add: empty_store_def)
  have "op_fits (content s) (SeedFrontier ?n (map snd ?views))"
    using s(2) i(13) sealed_seed_fits [OF inv _ refl] by (auto simp: empty_store_def list_all_iff)
  then obtain s' where s': "st_apply S s [SeedFrontier ?n (map snd ?views)] = Inr s'" "valid s'"
    "content s' = fold store_seed (map snd ?views) ((content s)\<lparr>so_count := ?n\<rparr>)"
    using apply_one [OF s(1) _ step] by blast
  have cnt: "so_count (fold store_seed seeds st) = so_count st" "so_leaves (fold store_seed seeds st) = so_leaves st" for seeds st
    by (induction seeds arbitrary: st) (simp_all add: store_seed_def store_nodes_def)
  let ?L = "\<lparr>lg_storage = s', lg_arity = ?k, lg_algs = map (\<lambda>(a, _). (a, view_of L a)) ?fs,
      lg_count = ?n, lg_kind = Subtree\<rparr>"
  have algs: "map (\<lambda>(view, seed). (sd_alg seed, view)) ?views = map (\<lambda>(a, _). (a, view_of L a)) ?fs"
    by (simp add: resumed_seed_def case_prod_beta o_def)
  have "log_resume S (sealed_of L items) s hashers = Inr ?L"
    unfolding log_resume_def Let_def
    using get_count [OF s(1)] s(2) ms i(2) s'(1) algs by (simp add: sealed_of_def rv empty_store_def)
  moreover have "continues valid content L ?L"
    using s' s(2) cnt keys sealed_active [OF inv] by (simp add: continues_def case_prod_beta o_def empty_store_def)
  ultimately show ?thesis by blast
qed

end

section \<open>Lockstep\<close>

text \<open>The tree form of an item, the one a resumed log takes, and an append of either kind.\<close>

fun item_tree :: "item \<Rightarrow> subtree" where
  "item_tree (LeafItem data) = Leaf data"
| "item_tree (TreeItem t) = t"

fun append_item :: "('s, 'e) storage \<Rightarrow> 's merkle_log \<Rightarrow> item \<Rightarrow> 'e log_error + 's merkle_log" where
  "append_item S L (LeafItem data) = append_leaf S L data"
| "append_item S L (TreeItem t) = append_subtree S L t"

fun append_items :: "('s, 'e) storage \<Rightarrow> 's merkle_log \<Rightarrow> item list \<Rightarrow> 'e log_error + 's merkle_log" where
  "append_items S L [] = Inr L"
| "append_items S L (it # its) = bindE (append_item S L it) (\<lambda>L. append_items S L its)"

lemma evaluate_item_tree: "evaluate h (item_tree it) = item_value it h"
  by (cases it) simp_all

lemma safe_append:
  "safe_item it (L\<lparr>lg_storage := s, lg_algs := append_algs k items x (lg_algs L), lg_count := n, lg_kind := kd\<rparr>)
    \<longleftrightarrow> safe_item it L"
  by (simp add: safe_item_def append_algs_def list_all_iff case_prod_beta)

context lawful_storage begin

text \<open>One append to a log, and what its success says.\<close>

lemma appended:
  assumes inv: "log_inv valid content L items" and safe: "safe_item it L" and ap: "append_item S L it = Inr L1"
  shows "log_inv valid content L1 (items @ [it])" "lg_count L < log_capacity" "list_ex (\<lambda>(_, v). is_active v) (lg_algs L)"
    "\<exists>s. L1 = L\<lparr>lg_storage := s, lg_algs := append_algs (lg_arity L) items it (lg_algs L),
      lg_count := lg_count L + 1, lg_kind := item_kind it\<rparr>"
proof -
  have st: "log_step S (L, items) (L1, items @ [it])"
    using safe ap by (cases it) (auto intro: log_step.leaf log_step.subtree)
  show "log_inv valid content L1 (items @ [it])" by (rule step_inv [OF inv st])
  have "(\<lambda>h. hs_leaf h d) = item_value (LeafItem d)" "(\<lambda>h. evaluate h t) = item_value (TreeItem t)" for d t
    by (simp_all add: fun_eq_iff)
  then show "lg_count L < log_capacity" "list_ex (\<lambda>(_, v). is_active v) (lg_algs L)"
    "\<exists>s. L1 = L\<lparr>lg_storage := s, lg_algs := append_algs (lg_arity L) items it (lg_algs L),
      lg_count := lg_count L + 1, lg_kind := item_kind it\<rparr>"
    using ap inv_build [OF inv safe]
    by (cases it; auto simp: append_leaf_def append_subtree_def bindE_Inr_iff Let_def split: if_splits)+
qed

end

lemma continue_build:
  assumes inv: "log_inv valid content L items" and safe: "safe_item it L"
    and c: "continues valid' content' L L'"
  shows "(build_append_state (item_digest (lg_count L) (\<lambda>h. evaluate h (item_tree it))) (lg_count L) (lg_arity L)
      (lg_algs L') [] :: 'e log_error + _) = Inr (append_algs (lg_arity L) items it (lg_algs L'),
         batch_nodes (lg_arity L) items it (lg_algs L'))"
proof -
  note i = log_invD [OF inv] and c = c [unfolded continues_def]
  have "alg_ok (so_nodes (content (lg_storage L))) (lg_arity L) items a v
      \<and> (is_active v \<longrightarrow> item_value it (av_hasher v) \<noteq> hs_null (av_hasher v))" if "(a, v) \<in> set (lg_algs L')" for a v
  proof -
    have "map_of (lg_algs L') a = Some v" using that c by (simp add: map_of_eq_Some_iff)
    then have v: "map_of (lg_algs L) a = Some v" using c by blast
    then have "(a, v) \<in> set (lg_algs L)" by (rule map_of_SomeD)
    then show ?thesis using i(11) [OF v] safe by (auto simp: safe_item_def list_all_iff)
  qed
  moreover have "length items + 1 < u64_max" using i(3,13) by simp
  moreover have "(\<lambda>h. evaluate h (item_tree it)) = item_value it" by (simp add: fun_eq_iff evaluate_item_tree)
  moreover have "lg_count L = length items" using i(3) by simp
  ultimately show ?thesis
    using build_append_state_spec [OF i(12), of items "lg_algs L'" "so_nodes (content (lg_storage L))" it "[]"]
    by simp
qed

context lawful_storage begin

lemma continue_step:
  assumes inv: "log_inv vd ct L items" and safe: "safe_item it L" and c: "continues valid content L L'"
    and cap: "lg_count L < log_capacity" and act: "list_ex (\<lambda>(_, v). is_active v) (lg_algs L)"
    and L1: "L1 = L\<lparr>lg_storage := s, lg_algs := append_algs (lg_arity L) items it (lg_algs L),
      lg_count := lg_count L + 1, lg_kind := kd\<rparr>"
  shows "\<exists>L1'. append_subtree S L' (item_tree it) = Inr L1' \<and> continues valid content L1 L1'"
proof -
  note i = log_invD [OF inv] and cd = c [unfolded continues_def]
  let ?algs = "append_algs (lg_arity L) items it (lg_algs L')"
  let ?nws = "batch_nodes (lg_arity L) items it (lg_algs L')"
  have v: "valid (lg_storage L')" "so_count (content (lg_storage L')) = lg_count L'" using cd by simp_all
  have "set (lg_algs L') \<subseteq> set (lg_algs L)"
  proof
    fix x assume x: "x \<in> set (lg_algs L')"
    obtain a w where aw: "x = (a, w)" by (cases x)
    then have "map_of (lg_algs L') a = Some w" using x cd by simp
    then have "map_of (lg_algs L) a = Some w" using cd by blast
    then show "x \<in> set (lg_algs L)" unfolding aw by (rule map_of_SomeD)
  qed
  then have "op_fits (content (lg_storage L')) (AppendSubtree (lg_count L') ?nws)"
    using batch_fits [OF inv] cd cap by (simp add: log_capacity_def u64_max_def)
  then obtain s' where s': "st_apply S (lg_storage L') [AppendSubtree (lg_count L') ?nws] = Inr s'" "valid s'"
    "content s' = store_nodes ?nws ((content (lg_storage L'))\<lparr>so_count := lg_count L' + 1\<rparr>)"
    using apply_one [OF v(1), of "AppendSubtree (lg_count L') ?nws"] v(2) by auto
  obtain a w where "(a, w) \<in> set (lg_algs L)" "is_active w" using act by (auto simp: list_ex_iff)
  then have "map_of (lg_algs L') a = Some w" using cd i(6) by (simp add: map_of_eq_Some_iff)
  then have "(a, w) \<in> set (lg_algs L')" by (rule map_of_SomeD)
  then have act': "list_ex (\<lambda>(_, v). is_active v) (lg_algs L')" using \<open>is_active w\<close> by (auto simp: list_ex_iff)
  let ?L1 = "L'\<lparr>lg_storage := s', lg_algs := ?algs, lg_count := lg_count L' + 1, lg_kind := Subtree\<rparr>"
  have "append_subtree S L' (item_tree it) = Inr ?L1"
    using cd cap act' s'(1) by (simp add: append_subtree_def Let_def continue_build [OF inv safe c])
  moreover have "continues valid content L1 ?L1"
  proof -
    have "distinct (map fst ?algs)" using cd by (simp add: append_algs_def case_prod_beta o_def)
    moreover have "map_of ?algs a = Some v \<longleftrightarrow> map_of (lg_algs L1) a = Some v \<and> is_active v" for a v
      using cd by (auto simp: L1 map_of_append_algs)
    ultimately show ?thesis
      using cd s' by (simp add: continues_def L1 store_nodes_def)
  qed
  ultimately show ?thesis by blast
qed

end

context lawful_storage begin

lemma continue_items:
  assumes "log_inv valid content L items" "list_all (\<lambda>it. safe_item it L) its" "append_items S L its = Inr L1"
    and "continues valid content L L'"
  shows "\<exists>L1'. append_items S L' (map (\<lambda>it. TreeItem (item_tree it)) its) = Inr L1' \<and> continues valid content L1 L1'"
  using assms
proof (induction its arbitrary: L L' items)
  case (Cons it its)
  obtain L2 where L2: "append_item S L it = Inr L2" "append_items S L2 its = Inr L1"
    using Cons.prems(3) by (auto simp: bindE_Inr_iff)
  have safe: "safe_item it L" using Cons.prems(2) by simp
  note ap = appended [OF Cons.prems(1) safe L2(1)]
  obtain s where s: "L2 = L\<lparr>lg_storage := s, lg_algs := append_algs (lg_arity L) items it (lg_algs L),
      lg_count := lg_count L + 1, lg_kind := item_kind it\<rparr>" using ap(4) by blast
  obtain L2' where L2': "append_subtree S L' (item_tree it) = Inr L2'" "continues valid content L2 L2'"
    using continue_step [OF Cons.prems(1) safe Cons.prems(4) ap(2,3) s] by blast
  have "list_all (\<lambda>it. safe_item it L2) its" using Cons.prems(2) by (simp add: s safe_append)
  from Cons.IH [OF ap(1) this L2(2) L2'(2)] show ?case by (simp add: L2'(1))
qed simp

end

section \<open>Properties\<close>

lemma toy_leaf_run: "\<exists>L. run_state 2 (2, 1, Flat, [(0, tagged_hasher, [(0, u64_max)])]) [LeafItem [1]] L"
proof -
  have cap: "0 < log_capacity" by (simp add: log_capacity_def)
  obtain L0 where "run_state 2 (2, 0, Flat, [(0, tagged_hasher, [(0, u64_max)])]) [] L0"
    using run_new [OF tagged_null_free, of 2] by (auto simp: arity_ok_def)
  from run_leaf [OF this cap, of "[1]"] show ?thesis by (auto simp: epochs_open_def tagged_safe)
qed

lemma toy_leaf_algs:
  assumes "log_shape L = (2, 1, Flat, [(0, tagged_hasher, [(0, u64_max)])])"
  obtains v where "lg_algs L = [(0, v)]" "av_hasher v = tagged_hasher" "av_epochs v = [(0, u64_max)]"
    "lg_count L = 1" "lg_arity L = 2"
  using assms by (auto simp: log_shape_def map_eq_Cons_conv)

text \<open>
  C22. A settled log seals to the commitment it had: the seal exists, its member roots are the
  log's member roots and its binding root under every active algorithm is the log's combined root.
\<close>

theorem seal_commits_combined_root:
  assumes "reachable_log memory_ops mem_new k L items" "settled L" "a \<in> set (active_algs_at L (lg_count L))"
    and "\<forall>b \<in> set (active_algs_at L (lg_count L)). find_hasher hashers b = Some (av_hasher (view_of L b))"
  shows "\<exists>b root. log_seal memory_ops L = Inr b \<and> combined_root_at memory_ops L a (lg_count L) = Inr root
    \<and> map_err (\<lambda>_. LogStuck) (seal_all_member_roots (bs_seal b) hashers bag_peaks) = member_roots_at memory_ops L (lg_count L)
    \<and> binding_root b a (av_hasher (view_of L a)) hashers bag_peaks = Inr (Some (Some root))"
proof -
  have inv: "log_inv mem_wf mem_abs L items" by (rule mem.reachable_inv [OF assms(1) mem_new_ok])
  have n: "0 < lg_count L" using assms(3) unfolding active_algs_iff [OF inv] by blast
  obtain root where root: "combined_root_at memory_ops L a (lg_count L) = Inr root"
    "combined_root (av_hasher (view_of L a)) (history_roots L items (lg_count L)) (committed_epochs_at L (lg_count L))
       (lg_count L) (lg_arity L) = Some root"
    using mem.combined_at [OF inv le_refl assms(3)] by blast
  have hs: "find_hasher hashers b = Some (av_hasher (view_of L b))" if "b \<in> set (active_algs_at L (lg_count L))" for b
    using assms(4) that by blast
  note members = mem.sealed_members [OF inv n assms(2) hs]
  have "a \<in> fst ` set (sealed_frontiers L items)" using members(1) assms(3) by (metis set_map)
  then have "seal_peaks (bs_seal (sealed_of L items)) a \<noteq> None"
    by (simp add: seal_peaks_def sealed_of_def find_alg_eq_map_of map_of_eq_None_iff)
  then have "binding_root (sealed_of L items) a (av_hasher (view_of L a)) hashers bag_peaks = Inr (Some (Some root))"
    using members(2) root(2) by (simp add: binding_root_def) (simp add: sealed_of_def)
  then show ?thesis
    using mem.seal_at [OF inv n] root(1) members(2) by (simp add: log_seal_def mem.member_roots [OF inv le_refl])
qed

theorem seal_commits_combined_root_witness:
  "\<exists>L b root. log_shape L = (2, 1, Flat, [(0, tagged_hasher, [(0, u64_max)])]) \<and> log_seal memory_ops L = Inr b
    \<and> combined_root_at memory_ops L 0 1 = Inr root
    \<and> binding_root b 0 tagged_hasher [(0, tagged_hasher)] bag_peaks = Inr (Some (Some root))"
proof -
  obtain L where L: "run_state 2 (2, 1, Flat, [(0, tagged_hasher, [(0, u64_max)])]) [LeafItem [1]] L"
    using toy_leaf_run by blast
  then have re: "reachable_log memory_ops mem_new 2 L [LeafItem [1]]"
    and sh: "log_shape L = (2, 1, Flat, [(0, tagged_hasher, [(0, u64_max)])])" by (simp_all add: run_state_def)
  obtain v where v: "lg_algs L = [(0, v)]" "av_hasher v = tagged_hasher" "av_epochs v = [(0, u64_max)]" "lg_count L = 1"
    by (rule toy_leaf_algs [OF sh])
  have "0 < u64_max" by (simp add: u64_max_def)
  then have a: "active_algs_at L (lg_count L) = [0]" "settled L" "view_of L 0 = v"
    using v by (simp_all add: active_algs_at_def is_active_at_def settled_def is_active_def epochs_open_def view_of_def)
  have "0 \<in> set (active_algs_at L (lg_count L))"
    "\<forall>b \<in> set (active_algs_at L (lg_count L)). find_hasher [(0, tagged_hasher)] b = Some (av_hasher (view_of L b))"
    unfolding a(1) using v(2) a(3) by (simp_all add: find_hasher_def)
  from seal_commits_combined_root [OF re a(2) this] show ?thesis
    unfolding v(4) a(3) v(2) using sh by blast
qed

text \<open>
  C37. A seal taken right after an algorithm was frozen cannot be proved from: the seal tests
  activity at the index after the last item and leaves the algorithm out, the committed timeline
  of the same seal still has it active at the last item, and every snapshot proof produced from
  the seal is rejected, whatever the trusted roots, hashers, skeleton and claims.
\<close>

theorem seal_after_freeze_unprovable:
  assumes "reachable_log memory_ops mem_new k L items"
    and "a \<in> set (active_algs_at L (lg_count L))" "\<not> is_active (view_of L a)"
  shows "\<exists>b. log_seal memory_ops L = Inr b
    \<and> (\<forall>hashers bag claims trusted hashers' skeleton.
         snapshot_verify (snapshot_produce b hashers bag claims) trusted hashers' skeleton \<noteq> Some True)"
proof -
  have inv: "log_inv mem_wf mem_abs L items" by (rule mem.reachable_inv [OF assms(1) mem_new_ok])
  note i = log_invD [OF inv]
  let ?b = "sealed_of L items"
  have n: "0 < lg_count L" using assms(2) unfolding active_algs_iff [OF inv] by blast
  have out: "a \<notin> fst ` set (sealed_frontiers L items)" using assms(3) by (auto simp: sealed_frontiers_def)
  have "snapshot_verify (snapshot_produce ?b hashers bag claims) trusted hashers' skeleton \<noteq> Some True"
    for hashers bag claims trusted hashers' skeleton
  proof
    let ?sp = "snapshot_produce ?b hashers bag claims"
    assume v: "snapshot_verify ?sp trusted hashers' skeleton = Some True"
    have "arity_ok (sp_arity ?sp)" "sp_tree_size ?sp \<le> 2 ^ 63"
      using i(2) mem.size_bounds(2) [OF inv le_refl] by (simp_all add: snapshot_produce_def sealed_of_def)
    then have "committed_active_algs (sp_alg_epochs ?sp) (sp_tree_size ?sp) = map fst (sp_member_roots ?sp)"
      using v by (simp only: snapshot_verify_iff)
    then have "a \<in> fst ` set (sp_member_roots ?sp)"
      using assms(2) committed_valid(2) [OF inv le_refl n]
      by (simp add: snapshot_produce_def sealed_of_def)
    then have "a \<in> fst ` set (sealed_frontiers L items)"
      by (force simp: snapshot_produce_def sealed_member_roots_def seal_member_roots_def sealed_of_def
          List.map_filter_def split: option.splits)
    then show False using out by blast
  qed
  then show ?thesis using mem.seal_at [OF inv n] by (auto simp: log_seal_def)
qed

theorem seal_after_freeze_unprovable_witness:
  "\<exists>L b. log_shape L = toy_shape \<and> log_seal memory_ops L = Inr b
    \<and> (\<forall>hashers bag claims trusted hashers' skeleton.
         snapshot_verify (snapshot_produce b hashers bag claims) trusted hashers' skeleton \<noteq> Some True)"
proof -
  obtain L where L: "run_state 2 toy_shape toy_items L" using toy_run by blast
  then have re: "reachable_log memory_ops mem_new 2 L toy_items" and sh: "log_shape L = toy_shape"
    by (simp_all add: run_state_def)
  obtain v0 v1 where v: "lg_algs L = [(0, v0), (1, v1)]" "av_epochs v0 = [(0, 2)]" "lg_count L = 2"
    by (rule toy_algs [OF sh])
  have "0 \<in> set (active_algs_at L (lg_count L))" unfolding v(3) toy_fits(2) [OF sh] by simp
  moreover have "\<not> is_active (view_of L 0)" using v by (simp add: view_of_def is_active_def epochs_open_def u64_max_def)
  ultimately show ?thesis using seal_after_freeze_unprovable [OF re] sh by blast
qed

text \<open>
  C10. Sealing and resuming keeps the log: the log resumed from the seal on a fresh store has
  exactly the active views of the original, and stays in lockstep with it: whatever items are
  appended to the original, appending their trees to the resumed log succeeds and leaves the same
  active views and count, so the same member roots.  Frozen algorithms are not carried over.
\<close>

theorem resume_in_lockstep:
  assumes "reachable_log memory_ops mem_new k L items" "0 < lg_count L"
    and "\<forall>a v. map_of (lg_algs L) a = Some v \<and> is_active v \<longrightarrow> hash_map hashers a = Some (av_hasher v)"
    and "list_all (\<lambda>it. safe_item it L) its" "append_items memory_ops L its = Inr L1"
  shows "\<exists>b L' L1'. log_seal memory_ops L = Inr b \<and> log_resume memory_ops b mem_new hashers = Inr L'
    \<and> continues mem_wf mem_abs L L'
    \<and> append_items memory_ops L' (map (\<lambda>it. TreeItem (item_tree it)) its) = Inr L1' \<and> continues mem_wf mem_abs L1 L1'"
proof -
  have inv: "log_inv mem_wf mem_abs L items" by (rule mem.reachable_inv [OF assms(1) mem_new_ok])
  have hs: "hash_map hashers a = Some (av_hasher v)" if "map_of (lg_algs L) a = Some v" "is_active v" for a v
    using assms(3) that by blast
  obtain L' where L': "log_resume memory_ops (sealed_of L items) mem_new hashers = Inr L'" "continues mem_wf mem_abs L L'"
    using mem.resumed [OF inv mem_new_ok hs] by blast
  obtain L1' where "append_items memory_ops L' (map (\<lambda>it. TreeItem (item_tree it)) its) = Inr L1'"
    "continues mem_wf mem_abs L1 L1'"
    using mem.continue_items [OF inv assms(4,5) L'(2)] by blast
  then show ?thesis using mem.seal_at [OF inv assms(2)] L' by (auto simp: log_seal_def)
qed

theorem resume_in_lockstep_witness:
  "\<exists>L L1 b L' L1'. log_shape L = toy_shape \<and> append_items memory_ops L [LeafItem [7]] = Inr L1
    \<and> log_seal memory_ops L = Inr b \<and> log_resume memory_ops b mem_new [(1, tagged_hasher)] = Inr L'
    \<and> append_items memory_ops L' [TreeItem (Leaf [7])] = Inr L1' \<and> continues mem_wf mem_abs L1 L1'"
proof -
  obtain L where L: "run_state 2 toy_shape toy_items L" using toy_run by blast
  then have re: "reachable_log memory_ops mem_new 2 L toy_items" and sh: "log_shape L = toy_shape"
    by (simp_all add: run_state_def)
  obtain v0 v1 where v: "lg_algs L = [(0, v0), (1, v1)]" "av_hasher v0 = tagged_hasher" "av_hasher v1 = tagged_hasher"
    "av_epochs v0 = [(0, 2)]" "av_epochs v1 = [(1, u64_max)]" "lg_count L = 2" "lg_kind L = Flat" by (rule toy_algs [OF sh])
  have inv: "log_inv mem_wf mem_abs L toy_items" by (rule run_state_inv [OF L])
  have safe: "safe_item (LeafItem [7]) L" using v by (simp add: safe_item_def tagged_safe)
  have "is_active v1" "\<not> is_active v0" using v by (simp_all add: is_active_def epochs_open_def u64_max_def)
  moreover have "2 < log_capacity" by (simp add: log_capacity_def)
  ultimately obtain L1 where L1: "append_leaf memory_ops L [7] = Inr L1"
    using mem.inv_append_leaf [OF inv safe] v by auto
  have hs: "\<forall>a v. map_of (lg_algs L) a = Some v \<and> is_active v \<longrightarrow> hash_map [(1, tagged_hasher)] a = Some (av_hasher v)"
    using v \<open>\<not> is_active v0\<close> by (auto simp: hash_map_def)
  have its: "list_all (\<lambda>it. safe_item it L) [LeafItem [7]]" "append_items memory_ops L [LeafItem [7]] = Inr L1"
    using safe L1 by simp_all
  have "0 < lg_count L" using v by simp
  from resume_in_lockstep [OF re this hs its] show ?thesis using sh its(2) by auto
qed

end
