(* ===== verification/Poly_Audit.thy ===== *)
theory Poly_Audit
  imports Poly_Log_Past Poly_Log_Seal
begin

text \<open>
  The audit of \<^verbatim>\<open>polydigest/src/tree.rs\<close>: \<open>verify_audit_payload\<close> replays every position of the log
  against the timeline the payload commits, keeps one rolling frontier per active algorithm and
  compares the recomputed combined roots.  \<open>Inr False\<close> is the verdict \<^verbatim>\<open>Ok(false)\<close>; inside the
  loops an early \<^verbatim>\<open>return Ok(false)\<close> is \<open>Inr None\<close>.
\<close>

section \<open>The audit\<close>

definition bindV :: "'e + 'a option \<Rightarrow> ('a \<Rightarrow> 'e + 'b option) \<Rightarrow> 'e + 'b option" where
  "bindV m f = bindE m (\<lambda>r. case r of None \<Rightarrow> Inr None | Some a \<Rightarrow> f a)"

lemma bindV_simps [simp]:
  "bindV (Inl e) f = Inl e" "bindV (Inr None) f = Inr None" "bindV (Inr (Some a)) f = f a"
  by (simp_all add: bindV_def)

lemma bindV_Some_iff: "bindV m f = Inr (Some b) \<longleftrightarrow> (\<exists>a. m = Inr (Some a) \<and> f a = Inr (Some b))"
  by (auto simp: bindV_def bindE_Inr_iff split: option.splits)

text \<open>Step 1: the structure of the payload.\<close>

definition audit_structure :: "'s merkle_log \<Rightarrow> audit_payload \<Rightarrow> bool" where
  "audit_structure L p =
     (let n = ap_tree_size p
      in if n = 0 \<or> n > lg_count L then False
         else if map fst (committed_epochs_at L n) \<noteq> map fst (ap_alg_epochs p) then False
         else if \<not> validate_committed_epochs (ap_alg_epochs p) n then False
         else if committed_active_algs (ap_alg_epochs p) n \<noteq> ap_active_algs p then False
         else \<not> (length (ap_combined_roots p) \<noteq> length (ap_active_algs p)
                \<or> list_ex (\<lambda>((alg, _), expected). alg \<noteq> expected) (zip (ap_combined_roots p) (ap_active_algs p))))"

text \<open>Step 2: the cell of an algorithm at a position.  \<open>data\<close> is the raw leaf of a flat log.\<close>

definition stored_cell ::
    "('s, 'e) storage \<Rightarrow> 's merkle_log \<Rightarrow> alg_id \<Rightarrow> u64 \<Rightarrow> 'e log_error + digest option" where
  "stored_cell S L alg i = map_err Storage (st_get_node S (lg_storage L) alg i 0)"

definition leaf_data ::
    "('s, 'e) storage \<Rightarrow> 's merkle_log \<Rightarrow> u64 \<Rightarrow> 'e log_error + bytes option" where
  "leaf_data S L i =
     (if lg_kind L = Flat then bindE (map_err Storage (st_get_leaf S (lg_storage L) i)) (\<lambda>d. Inr (Some d))
      else Inr None)"

definition audit_cell ::
    "('s, 'e) storage \<Rightarrow> 's merkle_log \<Rightarrow> audit_payload \<Rightarrow> bytes option \<Rightarrow> u64 \<Rightarrow> alg_id \<Rightarrow> alg_view \<Rightarrow>
     'e log_error + digest option" where
  "audit_cell S L p data i alg view =
     (let h = av_hasher view
      in case committed_active_at (ap_alg_epochs p) alg i of
           Some True \<Rightarrow>
             (case data of
                Some d \<Rightarrow>
                  let expected = hs_leaf h d
                  in bindE (stored_cell S L alg i) (\<lambda>cell. case cell of
                       Some stored \<Rightarrow> if \<not> constant_time_eq expected stored then Inr None else Inr (Some expected)
                     | None \<Rightarrow> Inr (Some expected))
              | None \<Rightarrow>
                  bindE (stored_cell S L alg i) (\<lambda>cell. case cell of
                    Some v \<Rightarrow> Inr (Some v)
                  | None \<Rightarrow> if alg \<in> set (ap_active_algs p) then Inr None else Inr (Some (hs_null h))))
         | Some False \<Rightarrow>
             bindE (stored_cell S L alg i) (\<lambda>cell. case cell of
               Some stored \<Rightarrow> if \<not> constant_time_eq stored (hs_null h) then Inr None else Inr (Some (hs_null h))
             | None \<Rightarrow> Inr (Some (hs_null h)))
         | None \<Rightarrow> Inr None)"

fun audit_pop :: "nat \<Rightarrow> digest list \<Rightarrow> digest list \<Rightarrow> (digest list \<times> digest list) option" where
  "audit_pop 0 frontier children = Some (frontier, rev children)"
| "audit_pop (Suc m) frontier children =
     (if frontier = [] then None else audit_pop m (butlast frontier) (children @ [last frontier]))"

fun audit_merge ::
    "hasher \<Rightarrow> nat \<Rightarrow> alg_id \<Rightarrow> nat \<Rightarrow> digest list \<Rightarrow> 'e log_error + digest list option" where
  "audit_merge h k alg 0 frontier = Inr (Some frontier)"
| "audit_merge h k alg (Suc m) frontier =
     (if length frontier < k then Inr None
      else case audit_pop k frontier [] of
             None \<Rightarrow> Inl (CorruptedMetadata alg AuditUnderflow)
           | Some (rest, children) \<Rightarrow> audit_merge h k alg m (rest @ [nary_mr h children]))"

text \<open>One position: every committed algorithm in the order of the timeline.\<close>

fun audit_row ::
    "('s, 'e) storage \<Rightarrow> 's merkle_log \<Rightarrow> audit_payload \<Rightarrow> bytes option \<Rightarrow> u64 \<Rightarrow> timeline \<Rightarrow>
     (alg_id \<Rightarrow> digest list option) \<Rightarrow> 'e log_error + (alg_id \<Rightarrow> digest list option) option" where
  "audit_row S L p data i [] frontiers = Inr (Some frontiers)"
| "audit_row S L p data i ((alg, _) # tml) frontiers =
     (case map_of (lg_algs L) alg of None \<Rightarrow> Inl (UnknownAlgorithm alg) | Some view \<Rightarrow>
        bindV (audit_cell S L p data i alg view) (\<lambda>digest.
          case frontiers alg of
            None \<Rightarrow> audit_row S L p data i tml frontiers
          | Some frontier \<Rightarrow>
              bindE (ok_or LogStuck (reduction_count i (lg_arity L))) (\<lambda>merges.
                bindV (audit_merge (av_hasher view) (lg_arity L) alg merges (frontier @ [digest])) (\<lambda>frontier'.
                  audit_row S L p data i tml (frontiers(alg \<mapsto> frontier'))))))"

fun audit_stream ::
    "('s, 'e) storage \<Rightarrow> 's merkle_log \<Rightarrow> audit_payload \<Rightarrow> u64 list \<Rightarrow>
     (alg_id \<Rightarrow> digest list option) \<Rightarrow> 'e log_error + (alg_id \<Rightarrow> digest list option) option" where
  "audit_stream S L p [] frontiers = Inr (Some frontiers)"
| "audit_stream S L p (i # is) frontiers =
     bindE (leaf_data S L i) (\<lambda>data.
       bindV (audit_row S L p data i (ap_alg_epochs p) frontiers) (audit_stream S L p is))"

text \<open>Step 3: the member roots of the frontiers, and the comparison of the combined roots.\<close>

definition raw_root :: "hasher \<Rightarrow> nat \<Rightarrow> digest list \<Rightarrow> digest" where
  "raw_root h k frontier = (if frontier = [] then hs_empty h else fold_frontier frontier k (nary_mr h))"

definition audit_root ::
    "'s merkle_log \<Rightarrow> (alg_id \<Rightarrow> digest list option) \<Rightarrow> alg_id \<Rightarrow> 'e log_error + (alg_id \<times> digest)" where
  "audit_root L frontiers alg = with_view L alg (\<lambda>view.
     bindE (ok_or LogStuck (frontiers alg)) (\<lambda>frontier.
       Inr (alg, raw_root (av_hasher view) (lg_arity L) frontier)))"

fun audit_compare ::
    "'s merkle_log \<Rightarrow> audit_payload \<Rightarrow> (alg_id \<times> digest) list \<Rightarrow> (alg_id \<times> digest) list \<Rightarrow>
     'e log_error + bool" where
  "audit_compare L p roots [] = Inr True"
| "audit_compare L p roots ((alg, cr) # rest) = with_view L alg (\<lambda>view.
     bindE (ok_or LogStuck (combined_root (av_hasher view) roots (ap_alg_epochs p) (ap_tree_size p) (lg_arity L)))
       (\<lambda>computed. if \<not> constant_time_eq computed cr then Inr False else audit_compare L p roots rest))"

definition verify_audit_payload ::
    "('s, 'e) storage \<Rightarrow> 's merkle_log \<Rightarrow> audit_payload \<Rightarrow> 'e log_error + bool" where
  "verify_audit_payload S L p =
     (if \<not> audit_structure L p then Inr False
      else bindE (audit_stream S L p [0..<ap_tree_size p]
                   (\<lambda>alg. if alg \<in> set (ap_active_algs p) then Some [] else None)) (\<lambda>res.
             case res of None \<Rightarrow> Inr False | Some frontiers \<Rightarrow>
               bindE (mapE (audit_root L frontiers) (ap_active_algs p)) (\<lambda>roots.
                 audit_compare L p roots (zip (ap_active_algs p) (map snd (ap_combined_roots p))))))"

section \<open>The rolling frontier\<close>

lemma audit_pop_spec:
  "m \<le> length F \<Longrightarrow> audit_pop m F ch = Some (take (length F - m) F, drop (length F - m) F @ rev ch)"
proof (induction m F ch rule: audit_pop.induct)
  case (2 m F ch)
  then obtain F' x where F: "F = F' @ [x]" by (cases F rule: rev_cases) auto
  with 2 show ?case by simp
qed simp

lemma audit_merge_loop:
  assumes k: "2 \<le> k"
  shows "weak_canon k gs j \<Longrightarrow> hsum k gs + k ^ j = N \<Longrightarrow> k ^ (j + m) dvd N \<Longrightarrow> \<not> k ^ Suc (j + m) dvd N \<Longrightarrow>
    \<exists>hs. canon k hs \<and> hsum k hs = N
      \<and> (audit_merge h k alg m (fdigs h k f (coords_of k 0 (gs @ [j]))) :: 'e log_error + _)
        = Inr (Some (fdigs h k f (coords_of k 0 hs)))"
proof (induction m arbitrary: gs j)
  case 0
  then have "canon k (gs @ [j]) \<and> hsum k (gs @ [j]) = N" using weak_canon_done [OF k] by simp
  then show ?case by (intro exI [of _ "gs @ [j]"]) simp
next
  case (Suc m)
  have "k ^ Suc j dvd N" using Suc.prems(3) by (rule dvd_trans [rotated]) (simp add: le_imp_power_dvd)
  from weak_canon_merge [OF k Suc.prems(1,2) this] obtain hs where
    hs: "gs = hs @ replicate (k - 1) j" "weak_canon k hs (Suc j)" "hsum k hs + k ^ Suc j = N"
    by blast
  have gs: "gs @ [j] = hs @ replicate k j"
    using hs(1) k by (cases k) (simp_all add: replicate_append_same)
  let ?A = "coords_of k 0 hs" and ?B = "coords_of k (hsum k hs) (replicate k j)"
  have B: "?B = map (\<lambda>i. (hsum k hs + i * k ^ j, j)) [0..<k]" by (rule coords_of_replicate)
  have par: "nary_mr h (fdigs h k f ?B) = pdig h k f (hsum k hs) (Suc j)" by (simp add: B fdigs_def o_def)
  have F: "fdigs h k f (coords_of k 0 (gs @ [j])) = fdigs h k f ?A @ fdigs h k f ?B"
    unfolding gs by (simp add: coords_of_append)
  have len: "length ?B = k" by (simp add: B)
  have up: "fdigs h k f ?A @ [pdig h k f (hsum k hs) (Suc j)] = fdigs h k f (coords_of k 0 (hs @ [Suc j]))"
    by (simp add: coords_of_append fdigs_single del: pdig.simps)
  have "(audit_merge h k alg (Suc m) (fdigs h k f (coords_of k 0 (gs @ [j]))) :: 'e log_error + _)
      = audit_merge h k alg m (fdigs h k f (coords_of k 0 (hs @ [Suc j])))"
    unfolding F using len by (simp add: audit_pop_spec par up del: pdig.simps)
  then show ?case using Suc.IH [OF hs(2,3)] Suc.prems by simp
qed

lemma audit_merge_spec:
  assumes k: "2 \<le> k" and n: "n + 1 < u64_limit" and c: "reduction_count n k = Some c"
  shows "(audit_merge h k alg c (fdigs h k f (frontier_for_size n k) @ [f n]) :: 'e log_error + _)
    = Inr (Some (fdigs h k f (frontier_for_size (n + 1) k)))"
proof -
  obtain hs where hs: "frontier_for_size n k = coords_of k 0 hs" "canon k hs" "hsum k hs = n"
    using frontier_canon [OF k, of n] n by auto
  have c': "k ^ (0 + c) dvd n + 1" "\<not> k ^ Suc (0 + c) dvd n + 1"
    using reduction_count_Some [OF k, of n] c by auto
  have N: "hsum k hs + k ^ 0 = n + 1" using hs(3) by simp
  have F: "fdigs h k f (frontier_for_size n k) @ [f n] = fdigs h k f (coords_of k 0 (hs @ [0]))"
    using hs by (simp add: coords_of_append fdigs_single)
  from audit_merge_loop [OF k canon_weak [OF hs(2)] N c', of h alg f] obtain gs where
    gs: "canon k gs" "hsum k gs = n + 1"
      "(audit_merge h k alg c (fdigs h k f (coords_of k 0 (hs @ [0]))) :: 'e log_error + _)
        = Inr (Some (fdigs h k f (coords_of k 0 gs)))"
    by blast
  have "frontier_for_size (n + 1) k = coords_of k 0 gs"
    using gs(1,2) n by (intro frontier_unique [OF k]) simp_all
  with gs(3) show ?thesis by (simp add: F)
qed

lemma raw_root_bag: "raw_root h k F = bag_peaks h F k"
  by (simp add: raw_root_def bag_peaks_fold) (simp add: bag_peaks_def bag_shape_def)

section \<open>What an accepting audit has checked\<close>

text \<open>The digest of a cell, as the store and the committed timeline determine it.\<close>

definition cell_digest :: "('s, 'e) storage \<Rightarrow> 's merkle_log \<Rightarrow> timeline \<Rightarrow> alg_id \<Rightarrow> u64 \<Rightarrow> digest" where
  "cell_digest S L tml a i =
     (let h = av_hasher (view_of L a)
      in if committed_active_at tml a i \<noteq> Some True then hs_null h
         else if lg_kind L = Flat then hs_leaf h (projr (st_get_leaf S (lg_storage L) i))
         else (case projr (st_get_node S (lg_storage L) a i 0) of None \<Rightarrow> hs_null h | Some d \<Rightarrow> d))"

text \<open>
  The checks of one position: the raw leaf can be read, every committed algorithm is registered,
  and a stored cell holds the digest the timeline calls for.
\<close>

definition cell_ok :: "('s, 'e) storage \<Rightarrow> 's merkle_log \<Rightarrow> audit_payload \<Rightarrow> alg_id \<Rightarrow> u64 \<Rightarrow> bool" where
  "cell_ok S L p a i \<longleftrightarrow>
     map_of (lg_algs L) a \<noteq> None \<and> committed_active_at (ap_alg_epochs p) a i \<noteq> None
     \<and> (\<exists>cell. st_get_node S (lg_storage L) a i 0 = Inr cell
         \<and> (case cell of
              Some d \<Rightarrow> d = cell_digest S L (ap_alg_epochs p) a i
            | None \<Rightarrow> lg_kind L = Subtree \<and> committed_active_at (ap_alg_epochs p) a i = Some True \<longrightarrow>
                a \<notin> set (ap_active_algs p)))"

definition row_ok :: "('s, 'e) storage \<Rightarrow> 's merkle_log \<Rightarrow> audit_payload \<Rightarrow> u64 \<Rightarrow> bool" where
  "row_ok S L p i \<longleftrightarrow>
     (lg_kind L = Flat \<longrightarrow> (\<exists>d. st_get_leaf S (lg_storage L) i = Inr d))
     \<and> list_all (\<lambda>(a, _). cell_ok S L p a i) (ap_alg_epochs p)"

lemma audit_cell_iff:
  assumes v: "map_of (lg_algs L) a = Some v" and data: "leaf_data S L i = (Inr data :: 'e log_error + _)"
  shows "(audit_cell S L p data i a v :: 'e log_error + _) = Inr (Some d) \<longleftrightarrow>
    cell_ok S L p a i \<and> d = cell_digest S L (ap_alg_epochs p) a i"
proof -
  have va: "view_of L a = v" using v by (simp add: view_of_def)
  show ?thesis
  proof (cases "st_get_node S (lg_storage L) a i 0")
    case (Inl e)
    then show ?thesis
      by (auto simp: audit_cell_def stored_cell_def cell_ok_def Let_def split: option.splits bool.splits)
  next
    case (Inr cell)
    have flat: "lg_kind L = Flat \<Longrightarrow> data = Some (projr (st_get_leaf S (lg_storage L) i))"
      "lg_kind L \<noteq> Flat \<Longrightarrow> data = None"
      using data by (auto simp: leaf_data_def bindE_Inr_iff split: if_splits)
    have kinds: "lg_kind L = Subtree \<longleftrightarrow> lg_kind L \<noteq> Flat" by (cases "lg_kind L") simp_all
    show ?thesis
    proof (cases "committed_active_at (ap_alg_epochs p) a i")
      case None
      then show ?thesis by (simp add: audit_cell_def cell_ok_def Let_def)
    next
      case (Some act)
      then show ?thesis
        using Inr v va flat kinds
        by (cases act; cases cell; cases "lg_kind L = Flat")
          (auto simp: audit_cell_def stored_cell_def cell_ok_def cell_digest_def Let_def)
    qed
  qed
qed

text \<open>The frontiers after \<open>m\<close> positions.\<close>

definition audit_frontiers ::
    "('s, 'e) storage \<Rightarrow> 's merkle_log \<Rightarrow> audit_payload \<Rightarrow> nat \<Rightarrow> alg_id \<Rightarrow> digest list option" where
  "audit_frontiers S L p m a =
     (if a \<in> set (ap_active_algs p)
      then Some (fdigs (av_hasher (view_of L a)) (lg_arity L) (cell_digest S L (ap_alg_epochs p) a)
             (frontier_for_size m (lg_arity L)))
      else None)"

lemma audit_row_success:
  assumes data: "leaf_data S L i = (Inr data :: 'e log_error + _)"
  shows "(audit_row S L p data i tml fs :: 'e log_error + _) = Inr (Some fs') \<Longrightarrow> list_all (\<lambda>(a, _). cell_ok S L p a i) tml"
proof (induction tml arbitrary: fs)
  case (Cons q tml)
  obtain a es where q: "q = (a, es)" by (cases q)
  obtain v where v: "map_of (lg_algs L) a = Some v" using Cons.prems by (auto simp: q split: option.splits)
  obtain d where d: "audit_cell S L p data i a v = Inr (Some d)"
    "(case fs a of None \<Rightarrow> audit_row S L p data i tml fs
          | Some frontier \<Rightarrow>
              bindE (ok_or LogStuck (reduction_count i (lg_arity L))) (\<lambda>merges.
                bindV (audit_merge (av_hasher v) (lg_arity L) a merges (frontier @ [d])) (\<lambda>frontier'.
                  audit_row S L p data i tml (fs(a \<mapsto> frontier'))))) = Inr (Some fs')"
    using Cons.prems by (auto simp: q v bindV_Some_iff)
  have "list_all (\<lambda>(a, _). cell_ok S L p a i) tml"
    using d(2) Cons.IH by (auto simp: bindE_Inr_iff bindV_Some_iff split: option.splits)
  moreover have "cell_ok S L p a i" using d(1) audit_cell_iff [OF v data] by blast
  ultimately show ?case by (simp add: q)
qed simp

lemma audit_row_spec:
  assumes data: "leaf_data S L i = (Inr data :: 'e log_error + _)" and k: "2 \<le> lg_arity L" and i: "i + 1 < u64_limit"
    and ok: "list_all (\<lambda>(a, _). cell_ok S L p a i) tml" and d: "distinct (map fst tml)"
    and fs: "\<And>a. a \<in> fst ` set tml \<Longrightarrow> fs a = audit_frontiers S L p i a"
  shows "(audit_row S L p data i tml fs :: 'e log_error + _)
    = Inr (Some (\<lambda>a. if a \<in> fst ` set tml then audit_frontiers S L p (i + 1) a else fs a))"
  using ok d fs
proof (induction tml arbitrary: fs)
  case (Cons q tml)
  obtain a es where q: "q = (a, es)" by (cases q)
  let ?f = "cell_digest S L (ap_alg_epochs p) a" and ?k = "lg_arity L"
  have cok: "cell_ok S L p a i" using Cons.prems(1) by (simp add: q)
  then obtain v where v: "map_of (lg_algs L) a = Some v" by (auto simp: cell_ok_def)
  have va: "view_of L a = v" using v by (simp add: view_of_def)
  have c: "audit_cell S L p data i a v = Inr (Some (?f i))" using cok audit_cell_iff [OF v data] by blast
  obtain m where m: "reduction_count i ?k = Some m" using reduction_count_Some [OF k] by metis
  have fa: "fs a = audit_frontiers S L p i a" using Cons.prems(3) by (simp add: q)
  have na: "a \<notin> fst ` set tml" using Cons.prems(2) by (simp add: q)
  show ?case
  proof (cases "a \<in> set (ap_active_algs p)")
    case True
    have f1: "fs a = Some (fdigs (av_hasher v) ?k ?f (frontier_for_size i ?k))"
      using fa True by (simp add: audit_frontiers_def va)
    let ?fs = "fs(a \<mapsto> fdigs (av_hasher v) ?k ?f (frontier_for_size (i + 1) ?k))"
    have "(audit_row S L p data i (q # tml) fs :: 'e log_error + _) = audit_row S L p data i tml ?fs"
      by (simp add: q v c f1 m audit_merge_spec [OF k i m, of "av_hasher v" a ?f, simplified])
    also have "\<dots> = Inr (Some (\<lambda>b. if b \<in> fst ` set tml then audit_frontiers S L p (i + 1) b else ?fs b))"
      using Cons.prems na by (intro Cons.IH) (auto simp: q)
    also have "(\<lambda>b. if b \<in> fst ` set tml then audit_frontiers S L p (i + 1) b else ?fs b)
        = (\<lambda>b. if b \<in> fst ` set (q # tml) then audit_frontiers S L p (i + 1) b else fs b)"
      using True by (auto simp: fun_eq_iff q audit_frontiers_def va)
    finally show ?thesis .
  next
    case False
    have f1: "fs a = None" using fa False by (simp add: audit_frontiers_def)
    have "(audit_row S L p data i (q # tml) fs :: 'e log_error + _) = audit_row S L p data i tml fs"
      by (simp add: q v c f1)
    also have "\<dots> = Inr (Some (\<lambda>b. if b \<in> fst ` set tml then audit_frontiers S L p (i + 1) b else fs b))"
      using Cons.prems na by (intro Cons.IH) (auto simp: q)
    also have "(\<lambda>b. if b \<in> fst ` set tml then audit_frontiers S L p (i + 1) b else fs b)
        = (\<lambda>b. if b \<in> fst ` set (q # tml) then audit_frontiers S L p (i + 1) b else fs b)"
      using False f1 by (auto simp: fun_eq_iff q audit_frontiers_def)
    finally show ?thesis .
  qed
qed simp

lemma audit_stream_success:
  "(audit_stream S L p is fs :: 'e log_error + _) = Inr (Some fs') \<Longrightarrow> i \<in> set is \<Longrightarrow> row_ok S L p i"
proof (induction "is" arbitrary: fs)
  case (Cons j js)
  obtain data fs1 where data: "leaf_data S L j = (Inr data :: 'e log_error + _)"
    and row: "(audit_row S L p data j (ap_alg_epochs p) fs :: 'e log_error + _) = Inr (Some fs1)"
    and rest: "(audit_stream S L p js fs1 :: 'e log_error + _) = Inr (Some fs')"
    using Cons.prems(1) by (auto simp: bindE_Inr_iff bindV_Some_iff)
  have "row_ok S L p j"
    using data audit_row_success [OF data row] by (auto simp: row_ok_def leaf_data_def bindE_Inr_iff)
  then show ?case using Cons.IH [OF rest] Cons.prems(2) by auto
qed simp

lemma row_leaf_data: "row_ok S L p i \<Longrightarrow> \<exists>data. leaf_data S L i = (Inr data :: 'e log_error + _)"
  for S :: "('s, 'e) storage"
  by (auto simp: row_ok_def leaf_data_def)

lemma audit_stream_spec:
  fixes S :: "('s, 'e) storage"
  assumes k: "2 \<le> lg_arity L" and d: "distinct (map fst (ap_alg_epochs p))"
    and act: "set (ap_active_algs p) \<subseteq> fst ` set (ap_alg_epochs p)"
  shows "m \<le> n \<Longrightarrow> n < u64_limit \<Longrightarrow> (\<And>i. m \<le> i \<Longrightarrow> i < n \<Longrightarrow> row_ok S L p i) \<Longrightarrow>
    audit_stream S L p [m..<n] (audit_frontiers S L p m) = Inr (Some (audit_frontiers S L p n))"
proof (induction "n - m" arbitrary: m)
  case (Suc x)
  have m: "m < n" "m + 1 < u64_limit" using Suc.hyps(2) Suc.prems(2) by simp_all
  have ok: "row_ok S L p m" by (rule Suc.prems(3) [OF le_refl m(1)])
  obtain data where data: "leaf_data S L m = (Inr data :: 'e log_error + _)"
    using row_leaf_data [OF ok] by blast
  have "list_all (\<lambda>(a, _). cell_ok S L p a m) (ap_alg_epochs p)" using ok by (simp add: row_ok_def)
  note row = audit_row_spec [OF data k m(2) this d, of "audit_frontiers S L p m", OF refl]
  have out: "(\<lambda>a. if a \<in> fst ` set (ap_alg_epochs p) then audit_frontiers S L p (m + 1) a
      else audit_frontiers S L p m a) = audit_frontiers S L p (m + 1)"
    using act by (auto simp: fun_eq_iff audit_frontiers_def)
  have "audit_stream S L p [m + 1..<n] (audit_frontiers S L p (m + 1)) = Inr (Some (audit_frontiers S L p n))"
    using Suc.hyps(2) Suc.prems by (intro Suc.hyps(1)) simp_all
  then show ?case
    unfolding upt_conv_Cons [OF m(1)] by (simp add: data row [unfolded out, simplified])
qed simp

text \<open>The member roots an audit recomputes: functions of the raw leaves and the committed timeline.\<close>

definition audited_roots ::
    "('s, 'e) storage \<Rightarrow> 's merkle_log \<Rightarrow> audit_payload \<Rightarrow> (alg_id \<times> digest) list" where
  "audited_roots S L p =
     map (\<lambda>a. (a, bag_peaks (av_hasher (view_of L a)) (fdigs (av_hasher (view_of L a)) (lg_arity L)
              (cell_digest S L (ap_alg_epochs p) a) (frontier_for_size (ap_tree_size p) (lg_arity L))) (lg_arity L)))
       (ap_active_algs p)"

lemma audit_compare_iff:
  "audit_compare L p roots xs = Inr True \<longleftrightarrow>
     list_all (\<lambda>(a, cr). map_of (lg_algs L) a \<noteq> None
       \<and> combined_root (av_hasher (view_of L a)) roots (ap_alg_epochs p) (ap_tree_size p) (lg_arity L) = Some cr) xs"
proof (induction xs)
  case (Cons x xs)
  obtain a cr where x: "x = (a, cr)" by (cases x)
  show ?case
    using Cons by (auto simp: x with_view_def view_of_def bindE_Inr_iff split: option.splits)
qed simp

lemma audit_structureD:
  assumes "audit_structure L p"
  shows "0 < ap_tree_size p" "ap_tree_size p \<le> lg_count L"
    "map fst (committed_epochs_at L (ap_tree_size p)) = map fst (ap_alg_epochs p)"
    "validate_committed_epochs (ap_alg_epochs p) (ap_tree_size p)"
    "committed_active_algs (ap_alg_epochs p) (ap_tree_size p) = ap_active_algs p"
    "map fst (ap_combined_roots p) = ap_active_algs p"
proof -
  note s = assms [unfolded audit_structure_def Let_def]
  show "0 < ap_tree_size p" "ap_tree_size p \<le> lg_count L"
    "map fst (committed_epochs_at L (ap_tree_size p)) = map fst (ap_alg_epochs p)"
    "validate_committed_epochs (ap_alg_epochs p) (ap_tree_size p)"
    "committed_active_algs (ap_alg_epochs p) (ap_tree_size p) = ap_active_algs p"
    using s by (simp_all split: if_splits)
  show "map fst (ap_combined_roots p) = ap_active_algs p"
    using s lists_agree_iff' [of "ap_combined_roots p" "ap_active_algs p"] by (simp split: if_splits)
qed

lemma audit_exact:
  fixes S :: "('s, 'e) storage"
  assumes k: "arity_ok (lg_arity L)" and n: "lg_count L < u64_limit"
  shows "verify_audit_payload S L p = Inr True \<longleftrightarrow>
     audit_structure L p
     \<and> (\<forall>i < ap_tree_size p. row_ok S L p i)
     \<and> list_all (\<lambda>(a, cr). combined_root (av_hasher (view_of L a)) (audited_roots S L p) (ap_alg_epochs p)
           (ap_tree_size p) (lg_arity L) = Some cr) (ap_combined_roots p)"
proof (cases "audit_structure L p")
  case True
  note st = audit_structureD [OF True]
  let ?n = "ap_tree_size p" and ?k = "lg_arity L"
  have k2: "2 \<le> ?k" using k by (simp add: arity_ok_def)
  have nl: "?n < u64_limit" using st(2) n by simp
  have keys: "bt_keys (ap_alg_epochs p)" using st(4) by (simp add: validate_committed_iff)
  have d: "distinct (map fst (ap_alg_epochs p))" by (rule bt_keys_distinct [OF keys])
  have act: "set (ap_active_algs p) \<subseteq> fst ` set (ap_alg_epochs p)"
    using st(1) by (auto simp: st(5) [symmetric] committed_active_algs_iff)
  have init: "(\<lambda>alg. if alg \<in> set (ap_active_algs p) then Some [] else None) = audit_frontiers S L p 0"
    using frontier_empty_iff [OF k2, of 0] by (auto simp: fun_eq_iff audit_frontiers_def u64_limit_def fdigs_def)
  have zip: "zip (ap_active_algs p) (map snd (ap_combined_roots p)) = ap_combined_roots p"
    unfolding st(6) [symmetric] by (rule zip_map_fst_snd)
  show ?thesis
  proof (cases "\<forall>i < ?n. row_ok S L p i")
    case rows: True
    have stream: "audit_stream S L p [0..<?n] (audit_frontiers S L p 0) = Inr (Some (audit_frontiers S L p ?n))"
      using rows by (intro audit_stream_spec [OF k2 d act _ nl]) simp_all
    have reg: "map_of (lg_algs L) a \<noteq> None" if "a \<in> set (ap_active_algs p)" for a
      using rows st(1) act that by (force simp: row_ok_def list_all_iff cell_ok_def)
    have roots: "mapE (audit_root L (audit_frontiers S L p ?n)) (ap_active_algs p)
        = (Inr (audited_roots S L p) :: 'e log_error + _)"
      unfolding audited_roots_def
    proof (rule mapE_Inr)
      fix a assume a: "a \<in> set (ap_active_algs p)"
      then obtain v where "map_of (lg_algs L) a = Some v" using reg by blast
      then show "audit_root L (audit_frontiers S L p ?n) a = (Inr (a, bag_peaks (av_hasher (view_of L a))
          (fdigs (av_hasher (view_of L a)) ?k (cell_digest S L (ap_alg_epochs p) a) (frontier_for_size ?n ?k)) ?k)
          :: 'e log_error + _)"
        using a by (simp add: audit_root_def with_view_def audit_frontiers_def raw_root_bag view_of_def)
    qed
    have "verify_audit_payload S L p = (audit_compare L p (audited_roots S L p) (ap_combined_roots p) :: 'e log_error + _)"
      using True by (simp add: verify_audit_payload_def init stream roots zip)
    moreover have "map_of (lg_algs L) a \<noteq> None" if "(a, cr) \<in> set (ap_combined_roots p)" for a cr
      using reg that by (force simp: st(6) [symmetric])
    ultimately show ?thesis
      using True rows by (auto simp: audit_compare_iff list_all_iff)
  next
    case rows: False
    have "verify_audit_payload S L p \<noteq> (Inr True :: 'e log_error + _)"
    proof
      assume "verify_audit_payload S L p = (Inr True :: 'e log_error + _)"
      then obtain fs' where "audit_stream S L p [0..<?n] (audit_frontiers S L p 0) = Inr (Some fs')"
        using True by (auto simp: verify_audit_payload_def init bindE_Inr_iff split: option.splits)
      from audit_stream_success [OF this] show False using rows by simp
    qed
    then show ?thesis using rows by simp
  qed
qed (simp add: verify_audit_payload_def)

section \<open>An honest payload is accepted\<close>

context lawful_storage begin

lemma leaf_at:
  assumes inv: "log_inv valid content L items" and flat: "lg_kind L = Flat" and i: "i < lg_count L"
  shows "\<exists>d. items ! i = LeafItem d \<and> st_get_leaf S (lg_storage L) i = Inr d"
proof -
  note iv = log_invD [OF inv]
  have "list_all (\<lambda>it. item_kind it = Flat) items" using iv(5) unfolding flat .
  from flat_items [OF this] obtain ds where "items = map LeafItem ds" "leaf_payloads items = ds" by blast
  then show ?thesis using iv(3,8) i get_leaf [OF iv(1), of i] by simp
qed

lemma cell_digest_at:
  assumes inv: "log_inv valid content L items" and n: "n \<le> lg_count L" and i: "i < n"
    and v: "map_of (lg_algs L) a = Some v" and e: "epochs_at v n \<noteq> None"
  shows "cell_digest S L (committed_epochs_at L n) a i = history items v i"
    and "committed_active_at (committed_epochs_at L n) a i = Some (is_active_at v i)"
    and "\<exists>cell. st_get_node S (lg_storage L) a i 0 = Inr cell
      \<and> (cell = Some (history items v i) \<or> cell = None \<and> \<not> is_active_at v i)"
proof -
  note iv = log_invD [OF inv] and ok = alg_okD [OF log_invD(11) [OF inv v]]
  have va: "view_of L a = v" using v by (simp add: view_of_def)
  have il: "i < length items" using n i iv(3) by simp
  show act: "committed_active_at (committed_epochs_at L n) a i = Some (is_active_at v i)"
    by (rule committed_valid(3) [OF inv n i v e])
  let ?N = "so_nodes (content (lg_storage L))"
  have node: "st_get_node S (lg_storage L) a i 0 = Inr (?N (a, i, 0))" by (rule get_node [OF iv(1)])
  have pd: "pdig (av_hasher v) (lg_arity L) (history items v) i 0 = history items v i" by simp
  have cell: "?N (a, i, 0) = Some (history items v i)" if "is_active_at v i"
  proof -
    have "i < tree_size v (length items)"
      using closed_inactive(1) [OF ok(3) _ that] il tree_size_open [of v "length items"] by (cases "is_active v") auto
    moreover have "active_range v i (i + 1)"
      using that inactive_range_leaf [of v i "i + 1" i] by auto
    ultimately show ?thesis using ok(6) [where l = i and t = 0] by (simp add: pd)
  qed
  show "\<exists>cell. st_get_node S (lg_storage L) a i 0 = Inr cell
      \<and> (cell = Some (history items v i) \<or> cell = None \<and> \<not> is_active_at v i)"
    using node cell ok(7) [where l = i and t = 0] by (cases "?N (a, i, 0)") (auto simp: pd)
  show "cell_digest S L (committed_epochs_at L n) a i = history items v i"
  proof (cases "is_active_at v i")
    case True
    show ?thesis
    proof (cases "lg_kind L")
      case Flat
      have "i < lg_count L" using n i by simp
      then obtain d where "items ! i = LeafItem d" "st_get_leaf S (lg_storage L) i = Inr d"
        using leaf_at [OF inv Flat] by blast
      then show ?thesis using True act il Flat by (simp add: cell_digest_def va history_def)
    next
      case Subtree
      then show ?thesis using True act cell node by (simp add: cell_digest_def va)
    qed
  qed (simp add: cell_digest_def act va history_inactive)
qed

lemma audit_complete:
  assumes inv: "log_inv valid content L items" and n: "n \<le> lg_count L" and p: "audit_payload_at S L log_id n = Inr p"
  shows "verify_audit_payload S L p = Inr True"
proof -
  note iv = log_invD [OF inv]
  have n0: "0 < n" and ne: "active_algs_at L n \<noteq> []"
    using p by (auto simp: audit_payload_at_def Let_def split: if_splits)
  obtain crs where crs: "mapE (\<lambda>a. bindE (combined_root_at S L a n) (\<lambda>cr. Inr (a, cr))) (active_algs_at L n) = Inr crs"
    and pe: "p = \<lparr>ap_log_id = log_id, ap_tree_size = n, ap_active_algs = active_algs_at L n,
                 ap_combined_roots = crs, ap_alg_epochs = committed_epochs_at L n\<rparr>"
    using p n0 ne by (auto simp: audit_payload_at_def Let_def bindE_Inr_iff)
  have l2: "list_all2 (\<lambda>a y. \<exists>cr. combined_root_at S L a n = Inr cr \<and> y = (a, cr)) (active_algs_at L n) crs"
    using crs unfolding mapE_Inr_iff by (rule list_all2_mono) (auto simp: bindE_Inr_iff)
  have keys: "map fst crs = active_algs_at L n"
    using l2 by (induction rule: list_all2_induct) auto
  have cr: "a \<in> set (active_algs_at L n) \<and> combined_root_at S L a n = Inr cr" if "(a, cr) \<in> set crs" for a cr
    using l2 that by (induction rule: list_all2_induct) auto
  let ?tml = "committed_epochs_at L n" and ?k = "lg_arity L"
  have act: "committed_active_algs ?tml n = active_algs_at L n" by (rule committed_valid(2) [OF inv n n0])
  have "audit_structure L p"
    using n0 n committed_valid(1) [OF inv n] act keys lists_agree_iff' [of crs "active_algs_at L n"]
    by (simp add: audit_structure_def pe Let_def)
  moreover have "row_ok S L p i" if i: "i < n" for i
  proof -
    have "cell_ok S L p a i" if a: "(a, es) \<in> set ?tml" for a es
    proof -
      have "map_of ?tml a = Some es"
        using a bt_keys_distinct [OF committed_keys [OF iv(6)]] by (simp add: map_of_eq_Some_iff)
      then obtain v where v: "map_of (lg_algs L) a = Some v" "epochs_at v n \<noteq> None"
        unfolding committed_map [OF iv(6)] by (auto simp: bind_eq_Some_conv)
      show ?thesis
        using cell_digest_at [OF inv n i v] v(1) by (auto simp: cell_ok_def pe)
    qed
    moreover have "\<exists>d. st_get_leaf S (lg_storage L) i = Inr d" if "lg_kind L = Flat"
      using leaf_at [OF inv that, of i] i n by auto
    ultimately show ?thesis by (auto simp: row_ok_def list_all_iff pe)
  qed
  moreover have roots: "audited_roots S L p = history_roots L items n"
    unfolding audited_roots_def history_roots_def history_root_def pe audit_payload.simps
  proof (intro map_cong refl prod_eqI)
    fix a assume "a \<in> set (active_algs_at L n)"
    then obtain v where v: "map_of (lg_algs L) a = Some v" "is_active_at v (n - 1)"
      unfolding active_algs_iff [OF inv] by blast
    have va: "view_of L a = v" using v by (simp add: view_of_def)
    have "n - 1 < n" using n0 by simp
    note e = committed_valid(4) [OF inv n this v]
    have k: "2 \<le> ?k" by (rule iv(12))
    have "fdigs (av_hasher v) ?k (cell_digest S L ?tml a) (frontier_for_size n ?k)
        = fdigs (av_hasher v) ?k (history items v) (frontier_for_size n ?k)"
      unfolding fdigs_def
    proof (intro map_cong refl, clarify)
      fix l t assume c: "(l, t) \<in> set (frontier_for_size n ?k)"
      have "l + ?k ^ t \<le> n" by (rule frontier_bound [OF k size_bounds(1) [OF inv n] c])
      then show "pdig (av_hasher v) ?k (cell_digest S L ?tml a) l t = pdig (av_hasher v) ?k (history items v) l t"
        using k by (intro pdig_cong) (auto simp: cell_digest_at(1) [OF inv n _ v(1) e])
    qed
    then show "snd (a, bag_peaks (av_hasher (view_of L a)) (fdigs (av_hasher (view_of L a)) ?k
          (cell_digest S L ?tml a) (frontier_for_size n ?k)) ?k)
      = snd (a, bag_peaks (av_hasher (view_of L a)) (fdigs (av_hasher (view_of L a)) ?k
          (history items (view_of L a)) (frontier_for_size n ?k)) ?k)" by (simp add: va)
  qed simp
  moreover have "combined_root (av_hasher (view_of L a)) (history_roots L items n) ?tml n ?k = Some r"
    if "(a, r) \<in> set crs" for a r
    using combined_at [OF inv n, of a] cr [OF that] by auto
  ultimately show ?thesis
    unfolding audit_exact [OF iv(2) size_bounds(1) [OF inv le_refl]]
    by (auto simp: pe list_all_iff)
qed

end

section \<open>A resumed log\<close>

text \<open>A seeded store holds digests at the sealed frontier's coordinates only.\<close>

lemma frontier_no_leaf:
  assumes k: "2 \<le> k" and n: "n < u64_limit" "k \<le> n"
  shows "(0, 0) \<notin> set (frontier_for_size n k)"
proof
  assume mem: "(0, 0) \<in> set (frontier_for_size n k)"
  obtain hs where hs: "frontier_for_size n k = coords_of k 0 hs" "canon k hs" "hsum k hs = n"
    using frontier_canon [OF k n(1)] by blast
  show False
  proof (cases hs)
    case Nil
    then show ?thesis using mem hs by simp
  next
    case (Cons h gs)
    have "(0, 0) \<notin> set (coords_of k (0 + k ^ h) gs)"
      using coords_of_bound [of 0 0 k "0 + k ^ h" gs] k by auto
    then have "h = 0" using mem hs(1) Cons by simp
    then have "\<forall>x \<in> set hs. x = 0" using hs(2) by (simp add: Cons canon_def)
    then have "hs = replicate (length hs) 0" by (simp add: replicate_length_same)
    then obtain m where m: "hs = replicate m 0" by blast
    have "count_list hs 0 < k" using hs(2) by (simp add: canon_def)
    then show ?thesis 
      using hs(3) n(2) count_list_append_replicate [of "[]" m "0 :: nat" 0] unfolding m by simp
  qed
qed

lemma resume_views_nodes:
  "(resume_views k coords tml hs fs :: 'e log_error + _) = Inr views \<Longrightarrow> seed \<in> set (map snd views) \<Longrightarrow>
    (a, l, t, d) \<in> set (sd_nodes seed) \<Longrightarrow> (l, t) \<in> set coords"
proof (induction fs arbitrary: hs views)
  case (Cons q fs)
  obtain b peaks where q: "q = (b, peaks)" by (cases q)
  define es where "es = (case find (\<lambda>(i, _). i = b) tml of None \<Rightarrow> [(0, u64_max)] | Some (_, e) \<Rightarrow> e)"
  define view where "view h = \<lparr>av_hasher = h, av_epochs = es, av_frontier = peaks, av_coords = coords\<rparr>" for h
  define nodes where "nodes h = List.map_filter (\<lambda>((left, height), peak).
      if active_range (view h) left (left + k ^ height) then Some (b, left, height, peak) else None) (zip coords peaks)" for h
  obtain h rest where rest: "(resume_views k coords tml (hs(b := None)) fs :: 'e log_error + _) = Inr rest"
    and views: "views = (view h, \<lparr>sd_alg = b, sd_epochs = es, sd_nodes = nodes h\<rparr>) # rest"
    using Cons.prems(1) by (auto simp: q es_def view_def nodes_def Let_def bindE_Inr_iff split: option.splits)
  have "(l, t) \<in> set coords" if "(a, l, t, d) \<in> set (nodes h)"
    using that by (auto simp: nodes_def map_filter_def case_prod_beta dest: set_zip_leftD split: if_splits)
  then show ?case using Cons.IH [OF rest] Cons.prems(2,3) by (auto simp: views)
qed simp

lemma seeded_nodes:
  assumes "\<And>seed b x t d. seed \<in> set seeds \<Longrightarrow> (b, x, t, d) \<in> set (sd_nodes seed) \<Longrightarrow> (x, t) \<in> C" "(l, u) \<notin> C"
  shows "ms_nodes (fold (\<lambda>seed s. write_nodes (sd_nodes seed) (put_meta (sd_alg seed) (sd_epochs seed) s)) seeds s) (a, l, u)
    = ms_nodes s (a, l, u)"
  using assms(1)
proof (induction seeds arbitrary: s)
  case (Cons seed seeds)
  have one: "fold write_node nws N (a, l, u) = N (a, l, u)" if "\<And>b x t d. (b, x, t, d) \<in> set nws \<Longrightarrow> (x, t) \<in> C" for nws N
    using that
  proof (induction nws arbitrary: N)
    case (Cons nw nws)
    obtain b x t d where nw: "nw = (b, x, t, d)" by (cases nw)
    have "(x, t) \<in> C" using Cons.prems [of b x t d] by (simp add: nw)
    then have "(a, l, u) \<noteq> (b, x, t)" using assms(2) by auto
    moreover have "fold write_node nws N' (a, l, u) = N' (a, l, u)" for N'
      by (rule Cons.IH) (use Cons.prems in auto)
    ultimately show ?case by (auto simp: nw)
  qed simp
  have "(x, t) \<in> C" if "(b, x, t, d) \<in> set (sd_nodes seed)" for b x t d
    by (rule Cons.prems [OF _ that]) simp
  then have "fold write_node (sd_nodes seed) N (a, l, u) = N (a, l, u)" for N by (rule one)
  moreover have "ms_nodes (fold (\<lambda>seed s. write_nodes (sd_nodes seed)
      (put_meta (sd_alg seed) (sd_epochs seed) s)) seeds s') (a, l, u) = ms_nodes s' (a, l, u)" for s'
    by (rule Cons.IH [OF Cons.prems]) simp_all
  ultimately show ?case by (simp add: write_nodes_def put_meta_def)
qed simp

lemma resumed_nodes:
  assumes r: "log_resume memory_ops b mem_new hashers = Inr L" and n: "lg_count L < u64_limit" "lg_arity L \<le> lg_count L"
  shows "st_get_node memory_ops (lg_storage L) a 0 0 = Inr None"
proof -
  obtain views where k: "arity_ok (lg_arity L)"
    and v: "(resume_views (lg_arity L) (frontier_for_size (lg_count L) (lg_arity L)) (bs_alg_epochs b) (hash_map hashers)
      (sl_frontiers (bs_seal b)) :: memory_storage_error log_error + _) = Inr views"
    and s: "mem_apply mem_new [SeedFrontier (lg_count L) (map snd views)] = Inr (lg_storage L)"
    using r by (auto simp: log_resume_def memory_ops_def mem_append_count_def mem_load_algorithm_metas_def mem_new_def
        Let_def bindE_Inr_iff split: if_splits)
  have k2: "2 \<le> lg_arity L" using k by (simp add: arity_ok_def)
  note none = frontier_no_leaf [OF k2 n]
  have "lg_storage L = fold (\<lambda>seed s. write_nodes (sd_nodes seed) (put_meta (sd_alg seed) (sd_epochs seed) s))
      (map snd views) (mem_new\<lparr>ms_count := lg_count L\<rparr>)"
    using s by (auto simp: mem_apply_def bindE_Inr_iff)
  moreover have "ms_nodes (fold (\<lambda>seed s. write_nodes (sd_nodes seed) (put_meta (sd_alg seed) (sd_epochs seed) s))
      (map snd views) s0) (a, 0, 0) = ms_nodes s0 (a, 0, 0)" for s0
    by (rule seeded_nodes [OF resume_views_nodes [OF v] none])
  ultimately have "ms_nodes (lg_storage L) (a, 0, 0) = ms_nodes (mem_new\<lparr>ms_count := lg_count L\<rparr>) (a, 0, 0)"
    by simp
  then show ?thesis by (simp add: memory_ops_def mem_get_node_def mem_new_def)
qed

text \<open>The row of a tree log over a store that answers is a verdict or the next state.\<close>

lemma audit_merge_verdict: "\<exists>r. (audit_merge h k alg m F :: 'e log_error + _) = Inr r"
  by (induction m arbitrary: F) (auto simp: audit_pop_spec)

lemma audit_row_verdict:
  assumes k: "2 \<le> lg_arity L" and node: "\<And>a. \<exists>cell. st_get_node S (lg_storage L) a i 0 = Inr cell"
  shows "fst ` set tml \<subseteq> fst ` set (lg_algs L) \<Longrightarrow> \<exists>r. (audit_row S L p data i tml fs :: 'e log_error + _) = Inr r"
proof (induction tml arbitrary: fs)
  case (Cons q tml)
  obtain a es where q: "q = (a, es)" by (cases q)
  obtain v where v: "map_of (lg_algs L) a = Some v"
    using Cons.prems by (metis q fst_conv image_insert insert_subset list.set(2) map_of_eq_None_iff not_None_eq)
  obtain cell where "st_get_node S (lg_storage L) a i 0 = Inr cell" using node by blast
  then have "\<exists>c. (audit_cell S L p data i a v :: 'e log_error + _) = Inr c"
    by (simp add: audit_cell_def stored_cell_def Let_def split: option.split bool.split)
  then obtain c where c: "(audit_cell S L p data i a v :: 'e log_error + _) = Inr c" by blast
  obtain m where m: "reduction_count i (lg_arity L) = Some m" using reduction_count_Some [OF k] by metis
  have IH: "\<exists>r. (audit_row S L p data i tml fs' :: 'e log_error + _) = Inr r" for fs'
    using Cons by (simp add: q)
  show ?case
  proof (cases c)
    case (Some d)
    show ?thesis
    proof (cases "fs a")
      case F: (Some F)
      obtain r where "(audit_merge (av_hasher v) (lg_arity L) a m (F @ [d]) :: 'e log_error + _) = Inr r"
        using audit_merge_verdict by metis
      then show ?thesis using IH by (cases r) (simp_all add: q v c m Some F)
    qed (use IH in \<open>simp add: q v c Some\<close>)
  qed (simp add: q v c)
qed simp

lemma continues_timeline:
  assumes inv: "log_inv valid content L items" and c: "continues valid' content' L L'"
    and open_all: "list_all (\<lambda>(_, v). is_active v) (lg_algs L)"
  shows "committed_epochs_at L' n = committed_epochs_at L n" "fst ` set (lg_algs L') = fst ` set (lg_algs L)"
proof -
  have d: "distinct (map fst (lg_algs L))" "distinct (map fst (lg_algs L'))"
    using log_invD(6) [OF inv] c by (simp_all add: continues_def)
  have act: "is_active v" if "map_of (lg_algs L) a = Some v" for a v
    using open_all map_of_SomeD [OF that] by (auto simp: list_all_iff)
  have "map_of (lg_algs L') a = Some v \<longleftrightarrow> map_of (lg_algs L) a = Some v" for a v
    using c act by (auto simp: continues_def)
  then have m: "map_of (lg_algs L') = map_of (lg_algs L)"
    by (intro ext) (metis option.exhaust)
  show "committed_epochs_at L' n = committed_epochs_at L n"
    by (intro bt_keys_unique committed_keys d ext) (simp add: committed_map d m)
  show "fst ` set (lg_algs L') = fst ` set (lg_algs L)"
    using m by (metis dom_map_of_conv_image_fst)
qed

lemma resumed_audit:
  assumes inv: "log_inv mem_wf mem_abs L items" and k: "lg_arity L \<le> lg_count L"
    and open_all: "list_all (\<lambda>(_, v). is_active v) (lg_algs L)"
    and a: "map_of (lg_algs L) a = Some v" "is_active_at v 0" and last: "is_active_at v (lg_count L - 1)"
    and r: "log_resume memory_ops b mem_new hashers = Inr L'" and c: "continues mem_wf mem_abs L L'"
    and p: "verify_audit_payload memory_ops L p = Inr True" and n: "ap_tree_size p = lg_count L"
    and tml: "ap_alg_epochs p = committed_epochs_at L (lg_count L)" "ap_active_algs p = active_algs_at L (lg_count L)"
  shows "verify_audit_payload memory_ops L' p = Inr False"
proof -
  note iv = log_invD [OF inv] and c' = c [unfolded continues_def]
  let ?n = "lg_count L"
  have n0: "0 < ?n" using k iv(12) by simp
  have nl: "?n < u64_limit" by (rule mem.size_bounds(1) [OF inv le_refl])
  have eq: "lg_count L' = ?n" "lg_arity L' = lg_arity L" "lg_kind L' = Subtree" using c' by simp_all
  note t = continues_timeline [OF inv c open_all]
  have st: "audit_structure L p"
    using p audit_exact [OF iv(2) nl, of memory_ops p] by simp
  have st': "audit_structure L' p" using st unfolding audit_structure_def n eq(1) t(1) .
  have e: "epochs_at v ?n \<noteq> None" by (rule committed_valid(4) [OF inv le_refl _ a(1) last]) (use n0 in simp)
  have mem: "a \<in> set (ap_active_algs p)" using a(1) last n0 active_algs_iff [OF inv] by (auto simp: tml(2))
  have at0: "committed_active_at (ap_alg_epochs p) a 0 = Some True"
    using committed_valid(3) [OF inv le_refl n0 a(1) e] a(2) by (simp add: tml(1))
  have in_tml: "a \<in> fst ` set (ap_alg_epochs p)"
    using at0 by (force simp: committed_active_at_active dest: map_of_SomeD)
  have nodes: "st_get_node memory_ops (lg_storage L') b' 0 0 = Inr None" for b'
    by (rule resumed_nodes [OF r]) (use eq k nl in simp_all)
  have data: "leaf_data memory_ops L' 0 = (Inr None :: memory_storage_error log_error + _)"
    by (simp add: leaf_data_def eq)
  have keys: "fst ` set (ap_alg_epochs p) \<subseteq> fst ` set (lg_algs L')"
    using committed_map [OF iv(6), of ?n] t(2)
    by (force simp: tml(1) committed_epochs_at_def map_filter_def)
  define fs where "fs = (\<lambda>alg. if alg \<in> set (ap_active_algs p) then Some ([] :: digest list) else None)"
  obtain r where row: "(audit_row memory_ops L' p None 0 (ap_alg_epochs p) fs :: memory_storage_error log_error + _) = Inr r"
    using audit_row_verdict [OF _ _ keys] eq(2) iv(12) nodes by metis
  have "\<not> cell_ok memory_ops L' p a 0"
    using nodes [of a] mem at0 by (simp add: cell_ok_def eq(3))
  then have "\<not> list_all (\<lambda>(a, _). cell_ok memory_ops L' p a 0) (ap_alg_epochs p)"
    using in_tml by (auto simp: list_all_iff)
  then have "r = None" using audit_row_success [OF data] row by (cases r) auto
  moreover have "[0..<ap_tree_size p] = 0 # [1..<ap_tree_size p]" using n n0 by (simp add: upt_conv_Cons)
  ultimately show ?thesis
    using st' by (simp add: verify_audit_payload_def fs_def [symmetric] data row)
qed

text \<open>Two leaves under one algorithm.\<close>

lemma toy_pair_run: "\<exists>L. run_state 2 (2, 2, Flat, [(0, tagged_hasher, [(0, u64_max)])]) [LeafItem [1], LeafItem [2]] L"
proof -
  have cap: "1 < log_capacity" by (simp add: log_capacity_def)
  obtain L1 where "run_state 2 (2, 1, Flat, [(0, tagged_hasher, [(0, u64_max)])]) [LeafItem [1]] L1"
    using toy_leaf_run by blast
  from run_leaf [OF this cap, of "[2]"] show ?thesis
    by (auto simp: epochs_open_def tagged_safe numeral_2_eq_2)
qed

lemma audit_payload_fields:
  assumes "audit_payload_of S L log_id = Inr p"
  shows "ap_tree_size p = lg_count L" "ap_alg_epochs p = committed_epochs_at L (lg_count L)"
    "ap_active_algs p = active_algs_at L (lg_count L)" "0 < lg_count L"
  using assms by (auto simp: audit_payload_of_def audit_payload_at_def Let_def bindE_Inr_iff split: if_splits)

context lawful_storage begin

lemma audit_payload_exists:
  assumes inv: "log_inv valid content L items" and n: "n \<le> lg_count L" and ne: "active_algs_at L n \<noteq> []"
  shows "\<exists>p. audit_payload_at S L log_id n = Inr p"
proof -
  have n0: "0 < n" using ne active_algs_iff [OF inv] by (metis list.set_intros(1) neq_Nil_conv)
  have "\<exists>cr. combined_root_at S L a n = Inr cr" if "a \<in> set (active_algs_at L n)" for a
    using combined_at [OF inv n that] by blast
  then have "mapE (\<lambda>a. bindE (combined_root_at S L a n) (\<lambda>cr. Inr (a, cr))) (active_algs_at L n)
      = Inr (map (\<lambda>a. (a, projr (combined_root_at S L a n))) (active_algs_at L n))"
    by (intro mapE_Inr) force
  then show ?thesis using n0 ne by (simp add: audit_payload_at_def Let_def)
qed

end

section \<open>Properties\<close>

text \<open>
  C3. The verdict of the audit is exact, over any store and any log: it accepts a payload iff the
  payload is well formed for the registered algorithms, every raw leaf can be read, every stored
  leaf cell is the digest the committed timeline calls for, and each combined root of the payload
  is the fold of the member roots recomputed from the raw leaves.  No inner node of the store is
  trusted.
\<close>

theorem audit_verdict_exact:
  assumes "arity_ok (lg_arity L)" "lg_count L < u64_limit"
  shows "verify_audit_payload S L p = Inr True \<longleftrightarrow>
     audit_structure L p
     \<and> (\<forall>i < ap_tree_size p. row_ok S L p i)
     \<and> list_all (\<lambda>(a, cr). combined_root (av_hasher (view_of L a)) (audited_roots S L p) (ap_alg_epochs p)
           (ap_tree_size p) (lg_arity L) = Some cr) (ap_combined_roots p)"
  by (rule audit_exact [OF assms])

text \<open>
  An honest payload passes: for every size of a reachable log with an active algorithm, the
  audit payload is produced and the audit of the same log accepts it.
\<close>

theorem audit_payload_accepted:
  assumes "reachable_log memory_ops mem_new k L items" "n \<le> lg_count L" "active_algs_at L n \<noteq> []"
  shows "\<exists>p. audit_payload_at memory_ops L log_id n = Inr p \<and> verify_audit_payload memory_ops L p = Inr True"
proof -
  have inv: "log_inv mem_wf mem_abs L items" by (rule mem.reachable_inv [OF assms(1) mem_new_ok])
  obtain p where p: "audit_payload_at memory_ops L log_id n = Inr p"
    using mem.audit_payload_exists [OF inv assms(2,3)] by blast
  then show ?thesis using mem.audit_complete [OF inv assms(2)] by blast
qed

theorem audit_payload_accepted_witness:
  "\<exists>L p. log_shape L = toy_shape \<and> audit_payload_of memory_ops L [9] = Inr p
    \<and> verify_audit_payload memory_ops L p = Inr True"
proof -
  obtain L where L: "run_state 2 toy_shape toy_items L" using toy_run by blast
  then have re: "reachable_log memory_ops mem_new 2 L toy_items" and sh: "log_shape L = toy_shape"
    by (simp_all add: run_state_def)
  have n: "lg_count L = 2" by (rule toy_algs [OF sh])
  have ne: "active_algs_at L (lg_count L) \<noteq> []" unfolding n toy_fits(2) [OF sh] by simp
  from audit_payload_accepted [OF re le_refl ne, of "[9]"] sh show ?thesis by (auto simp: audit_payload_of_def)
qed

theorem audit_verdict_exact_witness:
  "\<exists>L p. log_shape L = toy_shape \<and> list_all (row_ok memory_ops L p) [0, 1]
    \<and> map fst (ap_combined_roots p) = [0, 1]
    \<and> list_all (\<lambda>(a, cr). combined_root tagged_hasher (audited_roots memory_ops L p) (ap_alg_epochs p) 2 2
        = Some cr) (ap_combined_roots p)"
proof -
  obtain L where L: "run_state 2 toy_shape toy_items L" using toy_run by blast
  then have re: "reachable_log memory_ops mem_new 2 L toy_items" and sh: "log_shape L = toy_shape"
    by (simp_all add: run_state_def)
  have inv: "log_inv mem_wf mem_abs L toy_items" by (rule mem.reachable_inv [OF re mem_new_ok])
  obtain v0 v1 where v: "lg_algs L = [(0, v0), (1, v1)]" "av_hasher v0 = tagged_hasher" "av_hasher v1 = tagged_hasher"
    and k: "lg_arity L = 2" and n: "lg_count L = 2" by (rule toy_algs [OF sh])
  have ne: "active_algs_at L 2 \<noteq> []" unfolding toy_fits(2) [OF sh] by simp
  have le: "2 \<le> lg_count L" by (simp add: n)
  obtain p where p: "audit_payload_at memory_ops L [9] 2 = Inr p"
    using mem.audit_payload_exists [OF inv le ne] by blast
  have p': "audit_payload_of memory_ops L [9] = Inr p" using p by (simp add: audit_payload_of_def n)
  note f = audit_payload_fields [OF p', unfolded n toy_fits(2) [OF sh]]
  have acc: "verify_audit_payload memory_ops L p = Inr True" by (rule mem.audit_complete [OF inv le p])
  have "lg_count L < u64_limit" by (rule mem.size_bounds(1) [OF inv le_refl])
  from audit_verdict_exact [OF log_invD(2) [OF inv] this, of memory_ops p] acc
  have "audit_structure L p" "\<forall>i < 2. row_ok memory_ops L p i"
    "list_all (\<lambda>(a, cr). combined_root (av_hasher (view_of L a)) (audited_roots memory_ops L p) (ap_alg_epochs p) 2 2
        = Some cr) (ap_combined_roots p)"
    unfolding f(1) k by blast+
  moreover have "map fst (ap_combined_roots p) = [0, 1]"
    using audit_structureD(6) [OF calculation(1)] f(3) by simp
  ultimately show ?thesis
    using sh v by (intro exI [of _ L] exI [of _ p]) (auto simp: list_all_iff view_of_def)
qed

text \<open>
  C38. On a resumed log the audit gives a verdict, and a wrong one: a log whose algorithms are all
  active is sealed and resumed on a fresh store; the audit payload the original log issued, which
  the original log accepts, is refused by the resumed log with \<^verbatim>\<open>Ok(false)\<close>, the value that stands
  for a contradiction between tree and timeline, as soon as the sealed size reaches the arity.
\<close>

theorem resumed_audit_refuses:
  assumes "reachable_log memory_ops mem_new k L items" "lg_arity L \<le> lg_count L"
    and "list_all (\<lambda>(_, v). is_active v) (lg_algs L)"
    and "map_of (lg_algs L) a = Some v" "is_active_at v 0" "is_active_at v (lg_count L - 1)"
    and "\<forall>a v. map_of (lg_algs L) a = Some v \<longrightarrow> hash_map hashers a = Some (av_hasher v)"
  shows "\<exists>b L' p. log_seal memory_ops L = Inr b \<and> log_resume memory_ops b mem_new hashers = Inr L'
    \<and> audit_payload_of memory_ops L log_id = Inr p
    \<and> verify_audit_payload memory_ops L p = Inr True \<and> verify_audit_payload memory_ops L' p = Inr False"
proof -
  have inv: "log_inv mem_wf mem_abs L items" by (rule mem.reachable_inv [OF assms(1) mem_new_ok])
  have n0: "0 < lg_count L" using assms(2) log_invD(12) [OF inv] by simp
  have seal: "log_seal memory_ops L = Inr (sealed_of L items)"
    unfolding log_seal_def by (rule mem.seal_at [OF inv n0])
  have hs: "hash_map hashers a = Some (av_hasher v)" if "map_of (lg_algs L) a = Some v" "is_active v" for a v
    using assms(7) that by blast
  obtain L' where L': "log_resume memory_ops (sealed_of L items) mem_new hashers = Inr L'"
    "continues mem_wf mem_abs L L'"
    using mem.resumed [OF inv mem_new_ok hs] by blast
  have "a \<in> set (active_algs_at L (lg_count L))" using assms(4,6) n0 active_algs_iff [OF inv] by blast
  then have "active_algs_at L (lg_count L) \<noteq> []" by auto
  then obtain p where p: "audit_payload_at memory_ops L log_id (lg_count L) = Inr p"
    using mem.audit_payload_exists [OF inv le_refl] by blast
  have p': "audit_payload_of memory_ops L log_id = Inr p" using p by (simp add: audit_payload_of_def)
  note f = audit_payload_fields [OF p']
  have acc: "verify_audit_payload memory_ops L p = Inr True" by (rule mem.audit_complete [OF inv le_refl p])
  have "verify_audit_payload memory_ops L' p = Inr False"
    by (rule resumed_audit [OF inv assms(2-6) L' acc f(1-3)])
  then show ?thesis using seal L'(1) p' acc by blast
qed

theorem resumed_audit_refuses_witness:
  "\<exists>L b L' p. log_shape L = (2, 2, Flat, [(0, tagged_hasher, [(0, u64_max)])])
    \<and> log_seal memory_ops L = Inr b \<and> log_resume memory_ops b mem_new [(0, tagged_hasher)] = Inr L'
    \<and> audit_payload_of memory_ops L [9] = Inr p
    \<and> verify_audit_payload memory_ops L p = Inr True \<and> verify_audit_payload memory_ops L' p = Inr False"
proof -
  obtain L where L: "run_state 2 (2, 2, Flat, [(0, tagged_hasher, [(0, u64_max)])]) [LeafItem [1], LeafItem [2]] L"
    using toy_pair_run by blast
  then have re: "reachable_log memory_ops mem_new 2 L [LeafItem [1], LeafItem [2]]"
    and sh: "log_shape L = (2, 2, Flat, [(0, tagged_hasher, [(0, u64_max)])])"
    by (simp_all add: run_state_def)
  obtain v where v: "lg_algs L = [(0, v)]" "av_hasher v = tagged_hasher" "av_epochs v = [(0, u64_max)]"
    "lg_count L = 2" "lg_arity L = 2"
    using sh by (auto simp: log_shape_def map_eq_Cons_conv)
  have *: "lg_arity L \<le> lg_count L" "list_all (\<lambda>(_, v). is_active v) (lg_algs L)" "map_of (lg_algs L) 0 = Some v"
    "is_active_at v 0" "is_active_at v (lg_count L - 1)"
    "\<forall>a w. map_of (lg_algs L) a = Some w \<longrightarrow> hash_map [(0, tagged_hasher)] a = Some (av_hasher w)"
    using v by (auto simp: is_active_def epochs_open_def is_active_at_def u64_max_def hash_map_def)
  show ?thesis using resumed_audit_refuses [OF re *, of "[9]"] sh by blast
qed

end
