(* ===== verification/Poly_Replay.thy ===== *)
theory Poly_Replay
  imports Poly_Audit
begin

text \<open>
  The second verifier of \<^verbatim>\<open>polydigest/src/tree.rs\<close>: \<open>verify_non_divergence\<close> checks the log against
  its own store, from genesis or from a checkpoint with trusted roots.  As in the audit,
  \<open>Inr False\<close> is the verdict \<^verbatim>\<open>Ok(false)\<close> and \<open>Inr None\<close> an early return of it.
\<close>

section \<open>The replay\<close>

text \<open>A loop of checks that returns at the first one that fails.\<close>

fun checkE :: "('a \<Rightarrow> 'e + bool) \<Rightarrow> 'a list \<Rightarrow> 'e + bool" where
  "checkE f [] = Inr True"
| "checkE f (x # xs) = bindE (f x) (\<lambda>ok. if \<not> ok then Inr False else checkE f xs)"

text \<open>Step 1, from a checkpoint: one algorithm's consistency between the checkpoint and the log.\<close>

definition replay_consistency ::
    "('s, 'e) storage \<Rightarrow> 's merkle_log \<Rightarrow> u64 \<Rightarrow> (alg_id \<times> digest) list \<Rightarrow> alg_id \<times> alg_view \<Rightarrow>
     'e log_error + bool" where
  "replay_consistency S L start trusted = (\<lambda>(alg, view).
     let check_start = max start (first_activation view)
     in if \<not> check_start < lg_count L then Inr True
        else
          let old_size = (if check_start = first_activation view then 0 else effective_size_at view check_start);
              new_size = effective_size_at view (lg_count L)
          in bindE (if old_size = 0 then Inr (hs_empty (av_hasher view))
                    else ok_or (MissingTrustedRoot alg) (map_of trusted alg)) (\<lambda>old_root.
             bindE (log_root_for_at S L alg (lg_count L)) (\<lambda>new_root.
               if old_size < new_size \<and> old_size > 0 then
                 bindE (log_consistency_proof_for S L alg old_size new_size) (\<lambda>found. case found of
                     None \<Rightarrow> Inr False
                   | Some proof \<Rightarrow>
                       Inr (verify_consistency (av_hasher view) old_size new_size (lg_arity L)
                              (cp_boundary_hash proof) (cp_peak_path proof) (cp_new_peaks proof)
                              (cp_split_index proof) old_root new_root))
               else if old_size = new_size then Inr (constant_time_eq old_root new_root)
               else Inr True)))"

text \<open>
  Step 2: the frontier of one algorithm at the start.  A frozen algorithm must have no leaf node
  at its deactivation index.
\<close>

definition last_end :: "alg_view \<Rightarrow> u64" where
  "last_end view = (if av_epochs view = [] then 0 else snd (last (av_epochs view)))"

definition frozen_clean ::
    "('s, 'e) storage \<Rightarrow> 's merkle_log \<Rightarrow> alg_id \<Rightarrow> alg_view \<Rightarrow> 'e log_error + bool" where
  "frozen_clean S L alg view =
     (if \<not> is_active view \<and> last_end view < lg_count L
      then bindE (stored_cell S L alg (last_end view)) (\<lambda>cell. Inr (cell = None))
      else Inr True)"

type_synonym replay_state = "digest list \<times> coord list \<times> u64"

definition replay_frontier ::
    "('s, 'e) storage \<Rightarrow> 's merkle_log \<Rightarrow> u64 \<Rightarrow> (alg_id \<times> digest) list \<Rightarrow> alg_id \<times> alg_view \<Rightarrow>
     'e log_error + replay_state option" where
  "replay_frontier S L start trusted = (\<lambda>(alg, view).
     bindE (frozen_clean S L alg view) (\<lambda>clean.
       if \<not> clean then Inr None
       else
         let alg_size = effective_size_at view start;
             coords = (if alg_size > 0 then frontier_for_size alg_size (lg_arity L) else [])
         in bindE (mapE (\<lambda>(left, height). log_peak_at S L alg left height) coords) (\<lambda>frontier.
              if start > 0 then
                bindE (case map_of trusted alg of
                         Some r \<Rightarrow> Inr r
                       | None \<Rightarrow>
                           if alg_size = 0 then Inr (hs_empty (av_hasher view))
                           else if start \<le> first_activation view then Inr (hs_null (av_hasher view))
                           else Inl (MissingTrustedRoot alg)) (\<lambda>expected_root.
                  if \<not> constant_time_eq (raw_root (av_hasher view) (lg_arity L) frontier) expected_root
                  then Inr None else Inr (Some (frontier, coords, alg_size)))
              else Inr (Some (frontier, coords, alg_size)))))"

fun replay_init ::
    "('s, 'e) storage \<Rightarrow> 's merkle_log \<Rightarrow> u64 \<Rightarrow> (alg_id \<times> digest) list \<Rightarrow> (alg_id \<times> alg_view) list \<Rightarrow>
     (alg_id \<Rightarrow> replay_state option) \<Rightarrow> 'e log_error + (alg_id \<Rightarrow> replay_state option) option" where
  "replay_init S L start trusted [] states = Inr (Some states)"
| "replay_init S L start trusted ((alg, view) # algs) states =
     bindV (replay_frontier S L start trusted (alg, view)) (\<lambda>st.
       replay_init S L start trusted algs (states(alg \<mapsto> st)))"

text \<open>Step 3: the stream.  Every completed node is compared with the stored one.\<close>

fun replay_pop ::
    "alg_id \<Rightarrow> nat \<Rightarrow> digest list \<Rightarrow> coord list \<Rightarrow> digest list \<Rightarrow> coord list \<Rightarrow>
     'e log_error + (digest list \<times> coord list \<times> digest list \<times> coord list)" where
  "replay_pop alg 0 frontier coords children ccoords = Inr (frontier, coords, rev children, rev ccoords)"
| "replay_pop alg (Suc m) frontier coords children ccoords =
     (if frontier = [] then Inl (CorruptedMetadata alg ReplayUnderflow)
      else if coords = [] then Inl (CorruptedMetadata alg ReplayCoordsUnderflow)
      else replay_pop alg m (butlast frontier) (butlast coords)
             (children @ [last frontier]) (ccoords @ [last coords]))"

fun replay_merge ::
    "('s, 'e) storage \<Rightarrow> 's merkle_log \<Rightarrow> alg_id \<Rightarrow> hasher \<Rightarrow> nat \<Rightarrow> digest list \<Rightarrow> coord list \<Rightarrow>
     'e log_error + (digest list \<times> coord list) option" where
  "replay_merge S L alg h 0 frontier coords = Inr (Some (frontier, coords))"
| "replay_merge S L alg h (Suc m) frontier coords =
     (if length frontier < lg_arity L then Inr None
      else bindE (replay_pop alg (lg_arity L) frontier coords [] []) (\<lambda>(frontier', coords', children, ccoords).
             let parent = nary_mr h children;
                 left = fst (ccoords ! 0);
                 height = snd (ccoords ! 0) + 1
             in bindE (log_peak_at S L alg left height) (\<lambda>stored.
                  if \<not> constant_time_eq parent stored then Inr None
                  else replay_merge S L alg h m (frontier' @ [parent]) (coords' @ [(left, height)]))))"

definition replay_cell ::
    "('s, 'e) storage \<Rightarrow> 's merkle_log \<Rightarrow> bytes option \<Rightarrow> u64 \<Rightarrow> alg_id \<Rightarrow> alg_view \<Rightarrow>
     'e log_error + digest option" where
  "replay_cell S L data i alg view =
     (if is_active_at view i then
        (case data of
           Some d \<Rightarrow>
             let computed = hs_leaf (av_hasher view) d
             in bindE (log_peak_at S L alg i 0) (\<lambda>stored.
                  if \<not> constant_time_eq computed stored then Inr None else Inr (Some computed))
         | None \<Rightarrow> bindE (log_peak_at S L alg i 0) (\<lambda>stored. Inr (Some stored)))
      else Inr (Some (hs_null (av_hasher view))))"

fun replay_row ::
    "('s, 'e) storage \<Rightarrow> 's merkle_log \<Rightarrow> bytes option \<Rightarrow> u64 \<Rightarrow> (alg_id \<times> alg_view) list \<Rightarrow>
     (alg_id \<Rightarrow> replay_state option) \<Rightarrow> 'e log_error + (alg_id \<Rightarrow> replay_state option) option" where
  "replay_row S L data i [] states = Inr (Some states)"
| "replay_row S L data i ((alg, view) # algs) states =
     (case states alg of None \<Rightarrow> Inl (UnknownAlgorithm alg) | Some (frontier, coords, alg_size) \<Rightarrow>
        if i \<ge> (if is_active view then u64_max else last_end view)
        then replay_row S L data i algs states
        else bindV (replay_cell S L data i alg view) (\<lambda>digest.
               bindE (ok_or LogStuck (reduction_count alg_size (lg_arity L))) (\<lambda>merges.
                 bindV (replay_merge S L alg (av_hasher view) merges (frontier @ [digest]) (coords @ [(i, 0)]))
                   (\<lambda>(frontier', coords').
                      replay_row S L data i algs (states(alg \<mapsto> (frontier', coords', alg_size + 1)))))))"

fun replay_stream ::
    "('s, 'e) storage \<Rightarrow> 's merkle_log \<Rightarrow> u64 list \<Rightarrow> (alg_id \<Rightarrow> replay_state option) \<Rightarrow>
     'e log_error + (alg_id \<Rightarrow> replay_state option) option" where
  "replay_stream S L [] states = Inr (Some states)"
| "replay_stream S L (i # is) states =
     bindE (leaf_data S L i) (\<lambda>data.
       bindV (replay_row S L data i (lg_algs L) states) (replay_stream S L is))"

text \<open>Step 4: the replayed roots against the roots of the log.\<close>

definition replay_final ::
    "('s, 'e) storage \<Rightarrow> 's merkle_log \<Rightarrow> (alg_id \<Rightarrow> replay_state option) \<Rightarrow> alg_id \<times> alg_view \<Rightarrow>
     'e log_error + bool" where
  "replay_final S L states = (\<lambda>(alg, view).
     bindE (ok_or LogStuck (states alg)) (\<lambda>(frontier, _).
       bindE (log_root_for_at S L alg (lg_count L)) (\<lambda>final_root.
         Inr (constant_time_eq (raw_root (av_hasher view) (lg_arity L) frontier) final_root))))"

definition verify_non_divergence ::
    "('s, 'e) storage \<Rightarrow> 's merkle_log \<Rightarrow> u64 option \<Rightarrow> (alg_id \<times> digest) list \<Rightarrow> 'e log_error + bool" where
  "verify_non_divergence S L checkpoint_size trusted =
     (let start = (case checkpoint_size of None \<Rightarrow> 0 | Some n \<Rightarrow> n)
      in if start > lg_count L then Inr False
         else bindE (if start > 0 then checkE (replay_consistency S L start trusted) (lg_algs L) else Inr True)
                (\<lambda>consistent.
                if \<not> consistent then Inr False
                else bindE (replay_init S L start trusted (lg_algs L) Map.empty) (\<lambda>init. case init of
                         None \<Rightarrow> Inr False
                       | Some states \<Rightarrow>
                           bindE (replay_stream S L [start..<lg_count L] states) (\<lambda>res. case res of
                               None \<Rightarrow> Inr False
                             | Some states' \<Rightarrow> checkE (replay_final S L states') (lg_algs L)))))"

section \<open>The rolling frontier with its coordinates\<close>

lemma replay_pop_spec:
  "length F = length C \<Longrightarrow> m \<le> length F \<Longrightarrow>
    replay_pop alg m F C ch cc = Inr (take (length F - m) F, take (length C - m) C,
         drop (length F - m) F @ rev ch, drop (length C - m) C @ rev cc)"
proof (induction alg m F C ch cc rule: replay_pop.induct)
  case (2 alg m F C ch cc)
  then obtain F' x where F: "F = F' @ [x]" by (cases F rule: rev_cases) auto
  with 2 obtain C' y where C: "C = C' @ [y]" by (cases C rule: rev_cases) auto
  from 2 F C show ?case by simp
qed simp

lemma replay_merge_loop:
  assumes k: "2 \<le> lg_arity L"
    and peak: "\<And>l t. lg_arity L ^ t dvd l \<Longrightarrow> l + lg_arity L ^ t \<le> N \<Longrightarrow>
      log_peak_at S L alg l t = (Inr (pdig h (lg_arity L) f l t) :: 'e log_error + _)"
  shows "weak_canon (lg_arity L) gs j \<Longrightarrow> hsum (lg_arity L) gs + lg_arity L ^ j = N \<Longrightarrow>
    lg_arity L ^ (j + m) dvd N \<Longrightarrow> \<not> lg_arity L ^ Suc (j + m) dvd N \<Longrightarrow>
    \<exists>hs. canon (lg_arity L) hs \<and> hsum (lg_arity L) hs = N
      \<and> (replay_merge S L alg h m (fdigs h (lg_arity L) f (coords_of (lg_arity L) 0 (gs @ [j])))
            (coords_of (lg_arity L) 0 (gs @ [j])) :: 'e log_error + _)
        = Inr (Some (fdigs h (lg_arity L) f (coords_of (lg_arity L) 0 hs), coords_of (lg_arity L) 0 hs))"
proof (induction m arbitrary: gs j)
  case 0
  then have "canon (lg_arity L) (gs @ [j]) \<and> hsum (lg_arity L) (gs @ [j]) = N" using weak_canon_done [OF k] by simp
  then show ?case by (intro exI [of _ "gs @ [j]"]) simp
next
  case (Suc m)
  let ?k = "lg_arity L"
  have dvd: "?k ^ Suc j dvd N" using Suc.prems(3) by (rule dvd_trans [rotated]) (simp add: le_imp_power_dvd)
  from weak_canon_merge [OF k Suc.prems(1,2) dvd] obtain hs where
    hs: "gs = hs @ replicate (?k - 1) j" "weak_canon ?k hs (Suc j)" "hsum ?k hs + ?k ^ Suc j = N"
    by blast
  have gs: "gs @ [j] = hs @ replicate ?k j"
    using hs(1) k by (cases ?k) (simp_all add: replicate_append_same)
  let ?A = "coords_of ?k 0 hs" and ?B = "coords_of ?k (hsum ?k hs) (replicate ?k j)"
  have B: "?B = map (\<lambda>i. (hsum ?k hs + i * ?k ^ j, j)) [0..<?k]" by (rule coords_of_replicate)
  have par: "nary_mr h (fdigs h ?k f ?B) = pdig h ?k f (hsum ?k hs) (Suc j)" by (simp add: B fdigs_def o_def)
  have C: "coords_of ?k 0 (gs @ [j]) = ?A @ ?B" unfolding gs by (simp add: coords_of_append)
  have len: "length ?B = ?k" by (simp add: B)
  have B0: "?B ! 0 = (hsum ?k hs, j)" using k by (simp add: B)
  have up: "?A @ [(hsum ?k hs, Suc j)] = coords_of ?k 0 (hs @ [Suc j])" by (simp add: coords_of_append)
  have pk: "log_peak_at S L alg (hsum ?k hs) (Suc j) = (Inr (pdig h ?k f (hsum ?k hs) (Suc j)) :: 'e log_error + _)"
  proof (rule peak)
    have "?k ^ Suc j dvd hsum ?k hs + ?k ^ Suc j" using dvd hs(3) by simp
    then show "?k ^ Suc j dvd hsum ?k hs" by (metis dvd_add_left_iff dvd_refl)
    show "hsum ?k hs + ?k ^ Suc j \<le> N" using hs(3) by simp
  qed
  have pop: "(replay_pop alg ?k (fdigs h ?k f (?A @ ?B)) (?A @ ?B) [] [] :: 'e log_error + _)
      = Inr (fdigs h ?k f ?A, ?A, fdigs h ?k f ?B, ?B)"
    using len by (subst replay_pop_spec) simp_all
  have "(replay_merge S L alg h (Suc m) (fdigs h ?k f (?A @ ?B)) (?A @ ?B) :: 'e log_error + _)
      = replay_merge S L alg h m (fdigs h ?k f (coords_of ?k 0 (hs @ [Suc j]))) (coords_of ?k 0 (hs @ [Suc j]))"
    using len by (simp add: pop [simplified] par B0 pk up [symmetric] Let_def fdigs_single del: pdig.simps)
  then show ?case using Suc.IH [OF hs(2,3)] Suc.prems(3,4) by (simp add: C)
qed

lemma replay_merge_spec:
  assumes k: "2 \<le> lg_arity L" and n: "n + 1 < u64_limit" and c: "reduction_count n (lg_arity L) = Some c"
    and peak: "\<And>l t. lg_arity L ^ t dvd l \<Longrightarrow> l + lg_arity L ^ t \<le> n + 1 \<Longrightarrow>
      log_peak_at S L alg l t = (Inr (pdig h (lg_arity L) f l t) :: 'e log_error + _)"
  shows "(replay_merge S L alg h c (fdigs h (lg_arity L) f (frontier_for_size n (lg_arity L)) @ [f n])
        (frontier_for_size n (lg_arity L) @ [(n, 0)]) :: 'e log_error + _)
    = Inr (Some (fdigs h (lg_arity L) f (frontier_for_size (n + 1) (lg_arity L)), frontier_for_size (n + 1) (lg_arity L)))"
proof -
  let ?k = "lg_arity L"
  obtain hs where hs: "frontier_for_size n ?k = coords_of ?k 0 hs" "canon ?k hs" "hsum ?k hs = n"
    using frontier_canon [OF k, of n] n by auto
  have c': "?k ^ (0 + c) dvd n + 1" "\<not> ?k ^ Suc (0 + c) dvd n + 1"
    using reduction_count_Some [OF k, of n] c by auto
  have N: "hsum ?k hs + ?k ^ 0 = n + 1" using hs(3) by simp
  have F: "fdigs h ?k f (frontier_for_size n ?k) @ [f n] = fdigs h ?k f (coords_of ?k 0 (hs @ [0]))"
    "frontier_for_size n ?k @ [(n, 0)] = coords_of ?k 0 (hs @ [0])"
    using hs by (simp_all add: coords_of_append fdigs_single)
  from replay_merge_loop [OF k peak canon_weak [OF hs(2)] N c'] obtain gs where
    gs: "canon ?k gs" "hsum ?k gs = n + 1"
      "(replay_merge S L alg h c (fdigs h ?k f (coords_of ?k 0 (hs @ [0]))) (coords_of ?k 0 (hs @ [0])) :: 'e log_error + _)
        = Inr (Some (fdigs h ?k f (coords_of ?k 0 gs), coords_of ?k 0 gs))"
    by blast
  have "frontier_for_size (n + 1) ?k = coords_of ?k 0 gs"
    using gs(1,2) n by (intro frontier_unique [OF k]) simp_all
  with gs(3) show ?thesis by (simp add: F)
qed

section \<open>The replay of a log in an invariant state\<close>

text \<open>
  The size an algorithm's frontier has after the positions below \<open>n\<close> of a replay from \<open>start\<close>, and
  the checkpoints whose size the frontier reconstruction and the stream count alike: those outside
  an inactive gap that a later epoch follows.
\<close>

definition replay_size :: "'s merkle_log \<Rightarrow> alg_view \<Rightarrow> nat \<Rightarrow> nat" where
  "replay_size L v n = min n (tree_size v (lg_count L))"

definition gap_free :: "'s merkle_log \<Rightarrow> nat \<Rightarrow> bool" where
  "gap_free L n \<longleftrightarrow> list_all (\<lambda>(_, v). effective_size_at v n = replay_size L v n) (lg_algs L)"

lemma gap_free_zero: "gap_free L 0"
  by (auto simp: gap_free_def replay_size_def effective_size_at_def list_all_iff)

definition replay_root :: "'s merkle_log \<Rightarrow> item list \<Rightarrow> alg_view \<Rightarrow> nat \<Rightarrow> digest" where
  "replay_root L items v m =
     bag_peaks (av_hasher v) (fdigs (av_hasher v) (lg_arity L) (history items v) (frontier_for_size m (lg_arity L)))
       (lg_arity L)"

definition replay_states ::
    "'s merkle_log \<Rightarrow> item list \<Rightarrow> nat \<Rightarrow> (alg_id \<times> alg_view) list \<Rightarrow> alg_id \<Rightarrow> replay_state option" where
  "replay_states L items n algs a =
     map_option (\<lambda>v. let m = replay_size L v n; cs = frontier_for_size m (lg_arity L)
                     in (fdigs (av_hasher v) (lg_arity L) (history items v) cs, cs, m)) (map_of algs a)"

lemma bag_empty: "bag_peaks h [] k = hs_empty h"
  by (simp add: bag_peaks_def bag_shape_def)

lemma checkE_all: "(\<And>x. x \<in> set xs \<Longrightarrow> f x = Inr (g x)) \<Longrightarrow> checkE f xs = Inr (list_all g xs)"
  by (induction xs) auto

context lawful_storage begin

lemma view_size:
  assumes inv: "log_inv valid content L items" and v: "map_of (lg_algs L) a = Some v"
  shows "tree_size v (lg_count L) \<le> lg_count L" "tree_size v (lg_count L) < u64_limit"
    "tree_size v (length items) = tree_size v (lg_count L)"
proof -
  note iv = log_invD [OF inv]
  have ev: "epochs_valid (lg_count L) (av_epochs v)" using alg_okD(3) [OF iv(11) [OF v]] by (simp add: iv(3))
  show le: "tree_size v (lg_count L) \<le> lg_count L" by (rule tree_size_le [OF ev])
  show "tree_size v (lg_count L) < u64_limit" using le size_bounds(1) [OF inv le_refl] by simp
  show "tree_size v (length items) = tree_size v (lg_count L)" by (simp add: iv(3))
qed

lemma peak_of:
  assumes inv: "log_inv valid content L items" and v: "map_of (lg_algs L) a = Some v"
    and b: "lg_arity L ^ t dvd l" "l + lg_arity L ^ t \<le> tree_size v (lg_count L)"
  shows "log_peak_at S L a l t = Inr (pdig (av_hasher v) (lg_arity L) (history items v) l t)"
proof -
  note vs = view_size [OF inv v]
  have "get_node_hash (storage_reader S (lg_storage L)) v a l t (lg_arity L)
      = Inr (pdig (av_hasher v) (lg_arity L) (history items v) l t)"
    using b by (intro get_node_hash_backed [OF alg_backed [OF inv v] log_invD(12) [OF inv]]) (simp_all add: vs)
  then show ?thesis by (simp add: log_peak_at_def with_view_def v peak_at_def)
qed

lemma peaks_of:
  assumes inv: "log_inv valid content L items" and v: "map_of (lg_algs L) a = Some v"
    and m: "m \<le> tree_size v (lg_count L)"
  shows "mapE (\<lambda>(l, t). log_peak_at S L a l t) (frontier_for_size m (lg_arity L))
    = Inr (fdigs (av_hasher v) (lg_arity L) (history items v) (frontier_for_size m (lg_arity L)))"
  unfolding fdigs_def
proof (rule mapE_Inr, safe)
  fix l t assume c: "(l, t) \<in> set (frontier_for_size m (lg_arity L))"
  have k: "2 \<le> lg_arity L" by (rule log_invD(12) [OF inv])
  have lim: "m < u64_limit" using m view_size(2) [OF inv v] by simp
  show "log_peak_at S L a l t = Inr (pdig (av_hasher v) (lg_arity L) (history items v) l t)"
    using frontier_aligned [OF k lim c] frontier_bound [OF k lim c] m by (intro peak_of [OF inv v]) simp_all
qed

lemma root_of:
  assumes inv: "log_inv valid content L items" and v: "map_of (lg_algs L) a = Some v"
    and n: "n \<le> lg_count L" and m: "effective_size_at v n \<le> tree_size v (lg_count L)"
  shows "log_root_for_at S L a n = Inr (replay_root L items v (effective_size_at v n))"
proof (cases "effective_size_at v n = 0")
  case True
  have "frontier_for_size 0 (lg_arity L) = []"
    using frontier_empty_iff [OF log_invD(12) [OF inv], of 0] by (simp add: u64_limit_def)
  then show ?thesis
    using v n True by (simp add: log_root_for_at_def with_view_def root_for_at_def replay_root_def fdigs_def bag_empty)
next
  case False
  note vs = view_size [OF inv v]
  have "get_node_hashes (storage_reader S (lg_storage L)) v a (lg_arity L)
       (frontier_for_size (effective_size_at v n) (lg_arity L))
     = Inr (fdigs (av_hasher v) (lg_arity L) (history items v) (frontier_for_size (effective_size_at v n) (lg_arity L)))"
    using m by (intro get_node_hashes_backed [OF alg_backed [OF inv v] log_invD(12) [OF inv]]) (simp_all add: vs)
  then show ?thesis
    using v n False by (simp add: log_root_for_at_def with_view_def root_for_at_def replay_root_def Let_def)
qed

lemma frozen_clean_of:
  assumes inv: "log_inv valid content L items" and v: "map_of (lg_algs L) a = Some v"
  shows "frozen_clean S L a v = Inr True"
proof (cases "\<not> is_active v \<and> last_end v < lg_count L")
  case True
  note iv = log_invD [OF inv] and ok = alg_okD [OF log_invD(11) [OF inv v]]
  have ne: "av_epochs v \<noteq> []" by (rule epochs_validD(1) [OF ok(3)])
  then have "tree_size v (length items) = last_end v"
    using True tree_size_closed by (simp add: last_end_def)
  then have "so_nodes (content (lg_storage L)) (a, last_end v, 0) = None"
    using ok(7) [where l = "last_end v" and t = 0] by (cases "so_nodes (content (lg_storage L)) (a, last_end v, 0)") auto
  then show ?thesis using get_node [OF iv(1)] by (simp add: frozen_clean_def stored_cell_def)
qed (auto simp: frozen_clean_def)

lemma replay_frontier_of:
  assumes inv: "log_inv valid content L items" and v: "map_of (lg_algs L) a = Some v"
    and n: "start \<le> lg_count L" and e: "effective_size_at v start = replay_size L v start"
    and tr: "0 < start \<Longrightarrow> \<exists>r. map_of trusted a = Some r \<and> log_root_for_at S L a start = Inr r"
  shows "replay_frontier S L start trusted (a, v)
    = Inr (Some (let m = replay_size L v start; cs = frontier_for_size m (lg_arity L)
           in (fdigs (av_hasher v) (lg_arity L) (history items v) cs, cs, m)))"
proof -
  have k: "2 \<le> lg_arity L" by (rule log_invD(12) [OF inv])
  have le: "replay_size L v start \<le> tree_size v (lg_count L)" by (simp add: replay_size_def)
  have "frontier_for_size 0 (lg_arity L) = []" using frontier_empty_iff [OF k, of 0] by (simp add: u64_limit_def)
  then have cs: "(if replay_size L v start > 0 then frontier_for_size (replay_size L v start) (lg_arity L) else [])
      = frontier_for_size (replay_size L v start) (lg_arity L)" by simp
  have root: "map_of trusted a = Some (replay_root L items v (replay_size L v start))" if "0 < start"
    using tr [OF that] root_of [OF inv v n] le by (auto simp: e)
  show ?thesis
    using root by (simp add: replay_frontier_def frozen_clean_of [OF inv v] e cs peaks_of [OF inv v le] raw_root_bag
        replay_root_def Let_def)
qed

lemma replay_init_of:
  assumes inv: "log_inv valid content L items" and n: "start \<le> lg_count L"
    and tr: "\<And>a v. map_of (lg_algs L) a = Some v \<Longrightarrow> 0 < start \<Longrightarrow>
      \<exists>r. map_of trusted a = Some r \<and> log_root_for_at S L a start = Inr r"
    and e: "gap_free L start"
  shows "replay_init S L start trusted (lg_algs L) Map.empty = Inr (Some (replay_states L items start (lg_algs L)))"
proof -
  have d: "distinct (map fst (lg_algs L))" by (rule log_invD(6) [OF inv])
  have one: "replay_frontier S L start trusted (a, v)
    = Inr (replay_states L items start [(a, v)] a)" if "(a, v) \<in> set (lg_algs L)" for a v
  proof -
    have v: "map_of (lg_algs L) a = Some v" using that d by simp
    have "effective_size_at v start = replay_size L v start" using e that by (auto simp: gap_free_def list_all_iff)
    from replay_frontier_of [OF inv v n this tr [OF v]] show ?thesis by (simp add: replay_states_def Let_def)
  qed
  have "replay_init S L start trusted algs st
    = Inr (Some (\<lambda>a. if a \<in> fst ` set algs then replay_states L items start algs a else st a))"
    if "set algs \<subseteq> set (lg_algs L)" "distinct (map fst algs)" for algs st
    using that
  proof (induction algs arbitrary: st)
    case (Cons x xs)
    obtain a v where x: "x = (a, v)" by (cases x)
    obtain s where s: "replay_states L items start [(a, v)] a = Some s" by (simp add: replay_states_def)
    have "replay_frontier S L start trusted (a, v) = Inr (Some s)" using one Cons.prems(1) s by (simp add: x)
    then have "replay_init S L start trusted (x # xs) st
        = Inr (Some (\<lambda>b. if b \<in> fst ` set xs then replay_states L items start xs b else (st(a \<mapsto> s)) b))"
      using Cons by (simp add: x)
    also have "(\<lambda>b. if b \<in> fst ` set xs then replay_states L items start xs b else (st(a \<mapsto> s)) b)
        = (\<lambda>b. if b \<in> fst ` set (x # xs) then replay_states L items start (x # xs) b else st b)"
      using s Cons.prems(2) by (auto simp: fun_eq_iff x replay_states_def)
    finally show ?case .
  qed simp
  from this [of "lg_algs L" Map.empty] d
  have "replay_init S L start trusted (lg_algs L) Map.empty
      = Inr (Some (\<lambda>a. if a \<in> fst ` set (lg_algs L) then replay_states L items start (lg_algs L) a else None))" by simp
  also have "(\<lambda>a. if a \<in> fst ` set (lg_algs L) then replay_states L items start (lg_algs L) a else None)
      = replay_states L items start (lg_algs L)"
    by (auto simp: fun_eq_iff replay_states_def map_of_eq_None_iff)
  finally show ?thesis .
qed

end

lemma fold_max_le: "(\<And>x. x \<in> set xs \<Longrightarrow> x \<le> b) \<Longrightarrow> a \<le> b \<Longrightarrow> fold max xs a \<le> (b :: nat)"
  by (induction xs arbitrary: a) auto

lemma effective_le_tree:
  assumes ev: "epochs_valid n (av_epochs v)"
  shows "effective_size_at v n \<le> tree_size v n"
proof (cases "is_active v")
  case True
  have "fold max (map snd (filter (\<lambda>(_, e). e < n) (av_epochs v))) 0 \<le> n" by (rule fold_max_le) auto
  then show ?thesis using tree_size_open [OF True] by (simp add: effective_size_at_def)
next
  case False
  note d = epochs_validD [OF ev]
  have t: "tree_size v n = snd (last (av_epochs v))" by (rule tree_size_closed [OF False d(1)])
  have ends: "e \<le> tree_size v n" if "(s, e) \<in> set (av_epochs v)" for s e
    using epochs_sorted_le_last [OF d(2) that] t by simp
  have first: "first_activation v \<le> tree_size v n"
    using d(1,2) ends by (cases "av_epochs v") (auto simp: first_activation_def, fastforce)
  have act: "n \<le> tree_size v n" if "is_active_at v (n - 1)"
  proof -
    obtain s e where "(s, e) \<in> set (av_epochs v)" "n - 1 < e" using \<open>is_active_at v (n - 1)\<close>
      by (auto simp: is_active_at_def list_ex_iff)
    then show ?thesis using ends by fastforce
  qed
  have "fold max (map snd (filter (\<lambda>(_, e). e < n) (av_epochs v))) 0 \<le> tree_size v n"
    by (rule fold_max_le) (auto dest: ends)
  then show ?thesis using first act by (auto simp: effective_size_at_def)
qed

context lawful_storage begin

lemma replay_cell_of:
  assumes inv: "log_inv valid content L items" and v: "map_of (lg_algs L) a = Some v"
    and i: "i < tree_size v (lg_count L)"
  shows "\<exists>data. leaf_data S L i = Inr data" "leaf_data S L i = Inr data \<Longrightarrow>
    replay_cell S L data i a v = Inr (Some (history items v i))"
proof -
  note iv = log_invD [OF inv] and vs = view_size [OF inv v]
  have n: "i < lg_count L" "i < length items" using i vs(1) iv(3) by simp_all
  have leaf: "\<exists>d. items ! i = LeafItem d \<and> st_get_leaf S (lg_storage L) i = Inr d" if "lg_kind L = Flat"
    by (rule leaf_at [OF inv that n(1)])
  then show "\<exists>data. leaf_data S L i = Inr data" by (auto simp: leaf_data_def)
  have peak: "log_peak_at S L a i 0 = Inr (history items v i)"
    using peak_of [OF inv v, of 0 i] i by simp
  show "replay_cell S L data i a v = Inr (Some (history items v i))" if data: "leaf_data S L i = Inr data"
  proof (cases "is_active_at v i")
    case True
    show ?thesis
    proof (cases "lg_kind L")
      case Flat
      then obtain d where d: "items ! i = LeafItem d" "data = Some d"
        using leaf data by (auto simp: leaf_data_def)
      then have "history items v i = hs_leaf (av_hasher v) d" using True n(2) by (simp add: history_def)
      then show ?thesis using True d(2) peak by (simp add: replay_cell_def)
    next
      case Subtree
      then have "data = None" using data by (simp add: leaf_data_def)
      then show ?thesis using True peak by (simp add: replay_cell_def)
    qed
  qed (simp add: replay_cell_def history_inactive)
qed

lemma replay_step_of:
  assumes inv: "log_inv valid content L items" and v: "map_of (lg_algs L) a = Some v" and i: "i < lg_count L"
    and data: "leaf_data S L i = Inr data" and st: "states a = replay_states L items i [(a, v)] a"
  shows "replay_row S L data i ((a, v) # algs) states
    = replay_row S L data i algs (states(a := replay_states L items (i + 1) [(a, v)] a))"
proof -
  note iv = log_invD [OF inv] and ok = alg_okD [OF log_invD(11) [OF inv v]]
  let ?k = "lg_arity L" and ?t = "tree_size v (lg_count L)"
  have lim: "lg_count L < u64_limit" "lg_count L < u64_max" using size_bounds [OF inv le_refl] by simp_all
  have deact: "i \<ge> (if is_active v then u64_max else last_end v) \<longleftrightarrow> \<not> i < ?t"
  proof (cases "is_active v")
    case True
    then show ?thesis using i lim(2) tree_size_open [OF True, of "lg_count L"] by simp
  next
    case False
    then show ?thesis
      using tree_size_closed [OF False epochs_validD(1) [OF ok(3)]] epochs_validD(1) [OF ok(3)]
      by (simp add: last_end_def not_less)
  qed
  show ?thesis
  proof (cases "i < ?t")
    case True
    have sz: "replay_size L v i = i" "replay_size L v (i + 1) = i + 1" using True by (simp_all add: replay_size_def)
    obtain c where c: "reduction_count i ?k = Some c" using reduction_count_Some [OF iv(12)] by metis
    have cell: "replay_cell S L data i a v = Inr (Some (history items v i))"
      by (rule replay_cell_of(2) [OF inv v True data])
    have "i + 1 < u64_limit" using i lim by simp
    from replay_merge_spec [OF iv(12) this c peak_of [OF inv v]] True
    have m: "replay_merge S L a (av_hasher v) c
        (fdigs (av_hasher v) ?k (history items v) (frontier_for_size i ?k) @ [history items v i])
        (frontier_for_size i ?k @ [(i, 0)])
      = Inr (Some (fdigs (av_hasher v) ?k (history items v) (frontier_for_size (i + 1) ?k), frontier_for_size (i + 1) ?k))"
      by simp
    have d: "\<not> (if is_active v then u64_max else last_end v) \<le> i" using deact True by simp
    have s0: "states a = Some (fdigs (av_hasher v) ?k (history items v) (frontier_for_size i ?k), frontier_for_size i ?k, i)"
      using st sz(1) by (simp add: replay_states_def Let_def)
    have s1: "replay_states L items (i + 1) [(a, v)] a = Some (fdigs (av_hasher v) ?k (history items v)
        (frontier_for_size (i + 1) ?k), frontier_for_size (i + 1) ?k, i + 1)"
      using sz(2) by (simp add: replay_states_def Let_def)
    show ?thesis
      unfolding s1 replay_row.simps s0 option.case prod.case if_not_P [OF d] by (simp add: cell c m [simplified])
  next
    case False
    have sz: "replay_size L v (i + 1) = replay_size L v i" using False by (simp add: replay_size_def)
    have same: "replay_states L items (i + 1) [(a, v)] a = states a"
      using st by (simp add: replay_states_def sz [simplified] Let_def)
    obtain F C m where s0: "states a = Some (F, C, m)" using st by (simp add: replay_states_def Let_def)
    have d: "(if is_active v then u64_max else last_end v) \<le> i" using deact False by simp
    show ?thesis unfolding same replay_row.simps using s0 d by (simp add: fun_upd_idem)
  qed
qed

lemma replay_row_of:
  assumes inv: "log_inv valid content L items" and i: "i < lg_count L" and data: "leaf_data S L i = Inr data"
  shows "replay_row S L data i (lg_algs L) (replay_states L items i (lg_algs L))
    = Inr (Some (replay_states L items (i + 1) (lg_algs L)))"
proof -
  have d: "distinct (map fst (lg_algs L))" by (rule log_invD(6) [OF inv])
  have "replay_row S L data i algs st
    = Inr (Some (\<lambda>a. if a \<in> fst ` set algs then replay_states L items (i + 1) algs a else st a))"
    if "set algs \<subseteq> set (lg_algs L)" "distinct (map fst algs)"
      "\<And>a. a \<in> fst ` set algs \<Longrightarrow> st a = replay_states L items i algs a" for algs st
    using that
  proof (induction algs arbitrary: st)
    case (Cons x xs)
    obtain a v where x: "x = (a, v)" by (cases x)
    have v: "map_of (lg_algs L) a = Some v" using Cons.prems(1) d by (simp add: x)
    let ?s = "replay_states L items (i + 1) [(a, v)] a"
    have na: "a \<notin> fst ` set xs" using Cons.prems(2) by (simp add: x)
    have "st a = replay_states L items i [(a, v)] a"
      using Cons.prems(3) [of a] by (simp add: x replay_states_def)
    note replay_step_of [where states = st, OF inv v i data this, of xs]
    also have "replay_row S L data i xs (st(a := ?s))
        = Inr (Some (\<lambda>b. if b \<in> fst ` set xs then replay_states L items (i + 1) xs b else (st(a := ?s)) b))"
    proof (rule Cons.IH)
      show "set xs \<subseteq> set (lg_algs L)" "distinct (map fst xs)" using Cons.prems(1,2) by simp_all
      fix b assume b: "b \<in> fst ` set xs"
      then have "b \<noteq> a" using na by blast
      then show "(st(a := ?s)) b = replay_states L items i xs b"
        using Cons.prems(3) [of b] b by (simp add: x replay_states_def)
    qed
    also have "(\<lambda>b. if b \<in> fst ` set xs then replay_states L items (i + 1) xs b else (st(a := ?s)) b)
        = (\<lambda>b. if b \<in> fst ` set (x # xs) then replay_states L items (i + 1) (x # xs) b else st b)"
      using na by (auto simp: fun_eq_iff x replay_states_def)
    finally show ?case by (simp add: x)
  qed simp
  from this [of "lg_algs L" "replay_states L items i (lg_algs L)"] d
  have "replay_row S L data i (lg_algs L) (replay_states L items i (lg_algs L))
    = Inr (Some (\<lambda>a. if a \<in> fst ` set (lg_algs L) then replay_states L items (i + 1) (lg_algs L) a
        else replay_states L items i (lg_algs L) a))" by simp
  also have "(\<lambda>a. if a \<in> fst ` set (lg_algs L) then replay_states L items (i + 1) (lg_algs L) a
        else replay_states L items i (lg_algs L) a) = replay_states L items (i + 1) (lg_algs L)"
    by (intro ext) (simp add: replay_states_def map_of_eq_None_iff [THEN iffD2])
  finally show ?thesis .
qed

lemma replay_stream_of:
  assumes inv: "log_inv valid content L items"
  shows "m \<le> lg_count L \<Longrightarrow> replay_stream S L [m..<lg_count L] (replay_states L items m (lg_algs L))
    = Inr (Some (replay_states L items (lg_count L) (lg_algs L)))"
proof (induction "lg_count L - m" arbitrary: m)
  case (Suc x)
  have m: "m < lg_count L" using Suc.hyps(2) by simp
  obtain data where data: "leaf_data S L m = Inr data"
    using leaf_at [OF inv _ m] by (cases "lg_kind L") (auto simp: leaf_data_def)
  have "replay_stream S L [m + 1..<lg_count L] (replay_states L items (m + 1) (lg_algs L))
      = Inr (Some (replay_states L items (lg_count L) (lg_algs L)))"
    using Suc.hyps(2) m by (intro Suc.hyps(1)) simp_all
  then show ?case
    unfolding upt_conv_Cons [OF m] by (simp add: data replay_row_of [OF inv m data, simplified])
qed simp

end

context lawful_storage begin

lemma replay_consistency_of:
  assumes inv: "log_inv valid content L items" and v: "map_of (lg_algs L) a = Some v"
    and st: "0 < start" "start \<le> lg_count L" and e: "effective_size_at v start = replay_size L v start"
    and tr: "\<exists>r. map_of trusted a = Some r \<and> log_root_for_at S L a start = Inr r" and w: "width_ok (av_hasher v)"
  shows "replay_consistency S L start trusted (a, v) = Inr True"
proof -
  note iv = log_invD [OF inv] and vs = view_size [OF inv v]
  let ?n = "lg_count L" and ?t = "tree_size v (lg_count L)" and ?new = "effective_size_at v (lg_count L)"
  have ev: "epochs_valid ?n (av_epochs v)" using alg_okD(3) [OF iv(11) [OF v]] by (simp add: iv(3))
  have new: "?new \<le> ?t" by (rule effective_le_tree [OF ev])
  have root: "log_root_for_at S L a ?n = Inr (replay_root L items v ?new)" by (rule root_of [OF inv v le_refl new])
  have r0: "replay_root L items v 0 = hs_empty (av_hasher v)"
    using frontier_empty_iff [OF iv(12), of 0] by (simp add: u64_limit_def replay_root_def fdigs_def bag_empty)
  consider "\<not> max start (first_activation v) < ?n"
    | "max start (first_activation v) < ?n" "start \<le> first_activation v"
    | "first_activation v < start" "start < ?n" by linarith
  then show ?thesis
  proof cases
    case 2
    then have "max start (first_activation v) = first_activation v" by simp
    then show ?thesis using 2(1) root r0 by (simp add: replay_consistency_def Let_def)
  next
    case 3
    then have cs: "max start (first_activation v) = start" "start \<noteq> first_activation v" by simp_all
    let ?old = "replay_size L v start"
    have le: "?old \<le> ?t" by (simp add: replay_size_def)
    have tr': "map_of trusted a = Some (replay_root L items v ?old)"
      using tr root_of [OF inv v st(2)] le by (auto simp: e)
    have old: "(if ?old = 0 then Inr (hs_empty (av_hasher v)) else ok_or (MissingTrustedRoot a) (map_of trusted a))
        = Inr (replay_root L items v ?old)" using tr' r0 by simp
    show ?thesis
    proof (cases "?old < ?new \<and> 0 < ?old")
      case True
      have b: "backed (storage_reader S (lg_storage L)) v a (lg_arity L) (history items v) ?t"
        using alg_backed [OF inv v] by (simp only: vs(3))
      have lim: "?new < u64_limit" using new vs(2) by simp
      obtain cp where cp: "consistency_proof_of (storage_reader S (lg_storage L)) v a ?old ?new ?n (lg_arity L) = Inr (Some cp)"
        "reconstruct_consistency_roots (av_hasher v) ?old ?new (lg_arity L) (cp_boundary_hash cp) (cp_peak_path cp)
           (cp_new_peaks cp) (cp_split_index cp) = Some (replay_root L items v ?old, replay_root L items v ?new)"
        using consistency_backed [OF b iv(2) w lim _ _ new new vs(2), of ?old] True
        by (auto simp: replay_root_def)
      have "log_consistency_proof_for S L a ?old ?new = Inr (Some cp)"
        using v cp(1) by (simp add: log_consistency_proof_for_def with_view_def)
      then show ?thesis
        using cs 3 True old root cp(2)
        by (simp add: replay_consistency_def Let_def e verify_consistency_def)
    next
      case False
      then show ?thesis
        using cs 3 old root by (auto simp: replay_consistency_def Let_def e)
    qed
  qed (simp add: replay_consistency_def Let_def)
qed

text \<open>The verdict of the replay on a log in an invariant state.\<close>

lemma replay_exact:
  assumes inv: "log_inv valid content L items" and start: "start = (case cp of None \<Rightarrow> 0 | Some n \<Rightarrow> n)"
    and n: "start \<le> lg_count L" and g: "gap_free L start"
    and tr: "\<And>a v. map_of (lg_algs L) a = Some v \<Longrightarrow> 0 < start \<Longrightarrow>
      width_ok (av_hasher v) \<and> (\<exists>r. map_of trusted a = Some r \<and> log_root_for_at S L a start = Inr r)"
  shows "verify_non_divergence S L cp trusted =
    Inr (list_all (\<lambda>(_, v). replay_root L items v (tree_size v (lg_count L))
           = replay_root L items v (effective_size_at v (lg_count L))) (lg_algs L))"
proof -
  note iv = log_invD [OF inv]
  have view: "map_of (lg_algs L) a = Some v" if "(a, v) \<in> set (lg_algs L)" for a v
    using that iv(6) by simp
  have "checkE (replay_consistency S L start trusted) (lg_algs L) = Inr (list_all (\<lambda>_. True) (lg_algs L))" if "0 < start"
  proof (rule checkE_all)
    fix x assume x: "x \<in> set (lg_algs L)"
    obtain a v where av: "x = (a, v)" by (cases x)
    note v = view [OF x [unfolded av]]
    have "effective_size_at v start = replay_size L v start"
      using g x by (auto simp: gap_free_def list_all_iff av)
    then show "replay_consistency S L start trusted x = Inr True"
      unfolding av using tr [OF v that] by (intro replay_consistency_of [OF inv v that n]) simp_all
  qed
  then have cons: "(if start > 0 then checkE (replay_consistency S L start trusted) (lg_algs L) else Inr True) = Inr True"
    by (simp add: list_all_iff)
  have init: "replay_init S L start trusted (lg_algs L) Map.empty = Inr (Some (replay_states L items start (lg_algs L)))"
    by (rule replay_init_of [OF inv n _ g]) (use tr in blast)
  have "checkE (replay_final S L (replay_states L items (lg_count L) (lg_algs L))) (lg_algs L)
    = Inr (list_all (\<lambda>(_, v). replay_root L items v (tree_size v (lg_count L))
           = replay_root L items v (effective_size_at v (lg_count L))) (lg_algs L))"
  proof (rule checkE_all)
    fix x assume x: "x \<in> set (lg_algs L)"
    obtain a v where av: "x = (a, v)" by (cases x)
    note v = view [OF x [unfolded av]]
    have ev: "epochs_valid (lg_count L) (av_epochs v)" using alg_okD(3) [OF iv(11) [OF v]] by (simp add: iv(3))
    have "replay_size L v (lg_count L) = tree_size v (lg_count L)"
      using view_size(1) [OF inv v] by (simp add: replay_size_def)
    then show "replay_final S L (replay_states L items (lg_count L) (lg_algs L)) x
      = Inr (case x of (_, v) \<Rightarrow> replay_root L items v (tree_size v (lg_count L))
           = replay_root L items v (effective_size_at v (lg_count L)))"
      using v root_of [OF inv v le_refl effective_le_tree [OF ev]]
      by (simp add: av replay_final_def replay_states_def raw_root_bag replay_root_def Let_def)
  qed
  then show ?thesis
    using n cons by (simp add: verify_non_divergence_def start [symmetric] init replay_stream_of [OF inv n])
qed

end

section \<open>What an accepting replay has checked, over any store\<close>

text \<open>The size and the digests a replay from genesis gives an algorithm.\<close>

definition stop_at :: "alg_view \<Rightarrow> nat \<Rightarrow> nat" where
  "stop_at v n = min n (if is_active v then u64_max else last_end v)"

definition replay_digest :: "('s, 'e) storage \<Rightarrow> 's merkle_log \<Rightarrow> alg_id \<Rightarrow> alg_view \<Rightarrow> nat \<Rightarrow> digest" where
  "replay_digest S L a v i =
     (if \<not> is_active_at v i then hs_null (av_hasher v)
      else if lg_kind L = Flat then hs_leaf (av_hasher v) (projr (st_get_leaf S (lg_storage L) i))
      else projr (log_peak_at S L a i 0 :: 'e log_error + digest))"

definition replayed :: "('s, 'e) storage \<Rightarrow> 's merkle_log \<Rightarrow> alg_id \<Rightarrow> alg_view \<Rightarrow> nat \<Rightarrow> digest list" where
  "replayed S L a v n = fdigs (av_hasher v) (lg_arity L) (replay_digest S L a v) (frontier_for_size (stop_at v n) (lg_arity L))"

lemma replay_pop_success:
  "(replay_pop alg m F C ch cc :: 'e log_error + _) = Inr (F', C', ch', cc') \<Longrightarrow> audit_pop m F ch = Some (F', ch')"
  by (induction alg m F C ch cc rule: replay_pop.induct) (auto split: if_splits)

lemma replay_merge_success:
  "(replay_merge S L alg h m F C :: 'e log_error + _) = Inr (Some (F', C')) \<Longrightarrow>
    (audit_merge h (lg_arity L) alg m F :: 'e log_error + _) = Inr (Some F')"
proof (induction m arbitrary: F C)
  case (Suc m)
  obtain F1 C1 ch cc where pop: "(replay_pop alg (lg_arity L) F C [] [] :: 'e log_error + _) = Inr (F1, C1, ch, cc)"
    and rest: "(replay_merge S L alg h m (F1 @ [nary_mr h ch]) (C1 @ [(fst (cc ! 0), snd (cc ! 0) + 1)]) :: 'e log_error + _)
      = Inr (Some (F', C'))" and len: "\<not> length F < lg_arity L"
    using Suc.prems by (auto simp: bindE_Inr_iff Let_def split: if_splits)
  from Suc.IH [OF rest] show ?case using replay_pop_success [OF pop] len by simp
qed simp

lemma replay_cell_success:
  assumes data: "leaf_data S L i = (Inr data :: 'e log_error + _)"
    and c: "(replay_cell S L data i a v :: 'e log_error + _) = Inr (Some d)"
  shows "d = replay_digest S L a v i"
proof -
  have flat: "lg_kind L = Flat \<Longrightarrow> data = Some (projr (st_get_leaf S (lg_storage L) i))"
    "lg_kind L \<noteq> Flat \<Longrightarrow> data = None"
    using data by (auto simp: leaf_data_def bindE_Inr_iff split: if_splits)
  show ?thesis
    using c flat by (cases "lg_kind L = Flat")
      (auto simp: replay_cell_def replay_digest_def Let_def bindE_Inr_iff split: if_splits)
qed

lemma replay_row_success:
  fixes S :: "('s, 'e) storage"
  assumes data: "leaf_data S L i = (Inr data :: 'e log_error + _)" and k: "2 \<le> lg_arity L" and i: "i + 1 < u64_limit"
  shows "replay_row S L data i algs states = Inr (Some states') \<Longrightarrow> distinct (map fst algs) \<Longrightarrow>
    (\<And>a v. (a, v) \<in> set algs \<Longrightarrow> \<exists>C. states a = Some (replayed S L a v i, C, stop_at v i)) \<Longrightarrow>
    (\<forall>(a, v) \<in> set algs. \<exists>C. states' a = Some (replayed S L a v (i + 1), C, stop_at v (i + 1)))
    \<and> (\<forall>a. a \<notin> fst ` set algs \<longrightarrow> states' a = states a)"
proof (induction algs arbitrary: states)
  case (Cons x xs)
  obtain a v where x: "x = (a, v)" by (cases x)
  obtain C where st: "states a = Some (replayed S L a v i, C, stop_at v i)" using Cons.prems(3) by (auto simp: x)
  let ?stop = "if is_active v then u64_max else last_end v"
  have na: "a \<notin> fst ` set xs" and dx: "distinct (map fst xs)" using Cons.prems(2) by (simp_all add: x)
  have "\<exists>states1. replay_row S L data i xs states1 = Inr (Some states')
    \<and> (\<exists>C'. states1 a = Some (replayed S L a v (i + 1), C', stop_at v (i + 1)))
    \<and> (\<forall>b. b \<noteq> a \<longrightarrow> states1 b = states b)"
  proof (cases "i \<ge> ?stop")
    case True
    have "stop_at v (i + 1) = stop_at v i" using True by (simp add: stop_at_def)
    then show ?thesis using Cons.prems(1) True st by (auto simp: x replayed_def)
  next
    case False
    have sz: "stop_at v i = i" "stop_at v (i + 1) = i + 1" using False by (simp_all add: stop_at_def)
    obtain m where m: "reduction_count i (lg_arity L) = Some m" using reduction_count_Some [OF k] by metis
    obtain d F' C' where d: "replay_cell S L data i a v = Inr (Some d)"
      and mg: "replay_merge S L a (av_hasher v) m (replayed S L a v i @ [d]) (C @ [(i, 0)]) = Inr (Some (F', C'))"
      and rest: "replay_row S L data i xs (states(a \<mapsto> (F', C', stop_at v i + 1))) = Inr (Some states')"
      using Cons.prems(1) False by (auto simp: x st sz m bindV_Some_iff)
    have "(audit_merge (av_hasher v) (lg_arity L) a m (replayed S L a v i @ [d]) :: 'e log_error + _)
        = Inr (Some (replayed S L a v (i + 1)))"
      using audit_merge_spec [OF k i m] unfolding replayed_def sz replay_cell_success [OF data d] .
    then have "F' = replayed S L a v (i + 1)" using replay_merge_success [OF mg] by simp
    then show ?thesis using rest sz by (intro exI [of _ "states(a \<mapsto> (F', C', stop_at v i + 1))"]) auto
  qed
  then obtain states1 C' where s1: "replay_row S L data i xs states1 = Inr (Some states')"
    "states1 a = Some (replayed S L a v (i + 1), C', stop_at v (i + 1))" "\<And>b. b \<noteq> a \<Longrightarrow> states1 b = states b"
    by blast
  have pre: "\<exists>C. states1 b = Some (replayed S L b w i, C, stop_at w i)" if b: "(b, w) \<in> set xs" for b w
  proof -
    have "b \<noteq> a" using na b by force
    then show ?thesis using s1(3) Cons.prems(3) [of b w] b by (simp add: x)
  qed
  note r = Cons.IH [OF s1(1) dx pre]
  have "states' a = states1 a" using conjunct2 [OF r] na by blast
  moreover have "states' b = states b" if "b \<notin> fst ` set (x # xs)" for b
    using conjunct2 [OF r] s1(3) [of b] that by (auto simp: x)
  ultimately show ?case using s1(2) conjunct1 [OF r] by (auto simp: x)
qed simp

lemma replay_stream_success:
  fixes S :: "('s, 'e) storage"
  assumes k: "2 \<le> lg_arity L" and d: "distinct (map fst (lg_algs L))"
  shows "replay_stream S L [m..<n] states = Inr (Some states') \<Longrightarrow> m \<le> n \<Longrightarrow> n < u64_limit \<Longrightarrow>
    (\<And>a v. (a, v) \<in> set (lg_algs L) \<Longrightarrow> \<exists>C. states a = Some (replayed S L a v m, C, stop_at v m)) \<Longrightarrow>
    (a, v) \<in> set (lg_algs L) \<Longrightarrow> \<exists>C. states' a = Some (replayed S L a v n, C, stop_at v n)"
proof (induction "n - m" arbitrary: m states)
  case (Suc x)
  have m: "m < n" "m + 1 < u64_limit" using Suc.hyps(2) Suc.prems(3) by simp_all
  obtain data states1 where data: "leaf_data S L m = (Inr data :: 'e log_error + _)"
    and row: "replay_row S L data m (lg_algs L) states = Inr (Some states1)"
    and rest: "replay_stream S L [m + 1..<n] states1 = Inr (Some states')"
    using Suc.prems(1) unfolding upt_conv_Cons [OF m(1)] by (auto simp: bindE_Inr_iff bindV_Some_iff)
  note r = conjunct1 [OF replay_row_success [OF data k m(2) row d Suc.prems(4)]]
  show ?case
  proof (rule Suc.hyps(1) [OF _ rest])
    show "x = n - (m + 1)" "m + 1 \<le> n" using Suc.hyps(2) by simp_all
    show "\<exists>C. states1 b = Some (replayed S L b w (m + 1), C, stop_at w (m + 1))" if "(b, w) \<in> set (lg_algs L)" for b w
      using r that by auto
  qed (use Suc.prems in simp_all)
qed simp

lemma replay_init_success:
  fixes S :: "('s, 'e) storage"
  shows "replay_init S L start trusted algs st = Inr (Some states) \<Longrightarrow> distinct (map fst algs) \<Longrightarrow>
    (\<forall>(a, v) \<in> set algs. \<exists>s. replay_frontier S L start trusted (a, v) = Inr (Some s) \<and> states a = Some s)
    \<and> (\<forall>a. a \<notin> fst ` set algs \<longrightarrow> states a = st a)"
proof (induction algs arbitrary: st)
  case (Cons x xs)
  obtain a v where x: "x = (a, v)" by (cases x)
  obtain s where s: "replay_frontier S L start trusted (a, v) = Inr (Some s)"
    "replay_init S L start trusted xs (st(a \<mapsto> s)) = Inr (Some states)"
    using Cons.prems(1) by (auto simp: x bindV_Some_iff)
  have dx: "distinct (map fst xs)" and na: "a \<notin> fst ` set xs" using Cons.prems(2) by (simp_all add: x)
  note r = Cons.IH [OF s(2) dx]
  have "states a = Some s" using conjunct2 [OF r] na by simp
  then show ?case using s(1) r by (cases s) (auto simp: x)
qed simp

lemma checkE_True: "checkE f xs = Inr True \<Longrightarrow> x \<in> set xs \<Longrightarrow> f x = Inr True"
  by (induction xs) (auto simp: bindE_Inr_iff split: if_splits)

lemma replay_sound:
  fixes S :: "('s, 'e) storage"
  assumes k: "arity_ok (lg_arity L)" and n: "lg_count L < u64_limit" and d: "distinct (map fst (lg_algs L))"
    and ok: "verify_non_divergence S L None trusted = Inr True" and av: "(a, v) \<in> set (lg_algs L)"
  shows "log_root_for_at S L a (lg_count L) = Inr (bag_peaks (av_hasher v) (replayed S L a v (lg_count L)) (lg_arity L))"
proof -
  have k2: "2 \<le> lg_arity L" using k by (simp add: arity_ok_def)
  have z: "frontier_for_size 0 (lg_arity L) = []" using frontier_empty_iff [OF k2, of 0] by (simp add: u64_limit_def)
  obtain states states' where init: "replay_init S L 0 trusted (lg_algs L) Map.empty = Inr (Some states)"
    and stream: "replay_stream S L [0..<lg_count L] states = Inr (Some states')"
    and final: "checkE (replay_final S L states') (lg_algs L) = Inr True"
    using ok by (auto simp: verify_non_divergence_def bindE_Inr_iff split: option.splits)
  have start: "\<exists>C. states b = Some (replayed S L b w 0, C, stop_at w 0)" if "(b, w) \<in> set (lg_algs L)" for b w
  proof -
    note mem = that
    obtain s where "replay_frontier S L 0 trusted (b, w) = Inr (Some s)" "states b = Some s"
      using bspec [OF conjunct1 [OF replay_init_success [OF init d]] mem] by auto
    moreover have "effective_size_at w 0 = 0" by (simp add: effective_size_at_def)
    ultimately show ?thesis
      by (auto simp: replay_frontier_def bindE_Inr_iff replayed_def stop_at_def z fdigs_def split: if_splits)
  qed
  obtain C where "states' a = Some (replayed S L a v (lg_count L), C, stop_at v (lg_count L))"
    using replay_stream_success [OF k2 d stream le0 n start av] by blast
  with checkE_True [OF final av] show ?thesis by (auto simp: replay_final_def bindE_Inr_iff raw_root_bag)
qed

section \<open>Reopening at the tip\<close>

lemma fold_max_ge: "x \<in> set xs \<Longrightarrow> x \<le> fold max xs (a :: nat)"
proof (induction xs arbitrary: a)
  case (Cons y ys)
  have mono: "b \<le> fold max zs b" for b :: nat and zs by (induction zs arbitrary: b) (simp, metis fold_simps(2) max.bounded_iff)
  show ?case
  proof (cases "x \<in> set ys")
    case False
    then have "x \<le> max y a" using Cons.prems by simp
    then show ?thesis using mono [of "max y a" ys] by (metis fold_simps(2) order_trans)
  qed (use Cons.IH in simp)
qed simp

lemma effective_reopened:
  assumes ev: "epochs_valid n (av_epochs v)" and f: "\<not> is_active v" "tree_size v n < n" and n: "n < u64_max"
  shows "effective_size_at (v\<lparr>av_epochs := av_epochs v @ [(n, u64_max)], av_frontier := F, av_coords := C\<rparr>) n = tree_size v n"
proof -
  let ?v = "v\<lparr>av_epochs := av_epochs v @ [(n, u64_max)], av_frontier := F, av_coords := C\<rparr>"
  note d = epochs_validD [OF ev]
  have t: "tree_size v n = snd (last (av_epochs v))" by (rule tree_size_closed [OF f(1) d(1)])
  have ends: "e \<le> tree_size v n" if "(s, e) \<in> set (av_epochs v)" for s e
    using epochs_sorted_le_last [OF d(2) that] t by simp
  have first: "first_activation ?v < n"
  proof -
    obtain s e es where es: "av_epochs v = (s, e) # es" using d(1) by (cases "av_epochs v") auto
    then have "s \<le> e" "e \<le> tree_size v n" using d(2) ends [of s e] by simp_all
    then show ?thesis using f(2) by (simp add: first_activation_def es)
  qed
  have inact: "\<not> is_active_at ?v (n - 1)"
    using ends f(2) by (fastforce simp: is_active_at_def list_ex_iff)
  have fil: "filter (\<lambda>(_, e). e < n) (av_epochs ?v) = av_epochs v"
    using ends f(2) n by (auto simp: filter_id_conv dest: ends)
  have ge: "tree_size v n \<le> fold max (map snd (av_epochs v)) 0"
    by (rule fold_max_ge) (use d(1) t in simp)
  have le: "fold max (map snd (av_epochs v)) 0 \<le> tree_size v n"
    by (rule fold_max_le) (auto dest: ends)
  show ?thesis using first inact ge le by (simp add: effective_size_at_def fil [simplified])
qed

context lawful_storage begin

lemma live_frontier_root:
  assumes inv: "log_inv valid content L items" and v: "map_of (lg_algs L) a = Some v"
  shows "log_root_for L a = (Inr (replay_root L items v (tree_size v (lg_count L))) :: 'x log_error + digest)"
proof -
  note iv = log_invD [OF inv]
  from holds_frontier_root [OF alg_okD(5) [OF iv(11) [OF v]]] show ?thesis
    by (simp add: log_root_for_def with_view_def v replay_root_def iv(3))
qed

lemma reopened_refuses:
  assumes inv: "log_inv valid content L items" and inv': "log_inv valid content L' items"
    and r: "resume_algorithm S L a = Inr L'" and v: "map_of (lg_algs L) a = Some v"
    and f: "tree_size v (lg_count L) < lg_count L"
    and ne: "(log_root_for L a :: 'e log_error + digest) \<noteq> log_root_for L' a"
  shows "verify_non_divergence S L' None trusted = Inr False"
proof -
  note iv = log_invD [OF inv]
  let ?n = "lg_count L"
  have frozen: "\<not> is_active v" using r v by (auto simp: resume_algorithm_def split: if_splits)
  obtain F where v': "map_of (lg_algs L') a = Some (v\<lparr>av_epochs := av_epochs v @ [(?n, u64_max)], av_frontier := F,
      av_coords := frontier_for_size ?n (lg_arity L)\<rparr>)" and same: "lg_count L' = ?n" "lg_arity L' = lg_arity L"
    using r v frozen by (auto simp: resume_algorithm_def Let_def bindE_Inr_iff update_conv')
  define w where "w = v\<lparr>av_epochs := av_epochs v @ [(?n, u64_max)], av_frontier := F,
      av_coords := frontier_for_size ?n (lg_arity L)\<rparr>"
  have w: "map_of (lg_algs L') a = Some w" using v' by (simp add: w_def)
  have ev: "epochs_valid ?n (av_epochs v)" using alg_okD(3) [OF iv(11) [OF v]] by (simp add: iv(3))
  have nm: "?n < u64_max" by (rule size_bounds(3) [OF inv le_refl])
  have eff: "effective_size_at w ?n = tree_size v ?n" unfolding w_def by (rule effective_reopened [OF ev frozen f nm])
  have hist: "history items w = history items v"
    by (rule history_cong) (auto simp: w_def is_active_at_def iv(3))
  have root: "replay_root L' items w m = replay_root L items v m" for m
    by (simp add: replay_root_def hist same) (simp add: w_def)
  have "replay_root L items v (tree_size v ?n) \<noteq> replay_root L' items w (tree_size w ?n)"
    using ne live_frontier_root [OF inv v, where 'x = 'e] live_frontier_root [OF inv' w, where 'x = 'e] by (simp add: same)
  then have "\<not> list_all (\<lambda>(_, u). replay_root L' items u (tree_size u (lg_count L'))
      = replay_root L' items u (effective_size_at u (lg_count L'))) (lg_algs L')"
    using map_of_SomeD [OF w] by (force simp: list_all_iff same eff root)
  moreover have "gap_free L' 0" by (rule gap_free_zero)
  ultimately show ?thesis
    using replay_exact [OF inv', of 0 None trusted] by simp
qed

end

section \<open>Properties\<close>

text \<open>
  C23. The replay accepts an honest log: from genesis, or from any checkpoint outside an inactive
  gap with the log's own roots of the checkpoint size as trusted roots, a reachable log whose
  algorithms were not reopened after the last append is found consistent with its store.
\<close>

theorem replay_accepts:
  assumes "reachable_log memory_ops mem_new k L items" "start \<le> lg_count L"
    and "gap_free L start" "gap_free L (lg_count L)"
    and "\<forall>(a, v) \<in> set (lg_algs L). width_ok (av_hasher v)
      \<and> (\<exists>r. map_of trusted a = Some r \<and> log_root_for_at memory_ops L a start = Inr r)"
  shows "verify_non_divergence memory_ops L (Some start) trusted = Inr True
    \<and> verify_non_divergence memory_ops L None [] = Inr True"
proof -
  have inv: "log_inv mem_wf mem_abs L items" by (rule mem.reachable_inv [OF assms(1) mem_new_ok])
  note iv = log_invD [OF inv]
  have "replay_root L items v (tree_size v (lg_count L)) = replay_root L items v (effective_size_at v (lg_count L))"
    if av: "(a, v) \<in> set (lg_algs L)" for a v
  proof -
    have v: "map_of (lg_algs L) a = Some v" using av iv(6) by simp
    have "effective_size_at v (lg_count L) = replay_size L v (lg_count L)"
      using assms(4) av by (auto simp: gap_free_def list_all_iff)
    then show ?thesis using mem.view_size(1) [OF inv v] by (simp add: replay_size_def)
  qed
  then have all: "list_all (\<lambda>(_, v). replay_root L items v (tree_size v (lg_count L))
           = replay_root L items v (effective_size_at v (lg_count L))) (lg_algs L)"
    by (auto simp: list_all_iff)
  have tr: "width_ok (av_hasher v) \<and> (\<exists>r. map_of trusted a = Some r \<and> log_root_for_at memory_ops L a start = Inr r)"
    if "map_of (lg_algs L) a = Some v" for a v
    using assms(5) map_of_SomeD [OF that] by blast
  have "verify_non_divergence memory_ops L (Some start) trusted = Inr True"
    using mem.replay_exact [OF inv, of start "Some start" trusted] assms(2,3) tr all by simp
  then show ?thesis using mem.replay_exact [OF inv, of 0 None "[]"] gap_free_zero [of L] all by simp
qed

theorem replay_accepts_witness:
  "\<exists>L r0 r1. log_shape L = toy_shape \<and> verify_non_divergence memory_ops L (Some 1) [(0, r0), (1, r1)] = Inr True
    \<and> verify_non_divergence memory_ops L None [] = Inr True"
proof -
  obtain L where L: "run_state 2 toy_shape toy_items L" using toy_run by blast
  then have re: "reachable_log memory_ops mem_new 2 L toy_items" and sh: "log_shape L = toy_shape"
    by (simp_all add: run_state_def)
  have inv: "log_inv mem_wf mem_abs L toy_items" by (rule mem.reachable_inv [OF re mem_new_ok])
  obtain v0 v1 where v: "lg_algs L = [(0, v0), (1, v1)]" "av_hasher v0 = tagged_hasher" "av_hasher v1 = tagged_hasher"
    "av_epochs v0 = [(0, 2)]" "av_epochs v1 = [(1, u64_max)]" and n: "lg_count L = 2"
    by (rule toy_algs [OF sh])
  have g: "gap_free L 1" "gap_free L (lg_count L)"
    using v n by (simp_all add: gap_free_def replay_size_def effective_size_at_def first_activation_def is_active_at_def
        tree_size_def epochs_tree_size_def epochs_open_def u64_max_def)
  have le: "1 \<le> lg_count L" by (simp add: n)
  have r: "\<exists>r. log_root_for_at memory_ops L a 1 = Inr r" if "map_of (lg_algs L) a = Some v" for a v
  proof -
    note m = that
    have "effective_size_at v 1 \<le> tree_size v (lg_count L)"
      using g(1) map_of_SomeD [OF m] by (auto simp: gap_free_def list_all_iff replay_size_def)
    from mem.root_of [OF inv m le this] show ?thesis by blast
  qed
  obtain r0 r1 where "log_root_for_at memory_ops L 0 1 = Inr r0" "log_root_for_at memory_ops L 1 1 = Inr r1"
    using r [of 0 v0] r [of 1 v1] v by auto
  then have "\<forall>(a, v) \<in> set (lg_algs L). width_ok (av_hasher v)
      \<and> (\<exists>r. map_of [(0, r0), (1, r1)] a = Some r \<and> log_root_for_at memory_ops L a 1 = Inr r)"
    using v tagged_width_ok by simp
  from replay_accepts [OF re le g this] sh show ?thesis by blast
qed

text \<open>
  C5. What the replay certifies, over any store: if the verifier accepts a log from genesis, then
  the root the log reports for an algorithm is the reference root of the positions it covers, each
  leaf digest being the hash of the raw leaf (the null digest where the algorithm is inactive).
\<close>

theorem replay_certifies_roots:
  fixes S :: "('s, 'e) storage"
  assumes "arity_ok (lg_arity L)" "lg_count L < u64_limit" "distinct (map fst (lg_algs L))"
    and "verify_non_divergence S L None trusted = Inr True" "(a, v) \<in> set (lg_algs L)"
  shows "log_root_for_at S L a (lg_count L) = Inr (bag_peaks (av_hasher v) (replayed S L a v (lg_count L)) (lg_arity L))"
  by (rule replay_sound [OF assms])

theorem replay_certifies_roots_witness:
  "\<exists>L v. lg_algs L = [(0, v)] \<and> lg_count L = 2
    \<and> log_root_for_at memory_ops L 0 2 = Inr (bag_peaks (av_hasher v) (replayed memory_ops L 0 v 2) 2)"
proof -
  obtain L where L: "run_state 2 (2, 2, Flat, [(0, tagged_hasher, [(0, u64_max)])]) [LeafItem [1], LeafItem [2]] L"
    using toy_pair_run by blast
  then have re: "reachable_log memory_ops mem_new 2 L [LeafItem [1], LeafItem [2]]"
    and sh: "log_shape L = (2, 2, Flat, [(0, tagged_hasher, [(0, u64_max)])])"
    by (simp_all add: run_state_def)
  obtain v where v: "lg_algs L = [(0, v)]" "av_hasher v = tagged_hasher" "av_epochs v = [(0, u64_max)]"
    "lg_count L = 2" "lg_arity L = 2"
    using sh by (auto simp: log_shape_def map_eq_Cons_conv)
  have inv: "log_inv mem_wf mem_abs L [LeafItem [1], LeafItem [2]]" by (rule mem.reachable_inv [OF re mem_new_ok])
  have n: "lg_count L < u64_limit" by (rule mem.size_bounds(1) [OF inv le_refl])
  have "gap_free L 0" by (rule gap_free_zero)
  then have ok: "verify_non_divergence memory_ops L None [] = Inr True"
    using mem.replay_exact [OF inv, of 0 None "[]"] v
    by (simp add: effective_size_at_def first_activation_def is_active_at_def tree_size_def epochs_tree_size_def
        epochs_open_def u64_max_def)
  from replay_certifies_roots [OF log_invD(2) [OF inv] n log_invD(6) [OF inv] ok, of 0 v] v show ?thesis
    by (intro exI [of _ L] exI [of _ v]) simp
qed

text \<open>
  C39. Reopening an algorithm makes an honest log look diverged: after \<open>resume_algorithm\<close> of an
  algorithm frozen before the last append, and until the next append, the replay from genesis
  returns \<^verbatim>\<open>Ok(false)\<close> whenever the gap changes the algorithm's root, because the stream counts the
  gap as null leaves while \<open>root_for_at\<close> still answers for the frozen size.
\<close>

theorem reopened_replay_refuses:
  assumes "reachable_log memory_ops mem_new k L items" "resume_algorithm memory_ops L a = Inr L'"
    and "map_of (lg_algs L) a = Some v" "tree_size v (lg_count L) < lg_count L"
    and "(log_root_for L a :: memory_storage_error log_error + digest) \<noteq> log_root_for L' a"
  shows "verify_non_divergence memory_ops L' None trusted = Inr False"
proof -
  have inv: "log_inv mem_wf mem_abs L items" by (rule mem.reachable_inv [OF assms(1) mem_new_ok])
  have "reachable_log memory_ops mem_new k L' items"
    by (rule reachable_log.step [OF assms(1) log_step.resume [OF assms(2)]])
  then have inv': "log_inv mem_wf mem_abs L' items" by (rule mem.reachable_inv [OF _ mem_new_ok])
  show ?thesis by (rule mem.reopened_refuses [OF inv inv' assms(2-5)])
qed

text \<open>One leaf under algorithm 0, which is frozen, then one under algorithm 1.\<close>

lemma toy_frozen_run: "\<exists>L. run_state 2 (2, 2, Flat, [(0, tagged_hasher, [(0, 1)]), (1, tagged_hasher, [(1, u64_max)])])
    [LeafItem [1], LeafItem [2]] L"
proof -
  have cap: "1 < log_capacity" by (simp add: log_capacity_def)
  obtain L1 where "run_state 2 (2, 1, Flat, [(0, tagged_hasher, [(0, u64_max)])]) [LeafItem [1]] L1"
    using toy_leaf_run by blast
  from run_add [OF this _ tagged_null_free one_fits] obtain L2
    where "run_state 2 (2, 1, Flat, [(0, tagged_hasher, [(0, u64_max)]), (1, tagged_hasher, [(1, u64_max)])])
      [LeafItem [1]] L2" by auto
  from run_remove [OF this, of 0] obtain L3
    where "run_state 2 (2, 1, Flat, [(0, tagged_hasher, [(0, 1)]), (1, tagged_hasher, [(1, u64_max)])])
      [LeafItem [1]] L3" by (auto simp: epochs_open_def)
  from run_leaf [OF this cap, of "[2]"] show ?thesis
    by (auto simp: epochs_open_def tagged_safe numeral_2_eq_2)
qed

theorem reopened_replay_refuses_witness:
  "\<exists>L L'. log_shape L = (2, 2, Flat, [(0, tagged_hasher, [(0, 1)]), (1, tagged_hasher, [(1, u64_max)])])
    \<and> resume_algorithm memory_ops L 0 = Inr L' \<and> verify_non_divergence memory_ops L' None [] = Inr False"
proof -
  let ?sh = "(2, 2, Flat, [(0, tagged_hasher, [(0, 1)]), (1, tagged_hasher, [(1, u64_max)])])"
  let ?items = "[LeafItem [1], LeafItem [2]]"
  obtain L where L: "run_state 2 ?sh ?items L" using toy_frozen_run by blast
  then have re: "reachable_log memory_ops mem_new 2 L ?items" and sh: "log_shape L = ?sh"
    by (simp_all add: run_state_def)
  have inv: "log_inv mem_wf mem_abs L ?items" by (rule mem.reachable_inv [OF re mem_new_ok])
  obtain v v1 where v: "lg_algs L = [(0, v), (1, v1)]" "av_hasher v = tagged_hasher" "av_epochs v = [(0, 1)]"
    "lg_count L = 2" "lg_arity L = 2"
    using sh by (auto simp: log_shape_def map_eq_Cons_conv)
  have m: "map_of (lg_algs L) 0 = Some v" using v by simp
  have frozen: "\<not> is_active v" using v by (simp add: is_active_def epochs_open_def u64_max_def)
  obtain L' where L': "resume_algorithm memory_ops L 0 = Inr L'" "log_inv mem_wf mem_abs L' ?items"
    using mem.inv_resume [OF inv m frozen] by blast
  obtain w where w: "map_of (lg_algs L') 0 = Some w" "av_hasher w = tagged_hasher" "av_epochs w = [(0, 1), (2, u64_max)]"
    "lg_count L' = 2" "lg_arity L' = 2"
    using L'(1) v frozen by (auto simp: resume_algorithm_def Let_def bindE_Inr_iff)
  have "tree_size v 2 = 1" "tree_size w 2 = 2"
    using v w by (simp_all add: tree_size_def epochs_tree_size_def epochs_open_def u64_max_def)
  moreover have "(log_root_for L 0 :: memory_storage_error log_error + digest)
      = Inr (replay_root L ?items v (tree_size v (lg_count L)))"
    "(log_root_for L' 0 :: memory_storage_error log_error + digest)
      = Inr (replay_root L' ?items w (tree_size w (lg_count L')))"
    by (rule mem.live_frontier_root [OF inv m], rule mem.live_frontier_root [OF L'(2) w(1)])
  moreover have "replay_root L ?items v 1 = [1, 1]"
    using v by (simp add: replay_root_def toy_frontier_one fdigs_def bag_peaks_fold history_def is_active_at_def
        tagged_hasher_def)
  moreover have "replay_root L' ?items w 2 \<noteq> [1, 1]"
    using w by (simp add: replay_root_def pair_frontiers fdigs_def bag_peaks_fold history_def is_active_at_def
        tagged_hasher_def upt_pair hs_null_def)
  ultimately have "(log_root_for L 0 :: memory_storage_error log_error + digest) \<noteq> log_root_for L' 0"
    using v w by auto
  moreover have "tree_size v (lg_count L) < lg_count L"
    using v by (simp add: tree_size_def epochs_tree_size_def epochs_open_def u64_max_def)
  ultimately show ?thesis using reopened_replay_refuses [OF re L'(1) m] sh L'(1) by blast
qed

end
