(* ===== verification/Poly_Fill.thy ===== *)
theory Poly_Fill
  imports Poly_Log_Seal
begin

text \<open>
  \<^verbatim>\<open>polydigest/src/filling.rs\<close>: rebuilding one algorithm's tree from a sealed commitment and the raw
  leaves, checked against the committed binding root.  \<open>None\<close> is a call that panics or does not
  return.
\<close>

section \<open>Types\<close>

datatype fill_kind = FillEml | FillEmt

fun fill_bag :: "fill_kind \<Rightarrow> bag_fn" where
  "fill_bag FillEml = bag_peaks"
| "fill_bag FillEmt = rebalanced_bag"

datatype fill_error =
    LeafCountMismatch u64 u64
  | ExtentsDoNotCoverSize u64 u64
  | FillUnknownAlgorithm alg_id
  | FillMissingHasher alg_id
  | BindingRootMismatch alg_id

record filled_tree =
  ft_alg :: alg_id
  ft_tree_size :: u64
  ft_kind :: fill_kind
  ft_root :: digest

section \<open>Filling\<close>

text \<open>\<^verbatim>\<open>unreachable!\<close> for every error but a missing hasher.\<close>

fun fill_error_from_missing_hasher :: "poly_error \<Rightarrow> fill_error option" where
  "fill_error_from_missing_hasher (Spine (MissingHasher alg)) = Some (FillMissingHasher alg)"
| "fill_error_from_missing_hasher (Spine BadArity) = None"
| "fill_error_from_missing_hasher (Spine MalformedFrontier) = None"
| "fill_error_from_missing_hasher MalformedEpochs = None"

definition with_hashers ::
    "poly_error + 'a \<Rightarrow> ('a \<Rightarrow> (fill_error + 'b) option) \<Rightarrow> (fill_error + 'b) option" where
  "with_hashers m f =
     (case m of Inl e \<Rightarrow> map_option Inl (fill_error_from_missing_hasher e) | Inr a \<Rightarrow> f a)"

definition committed_partition :: "sealed \<Rightarrow> u64 \<Rightarrow> u64 \<Rightarrow> fill_error + coord list" where
  "committed_partition b sealed_size k =
     (let canonical = frontier_for_size sealed_size k;
          parts = sort_key fst (map (\<lambda>e. (re_left e, re_height e)) (seal_run_extents (bs_seal b))
                        @ filter (\<lambda>(_, height). height = 0) canonical);
          covered = sum_list (map (\<lambda>(_, height). k ^ height) parts)
      in if covered \<noteq> sealed_size then Inl (ExtentsDoNotCoverSize sealed_size covered) else Inr parts)"

text \<open>\<^verbatim>\<open>chunks\<close> panics for a size of 0, and the level loop does not end for a size of 1.\<close>

function chunks :: "nat \<Rightarrow> 'a list \<Rightarrow> 'a list list" where
  "chunks k xs = (if xs = [] \<or> k = 0 then [] else take k xs # chunks k (drop k xs))"
  by pat_completeness auto
termination
  by (relation "measure (\<lambda>(k, xs). length xs)") auto

declare chunks.simps [simp del]

lemma length_chunks: "2 \<le> k \<Longrightarrow> length (chunks k xs) \<le> Suc (length xs) div 2"
proof (induction k xs rule: chunks.induct)
  case (1 k xs)
  show ?case
  proof (cases "xs = []")
    case False
    then have "length (chunks k (drop k xs)) \<le> Suc (length xs - k) div 2"
      using 1 by simp
    moreover have "Suc (Suc (n - k) div 2) \<le> Suc n div 2" if "0 < n" for n using that 1(2) by presburger
    ultimately show ?thesis using False 1(2) by (subst chunks.simps) (auto intro: order_trans)
  qed (simp add: chunks.simps)
qed

function subtree_levels :: "hasher \<Rightarrow> nat \<Rightarrow> digest list \<Rightarrow> digest option" where
  "subtree_levels h k level =
     (if length level \<le> 1 then Some (if level = [] then hs_empty h else hd level)
      else if k < 2 then None
      else subtree_levels h k (map (nary_mr h) (chunks k level)))"
  by pat_completeness auto
termination
proof (relation "measure (\<lambda>(h, k, level). length level)")
  fix h :: hasher and k :: nat and level :: "digest list"
  assume "\<not> length level \<le> 1" "\<not> k < 2"
  then show "((h, k, map (nary_mr h) (chunks k level)), h, k, level) \<in> measure (\<lambda>(h, k, level). length level)"
    using length_chunks [of k level] by simp
qed simp

declare subtree_levels.simps [simp del]

definition subtree_root :: "hasher \<Rightarrow> bytes list \<Rightarrow> u64 \<Rightarrow> digest option" where
  "subtree_root h leaves k = subtree_levels h k (map (hs_leaf h) leaves)"

text \<open>The slice \<^verbatim>\<open>leaf_data[lo..lo + span]\<close>, which panics past the end.\<close>

definition slice :: "nat \<Rightarrow> nat \<Rightarrow> 'a list \<Rightarrow> 'a list option" where
  "slice lo span xs = (if lo + span \<le> length xs then Some (take span (drop lo xs)) else None)"

fun component_roots :: "hasher \<Rightarrow> bytes list \<Rightarrow> u64 \<Rightarrow> coord list \<Rightarrow> digest list option" where
  "component_roots h leaf_data k [] = Some []"
| "component_roots h leaf_data k ((left, height) # parts) =
     Option.bind (slice left (k ^ height) leaf_data) (\<lambda>leaves.
       Option.bind (subtree_root h leaves k) (\<lambda>component.
         map_option ((#) component) (component_roots h leaf_data k parts)))"

definition rebuilt_binding_root ::
    "sealed \<Rightarrow> alg_id \<Rightarrow> hasher \<Rightarrow> digest \<Rightarrow> (alg_id \<times> hasher) list \<Rightarrow> fill_kind \<Rightarrow>
     (fill_error + digest) option" where
  "rebuilt_binding_root b alg h member_root all_hashers kind =
     with_hashers (map_err Spine (seal_all_member_roots (bs_seal b) all_hashers (fill_bag kind))) (\<lambda>members.
       map_option Inr (combined_root h (map (\<lambda>(a, r). (a, if a = alg then member_root else r)) members)
         (bs_alg_epochs b) (sl_tree_size (bs_seal b)) (sl_arity (bs_seal b))))"

definition fill ::
    "sealed \<Rightarrow> alg_id \<Rightarrow> hasher \<Rightarrow> bytes list \<Rightarrow> fill_kind \<Rightarrow> (alg_id \<times> hasher) list \<Rightarrow>
     (fill_error + filled_tree) option" where
  "fill b alg h leaf_data kind all_hashers =
     (let n = sl_tree_size (bs_seal b); k = sl_arity (bs_seal b); supplied = length leaf_data
      in if seal_peaks (bs_seal b) alg = None then Some (Inl (FillUnknownAlgorithm alg))
         else if supplied \<noteq> n then Some (Inl (LeafCountMismatch n supplied))
         else case committed_partition b n k of
           Inl e \<Rightarrow> Some (Inl e)
         | Inr parts \<Rightarrow>
             Option.bind (component_roots h leaf_data k parts) (\<lambda>components.
               let member_root = fill_bag kind h components k
               in with_hashers (binding_root b alg h all_hashers (fill_bag kind)) (\<lambda>found.
                    case found of
                      None \<Rightarrow> Some (Inl (FillUnknownAlgorithm alg))
                    | Some committed' \<Rightarrow>
                        Option.bind committed' (\<lambda>committed.
                          Option.bind (rebuilt_binding_root b alg h member_root all_hashers kind) (\<lambda>r.
                            case r of
                              Inl e \<Rightarrow> Some (Inl e)
                            | Inr rebuilt \<Rightarrow>
                                if \<not> constant_time_eq rebuilt committed
                                then Some (Inl (BindingRootMismatch alg))
                                else Some (Inr \<lparr>ft_alg = alg, ft_tree_size = n, ft_kind = kind,
                                       ft_root = member_root\<rparr>))))))"

section \<open>The levels of a perfect block\<close>

lemma chunks_map_upt:
  assumes "0 < k"
  shows "chunks k (map g [0..<m * k]) = map (\<lambda>i. map (\<lambda>j. g (i * k + j)) [0..<k]) [0..<m]"
proof (induction m arbitrary: g)
  case 0
  then show ?case by (simp add: chunks.simps)
next
  case (Suc m)
  have split: "map g [0..<Suc m * k] = map g [0..<k] @ map (\<lambda>j. g (k + j)) [0..<m * k]"
  proof -
    have "[0..<Suc m * k] = [0..<k] @ [k..<k + m * k]" using upt_add_eq_append [of 0 k "m * k"] by simp
    also have "[k..<k + m * k] = map (\<lambda>j. k + j) [0..<m * k]" by (simp add: map_add_upt add.commute)
    finally show ?thesis by (simp add: o_def)
  qed
  have ne: "map g [0..<k] @ map (\<lambda>j. g (k + j)) [0..<m * k] \<noteq> []" using assms by simp
  have "chunks k (map g [0..<Suc m * k]) = map g [0..<k] # chunks k (map (\<lambda>j. g (k + j)) [0..<m * k])"
    unfolding split using assms ne by (subst chunks.simps) simp
  also have "\<dots> = map g [0..<k] # map (\<lambda>i. map (\<lambda>j. g (k + (i * k + j))) [0..<k]) [0..<m]"
    by (simp add: Suc.IH)
  also have "\<dots> = map (\<lambda>i. map (\<lambda>j. g (i * k + j)) [0..<k]) (0 # map Suc [0..<m])"
    by (simp add: o_def algebra_simps)
  also have "0 # map Suc [0..<m] = [0..<Suc m]" by (simp add: upt_conv_Cons map_Suc_upt del: upt_Suc)
  finally show ?case .
qed

lemma pdig_shift:
  "pdig h k (\<lambda>i. nary_mr h (map (\<lambda>j. g (i * k + j)) [0..<k])) l t = pdig h k g (l * k) (Suc t)"
proof (induction t arbitrary: l)
  case (Suc t)
  have "pdig h k (\<lambda>i. nary_mr h (map (\<lambda>j. g (i * k + j)) [0..<k])) l (Suc t)
      = nary_mr h (map (\<lambda>j. pdig h k g ((l + j * k ^ t) * k) (Suc t)) [0..<k])"
    by (simp only: pdig.simps(2) [of h k "\<lambda>i. nary_mr h (map (\<lambda>j. g (i * k + j)) [0..<k])"] Suc.IH)
  also have "\<dots> = pdig h k g (l * k) (Suc (Suc t))"
    by (subst pdig.simps(2) [of h k g "l * k" "Suc t"]) (simp only: add_mult_distrib mult.assoc power_Suc2)
  finally show ?case .
qed simp

lemma pdig_offset: "pdig h k (\<lambda>j. f (lo + j)) l t = pdig h k f (lo + l) t"
  by (induction t arbitrary: l) (simp_all add: add.assoc)

lemma subtree_levels_perfect:
  assumes k: "2 \<le> k"
  shows "subtree_levels h k (map g [0..<k ^ t]) = Some (pdig h k g 0 t)"
proof (induction t arbitrary: g)
  case 0
  then show ?case by (simp add: subtree_levels.simps)
next
  case (Suc t)
  have "1 < k ^ Suc t" by (rule one_less_power) (use k in simp_all)
  then have "subtree_levels h k (map g [0..<k ^ Suc t])
      = subtree_levels h k (map (nary_mr h) (chunks k (map g [0..<k ^ t * k])))"
    using k by (subst subtree_levels.simps) (simp add: mult.commute)
  also have "map (nary_mr h) (chunks k (map g [0..<k ^ t * k]))
      = map (\<lambda>i. nary_mr h (map (\<lambda>j. g (i * k + j)) [0..<k])) [0..<k ^ t]"
    using k by (subst chunks_map_upt) (simp_all add: o_def)
  also have "subtree_levels h k \<dots> = Some (pdig h k g 0 (Suc t))"
    by (simp only: Suc.IH pdig_shift mult_zero_left)
  finally show ?case .
qed

lemma subtree_root_block:
  assumes k: "2 \<le> k" and b: "lo + k ^ t \<le> length data"
  shows "subtree_root h (take (k ^ t) (drop lo data)) k = Some (pdig h k (\<lambda>i. hs_leaf h (data ! i)) lo t)"
proof -
  have "map (hs_leaf h) (take (k ^ t) (drop lo data)) = map (\<lambda>j. hs_leaf h (data ! (lo + j))) [0..<k ^ t]"
    using b by (intro nth_equalityI) simp_all
  then show ?thesis
    using subtree_levels_perfect [OF k, of h "\<lambda>j. hs_leaf h (data ! (lo + j))" t]
      pdig_offset [of h k "\<lambda>i. hs_leaf h (data ! i)" lo 0 t]
    by (simp add: subtree_root_def)
qed

section \<open>The committed partition\<close>

lemma partition_by_height:
  "sorted_wrt (\<ge>) hs \<Longrightarrow> filter (\<lambda>(_, h). 1 \<le> h) (coords_of k lo hs) @ filter (\<lambda>(_, h). h = 0) (coords_of k lo hs)
    = coords_of k lo hs"
proof (induction hs arbitrary: lo)
  case (Cons h hs)
  show ?case
  proof (cases "h = 0")
    case True
    then have "\<forall>x \<in> set hs. x = 0" using Cons.prems by simp
    then have "\<forall>c \<in> set (coords_of k l hs). snd c = 0" for l
      by (metis image_eqI map_snd_coords_of set_map)
    then have "filter (\<lambda>(_, h). 1 \<le> h) (coords_of k l hs) = []" "filter (\<lambda>(_, h). h = 0) (coords_of k l hs) = coords_of k l hs" for l
      by (auto simp: filter_empty_conv filter_id_conv case_prod_beta)
    then show ?thesis using True by simp
  next
    case False
    then show ?thesis using Cons by simp
  qed
qed simp

lemma sorted_coords_of: "sorted (map fst (coords_of k lo hs))"
proof (induction hs arbitrary: lo)
  case (Cons h hs)
  have "lo \<le> x" if "(x, t) \<in> set (coords_of k (lo + k ^ h) hs)" for x t using coords_of_bound [OF that] by simp
  then show ?case using Cons.IH by auto
qed simp

lemma sum_coords_of: "sum_list (map (\<lambda>(_, h). k ^ h) (coords_of k lo hs)) = hsum k hs"
  by (induction hs arbitrary: lo) simp_all

lemma committed_partition_frontier:
  assumes k: "2 \<le> k" "n < u64_limit" and b: "sl_tree_size (bs_seal b) = n" "sl_arity (bs_seal b) = k"
  shows "committed_partition b n k = Inr (frontier_for_size n k)"
proof -
  obtain hs where hs: "frontier_for_size n k = coords_of k 0 hs" "canon k hs" "hsum k hs = n"
    using frontier_canon [OF k] by blast
  have "map (\<lambda>e. (re_left e, re_height e)) (seal_run_extents (bs_seal b)) = filter (\<lambda>(_, h). 1 \<le> h) (coords_of k 0 hs)"
    using b hs(1) by (simp add: seal_run_extents_def o_def case_prod_beta)
  moreover have "sorted_wrt (\<ge>) hs" using hs(2) by (simp add: canon_def)
  ultimately show ?thesis
    using hs partition_by_height [of hs k 0] sort_key_id_if_sorted [OF sorted_coords_of [of k 0 hs]]
      sum_coords_of [of k 0 hs]
    by (simp add: committed_partition_def Let_def)
qed

lemma component_roots_frontier:
  assumes k: "2 \<le> k" "length data < u64_limit"
  shows "component_roots h data k (frontier_for_size (length data) k)
    = Some (fdigs h k (\<lambda>i. hs_leaf h (data ! i)) (frontier_for_size (length data) k))"
proof -
  have "component_roots h data k cs = Some (fdigs h k (\<lambda>i. hs_leaf h (data ! i)) cs)"
    if "\<And>l t. (l, t) \<in> set cs \<Longrightarrow> l + k ^ t \<le> length data" for cs
    using that
  proof (induction cs)
    case (Cons c cs)
    obtain l t where c: "c = (l, t)" by (cases c)
    have b: "l + k ^ t \<le> length data" using Cons.prems by (simp add: c)
    show ?case
      using Cons.IH Cons.prems subtree_root_block [OF k(1) b] b by (simp add: c slice_def fdigs_def)
  qed (simp add: fdigs_def)
  then show ?thesis using frontier_bound [OF k] by blast
qed

section \<open>The verdict\<close>

text \<open>The member root a fill recomputes: the bagged reference digests of the raw leaves.\<close>

definition leaves_root :: "fill_kind \<Rightarrow> hasher \<Rightarrow> nat \<Rightarrow> bytes list \<Rightarrow> digest" where
  "leaves_root kind h k data =
     fill_bag kind h (fdigs h k (\<lambda>i. hs_leaf h (data ! i)) (frontier_for_size (length data) k)) k"

definition replace_member :: "alg_id \<Rightarrow> digest \<Rightarrow> (alg_id \<times> digest) list \<Rightarrow> (alg_id \<times> digest) list" where
  "replace_member alg root = map (\<lambda>(a, r). (a, if a = alg then root else r))"

lemma fill_bag_eq: "fill_bag kind = bag_peaks"
proof (cases kind)
  case FillEmt
  have "rebalanced_bag h F k = bag_peaks h F k" for h F k
    by (simp add: rebalanced_bag_def bag_peaks_fold) (simp add: bag_peaks_def bag_shape_def)
  then show ?thesis using FillEmt by (simp add: fun_eq_iff)
qed simp

lemma fill_exact:
  assumes b: "sealed_new n k fs tml = Inr b" and n: "n \<le> 2 ^ 63"
  shows "fill b alg h data kind hs = Some
    (if alg \<notin> fst ` set fs then Inl (FillUnknownAlgorithm alg)
     else if length data \<noteq> n then Inl (LeafCountMismatch n (length data))
     else case find (\<lambda>(a, _). find_hasher hs a = None) fs of
       Some (a, _) \<Rightarrow> Inl (FillMissingHasher a)
     | None \<Rightarrow>
         let members = seal_member_roots (bs_seal b) hs (fill_bag kind); root = leaves_root kind h k data
         in if nary_mr h (root_children h (replace_member alg root members) tml n k)
               = nary_mr h (root_children h members tml n k)
            then Inr \<lparr>ft_alg = alg, ft_tree_size = n, ft_kind = kind, ft_root = root\<rparr>
            else Inl (BindingRootMismatch alg))"
proof -
  have ar: "arity_ok k" and s: "sl_tree_size (bs_seal b) = n" "sl_arity (bs_seal b) = k"
    "sl_frontiers (bs_seal b) = fs" "bs_alg_epochs b = tml"
    using b by (auto simp: sealed_new_Inr_iff seal_new_Inr_iff)
  have k: "2 \<le> k" by (rule arity_ok_ge2 [OF ar])
  have peaks: "seal_peaks (bs_seal b) alg = None \<longleftrightarrow> alg \<notin> fst ` set fs"
    by (simp add: seal_peaks_map_of s map_of_eq_None_iff)
  show ?thesis
  proof (cases "alg \<in> fst ` set fs \<and> length data = n")
    case True
    have lim: "length data < u64_limit" "n < u64_limit" using True n by (simp_all add: u64_limit_def)
    have part: "committed_partition b n k = Inr (frontier_for_size n k)"
      by (rule committed_partition_frontier [OF k lim(2) s(1,2)])
    have comp: "component_roots h data k (frontier_for_size n k)
        = Some (fdigs h k (\<lambda>i. hs_leaf h (data ! i)) (frontier_for_size n k))"
      using component_roots_frontier [OF k lim(1)] True by simp
    have sp: "seal_peaks (bs_seal b) alg \<noteq> None" using True peaks by blast
    have missing: "map_option fst (find (\<lambda>(a, _). find_hasher hs a = None) fs)
        = (case mapE (\<lambda>(id, ps). case find_hasher hs id of None \<Rightarrow> Inl (MissingHasher id)
              | Some h \<Rightarrow> Inr (id, fill_bag kind h ps k)) fs of Inl (MissingHasher a) \<Rightarrow> Some a | _ \<Rightarrow> None)
        \<and> (\<forall>e. mapE (\<lambda>(id, ps). case find_hasher hs id of None \<Rightarrow> Inl (MissingHasher id)
              | Some h \<Rightarrow> Inr (id, fill_bag kind h ps k)) fs = Inl e \<longrightarrow> (\<exists>a. e = MissingHasher a))"
      by (induction fs) (auto split: option.splits sum.splits spine_error.splits simp: bindE_Inl_iff bindE_def)
    note missing = missing [folded seal_all_member_roots_def [of "bs_seal b" hs "fill_bag kind", unfolded s]]
    show ?thesis
    proof (cases "seal_all_member_roots (bs_seal b) hs (fill_bag kind)")
      case (Inl e)
      then obtain a where e: "e = MissingHasher a" "map_option fst (find (\<lambda>(a, _). find_hasher hs a = None) fs) = Some a"
        using missing by (auto simp: Inl)
      then obtain ps where f: "find (\<lambda>(a, _). find_hasher hs a = None) fs = Some (a, ps)" by auto
      show ?thesis
        using True sp part comp by (simp add: fill_def Let_def s binding_root_def Inl e(1) with_hashers_def f)
    next
      case (Inr members)
      then have none: "find (\<lambda>(a, _). find_hasher hs a = None) fs = None"
        using missing by (simp add: Inr)
      have m: "members = seal_member_roots (bs_seal b) hs (fill_bag kind)"
        using Inr by (simp add: all_member_roots_Inr_iff)
      note cr = combined_root_children [OF k n]
      show ?thesis
        using True sp part comp
        by (simp add: fill_def Let_def s binding_root_def Inr with_hashers_def none rebuilt_binding_root_def cr
            leaves_root_def replace_member_def m [symmetric])
    qed
  next
    case False
    then show ?thesis using peaks by (auto simp: fill_def Let_def s)
  qed
qed

lemma seal_member_of:
  assumes "(a, r) \<in> set (seal_member_roots s hs bag)"
  shows "\<exists>h ps. find_hasher hs a = Some h \<and> (a, ps) \<in> set (sl_frontiers s) \<and> r = bag h ps (sl_arity s)"
  using assms by (auto simp: seal_member_roots_def map_filter_def split: option.splits)

section \<open>Filling what the log sealed\<close>

lemma sealed_of_new:
  assumes inv: "log_inv mem_wf mem_abs L items" and n: "0 < lg_count L"
  shows "sealed_new (lg_count L) (lg_arity L) (sealed_frontiers L items) (committed_epochs_at L (lg_count L))
    = Inr (sealed_of L items)"
proof -
  obtain fs where "sealed_new (lg_count L) (lg_arity L) fs (committed_epochs_at L (lg_count L)) = Inr (sealed_of L items)"
    using mem.seal_at [OF inv n] n by (auto simp: seal_inner_def Let_def bindE_Inr_iff)
  moreover from this have "fs = sealed_frontiers L items"
    by (auto simp: sealed_new_Inr_iff seal_new_Inr_iff sealed_of_def)
  ultimately show ?thesis by simp
qed

lemma history_leaves:
  assumes inv: "log_inv valid content L items" and flat: "lg_kind L = Flat"
    and act: "\<forall>i < lg_count L. is_active_at v i"
  shows "length (leaf_payloads items) = lg_count L"
    "i < lg_count L \<Longrightarrow> history items v i = hs_leaf (av_hasher v) (leaf_payloads items ! i)"
proof -
  note iv = log_invD [OF inv]
  have "list_all (\<lambda>it. item_kind it = Flat) items" using iv(5) unfolding flat .
  from flat_items [OF this] obtain ds where ds: "items = map LeafItem ds" "leaf_payloads items = ds" by blast
  show "length (leaf_payloads items) = lg_count L" using iv(3) ds by simp
  show "i < lg_count L \<Longrightarrow> history items v i = hs_leaf (av_hasher v) (leaf_payloads items ! i)"
    using iv(3) act ds by (simp add: history_def)
qed

lemma fill_sealed_log:
  assumes inv: "log_inv mem_wf mem_abs L items" and flat: "lg_kind L = Flat" and n: "0 < lg_count L"
    and v: "map_of (lg_algs L) a = Some v" "is_active v" "\<forall>i < lg_count L. is_active_at v i"
    and hs: "\<And>b w. map_of (lg_algs L) b = Some w \<Longrightarrow> is_active w \<Longrightarrow> find_hasher hs b = Some (av_hasher w)"
  shows "fill (sealed_of L items) a (av_hasher v) (leaf_payloads items) kind hs
    = Some (Inr \<lparr>ft_alg = a, ft_tree_size = lg_count L, ft_kind = kind,
        ft_root = history_root (lg_arity L) items v (lg_count L)\<rparr>)"
proof -
  note iv = log_invD [OF inv] and pay = history_leaves [OF inv flat v(3)]
  let ?n = "lg_count L" and ?k = "lg_arity L" and ?fs = "sealed_frontiers L items" and ?h = "av_hasher v"
  let ?tml = "committed_epochs_at L (lg_count L)" and ?data = "leaf_payloads items"
  have va: "view_of L a = v" using v(1) by (simp add: view_of_def)
  have lim: "?n < u64_limit" "?n \<le> 2 ^ 63" by (rule mem.size_bounds [OF inv le_refl])+
  have view: "map_of (lg_algs L) b = Some (view_of L b)" "is_active (view_of L b)"
    "ps = fdigs (av_hasher (view_of L b)) ?k (history items (view_of L b)) (frontier_for_size ?n ?k)"
    if "(b, ps) \<in> set ?fs" for b ps
  proof -
    note mem = that
    obtain es where es: "(b, es) \<in> set ?tml" "is_active (view_of L b)"
      using mem by (auto simp: sealed_frontiers_def)
    then show "map_of (lg_algs L) b = Some (view_of L b)"
      using committed_map_of [OF iv(6), of b es ?n] by (auto simp: committed_epochs_at_def view_of_def)
    show "is_active (view_of L b)"
      "ps = fdigs (av_hasher (view_of L b)) ?k (history items (view_of L b)) (frontier_for_size ?n ?k)"
      using mem by (auto simp: sealed_frontiers_def)
  qed
  have "map_of ?tml a = Some (av_epochs v)"
    using mem.open_peaks(4) [OF inv v(1,2)] v(1) by (simp add: committed_map [OF iv(6)])
  then have mem: "a \<in> fst ` set ?fs"
    using map_of_SomeD v(2) va by (force simp: sealed_frontiers_def)
  have none: "find (\<lambda>(a, _). find_hasher hs a = None) ?fs = None"
    using hs view by (force simp: find_None_iff)
  have root: "leaves_root kind ?h ?k ?data = history_root ?k items v ?n"
  proof -
    have "fdigs ?h ?k (\<lambda>i. hs_leaf ?h (?data ! i)) (frontier_for_size ?n ?k)
        = fdigs ?h ?k (history items v) (frontier_for_size ?n ?k)"
      unfolding fdigs_def
    proof (intro map_cong refl, clarify)
      fix l t assume "(l, t) \<in> set (frontier_for_size ?n ?k)"
      then have "l + ?k ^ t \<le> ?n" by (rule frontier_bound [OF iv(12) lim(1)])
      then show "pdig ?h ?k (\<lambda>i. hs_leaf ?h (?data ! i)) l t = pdig ?h ?k (history items v) l t"
        by (intro pdig_cong) (simp add: pay(2))
    qed
    then show ?thesis by (simp add: leaves_root_def history_root_def pay(1) fill_bag_eq)
  qed
  let ?ms = "seal_member_roots (bs_seal (sealed_of L items)) hs (fill_bag kind)"
  have "r = history_root ?k items v ?n" if r: "(a, r) \<in> set ?ms" for r
  proof -
    obtain h ps where hp: "find_hasher hs a = Some h" "(a, ps) \<in> set ?fs" "r = fill_bag kind h ps ?k"
      using seal_member_of [OF r] by (auto simp: sealed_of_def)
    then show ?thesis using view(3) [OF hp(2)] hs [OF v(1,2)] by (simp add: va history_root_def fill_bag_eq)
  qed
  then have same: "replace_member a (history_root ?k items v ?n) ?ms = ?ms"
    by (auto simp: replace_member_def intro!: map_idI)
  show ?thesis
    unfolding fill_exact [OF sealed_of_new [OF inv n] lim(2)] using mem pay(1) none root same
    by (simp add: Let_def)
qed

section \<open>Properties\<close>

text \<open>
  C8. The verdict of a fill against any constructed seal, with the order of its errors: the unknown
  algorithm, the leaf count, the first missing hasher, then the comparison of the binding root
  rebuilt from the raw leaves with the committed one.  The committed partition always covers the
  sealed size, no error is unreachable code, and the call returns.
\<close>

theorem fill_verdict:
  assumes "sealed_new n k fs tml = Inr b" "n \<le> 2 ^ 63"
  shows "fill b alg h data kind hs = Some
    (if alg \<notin> fst ` set fs then Inl (FillUnknownAlgorithm alg)
     else if length data \<noteq> n then Inl (LeafCountMismatch n (length data))
     else case find (\<lambda>(a, _). find_hasher hs a = None) fs of
       Some (a, _) \<Rightarrow> Inl (FillMissingHasher a)
     | None \<Rightarrow>
         let members = seal_member_roots (bs_seal b) hs (fill_bag kind); root = leaves_root kind h k data
         in if nary_mr h (root_children h (replace_member alg root members) tml n k)
               = nary_mr h (root_children h members tml n k)
            then Inr \<lparr>ft_alg = alg, ft_tree_size = n, ft_kind = kind, ft_root = root\<rparr>
            else Inl (BindingRootMismatch alg))"
  by (rule fill_exact [OF assms])

theorem fill_verdict_witness:
  "fill toy_sealed 1 toy_hasher [[5], [6]] FillEml [] = Some (Inl (LeafCountMismatch 1 2))
    \<and> fill toy_sealed 1 toy_hasher [[5]] FillEmt [] = Some (Inl (FillMissingHasher 1))"
  using fill_verdict [OF toy_sealed_new, of 1 toy_hasher "[[5], [6]]" FillEml "[]"]
    fill_verdict [OF toy_sealed_new, of 1 toy_hasher "[[5]]" FillEmt "[]"]
  by (simp add: find_hasher_def)

text \<open>
  C24. Seal and fill round-trip: a raw-leaf log sealed and then filled from its own leaves, for an
  algorithm active at every position, is accepted in both kinds, and the root of the filled tree is
  the root the log reports for the sealed size.  Comments of the source expect the other kind to
  mismatch; a seal holds the frontier peaks, though, and both sides of the check bag them alike.
\<close>

theorem fill_restores_log:
  assumes "reachable_log memory_ops mem_new k L items" "lg_kind L = Flat" "0 < lg_count L"
    and "map_of (lg_algs L) a = Some v" "is_active v" "\<forall>i < lg_count L. is_active_at v i"
    and "\<forall>b w. map_of (lg_algs L) b = Some w \<and> is_active w \<longrightarrow> find_hasher hs b = Some (av_hasher w)"
  shows "\<exists>b root. log_seal memory_ops L = Inr b \<and> log_root_for_at memory_ops L a (lg_count L) = Inr root
    \<and> fill b a (av_hasher v) (leaf_payloads items) kind hs
      = Some (Inr \<lparr>ft_alg = a, ft_tree_size = lg_count L, ft_kind = kind, ft_root = root\<rparr>)"
proof -
  have inv: "log_inv mem_wf mem_abs L items" by (rule mem.reachable_inv [OF assms(1) mem_new_ok])
  have "is_active_at v (lg_count L - 1)" using assms(3,6) by simp
  then have "a \<in> set (active_algs_at L (lg_count L))" using assms(3,4) active_algs_iff [OF inv] by blast
  then have "log_root_for_at memory_ops L a (lg_count L) = Inr (history_root (lg_arity L) items v (lg_count L))"
    using mem.root_at(1) [OF inv le_refl] assms(4) by (simp add: view_of_def)
  moreover have "log_seal memory_ops L = Inr (sealed_of L items)"
    unfolding log_seal_def by (rule mem.seal_at [OF inv assms(3)])
  moreover have "find_hasher hs b = Some (av_hasher w)" if "map_of (lg_algs L) b = Some w" "is_active w" for b w
    using assms(7) that by blast
  note fill_sealed_log [OF inv assms(2-6) this, of kind]
  ultimately show ?thesis by blast
qed

theorem fill_restores_log_witness:
  "\<exists>L b root. log_shape L = (2, 1, Flat, [(0, tagged_hasher, [(0, u64_max)])]) \<and> log_seal memory_ops L = Inr b
    \<and> log_root_for_at memory_ops L 0 1 = Inr root
    \<and> fill b 0 tagged_hasher [[1]] FillEmt [(0, tagged_hasher)]
      = Some (Inr \<lparr>ft_alg = 0, ft_tree_size = 1, ft_kind = FillEmt, ft_root = root\<rparr>)"
proof -
  obtain L where L: "run_state 2 (2, 1, Flat, [(0, tagged_hasher, [(0, u64_max)])]) [LeafItem [1]] L"
    using toy_leaf_run by blast
  then have re: "reachable_log memory_ops mem_new 2 L [LeafItem [1]]"
    and sh: "log_shape L = (2, 1, Flat, [(0, tagged_hasher, [(0, u64_max)])])"
    by (simp_all add: run_state_def)
  obtain v where v: "lg_algs L = [(0, v)]" "av_hasher v = tagged_hasher" "av_epochs v = [(0, u64_max)]"
    "lg_count L = 1" by (rule toy_leaf_algs [OF sh])
  have *: "lg_kind L = Flat" "0 < lg_count L" "map_of (lg_algs L) 0 = Some v" "is_active v"
    "\<forall>i < lg_count L. is_active_at v i"
    "\<forall>b w. map_of (lg_algs L) b = Some w \<and> is_active w \<longrightarrow> find_hasher [(0, tagged_hasher)] b = Some (av_hasher w)"
    using v sh by (auto simp: log_shape_def is_active_def epochs_open_def is_active_at_def u64_max_def find_hasher_def)
  have "leaf_payloads [LeafItem [1]] = [[1]]" by (simp add: leaf_payloads_def map_filter_simps)
  with fill_restores_log [OF re *, of FillEmt] sh v show ?thesis by auto
qed

text \<open>
  What an accepted fill proves: the supplied leaves number the sealed size, the root of the
  filled tree is their reference root, and it is the member root the seal committed for that
  algorithm, or else two different child lists of the binding fold have one root.
\<close>

theorem fill_binds:
  assumes "sealed_new n k fs tml = Inr b" "n \<le> 2 ^ 63" "fill b alg h data kind hs = Some (Inr ft)"
  shows "length data = n \<and> ft_root ft = leaves_root kind h k data
    \<and> (\<exists>h'. find_hasher hs alg = Some h'
        \<and> (seal_member_root (bs_seal b) alg h' (fill_bag kind) = Some (ft_root ft)
          \<or> fold_clash h
              (root_children h (replace_member alg (ft_root ft) (seal_member_roots (bs_seal b) hs (fill_bag kind))) tml n k)
              (root_children h (seal_member_roots (bs_seal b) hs (fill_bag kind)) tml n k)))"
proof -
  have s: "sl_arity (bs_seal b) = k" "sl_frontiers (bs_seal b) = fs"
    using assms(1) by (auto simp: sealed_new_Inr_iff seal_new_Inr_iff)
  let ?ms = "seal_member_roots (bs_seal b) hs (fill_bag kind)" and ?root = "leaves_root kind h k data"
  have acc: "alg \<in> fst ` set fs" "length data = n" "find (\<lambda>(a, _). find_hasher hs a = None) fs = None"
    "ft_root ft = ?root"
    and eq: "nary_mr h (root_children h (replace_member alg ?root ?ms) tml n k) = nary_mr h (root_children h ?ms tml n k)"
    using assms(3) unfolding fill_exact [OF assms(1,2)] by (auto simp: Let_def split: if_splits option.splits)
  obtain ps where ps: "map_of fs alg = Some ps" using acc(1) by (metis map_of_eq_None_iff not_None_eq)
  obtain h' where h': "find_hasher hs alg = Some h'"
    using acc(3) map_of_SomeD [OF ps] by (auto simp: find_None_iff)
  show ?thesis
  proof (cases "replace_member alg ?root ?ms = ?ms")
    case True
    have "(alg, fill_bag kind h' ps k) \<in> set ?ms"
      using map_of_SomeD [OF ps] h' s by (force simp: seal_member_roots_def map_filter_def)
    then have "(alg, fill_bag kind h' ps k) \<in> set (replace_member alg ?root ?ms)" using True by simp
    then have "fill_bag kind h' ps k = ?root" by (auto simp: replace_member_def split: if_splits)
    then have "seal_member_root (bs_seal b) alg h' (fill_bag kind) = Some ?root"
      using ps s by (simp add: seal_member_root_def seal_peaks_map_of)
    then show ?thesis using acc h' by simp
  next
    case False
    have "map fst (replace_member alg ?root ?ms) = map fst ?ms" by (auto simp: replace_member_def)
    then have "map snd (replace_member alg ?root ?ms) \<noteq> map snd ?ms"
      using False by (metis zip_map_fst_snd)
    then have "fold_clash h (root_children h (replace_member alg ?root ?ms) tml n k) (root_children h ?ms tml n k)"
      using eq by (simp add: fold_clash_def root_children_def)
    then show ?thesis using acc h' by simp
  qed
qed

theorem fill_binds_witness:
  "\<exists>b ft. fill b 0 tagged_hasher [[1]] FillEml [(0, tagged_hasher)] = Some (Inr ft)
    \<and> ft_root ft = leaves_root FillEml tagged_hasher 2 [[1]]
    \<and> (\<exists>h'. find_hasher [(0, tagged_hasher)] 0 = Some h')"
proof -
  obtain L where L: "run_state 2 (2, 1, Flat, [(0, tagged_hasher, [(0, u64_max)])]) [LeafItem [1]] L"
    using toy_leaf_run by blast
  then have re: "reachable_log memory_ops mem_new 2 L [LeafItem [1]]"
    and sh: "log_shape L = (2, 1, Flat, [(0, tagged_hasher, [(0, u64_max)])])"
    by (simp_all add: run_state_def)
  have inv: "log_inv mem_wf mem_abs L [LeafItem [1]]" by (rule mem.reachable_inv [OF re mem_new_ok])
  obtain v where v: "lg_algs L = [(0, v)]" "av_hasher v = tagged_hasher" "av_epochs v = [(0, u64_max)]"
    "lg_count L = 1" "lg_arity L = 2" by (rule toy_leaf_algs [OF sh])
  have *: "lg_kind L = Flat" "0 < lg_count L" "map_of (lg_algs L) 0 = Some v" "is_active v"
    "\<forall>i < lg_count L. is_active_at v i"
    using v sh by (auto simp: log_shape_def is_active_def epochs_open_def is_active_at_def u64_max_def)
  have hs: "find_hasher [(0, tagged_hasher)] b = Some (av_hasher w)" if "map_of (lg_algs L) b = Some w" for b w
    using that v by (auto simp: find_hasher_def split: if_splits)
  have pay: "leaf_payloads [LeafItem [1]] = [[1]]" by (simp add: leaf_payloads_def map_filter_simps)
  note f = fill_sealed_log [OF inv * hs, of FillEml, unfolded pay v(2)]
  note new = sealed_of_new [OF inv *(2)]
  have "lg_count L \<le> 2 ^ 63" by (simp add: v)
  from fill_binds [OF new this f] f show ?thesis unfolding v(5) by blast
qed

end
