(* ===== verification/Poly_Epoch_Tree.thy ===== *)
theory Poly_Epoch_Tree
  imports Poly_Log_Seal
begin

text \<open>
  The mutable tree with its binding root (\<^verbatim>\<open>polydigest/src/mutable.rs\<close>) and the two instances at
  arity 2: the mutable tree of \<^verbatim>\<open>emt/src/lib.rs\<close> and the log of \<^verbatim>\<open>eml/src/lib.rs\<close>.  SHA-256, of
  the \<^verbatim>\<open>sha2\<close> package, is the parameter \<open>sha256\<close>.
\<close>

section \<open>The epoch tree\<close>

record epoch_tree =
  et_inner :: cmt

definition open_epoch :: "u64 \<times> u64" where
  "open_epoch = (0, u64_max)"

definition et_new :: "u64 \<Rightarrow> cmt_error + epoch_tree" where
  "et_new arity = bindE (cmt_new arity) (\<lambda>t. Inr \<lparr>et_inner = t\<rparr>)"

definition et_register_algorithm :: "epoch_tree \<Rightarrow> alg_id \<Rightarrow> hasher \<Rightarrow> cmt_error + epoch_tree" where
  "et_register_algorithm e alg h = bindE (register_algorithm (et_inner e) alg h) (\<lambda>t. Inr (e\<lparr>et_inner := t\<rparr>))"

definition et_add_algorithm_at ::
    "epoch_tree \<Rightarrow> alg_id \<Rightarrow> u64 \<Rightarrow> hasher \<Rightarrow> cmt_error + (epoch_tree \<times> nat)" where
  "et_add_algorithm_at e alg index h =
     bindE (add_algorithm_at (et_inner e) alg index h) (\<lambda>(t, recomputed). Inr (e\<lparr>et_inner := t\<rparr>, recomputed))"

definition et_set :: "epoch_tree \<Rightarrow> u64 \<Rightarrow> bytes \<Rightarrow> bytes \<Rightarrow> cmt_error + epoch_tree" where
  "et_set e index payload metadata =
     bindE (cmt_set (et_inner e) index payload metadata) (\<lambda>t. Inr (e\<lparr>et_inner := t\<rparr>))"

definition et_get :: "epoch_tree \<Rightarrow> u64 \<Rightarrow> bytes option" where
  "et_get e index = cmt_get (et_inner e) index"

definition et_metadata :: "epoch_tree \<Rightarrow> u64 \<Rightarrow> bytes option" where
  "et_metadata e index = cmt_metadata (et_inner e) index"

definition et_len :: "epoch_tree \<Rightarrow> u64" where
  "et_len e = cmt_len (et_inner e)"

definition et_is_empty :: "epoch_tree \<Rightarrow> bool" where
  "et_is_empty e \<longleftrightarrow> cm_cells (et_inner e) = []"

definition et_arity :: "epoch_tree \<Rightarrow> u64" where
  "et_arity e = cm_arity (et_inner e)"

definition et_root :: "epoch_tree \<Rightarrow> alg_id \<Rightarrow> digest option" where
  "et_root e alg = cmt_root (et_inner e) alg"

text \<open>\<open>Some None\<close> is the \<^verbatim>\<open>None\<close> of the source; \<open>None\<close> a fold that does not return.\<close>

definition et_combined_root :: "epoch_tree \<Rightarrow> alg_id \<Rightarrow> digest option option" where
  "et_combined_root e alg =
     (case map_of (cm_hashers (et_inner e)) alg of None \<Rightarrow> Some None | Some h \<Rightarrow>
      case cmt_root (et_inner e) alg of None \<Rightarrow> Some None | Some _ \<Rightarrow>
        let member_roots = cmt_member_roots (et_inner e);
            alg_epochs = map (\<lambda>(a, _). (a, [open_epoch])) member_roots
        in map_option Some (combined_root h member_roots alg_epochs (et_len e) (et_arity e)))"

definition et_inclusion_proof :: "epoch_tree \<Rightarrow> alg_id \<Rightarrow> u64 \<Rightarrow> (digest \<times> proof_step list) option" where
  "et_inclusion_proof e alg index = cmt_inclusion_proof (et_inner e) alg index"

definition et_leaf_proof :: "epoch_tree \<Rightarrow> alg_id \<Rightarrow> u64 \<Rightarrow> leaf_proof option" where
  "et_leaf_proof e alg index = cmt_leaf_proof (et_inner e) alg index"

definition et_non_membership_proof :: "epoch_tree \<Rightarrow> alg_id \<Rightarrow> u64 \<Rightarrow> (digest \<times> proof_step list) option" where
  "et_non_membership_proof e alg index = non_membership_proof (et_inner e) alg index"

definition et_seal :: "epoch_tree \<Rightarrow> cmt_error + sealed" where
  "et_seal e =
     bindE (cmt_seal (et_inner e)) (\<lambda>s.
       let alg_epochs = map (\<lambda>(a, _). (a, [open_epoch])) (sl_frontiers s)
       in map_err (\<lambda>_. cmt_error.MalformedSeal) (sealed_new (sl_tree_size s) (sl_arity s) (sl_frontiers s) alg_epochs))"

section \<open>The two instances at arity 2\<close>

definition emt_arity :: u64 where
  "emt_arity = 2"

definition emt_alg :: alg_id where
  "emt_alg = 0"

record emt =
  em_inner :: epoch_tree

text \<open>The unprefixed hasher; the two \<^verbatim>\<open>expect\<close>s of the constructor are \<open>None\<close>.\<close>

definition emt_hasher :: "(bytes \<Rightarrow> digest) \<Rightarrow> hasher" where
  "emt_hasher sha256 = \<lparr>hs_leaf = sha256, hs_node = (\<lambda>children. sha256 (concat children)),
     hs_empty = sha256 [], hs_hash = sha256\<rparr>"

definition emt_new :: "(bytes \<Rightarrow> digest) \<Rightarrow> emt option" where
  "emt_new sha256 =
     (case bindE (et_new emt_arity) (\<lambda>e. et_register_algorithm e emt_alg (emt_hasher sha256)) of
        Inl _ \<Rightarrow> None | Inr e \<Rightarrow> Some \<lparr>em_inner = e\<rparr>)"

definition emt_set :: "emt \<Rightarrow> u64 \<Rightarrow> bytes \<Rightarrow> cmt_error + emt" where
  "emt_set t index payload = bindE (et_set (em_inner t) index payload []) (\<lambda>e. Inr (t\<lparr>em_inner := e\<rparr>))"

definition emt_get :: "emt \<Rightarrow> u64 \<Rightarrow> bytes option" where
  "emt_get t index = et_get (em_inner t) index"

definition emt_len :: "emt \<Rightarrow> u64" where
  "emt_len t = et_len (em_inner t)"

definition emt_is_empty :: "emt \<Rightarrow> bool" where
  "emt_is_empty t = et_is_empty (em_inner t)"

definition emt_root :: "emt \<Rightarrow> digest option" where
  "emt_root t = et_root (em_inner t) emt_alg"

definition emt_inclusion_proof :: "emt \<Rightarrow> u64 \<Rightarrow> (digest \<times> proof_step list) option" where
  "emt_inclusion_proof t index = et_inclusion_proof (em_inner t) emt_alg index"

definition emt_seal :: "emt \<Rightarrow> cmt_error + sealed" where
  "emt_seal t = et_seal (em_inner t)"

definition log_arity :: u64 where
  "log_arity = 2"

definition eml_new :: "('s, 'e) storage \<Rightarrow> 's \<Rightarrow> hasher \<Rightarrow> 'e log_error + 's merkle_log" where
  "eml_new S s h = log_new S s h log_arity"

definition eml_from_storage ::
    "('s, 'e) storage \<Rightarrow> 's \<Rightarrow> (alg_id \<times> hasher) list \<Rightarrow> 'e log_error + 's merkle_log" where
  "eml_from_storage S s hashers = from_storage_with_config S s hashers log_arity"

section \<open>The open timeline\<close>

lemma run_cells_ne: "2 \<le> k \<Longrightarrow> run_cells k r \<noteq> []"
  by (cases r) (simp add: run_cells_def)

lemma open_coverage:
  assumes "2 \<le> k" "n \<le> 2 ^ 63"
  shows "coverage h (map (\<lambda>(a, _). (a, [open_epoch])) xs) n k = []"
proof -
  obtain all where all: "all_null_runs (map (\<lambda>(a, _). (a, [open_epoch])) xs) n k = Some all"
    using all_null_runs_spec [OF assms] by blast
  have "(a, runs) \<notin> set all" for a runs
  proof
    assume "(a, runs) \<in> set all"
    then have ne: "runs \<noteq> []" and r: "null_runs_for_alg [open_epoch] n k = Some runs"
      using all_null_runs_set [OF assms all] by auto
    obtain runs' where r': "null_runs_for_alg [open_epoch] n k = Some runs'"
      "concat (map (run_cells k) runs') = filter (\<lambda>i. \<not> active_in [open_epoch] i) [0..<n]"
      using null_runs_spec [OF assms, of "[open_epoch]"] by blast
    have "filter (\<lambda>i. \<not> active_in [open_epoch] i) [0..<n] = []"
      using assms(2) by (auto simp: filter_empty_conv open_epoch_def u64_max_def)
    then show False using r r' ne run_cells_ne [OF assms(1)] by (cases runs) auto
  qed
  then have "all = []" by (metis list.set_intros(1) neq_Nil_conv surj_pair)
  then show ?thesis using all by (simp add: coverage_def null_runs_are_trivial_def)
qed

lemma open_timeline_valid:
  assumes "bt_keys xs"
  shows "validate_committed_epochs (map (\<lambda>(a, _). (a, [open_epoch])) xs) n"
proof -
  have "bt_keys (map (\<lambda>(a, _). (a, [open_epoch])) xs)"
    by (rule bt_keys_map [OF assms]) (simp add: case_prod_beta o_def)
  moreover have "epochs_valid n [open_epoch]" by (simp add: epochs_valid_def open_epoch_def)
  ultimately show ?thesis by (auto simp: validate_committed_iff)
qed

section \<open>The live binding root and the sealed one\<close>

text \<open>A tree with cells: every registered algorithm has a root, and the lists follow the registry.\<close>

lemma member_roots_of:
  assumes r: "represents t A" and n: "cm_cells t \<noteq> []"
  shows "map fst (cmt_member_roots t) = map fst (cm_states t)" "bt_keys (cmt_member_roots t)"
    "map_of (cmt_member_roots t) a = cmt_root t a"
    "a \<in> fst ` set (cm_states t) \<longleftrightarrow> a \<in> fst ` set (cm_hashers t)"
    "list_all (\<lambda>(a, st). as_root st \<noteq> None) (cm_states t)"
proof -
  have keys: "bt_keys (cm_states t)" using r by (simp add: represents_def)
  have some: "as_root st \<noteq> None" if st: "(b, st) \<in> set (cm_states t)" for b st
  proof -
    have m: "map_of (cm_states t) b = Some st" using st bt_keys_distinct [OF keys] by simp
    obtain h ds where a: "A b = Some (h, ds)" using represents_None(2) [OF r, of b] m by (cases "A b") auto
    have "length ds = length (cm_cells t)" using represents_dest [OF r a] by metis
    then have "spec_root h (cm_arity t) ds \<noteq> None" using n by (auto simp: spec_root_def)
    then show ?thesis using root_represents [OF r, of b] a m by (simp add: cmt_root_def)
  qed
  then show all: "list_all (\<lambda>(a, st). as_root st \<noteq> None) (cm_states t)" by (auto simp: list_all_iff)
  have fst: "map fst (List.map_filter (\<lambda>(id, st). map_option (\<lambda>r. (id, r)) (as_root st)) xs) = map fst xs"
    "map_of (List.map_filter (\<lambda>(id, st). map_option (\<lambda>r. (id, r)) (as_root st)) xs) a
      = (case map_of xs a of None \<Rightarrow> None | Some st \<Rightarrow> as_root st)"
    if "list_all (\<lambda>(a, st). as_root st \<noteq> None) xs" for xs
    using that by (induction xs) (auto simp: map_filter_simps)
  show k: "map fst (cmt_member_roots t) = map fst (cm_states t)" unfolding cmt_member_roots_def by (rule fst(1) [OF all])
  show "bt_keys (cmt_member_roots t)" by (rule bt_keys_map [OF keys k])
  show "map_of (cmt_member_roots t) a = cmt_root t a"
    unfolding cmt_member_roots_def cmt_root_def by (rule fst(2) [OF all])
  show "a \<in> fst ` set (cm_states t) \<longleftrightarrow> a \<in> fst ` set (cm_hashers t)"
    using represents_None [OF r, of a] by (simp add: map_of_eq_None_iff)
qed

lemma cmt_seal_keys:
  assumes "cmt_seal t = Inr s" "list_all (\<lambda>(a, st). as_root st \<noteq> None) (cm_states t)"
  shows "map fst (sl_frontiers s) = map fst (cm_states t)"
proof -
  have f: "filter (\<lambda>(id, st). as_root st \<noteq> None) (cm_states t) = cm_states t"
    using assms(2) by (simp add: filter_True list_all_iff)
  obtain fs where fs: "mapE (\<lambda>(id, st). case map_of (cm_hashers t) id of None \<Rightarrow> Inl CmtPanic
      | Some h \<Rightarrow> Inr (id, peak_digests (cm_cells t) h (as_cache st) (cm_arity t)
          (frontier_for_size (length (cm_cells t)) (cm_arity t)))) (cm_states t) = Inr fs"
    and "sl_frontiers s = fs"
    using assms(1) f by (auto simp: cmt_seal_def Let_def bindE_Inr_iff seal_new_Inr_iff split: if_splits)
  moreover have "list_all2 (\<lambda>x y. fst x = fst y) (cm_states t) fs"
    using fs unfolding mapE_Inr_iff by (rule list_all2_mono) (auto split: option.splits)
  ultimately show ?thesis by (simp add: list_all2_conv_all_nth list_eq_iff_nth_eq)
qed

lemma timeline_keys: "map (\<lambda>(a, _). (a, [open_epoch])) xs = map (\<lambda>a. (a, [open_epoch])) (map fst xs)"
  by (simp add: case_prod_beta o_def)

lemma map_of_seal_members:
  assumes "fst ` set (sl_frontiers s) \<subseteq> fst ` set hs"
  shows "map_of (seal_member_roots s hs bag) a = (case map_of (sl_frontiers s) a of None \<Rightarrow> None
    | Some ps \<Rightarrow> map_option (\<lambda>h. bag h ps (sl_arity s)) (find_hasher hs a))"
proof -
  have "map_of (List.map_filter (\<lambda>(id, peaks). case find_hasher hs id of None \<Rightarrow> None
        | Some h \<Rightarrow> Some (id, bag h peaks k)) fs) a = (case map_of fs a of None \<Rightarrow> None
        | Some ps \<Rightarrow> map_option (\<lambda>h. bag h ps k) (find_hasher hs a))"
    if "fst ` set fs \<subseteq> fst ` set hs" for fs k
    using that
  proof (induction fs)
    case (Cons f fs)
    obtain i ps where f: "f = (i, ps)" by (cases f)
    obtain h where "find_hasher hs i = Some h" using Cons.prems find_hasher_None [of hs i] by (cases "find_hasher hs i") (auto simp: f)
    then show ?case using Cons by (simp add: f map_filter_simps)
  qed (simp add: map_filter_simps)
  then show ?thesis using assms by (simp add: seal_member_roots_def)
qed

lemma et_seal_of:
  assumes r: "represents (et_inner e) A" and n: "cm_cells (et_inner e) \<noteq> []"
    and hs: "\<And>a h. map_of (cm_hashers (et_inner e)) a = Some h \<Longrightarrow> find_hasher hs a = Some h"
  shows "\<exists>b. et_seal e = Inr b \<and> sl_tree_size (bs_seal b) = et_len e \<and> sl_arity (bs_seal b) = et_arity e
    \<and> bs_alg_epochs b = map (\<lambda>(a, _). (a, [open_epoch])) (cmt_member_roots (et_inner e))
    \<and> map fst (sl_frontiers (bs_seal b)) = map fst (cm_states (et_inner e))
    \<and> fst ` set (sl_frontiers (bs_seal b)) \<subseteq> fst ` set hs
    \<and> sealed_member_roots b hs rebalanced_bag = cmt_member_roots (et_inner e)"
proof -
  let ?t = "et_inner e" and ?k = "cm_arity (et_inner e)"
  note m = member_roots_of [OF r n]
  obtain s where s: "cmt_seal ?t = Inr s" "sl_tree_size s = cmt_len ?t" "sl_arity s = ?k"
    and peaks: "\<And>alg h ds. A alg = Some (h, ds) \<Longrightarrow> map_of (sl_frontiers s) alg
      = Some (fdigs h ?k (\<lambda>i. ds ! i) (frontier_for_size (cmt_len ?t) ?k))"
    using cmt_seal_spec [OF r n] by blast
  have keys: "map fst (sl_frontiers s) = map fst (cm_states ?t)" by (rule cmt_seal_keys [OF s(1) m(5)])
  have bt: "bt_keys (sl_frontiers s)" by (rule bt_keys_map [OF _ keys]) (use r in \<open>simp add: represents_def\<close>)
  have tml: "map (\<lambda>(a, _). (a, [open_epoch])) (sl_frontiers s)
      = map (\<lambda>(a, _). (a, [open_epoch])) (cmt_member_roots ?t)"
    unfolding timeline_keys [of "sl_frontiers s"] timeline_keys [of "cmt_member_roots ?t"] using keys m(1) by simp
  let ?b = "\<lparr>bs_seal = s, bs_alg_epochs = map (\<lambda>(a, _). (a, [open_epoch])) (sl_frontiers s)\<rparr>"
  have "seal_new (sl_tree_size s) (sl_arity s) (sl_frontiers s) = Inr s"
    using s(1) by (auto simp: cmt_seal_def Let_def bindE_Inr_iff seal_new_Inr_iff split: if_splits)
  then have "sealed_new (sl_tree_size s) (sl_arity s) (sl_frontiers s) (bs_alg_epochs ?b) = Inr ?b"
    unfolding sealed_new_Inr_iff using open_timeline_valid [OF bt] by simp
  then have seal: "et_seal e = Inr ?b" using s(1) by (simp add: et_seal_def Let_def)
  have sub: "fst ` set (sl_frontiers s) \<subseteq> fst ` set hs"
  proof
    fix a assume "a \<in> fst ` set (sl_frontiers s)"
    then have "a \<in> fst ` set (cm_hashers ?t)" using m(4) [of a] keys by (metis list.set_map)
    then obtain h where "map_of (cm_hashers ?t) a = Some h" by (metis map_of_eq_None_iff not_None_eq)
    then have "map_of hs a = Some h" using hs by (simp add: find_hasher_map_of)
    then show "a \<in> fst ` set hs" by (force dest: map_of_SomeD)
  qed
  have roots: "seal_member_roots s hs rebalanced_bag = cmt_member_roots ?t"
  proof (rule bt_keys_unique [OF _ m(2)])
    show "bt_keys (seal_member_roots s hs rebalanced_bag)"
      by (rule bt_keys_map [OF bt member_roots_algs [OF sub]])
    show "map_of (seal_member_roots s hs rebalanced_bag) = map_of (cmt_member_roots ?t)"
    proof
      fix a
      show "map_of (seal_member_roots s hs rebalanced_bag) a = map_of (cmt_member_roots ?t) a"
      proof (cases "A a")
        case None
        then have "a \<notin> fst ` set (cm_states ?t)" using represents_None(2) [OF r, of a] by (simp add: map_of_eq_None_iff)
        then have "map_of (sl_frontiers s) a = None" using keys by (metis list.set_map map_of_eq_None_iff)
        then show ?thesis using root_represents [OF r, of a] None by (simp add: map_of_seal_members [OF sub] m(3))
      next
        case (Some p)
        then obtain h ds where a: "A a = Some (h, ds)" by (cases p) simp
        have "map_of (cm_hashers ?t) a = Some h" "length ds = length (cm_cells ?t)"
          using represents_dest [OF r a] by metis+
        then show ?thesis
          using root_represents [OF r, of a] a peaks [OF a] hs n s(3)
          by (auto simp: map_of_seal_members [OF sub] m(3) spec_root_def cmt_len_def)
      qed
    qed
  qed
  show ?thesis
    using seal s(2,3) keys sub roots tml
    by (intro exI [of _ ?b]) (simp add: et_len_def et_arity_def sealed_member_roots_def)
qed

section \<open>A tree built by sets\<close>

fun emt_run :: "emt \<Rightarrow> (u64 \<times> bytes) list \<Rightarrow> cmt_error + emt" where
  "emt_run t [] = Inr t"
| "emt_run t ((index, payload) # ops) = bindE (emt_set t index payload) (\<lambda>t'. emt_run t' ops)"

text \<open>The specification of a run on the list of payloads: every index is at most the length.\<close>

definition put_payload :: "bytes list \<Rightarrow> u64 \<Rightarrow> bytes \<Rightarrow> bytes list" where
  "put_payload ps index payload = (if index = length ps then ps @ [payload] else ps[index := payload])"

fun run_payloads :: "bytes list \<Rightarrow> (u64 \<times> bytes) list \<Rightarrow> bytes list" where
  "run_payloads ps [] = ps"
| "run_payloads ps ((index, payload) # ops) = run_payloads (put_payload ps index payload) ops"

fun dense :: "nat \<Rightarrow> (u64 \<times> bytes) list \<Rightarrow> bool" where
  "dense n [] = True"
| "dense n ((index, payload) # ops) = (index \<le> n \<and> dense (if index = n then n + 1 else n) ops)"

definition emt_payloads :: "emt \<Rightarrow> bytes list" where
  "emt_payloads t = map ce_payload (cm_cells (et_inner (em_inner t)))"

lemma length_emt_payloads: "length (emt_payloads t) = emt_len t"
  by (simp add: emt_payloads_def emt_len_def et_len_def cmt_len_def)

lemma length_put_payload: "length (put_payload ps i p) = (if i = length ps then length ps + 1 else length ps)"
  by (simp add: put_payload_def)

definition emt_inv :: "hasher \<Rightarrow> emt \<Rightarrow> bool" where
  "emt_inv h t \<longleftrightarrow> cm_arity (et_inner (em_inner t)) = emt_arity
     \<and> represents (et_inner (em_inner t)) [emt_alg \<mapsto> (h, leaf_list (cm_cells (et_inner (em_inner t))) h)]"

lemma emt_new_inv: "\<exists>t. emt_new sha256 = Some t \<and> emt_inv (emt_hasher sha256) t \<and> emt_payloads t = []"
proof -
  let ?h = "emt_hasher sha256"
  obtain c where c: "cmt_new emt_arity = Inr c" "cm_arity c = emt_arity" "cm_cells c = []"
    by (simp add: cmt_new_def arity_ok_def emt_arity_def)
  from register_represents [OF cmt_new_represents [OF c(1)], of emt_alg ?h]
  obtain t' where t': "register_algorithm c emt_alg ?h = Inr t'" "cm_cells t' = []" "cm_arity t' = emt_arity"
    "represents t' (spec_register c emt_alg ?h (\<lambda>_. None))" using c(2,3) by auto
  have "spec_register c emt_alg ?h (\<lambda>_. None) = [emt_alg \<mapsto> (?h, leaf_list (cm_cells t') ?h)]"
    by (simp add: spec_register_def c(3) t'(2))
  then show ?thesis
    using c(1) t' by (simp add: emt_new_def et_new_def et_register_algorithm_def emt_inv_def emt_payloads_def)
qed

lemma emt_set_inv:
  assumes i: "emt_inv h t" and le: "index \<le> emt_len t" and n: "emt_len t + 1 < u64_limit"
  shows "\<exists>t'. emt_set t index payload = Inr t' \<and> emt_inv h t' \<and> emt_payloads t' = put_payload (emt_payloads t) index payload"
proof -
  let ?c = "et_inner (em_inner t)" and ?A = "[emt_alg \<mapsto> (h, leaf_list (cm_cells (et_inner (em_inner t))) h)]"
  let ?cell = "\<lparr>ce_payload = payload, ce_metadata = []\<rparr>"
  have r: "represents ?c ?A" and k: "cm_arity ?c = emt_arity" using i by (simp_all add: emt_inv_def)
  have len: "index \<le> cmt_len ?c" "cmt_len ?c + 1 < u64_limit" using le n by (simp_all add: emt_len_def et_len_def)
  from set_represents [OF r len, of payload "[]"] obtain c' where c': "cmt_set ?c index payload [] = Inr c'"
    and cells: "cm_cells c' = set_cells ?c index ?cell" and rep: "represents c' (spec_set ?c index payload ?A)"
    by auto
  have ar: "cm_arity c' = emt_arity" using c' k by (auto simp: cmt_set_def Let_def bindE_Inr_iff split: if_splits)
  have leaves: "leaf_list (cm_cells c') h = (if index = cmt_len ?c then leaf_list (cm_cells ?c) h @ [hs_leaf h payload]
      else (leaf_list (cm_cells ?c) h)[index := hs_leaf h payload])"
    unfolding cells by (simp add: set_cells_def leaf_list_def map_update)
  have "spec_set ?c index payload ?A = [emt_alg \<mapsto> (h, leaf_list (cm_cells c') h)]"
    unfolding spec_set_def leaves by (rule ext) simp
  then have "emt_inv h (t\<lparr>em_inner := (em_inner t)\<lparr>et_inner := c'\<rparr>\<rparr>)" using rep ar by (simp add: emt_inv_def)
  moreover have "map ce_payload (cm_cells c') = put_payload (emt_payloads t) index payload"
    unfolding cells by (simp add: set_cells_def put_payload_def emt_payloads_def cmt_len_def map_update)
  ultimately show ?thesis using c' by (simp add: emt_set_def et_set_def emt_payloads_def)
qed

lemma emt_run_inv:
  "emt_inv h t \<Longrightarrow> dense (emt_len t) ops \<Longrightarrow> emt_len t + length ops < u64_limit \<Longrightarrow>
     \<exists>t'. emt_run t ops = Inr t' \<and> emt_inv h t' \<and> emt_payloads t' = run_payloads (emt_payloads t) ops"
proof (induction ops arbitrary: t)
  case (Cons op ops)
  obtain index payload where op: "op = (index, payload)" by (cases op)
  have le: "index \<le> emt_len t" "emt_len t + 1 < u64_limit" using Cons.prems(2,3) by (simp_all add: op)
  obtain t1 where t1: "emt_set t index payload = Inr t1" "emt_inv h t1"
      "emt_payloads t1 = put_payload (emt_payloads t) index payload"
    using emt_set_inv [OF Cons.prems(1) le] by blast
  have len: "emt_len t1 = (if index = emt_len t then emt_len t + 1 else emt_len t)"
    using t1(3) by (metis length_emt_payloads length_put_payload)
  have "dense (emt_len t1) ops" "emt_len t1 + length ops < u64_limit"
    using Cons.prems(2,3) by (simp_all add: op len)
  then show ?case using Cons.IH [OF t1(2)] t1(1,3) by (simp add: op)
qed simp

lemma emt_cell_proof:
  assumes inv: "emt_inv h t" and "fixed_width h" "width_ok h" "i < emt_len t"
  shows "emt_get t i = Some (emt_payloads t ! i) \<and> (\<exists>path sk root.
      emt_inclusion_proof t i = Some (hs_leaf h (emt_payloads t ! i), path)
    \<and> rebalanced_skeleton (emt_len t) 2 i = Some sk \<and> emt_root t = Some root
    \<and> verify_inclusion h (hs_leaf h (emt_payloads t ! i)) sk path root)"
proof -
  let ?c = "et_inner (em_inner t)"
  have r: "represents ?c [emt_alg \<mapsto> (h, leaf_list (cm_cells ?c) h)]" and k: "cm_arity ?c = 2"
    using inv by (simp_all add: emt_inv_def emt_arity_def)
  have i: "i < cmt_len ?c" using assms(4) by (simp add: emt_len_def et_len_def)
  then have leaf: "leaf_list (cm_cells ?c) h ! i = hs_leaf h (ce_payload (cm_cells ?c ! i))"
    "leaf_list (cm_cells ?c) h ! i = leaf_digest_raw (cm_cells ?c) h i"
    by (simp_all add: leaf_list_def leaf_digest_raw_def cmt_len_def)
  have w: "length d = digest_len h" if "d \<in> set (leaf_list (cm_cells ?c) h)" for d
    using that assms(2) by (auto simp: leaf_list_def fixed_width_simps)
  from cmt_inclusion_spec [OF r _ i assms(2,3) w, of emt_alg] leaf
  obtain path sk root where "cmt_inclusion_proof ?c emt_alg i = Some (leaf_list (cm_cells ?c) h ! i, path)"
    "rebalanced_skeleton (cmt_len ?c) (cm_arity ?c) i = Some sk" "cmt_root ?c emt_alg = Some root"
    "verify_inclusion h (leaf_list (cm_cells ?c) h ! i) sk path root"
    by auto
  then show ?thesis
    using i k leaf(1)
    by (simp add: emt_get_def et_get_def cmt_get_def emt_inclusion_proof_def et_inclusion_proof_def emt_len_def
        et_len_def emt_root_def et_root_def cmt_len_def emt_payloads_def)
qed

section \<open>Properties\<close>

text \<open>
  C33. The live combined root of a mutable tree with cells is the binding root of its seal: sealing
  succeeds, the committed timeline adds nothing to the fold, the binding root of the sealed value
  is the combined root the live tree reports, and under a single algorithm it is the member root.
\<close>

theorem epoch_tree_binding:
  assumes "represents (et_inner e) A" "A alg = Some (h, ds)" "cm_cells (et_inner e) \<noteq> []" "et_len e \<le> 2 ^ 63"
    and "\<forall>a h. map_of (cm_hashers (et_inner e)) a = Some h \<longrightarrow> find_hasher hs a = Some h"
  shows "\<exists>b r. et_seal e = Inr b \<and> et_combined_root e alg = Some (Some r)
    \<and> binding_root b alg h hs rebalanced_bag = Inr (Some (Some r))
    \<and> (length (cm_hashers (et_inner e)) = 1 \<longrightarrow> et_root e alg = Some r)"
proof -
  let ?t = "et_inner e"
  note m = member_roots_of [OF assms(1,3)]
  have hs: "find_hasher hs a = Some h" if "map_of (cm_hashers ?t) a = Some h" for a h using assms(5) that by blast
  obtain b where b: "et_seal e = Inr b" "sl_tree_size (bs_seal b) = et_len e" "sl_arity (bs_seal b) = et_arity e"
    "bs_alg_epochs b = map (\<lambda>(a, _). (a, [open_epoch])) (cmt_member_roots ?t)"
    "map fst (sl_frontiers (bs_seal b)) = map fst (cm_states ?t)"
    "fst ` set (sl_frontiers (bs_seal b)) \<subseteq> fst ` set hs"
    "sealed_member_roots b hs rebalanced_bag = cmt_member_roots ?t"
    using et_seal_of [OF assms(1,3) hs] by blast
  have k: "2 \<le> et_arity e" using represents_arity [OF assms(1)] by (simp add: et_arity_def arity_ok_ge2)
  have h: "map_of (cm_hashers ?t) alg = Some h" "length ds = length (cm_cells ?t)"
    using represents_dest [OF assms(1,2)] by metis+
  then have "alg \<in> fst ` set (cm_states ?t)" using m(4) [of alg] by (force dest: map_of_SomeD)
  then have mem: "alg \<in> fst ` set (sl_frontiers (bs_seal b))" using b(5) by (metis list.set_map)
  have root: "cmt_root ?t alg \<noteq> None" using root_represents [OF assms(1), of alg] assms(2,3) h(2) by (auto simp: spec_root_def)
  define r where "r = nary_mr h (map snd (cmt_member_roots ?t))"
  have ch: "root_children h (cmt_member_roots ?t) (map (\<lambda>(a, _). (a, [open_epoch])) (cmt_member_roots ?t)) (et_len e) (et_arity e)
      = map snd (cmt_member_roots ?t)"
    by (simp add: root_children_def open_coverage [OF k assms(4)])
  have "et_combined_root e alg = Some (Some r)"
    using h(1) root by (auto simp: et_combined_root_def Let_def combined_root_children [OF k assms(4)] ch r_def)
  moreover have "binding_root b alg h hs rebalanced_bag = Inr (Some (Some r))"
    using bound_binding_root [of b hs alg h rebalanced_bag] b k assms(4) mem by (simp add: ch r_def)
  moreover have "et_root e alg = Some r" if one: "length (cm_hashers ?t) = 1"
  proof -
    have "dom (map_of (cm_states ?t)) = dom (map_of (cm_hashers ?t))"
      using represents_None [OF assms(1)] by (simp add: dom_def)
    then have "fst ` set (cm_states ?t) = fst ` set (cm_hashers ?t)" by (simp add: dom_map_of_conv_image_fst)
    moreover have "distinct (map fst (cm_states ?t))" "distinct (map fst (cm_hashers ?t))"
      using assms(1) by (simp_all add: represents_def bt_keys_distinct)
    ultimately have "length (cm_states ?t) = 1" using one
      by (metis distinct_card length_map list.set_map)
    then have "length (cmt_member_roots ?t) = 1" using m(1) by (metis length_map)
    then obtain a d where ms: "cmt_member_roots ?t = [(a, d)]" by (metis One_nat_def length_0_conv length_Suc_conv surj_pair)
    obtain d' where d': "cmt_root ?t alg = Some d'" using root by blast
    then have "(alg, d') \<in> set (cmt_member_roots ?t)" using m(3) [of alg] by (simp add: map_of_SomeD)
    then show ?thesis using d' by (simp add: ms r_def et_root_def)
  qed
  ultimately show ?thesis using b(1) by blast
qed

theorem epoch_tree_binding_witness:
  "\<exists>b r. et_seal \<lparr>et_inner = toy_cmt\<rparr> = Inr b \<and> et_combined_root \<lparr>et_inner = toy_cmt\<rparr> 1 = Some (Some r)
    \<and> binding_root b 1 toy_hasher [(1, toy_hasher)] rebalanced_bag = Inr (Some (Some r))
    \<and> et_root \<lparr>et_inner = toy_cmt\<rparr> 1 = Some r"
  using epoch_tree_binding [of "\<lparr>et_inner = toy_cmt\<rparr>" toy_commitments 1 toy_hasher
      "leaf_list toy_cells toy_hasher" "[(1, toy_hasher)]"] toy_represents
  by (auto simp: toy_commitments_def toy_cmt_def toy_cells_def et_len_def cmt_len_def find_hasher_def)

text \<open>
  The instance at arity 2: a new tree is created, every dense sequence of sets succeeds, the
  tree then holds the payloads of the list specification, and each of its cells has an inclusion
  proof of the SHA-256 of the payload last set there, accepted against the tree's root under the
  rebalanced skeleton of its length.
\<close>

theorem emt_proves_cells:
  assumes "\<forall>d. length (sha256 d) = 32" "dense 0 ops" "length ops < u64_limit"
  shows "\<exists>t0 t. emt_new sha256 = Some t0 \<and> emt_run t0 ops = Inr t \<and> emt_len t = length (run_payloads [] ops)
    \<and> (\<forall>i < emt_len t. emt_get t i = Some (run_payloads [] ops ! i)
         \<and> (\<exists>path sk root. emt_inclusion_proof t i = Some (sha256 (run_payloads [] ops ! i), path)
              \<and> rebalanced_skeleton (emt_len t) 2 i = Some sk \<and> emt_root t = Some root
              \<and> verify_inclusion (emt_hasher sha256) (sha256 (run_payloads [] ops ! i)) sk path root))"
proof -
  let ?h = "emt_hasher sha256" and ?ps = "run_payloads [] ops"
  have width: "fixed_width ?h" "width_ok ?h"
    using assms(1) by (simp_all add: fixed_width_def width_ok_def digest_len_def emt_hasher_def)
  obtain t0 where t0: "emt_new sha256 = Some t0" "emt_inv ?h t0" "emt_payloads t0 = []" using emt_new_inv by blast
  then have "emt_len t0 = 0" by (metis length_emt_payloads list.size(3))
  then obtain t where t: "emt_run t0 ops = Inr t" "emt_inv ?h t" "emt_payloads t = ?ps"
    using emt_run_inv [OF t0(2)] assms(2,3) t0(3) by auto
  have len: "emt_len t = length ?ps" by (metis length_emt_payloads t(3))
  have "emt_get t i = Some (?ps ! i) \<and> (\<exists>path sk root. emt_inclusion_proof t i = Some (sha256 (?ps ! i), path)
      \<and> rebalanced_skeleton (emt_len t) 2 i = Some sk \<and> emt_root t = Some root
      \<and> verify_inclusion ?h (sha256 (?ps ! i)) sk path root)" if "i < emt_len t" for i
    using emt_cell_proof [OF t(2) width that] by (simp add: t(3) emt_hasher_def)
  then show ?thesis using t0(1) t(1) len by blast
qed

definition toy_sha :: "bytes \<Rightarrow> digest" where
  "toy_sha d = replicate 32 (sum_list d)"

theorem emt_proves_cells_witness:
  "\<exists>t0 t path sk root. emt_new toy_sha = Some t0 \<and> emt_run t0 [(0, [4]), (1, [5]), (0, [6])] = Inr t
    \<and> emt_get t 0 = Some [6] \<and> emt_inclusion_proof t 0 = Some (replicate 32 6, path)
    \<and> rebalanced_skeleton 2 2 0 = Some sk \<and> emt_root t = Some root
    \<and> verify_inclusion (emt_hasher toy_sha) (replicate 32 6) sk path root"
proof -
  let ?ops = "[(0, [4]), (1, [5]), (0, [6])] :: (u64 \<times> bytes) list"
  have ps: "run_payloads [] ?ops = [[6], [5]]" by (simp add: put_payload_def)
  have h: "\<forall>d. length (toy_sha d) = 32" "dense 0 ?ops" "length ?ops < u64_limit"
    by (simp_all add: toy_sha_def u64_limit_def)
  obtain t0 t where t: "emt_new toy_sha = Some t0" "emt_run t0 ?ops = Inr t" "emt_len t = length [[6 :: u8], [5]]"
    and proofs: "\<forall>i < emt_len t. emt_get t i = Some ([[6], [5]] ! i)
         \<and> (\<exists>path sk root. emt_inclusion_proof t i = Some (toy_sha ([[6], [5]] ! i), path)
              \<and> rebalanced_skeleton (emt_len t) 2 i = Some sk \<and> emt_root t = Some root
              \<and> verify_inclusion (emt_hasher toy_sha) (toy_sha ([[6], [5]] ! i)) sk path root)"
    using emt_proves_cells [OF h, unfolded ps] by (elim exE conjE) (rule that)
  have "toy_sha [6] = replicate 32 6" by (simp add: toy_sha_def)
  moreover have "0 < emt_len t" "emt_len t = 2" using t(3) by simp_all
  ultimately show ?thesis using spec [OF proofs, of 0] t(1,2) by (simp only: nth_Cons_0) blast
qed

end
