(* ===== verification/Store_Bytes.thy ===== *)
theory Store_Bytes
  imports Poly_Log_Seal "HOL-Library.List_Lexorder"
begin

text \<open>
  The byte formats the two persistent stores share: big-endian numbers and their order, and the
  epoch list as pairs of big-endian numbers (\<^verbatim>\<open>encode_epochs\<close> of \<^verbatim>\<open>storage-fjall/src/lib.rs\<close> and of
  \<^verbatim>\<open>storage-git/src/layout.rs\<close>).
\<close>

section \<open>Big-endian numbers\<close>

lemma be_value_Cons: "be_value (b # bs) = unat b * 256 ^ length bs + be_value bs"
proof -
  have "foldl (\<lambda>n b. n * 256 + unat (b :: u8)) a bs = a * 256 ^ length bs + foldl (\<lambda>n b. n * 256 + unat b) 0 bs" for a
  proof (induction bs arbitrary: a)
    case (Cons c bs)
    from Cons [of "a * 256 + unat c"] Cons [of "unat c"] show ?case by (simp add: algebra_simps)
  qed simp
  from this [of "unat b"] show ?thesis by (simp add: be_value_def)
qed

lemma be_value_Nil [simp]: "be_value [] = 0"
  by (simp add: be_value_def)

lemma be_value_bound: "be_value bs < 256 ^ length bs"
proof (induction bs)
  case (Cons b bs)
  have "unat b < 2 ^ LENGTH(8)" by (rule unsigned_less)
  then have "unat b + 1 \<le> 256" by simp
  then have "(unat b + 1) * 256 ^ length bs \<le> 256 * 256 ^ length bs" by (rule mult_right_mono) simp
  then have "unat b * 256 ^ length bs + 256 ^ length bs \<le> 256 * 256 ^ length bs"
    by (simp only: add_mult_distrib mult_1)
  then show ?case using Cons unfolding be_value_Cons length_Cons power_Suc by linarith
qed simp

lemma be_value_less:
  "length xs = length ys \<Longrightarrow> xs < ys \<longleftrightarrow> be_value xs < be_value ys"
proof (induction xs ys rule: list_induct2)
  case (Cons x xs y ys)
  show ?case
  proof (cases "x = y")
    case True
    then show ?thesis using Cons by (simp add: be_value_Cons)
  next
    case False
    have lt: "unat a * 256 ^ length xs + be_value as < unat b * 256 ^ length xs + be_value bs"
      if "a < b" "length as = length xs" for a b :: u8 and as bs
    proof -
      have "(unat a + 1) * 256 ^ length xs \<le> unat b * 256 ^ length xs"
        using that(1) by (intro mult_right_mono) (simp_all add: word_less_nat_alt)
      then show ?thesis using be_value_bound [of as] that(2) by (simp add: algebra_simps)
    qed
    show ?thesis
    proof (cases x y rule: linorder_cases)
      case less
      then show ?thesis using lt [of x y xs ys] Cons.hyps by (simp add: be_value_Cons)
    next
      case greater
      then show ?thesis using lt [of y x ys xs] Cons.hyps by (auto simp: be_value_Cons)
    qed (use False in simp)
  qed
qed simp

lemma be_value_inj: "length xs = length ys \<Longrightarrow> be_value xs = be_value ys \<Longrightarrow> xs = ys"
  using be_value_less [of xs ys] be_value_less [of ys xs] by (metis less_irrefl linorder_neqE)

lemma be_bytes_be_value: "length bs = w \<Longrightarrow> be_bytes w (be_value bs) = bs"
  using be_value_bound [of bs] by (intro be_value_inj) (simp_all add: be_value_be_bytes)

lemma be_bytes_inj: "m < 256 ^ w \<Longrightarrow> n < 256 ^ w \<Longrightarrow> be_bytes w m = be_bytes w n \<longleftrightarrow> m = n"
  by (metis be_value_be_bytes)

lemma u64_bytes: "n < u64_limit \<longleftrightarrow> n < 256 ^ 8"
  by (simp add: u64_limit_def)

section \<open>Epoch lists\<close>

definition encode_epochs :: "epochs \<Rightarrow> bytes" where
  "encode_epochs es = concat (map (\<lambda>(start, end'). be_bytes 8 start @ be_bytes 8 end') es)"

text \<open>\<^verbatim>\<open>chunks_exact(16)\<close>, each chunk read as two numbers; a shorter rest is dropped.\<close>

fun decode_pairs :: "bytes \<Rightarrow> epochs" where
  "decode_pairs bs =
     (if length bs < 16 then []
      else (be_value (take 8 bs), be_value (take 8 (drop 8 bs))) # decode_pairs (drop 16 bs))"

declare decode_pairs.simps [simp del]

definition epochs_fit :: "epochs \<Rightarrow> bool" where
  "epochs_fit es \<longleftrightarrow> list_all (\<lambda>(s, e). s < u64_limit \<and> e < u64_limit) es"

lemma length_encode_epochs: "length (encode_epochs es) = 16 * length es"
  by (induction es) (auto simp: encode_epochs_def)

lemma decode_encode_epochs: "epochs_fit es \<Longrightarrow> decode_pairs (encode_epochs es) = es"
proof (induction es)
  case (Cons x es)
  obtain s e where x: "x = (s, e)" by (cases x)
  have "encode_epochs (x # es) = be_bytes 8 s @ be_bytes 8 e @ encode_epochs es" by (simp add: encode_epochs_def x)
  then show ?case
    using Cons by (subst decode_pairs.simps) (simp add: x epochs_fit_def be_value_be_bytes u64_bytes)
qed (simp add: encode_epochs_def decode_pairs.simps)

lemma encode_decode_epochs: "length bs mod 16 = 0 \<Longrightarrow> encode_epochs (decode_pairs bs) = bs"
proof (induction bs rule: decode_pairs.induct)
  case (1 bs)
  show ?case
  proof (cases "length bs < 16")
    case True
    then have "bs = []" using 1(2) by simp
    then show ?thesis by (simp add: encode_epochs_def decode_pairs.simps)
  next
    case False
    then have "length (drop 16 bs) mod 16 = 0" using 1(2) by (simp add: le_mod_geq)
    from 1(1) [OF False this] have "encode_epochs (decode_pairs (drop 16 bs)) = drop 16 bs" .
    moreover have "decode_pairs bs = (be_value (take 8 bs), be_value (take 8 (drop 8 bs))) # decode_pairs (drop 16 bs)"
      using False by (subst decode_pairs.simps) simp
    moreover have "take 8 bs @ take 8 (drop 8 bs) @ drop 16 bs = bs"
      by (metis append_take_drop_id drop_drop numeral_Bit0 add.commute)
    ultimately show ?thesis using False by (simp add: encode_epochs_def be_bytes_be_value)
  qed
qed

lemma epochs_valid_fit: "epochs_valid g es \<Longrightarrow> g < u64_max \<Longrightarrow> epochs_fit es"
proof -
  assume v: "epochs_valid g es" "g < u64_max"
  have "s < u64_limit \<and> e < u64_limit" if m: "(s, e) \<in> set es" for s e
  proof -
    have "s \<le> e" using epochs_sorted_ge [of 0 es s e] epochs_validD(2) [OF v(1)] m by simp
    moreover have "e \<le> u64_max"
      using epochs_sorted_le_last [OF epochs_validD(2) [OF v(1)] m] epochs_validD(4) [OF v(1)] v(2)
      by (cases "snd (last es) = u64_max") auto
    ultimately show ?thesis using u64_max_less_limit by linarith
  qed
  then show ?thesis by (auto simp: epochs_fit_def list_all_iff)
qed

end
