(* ===== verification/Store_Fjall.thy ===== *)
theory Store_Fjall
  imports Store_Bytes
begin

text \<open>
  The database backend \<^verbatim>\<open>storage-fjall/src/lib.rs\<close>.  The database itself (the \<^verbatim>\<open>fjall\<close> package) is a
  parameter: a record of the calls the backend makes, and a locale with what its documentation
  promises of them.  Under these promises the backend keeps the storage contract for every
  operation the log issues, so all that is proved of the log over a lawful store holds over it.
\<close>

section \<open>The database\<close>

text \<open>
  A keyspace is an ordered map from byte strings to byte strings, named by a string; \<open>'m\<close> is the
  error message of the database.
\<close>

record ('d, 'm) fjall =
  fj_keyspace :: "'d \<Rightarrow> string \<Rightarrow> 'm + 'd"
  fj_get :: "'d \<Rightarrow> string \<Rightarrow> bytes \<Rightarrow> 'm + bytes option"
  fj_iter :: "'d \<Rightarrow> string \<Rightarrow> ('m + bytes \<times> bytes) list"
  fj_commit :: "'d \<Rightarrow> (string \<times> bytes \<times> bytes) list \<Rightarrow> 'm + 'd"

type_synonym db_content = "string \<Rightarrow> bytes \<Rightarrow> bytes option"

definition db_put :: "string \<times> bytes \<times> bytes \<Rightarrow> db_content \<Rightarrow> db_content" where
  "db_put = (\<lambda>(ks, key, val) c. c(ks := (c ks)(key \<mapsto> val)))"

locale fjall_database =
  fixes DB :: "('d, 'm) fjall" and db_ok :: "'d \<Rightarrow> bool" and db_content :: "'d \<Rightarrow> db_content"
  assumes keyspace: "db_ok d \<Longrightarrow> \<exists>d'. fj_keyspace DB d name = Inr d' \<and> db_ok d' \<and> db_content d' = db_content d"
    and get: "db_ok d \<Longrightarrow> fj_get DB d ks key = Inr (db_content d ks key)"
    and iter: "db_ok d \<Longrightarrow> \<exists>kvs. fj_iter DB d ks = map Inr kvs \<and> bt_keys kvs \<and> map_of kvs = db_content d ks"
    and commit: "db_ok d \<Longrightarrow> \<exists>d'. fj_commit DB d batch = Inr d' \<and> db_ok d' \<and> db_content d' = fold db_put batch (db_content d)"

section \<open>The backend\<close>

datatype fjall_corruption = LeafKeyLength | MetaKeyLength | MetaValueLength | LogMetaLength

datatype 'm fjall_error =
    Database 'm
  | Io u64
  | MetadataCorruption fjall_corruption
  | InvalidPrefix string
  | FjallInvalid invalid_reason

record 'd fjall_storage =
  fs_db :: 'd
  fs_leaves :: string
  fs_nodes :: string
  fs_metadata :: string

text \<open>\<^verbatim>\<open>b"_logmeta_"\<close>\<close>

definition log_meta_key :: bytes where
  "log_meta_key = [95, 108, 111, 103, 109, 101, 116, 97, 95]"

definition fj_node_key :: "alg_id \<Rightarrow> u64 \<Rightarrow> u32 \<Rightarrow> bytes" where
  "fj_node_key alg left height = be_bytes 8 alg @ be_bytes 8 left @ be_bytes 4 height"

definition with_keyspaces ::
    "('d, 'm) fjall \<Rightarrow> 'd \<Rightarrow> string \<Rightarrow> string \<Rightarrow> string \<Rightarrow> 'm fjall_error + 'd fjall_storage" where
  "with_keyspaces DB d leaves nodes metadata =
     bindE (map_err Database (fj_keyspace DB d leaves)) (\<lambda>d.
     bindE (map_err Database (fj_keyspace DB d nodes)) (\<lambda>d.
     bindE (map_err Database (fj_keyspace DB d metadata)) (\<lambda>d.
       Inr \<lparr>fs_db = d, fs_leaves = leaves, fs_nodes = nodes, fs_metadata = metadata\<rparr>)))"

definition with_database :: "('d, 'm) fjall \<Rightarrow> 'd \<Rightarrow> 'm fjall_error + 'd fjall_storage" where
  "with_database DB d = with_keyspaces DB d ''eml_leaves'' ''eml_nodes'' ''eml_metadata''"

text \<open>The result of opening the database at the path is a parameter.\<close>

definition fj_open :: "('d, 'm) fjall \<Rightarrow> 'm + 'd \<Rightarrow> 'm fjall_error + 'd fjall_storage" where
  "fj_open DB opened = bindE (map_err Database opened) (with_database DB)"

definition prefix_char :: "char \<Rightarrow> bool" where
  "prefix_char c \<longleftrightarrow>
     (let n = (of_char c :: nat)
      in 48 \<le> n \<and> n \<le> 57 \<or> 65 \<le> n \<and> n \<le> 90 \<or> 97 \<le> n \<and> n \<le> 122 \<or> c \<in> set ''_-.#$'')"

definition with_database_scoped ::
    "('d, 'm) fjall \<Rightarrow> 'd \<Rightarrow> string \<Rightarrow> 'm fjall_error + 'd fjall_storage" where
  "with_database_scoped DB d prefix =
     (if prefix = [] \<or> \<not> list_all prefix_char prefix then Inl (InvalidPrefix prefix)
      else
        let leaves = prefix @ ''_eml_leaves''; nodes = prefix @ ''_eml_nodes''; metadata = prefix @ ''_eml_metadata''
        in if length metadata > 255 then Inl (InvalidPrefix prefix)
           else with_keyspaces DB d leaves nodes metadata)"

definition fj_get_leaf :: "('d, 'm) fjall \<Rightarrow> 'd fjall_storage \<Rightarrow> u64 \<Rightarrow> 'm fjall_error + bytes" where
  "fj_get_leaf DB s index =
     bindE (map_err Database (fj_get DB (fs_db s) (fs_leaves s) (be_bytes 8 index))) (\<lambda>value.
       case value of Some bytes \<Rightarrow> Inr bytes | None \<Rightarrow> Inl (Io index))"

text \<open>\<^verbatim>\<open>iter().next_back()\<close> is the last entry.\<close>

definition fj_len :: "('d, 'm) fjall \<Rightarrow> 'd fjall_storage \<Rightarrow> 'm fjall_error + u64" where
  "fj_len DB s =
     (let items = fj_iter DB (fs_db s) (fs_leaves s)
      in if items = [] then Inr 0
         else bindE (map_err Database (last items)) (\<lambda>(key, _).
           if length key \<noteq> 8 then Inl (MetadataCorruption LeafKeyLength) else Inr (wrapping_add (be_value key) 1)))"

definition fj_get_node ::
    "('d, 'm) fjall \<Rightarrow> 'd fjall_storage \<Rightarrow> alg_id \<Rightarrow> u64 \<Rightarrow> u32 \<Rightarrow> 'm fjall_error + digest option" where
  "fj_get_node DB s alg left height =
     map_err Database (fj_get DB (fs_db s) (fs_nodes s) (fj_node_key alg left height))"

fun fj_metas :: "('m + bytes \<times> bytes) list \<Rightarrow> 'm fjall_error + (alg_id \<times> epochs) list" where
  "fj_metas [] = Inr []"
| "fj_metas (item # items) =
     bindE (map_err Database item) (\<lambda>(key, val).
       if key = log_meta_key then fj_metas items
       else if length key \<noteq> 8 then Inl (MetadataCorruption MetaKeyLength)
       else if length val mod 16 \<noteq> 0 then Inl (MetadataCorruption MetaValueLength)
       else bindE (fj_metas items) (\<lambda>metas. Inr ((be_value key, decode_pairs val) # metas)))"

definition fj_load_algorithm_metas ::
    "('d, 'm) fjall \<Rightarrow> 'd fjall_storage \<Rightarrow> 'm fjall_error + (alg_id \<times> epochs) list" where
  "fj_load_algorithm_metas DB s = fj_metas (fj_iter DB (fs_db s) (fs_metadata s))"

definition fj_append_count :: "('d, 'm) fjall \<Rightarrow> 'd fjall_storage \<Rightarrow> 'm fjall_error + u64" where
  "fj_append_count DB s =
     bindE (map_err Database (fj_get DB (fs_db s) (fs_metadata s) log_meta_key)) (\<lambda>value.
       case value of
         None \<Rightarrow> Inr 0
       | Some bytes \<Rightarrow> if length bytes \<noteq> 8 then Inl (MetadataCorruption LogMetaLength) else Inr (be_value bytes))"

text \<open>The first pass, against the stored algorithms and the projected count.\<close>

definition fj_known :: "('d, 'm) fjall \<Rightarrow> 'd fjall_storage \<Rightarrow> alg_id \<Rightarrow> 'm fjall_error + bool" where
  "fj_known DB s alg =
     bindE (map_err Database (fj_get DB (fs_db s) (fs_metadata s) (be_bytes 8 alg))) (\<lambda>v. Inr (v \<noteq> None))"

fun fj_validate ::
    "('d, 'm) fjall \<Rightarrow> 'd fjall_storage \<Rightarrow> u64 \<Rightarrow> write_op list \<Rightarrow> 'm fjall_error + unit" where
  "fj_validate DB s projected [] = Inr ()"
| "fj_validate DB s projected (op # ops) =
     (case op of
        AppendLeaf at _ _ \<Rightarrow>
          if at \<noteq> projected then Inl (FjallInvalid (WrongPosition at projected)) else fj_validate DB s (wrapping_add projected 1) ops
      | AppendSubtree at _ \<Rightarrow>
          if at \<noteq> projected then Inl (FjallInvalid (WrongPosition at projected)) else fj_validate DB s (wrapping_add projected 1) ops
      | AddAlgorithm alg _ \<Rightarrow> bindE (fj_known DB s alg) (\<lambda>known.
          if known then Inl (FjallInvalid (AlreadyRegistered alg)) else fj_validate DB s projected ops)
      | RemoveAlgorithm alg _ \<Rightarrow> bindE (fj_known DB s alg) (\<lambda>known.
          if \<not> known then Inl (FjallInvalid (NotRegistered alg)) else fj_validate DB s projected ops)
      | ResumeAlgorithm alg _ _ \<Rightarrow> bindE (fj_known DB s alg) (\<lambda>known.
          if \<not> known then Inl (FjallInvalid (NotRegistered alg)) else fj_validate DB s projected ops)
      | SeedFrontier _ _ \<Rightarrow> fj_validate DB s projected ops)"

definition node_puts :: "'d fjall_storage \<Rightarrow> node_write list \<Rightarrow> (string \<times> bytes \<times> bytes) list" where
  "node_puts s nodes = map (\<lambda>(alg, left, height, hash). (fs_nodes s, fj_node_key alg left height, hash)) nodes"

definition meta_put :: "'d fjall_storage \<Rightarrow> alg_id \<Rightarrow> epochs \<Rightarrow> string \<times> bytes \<times> bytes" where
  "meta_put s alg es = (fs_metadata s, be_bytes 8 alg, encode_epochs es)"

fun op_puts :: "'d fjall_storage \<Rightarrow> write_op \<Rightarrow> (string \<times> bytes \<times> bytes) list" where
  "op_puts s (AppendLeaf at data nodes) = (fs_leaves s, be_bytes 8 at, data) # node_puts s nodes"
| "op_puts s (AppendSubtree _ nodes) = node_puts s nodes"
| "op_puts s (AddAlgorithm alg es) = [meta_put s alg es]"
| "op_puts s (RemoveAlgorithm alg es) = [meta_put s alg es]"
| "op_puts s (ResumeAlgorithm alg es nodes) = meta_put s alg es # node_puts s nodes"
| "op_puts s (SeedFrontier _ seeds) =
     concat (map (\<lambda>sd. meta_put s (sd_alg sd) (sd_epochs sd) # node_puts s (sd_nodes sd)) seeds)"

fun op_count :: "write_op \<Rightarrow> u64 \<Rightarrow> u64" where
  "op_count (AppendLeaf _ _ _) n = wrapping_add n 1"
| "op_count (AppendSubtree _ _) n = wrapping_add n 1"
| "op_count (SeedFrontier seeded _) n = seeded"
| "op_count _ n = n"

definition fj_apply ::
    "('d, 'm) fjall \<Rightarrow> 'd fjall_storage \<Rightarrow> write_op list \<Rightarrow> 'm fjall_error + 'd fjall_storage" where
  "fj_apply DB s ops =
     bindE (fj_append_count DB s) (\<lambda>count.
     bindE (fj_validate DB s count ops) (\<lambda>_.
       let batch = concat (map (op_puts s) ops) @ [(fs_metadata s, log_meta_key, be_bytes 8 (fold op_count ops count))]
       in bindE (map_err Database (fj_commit DB (fs_db s) batch)) (\<lambda>d. Inr (s\<lparr>fs_db := d\<rparr>))))"

text \<open>
  The storage the log sees.  The numbers of a key are machine words in the source; outside their
  range, which no call reaches, the model answers that there is no node.
\<close>

definition key_fits :: "alg_id \<Rightarrow> u64 \<Rightarrow> u32 \<Rightarrow> bool" where
  "key_fits alg left height \<longleftrightarrow> alg < u64_limit \<and> left < u64_limit \<and> height < 2 ^ 32"

definition fjall_ops :: "('d, 'm) fjall \<Rightarrow> ('d fjall_storage, 'm fjall_error) storage" where
  "fjall_ops DB = \<lparr>st_get_leaf = fj_get_leaf DB, st_len = fj_len DB,
     st_get_node = (\<lambda>s alg left height. if key_fits alg left height then fj_get_node DB s alg left height else Inr None),
     st_load_algorithm_metas = fj_load_algorithm_metas DB, st_append_count = fj_append_count DB,
     st_apply = fj_apply DB\<rparr>"

section \<open>What the keyspaces hold\<close>

definition leaf_entries :: "bytes list \<Rightarrow> bytes \<Rightarrow> bytes option" where
  "leaf_entries leaves key =
     (if length key = 8 \<and> be_value key < length leaves then Some (leaves ! be_value key) else None)"

definition node_entries :: "(alg_id \<times> u64 \<times> u32 \<Rightarrow> digest option) \<Rightarrow> bytes \<Rightarrow> digest option" where
  "node_entries N key =
     (if length key = 20 then N (be_value (take 8 key), be_value (take 8 (drop 8 key)), be_value (drop 16 key))
      else None)"

definition meta_entries :: "(alg_id \<Rightarrow> epochs option) \<Rightarrow> bytes option \<Rightarrow> bytes \<Rightarrow> bytes option" where
  "meta_entries M lm key =
     (if key = log_meta_key then lm
      else if length key = 8 then map_option encode_epochs (M (be_value key)) else None)"

lemma length_log_meta_key [simp]: "length log_meta_key = 9"
  by (simp add: log_meta_key_def)

lemma be_bytes_not_log_meta: "be_bytes 8 n \<noteq> log_meta_key"
proof
  assume "be_bytes 8 n = log_meta_key"
  then have "length (be_bytes 8 n) = length log_meta_key" by (rule arg_cong)
  then show False by simp
qed

lemma length_node_key [simp]: "length (fj_node_key a l t) = 20"
  by (simp add: fj_node_key_def)

lemma node_key_iff:
  assumes "length key = 20" "key_fits a l t"
  shows "(be_value (take 8 key), be_value (take 8 (drop 8 key)), be_value (drop 16 key)) = (a, l, t)
    \<longleftrightarrow> key = fj_node_key a l t"
proof
  assume eq: "(be_value (take 8 key), be_value (take 8 (drop 8 key)), be_value (drop 16 key)) = (a, l, t)"
  have "be_bytes 8 a = take 8 key" "be_bytes 8 l = take 8 (drop 8 key)" "be_bytes 4 t = drop 16 key"
    using eq assms(1) by (auto intro!: be_bytes_be_value)
  moreover have "take 8 key @ take 8 (drop 8 key) @ drop 16 key = key"
    by (metis append_take_drop_id drop_drop numeral_Bit0 add.commute)
  ultimately show "key = fj_node_key a l t" by (simp add: fj_node_key_def)
next
  assume "key = fj_node_key a l t"
  then show "(be_value (take 8 key), be_value (take 8 (drop 8 key)), be_value (drop 16 key)) = (a, l, t)"
    using assms(2) by (simp add: fj_node_key_def key_fits_def be_value_be_bytes u64_bytes)
qed

lemma node_entries_key: "key_fits a l t \<Longrightarrow> node_entries N (fj_node_key a l t) = N (a, l, t)"
  using node_key_iff [of "fj_node_key a l t" a l t] by (simp add: node_entries_def)

lemma node_entries_put:
  "key_fits a l t \<Longrightarrow> node_entries (N((a, l, t) \<mapsto> d)) = (node_entries N)(fj_node_key a l t \<mapsto> d)"
  using node_key_iff [of _ a l t] by (auto simp: node_entries_def fun_eq_iff)

lemma meta_entries_put:
  "a < u64_limit \<Longrightarrow> meta_entries (M(a \<mapsto> es)) lm = (meta_entries M lm)(be_bytes 8 a \<mapsto> encode_epochs es)"
proof
  fix key assume a: "a < u64_limit"
  have "be_value key = a \<longleftrightarrow> key = be_bytes 8 a" if "length key = 8"
    using a be_bytes_be_value [OF that] be_value_be_bytes [of a 8] by (auto simp: u64_bytes)
  then show "meta_entries (M(a \<mapsto> es)) lm key = ((meta_entries M lm)(be_bytes 8 a \<mapsto> encode_epochs es)) key"
    using be_bytes_not_log_meta [of a] by (auto simp: meta_entries_def)
qed

lemma leaf_entries_put:
  "length leaves < u64_limit \<Longrightarrow>
     leaf_entries (leaves @ [d]) = (leaf_entries leaves)(be_bytes 8 (length leaves) \<mapsto> d)"
proof
  fix key assume n: "length leaves < u64_limit"
  have "be_value key = length leaves \<longleftrightarrow> key = be_bytes 8 (length leaves)" if "length key = 8"
    using n be_bytes_be_value [OF that] be_value_be_bytes [of "length leaves" 8] by (auto simp: u64_bytes)
  then show "leaf_entries (leaves @ [d]) key = ((leaf_entries leaves)(be_bytes 8 (length leaves) \<mapsto> d)) key"
    by (auto simp: leaf_entries_def nth_append)
qed

lemma meta_entries_at: "a < u64_limit \<Longrightarrow> meta_entries M lm (be_bytes 8 a) = map_option encode_epochs (M a)"
  using be_bytes_not_log_meta [of a] by (simp add: meta_entries_def be_value_be_bytes u64_bytes)

text \<open>The numbers of a store that fit the machine's width.\<close>

definition metas_fit :: "(alg_id \<Rightarrow> epochs option) \<Rightarrow> bool" where
  "metas_fit M \<longleftrightarrow> (\<forall>a es. M a = Some es \<longrightarrow> a < u64_limit \<and> epochs_fit es)"

definition nodes_fit :: "(alg_id \<times> u64 \<times> u32 \<Rightarrow> digest option) \<Rightarrow> bool" where
  "nodes_fit N \<longleftrightarrow> (\<forall>a l t. N (a, l, t) \<noteq> None \<longrightarrow> key_fits a l t)"

definition store_fits :: "store \<Rightarrow> bool" where
  "store_fits st \<longleftrightarrow> so_count st < u64_max \<and> (so_leaves st = [] \<or> length (so_leaves st) = so_count st)
     \<and> metas_fit (so_metas st) \<and> nodes_fit (so_nodes st)"

lemma metas_fit_put: "metas_fit M \<Longrightarrow> a < u64_limit \<Longrightarrow> epochs_fit es \<Longrightarrow> metas_fit (M(a \<mapsto> es))"
  by (simp add: metas_fit_def)

lemma nodes_fit_fold:
  assumes "nodes_fit N" "list_all node_fits nws"
  shows "nodes_fit (fold write_node nws N)"
  unfolding nodes_fit_def
proof (intro allI impI)
  fix a l t assume "fold write_node nws N (a, l, t) \<noteq> None"
  then have "(a, l, t) \<in> dom (fold write_node nws N)" by blast
  then have "N (a, l, t) \<noteq> None \<or> (\<exists>d. (a, l, t, d) \<in> set nws)" unfolding dom_fold_write by force
  then show "key_fits a l t" using assms by (fastforce simp: list_all_iff node_fits_def key_fits_def nodes_fit_def)
qed

text \<open>The keyspaces of a backend hold a store; \<open>lm\<close> is the log metadata entry.\<close>

definition fj_holds :: "db_content \<Rightarrow> 'd fjall_storage \<Rightarrow> bytes option \<Rightarrow> store \<Rightarrow> bool" where
  "fj_holds c s lm st \<longleftrightarrow> distinct [fs_leaves s, fs_nodes s, fs_metadata s]
     \<and> c (fs_leaves s) = leaf_entries (so_leaves st)
     \<and> c (fs_nodes s) = node_entries (so_nodes st)
     \<and> c (fs_metadata s) = meta_entries (so_metas st) lm"

definition log_meta_of :: "u64 \<Rightarrow> bytes option \<Rightarrow> bool" where
  "log_meta_of n lm \<longleftrightarrow> lm = Some (be_bytes 8 n) \<or> lm = None \<and> n = 0"

definition fj_content :: "db_content \<Rightarrow> 'd fjall_storage \<Rightarrow> store" where
  "fj_content c s =
     (let n = (case c (fs_metadata s) log_meta_key of None \<Rightarrow> 0 | Some bytes \<Rightarrow> be_value bytes)
      in \<lparr>so_leaves = (if c (fs_leaves s) (be_bytes 8 0) = None then []
                       else map (\<lambda>i. the (c (fs_leaves s) (be_bytes 8 i))) [0..<n]),
          so_nodes = (\<lambda>(a, l, t). if key_fits a l t then c (fs_nodes s) (fj_node_key a l t) else None),
          so_metas = (\<lambda>a. if a < u64_limit then map_option decode_pairs (c (fs_metadata s) (be_bytes 8 a)) else None),
          so_count = n\<rparr>)"

lemma fj_content_holds:
  assumes h: "fj_holds c s lm st" and lm: "log_meta_of (so_count st) lm" and f: "store_fits st"
  shows "fj_content c s = st"
proof -
  have c: "c (fs_leaves s) = leaf_entries (so_leaves st)" "c (fs_nodes s) = node_entries (so_nodes st)"
    "c (fs_metadata s) = meta_entries (so_metas st) lm"
    using h by (simp_all add: fj_holds_def)
  have "so_count st < u64_max" using f by (simp add: store_fits_def)
  then have count: "so_count st < u64_limit" using u64_max_less_limit by (rule less_trans)
  have n: "(case c (fs_metadata s) log_meta_key of None \<Rightarrow> 0 | Some bytes \<Rightarrow> be_value bytes) = so_count st"
    using lm count by (auto simp: c meta_entries_def log_meta_of_def be_value_be_bytes u64_bytes)
  have leaf: "leaf_entries (so_leaves st) (be_bytes 8 i) = (if i < length (so_leaves st) then Some (so_leaves st ! i) else None)"
    if "i < u64_limit" for i using that by (simp add: leaf_entries_def be_value_be_bytes u64_bytes)
  have leaves: "(if c (fs_leaves s) (be_bytes 8 0) = None then []
      else map (\<lambda>i. the (c (fs_leaves s) (be_bytes 8 i))) [0..<so_count st]) = so_leaves st"
  proof (cases "so_leaves st = []")
    case False
    then have len: "length (so_leaves st) = so_count st" using f by (simp add: store_fits_def)
    have "map (\<lambda>i. the (c (fs_leaves s) (be_bytes 8 i))) [0..<so_count st] = map (\<lambda>i. so_leaves st ! i) [0..<so_count st]"
      using leaf count len by (intro map_cong) (simp_all add: c)
    also have "\<dots> = so_leaves st" by (simp add: len [symmetric] map_nth)
    finally show ?thesis using leaf [of 0] len False length_greater_0_conv [of "so_leaves st"]
      by (simp add: c u64_limit_def)
  qed (simp add: c leaf_entries_def)
  have nodes: "(\<lambda>(a, l, t). if key_fits a l t then c (fs_nodes s) (fj_node_key a l t) else None) = so_nodes st"
    using f by (force simp: c node_entries_key store_fits_def nodes_fit_def fun_eq_iff)
  have metas: "(\<lambda>a. if a < u64_limit then map_option decode_pairs (c (fs_metadata s) (be_bytes 8 a)) else None) = so_metas st"
  proof
    fix a
    show "(if a < u64_limit then map_option decode_pairs (c (fs_metadata s) (be_bytes 8 a)) else None) = so_metas st a"
      using f by (cases "so_metas st a") (auto simp: c meta_entries_at store_fits_def metas_fit_def decode_encode_epochs)
  qed
  show ?thesis unfolding fj_content_def Let_def n leaves nodes metas by simp
qed

section \<open>One operation\<close>

lemma fold_node_puts:
  assumes "c (fs_nodes s) = node_entries N" "list_all node_fits nws"
  shows "fold db_put (node_puts s nws) c = c(fs_nodes s := node_entries (fold write_node nws N))"
  using assms
proof (induction nws arbitrary: c N)
  case Nil
  then show ?case by (simp add: node_puts_def fun_upd_idem)
next
  case (Cons nw nws)
  obtain a l t d where nw: "nw = (a, l, t, d)" by (metis surj_pair)
  have fits: "key_fits a l t" using Cons.prems(2) by (simp add: nw node_fits_def key_fits_def)
  let ?c = "c(fs_nodes s := node_entries (N((a, l, t) \<mapsto> d)))"
  have "db_put (fs_nodes s, fj_node_key a l t, d) c = ?c"
    using Cons.prems(1) node_entries_put [OF fits] by (simp add: db_put_def)
  moreover have "fold db_put (node_puts s nws) ?c
      = ?c(fs_nodes s := node_entries (fold write_node nws (N((a, l, t) \<mapsto> d))))"
    by (intro Cons.IH fun_upd_same) (use Cons.prems(2) in simp)
  ultimately show ?case by (simp add: nw node_puts_def)
qed

lemma holds_nodes:
  assumes "fj_holds c s lm st" "list_all node_fits nws"
  shows "fj_holds (fold db_put (node_puts s nws) c) s lm (store_nodes nws st)"
proof -
  have "c (fs_nodes s) = node_entries (so_nodes st)" using assms(1) by (simp add: fj_holds_def)
  from fold_node_puts [where c = c and s = s and N = "so_nodes st", OF this assms(2)] show ?thesis
    using assms(1) by (auto simp: fj_holds_def store_nodes_def)
qed

lemma holds_meta:
  assumes "fj_holds c s lm st" "a < u64_limit"
  shows "fj_holds (db_put (meta_put s a es) c) s lm (st\<lparr>so_metas := (so_metas st)(a \<mapsto> es)\<rparr>)"
  using assms(1) meta_entries_put [OF assms(2), of "so_metas st" es lm]
  by (auto simp: fj_holds_def db_put_def meta_put_def)

lemma holds_leaf:
  assumes "fj_holds c s lm st" "length (so_leaves st) < u64_limit"
  shows "fj_holds (db_put (fs_leaves s, be_bytes 8 (length (so_leaves st)), d) c) s lm
     (st\<lparr>so_leaves := so_leaves st @ [d]\<rparr>)"
  using assms(1) leaf_entries_put [OF assms(2), of d] by (auto simp: fj_holds_def db_put_def)

lemma holds_count: "fj_holds c s lm (st\<lparr>so_count := n\<rparr>) \<longleftrightarrow> fj_holds c s lm st"
  by (simp add: fj_holds_def)

lemma holds_log_meta:
  "fj_holds c s lm st \<Longrightarrow> fj_holds (db_put (fs_metadata s, log_meta_key, b) c) s (Some b) st"
  by (auto simp: fj_holds_def db_put_def meta_entries_def fun_eq_iff)

lemma holds_seeds:
  assumes "fj_holds c s lm st" "list_all (\<lambda>sd. sd_alg sd < u64_limit \<and> list_all node_fits (sd_nodes sd)) seeds"
  shows "fj_holds (fold db_put (concat (map (\<lambda>sd. meta_put s (sd_alg sd) (sd_epochs sd) # node_puts s (sd_nodes sd)) seeds)) c)
     s lm (fold store_seed seeds st)"
  using assms
proof (induction seeds arbitrary: c st)
  case (Cons sd seeds)
  have "fj_holds (fold db_put (node_puts s (sd_nodes sd)) (db_put (meta_put s (sd_alg sd) (sd_epochs sd)) c)) s lm (store_seed sd st)"
    unfolding store_seed_def using Cons.prems by (intro holds_nodes holds_meta) simp_all
  from Cons.IH [OF this] Cons.prems(2) show ?case by simp
qed simp

text \<open>
  What the backend makes of an operation: as the contract has it, except that a seeding is not checked
  at all and is written over whatever the store holds.
\<close>

fun fjall_step :: "write_op \<Rightarrow> store \<Rightarrow> store option" where
  "fjall_step (SeedFrontier n seeds) st = Some (fold store_seed seeds (st\<lparr>so_count := n\<rparr>))"
| "fjall_step op st = abs_step op st"

lemma fjall_step_abs: "abs_step op st = Some st' \<Longrightarrow> fjall_step op st = Some st'"
  by (cases op) (auto split: if_splits)

lemma holds_step:
  assumes h: "fj_holds c s lm st" and f: "op_fits st op" and st': "fjall_step op st = Some st'"
  shows "fj_holds (fold db_put (op_puts s op) c) s lm st'" "so_count st' = op_count op (so_count st)"
proof -
  show "fj_holds (fold db_put (op_puts s op) c) s lm st'"
  proof (cases op)
    case (AppendLeaf at data nodes)
    then have eq: "at = length (so_leaves st)" "st' = store_nodes nodes (st\<lparr>so_leaves := so_leaves st @ [data], so_count := so_count st + 1\<rparr>)"
      using f st' by (auto split: if_splits)
    have "length (so_leaves st) < u64_max" using f by (simp add: AppendLeaf)
    then have "length (so_leaves st) < u64_limit" using u64_max_less_limit by (rule less_trans)
    from holds_leaf [OF h this, of data]
    have "fj_holds (db_put (fs_leaves s, be_bytes 8 at, data) c) s lm
        ((st\<lparr>so_leaves := so_leaves st @ [data]\<rparr>)\<lparr>so_count := so_count st + 1\<rparr>)"
      unfolding holds_count eq .
    from holds_nodes [OF this, of nodes] f show ?thesis by (simp add: AppendLeaf eq)
  next
    case (AppendSubtree at nodes)
    have "fj_holds c s lm (st\<lparr>so_count := so_count st + 1\<rparr>)" using h by (simp add: holds_count)
    from holds_nodes [OF this, of nodes] f st' show ?thesis by (simp add: AppendSubtree split: if_splits)
  next
    case (AddAlgorithm a es)
    then show ?thesis using f st' holds_meta [OF h, of a es] by (simp split: if_splits)
  next
    case (RemoveAlgorithm a es)
    then show ?thesis using f st' holds_meta [OF h, of a es] by (simp split: if_splits)
  next
    case (ResumeAlgorithm a es nodes)
    then show ?thesis using f st' holds_nodes [OF holds_meta [OF h, of a es], of nodes] by (simp split: if_splits)
  next
    case (SeedFrontier n seeds)
    have "fj_holds c s lm (st\<lparr>so_count := n\<rparr>)" using h by (simp add: holds_count)
    from holds_seeds [OF this, of seeds] f st' show ?thesis
      by (simp add: SeedFrontier list_all_iff split: if_splits)
  qed
  show "so_count st' = op_count op (so_count st)"
    using st' f by (cases op) (auto simp: seeds_count wrapping_add_Suc split: if_splits)
qed

lemma seeds_leaves: "so_leaves (fold store_seed seeds st) = so_leaves st"
  by (induction seeds arbitrary: st) (simp_all add: store_seed_def store_nodes_def)

lemma seeds_fit:
  assumes "list_all (\<lambda>sd. sd_alg sd < u64_limit \<and> epochs_fit (sd_epochs sd) \<and> list_all node_fits (sd_nodes sd)) seeds"
    and "metas_fit (so_metas st)" "nodes_fit (so_nodes st)"
  shows "metas_fit (so_metas (fold store_seed seeds st)) \<and> nodes_fit (so_nodes (fold store_seed seeds st))"
  using assms
proof (induction seeds arbitrary: st)
  case (Cons sd seeds)
  have "metas_fit (so_metas (store_seed sd st))"
    using Cons.prems(1,2) by (simp add: store_seed_def metas_fit_put)
  moreover have "nodes_fit (so_nodes (store_seed sd st))"
    using Cons.prems(1,3) by (simp add: store_seed_def store_nodes_def nodes_fit_fold)
  ultimately show ?case using Cons.IH [of "store_seed sd st"] Cons.prems(1) by simp
qed simp

lemma store_fits_step:
  assumes f: "store_fits st" "op_fits st op" and st': "fjall_step op st = Some st'"
  shows "store_fits st'"
proof (cases op)
  case (AppendLeaf at data nodes)
  then show ?thesis using assms by (auto simp: store_fits_def store_nodes_def nodes_fit_fold split: if_splits)
next
  case (AppendSubtree at nodes)
  then show ?thesis using assms by (auto simp: store_fits_def store_nodes_def nodes_fit_fold split: if_splits)
next
  case (AddAlgorithm a es)
  then show ?thesis using assms epochs_valid_fit [of "so_count st" es]
    by (auto simp: store_fits_def metas_fit_put split: if_splits)
next
  case (RemoveAlgorithm a es)
  then show ?thesis using assms epochs_valid_fit [of "so_count st" es]
    by (auto simp: store_fits_def metas_fit_put split: if_splits)
next
  case (ResumeAlgorithm a es nodes)
  then show ?thesis using assms epochs_valid_fit [of "so_count st" es]
    by (auto simp: store_fits_def store_nodes_def metas_fit_put nodes_fit_fold split: if_splits)
next
  case (SeedFrontier n seeds)
  have "list_all (\<lambda>sd. sd_alg sd < u64_limit \<and> epochs_fit (sd_epochs sd) \<and> list_all node_fits (sd_nodes sd)) seeds"
    using f(2) epochs_valid_fit [of n] by (auto simp: SeedFrontier list_all_iff)
  from seeds_fit [OF this, of "st\<lparr>so_count := n\<rparr>"]
  have "store_fits (fold store_seed seeds (st\<lparr>so_count := n\<rparr>))"
    using f by (simp add: SeedFrontier store_fits_def seeds_count seeds_leaves)
  moreover have "st' = fold store_seed seeds (st\<lparr>so_count := n\<rparr>)" using st' by (simp add: SeedFrontier split: if_splits)
  ultimately show ?thesis by simp
qed

section \<open>The backend keeps the storage contract\<close>

definition fjall_valid :: "('d \<Rightarrow> bool) \<Rightarrow> ('d \<Rightarrow> db_content) \<Rightarrow> 'd fjall_storage \<Rightarrow> bool" where
  "fjall_valid db_ok db_content s \<longleftrightarrow> db_ok (fs_db s)
     \<and> (\<exists>lm st. fj_holds (db_content (fs_db s)) s lm st \<and> log_meta_of (so_count st) lm \<and> store_fits st)"

definition fjall_store :: "('d \<Rightarrow> db_content) \<Rightarrow> 'd fjall_storage \<Rightarrow> store" where
  "fjall_store db_content s = fj_content (db_content (fs_db s)) s"

text \<open>The entries of the metadata keyspace, decoded.\<close>

lemma fj_metas_entries:
  assumes "\<And>k v. (k, v) \<in> set kvs \<Longrightarrow> k = log_meta_key \<or> length k = 8 \<and> length v mod 16 = 0"
  shows "fj_metas (map Inr kvs)
     = Inr (map (\<lambda>(k, v). (be_value k, decode_pairs v)) (filter (\<lambda>(k, _). k \<noteq> log_meta_key) kvs))"
  using assms
proof (induction kvs)
  case (Cons kv kvs)
  obtain k v where kv: "kv = (k, v)" by (cases kv)
  have "k = log_meta_key \<or> length k = 8 \<and> length v mod 16 = 0" using Cons.prems [of k v] kv by simp
  moreover have "k = log_meta_key \<or> length k = 8 \<and> length v mod 16 = 0" if "(k, v) \<in> set kvs" for k v
    using Cons.prems [of k v] that by simp
  note Cons.IH [OF this]
  ultimately show ?case by (auto simp: kv)
qed simp

lemma fj_metas_holds:
  assumes kvs: "bt_keys kvs" "map_of kvs = meta_entries M lm" and M: "metas_fit M"
  shows "\<exists>ms. fj_metas (map Inr kvs) = Inr ms \<and> distinct (map fst ms) \<and> map_of ms = M"
proof -
  note d = bt_keys_distinct [OF kvs(1)]
  have mem: "(k, v) \<in> set kvs \<longleftrightarrow> meta_entries M lm k = Some v" for k v
    using map_of_eq_Some_iff [OF d] kvs(2) by metis
  let ?es = "filter (\<lambda>(k, _). k \<noteq> log_meta_key) kvs"
  let ?ms = "map (\<lambda>(k, v). (be_value k, decode_pairs v)) ?es"
  have ent: "length k = 8 \<and> (\<exists>es. M (be_value k) = Some es \<and> v = encode_epochs es)" if "(k, v) \<in> set ?es" for k v
    using that mem [of k v] by (auto simp: meta_entries_def split: if_splits)
  have "fj_metas (map Inr kvs) = Inr ?ms"
  proof (rule fj_metas_entries)
    show "k = log_meta_key \<or> length k = 8 \<and> length v mod 16 = 0" if "(k, v) \<in> set kvs" for k v
      using that ent [of k v] by (auto simp: length_encode_epochs)
  qed
  moreover have "distinct (map fst ?ms)"
  proof -
    have "inj_on be_value (fst ` set ?es)"
      using ent by (auto intro!: inj_onI be_value_inj simp del: set_filter)
    moreover have "distinct (map fst ?es)" using d by (rule distinct_map_filter)
    ultimately have "distinct (map be_value (map fst ?es))" unfolding distinct_map set_map by blast
    then show ?thesis by (simp add: o_def case_prod_beta)
  qed
  moreover have "map_of ?ms = M"
  proof
    fix a
    have "map_of ?ms a = Some es \<longleftrightarrow> M a = Some es" for es
    proof
      assume "map_of ?ms a = Some es"
      then obtain k v where kv: "(k, v) \<in> set ?es" "a = be_value k" "es = decode_pairs v"
        by (auto dest!: map_of_SomeD)
      from ent [OF kv(1)] show "M a = Some es" using kv M by (auto simp: metas_fit_def decode_encode_epochs)
    next
      assume es: "M a = Some es"
      then have fit: "a < u64_limit" "epochs_fit es" using M by (auto simp: metas_fit_def)
      have "(be_bytes 8 a, encode_epochs es) \<in> set ?es"
        using mem [of "be_bytes 8 a"] es fit be_bytes_not_log_meta [of a] by (simp add: meta_entries_at)
      then have "(be_value (be_bytes 8 a), decode_pairs (encode_epochs es)) \<in> set ?ms" by force
      then have "(a, es) \<in> set ?ms" using fit by (simp add: be_value_be_bytes u64_bytes decode_encode_epochs)
      then show "map_of ?ms a = Some es" using \<open>distinct (map fst ?ms)\<close> by (simp add: map_of_eq_Some_iff)
    qed
    then show "map_of ?ms a = M a" by (metis not_Some_eq)
  qed
  ultimately show ?thesis by blast
qed

text \<open>The last key of the leaf keyspace is the last position.\<close>

lemma last_leaf_key:
  assumes kvs: "bt_keys kvs" "map_of kvs = leaf_entries leaves" and n: "length leaves < u64_limit"
  shows "(kvs = [] \<longleftrightarrow> leaves = []) \<and> (kvs \<noteq> [] \<longrightarrow> length (fst (last kvs)) = 8
     \<and> wrapping_add (be_value (fst (last kvs))) 1 = length leaves)"
proof -
  note d = bt_keys_distinct [OF kvs(1)]
  have mem: "(k, v) \<in> set kvs \<longleftrightarrow> leaf_entries leaves k = Some v" for k v
    using map_of_eq_Some_iff [OF d] kvs(2) by metis
  have key: "\<exists>v. (be_bytes 8 i, v) \<in> set kvs" if "i < length leaves" for i
    using that n by (simp add: mem leaf_entries_def be_value_be_bytes u64_bytes)
  have ent: "length (fst kv) = 8 \<and> be_value (fst kv) < length leaves" if "kv \<in> set kvs" for kv
    using that mem [of "fst kv" "snd kv"] by (auto simp: leaf_entries_def split: if_splits)
  have max: "fst kv \<le> fst (last kvs)" if "kv \<in> set kvs" for kv
  proof -
    have "kvs \<noteq> []" using that by auto
    then obtain xs x where kx: "kvs = xs @ [x]" by (metis append_butlast_last_id)
    then show ?thesis using that kvs(1) by (auto simp: bt_keys_def sorted_wrt_append less_imp_le)
  qed
  show ?thesis
  proof (cases "leaves = []")
    case True
    then show ?thesis using ent by (cases kvs) auto
  next
    case False
    then obtain v where v: "(be_bytes 8 (length leaves - 1), v) \<in> set kvs" using key [of "length leaves - 1"] by auto
    then have ne: "kvs \<noteq> []" by auto
    note l = ent [OF last_in_set [OF ne]]
    have "be_value (be_bytes 8 (length leaves - 1)) \<le> be_value (fst (last kvs))"
      using max [OF v] be_value_less [of "fst (last kvs)" "be_bytes 8 (length leaves - 1)"] l by (simp add: not_less [symmetric])
    then have "length leaves - 1 \<le> be_value (fst (last kvs))" using n by (simp add: be_value_be_bytes u64_bytes)
    then have "be_value (fst (last kvs)) + 1 = length leaves" using l ne False by auto
    then show ?thesis using l ne False n by (simp add: wrapping_add_eq)
  qed
qed

context fjall_database begin

lemma valid_holds:
  assumes "fjall_valid db_ok db_content s"
  obtains lm where "db_ok (fs_db s)" "fj_holds (db_content (fs_db s)) s lm (fjall_store db_content s)"
    "log_meta_of (so_count (fjall_store db_content s)) lm" "store_fits (fjall_store db_content s)"
proof -
  obtain lm st where st: "db_ok (fs_db s)" "fj_holds (db_content (fs_db s)) s lm st" "log_meta_of (so_count st) lm"
    "store_fits st" using assms by (auto simp: fjall_valid_def)
  have "fjall_store db_content s = st" unfolding fjall_store_def by (rule fj_content_holds [OF st(2-4)])
  then show thesis using that st by simp
qed

lemma fj_count_holds:
  assumes "db_ok (fs_db s)" "fj_holds (db_content (fs_db s)) s lm st" "log_meta_of (so_count st) lm" "store_fits st"
  shows "fj_append_count DB s = Inr (so_count st)"
proof -
  have "so_count st < u64_max" using assms(4) by (simp add: store_fits_def)
  then have n: "so_count st < u64_limit" using u64_max_less_limit by (rule less_trans)
  have "fj_get DB (fs_db s) (fs_metadata s) log_meta_key = Inr lm"
    using get [OF assms(1)] assms(2) by (simp add: fj_holds_def meta_entries_def)
  then show ?thesis
    using assms(3) n by (auto simp: fj_append_count_def log_meta_of_def be_value_be_bytes u64_bytes)
qed

lemma fj_known_holds:
  assumes "db_ok (fs_db s)" "fj_holds (db_content (fs_db s)) s lm st" "a < u64_limit"
  shows "fj_known DB s a = Inr (so_metas st a \<noteq> None)"
  using get [OF assms(1)] assms(2) meta_entries_at [OF assms(3), of "so_metas st" lm]
  by (simp add: fj_known_def fj_holds_def)

lemma fj_apply_step:
  assumes v: "db_ok (fs_db s)" "fj_holds (db_content (fs_db s)) s lm st" "log_meta_of (so_count st) lm" "store_fits st"
    and f: "op_fits st op" and st': "fjall_step op st = Some st'"
  shows "\<exists>s'. fj_apply DB s [op] = Inr s' \<and> fjall_valid db_ok db_content s' \<and> fjall_store db_content s' = st'
    \<and> fs_leaves s' = fs_leaves s \<and> fs_nodes s' = fs_nodes s \<and> fs_metadata s' = fs_metadata s"
proof -
  note count = fj_count_holds [OF v] and known = fj_known_holds [OF v(1,2)]
  have check: "fj_validate DB s (so_count st) [op] = Inr ()"
    using f st' known by (cases op) (auto split: if_splits)
  let ?n = "op_count op (so_count st)"
  let ?batch = "op_puts s op @ [(fs_metadata s, log_meta_key, be_bytes 8 ?n)]"
  obtain d where d: "fj_commit DB (fs_db s) ?batch = Inr d" "db_ok d"
    "db_content d = fold db_put ?batch (db_content (fs_db s))"
    using commit [OF v(1)] by blast
  let ?s = "s\<lparr>fs_db := d\<rparr>"
  note step = holds_step [OF v(2) f st']
  have "fj_holds (db_content d) s (Some (be_bytes 8 ?n)) st'"
    using holds_log_meta [OF step(1)] by (simp add: d(3))
  then have h: "fj_holds (db_content (fs_db ?s)) ?s (Some (be_bytes 8 ?n)) st'" by (simp add: fj_holds_def)
  have lm: "log_meta_of (so_count st') (Some (be_bytes 8 ?n))" by (simp add: log_meta_of_def step(2))
  note fits = store_fits_step [OF v(4) f st']
  have "fjall_valid db_ok db_content ?s" using d(2) h lm fits by (auto simp: fjall_valid_def)
  moreover have "fjall_store db_content ?s = st'" unfolding fjall_store_def by (rule fj_content_holds [OF h lm fits])
  moreover have "fj_apply DB s [op] = Inr ?s" using count check d(1) by (simp add: fj_apply_def Let_def)
  ultimately show ?thesis by (intro exI [of _ ?s]) simp
qed

end

sublocale fjall_database \<subseteq> fjall_store: lawful_storage "fjall_ops DB" "fjall_valid db_ok db_content" "fjall_store db_content"
proof
  fix s assume valid: "fjall_valid db_ok db_content s"
  let ?st = "fjall_store db_content s"
  from valid_holds [OF valid] obtain lm where v: "db_ok (fs_db s)" "fj_holds (db_content (fs_db s)) s lm ?st"
    "log_meta_of (so_count ?st) lm" "store_fits ?st" by blast
  have c: "db_content (fs_db s) (fs_leaves s) = leaf_entries (so_leaves ?st)"
    "db_content (fs_db s) (fs_nodes s) = node_entries (so_nodes ?st)"
    "db_content (fs_db s) (fs_metadata s) = meta_entries (so_metas ?st) lm"
    using v(2) by (simp_all add: fj_holds_def)
  have "so_count ?st < u64_max" "so_leaves ?st = [] \<or> length (so_leaves ?st) = so_count ?st"
    using v(4) by (simp_all add: store_fits_def)
  then have len: "length (so_leaves ?st) < u64_limit" using u64_max_less_limit by (auto simp: u64_limit_def)
  show "st_get_node (fjall_ops DB) s a l t = Inr (so_nodes ?st (a, l, t))" for a l t
  proof (cases "key_fits a l t")
    case True
    then show ?thesis using get [OF v(1)] by (simp add: fjall_ops_def fj_get_node_def c node_entries_key)
  next
    case False
    then have "so_nodes ?st (a, l, t) = None" using v(4) unfolding store_fits_def nodes_fit_def by blast
    then show ?thesis using False by (simp add: fjall_ops_def)
  qed
  show "st_get_leaf (fjall_ops DB) s i = Inr (so_leaves ?st ! i)" if "i < length (so_leaves ?st)" for i
  proof -
    have "leaf_entries (so_leaves ?st) (be_bytes 8 i) = Some (so_leaves ?st ! i)"
      using that len by (simp add: leaf_entries_def be_value_be_bytes u64_bytes)
    then show ?thesis using get [OF v(1)] by (simp add: fjall_ops_def fj_get_leaf_def c)
  qed
  show "st_len (fjall_ops DB) s = Inr (length (so_leaves ?st))"
  proof -
    obtain kvs where kvs: "fj_iter DB (fs_db s) (fs_leaves s) = map Inr kvs" "bt_keys kvs"
      "map_of kvs = leaf_entries (so_leaves ?st)"
      using iter [OF v(1), of "fs_leaves s"] by (auto simp: c)
    from last_leaf_key [OF kvs(2,3) len] show ?thesis
      by (cases "kvs = []") (auto simp: fjall_ops_def fj_len_def kvs(1) last_map case_prod_beta)
  qed
  show "st_append_count (fjall_ops DB) s = Inr (so_count ?st)"
    using fj_count_holds [OF v] by (simp add: fjall_ops_def)
  show "\<exists>ms. st_load_algorithm_metas (fjall_ops DB) s = Inr ms \<and> distinct (map fst ms) \<and> map_of ms = so_metas ?st"
  proof -
    obtain kvs where kvs: "fj_iter DB (fs_db s) (fs_metadata s) = map Inr kvs" "bt_keys kvs"
      "map_of kvs = meta_entries (so_metas ?st) lm"
      using iter [OF v(1), of "fs_metadata s"] by (auto simp: c)
    have "metas_fit (so_metas ?st)" using v(4) by (simp add: store_fits_def)
    from fj_metas_holds [OF kvs(2,3) this] show ?thesis
      by (simp add: fjall_ops_def fj_load_algorithm_metas_def kvs(1))
  qed
  show "\<exists>s'. st_apply (fjall_ops DB) s [op] = Inr s' \<and> fjall_valid db_ok db_content s' \<and> fjall_store db_content s' = st"
    if "op_fits ?st op" "abs_step op ?st = Some st" for op st
    using fj_apply_step [OF v that(1) fjall_step_abs [OF that(2)]] by (auto simp: fjall_ops_def)
qed

section \<open>The reference database\<close>

text \<open>Ordered maps, one per keyspace: the promises can be kept.\<close>

type_synonym map_database = "string \<Rightarrow> (bytes \<times> bytes) list"

definition map_insert :: "string \<times> bytes \<times> bytes \<Rightarrow> map_database \<Rightarrow> map_database" where
  "map_insert = (\<lambda>(ks, key, val) d. d(ks := bt_insert key val (d ks)))"

definition map_fjall :: "(map_database, unit) fjall" where
  "map_fjall = \<lparr>fj_keyspace = (\<lambda>d name. Inr d), fj_get = (\<lambda>d ks key. Inr (map_of (d ks) key)),
     fj_iter = (\<lambda>d ks. map Inr (d ks)), fj_commit = (\<lambda>d batch. Inr (fold map_insert batch d))\<rparr>"

definition map_ok :: "map_database \<Rightarrow> bool" where
  "map_ok d \<longleftrightarrow> (\<forall>ks. bt_keys (d ks))"

definition map_content :: "map_database \<Rightarrow> db_content" where
  "map_content d ks = map_of (d ks)"

interpretation map_db: fjall_database map_fjall map_ok map_content
proof
  fix d :: map_database and batch assume ok: "map_ok d"
  have "map_ok (fold map_insert batch d) \<and> map_content (fold map_insert batch d) = fold db_put batch (map_content d)"
    using ok
  proof (induction batch arbitrary: d)
    case (Cons put batch)
    obtain ks key val where put: "put = (ks, key, val)" by (metis surj_pair)
    have "map_ok (map_insert put d)" using Cons.prems by (simp add: map_ok_def map_insert_def put bt_keys_insert)
    moreover have "map_content (map_insert put d) = db_put put (map_content d)"
      using Cons.prems by (auto simp: map_content_def map_insert_def db_put_def put map_ok_def map_of_bt_insert fun_eq_iff)
    ultimately show ?case using Cons.IH [of "map_insert put d"] by simp
  qed simp
  then show "\<exists>d'. fj_commit map_fjall d batch = Inr d' \<and> map_ok d' \<and> map_content d' = fold db_put batch (map_content d)"
    by (simp add: map_fjall_def)
qed (auto simp: map_fjall_def map_content_def map_ok_def fun_eq_iff)

section \<open>A log over the database\<close>

lemma add_storage: "add_algorithm S L alg h = Inr L' \<Longrightarrow> \<exists>op. st_apply S (lg_storage L) [op] = Inr (lg_storage L')"
  by (auto simp: add_algorithm_def bindE_Inr_iff Let_def split: if_splits)

lemma step_storage:
  assumes "log_step S (L, items) (L', items')"
  shows "\<exists>op. st_apply S (lg_storage L) [op] = Inr (lg_storage L')"
  using assms
proof cases
  case (add h alg)
  then show ?thesis using add_storage by blast
qed (auto simp: remove_algorithm_def resume_algorithm_def append_leaf_def append_subtree_def bindE_Inr_iff Let_def
      split: option.splits if_splits)

lemma fj_apply_names:
  "fj_apply DB s ops = Inr s' \<Longrightarrow>
     fs_leaves s' = fs_leaves s \<and> fs_nodes s' = fs_nodes s \<and> fs_metadata s' = fs_metadata s"
  by (auto simp: fj_apply_def bindE_Inr_iff Let_def)

lemma reachable_names:
  "reachable_log (fjall_ops DB) s k L items \<Longrightarrow> fs_leaves (lg_storage L) = fs_leaves s
     \<and> fs_nodes (lg_storage L) = fs_nodes s \<and> fs_metadata (lg_storage L) = fs_metadata s"
proof (induction rule: reachable_log.induct)
  case (init h L)
  then obtain op where "st_apply (fjall_ops DB) s [op] = Inr (lg_storage L)"
    by (auto simp: log_new_def dest!: add_storage split: if_splits)
  then show ?case using fj_apply_names [of DB s "[op]"] by (simp add: fjall_ops_def)
next
  case (step L items L' items')
  then obtain op where "st_apply (fjall_ops DB) (lg_storage L) [op] = Inr (lg_storage L')" using step_storage by blast
  then show ?case using step.IH fj_apply_names [of DB "lg_storage L" "[op]"] by (simp add: fjall_ops_def)
qed

context fjall_database begin

lemma with_keyspaces_ok:
  assumes "db_ok d"
  shows "\<exists>d'. with_keyspaces DB d l n m = Inr \<lparr>fs_db = d', fs_leaves = l, fs_nodes = n, fs_metadata = m\<rparr>
    \<and> db_ok d' \<and> db_content d' = db_content d"
proof -
  obtain d1 where d1: "fj_keyspace DB d l = Inr d1" "db_ok d1" "db_content d1 = db_content d"
    using keyspace [OF assms] by blast
  obtain d2 where d2: "fj_keyspace DB d1 n = Inr d2" "db_ok d2" "db_content d2 = db_content d1"
    using keyspace [OF d1(2)] by blast
  obtain d3 where d3: "fj_keyspace DB d2 m = Inr d3" "db_ok d3" "db_content d3 = db_content d2"
    using keyspace [OF d2(2)] by blast
  show ?thesis using d1 d2 d3 by (simp add: with_keyspaces_def)
qed

text \<open>Fresh keyspaces hold the empty store.\<close>

lemma fresh_store:
  assumes "db_ok (fs_db s)" "distinct [fs_leaves s, fs_nodes s, fs_metadata s]"
    and "\<forall>ks \<in> {fs_leaves s, fs_nodes s, fs_metadata s}. db_content (fs_db s) ks = Map.empty"
  shows "fjall_valid db_ok db_content s" "fjall_store db_content s = empty_store"
proof -
  have h: "fj_holds (db_content (fs_db s)) s None empty_store"
    using assms(2,3) by (auto simp: fj_holds_def empty_store_def leaf_entries_def node_entries_def meta_entries_def fun_eq_iff)
  have lm: "log_meta_of (so_count empty_store) None" by (simp add: log_meta_of_def empty_store_def)
  have fits: "store_fits empty_store"
    by (simp add: store_fits_def empty_store_def metas_fit_def nodes_fit_def u64_max_def)
  show "fjall_valid db_ok db_content s" using assms(1) h lm fits unfolding fjall_valid_def by blast
  show "fjall_store db_content s = empty_store" unfolding fjall_store_def by (rule fj_content_holds [OF h lm fits])
qed

text \<open>What a handle holds depends on the contents of its keyspaces only.\<close>

lemma same_content:
  assumes "fjall_valid db_ok db_content s" "db_ok d"
    and "\<forall>ks \<in> {fs_leaves s, fs_nodes s, fs_metadata s}. db_content d ks = db_content (fs_db s) ks"
  shows "fjall_valid db_ok db_content (s\<lparr>fs_db := d\<rparr>)" "fjall_store db_content (s\<lparr>fs_db := d\<rparr>) = fjall_store db_content s"
proof -
  from valid_holds [OF assms(1)] obtain lm where v: "fj_holds (db_content (fs_db s)) s lm (fjall_store db_content s)"
    "log_meta_of (so_count (fjall_store db_content s)) lm" "store_fits (fjall_store db_content s)" by blast
  have h: "fj_holds (db_content (fs_db (s\<lparr>fs_db := d\<rparr>))) (s\<lparr>fs_db := d\<rparr>) lm (fjall_store db_content s)"
    using v(1) assms(3) by (simp add: fj_holds_def)
  show "fjall_valid db_ok db_content (s\<lparr>fs_db := d\<rparr>)" using assms(2) h v(2,3) by (auto simp: fjall_valid_def)
  show "fjall_store db_content (s\<lparr>fs_db := d\<rparr>) = fjall_store db_content s"
    unfolding fjall_store_def [of _ "s\<lparr>fs_db := d\<rparr>"] by (rule fj_content_holds [OF h v(2,3)])
qed

text \<open>Reopening the database and reloading the log gives the log back.\<close>

lemma reopen_log:
  assumes inv: "log_inv (fjall_valid db_ok db_content) (fjall_store db_content) L items"
    and hs: "hash_map hashers = (\<lambda>a. map_option av_hasher (map_of (lg_algs L) a))"
  defines "s \<equiv> lg_storage L"
  shows "\<exists>s' L'. with_keyspaces DB (fs_db s) (fs_leaves s) (fs_nodes s) (fs_metadata s) = Inr s'
    \<and> from_storage_with_config (fjall_ops DB) s' hashers (lg_arity L) = Inr L' \<and> same_log (L\<lparr>lg_storage := s'\<rparr>) L'"
proof -
  note v = log_invD(1) [OF inv, folded s_def]
  then have "db_ok (fs_db s)" by (simp add: fjall_valid_def)
  then obtain d where d: "with_keyspaces DB (fs_db s) (fs_leaves s) (fs_nodes s) (fs_metadata s)
      = Inr \<lparr>fs_db = d, fs_leaves = fs_leaves s, fs_nodes = fs_nodes s, fs_metadata = fs_metadata s\<rparr>"
    "db_ok d" "db_content d = db_content (fs_db s)" using with_keyspaces_ok by blast
  let ?s = "s\<lparr>fs_db := d\<rparr>"
  have eq: "\<lparr>fs_db = d, fs_leaves = fs_leaves s, fs_nodes = fs_nodes s, fs_metadata = fs_metadata s\<rparr> = ?s" by simp
  note same = same_content [OF v d(2)] d(3)
  have "log_inv (fjall_valid db_ok db_content) (fjall_store db_content) (L\<lparr>lg_storage := ?s\<rparr>) items"
    using inv same unfolding log_inv_def by (simp add: s_def)
  from fjall_store.reload [OF this] hs obtain L' where "from_storage_with_config (fjall_ops DB) ?s hashers (lg_arity L) = Inr L'"
    "same_log (L\<lparr>lg_storage := ?s\<rparr>) L'" by auto
  then show ?thesis using d(1) eq by metis
qed

end

section \<open>Isolation and batches\<close>

lemma op_puts_names:
  "(ks, key, val) \<in> set (op_puts s op) \<Longrightarrow> ks \<in> {fs_leaves s, fs_nodes s, fs_metadata s}"
  by (cases op) (auto simp: node_puts_def meta_put_def)

lemma db_puts_other:
  "(\<And>ks' key val. (ks', key, val) \<in> set batch \<Longrightarrow> ks' \<noteq> ks) \<Longrightarrow> fold db_put batch c ks = c ks"
proof (induction batch arbitrary: c)
  case (Cons put batch)
  obtain ks' key val where put: "put = (ks', key, val)" by (metis surj_pair)
  have "db_put put c ks = c ks" using Cons.prems [of ks' key val] by (auto simp: db_put_def put)
  moreover have "fold db_put batch (db_put put c) ks = db_put put c ks"
    by (rule Cons.IH) (rule Cons.prems [OF list.set_intros(2)])
  ultimately show ?case by simp
qed simp

lemma scoped_names:
  assumes "with_database_scoped DB d prefix = Inr s"
  shows "fs_leaves s = prefix @ ''_eml_leaves''" "fs_nodes s = prefix @ ''_eml_nodes''"
    "fs_metadata s = prefix @ ''_eml_metadata''"
    "with_database_scoped DB d' prefix = with_keyspaces DB d' (fs_leaves s) (fs_nodes s) (fs_metadata s)"
  using assms by (auto simp: with_database_scoped_def with_keyspaces_def Let_def bindE_Inr_iff split: if_splits)

lemma scoped_distinct: "distinct [p @ ''_eml_leaves'', p @ ''_eml_nodes'', p @ ''_eml_metadata'']"
  by simp

lemma scoped_disjoint:
  assumes "p \<noteq> q"
  shows "{p @ ''_eml_leaves'', p @ ''_eml_nodes'', p @ ''_eml_metadata''}
    \<inter> {q @ ''_eml_leaves'', q @ ''_eml_nodes'', q @ ''_eml_metadata''} = {}"
proof -
  have suffix: "xs \<noteq> ys" if "take 3 (rev xs) \<noteq> take 3 (rev ys)" for xs ys :: string using that by auto
  have "p @ ''_eml_leaves'' \<noteq> q @ ''_eml_nodes''" "p @ ''_eml_leaves'' \<noteq> q @ ''_eml_metadata''"
    "p @ ''_eml_nodes'' \<noteq> q @ ''_eml_leaves''" "p @ ''_eml_nodes'' \<noteq> q @ ''_eml_metadata''"
    "p @ ''_eml_metadata'' \<noteq> q @ ''_eml_leaves''" "p @ ''_eml_metadata'' \<noteq> q @ ''_eml_nodes''"
    by (rule suffix, simp)+
  then show ?thesis using assms by simp
qed

context fjall_database begin

lemma apply_other_keyspaces:
  assumes "db_ok (fs_db s)" "fj_apply DB s ops = Inr s'" "ks \<notin> {fs_leaves s, fs_nodes s, fs_metadata s}"
  shows "db_ok (fs_db s')" "db_content (fs_db s') ks = db_content (fs_db s) ks"
proof -
  obtain n where c: "fj_commit DB (fs_db s) (concat (map (op_puts s) ops) @ [(fs_metadata s, log_meta_key, be_bytes 8 n)])
      = Inr (fs_db s')"
    using assms(2) by (auto simp: fj_apply_def bindE_Inr_iff Let_def)
  from commit [OF assms(1)] c have d: "db_ok (fs_db s')" "db_content (fs_db s')
      = fold db_put (concat (map (op_puts s) ops) @ [(fs_metadata s, log_meta_key, be_bytes 8 n)]) (db_content (fs_db s))"
    by (metis sum.inject(2))+
  show "db_ok (fs_db s')" by (rule d)
  show "db_content (fs_db s') ks = db_content (fs_db s) ks"
    unfolding d(2) by (rule db_puts_other) (use assms(3) op_puts_names in fastforce)
qed

lemma apply_refused:
  assumes "fjall_valid db_ok db_content s" "op_fits (fjall_store db_content s) op"
    and "fjall_step op (fjall_store db_content s) = None"
  shows "\<exists>r. fj_apply DB s [op] = Inl (FjallInvalid r)"
proof -
  from valid_holds [OF assms(1)] obtain lm where v: "db_ok (fs_db s)"
    "fj_holds (db_content (fs_db s)) s lm (fjall_store db_content s)"
    "log_meta_of (so_count (fjall_store db_content s)) lm" "store_fits (fjall_store db_content s)" by blast
  note known = fj_known_holds [OF v(1,2)]
  have "\<exists>r. fj_validate DB s (so_count (fjall_store db_content s)) [op] = Inl (FjallInvalid r)"
    using assms(2,3) known by (cases op) (auto split: if_splits)
  then show ?thesis using fj_count_holds [OF v] by (auto simp: fj_apply_def)
qed

text \<open>A leaf at a position that is not stored is not found.\<close>

lemma leaf_missing:
  assumes "fjall_valid db_ok db_content s" "length (so_leaves (fjall_store db_content s)) \<le> i" "i < u64_limit"
  shows "fj_get_leaf DB s i = Inl (Io i)"
proof -
  from valid_holds [OF assms(1)] obtain lm where v: "db_ok (fs_db s)"
    "fj_holds (db_content (fs_db s)) s lm (fjall_store db_content s)" by blast
  have "leaf_entries (so_leaves (fjall_store db_content s)) (be_bytes 8 i) = None"
    using assms(2,3) by (simp add: leaf_entries_def be_value_be_bytes u64_bytes)
  then show ?thesis using get [OF v(1)] v(2) by (simp add: fj_get_leaf_def fj_holds_def)
qed

lemma apply_accepted:
  assumes "fjall_valid db_ok db_content s"
    and "fj_validate DB s (so_count (fjall_store db_content s)) ops = Inr ()"
  shows "\<exists>s'. fj_apply DB s ops = Inr s'"
proof -
  from valid_holds [OF assms(1)] obtain lm where v: "db_ok (fs_db s)"
    "fj_holds (db_content (fs_db s)) s lm (fjall_store db_content s)"
    "log_meta_of (so_count (fjall_store db_content s)) lm" "store_fits (fjall_store db_content s)" by blast
  show ?thesis using fj_count_holds [OF v] assms(2) commit [OF v(1)]
    by (simp add: fj_apply_def Let_def) (metis bindE_simps(2) map_err_simps(2))
qed

end

context fjall_database begin

lemma refines:
  assumes v: "fjall_valid db_ok db_content s" and f: "op_fits (fjall_store db_content s) op"
  shows "fj_append_count DB s = Inr (so_count (fjall_store db_content s))
    \<and> fj_len DB s = Inr (length (so_leaves (fjall_store db_content s)))
    \<and> (\<forall>i < u64_limit. fj_get_leaf DB s i =
        (if i < length (so_leaves (fjall_store db_content s)) then Inr (so_leaves (fjall_store db_content s) ! i) else Inl (Io i)))
    \<and> (\<forall>a l t. key_fits a l t \<longrightarrow> fj_get_node DB s a l t = Inr (so_nodes (fjall_store db_content s) (a, l, t)))
    \<and> (\<exists>ms. fj_load_algorithm_metas DB s = Inr ms \<and> distinct (map fst ms) \<and> map_of ms = so_metas (fjall_store db_content s))
    \<and> (case fjall_step op (fjall_store db_content s) of
         Some st \<Rightarrow> \<exists>s'. fj_apply DB s [op] = Inr s' \<and> fjall_valid db_ok db_content s' \<and> fjall_store db_content s' = st
       | None \<Rightarrow> \<exists>r. fj_apply DB s [op] = Inl (FjallInvalid r))
    \<and> ((\<forall>n seeds. op \<noteq> SeedFrontier n seeds) \<or> abs_step op (fjall_store db_content s) \<noteq> None \<longrightarrow>
         fjall_step op (fjall_store db_content s) = abs_step op (fjall_store db_content s))"
proof (intro conjI)
  let ?st = "fjall_store db_content s"
  show "fj_append_count DB s = Inr (so_count ?st)"
    using fjall_store.get_count [OF v] by (simp add: fjall_ops_def)
  show "fj_len DB s = Inr (length (so_leaves ?st))"
    using fjall_store.get_len [OF v] by (simp add: fjall_ops_def)
  show "\<forall>i < u64_limit. fj_get_leaf DB s i = (if i < length (so_leaves ?st) then Inr (so_leaves ?st ! i) else Inl (Io i))"
    using fjall_store.get_leaf [OF v] leaf_missing [OF v] by (simp add: fjall_ops_def)
  show "\<forall>a l t. key_fits a l t \<longrightarrow> fj_get_node DB s a l t = Inr (so_nodes ?st (a, l, t))"
  proof (intro allI impI)
    fix a l t assume "key_fits a l t"
    then show "fj_get_node DB s a l t = Inr (so_nodes ?st (a, l, t))"
      using fjall_store.get_node [OF v, of a l t] by (simp add: fjall_ops_def)
  qed
  show "\<exists>ms. fj_load_algorithm_metas DB s = Inr ms \<and> distinct (map fst ms) \<and> map_of ms = so_metas ?st"
    using fjall_store.get_metas [OF v] by (auto simp: fjall_ops_def)
  from v obtain lm where h: "db_ok (fs_db s)" "fj_holds (db_content (fs_db s)) s lm ?st"
    "log_meta_of (so_count ?st) lm" "store_fits ?st" by (rule valid_holds)
  show "case fjall_step op ?st of
         Some st \<Rightarrow> \<exists>s'. fj_apply DB s [op] = Inr s' \<and> fjall_valid db_ok db_content s' \<and> fjall_store db_content s' = st
       | None \<Rightarrow> \<exists>r. fj_apply DB s [op] = Inl (FjallInvalid r)"
    using fj_apply_step [OF h f] apply_refused [OF v f] by (auto split: option.splits)
  show "(\<forall>n seeds. op \<noteq> SeedFrontier n seeds) \<or> abs_step op ?st \<noteq> None \<longrightarrow> fjall_step op ?st = abs_step op ?st"
    by (cases op) (auto split: if_splits)
qed

lemma log_reopens:
  assumes d: "db_ok d" and s: "with_database_scoped DB d prefix = Inr s"
    and e: "\<forall>ks \<in> {fs_leaves s, fs_nodes s, fs_metadata s}. db_content d ks = Map.empty"
    and L: "reachable_log (fjall_ops DB) s k L items"
    and hs: "hash_map hashers = (\<lambda>a. map_option av_hasher (map_of (lg_algs L) a))"
  shows "log_inv (fjall_valid db_ok db_content) (fjall_store db_content) L items
    \<and> (\<exists>s' L'. with_database_scoped DB (fs_db (lg_storage L)) prefix = Inr s'
         \<and> from_storage_with_config (fjall_ops DB) s' hashers (lg_arity L) = Inr L'
         \<and> same_log (L\<lparr>lg_storage := s'\<rparr>) L')"
proof
  note names = scoped_names [OF s] and rn = reachable_names [OF L]
  obtain d' where d': "with_keyspaces DB d (fs_leaves s) (fs_nodes s) (fs_metadata s) = Inr \<lparr>fs_db = d',
      fs_leaves = fs_leaves s, fs_nodes = fs_nodes s, fs_metadata = fs_metadata s\<rparr>" "db_ok d'" "db_content d' = db_content d"
    using with_keyspaces_ok [OF d] by blast
  then have "s = \<lparr>fs_db = d', fs_leaves = fs_leaves s, fs_nodes = fs_nodes s, fs_metadata = fs_metadata s\<rparr>"
    using s names(4) [of d] by simp
  then have db: "fs_db s = d'" by (metis fjall_storage.select_convs(1))
  have "distinct [fs_leaves s, fs_nodes s, fs_metadata s]" unfolding names(1-3) by (rule scoped_distinct)
  note fresh = fresh_store [of s, unfolded db, OF d'(2) this, unfolded d'(3), OF e]
  from fjall_store.reachable_inv [OF L fresh]
  show inv: "log_inv (fjall_valid db_ok db_content) (fjall_store db_content) L items" .
  from reopen_log [OF inv hs] show "\<exists>s' L'. with_database_scoped DB (fs_db (lg_storage L)) prefix = Inr s'
      \<and> from_storage_with_config (fjall_ops DB) s' hashers (lg_arity L) = Inr L' \<and> same_log (L\<lparr>lg_storage := s'\<rparr>) L'"
    unfolding names(4) [of "fs_db (lg_storage L)"] using rn by simp
qed

lemma isolated:
  assumes p: "with_database_scoped DB d p = Inr s" and q: "with_database_scoped DB d' q = Inr t0" and "p \<noteq> q"
    and t: "t = t0\<lparr>fs_db := fs_db s1\<rparr>" "fjall_valid db_ok db_content t"
    and s1: "s1 = s\<lparr>fs_db := db1\<rparr>" "fj_apply DB s1 ops = Inr s2"
  shows "fjall_valid db_ok db_content (t\<lparr>fs_db := fs_db s2\<rparr>)
    \<and> fjall_store db_content (t\<lparr>fs_db := fs_db s2\<rparr>) = fjall_store db_content t"
proof -
  have ok: "db_ok (fs_db s1)" using t by (simp add: fjall_valid_def)
  note sn = scoped_names(1-3) [OF p] and tn = scoped_names(1-3) [OF q]
  have "db_ok (fs_db s2)" using apply_other_keyspaces(1) [OF ok s1(2), of "p @ ''x''"] sn s1(1) by simp
  moreover have "db_content (fs_db s2) ks = db_content (fs_db t) ks"
    if ks: "ks \<in> {fs_leaves t, fs_nodes t, fs_metadata t}" for ks
  proof -
    have "ks \<notin> {fs_leaves s1, fs_nodes s1, fs_metadata s1}"
      using ks scoped_disjoint [OF \<open>p \<noteq> q\<close>] unfolding t(1) s1(1) by (auto simp: sn tn)
    then show ?thesis using apply_other_keyspaces(2) [OF ok s1(2)] t(1) by simp
  qed
  ultimately show ?thesis using same_content [OF t(2)] by blast
qed

lemma batch_not_projected:
  assumes v: "fjall_valid db_ok db_content s" and a: "a < u64_limit" "so_metas (fjall_store db_content s) a = None"
  shows "(\<exists>s'. fj_apply DB s [AddAlgorithm a es, AddAlgorithm a es'] = Inr s')
    \<and> abs_apply [AddAlgorithm a es, AddAlgorithm a es'] (fjall_store db_content s) = None
    \<and> fj_apply DB s [AddAlgorithm a es, RemoveAlgorithm a es'] = Inl (FjallInvalid (NotRegistered a))
    \<and> abs_apply [AddAlgorithm a es, RemoveAlgorithm a es'] (fjall_store db_content s) \<noteq> None
    \<and> (\<exists>s'. fj_apply DB s [SeedFrontier n seeds] = Inr s')"
proof -
  from valid_holds [OF v] obtain lm where h: "db_ok (fs_db s)"
    "fj_holds (db_content (fs_db s)) s lm (fjall_store db_content s)"
    "log_meta_of (so_count (fjall_store db_content s)) lm" "store_fits (fjall_store db_content s)" by blast
  have known: "fj_known DB s a = Inr False" using fj_known_holds [OF h(1,2) a(1)] a(2) by simp
  have "\<exists>s'. fj_apply DB s [AddAlgorithm a es, AddAlgorithm a es'] = Inr s'"
    by (rule apply_accepted [OF v]) (simp add: known)
  moreover have "\<exists>s'. fj_apply DB s [SeedFrontier n seeds] = Inr s'"
    by (rule apply_accepted [OF v]) simp
  moreover have "fj_apply DB s [AddAlgorithm a es, RemoveAlgorithm a es'] = Inl (FjallInvalid (NotRegistered a))"
    using fj_count_holds [OF h] by (simp add: fj_apply_def known)
  ultimately show ?thesis using a(2) by simp
qed

end

section \<open>Properties\<close>

definition map_handle :: "string \<Rightarrow> map_database \<Rightarrow> map_database fjall_storage" where
  "map_handle prefix d = \<lparr>fs_db = d, fs_leaves = prefix @ ''_eml_leaves'', fs_nodes = prefix @ ''_eml_nodes'',
     fs_metadata = prefix @ ''_eml_metadata''\<rparr>"

lemma map_scoped: "with_database_scoped map_fjall d ''a'' = Inr (map_handle ''a'' d)"
  "with_database_scoped map_fjall d ''b'' = Inr (map_handle ''b'' d)"
  by (simp_all add: with_database_scoped_def with_keyspaces_def map_fjall_def map_handle_def prefix_char_def Let_def)

lemma map_fresh: "fjall_valid map_ok map_content (map_handle p (\<lambda>_. []))"
  "fjall_store map_content (map_handle p (\<lambda>_. [])) = empty_store"
  by (rule map_db.fresh_store; simp add: map_handle_def map_ok_def map_content_def bt_keys_def fun_eq_iff)+

text \<open>
  C14. The database backend implements the storage contract on what the log issues: over a database
  that keeps its documented promises, a valid handle answers count, length, leaves, nodes and
  timelines of the store it holds, and a position without a leaf with an error; an admissible
  operation is committed and leads to a valid handle of the next store; any other is refused, but
  for a seeding, which is never refused: it is written over what the store holds.
\<close>

theorem fjall_refines_store:
  assumes "fjall_database DB db_ok db_content" "fjall_valid db_ok db_content s"
    and "op_fits (fjall_store db_content s) op"
  shows "fj_append_count DB s = Inr (so_count (fjall_store db_content s))
    \<and> fj_len DB s = Inr (length (so_leaves (fjall_store db_content s)))
    \<and> (\<forall>i < u64_limit. fj_get_leaf DB s i =
        (if i < length (so_leaves (fjall_store db_content s)) then Inr (so_leaves (fjall_store db_content s) ! i) else Inl (Io i)))
    \<and> (\<forall>a l t. key_fits a l t \<longrightarrow> fj_get_node DB s a l t = Inr (so_nodes (fjall_store db_content s) (a, l, t)))
    \<and> (\<exists>ms. fj_load_algorithm_metas DB s = Inr ms \<and> distinct (map fst ms) \<and> map_of ms = so_metas (fjall_store db_content s))
    \<and> (case fjall_step op (fjall_store db_content s) of
         Some st \<Rightarrow> \<exists>s'. fj_apply DB s [op] = Inr s' \<and> fjall_valid db_ok db_content s' \<and> fjall_store db_content s' = st
       | None \<Rightarrow> \<exists>r. fj_apply DB s [op] = Inl (FjallInvalid r))
    \<and> ((\<forall>n seeds. op \<noteq> SeedFrontier n seeds) \<or> abs_step op (fjall_store db_content s) \<noteq> None \<longrightarrow>
         fjall_step op (fjall_store db_content s) = abs_step op (fjall_store db_content s))"
  by (rule fjall_database.refines [OF assms])

theorem fjall_refines_store_witness:
  "\<exists>s'. fj_apply map_fjall (map_handle ''a'' (\<lambda>_. [])) [AddAlgorithm 1 [(0, u64_max)]] = Inr s'
    \<and> fjall_store map_content s' = empty_store\<lparr>so_metas := [1 \<mapsto> [(0, u64_max)]]\<rparr>"
proof -
  have "op_fits (fjall_store map_content (map_handle ''a'' (\<lambda>_. []))) (AddAlgorithm 1 [(0, u64_max)])"
    using one_fits by (simp add: map_fresh empty_store_def epochs_valid_def)
  from fjall_refines_store [OF map_db.fjall_database_axioms map_fresh(1) this] show ?thesis
    by (auto simp: map_fresh empty_store_def)
qed

text \<open>
  C15. A log over the database: whatever log is reached from fresh keyspaces keeps the invariant of
  the log, and after the database is opened again under the same prefix, loading the log gives the
  same views, count, arity and kind.
\<close>

theorem fjall_log_reopens:
  assumes "fjall_database DB db_ok db_content" "db_ok d" "with_database_scoped DB d prefix = Inr s"
    and "\<forall>ks \<in> {fs_leaves s, fs_nodes s, fs_metadata s}. db_content d ks = Map.empty"
    and "reachable_log (fjall_ops DB) s k L items"
    and "hash_map hashers = (\<lambda>a. map_option av_hasher (map_of (lg_algs L) a))"
  shows "log_inv (fjall_valid db_ok db_content) (fjall_store db_content) L items
    \<and> (\<exists>s' L'. with_database_scoped DB (fs_db (lg_storage L)) prefix = Inr s'
         \<and> from_storage_with_config (fjall_ops DB) s' hashers (lg_arity L) = Inr L'
         \<and> same_log (L\<lparr>lg_storage := s'\<rparr>) L')"
  by (rule fjall_database.log_reopens [OF assms])

theorem fjall_log_reopens_witness:
  "\<exists>L s' L'. reachable_log (fjall_ops map_fjall) (map_handle ''a'' (\<lambda>_. [])) 2 L [LeafItem [1]]
    \<and> with_database_scoped map_fjall (fs_db (lg_storage L)) ''a'' = Inr s'
    \<and> from_storage_with_config (fjall_ops map_fjall) s' [(0, tagged_hasher)] (lg_arity L) = Inr L' \<and> lg_count L' = 1"
proof -
  obtain L where L: "reachable_log (fjall_ops map_fjall) (map_handle ''a'' (\<lambda>_. [])) 2 L [LeafItem [1]]" "lg_count L = 1"
    "hash_map [(0, tagged_hasher)] = (\<lambda>a. map_option av_hasher (map_of (lg_algs L) a))"
    using map_db.fjall_store.one_leaf_log [OF map_fresh] by blast
  from fjall_log_reopens [OF map_db.fjall_database_axioms _ map_scoped(1) _ L(1,3)] L(2) show ?thesis
    by (auto simp: map_ok_def map_content_def bt_keys_def same_log_def intro: L(1))
qed

text \<open>
  Logs under different prefixes share one database without touching each other: whatever batch
  is applied through one handle, committed or not a log's own, a valid handle of another prefix
  still is valid and holds the same store.
\<close>

theorem fjall_prefixes_isolated:
  assumes "fjall_database DB db_ok db_content" "with_database_scoped DB d p = Inr s"
    and "with_database_scoped DB d' q = Inr t0" "p \<noteq> q"
    and "t = t0\<lparr>fs_db := fs_db s1\<rparr>" "fjall_valid db_ok db_content t"
    and "s1 = s\<lparr>fs_db := db1\<rparr>" "fj_apply DB s1 ops = Inr s2"
  shows "fjall_valid db_ok db_content (t\<lparr>fs_db := fs_db s2\<rparr>)
    \<and> fjall_store db_content (t\<lparr>fs_db := fs_db s2\<rparr>) = fjall_store db_content t"
  by (rule fjall_database.isolated [OF assms])

theorem fjall_prefixes_isolated_witness:
  "\<exists>s2. fj_apply map_fjall (map_handle ''a'' (\<lambda>_. [])) [AppendLeaf 0 [5] []] = Inr s2
    \<and> fjall_store map_content (map_handle ''b'' (fs_db s2)) = empty_store"
proof -
  let ?e = "\<lambda>_. [] :: (bytes \<times> bytes) list"
  have "fj_validate map_fjall (map_handle ''a'' ?e) (so_count (fjall_store map_content (map_handle ''a'' ?e)))
      [AppendLeaf 0 [5] []] = Inr ()" by (simp add: map_fresh empty_store_def)
  from map_db.apply_accepted [OF map_fresh(1) this] obtain s2
    where s2: "fj_apply map_fjall (map_handle ''a'' ?e) [AppendLeaf 0 [5] []] = Inr s2" by blast
  have h: "map_handle ''b'' ?e = (map_handle ''b'' ?e)\<lparr>fs_db := fs_db (map_handle ''a'' ?e)\<rparr>"
    "map_handle ''a'' ?e = (map_handle ''a'' ?e)\<lparr>fs_db := ?e\<rparr>"
    by (simp_all add: map_handle_def)
  have "''a'' \<noteq> ''b''" by simp
  from fjall_prefixes_isolated [OF map_db.fjall_database_axioms map_scoped(1) map_scoped(2) this h(1) map_fresh(1) h(2) s2]
  have "fjall_store map_content ((map_handle ''b'' ?e)\<lparr>fs_db := fs_db s2\<rparr>) = empty_store"
    unfolding map_fresh(2) [of "''b''"] by blast
  moreover have "(map_handle ''b'' ?e)\<lparr>fs_db := fs_db s2\<rparr> = map_handle ''b'' (fs_db s2)" by (simp add: map_handle_def)
  ultimately show ?thesis using s2 by metis
qed

text \<open>
  Batches are not validated against their own effects: registering one algorithm twice in one
  batch is accepted although the contract refuses it, freezing an algorithm registered earlier in
  the batch is refused although the contract admits it, and a seeding is accepted by any store,
  however many items and algorithms it holds.
\<close>

theorem fjall_batch_not_projected:
  assumes "fjall_database DB db_ok db_content" "fjall_valid db_ok db_content s"
    and "a < u64_limit" "so_metas (fjall_store db_content s) a = None"
  shows "(\<exists>s'. fj_apply DB s [AddAlgorithm a es, AddAlgorithm a es'] = Inr s')
    \<and> abs_apply [AddAlgorithm a es, AddAlgorithm a es'] (fjall_store db_content s) = None
    \<and> fj_apply DB s [AddAlgorithm a es, RemoveAlgorithm a es'] = Inl (FjallInvalid (NotRegistered a))
    \<and> abs_apply [AddAlgorithm a es, RemoveAlgorithm a es'] (fjall_store db_content s) \<noteq> None
    \<and> (\<exists>s'. fj_apply DB s [SeedFrontier n seeds] = Inr s')"
  by (rule fjall_database.batch_not_projected [OF assms])

theorem fjall_batch_not_projected_witness:
  "(\<exists>s'. fj_apply map_fjall (map_handle ''a'' (\<lambda>_. [])) [AddAlgorithm 1 [(0, 1)], AddAlgorithm 1 [(0, 2)]] = Inr s')
    \<and> (\<exists>s'. mem_apply mem_new [AddAlgorithm 1 [(0, 1)], RemoveAlgorithm 1 [(0, 2)]] = Inr s')
    \<and> fj_apply map_fjall (map_handle ''a'' (\<lambda>_. [])) [AddAlgorithm 1 [(0, 1)], RemoveAlgorithm 1 [(0, 2)]]
      = Inl (FjallInvalid (NotRegistered 1))"
proof -
  have "so_metas (fjall_store map_content (map_handle ''a'' (\<lambda>_. []))) 1 = None" by (simp add: map_fresh empty_store_def)
  from fjall_batch_not_projected [OF map_db.fjall_database_axioms map_fresh(1) one_fits this]
  show ?thesis by (simp add: mem_apply_def mem_new_def)
qed

end
