(* ===== verification/Store_Git_Layout.thy ===== *)
theory Store_Git_Layout
  imports Store_Bytes "HOL-Library.Sublist"
begin

text \<open>
  The object layout of the git backend, \<^verbatim>\<open>storage-git/src/layout.rs\<close>: hexadecimal names, the path
  of a key, the encodings of the \<^verbatim>\<open>meta\<close> and \<^verbatim>\<open>epochs\<close> blobs, and the projection of a timeline.
  The paths of the layout are prefix-free: no path is a directory on another one.
\<close>

section \<open>Definitions\<close>

definition hex_digit :: "nat \<Rightarrow> char" where
  "hex_digit n = ''0123456789abcdef'' ! n"

text \<open>\<^verbatim>\<open>{x:0wx}\<close> of a number below \<open>16 ^ w\<close>.\<close>

fun hex_fixed :: "nat \<Rightarrow> nat \<Rightarrow> string" where
  "hex_fixed 0 n = []"
| "hex_fixed (Suc w) n = hex_fixed w (n div 16) @ [hex_digit (n mod 16)]"

definition hex16 :: "u64 \<Rightarrow> string" where
  "hex16 n = hex_fixed 16 n"

text \<open>\<open>None\<close> is the failed assertion.\<close>

definition hex2 :: "u64 \<Rightarrow> string option" where
  "hex2 n = (if n \<le> 255 then Some (hex_fixed 2 n) else None)"

text \<open>The value of a digit as \<^verbatim>\<open>from_str_radix\<close> reads it, of both cases.\<close>

definition hex_val :: "char \<Rightarrow> nat" where
  "hex_val c = (let n = of_char c in if n \<le> 57 then n - 48 else if n \<le> 70 then n - 55 else n - 87)"

definition is_ascii_hexdigit :: "char \<Rightarrow> bool" where
  "is_ascii_hexdigit c \<longleftrightarrow>
     (let n = (of_char c :: nat) in 48 \<le> n \<and> n \<le> 57 \<or> 65 \<le> n \<and> n \<le> 70 \<or> 97 \<le> n \<and> n \<le> 102)"

definition parse_hex16 :: "string \<Rightarrow> u64 option" where
  "parse_hex16 name =
     (if length name \<noteq> 16 \<or> \<not> list_all is_ascii_hexdigit name then None
      else Some (foldl (\<lambda>n c. n * 16 + hex_val c) 0 name))"

text \<open>The number of significant bytes is at most 8, one decimal digit.\<close>

definition trimmed_key_segments :: "u64 \<Rightarrow> string list" where
  "trimmed_key_segments key =
     (let be = be_bytes 8 key;
          first_nonzero = (let i = length (takeWhile (\<lambda>b. b = 0) be) in if i < 8 then i else 7);
          sig = drop first_nonzero be
      in [hex_digit (length sig)] # map (\<lambda>b. hex_fixed 2 (unat b)) sig)"

definition encode_meta :: "u64 \<Rightarrow> u64 \<Rightarrow> bytes" where
  "encode_meta arity count = be_bytes 2 (arity mod 2 ^ 16) @ be_bytes 8 count"

datatype git_corruption =
    MetaLength nat
  | EpochsLength nat
  | EpochsNameNotHex string
  | NoEpochsEntry alg_id
  | NoEpochsSection
  | EpochsNotCovering alg_id u64
  | TreeWithoutMeta
  | MissingAfterWrite
  | MissingObject bytes

definition decode_meta :: "bytes \<Rightarrow> git_corruption + u64 \<times> u64" where
  "decode_meta bs =
     (if length bs \<noteq> 10 then Inl (MetaLength (length bs))
      else Inr (be_value (take 2 bs), be_value (drop 2 bs)))"

definition decode_epochs :: "bytes \<Rightarrow> git_corruption + epochs" where
  "decode_epochs bs =
     (if bs = [] \<or> length bs mod 16 \<noteq> 0 then Inl (EpochsLength (length bs)) else Inr (decode_pairs bs))"

text \<open>The loop with its output vector.\<close>

fun project_epochs :: "epochs \<Rightarrow> u64 \<Rightarrow> epochs \<Rightarrow> epochs" where
  "project_epochs out size' [] = out"
| "project_epochs out size' ((start, end') # es) =
     (if start > size' then out
      else if end' > size' then out @ [(start, u64_max)]
      else project_epochs (out @ [(start, end')]) size' es)"

definition layout_epochs_at :: "epochs \<Rightarrow> u64 \<Rightarrow> epochs option" where
  "layout_epochs_at es size' =
     (let out = project_epochs [] size' es in if out = [] then None else Some out)"

section \<open>Hexadecimal names\<close>

lemma hex_digit_ok: "n < 16 \<Longrightarrow> hex_val (hex_digit n) = n \<and> is_ascii_hexdigit (hex_digit n) \<and> hex_digit n \<noteq> CHR ''/''"
proof -
  have "list_all (\<lambda>n. hex_val (hex_digit n) = n \<and> is_ascii_hexdigit (hex_digit n) \<and> hex_digit n \<noteq> CHR ''/'') [0..<16]"
    by code_simp
  then show "n < 16 \<Longrightarrow> ?thesis" by (simp add: list_all_iff)
qed

lemma hex_digit_inj: "m < 16 \<Longrightarrow> n < 16 \<Longrightarrow> hex_digit m = hex_digit n \<longleftrightarrow> m = n"
  using hex_digit_ok [of m] hex_digit_ok [of n] by metis

lemma length_hex_fixed [simp]: "length (hex_fixed w n) = w"
  by (induction w n rule: hex_fixed.induct) auto

lemma hex_fixed_chars: "list_all (\<lambda>c. is_ascii_hexdigit c \<and> c \<noteq> CHR ''/'') (hex_fixed w n)"
  by (induction w n rule: hex_fixed.induct) (auto simp: hex_digit_ok)

lemma hex_fixed_value: "n < 16 ^ w \<Longrightarrow> foldl (\<lambda>n c. n * 16 + hex_val c) 0 (hex_fixed w n) = n"
proof (induction w n rule: hex_fixed.induct)
  case (2 w n)
  then have "n div 16 < 16 ^ w" by (simp add: less_mult_imp_div_less mult.commute)
  then show ?case using 2(1) by (simp add: hex_digit_ok)
qed simp

lemma hex_fixed_inj: "m < 16 ^ w \<Longrightarrow> n < 16 ^ w \<Longrightarrow> hex_fixed w m = hex_fixed w n \<longleftrightarrow> m = n"
  by (metis hex_fixed_value)

lemma u64_hex: "n < u64_limit \<longleftrightarrow> n < 16 ^ 16"
  by (simp add: u64_limit_def)

lemma hex16_inj: "m < u64_limit \<Longrightarrow> n < u64_limit \<Longrightarrow> hex16 m = hex16 n \<longleftrightarrow> m = n"
  by (simp add: hex16_def hex_fixed_inj u64_hex)

lemma parse_hex16_name: "n < u64_limit \<Longrightarrow> parse_hex16 (hex16 n) = Some n"
proof -
  assume "n < u64_limit"
  moreover have "list_all is_ascii_hexdigit (hex_fixed 16 n)"
    using hex_fixed_chars [of 16 n] by (simp add: list_all_iff)
  ultimately show ?thesis by (simp add: parse_hex16_def hex16_def hex_fixed_value u64_hex)
qed

section \<open>The path of a key\<close>

definition significant :: "u64 \<Rightarrow> bytes" where
  "significant key =
     drop (let i = length (takeWhile (\<lambda>b. b = 0) (be_bytes 8 key)) in if i < 8 then i else 7) (be_bytes 8 key)"

lemma trimmed_significant:
  "trimmed_key_segments key = [hex_digit (length (significant key))] # map (\<lambda>b. hex_fixed 2 (unat b)) (significant key)"
  by (simp add: trimmed_key_segments_def significant_def Let_def)

lemma length_significant: "0 < length (significant key)" "length (significant key) \<le> 8"
  by (auto simp: significant_def Let_def)

lemma be_value_zeros: "list_all (\<lambda>b. b = 0) bs \<Longrightarrow> be_value (bs @ cs) = be_value cs"
  by (induction bs) (auto simp: be_value_Cons)

lemma be_value_significant: "key < u64_limit \<Longrightarrow> be_value (significant key) = key"
proof -
  assume key: "key < u64_limit"
  let ?be = "be_bytes 8 key" and ?i = "length (takeWhile (\<lambda>b. b = 0) (be_bytes 8 key))"
  define j where "j = (if ?i < 8 then ?i else 7)"
  have i: "list_all (\<lambda>b. b = 0) (take n ?be)" if "n \<le> ?i" for n
  proof -
    have "take n ?be = take n (takeWhile (\<lambda>b. b = 0) ?be)"
      using that by (metis (no_types, lifting) append_Nil2 diff_is_0_eq take0 take_append takeWhile_dropWhile_id)
    then show ?thesis by (auto simp: list_all_iff dest: in_set_takeD set_takeWhileD)
  qed
  have "list_all (\<lambda>b. b = 0) (take j ?be)" by (rule i) (auto simp: j_def)
  then have "be_value (take j ?be @ drop j ?be) = be_value (drop j ?be)" by (rule be_value_zeros)
  then show ?thesis using key by (simp add: significant_def Let_def j_def [symmetric] be_value_be_bytes u64_bytes)
qed

lemma trimmed_prefix:
  assumes "m < u64_limit" "n < u64_limit" "prefix (trimmed_key_segments m) (trimmed_key_segments n)"
  shows "m = n"
proof -
  have len: "length (significant m) = length (significant n)"
    using assms(3) length_significant [of m] length_significant [of n]
    by (simp add: trimmed_significant hex_digit_inj)
  then have "length (trimmed_key_segments m) = length (trimmed_key_segments n)" by (simp add: trimmed_significant)
  then have "trimmed_key_segments m = trimmed_key_segments n"
    using assms(3) by (metis append_eq_append_conv append_Nil2 prefixE)
  then have eq: "map (\<lambda>b. hex_fixed 2 (unat b)) (significant m) = map (\<lambda>b. hex_fixed 2 (unat b)) (significant n)"
    by (simp add: trimmed_significant)
  have "inj (\<lambda>b :: u8. hex_fixed 2 (unat b))"
  proof (rule injI)
    fix b c :: u8 assume h: "hex_fixed 2 (unat b) = hex_fixed 2 (unat c)"
    have "unat b < 2 ^ LENGTH(8)" "unat c < 2 ^ LENGTH(8)" by (rule unsigned_less)+
    then have "unat b < 16 ^ 2" "unat c < 16 ^ 2" by simp_all
    with h have "unat b = unat c" by (simp only: hex_fixed_inj)
    then show "b = c" by (simp add: word_unat_eq_iff)
  qed
  then have "significant m = significant n" using eq by (simp add: inj_map_eq_map)
  then have "be_value (significant m) = be_value (significant n)" by (rule arg_cong)
  then show ?thesis unfolding be_value_significant [OF assms(1)] be_value_significant [OF assms(2)] .
qed

text \<open>A name of a path: not empty and without a slash.\<close>

definition segment_ok :: "string \<Rightarrow> bool" where
  "segment_ok seg \<longleftrightarrow> seg \<noteq> [] \<and> CHR ''/'' \<notin> set seg"

lemma hex_segment: "0 < w \<Longrightarrow> segment_ok (hex_fixed w n)"
  using hex_fixed_chars [of w n] by (auto simp: segment_ok_def list_all_iff simp flip: length_0_conv)

lemma trimmed_segments: "list_all segment_ok (trimmed_key_segments key)"
proof -
  have "length (significant key) < 16" using length_significant(2) [of key] by linarith
  then show ?thesis
    using hex_digit_ok [of "length (significant key)"]
    by (auto simp: trimmed_significant list_all_iff hex_segment) (auto simp: segment_ok_def)
qed

section \<open>Blobs\<close>

lemma decode_encode_meta:
  "arity < 2 ^ 16 \<Longrightarrow> count < u64_limit \<Longrightarrow> decode_meta (encode_meta arity count) = Inr (arity, count)"
  by (simp add: decode_meta_def encode_meta_def be_value_be_bytes u64_bytes)

lemma decode_epochs_encode: "epochs_fit es \<Longrightarrow> es \<noteq> [] \<Longrightarrow> decode_epochs (encode_epochs es) = Inr es"
  using length_encode_epochs [of es] by (auto simp: decode_epochs_def decode_encode_epochs)

lemma project_epochs_eq: "project_epochs out n es = out @ epochs_at_loop n es"
  by (induction out n es rule: project_epochs.induct) auto

lemma layout_epochs_at_eq: "layout_epochs_at (av_epochs v) n = epochs_at v n"
  by (simp add: layout_epochs_at_def epochs_at_def project_epochs_eq)

lemma epochs_valid_grows: "epochs_valid m es \<Longrightarrow> m \<le> n \<Longrightarrow> epochs_valid n es"
  by (fastforce simp: epochs_valid_def split: prod.splits if_splits)

text \<open>The timeline of a growing log is written as it is.\<close>

lemma layout_epochs_at_valid:
  assumes "epochs_valid n es" "n < u64_max"
  shows "layout_epochs_at es n = Some es"
proof -
  have "epochs_at_loop n es = es"
    if "epochs_sorted b es" "\<forall>(s, e) \<in> set (butlast es). e \<noteq> u64_max \<and> e \<le> n"
      "es \<noteq> [] \<Longrightarrow> case last es of (s, e) \<Rightarrow> if e = u64_max then s \<le> n else e \<le> n" for b es
    using that assms(2) by (induction b es rule: epochs_sorted.induct) (auto split: if_splits)
  from this [of 0 es] assms(1) show ?thesis
    by (auto simp: epochs_valid_def layout_epochs_at_def project_epochs_eq split: prod.splits)
qed

end
