(* ===== verification/Store_Git_Objects.thy ===== *)
theory Store_Git_Objects
  imports Store_Git_Layout
begin

text \<open>
  The object database below the git backend.  The \<^verbatim>\<open>gix\<close> package is a parameter: a record of the calls
  the backend makes, and the locale \<open>git_objects\<close> with what is promised of them for a repository
  that works and whose object hash has no collisions.  On top of it stand the helpers of
  \<^verbatim>\<open>storage-git/src/gitutil.rs\<close>.
\<close>

section \<open>The calls\<close>

type_synonym oid = bytes

datatype git_kind = BlobKind | TreeKind

record git_entry =
  ge_name :: string
  ge_oid :: oid
  ge_tree :: bool

datatype ref_target = ObjectTarget oid | SymbolicTarget string

record git_ref =
  gr_name :: string
  gr_target :: ref_target

datatype previous_value = AnyValue | MustNotExist | MustExistAndMatch oid

datatype ref_change = UpdateRef previous_value oid | DeleteRef previous_value

text \<open>The ways a reference edit ends; the first three errors compared a value.\<close>

datatype 'm edit_error =
    PrepareReferenceOutOfDate
  | PrepareMustNotExist
  | PrepareMustExist
  | EditFailed 'm

text \<open>The errors of \<^verbatim>\<open>storage-git/src/error.rs\<close>; \<open>GitStuck\<close> is a call that panics or does not return.\<close>

datatype 'm git_error =
    Git 'm
  | Corruption git_corruption
  | NotFound u64
  | TipMoved "oid option" "oid option"
  | InvalidRef string
  | InvalidArity u64
  | RefUpdateTransient "'m edit_error"
  | GitInvalid invalid_reason
  | SyncFailed 'm
  | SyncVanished oid
  | NoDurableState 'm
  | GitStuck

datatype ref_category =
    TagRef | LocalBranch | RemoteBranch | NoteRef
  | PseudoRef | BisectRef | RewrittenRef | WorktreePrivate
  | MainRef | MainPseudoRef | LinkedRef | LinkedPseudoRef

text \<open>A file path as its components; what syncing a file or directory reports.\<close>

type_synonym file_path = "string list"

datatype 'm sync_outcome = SyncDone | SyncNoFile | SyncError 'm

text \<open>
  \<open>'r\<close> is the repository with its clock, \<open>'ed\<close> a tree editor, \<open>'m\<close> an error message.  \<open>gx_write\<close> is the
  editor's write, which calls back for every tree it has to store; \<open>gx_fsync\<close> opens and syncs one path.
\<close>

record ('r, 'ed, 'm) gix =
  gx_hash :: "'r \<Rightarrow> git_kind \<Rightarrow> bytes \<Rightarrow> 'm + oid"
  gx_write_buf :: "'r \<Rightarrow> git_kind \<Rightarrow> bytes \<Rightarrow> oid \<Rightarrow> 'm + 'r"
  gx_exists :: "'r \<Rightarrow> oid \<Rightarrow> bool"
  gx_find_tree :: "'r \<Rightarrow> oid \<Rightarrow> 'm + git_entry list"
  gx_find_blob :: "'r \<Rightarrow> oid \<Rightarrow> 'm + bytes"
  gx_tree_bytes :: "git_entry list \<Rightarrow> 'm + bytes"
  gx_edit :: "'r \<Rightarrow> oid option \<Rightarrow> 'm + 'ed"
  gx_remove :: "'r \<Rightarrow> 'ed \<Rightarrow> string \<Rightarrow> 'm + 'ed"
  gx_upsert :: "'r \<Rightarrow> 'ed \<Rightarrow> string \<Rightarrow> oid \<Rightarrow> 'm + 'ed"
  gx_write :: "'r \<Rightarrow> 'ed \<Rightarrow> ('r \<Rightarrow> git_entry list \<Rightarrow> 'm git_error + 'r \<times> oid) \<Rightarrow> 'm git_error + 'r \<times> oid"
  gx_find_ref :: "'r \<Rightarrow> string \<Rightarrow> 'm + git_ref option"
  gx_peel :: "'r \<Rightarrow> git_ref \<Rightarrow> 'm + oid"
  gx_list_refs :: "'r \<Rightarrow> string \<Rightarrow> 'm + ('m + git_ref) list"
  gx_edit_ref :: "'r \<Rightarrow> string \<Rightarrow> ref_change \<Rightarrow> 'r \<times> ('m edit_error + unit)"
  gx_now :: "'r \<Rightarrow> nat"
  gx_sleep :: "'r \<Rightarrow> nat \<Rightarrow> 'r"
  gx_fsync :: "'r \<Rightarrow> file_path \<Rightarrow> 'r \<times> 'm sync_outcome"
  gx_valid_ref :: "string \<Rightarrow> bool"
  gx_category :: "string \<Rightarrow> ref_category option"
  gx_namespace :: "string option"
  gx_common_dir :: file_path
  gx_git_dir :: file_path
  gx_objects_dir :: file_path
  gx_hex :: "oid \<Rightarrow> string"

section \<open>The helpers\<close>

definition write_object ::
    "('r, 'ed, 'm) gix \<Rightarrow> 'r \<Rightarrow> git_kind \<Rightarrow> bytes \<Rightarrow> 'm git_error + 'r \<times> oid" where
  "write_object G r kind data =
     bindE (map_err Git (gx_hash G r kind data)) (\<lambda>oid.
     bindE (map_err Git (gx_write_buf G r kind data oid)) (\<lambda>r1.
       if gx_exists G r1 oid then Inr (r1, oid)
       else bindE (map_err Git (gx_write_buf G r1 kind data oid)) (\<lambda>r2.
         if gx_exists G r2 oid then Inr (r2, oid) else Inl (Corruption MissingAfterWrite))))"

definition write_blob :: "('r, 'ed, 'm) gix \<Rightarrow> 'r \<Rightarrow> bytes \<Rightarrow> 'm git_error + 'r \<times> oid" where
  "write_blob G r data = write_object G r BlobKind data"

definition read_tree :: "('r, 'ed, 'm) gix \<Rightarrow> 'r \<Rightarrow> oid \<Rightarrow> 'm git_error + git_entry list" where
  "read_tree G r t = map_err Git (gx_find_tree G r t)"

definition find_entry :: "('r, 'ed, 'm) gix \<Rightarrow> 'r \<Rightarrow> oid \<Rightarrow> string \<Rightarrow> 'm git_error + oid option" where
  "find_entry G r t name =
     bindE (read_tree G r t) (\<lambda>entries. Inr (map_option ge_oid (find (\<lambda>e. ge_name e = name) entries)))"

definition read_blob :: "('r, 'ed, 'm) gix \<Rightarrow> 'r \<Rightarrow> oid \<Rightarrow> 'm git_error + bytes" where
  "read_blob G r b = map_err Git (gx_find_blob G r b)"

fun resolve_at_path :: "('r, 'ed, 'm) gix \<Rightarrow> 'r \<Rightarrow> oid \<Rightarrow> string list \<Rightarrow> 'm git_error + oid option" where
  "resolve_at_path G r t [] = Inr (Some t)"
| "resolve_at_path G r t (seg # segments) =
     bindE (find_entry G r t seg) (\<lambda>found.
       case found of None \<Rightarrow> Inr None | Some next \<Rightarrow> resolve_at_path G r next segments)"

section \<open>What a tree holds\<close>

text \<open>A tree, with its subtrees, maps paths of names to blobs; there are no empty subtrees.\<close>

type_synonym paths = "string list \<Rightarrow> bytes option"

inductive holds :: "('r, 'ed, 'm) gix \<Rightarrow> 'r \<Rightarrow> oid \<Rightarrow> paths \<Rightarrow> bool" for G r where
  tree: "gx_find_tree G r t = Inr es \<Longrightarrow> distinct (map ge_name es) \<Longrightarrow> pm [] = None \<Longrightarrow>
    (\<forall>n p. pm (n # p) \<noteq> None \<longrightarrow> n \<in> ge_name ` set es) \<Longrightarrow>
    (\<forall>e \<in> set es. ge_tree e \<longrightarrow> holds G r (ge_oid e) (\<lambda>p. pm (ge_name e # p)) \<and> (\<exists>p. pm (ge_name e # p) \<noteq> None)) \<Longrightarrow>
    (\<forall>e \<in> set es. \<not> ge_tree e \<longrightarrow>
      (\<exists>data. gx_find_blob G r (ge_oid e) = Inr data \<and> (\<lambda>p. pm (ge_name e # p)) = [[] \<mapsto> data])) \<Longrightarrow>
    holds G r t pm"

text \<open>Objects are only added, references are as they were.\<close>

definition extends :: "('r, 'ed, 'm) gix \<Rightarrow> 'r \<Rightarrow> 'r \<Rightarrow> bool" where
  "extends G r r' \<longleftrightarrow>
     (\<forall>t es. gx_find_tree G r t = Inr es \<longrightarrow> gx_find_tree G r' t = Inr es)
     \<and> (\<forall>b data. gx_find_blob G r b = Inr data \<longrightarrow> gx_find_blob G r' b = Inr data)
     \<and> (\<forall>oid. gx_exists G r oid \<longrightarrow> gx_exists G r' oid)
     \<and> (\<forall>ref t. gx_peel G r ref = Inr t \<longrightarrow> gx_peel G r' ref = Inr t)"

definition same_refs :: "('r, 'ed, 'm) gix \<Rightarrow> 'r \<Rightarrow> 'r \<Rightarrow> bool" where
  "same_refs G r r' \<longleftrightarrow> gx_find_ref G r' = gx_find_ref G r \<and> gx_list_refs G r' = gx_list_refs G r"

fun stored_as :: "('r, 'ed, 'm) gix \<Rightarrow> 'r \<Rightarrow> git_kind \<Rightarrow> bytes \<Rightarrow> oid \<Rightarrow> bool" where
  "stored_as G r BlobKind data oid \<longleftrightarrow> gx_find_blob G r oid = Inr data"
| "stored_as G r TreeKind data oid \<longleftrightarrow> (\<forall>es. gx_tree_bytes G es = Inr data \<longrightarrow> gx_find_tree G r oid = Inr es)"

definition path_text :: "string list \<Rightarrow> string" where
  "path_text segs = concat (map (\<lambda>(i, seg). if i = (0 :: nat) then seg else CHR ''/'' # seg) (enumerate 0 segs))"

text \<open>No path of the map is a directory on the given one, or below it.\<close>

definition path_free :: "paths \<Rightarrow> string list \<Rightarrow> bool" where
  "path_free pm segs \<longleftrightarrow> (\<forall>q. pm q \<noteq> None \<and> (prefix q segs \<or> prefix segs q) \<longrightarrow> q = segs)"

definition without_top :: "string \<Rightarrow> paths \<Rightarrow> paths" where
  "without_top name pm = (\<lambda>p. if p \<noteq> [] \<and> hd p = name then None else pm p)"

text \<open>A callback that stores the trees it is given.\<close>

definition stores_trees ::
    "('r, 'ed, 'm) gix \<Rightarrow> ('r \<Rightarrow> bool) \<Rightarrow> ('r \<Rightarrow> git_entry list \<Rightarrow> 'm git_error + 'r \<times> oid) \<Rightarrow> bool" where
  "stores_trees G ok cb \<longleftrightarrow> (\<forall>r es buf. ok r \<longrightarrow> gx_tree_bytes G es = Inr buf \<longrightarrow>
     (\<exists>r' t. cb r es = Inr (r', t) \<and> ok r' \<and> extends G r r' \<and> same_refs G r r' \<and> gx_find_tree G r' t = Inr es))"

locale git_objects =
  fixes G :: "('r, 'ed, 'm) gix" and ok :: "'r \<Rightarrow> bool" and editing :: "'r \<Rightarrow> 'ed \<Rightarrow> paths \<Rightarrow> bool"
  assumes hash: "ok r \<Longrightarrow> \<exists>oid. gx_hash G r kind data = Inr oid"
    and write_buf: "ok r \<Longrightarrow> gx_hash G r kind data = Inr oid \<Longrightarrow> \<exists>r'. gx_write_buf G r kind data oid = Inr r'
      \<and> ok r' \<and> extends G r r' \<and> same_refs G r r' \<and> gx_exists G r' oid \<and> stored_as G r' kind data oid"
    and edit_tree: "ok r \<Longrightarrow> holds G r t pm \<Longrightarrow> \<exists>ed. gx_edit G r (Some t) = Inr ed \<and> editing r ed pm"
    and edit_empty: "ok r \<Longrightarrow> \<exists>ed. gx_edit G r None = Inr ed \<and> editing r ed Map.empty"
    and editing_extends: "editing r ed pm \<Longrightarrow> extends G r r' \<Longrightarrow> ok r' \<Longrightarrow> editing r' ed pm"
    and remove: "ok r \<Longrightarrow> editing r ed pm \<Longrightarrow> segment_ok name \<Longrightarrow>
      \<exists>ed'. gx_remove G r ed name = Inr ed' \<and> editing r ed' (without_top name pm)"
    and upsert: "ok r \<Longrightarrow> editing r ed pm \<Longrightarrow> gx_find_blob G r oid = Inr data \<Longrightarrow> segs \<noteq> [] \<Longrightarrow>
      list_all segment_ok segs \<Longrightarrow> path_free pm segs \<Longrightarrow>
      \<exists>ed'. gx_upsert G r ed (path_text segs) oid = Inr ed' \<and> editing r ed' (pm(segs \<mapsto> data))"
    and write_tree: "ok r \<Longrightarrow> editing r ed pm \<Longrightarrow> stores_trees G ok cb \<Longrightarrow>
      \<exists>r' t. gx_write G r ed cb = Inr (r', t) \<and> ok r' \<and> extends G r r' \<and> same_refs G r r' \<and> holds G r' t pm"
begin

lemma write_object:
  assumes "ok r"
  shows "\<exists>r' oid. write_object G r kind data = Inr (r', oid) \<and> ok r' \<and> extends G r r' \<and> same_refs G r r'
    \<and> stored_as G r' kind data oid"
proof -
  obtain oid where oid: "gx_hash G r kind data = Inr oid" using hash [OF assms] by blast
  from write_buf [OF assms oid] oid show ?thesis by (auto simp: write_object_def)
qed

lemma write_blob:
  assumes "ok r"
  shows "\<exists>r' oid. write_blob G r data = Inr (r', oid) \<and> ok r' \<and> extends G r r' \<and> same_refs G r r'
    \<and> gx_find_blob G r' oid = Inr data"
  using write_object [OF assms, of BlobKind data] by (simp add: write_blob_def)

end

lemma objects_kept_refl [simp]: "extends G r r"
  by (simp add: extends_def)

lemma objects_kept_trans: "extends G r r' \<Longrightarrow> extends G r' r'' \<Longrightarrow> extends G r r''"
  by (simp add: extends_def)

lemma same_refs_refl [simp]: "same_refs G r r"
  by (simp add: same_refs_def)

lemma same_refs_trans: "same_refs G r r' \<Longrightarrow> same_refs G r' r'' \<Longrightarrow> same_refs G r r''"
  by (simp add: same_refs_def)

lemma holds_extends:
  assumes "holds G r t pm" "extends G r r'"
  shows "holds G r' t pm"
  using assms
proof (induction rule: holds.induct)
  case (tree t es pm)
  show ?case
    by (rule holds.tree [where es = es]) (use tree in \<open>auto simp: extends_def\<close>)
qed

text \<open>An entry is a subtree, or a blob, or missing.\<close>

lemma find_name: "distinct (map ge_name es) \<Longrightarrow> e \<in> set es \<Longrightarrow> find (\<lambda>x. ge_name x = ge_name e) es = Some e"
  by (induction es) (auto simp: image_iff)

lemma holds_entry:
  assumes "holds G r t pm"
  obtains "find_entry G r t name = Inr None" "\<And>p. pm (name # p) = None"
  | c pm' where "find_entry G r t name = Inr (Some c)" "holds G r c pm'" "\<And>p. pm (name # p) = pm' p" "\<exists>p. pm' p \<noteq> None"
  | c data where "find_entry G r t name = Inr (Some c)" "gx_find_blob G r c = Inr data" "\<And>p. pm (name # p) = [[] \<mapsto> data] p"
  using assms
proof (cases rule: holds.cases)
  case (tree es)
  show ?thesis
  proof (cases "name \<in> ge_name ` set es")
    case False
    then have "find (\<lambda>e. ge_name e = name) es = None" by (auto simp: find_None_iff)
    then have "find_entry G r t name = Inr None" using tree(1) by (simp add: find_entry_def read_tree_def)
    moreover have "pm (name # p) = None" for p using tree(4) False by blast
    ultimately show ?thesis by (rule that(1))
  next
    case True
    then obtain e where e: "e \<in> set es" "name = ge_name e" by blast
    have f: "find_entry G r t name = Inr (Some (ge_oid e))"
      using tree(1) find_name [OF tree(2) e(1)] by (simp add: find_entry_def read_tree_def e(2))
    show ?thesis
    proof (cases "ge_tree e")
      case True
      then show ?thesis using tree(5) e f by (intro that(2) [of "ge_oid e" "\<lambda>p. pm (ge_name e # p)"]) auto
    next
      case False
      then obtain data where d: "gx_find_blob G r (ge_oid e) = Inr data" "(\<lambda>p. pm (ge_name e # p)) = [[] \<mapsto> data]"
        using tree(6) e(1) by blast
      have "pm (name # p) = [[] \<mapsto> data] p" for p using fun_cong [OF d(2), of p] by (simp add: e(2))
      with f d(1) show ?thesis by (rule that(3))
    qed
  qed
qed

lemma holds_Nil: "holds G r t pm \<Longrightarrow> pm [] = None"
  by (erule holds.cases) simp

lemma path_free_Cons:
  assumes "path_free pm (seg # segs)" "\<And>p. pm (seg # p) = pm' p"
  shows "path_free pm' segs"
  unfolding path_free_def
proof (intro allI impI)
  fix q assume "pm' q \<noteq> None \<and> (prefix q segs \<or> prefix segs q)"
  then have "pm (seg # q) \<noteq> None \<and> (prefix (seg # q) (seg # segs) \<or> prefix (seg # segs) (seg # q))"
    by (simp add: assms(2))
  then show "q = segs" using assms(1) unfolding path_free_def by blast
qed

lemma holds_resolve:
  assumes "holds G r t pm" "segs \<noteq> []" "path_free pm segs"
  shows "case pm segs of None \<Rightarrow> resolve_at_path G r t segs = Inr None
    | Some data \<Rightarrow> \<exists>b. resolve_at_path G r t segs = Inr (Some b) \<and> gx_find_blob G r b = Inr data"
  using assms
proof (induction segs arbitrary: t pm)
  case (Cons seg segs)
  from Cons.prems(1) show ?case
  proof (cases rule: holds_entry [where name = seg])
    case 1
    then show ?thesis by simp
  next
    case (2 c pm')
    have segs: "segs \<noteq> []"
    proof
      assume "segs = []"
      then have "pm (seg # p) = None" if "p \<noteq> []" for p
        using Cons.prems(3) that by (auto simp: path_free_def)
      then have "pm' p = None" for p using 2(3) holds_Nil [OF 2(2)] by (cases p) auto
      with 2(4) show False by simp
    qed
    have "path_free pm' segs" by (rule path_free_Cons [OF Cons.prems(3) 2(3)])
    from Cons.IH [OF 2(2) segs this] show ?thesis using 2(1,3) by (cases "pm' segs") simp_all
  next
    case (3 c data)
    have "segs = []" using Cons.prems(3) 3(3) [of "[]"] by (auto simp: path_free_def)
    then show ?thesis using 3 by simp
  qed
qed simp

end
