(* ===== verification/Store_Git_Build.thy ===== *)
theory Store_Git_Build
  imports Store_Git_Objects
begin

text \<open>
  Building a checkpoint tree from a batch of write operations (\<^verbatim>\<open>storage-git/src/build.rs\<close>) and the
  reads from one (\<^verbatim>\<open>storage-git/src/read.rs\<close>).  The lemmas relate a tree to the abstract store it
  holds: the paths of the layout are prefix-free, so a write changes one key, and the reads of a
  tree answer from its store.
\<close>

section \<open>Building\<close>

definition node_segments :: "string \<Rightarrow> alg_id \<Rightarrow> u64 \<Rightarrow> string list" where
  "node_segments height2 alg left = [''nodes'', hex16 alg, height2] @ trimmed_key_segments left"

definition node_path :: "alg_id \<Rightarrow> u32 \<Rightarrow> u64 \<Rightarrow> string option" where
  "node_path alg height left = map_option (\<lambda>h. path_text (node_segments h alg left)) (hex2 height)"

definition leaf_segments :: "u64 \<Rightarrow> string list" where
  "leaf_segments index = ''leaves'' # trimmed_key_segments index"

definition leaf_path :: "u64 \<Rightarrow> string" where
  "leaf_path index = path_text (leaf_segments index)"

definition epochs_segments :: "alg_id \<Rightarrow> string list" where
  "epochs_segments alg = [''epochs'', hex16 alg]"

definition epochs_path :: "alg_id \<Rightarrow> string" where
  "epochs_path alg = path_text (epochs_segments alg)"

definition epochs_entry_exists ::
    "('r, 'ed, 'm) gix \<Rightarrow> 'r \<Rightarrow> oid option \<Rightarrow> alg_id \<Rightarrow> 'm git_error + bool" where
  "epochs_entry_exists G r tree alg =
     (case tree of
        None \<Rightarrow> Inr False
      | Some t \<Rightarrow> bindE (find_entry G r t ''epochs'') (\<lambda>found.
          case found of
            None \<Rightarrow> Inr False
          | Some e \<Rightarrow> bindE (find_entry G r e (hex16 alg)) (\<lambda>entry. Inr (entry \<noteq> None))))"

definition entry_alg :: "git_entry \<Rightarrow> 'm git_error + alg_id" where
  "entry_alg e =
     (case parse_hex16 (ge_name e) of
        None \<Rightarrow> Inl (Corruption (EpochsNameNotHex (ge_name e)))
      | Some alg \<Rightarrow> Inr alg)"

definition known_algorithm_ids ::
    "('r, 'ed, 'm) gix \<Rightarrow> 'r \<Rightarrow> oid option \<Rightarrow> 'm git_error + alg_id list" where
  "known_algorithm_ids G r tree =
     (case tree of
        None \<Rightarrow> Inr []
      | Some t \<Rightarrow> bindE (find_entry G r t ''epochs'') (\<lambda>found.
          case found of
            None \<Rightarrow> Inr []
          | Some e \<Rightarrow> bindE (read_tree G r e) (mapE entry_alg)))"

definition read_stored_epochs ::
    "('r, 'ed, 'm) gix \<Rightarrow> 'r \<Rightarrow> oid option \<Rightarrow> alg_id \<Rightarrow> 'm git_error + epochs" where
  "read_stored_epochs G r tree alg =
     (case tree of
        None \<Rightarrow> Inl (Corruption (NoEpochsEntry alg))
      | Some t \<Rightarrow> bindE (find_entry G r t ''epochs'') (\<lambda>found.
          case found of
            None \<Rightarrow> Inl (Corruption NoEpochsSection)
          | Some e \<Rightarrow> bindE (find_entry G r e (hex16 alg)) (\<lambda>blob.
              case blob of
                None \<Rightarrow> Inl (Corruption (NoEpochsEntry alg))
              | Some b \<Rightarrow> bindE (read_blob G r b) (\<lambda>bytes. map_err Corruption (decode_epochs bytes)))))"

text \<open>
  The state of one \<^verbatim>\<open>apply\<close>: the repository, the editor, and what the operations have done so far.
  The two hash collections are a list and a partial function.
\<close>

record ('r, 'ed) git_work =
  gw_repo :: 'r
  gw_editor :: 'ed
  gw_count :: u64
  gw_leaves :: bool
  gw_registered :: "alg_id list"
  gw_overrides :: "alg_id \<Rightarrow> epochs option"

text \<open>A blob written and entered at a path.\<close>

definition git_put ::
    "('r, 'ed, 'm) gix \<Rightarrow> ('r, 'ed) git_work \<Rightarrow> string option \<Rightarrow> bytes \<Rightarrow> 'm git_error + ('r, 'ed) git_work" where
  "git_put G w path data =
     bindE (write_blob G (gw_repo w) data) (\<lambda>(r, blob).
       case path of
         None \<Rightarrow> Inl GitStuck
       | Some p \<Rightarrow> bindE (map_err Git (gx_upsert G r (gw_editor w) p blob)) (\<lambda>ed.
           Inr (w\<lparr>gw_repo := r, gw_editor := ed\<rparr>)))"

fun git_put_nodes ::
    "('r, 'ed, 'm) gix \<Rightarrow> ('r, 'ed) git_work \<Rightarrow> node_write list \<Rightarrow> 'm git_error + ('r, 'ed) git_work" where
  "git_put_nodes G w [] = Inr w"
| "git_put_nodes G w ((alg, left, height, hash) # nodes) =
     bindE (git_put G w (node_path alg height left) hash) (\<lambda>w. git_put_nodes G w nodes)"

definition git_known ::
    "('r, 'ed, 'm) gix \<Rightarrow> oid option \<Rightarrow> ('r, 'ed) git_work \<Rightarrow> alg_id \<Rightarrow> 'm git_error + bool" where
  "git_known G tree w alg =
     (if alg \<in> set (gw_registered w) then Inr True else epochs_entry_exists G (gw_repo w) tree alg)"

definition git_override :: "alg_id \<Rightarrow> epochs \<Rightarrow> ('r, 'ed) git_work \<Rightarrow> ('r, 'ed) git_work" where
  "git_override alg es w = w\<lparr>gw_overrides := (gw_overrides w)(alg \<mapsto> es)\<rparr>"

definition git_register :: "alg_id \<Rightarrow> ('r, 'ed) git_work \<Rightarrow> ('r, 'ed) git_work" where
  "git_register alg w = w\<lparr>gw_registered := List.insert alg (gw_registered w)\<rparr>"

fun git_seeds ::
    "('r, 'ed, 'm) gix \<Rightarrow> oid option \<Rightarrow> ('r, 'ed) git_work \<Rightarrow> algorithm_seed list
      \<Rightarrow> 'm git_error + ('r, 'ed) git_work" where
  "git_seeds G tree w [] = Inr w"
| "git_seeds G tree w (seed # seeds) =
     bindE (git_known G tree w (sd_alg seed)) (\<lambda>known.
       if known then Inl (GitInvalid (AlreadyRegistered (sd_alg seed)))
       else bindE (git_put_nodes G (git_override (sd_alg seed) (sd_epochs seed) w) (sd_nodes seed)) (\<lambda>w.
         git_seeds G tree (git_register (sd_alg seed) w) seeds))"

fun git_op ::
    "('r, 'ed, 'm) gix \<Rightarrow> oid option \<Rightarrow> ('r, 'ed) git_work \<Rightarrow> write_op \<Rightarrow> 'm git_error + ('r, 'ed) git_work" where
  "git_op G tree w (AppendLeaf at data nodes) =
     (if at \<noteq> gw_count w then Inl (GitInvalid (WrongPosition at (gw_count w)))
      else bindE (git_put G w (Some (leaf_path at)) data) (\<lambda>w.
        bindE (git_put_nodes G w nodes) (\<lambda>w.
        Inr (w\<lparr>gw_count := wrapping_add (gw_count w) 1, gw_leaves := True\<rparr>))))"
| "git_op G tree w (AppendSubtree at nodes) =
     (if at \<noteq> gw_count w then Inl (GitInvalid (WrongPosition at (gw_count w)))
      else bindE (git_put_nodes G w nodes) (\<lambda>w. Inr (w\<lparr>gw_count := wrapping_add (gw_count w) 1\<rparr>)))"
| "git_op G tree w (AddAlgorithm alg es) =
     bindE (git_known G tree w alg) (\<lambda>known.
       if known then Inl (GitInvalid (AlreadyRegistered alg)) else Inr (git_register alg (git_override alg es w)))"
| "git_op G tree w (RemoveAlgorithm alg es) =
     bindE (git_known G tree w alg) (\<lambda>known.
       if \<not> known then Inl (GitInvalid (NotRegistered alg)) else Inr (git_override alg es w))"
| "git_op G tree w (ResumeAlgorithm alg es nodes) =
     bindE (git_known G tree w alg) (\<lambda>known.
       if \<not> known then Inl (GitInvalid (NotRegistered alg)) else git_put_nodes G (git_override alg es w) nodes)"
| "git_op G tree w (SeedFrontier n seeds) =
     (if gw_count w \<noteq> 0 \<or> gw_registered w \<noteq> [] then Inl (GitInvalid SeedNotFresh)
      else bindE (known_algorithm_ids G (gw_repo w) tree) (\<lambda>ids.
        if ids \<noteq> [] then Inl (GitInvalid SeedAlgorithmsNotFresh)
        else git_seeds G tree (w\<lparr>gw_count := n\<rparr>) seeds))"

fun git_ops ::
    "('r, 'ed, 'm) gix \<Rightarrow> oid option \<Rightarrow> ('r, 'ed) git_work \<Rightarrow> write_op list \<Rightarrow> 'm git_error + ('r, 'ed) git_work" where
  "git_ops G tree w [] = Inr w"
| "git_ops G tree w (op # ops) = bindE (git_op G tree w op) (\<lambda>w. git_ops G tree w ops)"

text \<open>The timelines written again, at the new count.\<close>

fun git_project ::
    "('r, 'ed, 'm) gix \<Rightarrow> oid option \<Rightarrow> ('r, 'ed) git_work \<Rightarrow> alg_id list \<Rightarrow> 'm git_error + ('r, 'ed) git_work" where
  "git_project G tree w [] = Inr w"
| "git_project G tree w (alg # ids) =
     bindE (case gw_overrides w alg of Some es \<Rightarrow> Inr es | None \<Rightarrow> read_stored_epochs G (gw_repo w) tree alg) (\<lambda>es.
     case layout_epochs_at es (gw_count w) of
       None \<Rightarrow> Inl (Corruption (EpochsNotCovering alg (gw_count w)))
     | Some projected \<Rightarrow> bindE (git_put G w (Some (epochs_path alg)) (encode_epochs projected)) (\<lambda>w.
         git_project G tree w ids))"

definition tree_callback :: "('r, 'ed, 'm) gix \<Rightarrow> 'r \<Rightarrow> git_entry list \<Rightarrow> 'm git_error + 'r \<times> oid" where
  "tree_callback G r entries =
     bindE (map_err Git (gx_tree_bytes G entries)) (\<lambda>buf. write_object G r TreeKind buf)"

record git_applied =
  ga_tree :: oid
  ga_count :: u64
  ga_leaves :: bool

definition git_build ::
    "('r, 'ed, 'm) gix \<Rightarrow> 'r \<Rightarrow> u64 \<Rightarrow> oid option \<Rightarrow> u64 \<Rightarrow> bool \<Rightarrow> write_op list
      \<Rightarrow> 'm git_error + 'r \<times> git_applied" where
  "git_build G r arity tree count leaves ops =
     bindE (map_err Git (gx_edit G r tree)) (\<lambda>ed.
     bindE (map_err Git (gx_remove G r ed ''roots'')) (\<lambda>ed.
     bindE (git_ops G tree \<lparr>gw_repo = r, gw_editor = ed, gw_count = count, gw_leaves = leaves,
         gw_registered = [], gw_overrides = Map.empty\<rparr> ops) (\<lambda>w.
     bindE (known_algorithm_ids G (gw_repo w) tree) (\<lambda>ids.
     bindE (git_project G tree w (ids @ filter (\<lambda>a. a \<notin> set ids) (gw_registered w))) (\<lambda>w.
     bindE (git_put G w (Some (path_text [''meta''])) (encode_meta arity (gw_count w))) (\<lambda>w.
     bindE (gx_write G (gw_repo w) (gw_editor w) (tree_callback G)) (\<lambda>(r, t).
       Inr (r, \<lparr>ga_tree = t, ga_count = gw_count w, ga_leaves = gw_leaves w\<rparr>))))))))"

section \<open>Reading\<close>

definition git_read_leaf ::
    "('r, 'ed, 'm) gix \<Rightarrow> 'r \<Rightarrow> oid \<Rightarrow> u64 \<Rightarrow> u64 \<Rightarrow> 'm git_error + bytes" where
  "git_read_leaf G r tree tsize index =
     (if index \<ge> tsize then Inl (NotFound index)
      else bindE (find_entry G r tree ''leaves'') (\<lambda>found.
        case found of
          None \<Rightarrow> Inl (NotFound index)
        | Some l \<Rightarrow> bindE (resolve_at_path G r l (trimmed_key_segments index)) (\<lambda>b.
            case b of Some b \<Rightarrow> read_blob G r b | None \<Rightarrow> Inl (NotFound index))))"

definition git_read_node ::
    "('r, 'ed, 'm) gix \<Rightarrow> 'r \<Rightarrow> oid \<Rightarrow> alg_id \<Rightarrow> u64 \<Rightarrow> u32 \<Rightarrow> 'm git_error + digest option" where
  "git_read_node G r tree alg left height =
     bindE (find_entry G r tree ''nodes'') (\<lambda>found.
       case found of
         None \<Rightarrow> Inr None
       | Some n \<Rightarrow> (case hex2 height of
           None \<Rightarrow> Inl GitStuck
         | Some h \<Rightarrow> bindE (resolve_at_path G r n ([hex16 alg, h] @ trimmed_key_segments left)) (\<lambda>b.
             case b of Some b \<Rightarrow> bindE (read_blob G r b) (\<lambda>bytes. Inr (Some bytes)) | None \<Rightarrow> Inr None)))"

definition entry_meta :: "('r, 'ed, 'm) gix \<Rightarrow> 'r \<Rightarrow> git_entry \<Rightarrow> 'm git_error + alg_id \<times> epochs" where
  "entry_meta G r e =
     bindE (entry_alg e) (\<lambda>alg.
     bindE (read_blob G r (ge_oid e)) (\<lambda>bytes.
     bindE (map_err Corruption (decode_epochs bytes)) (\<lambda>es. Inr (alg, es))))"

definition git_read_metas ::
    "('r, 'ed, 'm) gix \<Rightarrow> 'r \<Rightarrow> oid \<Rightarrow> 'm git_error + (alg_id \<times> epochs) list" where
  "git_read_metas G r tree =
     bindE (find_entry G r tree ''epochs'') (\<lambda>found.
       case found of
         None \<Rightarrow> Inr []
       | Some e \<Rightarrow> bindE (read_tree G r e) (mapE (entry_meta G r)))"

end
