(* ===== verification/Store_Git_Tree.thy ===== *)
theory Store_Git_Tree
  imports Store_Git_Build
begin

text \<open>
  What a checkpoint tree holds: the paths of a tree against the abstract store, how a write
  changes them, and what the reads of \<^verbatim>\<open>storage-git/src/read.rs\<close> answer.
\<close>

section \<open>The paths of the layout\<close>

definition git_key :: "string list \<Rightarrow> bool" where
  "git_key p \<longleftrightarrow> p = [''meta'']
     \<or> (\<exists>i < u64_limit. p = leaf_segments i)
     \<or> (\<exists>a l t. a < u64_limit \<and> l < u64_limit \<and> t < 256 \<and> p = node_segments (hex_fixed 2 t) a l)
     \<or> (\<exists>a < u64_limit. p = epochs_segments a)"

lemma git_keyI:
  "git_key [''meta'']" "i < u64_limit \<Longrightarrow> git_key (leaf_segments i)"
  "a < u64_limit \<Longrightarrow> l < u64_limit \<Longrightarrow> t < 256 \<Longrightarrow> git_key (node_segments (hex_fixed 2 t) a l)"
  "a < u64_limit \<Longrightarrow> git_key (epochs_segments a)"
  by (auto simp: git_key_def)

lemma trimmed_inj: "m < u64_limit \<Longrightarrow> n < u64_limit \<Longrightarrow> trimmed_key_segments m = trimmed_key_segments n \<longleftrightarrow> m = n"
  using trimmed_prefix [of m n] by auto

lemma hex2_inj: "s < 256 \<Longrightarrow> t < 256 \<Longrightarrow> hex_fixed 2 s = hex_fixed 2 t \<longleftrightarrow> s = t"
  by (simp add: hex_fixed_inj)

lemma key_inj:
  "i < u64_limit \<Longrightarrow> j < u64_limit \<Longrightarrow> leaf_segments i = leaf_segments j \<longleftrightarrow> i = j"
  "a < u64_limit \<Longrightarrow> b < u64_limit \<Longrightarrow> epochs_segments a = epochs_segments b \<longleftrightarrow> a = b"
  "a < u64_limit \<Longrightarrow> b < u64_limit \<Longrightarrow> l < u64_limit \<Longrightarrow> m < u64_limit \<Longrightarrow> s < 256 \<Longrightarrow> t < 256 \<Longrightarrow>
    node_segments (hex_fixed 2 s) a l = node_segments (hex_fixed 2 t) b m \<longleftrightarrow> (a, l, s) = (b, m, t)"
  by (auto simp: leaf_segments_def epochs_segments_def node_segments_def trimmed_inj hex16_inj hex2_inj
      simp del: hex_fixed.simps)

lemma key_heads [simp]:
  "leaf_segments i \<noteq> node_segments h a l" "node_segments h a l \<noteq> leaf_segments i"
  "leaf_segments i \<noteq> epochs_segments b" "epochs_segments b \<noteq> leaf_segments i"
  "epochs_segments b \<noteq> node_segments h a l" "node_segments h a l \<noteq> epochs_segments b"
  "leaf_segments i \<noteq> [''meta'']" "[''meta''] \<noteq> leaf_segments i"
  "node_segments h a l \<noteq> [''meta'']" "[''meta''] \<noteq> node_segments h a l"
  "epochs_segments b \<noteq> [''meta'']" "[''meta''] \<noteq> epochs_segments b"
  by (auto simp: leaf_segments_def epochs_segments_def node_segments_def)

lemma git_key_prefix:
  assumes "git_key p" "git_key q" "prefix p q"
  shows "p = q"
proof -
  have "hd p = hd q" using assms by (auto simp: git_key_def leaf_segments_def node_segments_def epochs_segments_def)
  with assms(1,2) consider "p = [''meta'']" "q = [''meta'']"
    | i j where "p = leaf_segments i" "q = leaf_segments j" "i < u64_limit" "j < u64_limit"
    | a b l m s t where "p = node_segments (hex_fixed 2 s) a l" "q = node_segments (hex_fixed 2 t) b m"
        "a < u64_limit" "b < u64_limit" "l < u64_limit" "m < u64_limit" "s < 256" "t < 256"
    | a b where "p = epochs_segments a" "q = epochs_segments b" "a < u64_limit" "b < u64_limit"
    unfolding git_key_def
    by (elim disjE exE conjE) (simp_all add: leaf_segments_def node_segments_def epochs_segments_def)
  then show ?thesis
  proof cases
    case 2
    with assms(3) show ?thesis by (auto simp: leaf_segments_def dest: trimmed_prefix)
  next
    case 3
    with assms(3) show ?thesis
      by (auto simp: node_segments_def hex16_inj hex2_inj simp del: hex_fixed.simps dest: trimmed_prefix)
  next
    case 4
    with assms(3) show ?thesis by (auto simp: epochs_segments_def)
  qed simp
qed

lemma git_key_segments:
  assumes "git_key p"
  shows "p \<noteq> []" "list_all segment_ok p"
proof -
  have "list_all segment_ok [''meta'', ''leaves'', ''nodes'', ''epochs'']" by (simp add: segment_ok_def)
  then show "list_all segment_ok p"
    using assms trimmed_segments by (auto simp: git_key_def leaf_segments_def node_segments_def epochs_segments_def
        hex16_def hex_segment simp del: hex_fixed.simps)
  show "p \<noteq> []" using assms by (auto simp: git_key_def leaf_segments_def node_segments_def epochs_segments_def)
qed

section \<open>Paths against the store\<close>

text \<open>The entries of one section: a map, with the path of each key.\<close>

definition keyed :: "('k \<Rightarrow> string list) \<Rightarrow> ('k \<Rightarrow> bytes option) \<Rightarrow> string list \<Rightarrow> bytes \<Rightarrow> bool" where
  "keyed f M p b \<longleftrightarrow> (\<exists>k. M k = Some b \<and> p = f k)"

lemma keyed_put:
  assumes "\<And>j. M j \<noteq> None \<Longrightarrow> f j = f k \<Longrightarrow> j = k"
  shows "keyed f (M(k \<mapsto> d)) p b \<longleftrightarrow> (if p = f k then b = d else keyed f M p b)"
proof (cases "p = f k")
  case True
  have "keyed f (M(k \<mapsto> d)) (f k) b \<longleftrightarrow> b = d"
  proof
    assume "keyed f (M(k \<mapsto> d)) (f k) b"
    then obtain j where j: "(M(k \<mapsto> d)) j = Some b" "f k = f j" unfolding keyed_def by blast
    show "b = d"
    proof (cases "j = k")
      case False
      then have "M j \<noteq> None" using j(1) by simp
      with assms j(2) False show ?thesis by metis
    qed (use j in simp)
  qed (auto simp: keyed_def)
  then show ?thesis using True by simp
next
  case False
  then have "(M(k \<mapsto> d)) j = Some b \<and> p = f j \<longleftrightarrow> M j = Some b \<and> p = f j" for j by auto
  then show ?thesis using False by (simp add: keyed_def)
qed

lemma keyed_at:
  assumes "\<And>j. M j \<noteq> None \<Longrightarrow> f j = f k \<Longrightarrow> j = k"
  shows "keyed f M (f k) b \<longleftrightarrow> M k = Some b"
  unfolding keyed_def using assms by (metis option.distinct(1))

definition leaf_map :: "bytes list \<Rightarrow> u64 \<Rightarrow> bytes option" where
  "leaf_map leaves i = (if i < length leaves then Some (leaves ! i) else None)"

fun node_at :: "alg_id \<times> u64 \<times> u32 \<Rightarrow> string list" where
  "node_at (a, l, t) = node_segments (hex_fixed 2 t) a l"

declare node_at.simps [simp del]

text \<open>
  The layout of a store; the two metadata sections are given apart, because during a batch they
  lag behind.
\<close>

definition git_layout :: "paths \<Rightarrow> bytes option \<Rightarrow> (alg_id \<Rightarrow> bytes option) \<Rightarrow> store \<Rightarrow> bool" where
  "git_layout pm mb E st \<longleftrightarrow> (\<forall>p b. pm p = Some b \<longleftrightarrow>
     p = [''meta''] \<and> mb = Some b \<or> keyed leaf_segments (leaf_map (so_leaves st)) p b
     \<or> keyed node_at (so_nodes st) p b \<or> keyed epochs_segments E p b)"

definition git_node_key :: "alg_id \<times> u64 \<times> u32 \<Rightarrow> bool" where
  "git_node_key = (\<lambda>(a, l, t). a < u64_limit \<and> l < u64_limit \<and> t < 256)"

definition git_nodes_fit :: "(alg_id \<times> u64 \<times> u32 \<Rightarrow> digest option) \<Rightarrow> bool" where
  "git_nodes_fit N \<longleftrightarrow> (\<forall>k \<in> dom N. git_node_key k)"

definition algs_fit :: "(alg_id \<Rightarrow> 'x option) \<Rightarrow> bool" where
  "algs_fit E \<longleftrightarrow> (\<forall>a. E a \<noteq> None \<longrightarrow> a < u64_limit)"

definition layout_fits :: "(alg_id \<Rightarrow> bytes option) \<Rightarrow> store \<Rightarrow> bool" where
  "layout_fits E st \<longleftrightarrow> length (so_leaves st) < u64_limit \<and> git_nodes_fit (so_nodes st) \<and> algs_fit E"

lemma layout_fitsD:
  assumes "layout_fits E st"
  shows "leaf_map (so_leaves st) i \<noteq> None \<Longrightarrow> i < u64_limit" "so_nodes st k \<noteq> None \<Longrightarrow> git_node_key k"
    "E a \<noteq> None \<Longrightarrow> a < u64_limit" "length (so_leaves st) < u64_limit"
proof -
  show len: "length (so_leaves st) < u64_limit" using assms by (simp add: layout_fits_def)
  show "i < u64_limit" if "leaf_map (so_leaves st) i \<noteq> None"
    using that len by (auto simp: leaf_map_def split: if_splits)
  show "git_node_key k" if "so_nodes st k \<noteq> None"
    using assms that by (simp add: layout_fits_def git_nodes_fit_def domIff)
  show "a < u64_limit" if "E a \<noteq> None" using assms that by (simp add: layout_fits_def algs_fit_def)
qed

lemma node_at_inj: "git_node_key k \<Longrightarrow> git_node_key j \<Longrightarrow> node_at k = node_at j \<longleftrightarrow> k = j"
  by (cases k; cases j) (simp add: node_at.simps git_node_key_def key_inj(3))

lemma node_at_git: "git_node_key k \<Longrightarrow> git_key (node_at k)"
  by (cases k) (simp add: node_at.simps git_node_key_def git_keyI(3))

lemma node_at_heads [simp]:
  "leaf_segments i \<noteq> node_at k" "node_at k \<noteq> leaf_segments i" "epochs_segments b \<noteq> node_at k"
  "node_at k \<noteq> epochs_segments b" "node_at k \<noteq> [''meta'']" "[''meta''] \<noteq> node_at k"
  by (cases k; simp add: node_at.simps)+

lemma keyed_heads [simp]:
  "\<not> keyed leaf_segments M (node_at k) b" "\<not> keyed leaf_segments M (epochs_segments a) b"
  "\<not> keyed leaf_segments M [''meta''] b" "\<not> keyed epochs_segments E (leaf_segments i) b"
  "\<not> keyed epochs_segments E (node_at k) b" "\<not> keyed epochs_segments E [''meta''] b"
  "\<not> keyed node_at N (leaf_segments i) b" "\<not> keyed node_at N (epochs_segments a) b"
  "\<not> keyed node_at N [''meta''] b"
  by (simp_all add: keyed_def)

lemma layout_key:
  assumes "git_layout pm mb E st" "layout_fits E st" "pm p \<noteq> None"
  shows "git_key p"
proof -
  obtain b where "pm p = Some b" using assms(3) by blast
  then consider "p = [''meta'']" | i where "leaf_map (so_leaves st) i \<noteq> None" "p = leaf_segments i"
    | k where "so_nodes st k \<noteq> None" "p = node_at k" | a where "E a \<noteq> None" "p = epochs_segments a"
    using assms(1) unfolding git_layout_def keyed_def by blast
  then show ?thesis
    using layout_fitsD [OF assms(2)] by cases (simp_all add: git_keyI node_at_git)
qed

lemma layout_free:
  assumes "git_layout pm mb E st" "layout_fits E st" "git_key p"
  shows "path_free pm p"
  unfolding path_free_def using layout_key [OF assms(1,2)] git_key_prefix assms(3) by metis

lemma layout_lookup:
  assumes "git_layout pm mb E st" "layout_fits E st"
  shows "pm [''meta''] = mb"
    and "i < u64_limit \<Longrightarrow> pm (leaf_segments i) = leaf_map (so_leaves st) i"
    and "git_node_key k \<Longrightarrow> pm (node_at k) = so_nodes st k"
    and "a < u64_limit \<Longrightarrow> pm (epochs_segments a) = E a"
proof -
  note iff = assms(1) [unfolded git_layout_def, rule_format]
  have eqI: "x = y" if "\<And>b. x = Some b \<longleftrightarrow> y = Some b" for x y :: "bytes option"
    using that by (metis not_None_eq)
  show "pm [''meta''] = mb" by (rule eqI) (simp add: iff)
  show "pm (leaf_segments i) = leaf_map (so_leaves st) i" if "i < u64_limit"
    by (rule eqI, subst iff, simp, rule keyed_at) (use that layout_fitsD(1) [OF assms(2)] in \<open>simp add: key_inj(1)\<close>)
  show "pm (epochs_segments a) = E a" if "a < u64_limit"
    by (rule eqI, subst iff, simp, rule keyed_at) (use that layout_fitsD(3) [OF assms(2)] in \<open>simp add: key_inj(2)\<close>)
  show "pm (node_at k) = so_nodes st k" if "git_node_key k"
    by (rule eqI, subst iff, simp, rule keyed_at) (use that layout_fitsD(2) [OF assms(2)] in \<open>metis node_at_inj\<close>)
qed

section \<open>Writes\<close>

lemma layout_meta: "git_layout pm mb E st \<Longrightarrow> git_layout (pm([''meta''] \<mapsto> b)) (Some b) E st"
  by (auto simp: git_layout_def)

lemma leaf_map_snoc: "leaf_map (leaves @ [d]) = (leaf_map leaves)(length leaves \<mapsto> d)"
  by (auto simp: leaf_map_def nth_append fun_eq_iff)

lemma layout_leaf:
  assumes "git_layout pm mb E st" "layout_fits E st"
  shows "git_layout (pm(leaf_segments (length (so_leaves st)) \<mapsto> d)) mb E (st\<lparr>so_leaves := so_leaves st @ [d]\<rparr>)"
proof -
  note iff = assms(1) [unfolded git_layout_def, rule_format]
  have "keyed leaf_segments (leaf_map (so_leaves st @ [d])) p b
      \<longleftrightarrow> (if p = leaf_segments (length (so_leaves st)) then b = d else keyed leaf_segments (leaf_map (so_leaves st)) p b)"
    for p b
    unfolding leaf_map_snoc using layout_fitsD(1,4) [OF assms(2)] by (intro keyed_put) (simp add: key_inj(1))
  then show ?thesis by (auto simp: git_layout_def iff)
qed

lemma layout_epochs:
  assumes "git_layout pm mb E st" "a < u64_limit" "algs_fit E"
  shows "git_layout (pm(epochs_segments a \<mapsto> d)) mb (E(a \<mapsto> d)) st"
proof -
  note iff = assms(1) [unfolded git_layout_def, rule_format]
  have "keyed epochs_segments (E(a \<mapsto> d)) p b
      \<longleftrightarrow> (if p = epochs_segments a then b = d else keyed epochs_segments E p b)" for p b
    using assms(2,3) by (intro keyed_put) (simp add: algs_fit_def key_inj(2))
  then show ?thesis by (auto simp: git_layout_def iff)
qed

lemma layout_node:
  assumes "git_layout pm mb E st" "git_node_key k" "git_nodes_fit (so_nodes st)"
  shows "git_layout (pm(node_at k \<mapsto> d)) mb E (st\<lparr>so_nodes := (so_nodes st)(k \<mapsto> d)\<rparr>)"
proof -
  note iff = assms(1) [unfolded git_layout_def, rule_format]
  have "keyed node_at ((so_nodes st)(k \<mapsto> d)) p b
      \<longleftrightarrow> (if p = node_at k then b = d else keyed node_at (so_nodes st) p b)" for p b
    using assms(2,3) unfolding git_nodes_fit_def by (intro keyed_put) (metis domIff node_at_inj)
  then show ?thesis by (auto simp: git_layout_def iff)
qed

lemma layout_empty: "git_layout Map.empty None Map.empty empty_store"
  by (simp add: git_layout_def empty_store_def keyed_def leaf_map_def)

lemma layout_count: "git_layout pm mb E (st\<lparr>so_count := n\<rparr>) \<longleftrightarrow> git_layout pm mb E st"
  and layout_metas: "git_layout pm mb E (st\<lparr>so_metas := M\<rparr>) \<longleftrightarrow> git_layout pm mb E st"
  by (simp_all add: git_layout_def)

lemma layout_no_roots:
  assumes "git_layout pm mb E st"
  shows "without_top ''roots'' pm = pm"
proof
  fix p
  have "pm p = None" if "p \<noteq> []" "hd p = ''roots''"
  proof (rule ccontr)
    assume "pm p \<noteq> None"
    then obtain b where "pm p = Some b" by blast
    then consider "p = [''meta'']" | i where "p = leaf_segments i" | k where "p = node_at k" | a where "p = epochs_segments a"
      using assms unfolding git_layout_def keyed_def by blast
    then have "hd p \<in> {''meta'', ''leaves'', ''nodes'', ''epochs''}"
    proof cases
      case (3 k)
      then show ?thesis by (cases k) (simp add: node_at.simps node_segments_def)
    qed (simp_all add: leaf_segments_def epochs_segments_def)
    with that(2) show False by simp
  qed
  then show "without_top ''roots'' pm p = pm p" by (simp add: without_top_def)
qed

section \<open>Reads\<close>

lemma holds_read:
  assumes "holds G r t pm" "path_free pm (name # rest)"
  shows "case pm (name # rest) of
      None \<Rightarrow> find_entry G r t name = Inr None
        \<or> (\<exists>c. find_entry G r t name = Inr (Some c) \<and> resolve_at_path G r c rest = Inr None)
    | Some d \<Rightarrow> \<exists>c b. find_entry G r t name = Inr (Some c) \<and> resolve_at_path G r c rest = Inr (Some b)
        \<and> gx_find_blob G r b = Inr d"
  using holds_resolve [OF assms(1) _ assms(2)]
  by (cases "pm (name # rest)") (auto simp: bindE_Inr_iff split: option.splits)

text \<open>A tree with the layout of a store, and numbers that fit.\<close>

definition git_holds :: "('r, 'ed, 'm) gix \<Rightarrow> 'r \<Rightarrow> oid \<Rightarrow> bytes option \<Rightarrow> (alg_id \<Rightarrow> bytes option) \<Rightarrow> store \<Rightarrow> bool" where
  "git_holds G r t mb E st \<longleftrightarrow> (\<exists>pm. holds G r t pm \<and> git_layout pm mb E st \<and> layout_fits E st)"

lemma git_holds_extends: "git_holds G r t mb E st \<Longrightarrow> extends G r r' \<Longrightarrow> git_holds G r' t mb E st"
  unfolding git_holds_def by (elim exE conjE, rule exI, intro conjI, rule holds_extends)

lemma git_holds_read:
  assumes "git_holds G r t mb E st" "git_key (name # rest)"
  obtains pm where "git_layout pm mb E st" "layout_fits E st"
    "case pm (name # rest) of
      None \<Rightarrow> find_entry G r t name = Inr None
        \<or> (\<exists>c. find_entry G r t name = Inr (Some c) \<and> resolve_at_path G r c rest = Inr None)
    | Some d \<Rightarrow> \<exists>c b. find_entry G r t name = Inr (Some c) \<and> resolve_at_path G r c rest = Inr (Some b)
        \<and> gx_find_blob G r b = Inr d"
proof -
  obtain pm where pm: "holds G r t pm" "git_layout pm mb E st" "layout_fits E st"
    using assms(1) by (auto simp: git_holds_def)
  show ?thesis by (rule that [OF pm(2,3) holds_read [OF pm(1) layout_free [OF pm(2,3) assms(2)]]])
qed

lemma read_leaf_ok:
  assumes "git_holds G r t mb E st" "index < tsize" "tsize < u64_limit"
  shows "git_read_leaf G r t tsize index
    = (case leaf_map (so_leaves st) index of None \<Rightarrow> Inl (NotFound index) | Some d \<Rightarrow> Inr d)"
proof -
  have i: "index < u64_limit" using assms(2,3) by simp
  have "git_key (''leaves'' # trimmed_key_segments index)"
    using git_keyI(2) [OF i] by (simp add: leaf_segments_def)
  from assms(1) this obtain pm where pm: "git_layout pm mb E st" "layout_fits E st"
    and read: "case pm (''leaves'' # trimmed_key_segments index) of
      None \<Rightarrow> find_entry G r t ''leaves'' = Inr None
        \<or> (\<exists>c. find_entry G r t ''leaves'' = Inr (Some c) \<and> resolve_at_path G r c (trimmed_key_segments index) = Inr None)
    | Some d \<Rightarrow> \<exists>c b. find_entry G r t ''leaves'' = Inr (Some c)
        \<and> resolve_at_path G r c (trimmed_key_segments index) = Inr (Some b) \<and> gx_find_blob G r b = Inr d"
    by (rule git_holds_read)
  have "pm (''leaves'' # trimmed_key_segments index) = leaf_map (so_leaves st) index"
    using layout_lookup(2) [OF pm i] by (simp add: leaf_segments_def)
  with read assms(2) show ?thesis
    by (cases "leaf_map (so_leaves st) index") (auto simp: git_read_leaf_def read_blob_def)
qed

lemma read_node_ok:
  assumes "git_holds G r t mb E st" "git_node_key (a, l, h)"
  shows "git_read_node G r t a l h = Inr (so_nodes st (a, l, h))"
proof -
  let ?rest = "[hex16 a, hex_fixed 2 h] @ trimmed_key_segments l"
  have h: "hex2 h = Some (hex_fixed 2 h)" using assms(2) by (simp add: hex2_def git_node_key_def)
  have k: "''nodes'' # ?rest = node_at (a, l, h)" by (simp add: node_at.simps node_segments_def)
  have "git_key (''nodes'' # ?rest)" unfolding k using assms(2) by (rule node_at_git)
  from assms(1) this obtain pm where pm: "git_layout pm mb E st" "layout_fits E st"
    and read: "case pm (''nodes'' # ?rest) of
      None \<Rightarrow> find_entry G r t ''nodes'' = Inr None
        \<or> (\<exists>c. find_entry G r t ''nodes'' = Inr (Some c) \<and> resolve_at_path G r c ?rest = Inr None)
    | Some d \<Rightarrow> \<exists>c b. find_entry G r t ''nodes'' = Inr (Some c) \<and> resolve_at_path G r c ?rest = Inr (Some b)
        \<and> gx_find_blob G r b = Inr d"
    by (rule git_holds_read)
  have "pm (''nodes'' # ?rest) = so_nodes st (a, l, h)" unfolding k by (rule layout_lookup(3) [OF pm assms(2)])
  with read show ?thesis
    unfolding git_read_node_def h option.case by (cases "so_nodes st (a, l, h)") (auto simp: read_blob_def)
qed

lemma read_epochs_ok:
  assumes "git_holds G r t mb E st" "a < u64_limit"
  shows "epochs_entry_exists G r (Some t) a = Inr (E a \<noteq> None)"
    and "E a = Some (encode_epochs es) \<Longrightarrow> epochs_fit es \<Longrightarrow> es \<noteq> [] \<Longrightarrow> read_stored_epochs G r (Some t) a = Inr es"
proof -
  have k: "git_key (''epochs'' # [hex16 a])"
    using git_keyI(4) [OF assms(2)] by (simp add: epochs_segments_def)
  from assms(1) k obtain pm where pm: "git_layout pm mb E st" "layout_fits E st"
    and read: "case pm (''epochs'' # [hex16 a]) of
      None \<Rightarrow> find_entry G r t ''epochs'' = Inr None
        \<or> (\<exists>c. find_entry G r t ''epochs'' = Inr (Some c) \<and> resolve_at_path G r c [hex16 a] = Inr None)
    | Some d \<Rightarrow> \<exists>c b. find_entry G r t ''epochs'' = Inr (Some c) \<and> resolve_at_path G r c [hex16 a] = Inr (Some b)
        \<and> gx_find_blob G r b = Inr d"
    by (rule git_holds_read)
  have E: "pm (''epochs'' # [hex16 a]) = E a"
    using layout_lookup(4) [OF pm assms(2)] by (simp add: epochs_segments_def)
  have last: "resolve_at_path G r c [n] = Inr x \<longleftrightarrow> find_entry G r c n = Inr x" for c n x
    by (auto simp: bindE_Inr_iff split: option.splits)
  show "epochs_entry_exists G r (Some t) a = Inr (E a \<noteq> None)"
    using read unfolding E last by (cases "E a") (auto simp: epochs_entry_exists_def)
  show "read_stored_epochs G r (Some t) a = Inr es" if "E a = Some (encode_epochs es)" "epochs_fit es" "es \<noteq> []"
    using read unfolding E last by (auto simp: that read_stored_epochs_def read_blob_def decode_epochs_encode)
qed

text \<open>The entries of the \<^verbatim>\<open>epochs\<close> section are the registered algorithms.\<close>

definition epochs_entries :: "('r, 'ed, 'm) gix \<Rightarrow> 'r \<Rightarrow> (alg_id \<Rightarrow> bytes option) \<Rightarrow> git_entry list \<Rightarrow> bool" where
  "epochs_entries G r E es \<longleftrightarrow> distinct (map ge_name es)
     \<and> (\<forall>e \<in> set es. \<exists>a d. ge_name e = hex16 a \<and> a < u64_limit \<and> E a = Some d \<and> gx_find_blob G r (ge_oid e) = Inr d)
     \<and> (\<forall>a. E a \<noteq> None \<longrightarrow> a < u64_limit \<and> hex16 a \<in> ge_name ` set es)"

lemma epochs_section:
  assumes "git_holds G r t mb E st"
  shows "find_entry G r t ''epochs'' = Inr None \<and> E = Map.empty
    \<or> (\<exists>c es. find_entry G r t ''epochs'' = Inr (Some c) \<and> read_tree G r c = Inr es \<and> epochs_entries G r E es)"
proof -
  obtain pm where h: "holds G r t pm" and pm: "git_layout pm mb E st" "layout_fits E st"
    using assms unfolding git_holds_def by blast
  have at: "a < u64_limit \<and> pm (''epochs'' # [hex16 a]) = E a" if "E a \<noteq> None" for a
    using layout_fitsD(3) [OF pm(2) that] layout_lookup(4) [OF pm, of a] by (simp add: epochs_segments_def)
  have only: "\<exists>a < u64_limit. p = [hex16 a] \<and> E a = pm (''epochs'' # p)" if nn: "pm (''epochs'' # p) \<noteq> None" for p
  proof -
    obtain d where d: "pm (''epochs'' # p) = Some d" using nn by (cases "pm (''epochs'' # p)") simp_all
    then have "keyed epochs_segments E (''epochs'' # p) d"
      using pm(1) unfolding git_layout_def
      by (auto simp: keyed_def leaf_segments_def node_at.simps node_segments_def)
    then obtain a where "E a = Some d" "p = [hex16 a]" by (auto simp: keyed_def epochs_segments_def)
    then show ?thesis using at [of a] d by auto
  qed
  from h show ?thesis
  proof (cases rule: holds_entry [where name = "''epochs''"])
    case 1
    then have "E a = None" for a using at [of a] by metis
    then show ?thesis using 1 by auto
  next
    case (2 c pm')
    from 2(2) show ?thesis
    proof (cases rule: holds.cases)
      case (tree es)
      have entry: "\<exists>a d. ge_name e = hex16 a \<and> a < u64_limit \<and> E a = Some d \<and> gx_find_blob G r (ge_oid e) = Inr d"
        if e: "e \<in> set es" for e
      proof (cases "ge_tree e")
        case True
        then obtain p where p: "pm' (ge_name e # p) \<noteq> None" "holds G r (ge_oid e) (\<lambda>p. pm' (ge_name e # p))"
          using tree(5) e by blast
        then have "p = []" using only [of "ge_name e # p"] 2(3) by auto
        then show ?thesis using p holds_Nil [OF p(2)] by simp
      next
        case False
        then obtain d where d: "gx_find_blob G r (ge_oid e) = Inr d" "(\<lambda>p. pm' (ge_name e # p)) = [[] \<mapsto> d]"
          using tree(6) e by blast
        have "pm' [ge_name e] = Some d" using fun_cong [OF d(2), of "[]"] by simp
        then show ?thesis using only [of "[ge_name e]"] 2(3) d(1) by auto
      qed
      have "a < u64_limit \<and> hex16 a \<in> ge_name ` set es" if "E a \<noteq> None" for a
        using at [OF that] that tree(4) 2(3) by metis
      with entry tree(2) have "epochs_entries G r E es" unfolding epochs_entries_def by blast
      with tree(1) 2(1) show ?thesis by (auto simp: read_tree_def)
    qed
  next
    case (3 c data)
    then have "pm (''epochs'' # []) \<noteq> None" by simp
    from only [OF this] show ?thesis by simp
  qed
qed

end
