(* ===== verification/Store_Git_Apply.thy ===== *)
theory Store_Git_Apply
  imports Store_Git_Tree
begin

text \<open>
  A batch applied by the git backend refines the abstract store: the editor session holds the
  store of the operations so far, every admissible batch gives the tree of the next store, and a
  batch with an inadmissible operation is refused.
\<close>

section \<open>Stores that fit\<close>

definition encoded :: "(alg_id \<Rightarrow> epochs option) \<Rightarrow> alg_id \<Rightarrow> bytes option" where
  "encoded M a = map_option encode_epochs (M a)"

lemma encoded_put: "encoded (M(a \<mapsto> es)) = (encoded M)(a \<mapsto> encode_epochs es)"
  by (simp add: encoded_def fun_eq_iff)

lemma encoded_None [simp]: "encoded M a = None \<longleftrightarrow> M a = None"
  by (simp add: encoded_def)

definition git_metas_fit :: "u64 \<Rightarrow> (alg_id \<Rightarrow> epochs option) \<Rightarrow> bool" where
  "git_metas_fit n M \<longleftrightarrow> (\<forall>a es. M a = Some es \<longrightarrow> a < u64_limit \<and> epochs_valid n es)"

definition git_fits :: "store \<Rightarrow> bool" where
  "git_fits st \<longleftrightarrow> so_count st < u64_max \<and> (so_leaves st = [] \<or> length (so_leaves st) = so_count st)
     \<and> git_metas_fit (so_count st) (so_metas st) \<and> git_nodes_fit (so_nodes st)"

lemma git_metas_fit_put:
  "git_metas_fit n M \<Longrightarrow> a < u64_limit \<Longrightarrow> epochs_valid n es \<Longrightarrow> git_metas_fit n (M(a \<mapsto> es))"
  by (simp add: git_metas_fit_def)

lemma git_metas_fit_mono: "git_metas_fit m M \<Longrightarrow> m \<le> n \<Longrightarrow> git_metas_fit n M"
  unfolding git_metas_fit_def using epochs_valid_grows by blast

lemma node_fits_key: "node_fits (a, l, t, d) \<Longrightarrow> git_node_key (a, l, t)"
  by (simp add: node_fits_def git_node_key_def)

lemma git_nodes_fit_fold:
  assumes "git_nodes_fit N" "list_all node_fits nws"
  shows "git_nodes_fit (fold write_node nws N)"
  unfolding git_nodes_fit_def dom_fold_write
proof
  fix k assume "k \<in> dom N \<union> (\<lambda>(a, l, t, _). (a, l, t)) ` set nws"
  then show "git_node_key k"
  proof
    assume "k \<in> (\<lambda>(a, l, t, _). (a, l, t)) ` set nws"
    then obtain a l t d where "k = (a, l, t)" "(a, l, t, d) \<in> set nws" by auto
    then show ?thesis using assms(2) node_fits_key by (auto simp: list_all_iff)
  qed (use assms(1) in \<open>simp add: git_nodes_fit_def\<close>)
qed

lemma git_fits_nodes: "git_fits st \<Longrightarrow> list_all node_fits nws \<Longrightarrow> git_fits (store_nodes nws st)"
  by (simp add: git_fits_def store_nodes_def git_nodes_fit_fold)

lemma git_fits_meta:
  "git_fits st \<Longrightarrow> a < u64_limit \<Longrightarrow> epochs_valid (so_count st) es \<Longrightarrow>
    git_fits (st\<lparr>so_metas := (so_metas st)(a \<mapsto> es)\<rparr>)"
  by (simp add: git_fits_def git_metas_fit_put del: fun_upd_apply)

lemma git_fits_seed:
  "git_fits st \<Longrightarrow> sd_alg sd < u64_limit \<Longrightarrow> epochs_valid (so_count st) (sd_epochs sd) \<Longrightarrow>
    list_all node_fits (sd_nodes sd) \<Longrightarrow> git_fits (store_seed sd st)"
  unfolding store_seed_def by (intro git_fits_nodes git_fits_meta)

section \<open>The editor session\<close>

definition work_holds ::
    "('r, 'ed, 'm) gix \<Rightarrow> ('r \<Rightarrow> bool) \<Rightarrow> ('r \<Rightarrow> 'ed \<Rightarrow> paths \<Rightarrow> bool) \<Rightarrow> 'r \<Rightarrow> bytes option
      \<Rightarrow> (alg_id \<Rightarrow> bytes option) \<Rightarrow> ('r, 'ed) git_work \<Rightarrow> store \<Rightarrow> bool" where
  "work_holds G ok editing r0 mb E w st \<longleftrightarrow> ok (gw_repo w) \<and> extends G r0 (gw_repo w) \<and> same_refs G r0 (gw_repo w)
     \<and> layout_fits E st \<and> (\<exists>pm. editing (gw_repo w) (gw_editor w) pm \<and> git_layout pm mb E st)"

context git_objects begin

lemma git_put:
  assumes "ok (gw_repo w)" "editing (gw_repo w) (gw_editor w) pm" "git_key segs" "path_free pm segs"
  shows "\<exists>r' ed'. git_put G w (Some (path_text segs)) d = Inr (w\<lparr>gw_repo := r', gw_editor := ed'\<rparr>)
    \<and> ok r' \<and> extends G (gw_repo w) r' \<and> same_refs G (gw_repo w) r' \<and> editing r' ed' (pm(segs \<mapsto> d))"
proof -
  obtain r' b where r: "write_blob G (gw_repo w) d = Inr (r', b)" "ok r'" "extends G (gw_repo w) r'"
    "same_refs G (gw_repo w) r'" "gx_find_blob G r' b = Inr d"
    using write_blob [OF assms(1)] by blast
  have "editing r' (gw_editor w) pm" by (rule editing_extends [OF assms(2) r(3,2)])
  from upsert [OF r(2) this r(5) git_key_segments [OF assms(3)] assms(4)] obtain ed' where
    ed: "gx_upsert G r' (gw_editor w) (path_text segs) b = Inr ed'" "editing r' ed' (pm(segs \<mapsto> d))"
    by blast
  then have "git_put G w (Some (path_text segs)) d = Inr (w\<lparr>gw_repo := r', gw_editor := ed'\<rparr>)"
    using r(1) by (simp add: git_put_def)
  with r ed show ?thesis by blast
qed

lemma work_put:
  assumes "work_holds G ok editing r0 mb E w st" "git_key segs"
    and "\<And>pm. git_layout pm mb E st \<Longrightarrow> git_layout (pm(segs \<mapsto> d)) mb' E' st'" "layout_fits E' st'"
  shows "\<exists>r' ed'. git_put G w (Some (path_text segs)) d = Inr (w\<lparr>gw_repo := r', gw_editor := ed'\<rparr>)
    \<and> work_holds G ok editing r0 mb' E' (w\<lparr>gw_repo := r', gw_editor := ed'\<rparr>) st'"
proof -
  obtain pm where w: "ok (gw_repo w)" "extends G r0 (gw_repo w)" "same_refs G r0 (gw_repo w)"
    and pm: "editing (gw_repo w) (gw_editor w) pm" "git_layout pm mb E st" "layout_fits E st"
    using assms(1) by (auto simp: work_holds_def)
  from git_put [OF w(1) pm(1) assms(2) layout_free [OF pm(2,3) assms(2)], of d] obtain r' ed' where
    r: "git_put G w (Some (path_text segs)) d = Inr (w\<lparr>gw_repo := r', gw_editor := ed'\<rparr>)"
      "ok r'" "extends G (gw_repo w) r'" "same_refs G (gw_repo w) r'" "editing r' ed' (pm(segs \<mapsto> d))"
    by blast
  have "extends G r0 r'" "same_refs G r0 r'"
    using w(2,3) r(3,4) by (blast intro: objects_kept_trans same_refs_trans)+
  with r assms(3) [OF pm(2)] assms(4) show ?thesis by (auto simp: work_holds_def)
qed

lemma work_put_nodes:
  assumes "work_holds G ok editing r0 mb E w st" "list_all node_fits nodes"
  shows "\<exists>r' ed'. git_put_nodes G w nodes = Inr (w\<lparr>gw_repo := r', gw_editor := ed'\<rparr>)
    \<and> work_holds G ok editing r0 mb E (w\<lparr>gw_repo := r', gw_editor := ed'\<rparr>) (store_nodes nodes st)"
  using assms
proof (induction nodes arbitrary: w st)
  case Nil
  then show ?case by (intro exI [of _ "gw_repo w"] exI [of _ "gw_editor w"]) (simp add: store_nodes_def)
next
  case (Cons nw nodes)
  obtain a l t d where nw: "nw = (a, l, t, d)" by (metis surj_pair)
  let ?st = "st\<lparr>so_nodes := (so_nodes st)((a, l, t) \<mapsto> d)\<rparr>"
  have k: "git_node_key (a, l, t)" using Cons.prems(2) by (auto simp: nw intro: node_fits_key)
  have fits: "layout_fits E st" using Cons.prems(1) by (simp add: work_holds_def)
  then have fits': "layout_fits E ?st" using k by (simp add: layout_fits_def git_nodes_fit_def)
  have path: "node_path a t l = Some (path_text (node_at (a, l, t)))"
    using k by (simp add: node_path_def hex2_def git_node_key_def node_at.simps)
  from work_put [OF Cons.prems(1) node_at_git [OF k] layout_node [OF _ k] fits'] fits obtain r' ed' where
    w: "git_put G w (Some (path_text (node_at (a, l, t)))) d = Inr (w\<lparr>gw_repo := r', gw_editor := ed'\<rparr>)"
      "work_holds G ok editing r0 mb E (w\<lparr>gw_repo := r', gw_editor := ed'\<rparr>) ?st"
    unfolding layout_fits_def by blast
  have "store_nodes nodes ?st = store_nodes (nw # nodes) st" by (simp add: store_nodes_def write_node_def nw)
  with Cons.IH [OF w(2)] Cons.prems(2) w(1) show ?case by (simp add: nw path)
qed

end

section \<open>One operation\<close>

text \<open>What the session has booked: the count, the kind, the registrations and the new timelines.\<close>

definition booked :: "(alg_id \<Rightarrow> epochs option) \<Rightarrow> ('r, 'ed) git_work \<Rightarrow> store \<Rightarrow> bool" where
  "booked M0 w st \<longleftrightarrow> gw_count w = so_count st \<and> gw_leaves w = (so_leaves st \<noteq> []) \<and> distinct (gw_registered w)
     \<and> (\<forall>a. a \<in> set (gw_registered w) \<longleftrightarrow> so_metas st a \<noteq> None \<and> M0 a = None)
     \<and> (\<forall>a. so_metas st a = (case gw_overrides w a of Some es \<Rightarrow> Some es | None \<Rightarrow> M0 a))"

definition tree_knows :: "('r, 'ed, 'm) gix \<Rightarrow> 'r \<Rightarrow> oid option \<Rightarrow> (alg_id \<Rightarrow> epochs option) \<Rightarrow> bool" where
  "tree_knows G r tree M0 \<longleftrightarrow>
     (case tree of None \<Rightarrow> M0 = Map.empty | Some t \<Rightarrow> \<exists>mb st. git_holds G r t mb (encoded M0) st)"

lemma tree_knows_extends: "tree_knows G r tree M0 \<Longrightarrow> extends G r r' \<Longrightarrow> tree_knows G r' tree M0"
  unfolding tree_knows_def by (cases tree) (auto intro: git_holds_extends)

lemma entry_ids:
  assumes "epochs_entries G r E es"
  shows "mapE entry_alg es = Inr (map (\<lambda>e. the (parse_hex16 (ge_name e))) es)"
    and "distinct (map (\<lambda>e. the (parse_hex16 (ge_name e))) es)"
    and "set (map (\<lambda>e. the (parse_hex16 (ge_name e))) es) = dom E"
proof -
  have e: "\<exists>a d. ge_name e = hex16 a \<and> parse_hex16 (ge_name e) = Some a \<and> E a = Some d" if "e \<in> set es" for e
    using assms that parse_hex16_name unfolding epochs_entries_def by metis
  show "mapE entry_alg es = Inr (map (\<lambda>e. the (parse_hex16 (ge_name e))) es)"
    by (rule mapE_Inr) (use e in \<open>fastforce simp: entry_alg_def\<close>)
  have "inj_on (\<lambda>n. the (parse_hex16 n)) (ge_name ` set es)"
    by (rule inj_onI) (use e in \<open>auto, metis option.sel\<close>)
  then show "distinct (map (\<lambda>e. the (parse_hex16 (ge_name e))) es)"
    using assms unfolding epochs_entries_def
    by (metis (mono_tags, lifting) distinct_map list.map_comp map_eq_conv comp_apply list.set_map)
  show "set (map (\<lambda>e. the (parse_hex16 (ge_name e))) es) = dom E"
  proof safe
    fix x assume "x \<in> set (map (\<lambda>e. the (parse_hex16 (ge_name e))) es)"
    then show "\<exists>y. E x = Some y" using e by fastforce
  next
    fix a d assume "E a = Some d"
    then have "a < u64_limit" "hex16 a \<in> ge_name ` set es" using assms unfolding epochs_entries_def by blast+
    then show "a \<in> set (map (\<lambda>e. the (parse_hex16 (ge_name e))) es)"
      using parse_hex16_name [of a] by (auto simp: image_iff) (metis option.sel)
  qed
qed

lemma known_ids:
  assumes "tree_knows G r tree M0"
  obtains ids where "known_algorithm_ids G r tree = Inr ids" "distinct ids" "set ids = dom M0"
proof (cases tree)
  case None
  then show ?thesis using assms by (intro that [of "[]"]) (simp_all add: known_algorithm_ids_def tree_knows_def)
next
  case (Some t)
  have dom: "dom (encoded M0) = dom M0" by (auto simp: dom_def)
  obtain mb st where "git_holds G r t mb (encoded M0) st" using assms by (auto simp: tree_knows_def Some)
  from epochs_section [OF this] show ?thesis
  proof (elim disjE exE conjE)
    assume "find_entry G r t ''epochs'' = Inr None" "encoded M0 = Map.empty"
    then show ?thesis using dom by (intro that [of "[]"]) (simp_all add: known_algorithm_ids_def Some)
  next
    fix c es assume "find_entry G r t ''epochs'' = Inr (Some c)" "read_tree G r c = Inr es"
      "epochs_entries G r (encoded M0) es"
    with entry_ids [of G r "encoded M0" es] show ?thesis
      unfolding dom by (intro that) (simp_all add: known_algorithm_ids_def Some del: set_map)
  qed
qed

lemma booked_dom:
  assumes "booked M0 w st"
  shows "dom (so_metas st) = set (gw_registered w) \<union> dom M0"
proof -
  have "a \<in> dom (so_metas st) \<longleftrightarrow> a \<in> set (gw_registered w) \<or> a \<in> dom M0" for a
    using assms unfolding booked_def by (cases "gw_overrides w a") (metis domIff option.simps(4,5) option.distinct(1))+
  then show ?thesis by auto
qed

lemma known_iff:
  assumes "booked M0 w st" "tree_knows G (gw_repo w) tree M0" "a < u64_limit"
  shows "git_known G tree w a = Inr (so_metas st a \<noteq> None)"
proof -
  have old: "so_metas st a \<noteq> None" if "M0 a \<noteq> None"
    using assms(1) that unfolding booked_def by (auto split: option.splits)
  have "epochs_entry_exists G (gw_repo w) tree a = Inr (M0 a \<noteq> None)"
  proof (cases tree)
    case None
    then show ?thesis using assms(2) by (simp add: epochs_entry_exists_def tree_knows_def)
  next
    case (Some t)
    then obtain mb st' where "git_holds G (gw_repo w) t mb (encoded M0) st'"
      using assms(2) by (auto simp: tree_knows_def)
    from read_epochs_ok(1) [OF this assms(3)] show ?thesis by (simp add: Some)
  qed
  then show ?thesis using assms(1) old by (auto simp: git_known_def booked_def)
qed

lemma booked_fields [simp]:
  "booked M0 (w\<lparr>gw_repo := r, gw_editor := ed\<rparr>) st = booked M0 w st"
  "booked M0 w (store_nodes nws st) = booked M0 w st"
  by (simp_all add: booked_def store_nodes_def)

lemma booked_override:
  "booked M0 w st \<Longrightarrow> so_metas st a \<noteq> None \<Longrightarrow>
    booked M0 (git_override a es w) (st\<lparr>so_metas := (so_metas st)(a \<mapsto> es)\<rparr>)"
  by (auto simp: booked_def git_override_def)

lemma booked_new:
  "booked M0 w st \<Longrightarrow> so_metas st a = None \<Longrightarrow>
    booked M0 (git_register a (git_override a es w)) (st\<lparr>so_metas := (so_metas st)(a \<mapsto> es)\<rparr>)"
  by (auto simp: booked_def git_override_def git_register_def split: option.splits)

lemma work_holds_fields [simp]:
  "work_holds G ok editing r0 mb E (git_override a es w) st = work_holds G ok editing r0 mb E w st"
  "work_holds G ok editing r0 mb E (git_register a w) st = work_holds G ok editing r0 mb E w st"
  "work_holds G ok editing r0 mb E (w\<lparr>gw_count := n\<rparr>) st = work_holds G ok editing r0 mb E w st"
  "work_holds G ok editing r0 mb E (w\<lparr>gw_leaves := b\<rparr>) st = work_holds G ok editing r0 mb E w st"
  "work_holds G ok editing r0 mb E w (st\<lparr>so_count := n\<rparr>) = work_holds G ok editing r0 mb E w st"
  "work_holds G ok editing r0 mb E w (st\<lparr>so_metas := M\<rparr>) = work_holds G ok editing r0 mb E w st"
  by (simp_all add: work_holds_def git_override_def git_register_def layout_fits_def layout_count layout_metas)

text \<open>
  A session tracks an abstract store, and an operation on it refines the abstract step: it is accepted
  when the step is, and then tracks the step's result, and is an error of the caller when the step has none.
\<close>

definition tracks ::
    "('r, 'ed, 'm) gix \<Rightarrow> ('r \<Rightarrow> bool) \<Rightarrow> ('r \<Rightarrow> 'ed \<Rightarrow> paths \<Rightarrow> bool) \<Rightarrow> 'r \<Rightarrow> bytes option
      \<Rightarrow> (alg_id \<Rightarrow> epochs option) \<Rightarrow> ('r, 'ed) git_work \<Rightarrow> store \<Rightarrow> bool" where
  "tracks G ok editing r0 mb M0 w st \<longleftrightarrow> work_holds G ok editing r0 mb (encoded M0) w st \<and> booked M0 w st \<and> git_fits st"

definition refined_by :: "('w \<Rightarrow> 's \<Rightarrow> bool) \<Rightarrow> 'm git_error + 'w \<Rightarrow> 's option \<Rightarrow> bool" where
  "refined_by R res spec \<longleftrightarrow>
     (case spec of Some s \<Rightarrow> \<exists>w. res = Inr w \<and> R w s | None \<Rightarrow> \<exists>e. res = Inl (GitInvalid e))"

lemma refined_by_simps [simp]:
  "refined_by R res (Some s) \<longleftrightarrow> (\<exists>w. res = Inr w \<and> R w s)"
  "refined_by R res None \<longleftrightarrow> (\<exists>e. res = Inl (GitInvalid e))"
  by (simp_all add: refined_by_def)

context git_objects begin

lemma seeds_refine:
  assumes "work_holds G ok editing r0 mb (encoded M0) w st" "booked M0 w st" "git_fits st" "tree_knows G r0 tree M0"
    and "list_all (\<lambda>sd. sd_alg sd < u64_limit \<and> epochs_valid (so_count st) (sd_epochs sd)
      \<and> list_all node_fits (sd_nodes sd)) seeds"
  shows "if distinct (map sd_alg seeds) \<and> (\<forall>sd \<in> set seeds. so_metas st (sd_alg sd) = None)
    then \<exists>w'. git_seeds G tree w seeds = Inr w' \<and> work_holds G ok editing r0 mb (encoded M0) w' (fold store_seed seeds st)
      \<and> booked M0 w' (fold store_seed seeds st) \<and> git_fits (fold store_seed seeds st)
    else \<exists>e. git_seeds G tree w seeds = Inl (GitInvalid e)"
  using assms
proof (induction seeds arbitrary: w st)
  case (Cons sd seeds)
  note w = Cons.prems(1) and b = Cons.prems(2) and f = Cons.prems(3)
  have sd: "sd_alg sd < u64_limit" "epochs_valid (so_count st) (sd_epochs sd)" "list_all node_fits (sd_nodes sd)"
    using Cons.prems(5) by simp_all
  have "extends G r0 (gw_repo w)" using w by (simp add: work_holds_def)
  then have known: "git_known G tree w (sd_alg sd) = Inr (so_metas st (sd_alg sd) \<noteq> None)"
    using known_iff [OF b tree_knows_extends [OF Cons.prems(4)] sd(1)] by simp
  show ?case
  proof (cases "so_metas st (sd_alg sd) = None")
    case False
    then have "git_seeds G tree w (sd # seeds) = Inl (GitInvalid (AlreadyRegistered (sd_alg sd)))" by (simp add: known)
    with False show ?thesis by auto
  next
    case True
    let ?w = "git_override (sd_alg sd) (sd_epochs sd) w" and ?st = "st\<lparr>so_metas := (so_metas st)(sd_alg sd \<mapsto> sd_epochs sd)\<rparr>"
    have "work_holds G ok editing r0 mb (encoded M0) ?w ?st" using w by simp
    from work_put_nodes [OF this sd(3)] obtain r' ed' where
      put: "git_put_nodes G ?w (sd_nodes sd) = Inr (?w\<lparr>gw_repo := r', gw_editor := ed'\<rparr>)"
        "work_holds G ok editing r0 mb (encoded M0) (?w\<lparr>gw_repo := r', gw_editor := ed'\<rparr>) (store_seed sd st)"
      by (auto simp: store_seed_def)
    define w' where "w' = git_register (sd_alg sd) (?w\<lparr>gw_repo := r', gw_editor := ed'\<rparr>)"
    have w': "work_holds G ok editing r0 mb (encoded M0) w' (store_seed sd st)" using put(2) by (simp add: w'_def)
    have "booked M0 (git_register (sd_alg sd) ?w) ?st" using b True by (rule booked_new)
    then have b': "booked M0 w' (store_seed sd st)" by (simp add: w'_def store_seed_def booked_def git_register_def store_nodes_def)
    have f': "git_fits (store_seed sd st)" by (rule git_fits_seed [OF f sd])
    have c: "so_count (store_seed sd st) = so_count st" by (simp add: store_seed_def store_nodes_def)
    have m: "so_metas (store_seed sd st) = (so_metas st)(sd_alg sd \<mapsto> sd_epochs sd)"
      by (simp add: store_seed_def store_nodes_def)
    have eq: "git_seeds G tree w (sd # seeds) = git_seeds G tree w' seeds"
      using True put(1) by (simp add: known w'_def)
    have cond: "(distinct (map sd_alg seeds) \<and> (\<forall>sd' \<in> set seeds. so_metas (store_seed sd st) (sd_alg sd') = None))
      \<longleftrightarrow> (distinct (map sd_alg (sd # seeds)) \<and> (\<forall>sd' \<in> set (sd # seeds). so_metas st (sd_alg sd') = None))"
      using True by (auto simp: m) (metis image_eqI)
    have fit: "list_all (\<lambda>sd'. sd_alg sd' < u64_limit \<and> epochs_valid (so_count (store_seed sd st)) (sd_epochs sd')
      \<and> list_all node_fits (sd_nodes sd')) seeds"
      using Cons.prems(5) by (simp add: c)
    have fold: "fold store_seed (sd # seeds) st = fold store_seed seeds (store_seed sd st)" by simp
    show ?thesis using Cons.IH [OF w' b' f' Cons.prems(4) fit] unfolding cond eq fold .
  qed
qed simp

lemma work_known:
  assumes "work_holds G ok editing r0 mb (encoded M0) w st" "booked M0 w st" "tree_knows G r0 tree M0" "a < u64_limit"
  shows "git_known G tree w a = Inr (so_metas st a \<noteq> None)"
  by (rule known_iff [OF assms(2) tree_knows_extends [OF assms(3)] assms(4)]) (use assms(1) in \<open>simp add: work_holds_def\<close>)

lemma leaf_refine:
  assumes w: "work_holds G ok editing r0 mb (encoded M0) w st" and b: "booked M0 w st" and f: "git_fits st"
    and t: "tree_knows G r0 tree M0" and op: "op_fits st (AppendLeaf at data nodes)"
  shows "refined_by (tracks G ok editing r0 mb M0) (git_op G tree w (AppendLeaf at data nodes)) (abs_step (AppendLeaf at data nodes) st)"
proof -
  have count: "gw_count w = so_count st" using b by (simp add: booked_def)
  have fits: "layout_fits (encoded M0) st" using w by (simp add: work_holds_def)
  have o: "so_count st + 1 < u64_max" "length (so_leaves st) = so_count st" "list_all node_fits nodes"
    using op by simp_all
  have "so_count st + 1 < u64_limit" using o(1) u64_max_less_limit by (rule less_trans)
  then have succ: "wrapping_add (so_count st) 1 = so_count st + 1" by (rule wrapping_add_eq)
  let ?st = "st\<lparr>so_leaves := so_leaves st @ [data]\<rparr>"
  show ?thesis
  proof (cases "at = so_count st")
    case True
    have "so_count st + 1 < u64_limit" using o(1) u64_max_less_limit by (rule less_trans)
    then have lim: "so_count st < u64_limit" and "layout_fits (encoded M0) ?st"
      using fits o(2) by (simp_all add: layout_fits_def)
    from work_put [OF w git_keyI(2) [OF lim] _ this(2), of data] layout_leaf [OF _ fits] obtain r' ed' where
      put: "git_put G w (Some (leaf_path at)) data = Inr (w\<lparr>gw_repo := r', gw_editor := ed'\<rparr>)"
        "work_holds G ok editing r0 mb (encoded M0) (w\<lparr>gw_repo := r', gw_editor := ed'\<rparr>) ?st"
      unfolding leaf_path_def True o(2) [symmetric] by blast
    from work_put_nodes [OF put(2) o(3)] obtain r2 ed2 where
      nodes: "git_put_nodes G (w\<lparr>gw_repo := r', gw_editor := ed'\<rparr>) nodes = Inr (w\<lparr>gw_repo := r2, gw_editor := ed2\<rparr>)"
        "work_holds G ok editing r0 mb (encoded M0) (w\<lparr>gw_repo := r2, gw_editor := ed2\<rparr>) (store_nodes nodes ?st)"
      by auto
    let ?w = "w\<lparr>gw_repo := r2, gw_editor := ed2, gw_count := gw_count w + 1, gw_leaves := True\<rparr>"
    let ?st' = "store_nodes nodes (st\<lparr>so_leaves := so_leaves st @ [data], so_count := so_count st + 1\<rparr>)"
    have "?st' = (store_nodes nodes ?st)\<lparr>so_count := so_count st + 1\<rparr>" by (simp add: store_nodes_def)
    then have "work_holds G ok editing r0 mb (encoded M0) ?w ?st'" using nodes(2) by simp
    moreover have "booked M0 ?w ?st'" using b by (simp add: booked_def store_nodes_def)
    moreover have "git_fits ?st'"
      using f o by (intro git_fits_nodes) (auto simp: git_fits_def intro: git_metas_fit_mono)
    moreover have "git_op G tree w (AppendLeaf at data nodes) = Inr ?w"
      using put(1) nodes(1) True succ by (simp add: count)
    ultimately show ?thesis using True by (simp add: tracks_def)
  qed (simp add: count)
qed

lemma subtree_refine:
  assumes w: "work_holds G ok editing r0 mb (encoded M0) w st" and b: "booked M0 w st" and f: "git_fits st"
    and t: "tree_knows G r0 tree M0" and op: "op_fits st (AppendSubtree at nodes)"
  shows "refined_by (tracks G ok editing r0 mb M0) (git_op G tree w (AppendSubtree at nodes)) (abs_step (AppendSubtree at nodes) st)"
proof -
  have count: "gw_count w = so_count st" using b by (simp add: booked_def)
  have o: "so_count st + 1 < u64_max" "so_leaves st = []" "list_all node_fits nodes"
    using op by simp_all
  have "so_count st + 1 < u64_limit" using o(1) u64_max_less_limit by (rule less_trans)
  then have succ: "wrapping_add (so_count st) 1 = so_count st + 1" by (rule wrapping_add_eq)
  show ?thesis
  proof (cases "at = so_count st")
    case True
    from work_put_nodes [OF w o(3)] obtain r' ed' where
      nodes: "git_put_nodes G w nodes = Inr (w\<lparr>gw_repo := r', gw_editor := ed'\<rparr>)"
        "work_holds G ok editing r0 mb (encoded M0) (w\<lparr>gw_repo := r', gw_editor := ed'\<rparr>) (store_nodes nodes st)"
      by blast
    let ?w = "w\<lparr>gw_repo := r', gw_editor := ed', gw_count := gw_count w + 1\<rparr>"
    let ?st' = "store_nodes nodes (st\<lparr>so_count := so_count st + 1\<rparr>)"
    have "?st' = (store_nodes nodes st)\<lparr>so_count := so_count st + 1\<rparr>" by (simp add: store_nodes_def)
    then have "work_holds G ok editing r0 mb (encoded M0) ?w ?st'" using nodes(2) by simp
    moreover have "booked M0 ?w ?st'" using b by (simp add: booked_def store_nodes_def)
    moreover have "git_fits ?st'"
      using f o by (intro git_fits_nodes) (auto simp: git_fits_def intro: git_metas_fit_mono)
    moreover have "git_op G tree w (AppendSubtree at nodes) = Inr ?w" using nodes(1) True succ by (simp add: count)
    ultimately show ?thesis using True by (simp add: tracks_def)
  qed (simp add: count)
qed

lemma resume_refine:
  assumes w: "work_holds G ok editing r0 mb (encoded M0) w st" and b: "booked M0 w st" and f: "git_fits st"
    and t: "tree_knows G r0 tree M0" and op: "op_fits st (ResumeAlgorithm a es nodes)"
  shows "refined_by (tracks G ok editing r0 mb M0) (git_op G tree w (ResumeAlgorithm a es nodes)) (abs_step (ResumeAlgorithm a es nodes) st)"
proof -
  have known: "git_known G tree w a = Inr (so_metas st a \<noteq> None)" if "a < u64_limit"
    by (rule work_known [OF w b t that])
  have o: "a < u64_limit" "epochs_valid (so_count st) es" "list_all node_fits nodes" using op by simp_all
  show ?thesis
  proof (cases "so_metas st a = None")
    case False
    let ?st = "st\<lparr>so_metas := (so_metas st)(a \<mapsto> es)\<rparr>"
    have "work_holds G ok editing r0 mb (encoded M0) (git_override a es w) ?st" using w by simp
    from work_put_nodes [OF this o(3)] obtain r' ed' where
      nodes: "git_put_nodes G (git_override a es w) nodes = Inr ((git_override a es w)\<lparr>gw_repo := r', gw_editor := ed'\<rparr>)"
        "work_holds G ok editing r0 mb (encoded M0) ((git_override a es w)\<lparr>gw_repo := r', gw_editor := ed'\<rparr>) (store_nodes nodes ?st)"
      by blast
    have "booked M0 ((git_override a es w)\<lparr>gw_repo := r', gw_editor := ed'\<rparr>) (store_nodes nodes ?st)"
      using booked_override [OF b False, of es] by simp
    moreover have "git_fits (store_nodes nodes ?st)" by (intro git_fits_nodes git_fits_meta f o)
    ultimately show ?thesis using nodes known [OF o(1)] False by (simp add: tracks_def)
  qed (use known [OF o(1)] in simp)
qed

lemma seed_refine:
  assumes w: "work_holds G ok editing r0 mb (encoded M0) w st" and b: "booked M0 w st" and f: "git_fits st"
    and t: "tree_knows G r0 tree M0" and op: "op_fits st (SeedFrontier n seeds)"
  shows "refined_by (tracks G ok editing r0 mb M0) (git_op G tree w (SeedFrontier n seeds)) (abs_step (SeedFrontier n seeds) st)"
proof -
  have ext: "extends G r0 (gw_repo w)" using w by (simp add: work_holds_def)
  have count: "gw_count w = so_count st" using b by (simp add: booked_def)
  have o: "n + 1 < u64_max" "so_leaves st = []" "list_all (\<lambda>sd. sd_alg sd < u64_limit \<and> epochs_valid n (sd_epochs sd)
      \<and> list_all node_fits (sd_nodes sd)) seeds"
    using op by simp_all
  obtain ids where ids: "known_algorithm_ids G (gw_repo w) tree = Inr ids" "set ids = dom M0"
    using known_ids [OF tree_knows_extends [OF t ext]] by metis
  have reg: "gw_registered w \<noteq> [] \<or> ids \<noteq> [] \<longleftrightarrow> so_metas st \<noteq> Map.empty"
  proof -
    from booked_dom [OF b] show ?thesis using ids(2) by (metis Un_empty dom_eq_empty_conv set_empty)
  qed
  show ?thesis
  proof (cases "so_count st \<noteq> 0 \<or> so_metas st \<noteq> Map.empty")
    case True
    then have "\<exists>e. git_op G tree w (SeedFrontier n seeds) = Inl (GitInvalid e)" using ids(1) reg by (auto simp: count)
    then show ?thesis using True by auto
  next
    case False
    have w': "work_holds G ok editing r0 mb (encoded M0) (w\<lparr>gw_count := n\<rparr>) (st\<lparr>so_count := n\<rparr>)" using w by simp
    have b': "booked M0 (w\<lparr>gw_count := n\<rparr>) (st\<lparr>so_count := n\<rparr>)" using b by (simp add: booked_def)
    have f': "git_fits (st\<lparr>so_count := n\<rparr>)" using f o(1,2) False by (simp add: git_fits_def git_metas_fit_def)
    have fit: "list_all (\<lambda>sd. sd_alg sd < u64_limit \<and> epochs_valid (so_count (st\<lparr>so_count := n\<rparr>)) (sd_epochs sd)
      \<and> list_all node_fits (sd_nodes sd)) seeds"
      using o(3) by simp
    have eq: "git_op G tree w (SeedFrontier n seeds) = git_seeds G tree (w\<lparr>gw_count := n\<rparr>) seeds"
      using False reg ids(1) by (simp add: count)
    show ?thesis
      unfolding eq using seeds_refine [OF w' b' f' t fit] False by (simp add: tracks_def split: if_splits)
  qed
qed

lemma op_refine:
  assumes w: "work_holds G ok editing r0 mb (encoded M0) w st" and b: "booked M0 w st" and f: "git_fits st"
    and t: "tree_knows G r0 tree M0" and op: "op_fits st op"
  shows "refined_by (tracks G ok editing r0 mb M0) (git_op G tree w op) (abs_step op st)"
proof (cases op)
  case (AddAlgorithm a es)
  then have o: "a < u64_limit" "epochs_valid (so_count st) es" using op by simp_all
  show ?thesis
    using booked_new [OF b, of a es] git_fits_meta [OF f o] work_known [OF w b t o(1)] w
    by (cases "so_metas st a = None") (auto simp: AddAlgorithm tracks_def simp del: fun_upd_apply)
next
  case (RemoveAlgorithm a es)
  then have o: "a < u64_limit" "epochs_valid (so_count st) es" using op by simp_all
  show ?thesis
    using booked_override [OF b, of a es] git_fits_meta [OF f o] work_known [OF w b t o(1)] w
    by (cases "so_metas st a = None") (auto simp: RemoveAlgorithm tracks_def simp del: fun_upd_apply)
next
  case (AppendLeaf at data nodes)
  then show ?thesis using leaf_refine [OF assms(1-4)] op by (simp only:)
next
  case (AppendSubtree at nodes)
  then show ?thesis using subtree_refine [OF assms(1-4)] op by (simp only:)
next
  case (ResumeAlgorithm a es nodes)
  then show ?thesis using resume_refine [OF assms(1-4)] op by (simp only:)
next
  case (SeedFrontier n seeds)
  then show ?thesis using seed_refine [OF assms(1-4)] op by (simp only:)
qed

end

section \<open>A batch\<close>

fun ops_fit :: "store \<Rightarrow> write_op list \<Rightarrow> bool" where
  "ops_fit st [] \<longleftrightarrow> True"
| "ops_fit st (op # ops) \<longleftrightarrow>
     op_fits st op \<and> (case abs_step op st of None \<Rightarrow> True | Some st' \<Rightarrow> ops_fit st' ops)"

definition git_meta :: "u64 \<Rightarrow> store \<Rightarrow> bytes option" where
  "git_meta arity st = Some (encode_meta arity (so_count st))"

text \<open>A tree of the layout holds the store; no tree is the empty store.\<close>

definition git_tree :: "('r, 'ed, 'm) gix \<Rightarrow> 'r \<Rightarrow> oid option \<Rightarrow> u64 \<Rightarrow> store \<Rightarrow> bool" where
  "git_tree G r tree arity st \<longleftrightarrow> git_fits st
     \<and> (case tree of None \<Rightarrow> st = empty_store
        | Some t \<Rightarrow> git_holds G r t (git_meta arity st) (encoded (so_metas st)) st)"

lemma git_tree_knows: "git_tree G r tree arity st \<Longrightarrow> tree_knows G r tree (so_metas st)"
  by (auto simp: git_tree_def tree_knows_def empty_store_def split: option.splits)

lemma stored_epochs:
  assumes "git_fits st" "so_metas st a = Some es"
  shows "a < u64_limit" "epochs_fit es" "es \<noteq> []" "layout_epochs_at es (so_count st) = Some es"
proof -
  have v: "a < u64_limit" "epochs_valid (so_count st) es" "so_count st < u64_max"
    using assms by (auto simp: git_fits_def git_metas_fit_def)
  then show "a < u64_limit" "epochs_fit es" "layout_epochs_at es (so_count st) = Some es"
    by (simp_all add: epochs_valid_fit layout_epochs_at_valid)
  show "es \<noteq> []" using v(2) by (simp add: epochs_valid_def)
qed

context git_objects begin

lemma ops_refine:
  assumes "work_holds G ok editing r0 mb (encoded M0) w st" "booked M0 w st" "git_fits st" "tree_knows G r0 tree M0"
    and "ops_fit st ops"
  shows "case abs_apply ops st of
      Some st' \<Rightarrow> \<exists>w'. git_ops G tree w ops = Inr w' \<and> work_holds G ok editing r0 mb (encoded M0) w' st'
        \<and> booked M0 w' st' \<and> git_fits st'
    | None \<Rightarrow> \<exists>e. git_ops G tree w ops = Inl (GitInvalid e)"
  using assms
proof (induction ops arbitrary: w st)
  case (Cons op ops)
  have fit: "op_fits st op" using Cons.prems(5) by simp
  note step = op_refine [OF Cons.prems(1-4) fit]
  show ?case
  proof (cases "abs_step op st")
    case None
    then show ?thesis using step by auto
  next
    case (Some st1)
    then obtain w1 where w1: "git_op G tree w op = Inr w1" "work_holds G ok editing r0 mb (encoded M0) w1 st1"
      "booked M0 w1 st1" "git_fits st1"
      using step by (auto simp: tracks_def)
    have "ops_fit st1 ops" using Cons.prems(5) Some by simp
    from Cons.IH [OF w1(2-4) Cons.prems(4) this] show ?thesis
      by (cases "abs_apply ops st1") (simp_all add: Some w1(1))
  qed
qed simp

lemma project_ok:
  assumes "work_holds G ok editing r0 mb E w st" "booked M0 w st" "git_fits st" "tree_knows G r0 tree M0"
    and "set ids \<subseteq> dom (so_metas st)"
  shows "\<exists>r' ed'. git_project G tree w ids = Inr (w\<lparr>gw_repo := r', gw_editor := ed'\<rparr>)
    \<and> work_holds G ok editing r0 mb (\<lambda>a. if a \<in> set ids then encoded (so_metas st) a else E a)
        (w\<lparr>gw_repo := r', gw_editor := ed'\<rparr>) st"
  using assms
proof (induction ids arbitrary: w E)
  case Nil
  then show ?case by (intro exI [of _ "gw_repo w"] exI [of _ "gw_editor w"]) simp
next
  case (Cons a ids)
  obtain es where es: "so_metas st a = Some es" using Cons.prems(5) by auto
  note s = stored_epochs [OF Cons.prems(3) es]
  have c: "gw_count w = so_count st" using Cons.prems(2) by (simp add: booked_def)
  have ext: "extends G r0 (gw_repo w)" using Cons.prems(1) by (simp add: work_holds_def)
  have src: "(case gw_overrides w a of Some es \<Rightarrow> Inr es | None \<Rightarrow> read_stored_epochs G (gw_repo w) tree a) = Inr es"
  proof (cases "gw_overrides w a")
    case (Some es')
    then show ?thesis using Cons.prems(2) es by (auto simp: booked_def)
  next
    case None
    then have m: "M0 a = Some es" using Cons.prems(2) es by (auto simp: booked_def)
    then obtain t where t: "tree = Some t" using Cons.prems(4) by (cases tree) (auto simp: tree_knows_def)
    with tree_knows_extends [OF Cons.prems(4) ext] obtain mb' st' where
      "git_holds G (gw_repo w) t mb' (encoded M0) st'"
      by (auto simp: tree_knows_def)
    from read_epochs_ok(2) [OF this s(1) _ s(2,3)] m show ?thesis by (simp add: None t encoded_def)
  qed
  have fits: "layout_fits E st" using Cons.prems(1) by (simp add: work_holds_def)
  then have fits': "layout_fits (E(a \<mapsto> encode_epochs es)) st" using s(1) by (simp add: layout_fits_def algs_fit_def)
  have "algs_fit E" using fits by (simp add: layout_fits_def)
  from work_put [OF Cons.prems(1) git_keyI(4) [OF s(1)] layout_epochs [OF _ s(1) this] fits'] obtain r' ed' where
    put: "git_put G w (Some (epochs_path a)) (encode_epochs es) = Inr (w\<lparr>gw_repo := r', gw_editor := ed'\<rparr>)"
      "work_holds G ok editing r0 mb (E(a \<mapsto> encode_epochs es)) (w\<lparr>gw_repo := r', gw_editor := ed'\<rparr>) st"
    unfolding epochs_path_def by blast
  have "booked M0 (w\<lparr>gw_repo := r', gw_editor := ed'\<rparr>) st" using Cons.prems(2) by simp
  from Cons.IH [OF put(2) this Cons.prems(3,4)] Cons.prems(5) obtain r2 ed2 where
    rest: "git_project G tree (w\<lparr>gw_repo := r', gw_editor := ed'\<rparr>) ids = Inr (w\<lparr>gw_repo := r2, gw_editor := ed2\<rparr>)"
      "work_holds G ok editing r0 mb (\<lambda>x. if x \<in> set ids then encoded (so_metas st) x else (E(a \<mapsto> encode_epochs es)) x)
        (w\<lparr>gw_repo := r2, gw_editor := ed2\<rparr>) st"
    by auto
  have eq: "(\<lambda>x. if x \<in> set ids then encoded (so_metas st) x else (E(a \<mapsto> encode_epochs es)) x)
      = (\<lambda>x. if x \<in> set (a # ids) then encoded (so_metas st) x else E x)"
    using es by (auto simp: encoded_def fun_eq_iff)
  have "git_project G tree w (a # ids) = Inr (w\<lparr>gw_repo := r2, gw_editor := ed2\<rparr>)"
    using src put(1) rest(1) by (simp add: c s(4))
  with rest(2) show ?case unfolding eq by blast
qed

lemma callback_stores: "stores_trees G ok (tree_callback G)"
  unfolding stores_trees_def
proof (intro allI impI)
  fix r es buf assume r: "ok r" and b: "gx_tree_bytes G es = Inr buf"
  from write_object [OF r, of TreeKind buf] obtain r' t where
    "write_object G r TreeKind buf = Inr (r', t)" "ok r'" "extends G r r'" "same_refs G r r'"
    "stored_as G r' TreeKind buf t"
    by blast
  with b show "\<exists>r' t. tree_callback G r es = Inr (r', t) \<and> ok r' \<and> extends G r r' \<and> same_refs G r r'
      \<and> gx_find_tree G r' t = Inr es"
    by (simp add: tree_callback_def)
qed

lemma build_session:
  assumes "ok r" "git_tree G r tree arity st"
  shows "\<exists>ed ed' mb. gx_edit G r tree = Inr ed \<and> gx_remove G r ed ''roots'' = Inr ed'
    \<and> work_holds G ok editing r mb (encoded (so_metas st)) \<lparr>gw_repo = r, gw_editor = ed', gw_count = so_count st,
        gw_leaves = so_leaves st \<noteq> [], gw_registered = [], gw_overrides = Map.empty\<rparr> st"
proof -
  have "\<exists>ed pm mb. gx_edit G r tree = Inr ed \<and> editing r ed pm \<and> git_layout pm mb (encoded (so_metas st)) st
      \<and> layout_fits (encoded (so_metas st)) st"
  proof (cases tree)
    case None
    then have st: "st = empty_store" using assms(2) by (simp add: git_tree_def)
    have E: "encoded (so_metas empty_store) = Map.empty" by (simp add: encoded_def empty_store_def fun_eq_iff)
    have "layout_fits Map.empty empty_store"
      by (simp add: layout_fits_def empty_store_def git_nodes_fit_def algs_fit_def u64_limit_def)
    then show ?thesis using edit_empty [OF assms(1)] layout_empty unfolding st E None by blast
  next
    case (Some t)
    then obtain pm where pm: "holds G r t pm" "git_layout pm (git_meta arity st) (encoded (so_metas st)) st"
      "layout_fits (encoded (so_metas st)) st"
      using assms(2) by (auto simp: git_tree_def git_holds_def)
    from edit_tree [OF assms(1) pm(1)] pm(2,3) show ?thesis unfolding Some by blast
  qed
  then obtain ed pm mb where ed: "gx_edit G r tree = Inr ed" "editing r ed pm"
    "git_layout pm mb (encoded (so_metas st)) st" "layout_fits (encoded (so_metas st)) st"
    by blast
  have "segment_ok ''roots''" by (simp add: segment_ok_def)
  from remove [OF assms(1) ed(2) this] obtain ed' where
    "gx_remove G r ed ''roots'' = Inr ed'" "editing r ed' (without_top ''roots'' pm)"
    by blast
  then have rm: "gx_remove G r ed ''roots'' = Inr ed'" "editing r ed' pm"
    unfolding layout_no_roots [OF ed(3)] by simp_all
  show ?thesis
    by (rule exI [of _ ed], rule exI [of _ ed'], rule exI [of _ mb])
      (use assms(1) ed rm in \<open>auto simp: work_holds_def\<close>)
qed

lemma build_refines:
  assumes r: "ok r" and t: "git_tree G r tree arity st" and fit: "ops_fit st ops"
  shows "case abs_apply ops st of
      Some st' \<Rightarrow> \<exists>r' ga. git_build G r arity tree (so_count st) (so_leaves st \<noteq> []) ops = Inr (r', ga)
        \<and> ok r' \<and> extends G r r' \<and> same_refs G r r' \<and> git_tree G r' (Some (ga_tree ga)) arity st'
        \<and> ga_count ga = so_count st' \<and> ga_leaves ga = (so_leaves st' \<noteq> [])
    | None \<Rightarrow> \<exists>e. git_build G r arity tree (so_count st) (so_leaves st \<noteq> []) ops = Inl (GitInvalid e)"
proof -
  let ?M0 = "so_metas st"
  from build_session [OF r t] obtain ed ed' mb where s: "gx_edit G r tree = Inr ed" "gx_remove G r ed ''roots'' = Inr ed'"
    and w: "work_holds G ok editing r mb (encoded ?M0) \<lparr>gw_repo = r, gw_editor = ed', gw_count = so_count st,
        gw_leaves = so_leaves st \<noteq> [], gw_registered = [], gw_overrides = Map.empty\<rparr> st"
    by blast
  define w0 where "w0 = \<lparr>gw_repo = r, gw_editor = ed', gw_count = so_count st,
        gw_leaves = so_leaves st \<noteq> [], gw_registered = [], gw_overrides = Map.empty\<rparr>"
  have b: "booked ?M0 w0 st" by (auto simp: booked_def w0_def)
  have f: "git_fits st" using t by (simp add: git_tree_def)
  note known = git_tree_knows [OF t]
  note ops = ops_refine [OF w [folded w0_def] b f known fit]
  show ?thesis
  proof (cases "abs_apply ops st")
    case None
    then show ?thesis using ops by (auto simp: git_build_def s w0_def)
  next
    case (Some st')
    then obtain w1 where w1: "git_ops G tree w0 ops = Inr w1" "work_holds G ok editing r mb (encoded ?M0) w1 st'"
      "booked ?M0 w1 st'" "git_fits st'"
      using ops by auto
    have ext: "extends G r (gw_repo w1)" using w1(2) by (simp add: work_holds_def)
    obtain ids where ids: "known_algorithm_ids G (gw_repo w1) tree = Inr ids" "set ids = dom ?M0"
      using known_ids [OF tree_knows_extends [OF known ext]] by metis
    let ?all = "ids @ filter (\<lambda>a. a \<notin> set ids) (gw_registered w1)"
    have all: "set ?all = dom (so_metas st')" using booked_dom [OF w1(3)] ids(2) by auto
    from project_ok [OF w1(2,3,4) known, of ?all] all obtain r2 ed2 where
      w2: "git_project G tree w1 ?all = Inr (w1\<lparr>gw_repo := r2, gw_editor := ed2\<rparr>)"
        "work_holds G ok editing r mb (\<lambda>a. if a \<in> set ?all then encoded (so_metas st') a else encoded ?M0 a)
          (w1\<lparr>gw_repo := r2, gw_editor := ed2\<rparr>) st'"
      by blast
    have E: "(\<lambda>a. if a \<in> set ?all then encoded (so_metas st') a else encoded ?M0 a) = encoded (so_metas st')"
      unfolding all using booked_dom [OF w1(3)] by (auto simp: fun_eq_iff encoded_def)
    have fits: "layout_fits (encoded (so_metas st')) st'" using w2(2) unfolding E by (simp add: work_holds_def)
    have meta: "git_layout (pm([''meta''] \<mapsto> encode_meta arity (so_count st'))) (git_meta arity st') (encoded (so_metas st')) st'"
      if "git_layout pm mb (encoded (so_metas st')) st'" for pm
      unfolding git_meta_def by (rule layout_meta [OF that])
    from work_put [OF w2(2) [unfolded E] git_keyI(1) meta fits] obtain r3 ed3 where
      w3: "git_put G (w1\<lparr>gw_repo := r2, gw_editor := ed2\<rparr>) (Some (path_text [''meta''])) (encode_meta arity (so_count st'))
          = Inr (w1\<lparr>gw_repo := r3, gw_editor := ed3\<rparr>)"
        "work_holds G ok editing r (git_meta arity st') (encoded (so_metas st')) (w1\<lparr>gw_repo := r3, gw_editor := ed3\<rparr>) st'"
      by auto
    then obtain pm where pm: "ok r3" "extends G r r3" "same_refs G r r3" "editing r3 ed3 pm"
      "git_layout pm (git_meta arity st') (encoded (so_metas st')) st'"
      by (auto simp: work_holds_def)
    from write_tree [OF pm(1,4) callback_stores] obtain r4 t4 where
      w4: "gx_write G r3 ed3 (tree_callback G) = Inr (r4, t4)" "ok r4" "extends G r3 r4" "same_refs G r3 r4" "holds G r4 t4 pm"
      by blast
    have c: "gw_count w1 = so_count st'" "gw_leaves w1 = (so_leaves st' \<noteq> [])" using w1(3) by (simp_all add: booked_def)
    have "git_build G r arity tree (so_count st) (so_leaves st \<noteq> []) ops
        = Inr (r4, \<lparr>ga_tree = t4, ga_count = so_count st', ga_leaves = so_leaves st' \<noteq> []\<rparr>)"
      using s w1(1) ids(1) w2(1) w3(1) w4(1) unfolding w0_def by (simp add: git_build_def c)
    moreover have "git_tree G r4 (Some t4) arity st'"
      using w1(4) w4(5) pm(5) fits by (auto simp: git_tree_def git_holds_def)
    moreover have "extends G r r4" "same_refs G r r4"
      using pm(2,3) w4(3,4) by (blast intro: objects_kept_trans same_refs_trans)+
    ultimately show ?thesis using w4(2) by (simp add: Some)
  qed
qed

end

end
