(* ===== verification/Store_Git.thy ===== *)
theory Store_Git
  imports Store_Git_Apply
begin

text \<open>
  The git backend as a store, \<^verbatim>\<open>storage-git/src/lib.rs\<close>: the reference update with its retries, the
  \<^verbatim>\<open>Storage\<close> implementation and the read-only view of an earlier tree.  Over a repository that
  works the backend keeps the contract of a store for every operation the log issues.
\<close>

section \<open>The reference update\<close>

definition is_genuine_cas_mismatch :: "'m edit_error \<Rightarrow> bool" where
  "is_genuine_cas_mismatch e =
     (case e of PrepareReferenceOutOfDate \<Rightarrow> True | PrepareMustNotExist \<Rightarrow> True | PrepareMustExist \<Rightarrow> True
      | EditFailed _ \<Rightarrow> False)"

text \<open>Times are in nanoseconds.\<close>

definition retry_bound :: nat where
  "retry_bound = 2000000000"

text \<open>The report of a mismatch; asking a symbolic reference for its object panics.\<close>

definition tip_moved ::
    "('r, 'ed, 'm) gix \<Rightarrow> 'r \<Rightarrow> string \<Rightarrow> oid option \<Rightarrow> 'm git_error" where
  "tip_moved G r name observed =
     (case gx_find_ref G r name of
        Inr (Some ref) \<Rightarrow> (case gr_target ref of ObjectTarget t \<Rightarrow> TipMoved observed (Some t) | SymbolicTarget _ \<Rightarrow> GitStuck)
      | _ \<Rightarrow> TipMoved observed None)"

text \<open>The retry loop; \<open>None\<close> is a loop that does not end.\<close>

partial_function (option) update_ref_loop ::
    "('r, 'ed, 'm) gix \<Rightarrow> string \<Rightarrow> previous_value \<Rightarrow> oid \<Rightarrow> oid option \<Rightarrow> nat \<Rightarrow> 'r \<Rightarrow> nat
      \<Rightarrow> ('r \<times> ('m git_error + unit)) option" where
  "update_ref_loop G name expected new observed start r backoff =
     (case gx_edit_ref G r name (UpdateRef expected new) of
        (r, Inr _) \<Rightarrow> Some (r, Inr ())
      | (r, Inl e) \<Rightarrow>
          if is_genuine_cas_mismatch e then Some (r, Inl (tip_moved G r name observed))
          else
            let elapsed = gx_now G r - start
            in if elapsed \<ge> retry_bound then Some (r, Inl (RefUpdateTransient e))
               else update_ref_loop G name expected new observed start
                 (gx_sleep G r (min backoff (retry_bound - elapsed))) (min (backoff * 2) 100000000))"

definition update_ref ::
    "('r, 'ed, 'm) gix \<Rightarrow> 'r \<Rightarrow> string \<Rightarrow> previous_value \<Rightarrow> oid \<Rightarrow> oid option
      \<Rightarrow> ('r \<times> ('m git_error + unit)) option" where
  "update_ref G r name expected new observed =
     update_ref_loop G name expected new observed (gx_now G r) r 5000000"

section \<open>The backend\<close>

record 'r git_storage =
  gs_repo :: 'r
  gs_ref :: string
  gs_ref_file :: "string list"
  gs_ref_base :: "string list"
  gs_ckpt_prefix :: string
  gs_arity :: u64
  gs_tip :: "oid option"
  gs_count :: u64
  gs_leaves :: bool

definition leaf_len :: "'r git_storage \<Rightarrow> u64" where
  "leaf_len s = (if gs_leaves s then gs_count s else 0)"

definition cas ::
    "('r, 'ed, 'm) gix \<Rightarrow> 'r git_storage \<Rightarrow> 'r \<Rightarrow> oid \<Rightarrow> ('r \<times> ('m git_error + unit)) option" where
  "cas G s r new =
     update_ref G r (gs_ref s) (case gs_tip s of Some t \<Rightarrow> MustExistAndMatch t | None \<Rightarrow> MustNotExist) new (gs_tip s)"

definition git_get_leaf :: "('r, 'ed, 'm) gix \<Rightarrow> 'r git_storage \<Rightarrow> u64 \<Rightarrow> 'm git_error + bytes" where
  "git_get_leaf G s index =
     (case gs_tip s of
        None \<Rightarrow> Inl (NotFound index)
      | Some t \<Rightarrow> git_read_leaf G (gs_repo s) t (leaf_len s) index)"

definition git_len :: "'r git_storage \<Rightarrow> 'm git_error + u64" where
  "git_len s = Inr (leaf_len s)"

definition git_get_node ::
    "('r, 'ed, 'm) gix \<Rightarrow> 'r git_storage \<Rightarrow> alg_id \<Rightarrow> u64 \<Rightarrow> u32 \<Rightarrow> 'm git_error + digest option" where
  "git_get_node G s alg left height =
     (case gs_tip s of None \<Rightarrow> Inr None | Some t \<Rightarrow> git_read_node G (gs_repo s) t alg left height)"

definition git_load_algorithm_metas ::
    "('r, 'ed, 'm) gix \<Rightarrow> 'r git_storage \<Rightarrow> 'm git_error + (alg_id \<times> epochs) list" where
  "git_load_algorithm_metas G s =
     (case gs_tip s of None \<Rightarrow> Inr [] | Some t \<Rightarrow> git_read_metas G (gs_repo s) t)"

definition git_append_count :: "'r git_storage \<Rightarrow> 'm git_error + u64" where
  "git_append_count s = Inr (gs_count s)"

text \<open>
  A failed call keeps the fields of the instance; the objects it may have written are not reached
  from any tree the instance names.
\<close>

definition git_apply ::
    "('r, 'ed, 'm) gix \<Rightarrow> 'r git_storage \<Rightarrow> write_op list \<Rightarrow> 'm git_error + 'r git_storage" where
  "git_apply G s ops =
     bindE (git_build G (gs_repo s) (gs_arity s) (gs_tip s) (gs_count s) (gs_leaves s) ops) (\<lambda>(r, applied).
       case cas G s r (ga_tree applied) of
         None \<Rightarrow> Inl GitStuck
       | Some (r, res) \<Rightarrow> bindE res (\<lambda>_.
           Inr (s\<lparr>gs_repo := r, gs_tip := Some (ga_tree applied), gs_count := ga_count applied,
                  gs_leaves := ga_leaves applied\<rparr>)))"

text \<open>
  The storage the log sees.  Outside the key range, which no call of the log reaches, the model
  answers that there is no node; the source panics there for a height above 255.
\<close>

definition git_ops_of :: "('r, 'ed, 'm) gix \<Rightarrow> ('r git_storage, 'm git_error) storage" where
  "git_ops_of G = \<lparr>st_get_leaf = git_get_leaf G, st_len = git_len,
     st_get_node = (\<lambda>s alg left height. if git_node_key (alg, left, height) then git_get_node G s alg left height else Inr None),
     st_load_algorithm_metas = git_load_algorithm_metas G, st_append_count = git_append_count,
     st_apply = git_apply G\<rparr>"

record log_metadata =
  lm_count :: u64
  lm_kind :: log_kind

definition derive_log_metadata :: "u64 \<Rightarrow> bool \<Rightarrow> log_metadata" where
  "derive_log_metadata count has_leaves =
     \<lparr>lm_count = count, lm_kind = (if count = 0 \<or> has_leaves then Flat else Subtree)\<rparr>"

definition git_metadata :: "'r git_storage \<Rightarrow> log_metadata" where
  "git_metadata s = derive_log_metadata (gs_count s) (gs_leaves s)"

section \<open>The read-only view\<close>

record 'r git_view =
  gv_repo :: 'r
  gv_tree :: oid
  gv_size :: u64
  gv_leaves :: bool

definition open_at :: "('r, 'ed, 'm) gix \<Rightarrow> 'r git_storage \<Rightarrow> oid \<Rightarrow> 'm git_error + 'r git_view" where
  "open_at G s tree =
     bindE (find_entry G (gs_repo s) tree ''meta'') (\<lambda>found.
       case found of
         None \<Rightarrow> Inl (Corruption TreeWithoutMeta)
       | Some m \<Rightarrow> bindE (read_blob G (gs_repo s) m) (\<lambda>bytes.
           bindE (map_err Corruption (decode_meta bytes)) (\<lambda>(arity, count).
           bindE (find_entry G (gs_repo s) tree ''leaves'') (\<lambda>leaves.
             Inr \<lparr>gv_repo = gs_repo s, gv_tree = tree, gv_size = count, gv_leaves = leaves \<noteq> None\<rparr>))))"

definition view_metadata :: "'r git_view \<Rightarrow> log_metadata" where
  "view_metadata v = derive_log_metadata (gv_size v) (gv_leaves v)"

definition view_get_leaf :: "('r, 'ed, 'm) gix \<Rightarrow> 'r git_view \<Rightarrow> u64 \<Rightarrow> 'm git_error + bytes" where
  "view_get_leaf G v index = git_read_leaf G (gv_repo v) (gv_tree v) (gv_size v) index"

definition view_get_node ::
    "('r, 'ed, 'm) gix \<Rightarrow> 'r git_view \<Rightarrow> alg_id \<Rightarrow> u64 \<Rightarrow> u32 \<Rightarrow> 'm git_error + digest option" where
  "view_get_node G v alg left height = git_read_node G (gv_repo v) (gv_tree v) alg left height"

definition view_load_algorithm_metas ::
    "('r, 'ed, 'm) gix \<Rightarrow> 'r git_view \<Rightarrow> 'm git_error + (alg_id \<times> epochs) list" where
  "view_load_algorithm_metas G v = git_read_metas G (gv_repo v) (gv_tree v)"

section \<open>A repository that works\<close>

text \<open>The object a reference points at, or \<open>None\<close> for no such reference.\<close>

definition ref_holds :: "('r, 'ed, 'm) gix \<Rightarrow> 'r \<Rightarrow> string \<Rightarrow> oid option \<Rightarrow> bool" where
  "ref_holds G r name v \<longleftrightarrow>
     (case v of
        None \<Rightarrow> gx_find_ref G r name = Inr None
      | Some t \<Rightarrow> \<exists>ref. gx_find_ref G r name = Inr (Some ref) \<and> gr_target ref = ObjectTarget t \<and> gx_peel G r ref = Inr t)"

fun value_matches :: "oid option \<Rightarrow> previous_value \<Rightarrow> bool" where
  "value_matches v AnyValue \<longleftrightarrow> True"
| "value_matches v MustNotExist \<longleftrightarrow> v = None"
| "value_matches v (MustExistAndMatch t) \<longleftrightarrow> v = Some t"

text \<open>No reference is a directory on the name, or below it.\<close>

definition ref_free :: "('r, 'ed, 'm) gix \<Rightarrow> 'r \<Rightarrow> string \<Rightarrow> bool" where
  "ref_free G r name \<longleftrightarrow> (\<forall>n ref. gx_find_ref G r n = Inr (Some ref) \<longrightarrow>
     \<not> prefix (n @ ''/'') name \<and> \<not> prefix (name @ ''/'') n)"

locale git_repository = git_objects G ok editing
    for G :: "('r, 'ed, 'm) gix" and ok :: "'r \<Rightarrow> bool" and editing :: "'r \<Rightarrow> 'ed \<Rightarrow> paths \<Rightarrow> bool" +
  assumes update_ok: "ok r \<Longrightarrow> ref_holds G r name v \<Longrightarrow> v \<noteq> None \<or> ref_free G r name \<Longrightarrow> value_matches v expected \<Longrightarrow>
      \<exists>r'. gx_edit_ref G r name (UpdateRef expected new) = (r', Inr ()) \<and> ok r' \<and> extends G r r'
        \<and> ref_holds G r' name (Some new) \<and> (\<forall>n. n \<noteq> name \<longrightarrow> gx_find_ref G r' n = gx_find_ref G r n)"
    and update_mismatch: "ok r \<Longrightarrow> ref_holds G r name v \<Longrightarrow> \<not> value_matches v expected \<Longrightarrow>
      \<exists>r' e. gx_edit_ref G r name (UpdateRef expected new) = (r', Inl e) \<and> is_genuine_cas_mismatch e
        \<and> ok r' \<and> extends G r r' \<and> same_refs G r r'"
begin

lemma update_ref_ok:
  assumes "ok r" "ref_holds G r name v" "v \<noteq> None \<or> ref_free G r name" "value_matches v expected"
  shows "\<exists>r'. update_ref G r name expected new observed = Some (r', Inr ()) \<and> ok r' \<and> extends G r r'
    \<and> ref_holds G r' name (Some new) \<and> (\<forall>n. n \<noteq> name \<longrightarrow> gx_find_ref G r' n = gx_find_ref G r n)"
  using update_ok [OF assms, of new] unfolding update_ref_def by (subst update_ref_loop.simps) auto

lemma ref_holds_same: "same_refs G r r' \<Longrightarrow> extends G r r' \<Longrightarrow> ref_holds G r name v \<Longrightarrow> ref_holds G r' name v"
  by (auto simp: ref_holds_def same_refs_def extends_def split: option.splits)

lemma update_ref_mismatch:
  assumes "ok r" "ref_holds G r name v" "\<not> value_matches v expected"
  shows "\<exists>r'. update_ref G r name expected new observed = Some (r', Inl (TipMoved observed v))
    \<and> ok r' \<and> extends G r r' \<and> same_refs G r r'"
proof -
  from update_mismatch [OF assms, of new] obtain r' e where
    e: "gx_edit_ref G r name (UpdateRef expected new) = (r', Inl e)" "is_genuine_cas_mismatch e"
      "ok r'" "extends G r r'" "same_refs G r r'"
    by blast
  have "tip_moved G r' name observed = TipMoved observed v"
    using ref_holds_same [OF e(5,4) assms(2)]
    by (auto simp: tip_moved_def ref_holds_def split: option.splits)
  then have "update_ref G r name expected new observed = Some (r', Inl (TipMoved observed v))"
    unfolding update_ref_def by (subst update_ref_loop.simps) (simp add: e(1,2))
  with e show ?thesis by blast
qed

end

section \<open>The backend keeps the contract\<close>

definition git_state :: "('r, 'ed, 'm) gix \<Rightarrow> ('r \<Rightarrow> bool) \<Rightarrow> 'r git_storage \<Rightarrow> store \<Rightarrow> bool" where
  "git_state G ok s st \<longleftrightarrow> ok (gs_repo s) \<and> git_tree G (gs_repo s) (gs_tip s) (gs_arity s) st
     \<and> gs_count s = so_count st \<and> gs_leaves s = (so_leaves st \<noteq> [])
     \<and> ref_holds G (gs_repo s) (gs_ref s) (gs_tip s) \<and> (gs_tip s = None \<longrightarrow> ref_free G (gs_repo s) (gs_ref s))"

text \<open>The store an instance stands for, as its own reads give it.\<close>

definition git_content :: "('r, 'ed, 'm) gix \<Rightarrow> 'r git_storage \<Rightarrow> store" where
  "git_content G s =
     \<lparr>so_leaves = (if gs_leaves s
        then map (\<lambda>i. case git_get_leaf G s i of Inr d \<Rightarrow> d | Inl _ \<Rightarrow> []) [0..<gs_count s] else []),
      so_nodes = (\<lambda>(a, l, t). if git_node_key (a, l, t)
        then (case git_get_node G s a l t of Inr d \<Rightarrow> d | Inl _ \<Rightarrow> None) else None),
      so_metas = (case git_load_algorithm_metas G s of Inr ms \<Rightarrow> map_of ms | Inl _ \<Rightarrow> Map.empty),
      so_count = gs_count s\<rparr>"

lemma read_metas_ok:
  assumes "git_tree G r (Some t) arity st"
  shows "\<exists>ms. git_read_metas G r t = Inr ms \<and> distinct (map fst ms) \<and> map_of ms = so_metas st"
proof -
  have h: "git_holds G r t (git_meta arity st) (encoded (so_metas st)) st" and f: "git_fits st"
    using assms by (simp_all add: git_tree_def)
  have dom: "dom (encoded (so_metas st)) = dom (so_metas st)" by (auto simp: dom_def)
  from epochs_section [OF h] show ?thesis
  proof (elim disjE exE conjE)
    assume "find_entry G r t ''epochs'' = Inr None" "encoded (so_metas st) = Map.empty"
    moreover from this have "so_metas st = Map.empty" unfolding dom_eq_empty_conv [symmetric] dom [symmetric] by simp
    ultimately show ?thesis by (intro exI [of _ "[]"]) (simp add: git_read_metas_def)
  next
    fix c es assume c: "find_entry G r t ''epochs'' = Inr (Some c)" "read_tree G r c = Inr es"
      and es: "epochs_entries G r (encoded (so_metas st)) es"
    define f where "f = (\<lambda>e :: git_entry. the (parse_hex16 (ge_name e)))"
    have e: "entry_meta G r e = Inr (f e, the (so_metas st (f e)))" if mem: "e \<in> set es" for e
    proof -
      obtain a d where a: "ge_name e = hex16 a" "a < u64_limit" "encoded (so_metas st) a = Some d"
        "gx_find_blob G r (ge_oid e) = Inr d"
        using es mem unfolding epochs_entries_def by blast
      then obtain x where x: "so_metas st a = Some x" "d = encode_epochs x" by (auto simp: encoded_def)
      note s = stored_epochs [OF \<open>git_fits st\<close> x(1)]
      have "f e = a" by (simp add: f_def a(1) parse_hex16_name [OF a(2)])
      then show ?thesis
        using a(4) x s(2,3) parse_hex16_name [OF a(2)]
        by (simp add: entry_meta_def entry_alg_def a(1) read_blob_def decode_epochs_encode)
    qed
    let ?ms = "map (\<lambda>e. (f e, the (so_metas st (f e)))) es"
    have "git_read_metas G r t = Inr ?ms"
      using c mapE_Inr [of es "entry_meta G r" "\<lambda>e. (f e, the (so_metas st (f e)))"] e
      by (simp add: git_read_metas_def)
    moreover have ids: "distinct (map f es)" "set (map f es) = dom (so_metas st)"
      using entry_ids [OF es] unfolding f_def dom by simp_all
    moreover have "map_of ?ms = so_metas st"
    proof
      fix a
      have "map_of (map (\<lambda>x. (x, the (so_metas st x))) (map f es)) a = so_metas st a"
        unfolding map_of_map_restrict ids(2) by (cases "so_metas st a") (auto simp: restrict_map_def)
      then show "map_of ?ms a = so_metas st a" by (simp add: comp_def)
    qed
    ultimately show ?thesis by (intro exI [of _ ?ms]) (simp add: comp_def)
  qed
qed

lemma leaf_len_state:
  assumes "git_state G ok s st"
  shows "leaf_len s = length (so_leaves st)"
  using assms by (auto simp: leaf_len_def git_state_def git_tree_def git_fits_def)

lemma git_state_reads:
  assumes "git_state G ok s st"
  shows "git_node_key (a, l, t) \<Longrightarrow> git_get_node G s a l t = Inr (so_nodes st (a, l, t))"
    and "i < length (so_leaves st) \<Longrightarrow> git_get_leaf G s i = Inr (so_leaves st ! i)"
    and "\<exists>ms. git_load_algorithm_metas G s = Inr ms \<and> distinct (map fst ms) \<and> map_of ms = so_metas st"
    and "git_fits st"
proof -
  have t: "git_tree G (gs_repo s) (gs_tip s) (gs_arity s) st" using assms by (simp add: git_state_def)
  then show f: "git_fits st" by (simp add: git_tree_def)
  have none: "st = empty_store" if "gs_tip s = None" using t that by (simp add: git_tree_def)
  show "git_get_node G s a l t = Inr (so_nodes st (a, l, t))" if "git_node_key (a, l, t)"
    using t that none by (cases "gs_tip s") (auto simp: git_get_node_def git_tree_def empty_store_def read_node_ok)
  show "\<exists>ms. git_load_algorithm_metas G s = Inr ms \<and> distinct (map fst ms) \<and> map_of ms = so_metas st"
  proof (cases "gs_tip s")
    case (Some x)
    then show ?thesis using read_metas_ok t by (simp add: git_load_algorithm_metas_def)
  qed (simp add: none git_load_algorithm_metas_def empty_store_def)
  show "git_get_leaf G s i = Inr (so_leaves st ! i)" if i: "i < length (so_leaves st)"
  proof (cases "gs_tip s")
    case None
    then show ?thesis using none i by (simp add: empty_store_def)
  next
    case (Some x)
    then have h: "git_holds G (gs_repo s) x (git_meta (gs_arity s) st) (encoded (so_metas st)) st"
      using t by (simp add: git_tree_def)
    have "length (so_leaves st) < u64_limit" using h by (auto simp: git_holds_def layout_fits_def)
    with h i show ?thesis
      by (simp add: git_get_leaf_def Some leaf_len_state [OF assms] read_leaf_ok leaf_map_def)
  qed
qed

lemma git_content_state:
  assumes "git_state G ok s st"
  shows "git_content G s = st"
proof -
  note r = git_state_reads [OF assms]
  have c: "gs_count s = so_count st" "gs_leaves s = (so_leaves st \<noteq> [])" using assms by (simp_all add: git_state_def)
  have leaves: "(if gs_leaves s
      then map (\<lambda>i. case git_get_leaf G s i of Inr d \<Rightarrow> d | Inl _ \<Rightarrow> []) [0..<gs_count s] else []) = so_leaves st"
  proof (cases "so_leaves st = []")
    case False
    then have len: "length (so_leaves st) = so_count st" using r(4) by (simp add: git_fits_def)
    have "map (\<lambda>i. case git_get_leaf G s i of Inr d \<Rightarrow> d | Inl _ \<Rightarrow> []) [0..<so_count st] = map ((!) (so_leaves st)) [0..<so_count st]"
      using r(2) len by (intro map_cong) simp_all
    also have "\<dots> = so_leaves st" unfolding len [symmetric] by (rule map_nth)
    finally show ?thesis using False by (simp add: c)
  qed (simp add: c)
  have nodes: "(\<lambda>(a, l, t). if git_node_key (a, l, t)
      then (case git_get_node G s a l t of Inr d \<Rightarrow> d | Inl _ \<Rightarrow> None) else None) = so_nodes st"
  proof
    fix k :: "alg_id \<times> u64 \<times> u32"
    obtain a l t where k: "k = (a, l, t)" by (cases k)
    have "so_nodes st k = None" if "\<not> git_node_key k"
      using r(4) that by (auto simp: git_fits_def git_nodes_fit_def)
    then show "(case k of (a, l, t) \<Rightarrow> if git_node_key (a, l, t)
        then (case git_get_node G s a l t of Inr d \<Rightarrow> d | Inl _ \<Rightarrow> None) else None) = so_nodes st k"
      using r(1) by (auto simp: k)
  qed
  have metas: "(case git_load_algorithm_metas G s of Inr ms \<Rightarrow> map_of ms | Inl _ \<Rightarrow> Map.empty) = so_metas st"
    using r(3) by auto
  show ?thesis unfolding git_content_def leaves nodes metas by (simp add: c)
qed

lemma ops_fit_apply: "op_fits st op \<Longrightarrow> ops_fit st [op]"
  by (simp split: option.splits)

context git_repository begin

definition valid :: "'r git_storage \<Rightarrow> bool" where
  "valid s \<longleftrightarrow> (\<exists>st. git_state G ok s st)"

lemma validE:
  assumes "valid s"
  shows "git_state G ok s (git_content G s)"
  using assms git_content_state unfolding valid_def by metis

lemma apply_refines:
  assumes s: "git_state G ok s st" and fit: "ops_fit st ops"
  shows "case abs_apply ops st of
      Some st' \<Rightarrow> \<exists>s'. git_apply G s ops = Inr s' \<and> git_state G ok s' st'
        \<and> extends G (gs_repo s) (gs_repo s') \<and> gs_ref s' = gs_ref s \<and> gs_arity s' = gs_arity s
        \<and> (\<forall>n. n \<noteq> gs_ref s \<longrightarrow> gx_find_ref G (gs_repo s') n = gx_find_ref G (gs_repo s) n)
    | None \<Rightarrow> \<exists>e. git_apply G s ops = Inl (GitInvalid e)"
proof -
  have s': "ok (gs_repo s)" "git_tree G (gs_repo s) (gs_tip s) (gs_arity s) st" "gs_count s = so_count st"
    "gs_leaves s = (so_leaves st \<noteq> [])" "ref_holds G (gs_repo s) (gs_ref s) (gs_tip s)"
    "gs_tip s = None \<Longrightarrow> ref_free G (gs_repo s) (gs_ref s)"
    using s by (simp_all add: git_state_def)
  note build = build_refines [OF s'(1,2) fit]
  show ?thesis
  proof (cases "abs_apply ops st")
    case None
    then show ?thesis using build by (auto simp: git_apply_def s'(3,4))
  next
    case (Some st')
    then obtain r ga where b: "git_build G (gs_repo s) (gs_arity s) (gs_tip s) (so_count st) (so_leaves st \<noteq> []) ops = Inr (r, ga)"
      "ok r" "extends G (gs_repo s) r" "same_refs G (gs_repo s) r" "git_tree G r (Some (ga_tree ga)) (gs_arity s) st'"
      "ga_count ga = so_count st'" "ga_leaves ga = (so_leaves st' \<noteq> [])"
      using build by auto
    have ref: "ref_holds G r (gs_ref s) (gs_tip s)" by (rule ref_holds_same [OF b(4,3) s'(5)])
    have free: "gs_tip s \<noteq> None \<or> ref_free G r (gs_ref s)"
      using s'(6) b(4) by (auto simp: ref_free_def same_refs_def)
    have "value_matches (gs_tip s) (case gs_tip s of Some t \<Rightarrow> MustExistAndMatch t | None \<Rightarrow> MustNotExist)"
      by (cases "gs_tip s") simp_all
    from update_ref_ok [OF b(2) ref free this, of "ga_tree ga" "gs_tip s"] obtain r' where
      u: "cas G s r (ga_tree ga) = Some (r', Inr ())" "ok r'" "extends G r r'" "ref_holds G r' (gs_ref s) (Some (ga_tree ga))"
        "\<forall>n. n \<noteq> gs_ref s \<longrightarrow> gx_find_ref G r' n = gx_find_ref G r n"
      unfolding cas_def by blast
    let ?s = "s\<lparr>gs_repo := r', gs_tip := Some (ga_tree ga), gs_count := ga_count ga, gs_leaves := ga_leaves ga\<rparr>"
    have "git_apply G s ops = Inr ?s" using b(1) u(1) by (simp add: git_apply_def s'(3,4))
    moreover have "git_tree G r' (Some (ga_tree ga)) (gs_arity s) st'"
      using b(5) git_holds_extends [OF _ u(3)] by (auto simp: git_tree_def)
    then have "git_state G ok ?s st'" using u b(6,7) by (simp add: git_state_def)
    moreover have "extends G (gs_repo s) r'" by (rule objects_kept_trans [OF b(3) u(3)])
    ultimately show ?thesis using u(5) b(4) by (simp add: Some same_refs_def)
  qed
qed

end

sublocale git_repository \<subseteq> git_store: lawful_storage "git_ops_of G" valid "git_content G"
proof
  fix s a l t assume "valid s"
  note s = validE [OF this]
  note r = git_state_reads [OF s]
  show "st_get_node (git_ops_of G) s a l t = Inr (so_nodes (git_content G s) (a, l, t))"
  proof (cases "git_node_key (a, l, t)")
    case True
    then show ?thesis using r(1) by (simp add: git_ops_of_def)
  next
    case False
    then have "so_nodes (git_content G s) (a, l, t) = None"
      using r(4) by (auto simp: git_fits_def git_nodes_fit_def)
    with False show ?thesis by (simp add: git_ops_of_def)
  qed
next
  fix s i assume "valid s" "i < length (so_leaves (git_content G s))"
  then show "st_get_leaf (git_ops_of G) s i = Inr (so_leaves (git_content G s) ! i)"
    using git_state_reads(2) [OF validE] by (simp add: git_ops_of_def)
next
  fix s assume "valid s"
  note s = validE [OF this]
  show "st_len (git_ops_of G) s = Inr (length (so_leaves (git_content G s)))"
    using leaf_len_state [OF s] by (simp add: git_ops_of_def git_len_def)
  show "st_append_count (git_ops_of G) s = Inr (so_count (git_content G s))"
    using s by (simp add: git_ops_of_def git_append_count_def git_state_def)
  show "\<exists>ms. st_load_algorithm_metas (git_ops_of G) s = Inr ms \<and> distinct (map fst ms)
      \<and> map_of ms = so_metas (git_content G s)"
    using git_state_reads(3) [OF s] by (simp add: git_ops_of_def)
next
  fix s op st assume v: "valid s" and fit: "op_fits (git_content G s) op" and step: "abs_step op (git_content G s) = Some st"
  have "abs_apply [op] (git_content G s) = Some st" using step by simp
  with apply_refines [OF validE [OF v] ops_fit_apply [OF fit]] obtain s' where
    "git_apply G s [op] = Inr s'" "git_state G ok s' st"
    by auto
  then show "\<exists>s'. st_apply (git_ops_of G) s [op] = Inr s' \<and> valid s' \<and> git_content G s' = st"
    using git_content_state unfolding valid_def by (auto simp: git_ops_of_def)
qed

end
