(* ===== verification/Store_Git_Checkpoint.thy ===== *)
theory Store_Git_Checkpoint
  imports Store_Git "HOL-Library.Char_ord"
begin

text \<open>
  Durability of the git backend: syncing what a checkpoint needs (\<^verbatim>\<open>storage-git/src/gitutil.rs\<close>), the
  checkpoint references, \<open>checkpoint\<close> and the recovery in \<open>git_new\<close> (\<^verbatim>\<open>storage-git/src/lib.rs\<close>).
\<close>

section \<open>Syncing\<close>

definition sync_if_present ::
    "('r, 'ed, 'm) gix \<Rightarrow> 'r \<Rightarrow> file_path \<Rightarrow> 'm git_error + 'r \<times> bool" where
  "sync_if_present G r path =
     (case gx_fsync G r path of
        (r, SyncDone) \<Rightarrow> Inr (r, True)
      | (r, SyncNoFile) \<Rightarrow> Inr (r, False)
      | (r, SyncError m) \<Rightarrow> Inl (SyncFailed m))"

text \<open>The ordered map and set of what is not synced yet.\<close>

record unsynced =
  us_files :: "(file_path \<times> oid) list"
  us_dirs :: "file_path list"

definition no_unsynced :: unsynced where
  "no_unsynced = \<lparr>us_files = [], us_dirs = []\<rparr>"

definition loose_dir :: "('r, 'ed, 'm) gix \<Rightarrow> oid \<Rightarrow> file_path" where
  "loose_dir G oid = gx_objects_dir G @ [take 2 (gx_hex G oid)]"

definition loose_file :: "('r, 'ed, 'm) gix \<Rightarrow> oid \<Rightarrow> file_path" where
  "loose_file G oid = loose_dir G oid @ [drop 2 (gx_hex G oid)]"

definition unsynced_object :: "('r, 'ed, 'm) gix \<Rightarrow> oid \<Rightarrow> unsynced \<Rightarrow> unsynced" where
  "unsynced_object G oid us =
     us\<lparr>us_files := bt_insert (loose_file G oid) oid (us_files us),
        us_dirs := insort_insert (gx_objects_dir G) (insort_insert (loose_dir G oid) (us_dirs us))\<rparr>"

fun sync_files ::
    "('r, 'ed, 'm) gix \<Rightarrow> 'r \<Rightarrow> (file_path \<times> oid) list \<Rightarrow> 'm git_error + 'r" where
  "sync_files G r [] = Inr r"
| "sync_files G r ((path, oid) # files) =
     bindE (sync_if_present G r path) (\<lambda>(r, present).
       if \<not> present \<and> \<not> gx_exists G r oid then Inl (SyncVanished oid) else sync_files G r files)"

fun sync_dirs :: "('r, 'ed, 'm) gix \<Rightarrow> 'r \<Rightarrow> file_path list \<Rightarrow> 'm git_error + 'r" where
  "sync_dirs G r [] = Inr r"
| "sync_dirs G r (dir # dirs) = bindE (sync_if_present G r dir) (\<lambda>(r, _). sync_dirs G r dirs)"

definition unsynced_sync :: "('r, 'ed, 'm) gix \<Rightarrow> 'r \<Rightarrow> unsynced \<Rightarrow> 'm git_error + 'r" where
  "unsynced_sync G r us = bindE (sync_files G r (us_files us)) (\<lambda>r. sync_dirs G r (us_dirs us))"

text \<open>The directories above a file, the nearest first, up to the base.\<close>

fun dirs_up_to :: "file_path \<Rightarrow> file_path list \<Rightarrow> file_path list" where
  "dirs_up_to base [] = []"
| "dirs_up_to base (dir # dirs) = dir # (if dir = base then [] else dirs_up_to base dirs)"

definition path_ancestors :: "file_path \<Rightarrow> file_path list" where
  "path_ancestors path = map (\<lambda>n. take n path) (rev [0..<Suc (length path)])"

definition sync_ref_any_form ::
    "('r, 'ed, 'm) gix \<Rightarrow> 'r \<Rightarrow> file_path \<Rightarrow> file_path \<Rightarrow> file_path \<Rightarrow> 'm git_error + 'r" where
  "sync_ref_any_form G r file base packed =
     bindE (sync_if_present G r file) (\<lambda>(r, present).
     bindE (if present then Inr (r, True) else sync_if_present G r packed) (\<lambda>(r, _).
       sync_dirs G r (dirs_up_to base (drop 1 (path_ancestors file)))))"

section \<open>What changed between two trees\<close>

text \<open>
  The loop over the entries of one tree, with the recursive call for a subtree; \<open>None\<close> is a
  recursion that does not end.
\<close>

partial_function (option) changed_entries ::
    "('r, 'ed, 'm) gix \<Rightarrow> 'r \<Rightarrow> git_entry list \<Rightarrow> git_entry list \<Rightarrow> oid list \<Rightarrow> ('m git_error + oid list) option" where
  "changed_entries G r old_entries entries out =
     (case entries of
        [] \<Rightarrow> Some (Inr out)
      | e # es \<Rightarrow>
          let twin = find (\<lambda>old. ge_name old = ge_name e) old_entries
          in if (case twin of None \<Rightarrow> False | Some old \<Rightarrow> ge_oid old = ge_oid e)
             then changed_entries G r old_entries es out
             else if ge_tree e then
               (case (case twin of
                        None \<Rightarrow> Inr []
                      | Some old \<Rightarrow> if ge_tree old then read_tree G r (ge_oid old) else Inr []) of
                  Inl err \<Rightarrow> Some (Inl err)
                | Inr old_entries' \<Rightarrow> (case read_tree G r (ge_oid e) of
                    Inl err \<Rightarrow> Some (Inl err)
                  | Inr entries' \<Rightarrow>
                      Option.bind (changed_entries G r old_entries' entries' (out @ [ge_oid e])) (\<lambda>res.
                        case res of
                          Inl err \<Rightarrow> Some (Inl err)
                        | Inr out \<Rightarrow> changed_entries G r old_entries es out)))
             else if gx_exists G r (ge_oid e) then changed_entries G r old_entries es (out @ [ge_oid e])
             else Some (Inl (Corruption (MissingObject (ge_oid e)))))"

definition changed_objects ::
    "('r, 'ed, 'm) gix \<Rightarrow> 'r \<Rightarrow> oid \<Rightarrow> oid option \<Rightarrow> oid list \<Rightarrow> ('m git_error + oid list) option" where
  "changed_objects G r new old out =
     (case (case old of None \<Rightarrow> Inr [] | Some t \<Rightarrow> read_tree G r t) of
        Inl err \<Rightarrow> Some (Inl err)
      | Inr old_entries \<Rightarrow> (case read_tree G r new of
          Inl err \<Rightarrow> Some (Inl err)
        | Inr entries \<Rightarrow> changed_entries G r old_entries entries (out @ [new])))"

section \<open>References\<close>

fun split_slash :: "string \<Rightarrow> string list" where
  "split_slash [] = [[]]"
| "split_slash (c # cs) =
     (if c = CHR ''/'' then [] # split_slash cs
      else case split_slash cs of [] \<Rightarrow> [[c]] | seg # segs \<Rightarrow> (c # seg) # segs)"

definition loose_ref_path :: "('r, 'ed, 'm) gix \<Rightarrow> string \<Rightarrow> 'm git_error + file_path \<times> file_path" where
  "loose_ref_path G name =
     (let base = (case gx_category G name of
          None \<Rightarrow> Some (gx_common_dir G)
        | Some cat \<Rightarrow>
            if cat \<in> {TagRef, LocalBranch, RemoteBranch, NoteRef} then Some (gx_common_dir G)
            else if cat \<in> {PseudoRef, BisectRef, RewrittenRef, WorktreePrivate} then Some (gx_git_dir G)
            else None)
      in case base of
           None \<Rightarrow> Inl (InvalidRef name)
         | Some base \<Rightarrow>
             let relative = (case gx_namespace G of None \<Rightarrow> [] | Some ns \<Rightarrow> ns) @ name
             in Inr (base @ filter (\<lambda>c. c \<noteq> []) (split_slash relative), base))"

definition ckpt_prefix :: "string \<Rightarrow> 'm git_error + string" where
  "ckpt_prefix staging =
     (if list_ex (\<lambda>c. suffix ''.ckpt'' c) (split_slash staging) then Inl (InvalidRef staging)
      else Inr (staging @ ''.ckpt/''))"

text \<open>Decimal numbers, as \<^verbatim>\<open>{:020}\<close> writes them and as \<^verbatim>\<open>u64::from_str\<close> reads them, a plus sign included.\<close>

fun dec_fixed :: "nat \<Rightarrow> nat \<Rightarrow> string" where
  "dec_fixed 0 n = []"
| "dec_fixed (Suc w) n = dec_fixed w (n div 10) @ [hex_digit (n mod 10)]"

definition is_dec_digit :: "char \<Rightarrow> bool" where
  "is_dec_digit c \<longleftrightarrow> (let n = (of_char c :: nat) in 48 \<le> n \<and> n \<le> 57)"

definition parse_u64 :: "string \<Rightarrow> u64 option" where
  "parse_u64 s =
     (let digits = (case s of c # cs \<Rightarrow> if c = CHR ''+'' \<and> cs \<noteq> [] then cs else s | [] \<Rightarrow> []);
          n = foldl (\<lambda>n c. n * 10 + hex_val c) 0 digits
      in if digits = [] \<or> \<not> list_all is_dec_digit digits \<or> n \<ge> u64_limit then None else Some n)"

definition ckpt_name :: "('r, 'ed, 'm) gix \<Rightarrow> string \<Rightarrow> u64 \<Rightarrow> 'm git_error + string" where
  "ckpt_name G ckpts generation =
     (let full = ckpts @ dec_fixed 20 generation
      in if gx_valid_ref G full then Inr full else Inl (InvalidRef full))"

record snap =
  sn_tree :: oid
  sn_count :: u64
  sn_leaves :: bool

record ckpt_ref =
  ck_generation :: u64
  ck_name :: string
  ck_target :: oid
  ck_snap :: "snap option"

definition read_snap :: "('r, 'ed, 'm) gix \<Rightarrow> 'r \<Rightarrow> string \<Rightarrow> u64 \<Rightarrow> 'm git_error + snap option" where
  "read_snap G r name arity =
     bindE (map_err Git (gx_find_ref G r name)) (\<lambda>found.
       case found of
         None \<Rightarrow> Inr None
       | Some ref \<Rightarrow>
           bindE (map_err Git (gx_peel G r ref)) (\<lambda>tree.
           bindE (find_entry G r tree ''meta'') (\<lambda>meta.
             case meta of
               None \<Rightarrow> Inl (Corruption TreeWithoutMeta)
             | Some m \<Rightarrow>
                 bindE (read_blob G r m) (\<lambda>bytes.
                 bindE (map_err Corruption (decode_meta bytes)) (\<lambda>(stored_arity, count).
                   if stored_arity \<noteq> arity then Inl (InvalidArity stored_arity)
                   else bindE (find_entry G r tree ''leaves'') (\<lambda>leaves.
                     Inr (Some \<lparr>sn_tree = tree, sn_count = count, sn_leaves = leaves \<noteq> None\<rparr>)))))))"

definition ref_generation :: "string \<Rightarrow> string \<Rightarrow> u64 option" where
  "ref_generation ckpts name =
     (if prefix ckpts name \<and> length (drop (length ckpts) name) = 20
      then parse_u64 (drop (length ckpts) name) else None)"

fun list_ckpts_loop ::
    "('r, 'ed, 'm) gix \<Rightarrow> 'r \<Rightarrow> string \<Rightarrow> u64 \<Rightarrow> ('m + git_ref) list \<Rightarrow> 'm git_error + ckpt_ref list" where
  "list_ckpts_loop G r ckpts arity [] = Inr []"
| "list_ckpts_loop G r ckpts arity (Inl _ # refs) = list_ckpts_loop G r ckpts arity refs"
| "list_ckpts_loop G r ckpts arity (Inr ref # refs) =
     (case gr_target ref of
        SymbolicTarget _ \<Rightarrow> list_ckpts_loop G r ckpts arity refs
      | ObjectTarget target \<Rightarrow> (case ref_generation ckpts (gr_name ref) of
          None \<Rightarrow> list_ckpts_loop G r ckpts arity refs
        | Some generation \<Rightarrow>
            bindE (case read_snap G r (gr_name ref) arity of
                     Inr snap \<Rightarrow> Inr snap
                   | Inl (InvalidArity a) \<Rightarrow> Inl (InvalidArity a)
                   | Inl _ \<Rightarrow> Inr None) (\<lambda>snap.
            bindE (list_ckpts_loop G r ckpts arity refs) (\<lambda>out.
              Inr (\<lparr>ck_generation = generation, ck_name = gr_name ref, ck_target = target, ck_snap = snap\<rparr> # out)))))"

definition list_ckpts ::
    "('r, 'ed, 'm) gix \<Rightarrow> 'r \<Rightarrow> string \<Rightarrow> u64 \<Rightarrow> 'm git_error + ckpt_ref list" where
  "list_ckpts G r ckpts arity =
     bindE (map_err Git (gx_list_refs G r ckpts)) (\<lambda>refs.
     bindE (list_ckpts_loop G r ckpts arity refs) (\<lambda>out. Inr (sort_key ck_generation out)))"

definition newest_ckpt :: "ckpt_ref list \<Rightarrow> ckpt_ref option" where
  "newest_ckpt ckpts = find (\<lambda>c. ck_snap c \<noteq> None) (rev ckpts)"

definition newest_snap :: "ckpt_ref list \<Rightarrow> snap option" where
  "newest_snap ckpts = Option.bind (newest_ckpt ckpts) ck_snap"

section \<open>The checkpoint\<close>

definition packed_refs :: "('r, 'ed, 'm) gix \<Rightarrow> file_path" where
  "packed_refs G = gx_common_dir G @ [''packed-refs'']"

fun drop_ckpts :: "('r, 'ed, 'm) gix \<Rightarrow> 'r \<Rightarrow> ckpt_ref list \<Rightarrow> 'r" where
  "drop_ckpts G r [] = r"
| "drop_ckpts G r (c # ckpts) =
     drop_ckpts G (fst (gx_edit_ref G r (ck_name c) (DeleteRef (MustExistAndMatch (ck_target c))))) ckpts"

definition next_generation :: "ckpt_ref list \<Rightarrow> u64" where
  "next_generation ckpts = (if ckpts = [] then 1 else (ck_generation (last ckpts) + 1) mod u64_limit)"

text \<open>The call returns \<^verbatim>\<open>self\<close> with the repository as it left it.\<close>

definition git_checkpoint ::
    "('r, 'ed, 'm) gix \<Rightarrow> 'r git_storage \<Rightarrow> 'm git_error + 'r git_storage \<times> u64" where
  "git_checkpoint G s =
     (case gs_tip s of
        None \<Rightarrow> Inr (s, 0)
      | Some tip \<Rightarrow>
          let r = gs_repo s; held = read_snap G r (gs_ref s) (gs_arity s)
          in if (case held of Inr (Some sn) \<Rightarrow> sn_tree sn = tip | _ \<Rightarrow> False) then
               bindE (list_ckpts G r (gs_ckpt_prefix s) (gs_arity s)) (\<lambda>ckpts.
                 if (case newest_snap ckpts of Some n \<Rightarrow> sn_tree n = tip | None \<Rightarrow> False) then Inr (s, gs_count s)
                 else case changed_objects G r tip (map_option sn_tree (newest_snap ckpts)) [] of
                   None \<Rightarrow> Inl GitStuck
                 | Some res \<Rightarrow>
                     bindE res (\<lambda>delta.
                     bindE (unsynced_sync G r (fold (unsynced_object G) delta no_unsynced)) (\<lambda>r.
                     bindE (sync_ref_any_form G r (gs_ref_file s) (gs_ref_base s) (packed_refs G)) (\<lambda>r.
                     bindE (ckpt_name G (gs_ckpt_prefix s) (next_generation ckpts)) (\<lambda>name.
                        case update_ref G r name MustNotExist tip None of
                          None \<Rightarrow> Inl GitStuck
                        | Some (r, res) \<Rightarrow>
                            bindE res (\<lambda>_.
                            bindE (loose_ref_path G name) (\<lambda>(file, base).
                            bindE (sync_ref_any_form G r file base (packed_refs G)) (\<lambda>r.
                              let keep = map_option ck_generation (newest_ckpt ckpts);
                                  stale = filter (\<lambda>c. Some (ck_generation c) \<noteq> keep) ckpts
                              in Inr (s\<lparr>gs_repo := drop_ckpts G r stale\<rparr>, gs_count s)))))))))
             else Inl (TipMoved (Some tip) (case held of Inr (Some sn) \<Rightarrow> Some (sn_tree sn) | _ \<Rightarrow> None)))"

section \<open>Opening and recovery\<close>

datatype prior = PriorAbsent | PriorValue oid | PriorTorn

text \<open>
  What the opening goes on with: the state found at staging or at the checkpoint, whether staging
  has to be reset to it, and whether a new checkpoint is due.
\<close>

definition recovery ::
    "('r, 'ed, 'm) gix \<Rightarrow> 'r \<Rightarrow> 'm git_error + snap option \<Rightarrow> snap option
      \<Rightarrow> 'm git_error + snap option \<times> prior option \<times> bool" where
  "recovery G r staging newest =
     (case newest of
        None \<Rightarrow> (case staging of
            Inr s \<Rightarrow> Inr (s, None, False)
          | Inl (Git m) \<Rightarrow> Inl (NoDurableState m)
          | Inl e \<Rightarrow> Inl e)
      | Some c \<Rightarrow> (case staging of
            Inl (InvalidArity a) \<Rightarrow> Inl (InvalidArity a)
          | Inr (Some s) \<Rightarrow>
              if sn_tree s = sn_tree c then Inr (Some s, None, False)
              else (case changed_objects G r (sn_tree s) (Some (sn_tree c)) [] of
                  None \<Rightarrow> Inl GitStuck
                | Some (Inr _) \<Rightarrow> Inr (Some s, None, True)
                | Some (Inl _) \<Rightarrow> Inr (Some c, Some (PriorValue (sn_tree s)), False))
          | Inr None \<Rightarrow> Inr (Some c, Some PriorAbsent, False)
          | Inl _ \<Rightarrow> Inr (Some c, Some PriorTorn, False)))"

definition reset_staging ::
    "('r, 'ed, 'm) gix \<Rightarrow> 'r git_storage \<Rightarrow> oid \<Rightarrow> prior \<Rightarrow> 'm git_error + 'r git_storage" where
  "reset_staging G s tree prior =
     bindE (case prior of
              PriorAbsent \<Rightarrow> Inr (MustNotExist, None)
            | PriorValue t \<Rightarrow> Inr (MustExistAndMatch t, Some t)
            | PriorTorn \<Rightarrow> (case read_snap G (gs_repo s) (gs_ref s) (gs_arity s) of
                Inr (Some now) \<Rightarrow> Inl (TipMoved None (Some (sn_tree now)))
              | _ \<Rightarrow> Inr (AnyValue, None))) (\<lambda>(expected, seen).
       case update_ref G (gs_repo s) (gs_ref s) expected tree seen of
         None \<Rightarrow> Inl GitStuck
       | Some (r, res) \<Rightarrow> bindE res (\<lambda>_.
           bindE (sync_ref_any_form G r (gs_ref_file s) (gs_ref_base s) (packed_refs G)) (\<lambda>r.
             Inr (s\<lparr>gs_repo := r\<rparr>))))"

text \<open>The instance over what was found.\<close>

definition opened_as ::
    "'r \<Rightarrow> string \<Rightarrow> u64 \<Rightarrow> file_path \<Rightarrow> file_path \<Rightarrow> string \<Rightarrow> snap option \<Rightarrow> 'r git_storage" where
  "opened_as r name arity fname base pre found =
     \<lparr>gs_repo = r, gs_ref = name, gs_ref_file = fname, gs_ref_base = base,
      gs_ckpt_prefix = pre, gs_arity = arity, gs_tip = map_option sn_tree found,
      gs_count = (case found of None \<Rightarrow> 0 | Some sn \<Rightarrow> sn_count sn),
      gs_leaves = (case found of None \<Rightarrow> False | Some sn \<Rightarrow> sn_leaves sn)\<rparr>"

definition git_new :: "('r, 'ed, 'm) gix \<Rightarrow> 'r \<Rightarrow> string \<Rightarrow> u64 \<Rightarrow> 'm git_error + 'r git_storage" where
  "git_new G r staging arity =
     (if \<not> arity_ok arity then Inl (InvalidArity arity)
      else if \<not> gx_valid_ref G staging then Inl (InvalidRef staging)
      else
        bindE (loose_ref_path G staging) (\<lambda>(ref_file, ref_base).
        bindE (ckpt_prefix staging) (\<lambda>ckpts_at.
        bindE (list_ckpts G r ckpts_at arity) (\<lambda>ckpts.
        bindE (recovery G r (read_snap G r staging arity) (newest_snap ckpts)) (\<lambda>(found, reset, due).
          let s = opened_as r staging arity ref_file ref_base ckpts_at found
          in case (reset, found) of
               (Some prior, Some sn) \<Rightarrow> reset_staging G s (sn_tree sn) prior
             | (Some prior, None) \<Rightarrow> Inl GitStuck
             | (None, _) \<Rightarrow> if due then bindE (git_checkpoint G s) (\<lambda>(s, _). Inr s) else Inr s)))))"

text \<open>The result of opening the repository at a path is a parameter.\<close>

definition git_open :: "('r, 'ed, 'm) gix \<Rightarrow> 'm + 'r \<Rightarrow> string \<Rightarrow> u64 \<Rightarrow> 'm git_error + 'r git_storage" where
  "git_open G opened staging arity = bindE (map_err Git opened) (\<lambda>r. git_new G r staging arity)"

end
