(* ===== verification/Store_Git_Recovery.thy ===== *)
theory Store_Git_Recovery
  imports Store_Git_Checkpoint
begin

text \<open>
  What \<^verbatim>\<open>checkpoint\<close> and the opening of the git backend promise: the incremental walk tells a tree
  that lost objects from one that did not, a checkpoint syncs in order and keeps the newest valid
  one, and opening goes on with staging when it is intact and with the checkpoint otherwise.
\<close>

section \<open>The incremental walk\<close>

lemma holds_unique: "holds G r t pm \<Longrightarrow> holds G r t pm' \<Longrightarrow> pm' = pm"
proof (induction arbitrary: pm' rule: holds.induct)
  case (tree t es pm)
  from tree.prems show ?case
  proof (cases rule: holds.cases)
    case t': (tree es')
    have es: "es' = es" using tree.hyps(1) t'(1) by simp
    show ?thesis
    proof
      fix p
      show "pm' p = pm p"
      proof (cases p)
        case Nil
        then show ?thesis using tree.hyps(3) t'(3) by simp
      next
        case (Cons n q)
        show ?thesis
        proof (cases "n \<in> ge_name ` set es")
          case False
          then have "pm (n # q) = None" "pm' (n # q) = None" using tree.hyps(4) t'(4) es by blast+
          then show ?thesis by (simp add: Cons)
        next
          case True
          then obtain e where e: "e \<in> set es" "n = ge_name e" by blast
          have "(\<lambda>p. pm' (ge_name e # p)) = (\<lambda>p. pm (ge_name e # p))"
          proof (cases "ge_tree e")
            case True
            then show ?thesis using tree.IH e(1) t'(5) es by blast
          next
            case False
            then obtain d d' where "gx_find_blob G r (ge_oid e) = Inr d" "(\<lambda>p. pm (ge_name e # p)) = [[] \<mapsto> d]"
              "gx_find_blob G r (ge_oid e) = Inr d'" "(\<lambda>p. pm' (ge_name e # p)) = [[] \<mapsto> d']"
              using tree.hyps(5) t'(6) e(1) es by blast
            then show ?thesis by simp
          qed
          from fun_cong [OF this, of q] show ?thesis by (simp add: Cons e(2))
        qed
      qed
    qed
  qed
qed

text \<open>An entry reads: a tree with all below it, or a blob.\<close>

definition entry_reads :: "('r, 'ed, 'm) gix \<Rightarrow> 'r \<Rightarrow> git_entry \<Rightarrow> bool" where
  "entry_reads G r e \<longleftrightarrow>
     (if ge_tree e then \<exists>pm. holds G r (ge_oid e) pm else \<exists>d. gx_find_blob G r (ge_oid e) = Inr d)"

lemma entry_reads_iff:
  "ge_tree e \<Longrightarrow> entry_reads G r e \<longleftrightarrow> (\<exists>pm. holds G r (ge_oid e) pm)"
  "\<not> ge_tree e \<Longrightarrow> entry_reads G r e \<longleftrightarrow> (\<exists>d. gx_find_blob G r (ge_oid e) = Inr d)"
  by (simp_all add: entry_reads_def)

lemma holds_reads: "holds G r t pm \<Longrightarrow> gx_find_tree G r t = Inr es \<Longrightarrow> e \<in> set es \<Longrightarrow> entry_reads G r e"
  by (erule holds.cases) (auto simp: entry_reads_def)

lemma entry_reads_extends:
  assumes "entry_reads G r e" "extends G r r'"
  shows "entry_reads G r' e"
proof (cases "ge_tree e")
  case True
  then obtain pm where "holds G r (ge_oid e) pm" using assms(1) by (auto simp: entry_reads_def)
  from holds_extends [OF this assms(2)] True show ?thesis by (auto simp: entry_reads_def)
qed (use assms in \<open>auto simp: entry_reads_def extends_def\<close>)

text \<open>The tree of an earlier state of the repository holds in \<open>r\<close> what it held, if its entries read there.\<close>

lemma holds_again:
  assumes "holds G r0 t pm" "extends G r r0" "gx_find_tree G r t = Inr es" "\<forall>e \<in> set es. entry_reads G r e"
  shows "holds G r t pm"
  using assms(1)
proof (cases rule: holds.cases)
  case (tree es0)
  have es: "es0 = es" using tree(1) assms(2,3) by (auto simp: extends_def)
  show ?thesis
  proof (rule holds.tree [OF assms(3)])
    show "\<forall>e \<in> set es. ge_tree e \<longrightarrow> holds G r (ge_oid e) (\<lambda>p. pm (ge_name e # p)) \<and> (\<exists>p. pm (ge_name e # p) \<noteq> None)"
    proof (intro ballI impI)
      fix e assume e: "e \<in> set es" "ge_tree e"
      then have old: "holds G r0 (ge_oid e) (\<lambda>p. pm (ge_name e # p))" "\<exists>p. pm (ge_name e # p) \<noteq> None"
        using tree(5) es by blast+
      obtain pm' where h: "holds G r (ge_oid e) pm'" using bspec [OF assms(4) e(1)] e(2) by (auto simp: entry_reads_iff)
      have "pm' = (\<lambda>p. pm (ge_name e # p))"
        by (rule holds_unique [OF old(1) holds_extends [OF h assms(2)]])
      with h old(2) show "holds G r (ge_oid e) (\<lambda>p. pm (ge_name e # p)) \<and> (\<exists>p. pm (ge_name e # p) \<noteq> None)"
        by simp
    qed
    show "\<forall>e \<in> set es. \<not> ge_tree e \<longrightarrow>
        (\<exists>data. gx_find_blob G r (ge_oid e) = Inr data \<and> (\<lambda>p. pm (ge_name e # p)) = [[] \<mapsto> data])"
    proof (intro ballI impI)
      fix e assume e: "e \<in> set es" "\<not> ge_tree e"
      then obtain d where d: "gx_find_blob G r (ge_oid e) = Inr d"
        using bspec [OF assms(4) e(1)] by (auto simp: entry_reads_iff)
      then have "gx_find_blob G r0 (ge_oid e) = Inr d" using assms(2) by (simp add: extends_def)
      with d show "\<exists>data. gx_find_blob G r (ge_oid e) = Inr data \<and> (\<lambda>p. pm (ge_name e # p)) = [[] \<mapsto> data]"
        using tree(6) e es by auto
    qed
  qed (use tree es in simp_all)
qed

text \<open>
  Reading in a repository that may have lost objects of an earlier state \<open>r0\<close>: an object has one kind,
  what reads exists, and a blob that exists reads as it did.
\<close>

definition lost_objects :: "('r, 'ed, 'm) gix \<Rightarrow> 'r \<Rightarrow> 'r \<Rightarrow> bool" where
  "lost_objects G r0 r \<longleftrightarrow> extends G r r0
     \<and> (\<forall>t es. gx_find_tree G r0 t = Inr es \<longrightarrow> (\<forall>d. gx_find_blob G r0 t \<noteq> Inr d))
     \<and> (\<forall>b d. gx_find_blob G r b = Inr d \<longrightarrow> gx_exists G r b)
     \<and> (\<forall>b d. gx_exists G r b \<longrightarrow> gx_find_blob G r0 b = Inr d \<longrightarrow> gx_find_blob G r b = Inr d)
     \<and> (\<forall>t es. gx_find_tree G r t = Inr es \<longrightarrow> gx_exists G r t)"

lemma lost_objectsD:
  assumes "lost_objects G r0 r"
  shows "extends G r r0" "gx_find_tree G r0 t = Inr es \<Longrightarrow> gx_find_blob G r0 t \<noteq> Inr d"
    "gx_find_blob G r b = Inr d \<Longrightarrow> gx_exists G r b"
    "gx_exists G r b \<Longrightarrow> gx_find_blob G r0 b = Inr d \<Longrightarrow> gx_find_blob G r b = Inr d"
    "gx_find_tree G r t = Inr es \<Longrightarrow> gx_exists G r t"
  using assms unfolding lost_objects_def by blast+

text \<open>A shared entry reads, because it is an entry of a tree that does.\<close>

lemma shared_reads:
  assumes "lost_objects G r0 r" "entry_reads G r0 e" "entry_reads G r old" "ge_oid old = ge_oid e"
  shows "entry_reads G r e"
proof -
  have old: "entry_reads G r0 old" by (rule entry_reads_extends [OF assms(3) lost_objectsD(1) [OF assms(1)]])
  have "ge_tree old = ge_tree e"
  proof (rule ccontr)
    assume "ge_tree old \<noteq> ge_tree e"
    then obtain pm d where "holds G r0 (ge_oid e) pm" "gx_find_blob G r0 (ge_oid e) = Inr d"
      using assms(2,4) old unfolding entry_reads_def by (auto split: if_splits)
    then show False using lost_objectsD(2) [OF assms(1)] by (auto elim!: holds.cases)
  qed
  then show ?thesis using assms(3,4) by (cases "ge_tree e") (simp_all add: entry_reads_iff)
qed

lemma holds_tree_reads:
  assumes "holds G r t pm"
  obtains es where "gx_find_tree G r t = Inr es" "\<forall>e \<in> set es. entry_reads G r e"
  using assms holds_reads [OF assms] by (auto elim: holds.cases)

lemma entry_tree_iff:
  assumes "lost_objects G r0 r" "entry_reads G r0 e" "ge_tree e" "gx_find_tree G r (ge_oid e) = Inr es"
  shows "entry_reads G r e \<longleftrightarrow> (\<forall>e' \<in> set es. entry_reads G r e')"
proof
  assume "entry_reads G r e"
  then obtain pm where "holds G r (ge_oid e) pm" using assms(3) by (auto simp: entry_reads_def)
  then show "\<forall>e' \<in> set es. entry_reads G r e'" using assms(4) by (auto elim: holds_tree_reads)
next
  assume all: "\<forall>e' \<in> set es. entry_reads G r e'"
  obtain pm where "holds G r0 (ge_oid e) pm" using assms(2,3) by (auto simp: entry_reads_def)
  from holds_again [OF this lost_objectsD(1) [OF assms(1)] assms(4) all] assms(3)
  show "entry_reads G r e" by (auto simp: entry_reads_def)
qed

text \<open>
  The walk over a tree of an earlier state, against an older tree that reads: it ends, it succeeds
  exactly when everything it walks over reads, and the objects it reports exist.
\<close>

definition walk_exact ::
    "('r, 'ed, 'm) gix \<Rightarrow> 'r \<Rightarrow> git_entry list \<Rightarrow> git_entry list \<Rightarrow> oid list \<Rightarrow> bool" where
  "walk_exact G r old es out \<longleftrightarrow> (\<exists>res. changed_entries G r old es out = Some res
     \<and> ((\<exists>out'. res = Inr out') \<longleftrightarrow> (\<forall>e \<in> set es. entry_reads G r e))
     \<and> (\<forall>out'. res = Inr out' \<longrightarrow> (\<forall>oid \<in> set out'. oid \<in> set out \<or> gx_exists G r oid)))"

definition twin_entries ::
    "('r, 'ed, 'm) gix \<Rightarrow> 'r \<Rightarrow> git_entry option \<Rightarrow> 'm git_error + git_entry list" where
  "twin_entries G r twin =
     (case twin of None \<Rightarrow> Inr [] | Some old \<Rightarrow> if ge_tree old then read_tree G r (ge_oid old) else Inr [])"

lemma twin_entries_read:
  assumes "\<And>o'. twin = Some o' \<Longrightarrow> entry_reads G r o'"
  obtains olds where "twin_entries G r twin = Inr olds" "\<forall>o' \<in> set olds. entry_reads G r o'"
proof (cases "\<exists>o'. twin = Some o' \<and> ge_tree o'")
  case True
  then obtain o' where o': "twin = Some o'" "ge_tree o'" by blast
  then obtain pm where "holds G r (ge_oid o') pm" using assms by (auto simp: entry_reads_iff)
  then obtain es where "gx_find_tree G r (ge_oid o') = Inr es" "\<forall>e \<in> set es. entry_reads G r e"
    by (rule holds_tree_reads)
  then show ?thesis using o' by (intro that) (simp_all add: twin_entries_def read_tree_def)
next
  case False
  then have "twin_entries G r twin = Inr []" by (cases twin) (auto simp: twin_entries_def)
  then show ?thesis by (rule that) simp
qed

lemma walk_step:
  "changed_entries G r old (e # es) out =
     (let twin = find (\<lambda>o'. ge_name o' = ge_name e) old
      in if (case twin of None \<Rightarrow> False | Some o' \<Rightarrow> ge_oid o' = ge_oid e) then changed_entries G r old es out
         else if ge_tree e then
           (case twin_entries G r twin of
              Inl err \<Rightarrow> Some (Inl err)
            | Inr olds \<Rightarrow> (case read_tree G r (ge_oid e) of
                Inl err \<Rightarrow> Some (Inl err)
              | Inr es' \<Rightarrow> Option.bind (changed_entries G r olds es' (out @ [ge_oid e])) (\<lambda>res.
                  case res of Inl err \<Rightarrow> Some (Inl err) | Inr out \<Rightarrow> changed_entries G r old es out)))
         else if gx_exists G r (ge_oid e) then changed_entries G r old es (out @ [ge_oid e])
         else Some (Inl (Corruption (MissingObject (ge_oid e)))))"
  by (subst changed_entries.simps) (simp add: twin_entries_def Let_def)

lemma walk_Nil: "walk_exact G r old [] out"
  by (simp add: walk_exact_def changed_entries.simps [of _ _ _ "[]"])

lemma walk_Cons:
  assumes lost: "lost_objects G r0 r" and e0: "entry_reads G r0 e"
    and old: "\<forall>o' \<in> set old. entry_reads G r o'" and tail: "\<And>out. walk_exact G r old es out"
    and sub: "\<And>olds es' out. ge_tree e \<Longrightarrow> \<forall>o' \<in> set olds. entry_reads G r o' \<Longrightarrow>
      gx_find_tree G r (ge_oid e) = Inr es' \<Longrightarrow> walk_exact G r olds es' out"
  shows "walk_exact G r old (e # es) out"
proof -
  define twin where "twin = find (\<lambda>o'. ge_name o' = ge_name e) old"
  have twin: "entry_reads G r o'" if "twin = Some o'" for o'
    using old that by (auto simp: find_Some_iff twin_def)
  note step = walk_step [of G r old e es out, folded twin_def, unfolded Let_def]
  show ?thesis
  proof (cases "case twin of None \<Rightarrow> False | Some o' \<Rightarrow> ge_oid o' = ge_oid e")
    case True
    then obtain o' where "twin = Some o'" "ge_oid o' = ge_oid e" by (auto split: option.splits)
    then have "entry_reads G r e" by (intro shared_reads [OF lost e0 twin])
    moreover have "changed_entries G r old (e # es) out = changed_entries G r old es out"
      unfolding step using True by (rule if_P)
    ultimately show ?thesis using tail [of out] by (simp add: walk_exact_def)
  next
    case diff: False
    show ?thesis
    proof (cases "ge_tree e")
      case False
      then obtain d where d: "gx_find_blob G r0 (ge_oid e) = Inr d" using e0 by (auto simp: entry_reads_iff)
      have "gx_exists G r (ge_oid e) \<longleftrightarrow> entry_reads G r e"
        unfolding entry_reads_iff(2) [OF False] using lost_objectsD(3) [OF lost] lost_objectsD(4) [OF lost _ d] by metis
      moreover have "changed_entries G r old (e # es) out
          = (if gx_exists G r (ge_oid e) then changed_entries G r old es (out @ [ge_oid e])
             else Some (Inl (Corruption (MissingObject (ge_oid e)))))"
        unfolding step if_not_P [OF diff] using False by (rule if_not_P)
      ultimately show ?thesis using tail [of "out @ [ge_oid e]"] by (auto simp: walk_exact_def)
    next
      case True
      obtain olds where olds: "twin_entries G r twin = Inr olds" "\<forall>o' \<in> set olds. entry_reads G r o'"
        by (rule twin_entries_read [OF twin])
      show ?thesis
      proof (cases "gx_find_tree G r (ge_oid e)")
        case (Inl err)
        then have "\<not> entry_reads G r e" using True by (auto simp: entry_reads_iff elim: holds_tree_reads)
        moreover have "changed_entries G r old (e # es) out = Some (Inl (Git err))"
          unfolding step if_not_P [OF diff] if_P [OF True] olds(1) using Inl by (simp add: read_tree_def)
        ultimately show ?thesis by (auto simp: walk_exact_def)
      next
        case (Inr es')
        obtain res where res: "changed_entries G r olds es' (out @ [ge_oid e]) = Some res"
          "(\<exists>out'. res = Inr out') \<longleftrightarrow> (\<forall>e' \<in> set es'. entry_reads G r e')"
          "\<forall>out'. res = Inr out' \<longrightarrow> (\<forall>oid \<in> set out'. oid \<in> set (out @ [ge_oid e]) \<or> gx_exists G r oid)"
          using sub [OF True olds(2) Inr] unfolding walk_exact_def by blast
        have eq: "changed_entries G r old (e # es) out
            = (case res of Inl err \<Rightarrow> Some (Inl err) | Inr out \<Rightarrow> changed_entries G r old es out)"
          unfolding step if_not_P [OF diff] if_P [OF True] olds(1) using Inr res(1) by (simp add: read_tree_def)
        have iff: "(\<exists>out'. res = Inr out') \<longleftrightarrow> entry_reads G r e"
          using res(2) entry_tree_iff [OF lost e0 True Inr] by simp
        show ?thesis
        proof (cases res)
          case (Inl err)
          then show ?thesis using iff eq by (auto simp: walk_exact_def)
        next
          case (Inr out')
          have "gx_exists G r (ge_oid e)" by (rule lost_objectsD(5) [OF lost \<open>gx_find_tree G r (ge_oid e) = Inr es'\<close>])
          then have "\<forall>oid \<in> set out'. oid \<in> set out \<or> gx_exists G r oid" using res(3) Inr by auto
          then show ?thesis using iff tail [of out'] Inr unfolding walk_exact_def eq by fastforce
        qed
      qed
    qed
  qed
qed

lemma walk_tree:
  assumes "holds G r0 t pm" "lost_objects G r0 r" "gx_find_tree G r t = Inr es" "\<forall>o' \<in> set old. entry_reads G r o'"
  shows "walk_exact G r old es out"
  using assms
proof (induction arbitrary: old es out rule: holds.induct)
  case (tree t es0 pm)
  have "es0 = es" using tree.hyps(1) tree.prems lost_objectsD(1) [OF tree.prems(1)] by (auto simp: extends_def)
  then have e0: "\<forall>e \<in> set es. entry_reads G r0 e"
    using holds_reads [OF holds.tree [OF tree.hyps(1-4)] tree.hyps(1)] tree.IH tree.hyps(5) by blast
  have sub: "walk_exact G r olds es' out" if "e \<in> set es" "ge_tree e" "\<forall>o' \<in> set olds. entry_reads G r o'"
      "gx_find_tree G r (ge_oid e) = Inr es'" for e olds es' out
    using tree.IH tree.prems(1) that \<open>es0 = es\<close> by blast
  have "walk_exact G r old xs out" if "set xs \<subseteq> set es" for xs out
    using that
  proof (induction xs arbitrary: out)
    case (Cons e xs)
    show ?case
      by (rule walk_Cons [OF tree.prems(1) _ tree.prems(3)]) (use Cons e0 sub in auto)
  qed (rule walk_Nil)
  then show ?case by blast
qed

text \<open>The check of a tree against an older one that reads.\<close>

lemma changed_objects_exact:
  assumes "holds G r0 t pm" "lost_objects G r0 r" "\<And>c. old = Some c \<Longrightarrow> \<exists>pm'. holds G r c pm'"
  shows "\<exists>res. changed_objects G r t old out = Some res \<and> ((\<exists>out'. res = Inr out') \<longleftrightarrow> holds G r t pm)
    \<and> (\<forall>out'. res = Inr out' \<longrightarrow> (\<forall>oid \<in> set out'. oid \<in> set out \<or> gx_exists G r oid))"
proof -
  obtain olds where olds: "(case old of None \<Rightarrow> Inr [] | Some c \<Rightarrow> read_tree G r c) = (Inr olds :: 'c git_error + git_entry list)"
    "\<forall>o' \<in> set olds. entry_reads G r o'"
  proof (cases old)
    case (Some c)
    then obtain pm' where "holds G r c pm'" using assms(3) by blast
    then obtain es where "gx_find_tree G r c = Inr es" "\<forall>e \<in> set es. entry_reads G r e" by (rule holds_tree_reads)
    then show ?thesis by (intro that [of es]) (simp_all add: Some read_tree_def)
  qed (simp add: that)
  show ?thesis
  proof (cases "gx_find_tree G r t")
    case (Inl err)
    then have "\<not> holds G r t pm" by (auto elim: holds_tree_reads)
    then show ?thesis using Inl olds(1) by (simp add: changed_objects_def read_tree_def)
  next
    case (Inr es)
    have "holds G r t pm \<longleftrightarrow> (\<forall>e \<in> set es. entry_reads G r e)"
      using holds_again [OF assms(1) lost_objectsD(1) [OF assms(2)] Inr] holds_reads [OF _ Inr] by blast
    moreover have "walk_exact G r olds es (out @ [t])" by (rule walk_tree [OF assms(1,2) Inr olds(2)])
    moreover have "gx_exists G r t" by (rule lost_objectsD(5) [OF assms(2) Inr])
    ultimately show ?thesis using Inr olds(1) by (auto simp: changed_objects_def read_tree_def walk_exact_def)
  qed
qed

section \<open>Reading a reference\<close>

lemma leaves_entry:
  assumes "git_holds G r t mb E st"
  shows "\<exists>x. find_entry G r t ''leaves'' = Inr x \<and> (x \<noteq> None \<longleftrightarrow> so_leaves st \<noteq> [])"
proof -
  obtain pm where h: "holds G r t pm" and pm: "git_layout pm mb E st" "layout_fits E st"
    using assms unfolding git_holds_def by blast
  have iff: "(\<exists>p. pm (''leaves'' # p) \<noteq> None) \<longleftrightarrow> so_leaves st \<noteq> []"
  proof
    assume "\<exists>p. pm (''leaves'' # p) \<noteq> None"
    then obtain p d where "pm (''leaves'' # p) = Some d" by blast
    then have "keyed leaf_segments (leaf_map (so_leaves st)) (''leaves'' # p) d"
      using pm(1) unfolding git_layout_def by (auto simp: keyed_def epochs_segments_def node_at.simps node_segments_def)
    then show "so_leaves st \<noteq> []" by (auto simp: keyed_def leaf_map_def)
  next
    assume ne: "so_leaves st \<noteq> []"
    have "(0 :: nat) < u64_limit" by (simp add: u64_limit_def)
    from layout_lookup(2) [OF pm this] ne show "\<exists>p. pm (''leaves'' # p) \<noteq> None"
      by (auto simp: leaf_map_def leaf_segments_def)
  qed
  from h show ?thesis
  proof (cases rule: holds_entry [where name = "''leaves''"])
    case 1
    then show ?thesis using iff by (intro exI [of _ None]) simp
  next
    case (2 c pm')
    then show ?thesis using iff by (intro exI [of _ "Some c"]) simp
  next
    case (3 c d)
    then have "\<exists>p. pm (''leaves'' # p) \<noteq> None" by (intro exI [of _ "[]"]) simp
    then show ?thesis using iff 3(1) by (intro exI [of _ "Some c"]) simp
  qed
qed

lemma meta_entry:
  assumes "git_holds G r t (Some b) E st"
  shows "\<exists>m. find_entry G r t ''meta'' = Inr (Some m) \<and> gx_find_blob G r m = Inr b"
proof -
  from assms git_keyI(1) obtain pm where pm: "git_layout pm (Some b) E st" "layout_fits E st"
    and read: "case pm (''meta'' # []) of
      None \<Rightarrow> find_entry G r t ''meta'' = Inr None
        \<or> (\<exists>c. find_entry G r t ''meta'' = Inr (Some c) \<and> resolve_at_path G r c [] = Inr None)
    | Some d \<Rightarrow> \<exists>c x. find_entry G r t ''meta'' = Inr (Some c) \<and> resolve_at_path G r c [] = Inr (Some x)
        \<and> gx_find_blob G r x = Inr d"
    by (rule git_holds_read)
  show ?thesis using read layout_lookup(1) [OF pm] by simp
qed

definition snap_of :: "oid \<Rightarrow> store \<Rightarrow> snap" where
  "snap_of t st = \<lparr>sn_tree = t, sn_count = so_count st, sn_leaves = so_leaves st \<noteq> []\<rparr>"

text \<open>In a repository that may have lost objects a reference to the tree reads as the tree, or is torn.\<close>

lemma read_snap_lost:
  assumes ref: "ref_holds G r name (Some t)" and t: "git_tree G r0 (Some t) arity st" and ar: "arity < 2 ^ 16"
    and lost: "lost_objects G r0 r"
  shows "read_snap G r name arity = Inr (Some (snap_of t st))
    \<or> (\<exists>e. read_snap G r name arity = Inl e \<and> (\<forall>a. e \<noteq> InvalidArity a))"
proof -
  obtain ref where ref: "gx_find_ref G r name = Inr (Some ref)" "gx_peel G r ref = Inr t"
    using ref by (auto simp: ref_holds_def)
  have h: "git_holds G r0 t (Some (encode_meta arity (so_count st))) (encoded (so_metas st)) st"
    and f: "git_fits st"
    using t by (simp_all add: git_tree_def git_meta_def)
  obtain m where m: "find_entry G r0 t ''meta'' = Inr (Some m)" "gx_find_blob G r0 m = Inr (encode_meta arity (so_count st))"
    using meta_entry [OF h] by blast
  obtain x where x: "find_entry G r0 t ''leaves'' = Inr x" "x \<noteq> None \<longleftrightarrow> so_leaves st \<noteq> []" using leaves_entry [OF h] by blast
  have "so_count st < u64_limit" using f u64_max_less_limit unfolding git_fits_def by (blast intro: less_trans)
  then have dec: "decode_meta (encode_meta arity (so_count st)) = Inr (arity, so_count st)" by (rule decode_encode_meta [OF ar])
  note ext = lost_objectsD(1) [OF lost]
  show ?thesis
  proof (cases "gx_find_tree G r t")
    case (Inl err)
    then show ?thesis using ref by (simp add: read_snap_def find_entry_def read_tree_def)
  next
    case (Inr es)
    then have "gx_find_tree G r0 t = Inr es" using ext by (simp add: extends_def)
    then have same: "find_entry G r t n = find_entry G r0 t n" for n
      using Inr by (simp add: find_entry_def read_tree_def)
    show ?thesis
    proof (cases "gx_find_blob G r m")
      case (Inl err)
      then show ?thesis using ref m(1) by (simp add: read_snap_def same read_blob_def)
    next
      case (Inr d)
      then have "d = encode_meta arity (so_count st)" using ext m(2) by (auto simp: extends_def)
      then show ?thesis using ref m(1) x Inr dec
        by (simp add: read_snap_def same read_blob_def snap_of_def)
    qed
  qed
qed

lemma read_snap_tree:
  assumes "ref_holds G r name (Some t)" "git_tree G r (Some t) arity st" "arity < 2 ^ 16"
  shows "read_snap G r name arity = Inr (Some (snap_of t st))"
proof -
  obtain ref where ref: "gx_find_ref G r name = Inr (Some ref)" "gx_peel G r ref = Inr t"
    using assms(1) by (auto simp: ref_holds_def)
  have h: "git_holds G r t (Some (encode_meta arity (so_count st))) (encoded (so_metas st)) st"
    and f: "git_fits st"
    using assms(2) by (simp_all add: git_tree_def git_meta_def)
  obtain m where m: "find_entry G r t ''meta'' = Inr (Some m)" "gx_find_blob G r m = Inr (encode_meta arity (so_count st))"
    using meta_entry [OF h] by blast
  obtain x where x: "find_entry G r t ''leaves'' = Inr x" "x \<noteq> None \<longleftrightarrow> so_leaves st \<noteq> []" using leaves_entry [OF h] by blast
  have "so_count st < u64_limit" using f u64_max_less_limit unfolding git_fits_def by (blast intro: less_trans)
  then have "decode_meta (encode_meta arity (so_count st)) = Inr (arity, so_count st)" by (rule decode_encode_meta [OF assms(3)])
  with ref m x show ?thesis by (simp add: read_snap_def read_blob_def snap_of_def)
qed

section \<open>A checkpoint\<close>

text \<open>What a checkpoint asks of the file system and of the references besides.\<close>

locale git_durable = git_repository G ok editing
    for G :: "('r, 'ed, 'm) gix" and ok :: "'r \<Rightarrow> bool" and editing :: "'r \<Rightarrow> 'ed \<Rightarrow> paths \<Rightarrow> bool" +
  assumes sync: "ok r \<Longrightarrow> \<exists>r' out. gx_fsync G r path = (r', out) \<and> (\<forall>m. out \<noteq> SyncError m)
      \<and> ok r' \<and> extends G r r' \<and> same_refs G r r'"
    and list_refs: "ok r \<Longrightarrow> \<exists>xs. gx_list_refs G r p = Inr xs
      \<and> (\<forall>ref. Inr ref \<in> set xs \<longleftrightarrow> gx_find_ref G r (gr_name ref) = Inr (Some ref) \<and> prefix p (gr_name ref))"
    and ref_named: "gx_find_ref G r n = Inr (Some ref) \<Longrightarrow> gr_name ref = n"
    and update_any: "ok r \<Longrightarrow> gx_find_ref G r name \<noteq> Inr None \<Longrightarrow> \<exists>r'. gx_edit_ref G r name (UpdateRef AnyValue new) = (r', Inr ())
        \<and> ok r' \<and> extends G r r' \<and> ref_holds G r' name (Some new) \<and> (\<forall>n. n \<noteq> name \<longrightarrow> gx_find_ref G r' n = gx_find_ref G r n)"
    and delete_ref: "ok r \<Longrightarrow> \<exists>r' res. gx_edit_ref G r name (DeleteRef e) = (r', res)
        \<and> ok r' \<and> extends G r r' \<and> (\<forall>n. n \<noteq> name \<longrightarrow> gx_find_ref G r' n = gx_find_ref G r n)"
    and whole: "ok r \<Longrightarrow> lost_objects G r r"
begin

text \<open>Where a call took the repository without touching the references or losing an object.\<close>

definition kept :: "'r \<Rightarrow> 'r \<Rightarrow> bool" where
  "kept r r' \<longleftrightarrow> ok r' \<and> extends G r r' \<and> same_refs G r r'"

lemma kept_trans: "kept r r' \<Longrightarrow> kept r' r'' \<Longrightarrow> kept r r''"
  unfolding kept_def by (blast intro: objects_kept_trans same_refs_trans)

lemma kept_refl: "ok r \<Longrightarrow> kept r r"
  by (simp add: kept_def)

lemma sync_if_present_ok: "ok r \<Longrightarrow> \<exists>r' b. sync_if_present G r path = Inr (r', b) \<and> kept r r'"
proof -
  assume "ok r"
  from sync [OF this, of path] obtain r' out where "gx_fsync G r path = (r', out)" "\<forall>m. out \<noteq> SyncError m" "kept r r'"
    unfolding kept_def by blast
  then show ?thesis by (cases out) (auto simp: sync_if_present_def)
qed

lemma sync_dirs_ok: "ok r \<Longrightarrow> \<exists>r'. sync_dirs G r dirs = Inr r' \<and> kept r r'"
proof (induction dirs arbitrary: r)
  case (Cons d dirs)
  obtain r1 b where r1: "sync_if_present G r d = Inr (r1, b)" "kept r r1" using sync_if_present_ok [OF Cons.prems] by blast
  then obtain r2 where "sync_dirs G r1 dirs = Inr r2" "kept r1 r2" using Cons.IH [of r1] by (auto simp: kept_def)
  with r1 show ?case using kept_trans by auto
qed (simp add: kept_refl)

lemma sync_files_ok: "ok r \<Longrightarrow> \<forall>(p, oid) \<in> set files. gx_exists G r oid \<Longrightarrow> \<exists>r'. sync_files G r files = Inr r' \<and> kept r r'"
proof (induction files arbitrary: r)
  case (Cons f files)
  obtain p oid where f: "f = (p, oid)" by (cases f)
  obtain r1 b where r1: "sync_if_present G r p = Inr (r1, b)" "kept r r1" using sync_if_present_ok [OF Cons.prems(1)] by blast
  then have ex: "gx_exists G r1 oid" "\<forall>(p, oid) \<in> set files. gx_exists G r1 oid"
    using Cons.prems(2) by (auto simp: f kept_def extends_def)
  from Cons.IH [OF _ ex(2)] r1(2) obtain r2 where "sync_files G r1 files = Inr r2" "kept r1 r2" by (auto simp: kept_def)
  with r1 ex(1) show ?case using kept_trans by (auto simp: f)
qed (simp add: kept_refl)

lemma sync_ref_ok: "ok r \<Longrightarrow> \<exists>r'. sync_ref_any_form G r file base packed = Inr r' \<and> kept r r'"
proof -
  assume r: "ok r"
  obtain r1 b where r1: "sync_if_present G r file = Inr (r1, b)" "kept r r1" using sync_if_present_ok [OF r] by blast
  obtain r2 c where r2: "(if b then Inr (r1, True) else sync_if_present G r1 packed) = Inr (r2, c)" "kept r1 r2"
    using sync_if_present_ok [of r1 packed] kept_refl [of r1] r1(2) by (cases b) (auto simp: kept_def)
  obtain r3 where "sync_dirs G r2 (dirs_up_to base (drop 1 (path_ancestors file))) = Inr r3" "kept r2 r3"
    using sync_dirs_ok [of r2] r2(2) by (auto simp: kept_def)
  moreover from this r1(2) r2(2) have "kept r r3" by (blast intro: kept_trans)
  ultimately show ?thesis using r1(1) r2(1) by (intro exI [of _ r3]) (simp add: sync_ref_any_form_def)
qed

lemma unsynced_objects: "set (map snd (us_files (fold (unsynced_object G) delta us))) \<subseteq> set (map snd (us_files us)) \<union> set delta"
proof (induction delta arbitrary: us)
  case (Cons oid delta)
  have "set (map snd (bt_insert p oid xs)) \<subseteq> insert oid (set (map snd xs))" for p :: file_path and xs
  proof (induction xs)
    case (Cons x xs)
    then show ?case by (cases x) (auto split: if_splits)
  qed simp
  then have "set (map snd (us_files (unsynced_object G oid us))) \<subseteq> insert oid (set (map snd (us_files us)))"
    by (simp add: unsynced_object_def)
  with Cons.IH [of "unsynced_object G oid us"] show ?case by auto
qed simp

text \<open>The listed references have the prefix and were found.\<close>

lemma list_ckpts_loop_names:
  "list_ckpts_loop G r pre arity xs = Inr out \<Longrightarrow> c \<in> set out \<Longrightarrow> \<exists>ref. Inr ref \<in> set xs \<and> ck_name c = gr_name ref"
proof (induction xs arbitrary: out)
  case (Cons x xs)
  have skip: "\<exists>ref. Inr ref \<in> set (x # xs) \<and> ck_name c = gr_name ref" if "list_ckpts_loop G r pre arity xs = Inr rest" "c \<in> set rest" for rest
    using Cons.IH [OF that] by auto
  show ?case
  proof (cases x)
    case (Inl m)
    then show ?thesis using skip Cons.prems by simp
  next
    case (Inr ref)
    show ?thesis
    proof (cases "\<exists>t g. gr_target ref = ObjectTarget t \<and> ref_generation pre (gr_name ref) = Some g")
      case True
      then obtain t g where tg: "gr_target ref = ObjectTarget t" "ref_generation pre (gr_name ref) = Some g" by blast
      obtain snap rest where rest: "list_ckpts_loop G r pre arity xs = Inr rest"
        "out = \<lparr>ck_generation = g, ck_name = gr_name ref, ck_target = t, ck_snap = snap\<rparr> # rest"
        using Cons.prems(1) Inr tg by (auto simp: bindE_Inr_iff)
      then show ?thesis using Cons.prems(2) skip [OF rest(1)] Inr by auto
    next
      case False
      then have "list_ckpts_loop G r pre arity (x # xs) = list_ckpts_loop G r pre arity xs"
        using Inr by (auto split: ref_target.splits option.splits)
      then show ?thesis using skip Cons.prems by (metis (no_types))
    qed
  qed
qed simp

lemma list_ckpts_names:
  assumes "ok r" "list_ckpts G r pre arity = Inr ckpts" "c \<in> set ckpts"
  shows "prefix pre (ck_name c)" "gx_find_ref G r (ck_name c) \<noteq> Inr None"
proof -
  obtain xs where xs: "gx_list_refs G r pre = Inr xs"
    "\<forall>ref. Inr ref \<in> set xs \<longleftrightarrow> gx_find_ref G r (gr_name ref) = Inr (Some ref) \<and> prefix pre (gr_name ref)"
    using list_refs [OF assms(1)] by blast
  obtain out where out: "list_ckpts_loop G r pre arity xs = Inr out" "ckpts = sort_key ck_generation out"
    using assms(2) xs(1) by (auto simp: list_ckpts_def bindE_Inr_iff)
  have "c \<in> set out" using assms(3) out(2) by simp
  then obtain ref where "Inr ref \<in> set xs" "ck_name c = gr_name ref" using list_ckpts_loop_names [OF out(1)] by blast
  then show "prefix pre (ck_name c)" "gx_find_ref G r (ck_name c) \<noteq> Inr None" using xs(2) by auto
qed

lemma drop_ckpts_ok:
  assumes "ok r" "\<forall>c \<in> set ckpts. ck_name c \<noteq> name"
  shows "ok (drop_ckpts G r ckpts) \<and> extends G r (drop_ckpts G r ckpts)
    \<and> gx_find_ref G (drop_ckpts G r ckpts) name = gx_find_ref G r name"
  using assms
proof (induction ckpts arbitrary: r)
  case (Cons c ckpts)
  let ?e = "MustExistAndMatch (ck_target c)"
  obtain r' res where r': "gx_edit_ref G r (ck_name c) (DeleteRef ?e) = (r', res)" "ok r'" "extends G r r'"
    "gx_find_ref G r' name = gx_find_ref G r name"
    using delete_ref [OF Cons.prems(1), of "ck_name c" ?e] Cons.prems(2) by (metis list.set_intros(1))
  have "ok (drop_ckpts G r' ckpts) \<and> extends G r' (drop_ckpts G r' ckpts)
      \<and> gx_find_ref G (drop_ckpts G r' ckpts) name = gx_find_ref G r' name"
    by (rule Cons.IH [OF r'(2)]) (use Cons.prems(2) in simp)
  then show ?case using r' objects_kept_trans [OF r'(3)] by simp
qed simp

lemma ref_holds_find:
  "extends G r r' \<Longrightarrow> gx_find_ref G r' name = gx_find_ref G r name \<Longrightarrow> ref_holds G r name v \<Longrightarrow> ref_holds G r' name v"
  by (auto simp: ref_holds_def extends_def split: option.splits)

text \<open>The name of the next checkpoint reference can be created and synced.\<close>

definition next_ready :: "'r \<Rightarrow> string \<Rightarrow> ckpt_ref list \<Rightarrow> bool" where
  "next_ready r pre ckpts \<longleftrightarrow>
     (let name = pre @ dec_fixed 20 (next_generation ckpts)
      in gx_valid_ref G name \<and> (\<exists>fb. (loose_ref_path G name :: 'm git_error + _) = Inr fb)
         \<and> gx_find_ref G r name = Inr None \<and> ref_free G r name)"

text \<open>A tree that is there has its changed objects collected and synced, and then the reference.\<close>

lemma delta_synced:
  assumes r: "ok r" and pm: "holds G r t pm" and old: "\<And>c. old = Some c \<Longrightarrow> \<exists>pm'. holds G r c pm'"
  obtains delta r1 r2 r3 where "changed_objects G r t old [] = Some (Inr delta)"
    "sync_files G r (us_files (fold (unsynced_object G) delta no_unsynced)) = Inr r1"
    "sync_dirs G r1 (us_dirs (fold (unsynced_object G) delta no_unsynced)) = Inr r2"
    "sync_ref_any_form G r2 file_name base (packed_refs G) = Inr r3" "kept r r3"
proof -
  obtain res where res: "changed_objects G r t old [] = Some res"
    "(\<exists>out'. res = Inr out') \<longleftrightarrow> holds G r t pm"
    "\<forall>out'. res = Inr out' \<longrightarrow> (\<forall>oid \<in> set out'. oid \<in> set ([] :: oid list) \<or> gx_exists G r oid)"
    using changed_objects_exact [OF pm whole [OF r] old, where out = "[]"] by blast
  then obtain delta where delta: "changed_objects G r t old [] = Some (Inr delta)" "\<forall>oid \<in> set delta. gx_exists G r oid"
    using pm by auto
  let ?us = "fold (unsynced_object G) delta no_unsynced"
  have "set (map snd (us_files ?us)) \<subseteq> set delta" using unsynced_objects [of delta no_unsynced] by (simp add: no_unsynced_def)
  then have "\<forall>(p, oid) \<in> set (us_files ?us). gx_exists G r oid" using delta(2) by fastforce
  from sync_files_ok [OF r this] obtain r1 where r1: "sync_files G r (us_files ?us) = Inr r1" "kept r r1" by blast
  then obtain r2 where r2: "sync_dirs G r1 (us_dirs ?us) = Inr r2" "kept r1 r2" using sync_dirs_ok by (auto simp: kept_def)
  have "ok r2" using r2(2) by (simp add: kept_def)
  then obtain r3 where r3: "sync_ref_any_form G r2 file_name base (packed_refs G) = Inr r3" "kept r2 r3"
    using sync_ref_ok by blast
  have "kept r r3" using r1(2) r2(2) r3(2) by (blast intro: kept_trans)
  with delta(1) r1(1) r2(1) r3(1) show ?thesis by (rule that)
qed

lemma checkpoint_ok:
  assumes s: "git_state G ok s st" and tip: "gs_tip s = Some t" and ar: "gs_arity s < 2 ^ 16"
    and pre: "gs_ckpt_prefix s = gs_ref s @ ''.ckpt/''"
    and ckpts: "list_ckpts G (gs_repo s) (gs_ckpt_prefix s) (gs_arity s) = Inr ckpts"
    and newest: "\<And>c. newest_snap ckpts = Some c \<Longrightarrow> \<exists>pm. holds G (gs_repo s) (sn_tree c) pm"
    and ready: "next_ready (gs_repo s) (gs_ckpt_prefix s) ckpts"
  shows "\<exists>s'. git_checkpoint G s = Inr (s', so_count st) \<and> git_state G ok s' st \<and> gs_tip s' = Some t
    \<and> gs_ref s' = gs_ref s \<and> gs_arity s' = gs_arity s \<and> extends G (gs_repo s) (gs_repo s')
    \<and> ((\<exists>c. newest_snap ckpts = Some c \<and> sn_tree c = t)
       \<or> ref_holds G (gs_repo s') (gs_ckpt_prefix s @ dec_fixed 20 (next_generation ckpts)) (Some t))"
proof -
  let ?r = "gs_repo s" and ?name = "gs_ckpt_prefix s @ dec_fixed 20 (next_generation ckpts)"
  have r: "ok ?r" and tree: "git_tree G ?r (Some t) (gs_arity s) st" and ref: "ref_holds G ?r (gs_ref s) (Some t)"
    and count: "gs_count s = so_count st" "gs_leaves s = (so_leaves st \<noteq> [])"
    using s tip by (simp_all add: git_state_def)
  have held: "read_snap G ?r (gs_ref s) (gs_arity s) = Inr (Some (snap_of t st))" by (rule read_snap_tree [OF ref tree ar])
  show ?thesis
  proof (cases "\<exists>c. newest_snap ckpts = Some c \<and> sn_tree c = t")
    case True
    then have "git_checkpoint G s = Inr (s, so_count st)"
      using tip held ckpts by (auto simp: git_checkpoint_def snap_of_def count)
    then show ?thesis using s tip True by auto
  next
    case False
    obtain pm where pm: "holds G ?r t pm" using tree by (auto simp: git_tree_def git_holds_def)
    have old: "\<exists>pm'. holds G ?r c pm'" if "map_option sn_tree (newest_snap ckpts) = Some c" for c
      using that newest by auto
    obtain delta r1 r2 r3 where delta: "changed_objects G ?r t (map_option sn_tree (newest_snap ckpts)) [] = Some (Inr delta)"
      and r1: "sync_files G ?r (us_files (fold (unsynced_object G) delta no_unsynced)) = Inr r1"
      and r2: "sync_dirs G r1 (us_dirs (fold (unsynced_object G) delta no_unsynced)) = Inr r2"
      and r3: "sync_ref_any_form G r2 (gs_ref_file s) (gs_ref_base s) (packed_refs G) = Inr r3" and k3: "kept ?r r3"
      by (rule delta_synced [OF r pm old])
    obtain fname base where ready': "gx_valid_ref G ?name" "(loose_ref_path G ?name :: 'm git_error + _) = Inr (fname, base)"
      "gx_find_ref G ?r ?name = Inr None" "ref_free G ?r ?name"
      using ready by (auto simp: next_ready_def Let_def)
    have "ref_holds G r3 ?name None" "ref_free G r3 ?name" "ok r3"
      using ready'(3,4) k3 by (simp_all add: kept_def same_refs_def ref_holds_def ref_free_def)
    from update_ref_ok [OF this(3,1) disjI2 [OF this(2)], of MustNotExist t None] obtain r4 where
      r4: "update_ref G r3 ?name MustNotExist t None = Some (r4, Inr ())" "ok r4" "extends G r3 r4"
        "ref_holds G r4 ?name (Some t)" "\<forall>n. n \<noteq> ?name \<longrightarrow> gx_find_ref G r4 n = gx_find_ref G r3 n"
      by auto
    obtain r5 where r5: "sync_ref_any_form G r4 fname base (packed_refs G) = Inr r5" "kept r4 r5"
      using sync_ref_ok [OF r4(2)] by blast
    define stale where "stale = filter (\<lambda>c. Some (ck_generation c) \<noteq> map_option ck_generation (newest_ckpt ckpts)) ckpts"
    let ?r6 = "drop_ckpts G r5 stale" let ?s = "s\<lparr>gs_repo := ?r6\<rparr>"
    have ne: "gs_ref s \<noteq> ?name" using pre by simp
    have names: "ck_name c \<noteq> gs_ref s \<and> ck_name c \<noteq> ?name" if "c \<in> set stale" for c
    proof -
      have c: "c \<in> set ckpts" using that by (simp add: stale_def)
      have "prefix (gs_ref s @ ''.ckpt/'') (ck_name c)" using list_ckpts_names(1) [OF r ckpts c] by (simp add: pre)
      then have "ck_name c \<noteq> gs_ref s" by (auto simp: prefix_def)
      moreover have "ck_name c \<noteq> ?name" using list_ckpts_names(2) [OF r ckpts c] ready'(3) by auto
      ultimately show ?thesis ..
    qed
    have o5: "ok r5" using r5(2) by (simp add: kept_def)
    have d1: "ok ?r6" "extends G r5 ?r6" "gx_find_ref G ?r6 (gs_ref s) = gx_find_ref G r5 (gs_ref s)"
      using drop_ckpts_ok [OF o5, of stale "gs_ref s"] names by auto
    have d2: "gx_find_ref G ?r6 ?name = gx_find_ref G r5 ?name" using drop_ckpts_ok [OF o5, of stale ?name] names by auto
    have ext: "extends G ?r ?r6"
      using k3 r4(3) r5(2) d1(2) unfolding kept_def by (blast intro: objects_kept_trans)
    have find: "gx_find_ref G ?r6 (gs_ref s) = gx_find_ref G ?r (gs_ref s)"
      using d1(3) r5(2) r4(5) k3 ne by (simp add: kept_def same_refs_def)
    have "git_checkpoint G s = Inr (?s, so_count st)"
      using tip held ckpts False delta r1 r2 r3 ready'(1,2) r4(1) r5(1) count
      by (auto simp: git_checkpoint_def snap_of_def unsynced_sync_def ckpt_name_def stale_def Let_def split: option.splits)
    moreover have "git_tree G ?r6 (Some t) (gs_arity s) st"
      using tree git_holds_extends [OF _ ext] by (auto simp: git_tree_def)
    then have "git_state G ok ?s st"
      using d1(1) count ref_holds_find [OF ext find ref] tip by (simp add: git_state_def)
    moreover have "ref_holds G ?r6 ?name (Some t)"
      by (rule ref_holds_find [OF d1(2) d2]) (use r4(4) r5(2) ref_holds_same in \<open>auto simp: kept_def\<close>)
    ultimately show ?thesis using tip ext by auto
  qed
qed

end

section \<open>Opening\<close>

text \<open>The names and paths an opening derives from the staging reference.\<close>

definition opens_at ::
    "('r, 'ed, 'm) gix \<Rightarrow> string \<Rightarrow> file_path \<Rightarrow> file_path \<Rightarrow> string \<Rightarrow> bool" where
  "opens_at G name fname base pre \<longleftrightarrow> gx_valid_ref G name
     \<and> (loose_ref_path G name :: 'm git_error + _) = Inr (fname, base) \<and> (ckpt_prefix name :: 'm git_error + _) = Inr pre"

lemma git_new_eq:
  assumes "arity_ok arity" "opens_at G name fname base pre" "list_ckpts G r pre arity = Inr ckpts"
  shows "git_new G r name arity =
    bindE (recovery G r (read_snap G r name arity) (newest_snap ckpts)) (\<lambda>(found, reset, due).
      case (reset, found) of
        (Some prior, Some sn) \<Rightarrow> reset_staging G (opened_as r name arity fname base pre found) (sn_tree sn) prior
      | (Some prior, None) \<Rightarrow> Inl GitStuck
      | (None, _) \<Rightarrow> if due then bindE (git_checkpoint G (opened_as r name arity fname base pre found)) (\<lambda>(s, _). Inr s)
          else Inr (opened_as r name arity fname base pre found))"
  using assms unfolding git_new_def opens_at_def Let_def by simp

lemma ckpt_prefix_eq: "opens_at G name fname base pre \<Longrightarrow> pre = name @ ''.ckpt/''"
  by (auto simp: opens_at_def ckpt_prefix_def split: if_splits)

lemma git_tree_extends: "git_tree G r (Some t) arity st \<Longrightarrow> extends G r r' \<Longrightarrow> git_tree G r' (Some t) arity st"
  unfolding git_tree_def option.case by (elim conjE, intro conjI, assumption, rule git_holds_extends)

text \<open>The snapshot of a tree that holds a store opens as an instance in that state.\<close>

lemma opened_state:
  assumes "ok r" "git_tree G r tip arity st" "ref_holds G r name tip" "tip = None \<Longrightarrow> ref_free G r name"
    and "found = map_option (\<lambda>t. snap_of t st) tip"
  shows "git_state G ok (opened_as r name arity fname base pre found) st"
  using assms by (cases tip) (auto simp: git_state_def opened_as_def snap_of_def git_tree_def empty_store_def)

text \<open>
  Staging as a crash can leave it: it names a tree that was written before, or it is absent, or it
  cannot be read.
\<close>

definition staged ::
    "('r, 'ed, 'm) gix \<Rightarrow> 'r \<Rightarrow> 'r \<Rightarrow> string \<Rightarrow> u64 \<Rightarrow> (oid \<times> store) option \<Rightarrow> bool" where
  "staged G r0 r name arity stg \<longleftrightarrow>
     (case stg of
        Some (t, st) \<Rightarrow> ref_holds G r name (Some t) \<and> git_tree G r0 (Some t) arity st
      | None \<Rightarrow> ref_holds G r name None \<and> ref_free G r name \<or> (\<exists>m. gx_find_ref G r name = Inl m))"

text \<open>What the opening goes on with: staging if its tree is whole, else the checkpoint.\<close>

definition recovered ::
    "('r, 'ed, 'm) gix \<Rightarrow> 'r \<Rightarrow> u64 \<Rightarrow> (oid \<times> store) option \<Rightarrow> oid \<times> store \<Rightarrow> oid \<times> store" where
  "recovered G r arity stg ckpt =
     (case stg of Some (t, st) \<Rightarrow> if git_tree G r (Some t) arity st then (t, st) else ckpt | None \<Rightarrow> ckpt)"

context git_durable begin

lemma reset_ok:
  assumes r: "ok r" and c: "git_tree G r (Some tc) arity stc"
    and p: "case prior of
        PriorAbsent \<Rightarrow> ref_holds G r name None \<and> ref_free G r name
      | PriorValue t \<Rightarrow> ref_holds G r name (Some t)
      | PriorTorn \<Rightarrow> (\<exists>e. read_snap G r name arity = Inl e) \<and> gx_find_ref G r name \<noteq> Inr None"
  shows "\<exists>s'. reset_staging G (opened_as r name arity fname base pre (Some (snap_of tc stc))) tc prior = Inr s'
    \<and> git_state G ok s' stc \<and> gs_tip s' = Some tc"
proof -
  let ?s = "opened_as r name arity fname base pre (Some (snap_of tc stc))"
  have s: "gs_repo ?s = r" "gs_ref ?s = name" "gs_arity ?s = arity" "gs_ref_file ?s = fname" "gs_ref_base ?s = base"
    by (simp_all add: opened_as_def)
  obtain expected seen where ex: "(case prior of
              PriorAbsent \<Rightarrow> Inr (MustNotExist, None)
            | PriorValue t \<Rightarrow> Inr (MustExistAndMatch t, Some t)
            | PriorTorn \<Rightarrow> (case read_snap G r name arity of
                Inr (Some now) \<Rightarrow> Inl (TipMoved None (Some (sn_tree now)))
              | _ \<Rightarrow> Inr (AnyValue, None))) = (Inr (expected, seen) :: 'm git_error + _)"
    and upd: "\<exists>r1. update_ref G r name expected tc seen = Some (r1, Inr ()) \<and> ok r1 \<and> extends G r r1
      \<and> ref_holds G r1 name (Some tc)"
  proof (cases prior)
    case PriorAbsent
    then show ?thesis using update_ref_ok [OF r, of name None MustNotExist tc None] p by (intro that) auto
  next
    case (PriorValue t)
    then show ?thesis using update_ref_ok [OF r, of name "Some t" "MustExistAndMatch t" tc "Some t"] p by (intro that) auto
  next
    case PriorTorn
    then have "gx_find_ref G r name \<noteq> Inr None" using p by simp
    from update_any [OF r this, of tc] have "\<exists>r1. update_ref G r name AnyValue tc None = Some (r1, Inr ()) \<and> ok r1
        \<and> extends G r r1 \<and> ref_holds G r1 name (Some tc)"
      unfolding update_ref_def by (subst update_ref_loop.simps) auto
    then show ?thesis using PriorTorn p by (intro that) auto
  qed
  obtain r1 where r1: "update_ref G r name expected tc seen = Some (r1, Inr ())" "ok r1" "extends G r r1"
    "ref_holds G r1 name (Some tc)"
    using upd by blast
  obtain r2 where r2: "sync_ref_any_form G r1 fname base (packed_refs G) = Inr r2" "kept r1 r2"
    using sync_ref_ok [OF r1(2)] by blast
  have s': "?s\<lparr>gs_repo := r2\<rparr> = opened_as r2 name arity fname base pre (map_option (\<lambda>t. snap_of t stc) (Some tc))"
    by (simp add: opened_as_def)
  have "reset_staging G ?s tc prior = Inr (?s\<lparr>gs_repo := r2\<rparr>)"
    unfolding reset_staging_def s ex using r1(1) r2(1) by simp
  moreover have r2': "extends G r r2" "ref_holds G r2 name (Some tc)" "ok r2"
    using objects_kept_trans [OF r1(3)] ref_holds_same [OF _ _ r1(4)] r2(2) by (auto simp: kept_def)
  have "git_state G ok (?s\<lparr>gs_repo := r2\<rparr>) stc"
    unfolding s' by (rule opened_state [where tip = "Some tc"]) (use r2' git_tree_extends [OF c r2'(1)] in simp_all)
  ultimately show ?thesis by (auto simp: opened_as_def snap_of_def)
qed

lemma tree_lost_iff:
  assumes "git_tree G r0 (Some t) arity st" "lost_objects G r0 r"
  obtains pm where "holds G r0 t pm" "holds G r t pm \<longleftrightarrow> git_tree G r (Some t) arity st"
proof -
  obtain pm where pm: "holds G r0 t pm" "git_layout pm (git_meta arity st) (encoded (so_metas st)) st"
    "layout_fits (encoded (so_metas st)) st" "git_fits st"
    using assms(1) by (auto simp: git_tree_def git_holds_def)
  have "holds G r t pm" if tr: "git_tree G r (Some t) arity st"
  proof -
    obtain pm' where "holds G r t pm'" using tr by (auto simp: git_tree_def git_holds_def)
    moreover from this have "pm' = pm"
      by (intro holds_unique [OF pm(1)] holds_extends [OF _ lost_objectsD(1) [OF assms(2)]])
    ultimately show ?thesis by simp
  qed
  then have "holds G r t pm \<longleftrightarrow> git_tree G r (Some t) arity st" using pm(2-4) by (auto simp: git_tree_def git_holds_def)
  with pm(1) show ?thesis by (rule that)
qed

text \<open>No staging to go on with: the reference is absent or does not resolve.\<close>

lemma opened_without_staging:
  assumes r: "ok r" and ar: "arity_ok arity" and at: "opens_at G name fname base pre"
    and ckpts: "list_ckpts G r pre arity = Inr ckpts" and c: "newest_snap ckpts = Some (snap_of tc stc)"
    and tc: "git_tree G r (Some tc) arity stc" and stg: "staged G r0 r name arity None"
  shows "\<exists>s'. git_new G r name arity = Inr s' \<and> git_state G ok s' stc \<and> gs_tip s' = Some tc"
proof -
  note new = git_new_eq [OF ar at ckpts, unfolded c]
  have sn: "sn_tree (snap_of tc stc) = tc" by (simp add: snap_of_def)
  note reset = reset_ok [OF r tc, where name = name and fname = fname and base = base and pre = pre]
  consider "ref_holds G r name None" "ref_free G r name" | m where "gx_find_ref G r name = Inl m"
    using stg by (auto simp: staged_def)
  then show ?thesis
  proof cases
    case 1
    then have "read_snap G r name arity = Inr None" by (simp add: read_snap_def ref_holds_def)
    then show ?thesis using reset [where prior = PriorAbsent] 1 by (simp add: new recovery_def sn)
  next
    case (2 m)
    then have "read_snap G r name arity = Inl (Git m)" by (simp add: read_snap_def)
    then show ?thesis using reset [where prior = PriorTorn] 2 by (simp add: new recovery_def sn)
  qed
qed

text \<open>Staging is intact: it is opened, and checkpointed when it is ahead of the checkpoint.\<close>

lemma opened_intact:
  assumes r: "ok r" and lost: "lost_objects G r0 r" and ar: "arity_ok arity" and at: "opens_at G name fname base pre"
    and ckpts: "list_ckpts G r pre arity = Inr ckpts" and c: "newest_snap ckpts = Some (snap_of tc stc)"
    and tc: "git_tree G r (Some tc) arity stc" and ready: "next_ready r pre ckpts"
    and ref: "ref_holds G r name (Some t)" and t: "git_tree G r0 (Some t) arity st"
    and whole: "git_tree G r (Some t) arity st"
  shows "\<exists>s'. git_new G r name arity = Inr s' \<and> git_state G ok s' st \<and> gs_tip s' = Some t"
proof -
  have ar': "arity < 2 ^ 16" using ar by (simp add: arity_ok_def)
  note new = git_new_eq [OF ar at ckpts, unfolded c]
  obtain pm where pm: "holds G r0 t pm" "holds G r t pm \<longleftrightarrow> git_tree G r (Some t) arity st"
    by (rule tree_lost_iff [OF t lost])
  obtain pmc where pmc: "holds G r tc pmc" using tc by (auto simp: git_tree_def git_holds_def)
  obtain res where res: "changed_objects G r t (Some tc) [] = Some res"
    "(\<exists>out'. res = Inr out') \<longleftrightarrow> git_tree G r (Some t) arity st"
    using changed_objects_exact [OF pm(1) lost, of "Some tc" "[]"] pmc pm(2) by auto
  let ?s = "opened_as r name arity fname base pre (Some (snap_of t st))"
  have state: "git_state G ok ?s st" by (rule opened_state [where tip = "Some t"]) (use r whole ref in simp_all)
  have snap: "read_snap G r name arity = Inr (Some (snap_of t st))" by (rule read_snap_tree [OF ref whole ar'])
  show ?thesis
  proof (cases "t = tc")
    case True
    then show ?thesis using state snap by (simp add: new recovery_def snap_of_def opened_as_def)
  next
    case False
    obtain out where "res = Inr out" using res(2) whole by blast
    then have "recovery G r (read_snap G r name arity) (Some (snap_of tc stc)) = Inr (Some (snap_of t st), None, True)"
      using res(1) False by (simp add: recovery_def snap snap_of_def)
    moreover have "gs_tip ?s = Some t" "gs_arity ?s < 2 ^ 16" "gs_ckpt_prefix ?s = gs_ref ?s @ ''.ckpt/''"
      "list_ckpts G (gs_repo ?s) (gs_ckpt_prefix ?s) (gs_arity ?s) = Inr ckpts" "next_ready (gs_repo ?s) (gs_ckpt_prefix ?s) ckpts"
      using ckpts ready ar' ckpt_prefix_eq [OF at] by (simp_all add: opened_as_def snap_of_def)
    from checkpoint_ok [OF state this(1-4) _ this(5)] obtain s' where
      "git_checkpoint G ?s = Inr (s', so_count st)" "git_state G ok s' st" "gs_tip s' = Some t"
      using pmc c by (auto simp: opened_as_def snap_of_def)
    ultimately show ?thesis by (simp add: new)
  qed
qed

text \<open>Staging lost objects: the opening goes back to the checkpoint and moves the reference there.\<close>

lemma opened_torn:
  assumes r: "ok r" and lost: "lost_objects G r0 r" and ar: "arity_ok arity" and at: "opens_at G name fname base pre"
    and ckpts: "list_ckpts G r pre arity = Inr ckpts" and c: "newest_snap ckpts = Some (snap_of tc stc)"
    and tc: "git_tree G r (Some tc) arity stc"
    and ref: "ref_holds G r name (Some t)" and t: "git_tree G r0 (Some t) arity st"
    and torn: "\<not> git_tree G r (Some t) arity st"
  shows "\<exists>s'. git_new G r name arity = Inr s' \<and> git_state G ok s' stc \<and> gs_tip s' = Some tc"
proof -
  have ar': "arity < 2 ^ 16" using ar by (simp add: arity_ok_def)
  note new = git_new_eq [OF ar at ckpts, unfolded c]
  have sn: "sn_tree (snap_of tc stc) = tc" by (simp add: snap_of_def)
  note reset = reset_ok [OF r tc, where name = name and fname = fname and base = base and pre = pre]
  obtain pm where pm: "holds G r0 t pm" "holds G r t pm \<longleftrightarrow> git_tree G r (Some t) arity st"
    by (rule tree_lost_iff [OF t lost])
  obtain pmc where pmc: "holds G r tc pmc" using tc by (auto simp: git_tree_def git_holds_def)
  obtain res where res: "changed_objects G r t (Some tc) [] = Some res"
    "(\<exists>out'. res = Inr out') \<longleftrightarrow> git_tree G r (Some t) arity st"
    using changed_objects_exact [OF pm(1) lost, of "Some tc" "[]"] pmc pm(2) by auto
  have "t \<noteq> tc"
  proof
    assume "t = tc"
    then have "pmc = pm"
      using pmc by (intro holds_unique [OF pm(1)]) (simp add: holds_extends [OF _ lost_objectsD(1) [OF lost]])
    with pmc pm(2) torn \<open>t = tc\<close> show False by simp
  qed
  from read_snap_lost [OF ref t ar' lost] show ?thesis
  proof (elim disjE exE conjE)
    assume snap: "read_snap G r name arity = Inr (Some (snap_of t st))"
    obtain e where "res = Inl e" using res(2) torn by (cases res) auto
    then have "recovery G r (read_snap G r name arity) (Some (snap_of tc stc))
        = Inr (Some (snap_of tc stc), Some (PriorValue t), False)"
      using res(1) \<open>t \<noteq> tc\<close> by (simp add: recovery_def snap snap_of_def)
    then show ?thesis using reset [where prior = "PriorValue t"] ref by (simp add: new sn)
  next
    fix e assume snap: "read_snap G r name arity = Inl e" "\<forall>a. e \<noteq> InvalidArity a"
    then have "recovery G r (read_snap G r name arity) (Some (snap_of tc stc))
        = Inr (Some (snap_of tc stc), Some PriorTorn, False)"
      by (cases e) (simp_all add: recovery_def)
    moreover have "gx_find_ref G r name \<noteq> Inr None" using ref by (auto simp: ref_holds_def)
    ultimately show ?thesis using reset [where prior = PriorTorn] snap(1) by (simp add: new sn)
  qed
qed

lemma git_new_recovered:
  assumes r: "ok r" and lost: "lost_objects G r0 r" and ar: "arity_ok arity" and at: "opens_at G name fname base pre"
    and ckpts: "list_ckpts G r pre arity = Inr ckpts" and c: "newest_snap ckpts = Some (snap_of tc stc)"
    and tc: "git_tree G r (Some tc) arity stc" and ready: "next_ready r pre ckpts"
    and stg: "staged G r0 r name arity stg" and rec: "recovered G r arity stg (tc, stc) = (t', st')"
  shows "\<exists>s'. git_new G r name arity = Inr s' \<and> git_state G ok s' st' \<and> gs_tip s' = Some t'"
proof (cases stg)
  case None
  then show ?thesis using opened_without_staging [OF r ar at ckpts c tc] stg rec by (simp add: recovered_def)
next
  case (Some p)
  obtain t st where p: "p = (t, st)" by (cases p)
  have stg': "ref_holds G r name (Some t)" "git_tree G r0 (Some t) arity st"
    using stg by (simp_all add: staged_def Some p)
  show ?thesis
  proof (cases "git_tree G r (Some t) arity st")
    case True
    then show ?thesis using opened_intact [OF r lost ar at ckpts c tc ready stg' True] rec by (simp add: recovered_def Some p)
  next
    case False
    then show ?thesis using opened_torn [OF r lost ar at ckpts c tc stg' False] rec by (simp add: recovered_def Some p)
  qed
qed

lemma git_new_reopens:
  assumes r: "ok r" and ar: "arity_ok arity" and at: "opens_at G name fname base pre"
    and ckpts: "list_ckpts G r pre arity = Inr ckpts" "newest_snap ckpts = None"
    and ref: "ref_holds G r name tip" and t: "git_tree G r tip arity st" and free: "tip = None \<Longrightarrow> ref_free G r name"
  shows "git_new G r name arity = Inr (opened_as r name arity fname base pre (map_option (\<lambda>t. snap_of t st) tip))"
    and "git_state G ok (opened_as r name arity fname base pre (map_option (\<lambda>t. snap_of t st) tip)) st"
proof -
  have "read_snap G r name arity = Inr (map_option (\<lambda>t. snap_of t st) tip)"
  proof (cases tip)
    case None
    then show ?thesis using ref by (simp add: read_snap_def ref_holds_def)
  next
    case (Some x)
    then show ?thesis using read_snap_tree [of G r name x arity st] ref t ar by (simp add: arity_ok_def)
  qed
  then show "git_new G r name arity = Inr (opened_as r name arity fname base pre (map_option (\<lambda>t. snap_of t st) tip))"
    by (simp add: git_new_eq [OF ar at ckpts(1)] ckpts(2) recovery_def)
  show "git_state G ok (opened_as r name arity fname base pre (map_option (\<lambda>t. snap_of t st) tip)) st"
    by (rule opened_state [where tip = tip]) (use r t ref free in simp_all)
qed

end

end
