(* ===== verification/Store_Git_Sync.thy ===== *)
theory Store_Git_Sync
  imports Store_Git_Recovery
begin

text \<open>
  Time and order in the git backend: the reference update returns within its bound, and a
  checkpoint syncs what its reference names before it creates the reference, and the reference
  before it deletes older ones.
\<close>

section \<open>The retry loop returns\<close>

text \<open>What the loop relies on of the clock: a sleep takes its time, a reference edit does not turn it back.\<close>

definition clock_runs :: "('r, 'ed, 'm) gix \<Rightarrow> bool" where
  "clock_runs G \<longleftrightarrow> (\<forall>r d. gx_now G r + d \<le> gx_now G (gx_sleep G r d))
     \<and> (\<forall>r n c. gx_now G r \<le> gx_now G (fst (gx_edit_ref G r n c)))"

text \<open>The reference names another reference, not an object.\<close>

definition symbolic_ref :: "('r, 'ed, 'm) gix \<Rightarrow> 'r \<Rightarrow> string \<Rightarrow> bool" where
  "symbolic_ref G r name \<longleftrightarrow> (\<exists>ref n. gx_find_ref G r name = Inr (Some ref) \<and> gr_target ref = SymbolicTarget n)"

lemma tip_moved_symbolic: "symbolic_ref G r name \<Longrightarrow> tip_moved G r name observed = GitStuck"
  by (auto simp: tip_moved_def symbolic_ref_def)

text \<open>Else the report names the object of the reference, or none where no reference is found.\<close>

lemma tip_moved_report:
  "symbolic_ref G r name \<and> tip_moved G r name observed = GitStuck
   \<or> \<not> symbolic_ref G r name \<and> (\<exists>t. tip_moved G r name observed = TipMoved observed t
      \<and> (\<forall>x. t = Some x \<longleftrightarrow> (\<exists>ref. gx_find_ref G r name = Inr (Some ref) \<and> gr_target ref = ObjectTarget x)))"
  by (auto simp: tip_moved_def symbolic_ref_def split: sum.splits option.splits ref_target.splits)

definition retry_result ::
    "('r, 'ed, 'm) gix \<Rightarrow> string \<Rightarrow> oid option \<Rightarrow> nat \<Rightarrow> 'r \<times> ('m git_error + unit) \<Rightarrow> bool" where
  "retry_result G name observed start x \<longleftrightarrow>
     (case x of
        (r, Inr _) \<Rightarrow> True
      | (r, Inl e) \<Rightarrow> e = tip_moved G r name observed
          \<or> (\<exists>e'. e = RefUpdateTransient e' \<and> \<not> is_genuine_cas_mismatch e' \<and> start + retry_bound \<le> gx_now G r))"

lemma update_ref_loop_returns:
  assumes "clock_runs G" "0 < backoff" "start \<le> gx_now G r"
  shows "\<exists>x. update_ref_loop G name expected new observed start r backoff = Some x \<and> retry_result G name observed start x"
  using assms(2,3)
proof (induction "start + retry_bound - gx_now G r" arbitrary: r backoff rule: less_induct)
  case less
  obtain r1 res where r1: "gx_edit_ref G r name (UpdateRef expected new) = (r1, res)" by fastforce
  have t1: "gx_now G r \<le> gx_now G r1" using assms(1) r1 unfolding clock_runs_def by (metis fst_conv)
  show ?case
  proof (cases res)
    case (Inr u)
    then show ?thesis by (subst update_ref_loop.simps) (simp add: r1 retry_result_def)
  next
    case (Inl e)
    show ?thesis
    proof (cases "is_genuine_cas_mismatch e \<or> retry_bound \<le> gx_now G r1 - start")
      case True
      have bound: "start + retry_bound \<le> gx_now G r1" if "retry_bound \<le> gx_now G r1 - start"
        using that by (simp add: retry_bound_def)
      show ?thesis
        using True bound by (subst update_ref_loop.simps) (auto simp: r1 Inl retry_result_def Let_def)
    next
      case False
      let ?d = "min backoff (retry_bound - (gx_now G r1 - start))"
      let ?r2 = "gx_sleep G r1 ?d" and ?b = "min (backoff * 2) 100000000"
      have d: "0 < ?d" using less.prems(1) False by simp
      have t2: "gx_now G r1 + ?d \<le> gx_now G ?r2" using assms(1) unfolding clock_runs_def by blast
      have "start + retry_bound - gx_now G ?r2 < start + retry_bound - gx_now G r"
        using t1 t2 d False less.prems(2) by linarith
      moreover have "0 < ?b" using less.prems(1) by simp
      moreover have "start \<le> gx_now G ?r2" using less.prems(2) t1 t2 by linarith
      ultimately have "\<exists>x. update_ref_loop G name expected new observed start ?r2 ?b = Some x \<and> retry_result G name observed start x"
        by (rule less.hyps)
      moreover have "update_ref_loop G name expected new observed start r backoff
          = update_ref_loop G name expected new observed start ?r2 ?b"
        using False by (subst update_ref_loop.simps) (simp add: r1 Inl Let_def)
      ultimately show ?thesis by simp
    qed
  qed
qed

lemma update_ref_returns_in:
  "clock_runs G \<Longrightarrow> \<exists>x. update_ref G r name expected new observed = Some x \<and> retry_result G name observed (gx_now G r) x"
  unfolding update_ref_def by (rule update_ref_loop_returns) simp_all

section \<open>What a checkpoint has to sync\<close>

text \<open>
  The objects of a tree: the tree itself and what its entries name, down to the blobs.  An entry that
  is not marked as a tree does not name one (\<open>kinds_fit\<close>), as git's object format demands.
\<close>

inductive in_tree :: "('r, 'ed, 'm) gix \<Rightarrow> 'r \<Rightarrow> oid \<Rightarrow> oid \<Rightarrow> bool" for G r where
  root: "in_tree G r t t"
| entry: "in_tree G r t oid" if "gx_find_tree G r t = Inr es" "e \<in> set es" "in_tree G r (ge_oid e) oid"

definition kinds_fit :: "('r, 'ed, 'm) gix \<Rightarrow> 'r \<Rightarrow> bool" where
  "kinds_fit G r \<longleftrightarrow> (\<forall>t es e. gx_find_tree G r t = Inr es \<and> e \<in> set es \<and> \<not> ge_tree e
     \<longrightarrow> (\<forall>es'. gx_find_tree G r (ge_oid e) \<noteq> Inr es'))"

definition in_entries :: "('r, 'ed, 'm) gix \<Rightarrow> 'r \<Rightarrow> git_entry list \<Rightarrow> oid \<Rightarrow> bool" where
  "in_entries G r es oid \<longleftrightarrow> (\<exists>e \<in> set es. in_tree G r (ge_oid e) oid)"

definition entries_fit :: "('r, 'ed, 'm) gix \<Rightarrow> 'r \<Rightarrow> git_entry list \<Rightarrow> bool" where
  "entries_fit G r es \<longleftrightarrow> (\<forall>e \<in> set es. \<not> ge_tree e \<longrightarrow> (\<forall>es'. gx_find_tree G r (ge_oid e) \<noteq> Inr es'))"

lemma in_entries_simps [simp]:
  "in_entries G r [] oid \<longleftrightarrow> False"
  "in_entries G r (e # es) oid \<longleftrightarrow> in_tree G r (ge_oid e) oid \<or> in_entries G r es oid"
  by (simp_all add: in_entries_def)

lemma in_tree_entries:
  "gx_find_tree G r t = Inr es \<Longrightarrow> in_tree G r t oid \<longleftrightarrow> oid = t \<or> in_entries G r es oid"
  by (subst in_tree.simps) (auto simp: in_entries_def)

lemma in_tree_blob: "\<forall>es. gx_find_tree G r b \<noteq> Inr es \<Longrightarrow> in_tree G r b oid \<longleftrightarrow> oid = b"
  by (subst in_tree.simps) auto

lemma in_entries_find:
  "find P es = Some e \<Longrightarrow> in_tree G r (ge_oid e) oid \<Longrightarrow> in_entries G r es oid"
  by (auto simp: in_entries_def find_Some_iff)

lemma entries_fit_read: "kinds_fit G r \<Longrightarrow> read_tree G r t = Inr es \<Longrightarrow> entries_fit G r es"
  unfolding kinds_fit_def entries_fit_def read_tree_def by auto

text \<open>The walk reports every object below the entries that is not below the older ones.\<close>

definition walk_covers ::
    "('r, 'ed, 'm) gix \<Rightarrow> 'r \<Rightarrow> git_entry list \<Rightarrow> git_entry list \<Rightarrow> oid list \<Rightarrow> 'm git_error + oid list \<Rightarrow> bool" where
  "walk_covers G r old es out res \<longleftrightarrow> (kinds_fit G r \<and> entries_fit G r es \<longrightarrow>
     (\<forall>delta. res = Inr delta \<longrightarrow> set out \<subseteq> set delta
       \<and> (\<forall>oid. in_entries G r es oid \<longrightarrow> oid \<in> set delta \<or> in_entries G r old oid)))"

text \<open>One round of the walk, given the recursive calls.\<close>

lemma walk_covers_skip:
  assumes "find P old = Some o'" "ge_oid o' = ge_oid e" "walk_covers G r old es out res"
  shows "walk_covers G r old (e # es) out res"
  using assms(3) in_entries_find [OF assms(1), of G r] assms(2) by (auto simp: walk_covers_def entries_fit_def)

lemma walk_covers_blob:
  assumes "\<not> ge_tree e" "walk_covers G r old es (out @ [ge_oid e]) res"
  shows "walk_covers G r old (e # es) out res"
  using assms in_tree_blob [of G r "ge_oid e"] by (auto simp: walk_covers_def entries_fit_def)

lemma walk_covers_tree:
  assumes olds: "twin_entries G r (find P old) = Inr olds" and es': "read_tree G r (ge_oid e) = Inr es'"
    and sub: "walk_covers G r olds es' (out @ [ge_oid e]) (Inr out')" and rest: "walk_covers G r old es out' res"
  shows "walk_covers G r old (e # es) out res"
  unfolding walk_covers_def
proof (intro impI allI)
  fix delta assume fit: "kinds_fit G r \<and> entries_fit G r (e # es)" and res: "res = Inr delta"
  have old: "in_entries G r old oid" if "in_entries G r olds oid" for oid
  proof -
    have "olds \<noteq> []" using that by auto
    then obtain o' where o': "find P old = Some o'" "read_tree G r (ge_oid o') = Inr olds"
      using olds by (auto simp: twin_entries_def split: option.splits if_splits)
    then have "in_tree G r (ge_oid o') oid" using that by (simp add: read_tree_def in_tree_entries)
    with o'(1) show ?thesis by (rule in_entries_find)
  qed
  have tree: "gx_find_tree G r (ge_oid e) = Inr es'" using es' by (simp add: read_tree_def)
  have "entries_fit G r es" using fit by (simp add: entries_fit_def)
  with rest fit res have r: "set out' \<subseteq> set delta" "\<forall>oid. in_entries G r es oid \<longrightarrow> oid \<in> set delta \<or> in_entries G r old oid"
    by (auto simp: walk_covers_def)
  have "entries_fit G r es'" using conjunct1 [OF fit] es' by (rule entries_fit_read)
  with sub fit have s: "set (out @ [ge_oid e]) \<subseteq> set out'"
    "\<forall>oid. in_entries G r es' oid \<longrightarrow> oid \<in> set out' \<or> in_entries G r olds oid"
    by (auto simp: walk_covers_def)
  show "set out \<subseteq> set delta \<and> (\<forall>oid. in_entries G r (e # es) oid \<longrightarrow> oid \<in> set delta \<or> in_entries G r old oid)"
    using r s old by (auto simp: in_tree_entries [OF tree])
qed

lemma changed_entries_cover:
  fixes G :: "('r, 'ed, 'm) gix"
  assumes "changed_entries G r old es out = Some res"
  shows "walk_covers G r old es out res"
  using assms
proof (rule changed_entries.raw_induct [where P = walk_covers, rotated])
  fix walk and G :: "('r, 'ed, 'm) gix" and r old entries out and res :: "'m git_error + oid list"
  assume IH: "\<And>G r old es out res. walk G r old es out = Some res \<Longrightarrow> walk_covers G r old es out res"
    and step: "(case entries of
        [] \<Rightarrow> Some (Inr out)
      | e # es \<Rightarrow>
          let twin = find (\<lambda>old. ge_name old = ge_name e) old
          in if (case twin of None \<Rightarrow> False | Some old \<Rightarrow> ge_oid old = ge_oid e)
             then walk G r old es out
             else if ge_tree e then
               (case (case twin of
                        None \<Rightarrow> Inr []
                      | Some old \<Rightarrow> if ge_tree old then read_tree G r (ge_oid old) else Inr []) of
                  Inl err \<Rightarrow> Some (Inl err)
                | Inr old_entries' \<Rightarrow> (case read_tree G r (ge_oid e) of
                    Inl err \<Rightarrow> Some (Inl err)
                  | Inr entries' \<Rightarrow>
                      Option.bind (walk G r old_entries' entries' (out @ [ge_oid e])) (\<lambda>res.
                        case res of
                          Inl err \<Rightarrow> Some (Inl err)
                        | Inr out \<Rightarrow> walk G r old es out)))
             else if gx_exists G r (ge_oid e) then walk G r old es (out @ [ge_oid e])
             else Some (Inl (Corruption (MissingObject (ge_oid e))))) = Some res"
  show "walk_covers G r old entries out res"
  proof (cases entries)
    case Nil
    then show ?thesis using step by (auto simp: walk_covers_def)
  next
    case (Cons e es)
    define twin where "twin = find (\<lambda>old. ge_name old = ge_name e) old"
    have err: "walk_covers G r old (e # es) out (Inl x)" for x by (simp add: walk_covers_def)
    note body = step [unfolded Cons list.case Let_def, folded twin_def twin_entries_def]
    show ?thesis unfolding Cons
    proof (cases "case twin of None \<Rightarrow> False | Some old \<Rightarrow> ge_oid old = ge_oid e")
      case True
      then obtain o' where "twin = Some o'" "ge_oid o' = ge_oid e" by (auto split: option.splits)
      moreover have "walk G r old es out = Some res" using body unfolding if_P [OF True] .
      ultimately show "walk_covers G r old (e # es) out res"
        unfolding twin_def by (intro walk_covers_skip IH)
    next
      case False
      note body = body [unfolded if_not_P [OF False]]
      show "walk_covers G r old (e # es) out res"
      proof (cases "ge_tree e")
        case True
        from body [unfolded if_P [OF True]] consider x where "res = Inl x"
          | olds es' out' where "twin_entries G r twin = Inr olds" "read_tree G r (ge_oid e) = Inr es'"
              "walk G r olds es' (out @ [ge_oid e]) = Some (Inr out')" "walk G r old es out' = Some res"
          by (auto split: sum.splits bind_splits)
        then show ?thesis
          by cases (use err in \<open>auto simp: twin_def intro: walk_covers_tree IH\<close>)
      next
        case False
        from body [unfolded if_not_P [OF False]]
        consider x where "res = Inl x" | "walk G r old es (out @ [ge_oid e]) = Some res" by (auto split: if_splits)
        then show ?thesis by cases (use err in \<open>auto intro: walk_covers_blob [OF False] IH\<close>)
      qed
    qed
  qed
qed

text \<open>An object of the new tree is reported, unless the older tree has it too.\<close>

lemma changed_objects_cover:
  fixes G :: "('r, 'ed, 'm) gix"
  assumes "changed_objects G r t old [] = Some (Inr delta)" "kinds_fit G r" "in_tree G r t oid"
  shows "oid \<in> set delta \<or> (\<exists>c. old = Some c \<and> in_tree G r c oid)"
proof -
  obtain olds es where olds: "(case old of None \<Rightarrow> Inr [] | Some c \<Rightarrow> read_tree G r c) = (Inr olds :: 'm git_error + git_entry list)"
    and es: "read_tree G r t = Inr es" and walk: "changed_entries G r olds es [t] = Some (Inr delta)"
    using assms(1) by (auto simp: changed_objects_def split: sum.splits)
  have tree: "gx_find_tree G r t = Inr es" using es by (simp add: read_tree_def)
  have fit: "entries_fit G r es" using assms(2) es by (rule entries_fit_read)
  have c: "t \<in> set delta" "oid \<in> set delta \<or> in_entries G r olds oid" if "in_entries G r es oid \<or> oid = t"
    using changed_entries_cover [OF walk] assms(2) fit that by (auto simp: walk_covers_def)
  have "in_entries G r olds oid \<Longrightarrow> \<exists>c. old = Some c \<and> in_tree G r c oid"
    using olds by (cases old) (auto simp: read_tree_def in_tree_entries)
  then show ?thesis using c assms(3) in_tree_entries [OF tree] by blast
qed

section \<open>The order of a checkpoint\<close>

datatype sync_event = Synced file_path | Edited string

text \<open>The calls that matter for durability leave a trace.\<close>

definition traced :: "('r, 'ed, 'm) gix \<Rightarrow> ('r \<Rightarrow> sync_event list) \<Rightarrow> bool" where
  "traced G tr \<longleftrightarrow> (\<forall>r p. tr (fst (gx_fsync G r p)) = tr r @ [Synced p])
     \<and> (\<forall>r n c. tr (fst (gx_edit_ref G r n c)) = tr r @ [Edited n]) \<and> (\<forall>r d. tr (gx_sleep G r d) = tr r)"

lemma trace_sync: "traced G tr \<Longrightarrow> sync_if_present G r p = Inr (r', b) \<Longrightarrow> tr r' = tr r @ [Synced p]"
  by (auto simp: sync_if_present_def traced_def split: prod.splits sync_outcome.splits) (metis fst_conv)+

lemma trace_dirs: "traced G tr \<Longrightarrow> sync_dirs G r dirs = Inr r' \<Longrightarrow> tr r' = tr r @ map Synced dirs"
proof (induction dirs arbitrary: r)
  case (Cons d dirs)
  then obtain r1 b where "sync_if_present G r d = Inr (r1, b)" "sync_dirs G r1 dirs = Inr r'"
    by (auto simp: bindE_Inr_iff)
  then show ?case using Cons.IH [of r1] Cons.prems(1) trace_sync [OF Cons.prems(1)] by simp
qed simp

lemma trace_files: "traced G tr \<Longrightarrow> sync_files G r files = Inr r' \<Longrightarrow> tr r' = tr r @ map Synced (map fst files)"
proof (induction files arbitrary: r)
  case (Cons f files)
  then obtain r1 b where "sync_if_present G r (fst f) = Inr (r1, b)" "sync_files G r1 files = Inr r'"
    by (cases f) (auto simp: bindE_Inr_iff split: if_splits)
  then show ?case using Cons.IH [of r1] Cons.prems(1) trace_sync [OF Cons.prems(1)] by simp
qed simp

lemma trace_ref:
  assumes "traced G tr" "sync_ref_any_form G r file base packed = Inr r'"
  shows "\<exists>ps. tr r' = tr r @ map Synced ps \<and> file \<in> set ps"
proof -
  obtain r1 b r2 c where "sync_if_present G r file = Inr (r1, b)"
    "(if b then Inr (r1, True) else sync_if_present G r1 packed) = Inr (r2, c)"
    "sync_dirs G r2 (dirs_up_to base (drop 1 (path_ancestors file))) = Inr r'"
    using assms(2) by (auto simp: sync_ref_any_form_def bindE_Inr_iff)
  then have "tr r' = tr r @ map Synced (file # (if b then [] else [packed]) @ dirs_up_to base (drop 1 (path_ancestors file)))"
    using trace_sync [OF assms(1)] trace_dirs [OF assms(1)] by (cases b) auto
  then show ?thesis by fastforce
qed

lemma trace_update:
  assumes "traced G tr" "update_ref_loop G name expected new observed start r backoff = Some (r', res)"
  shows "\<exists>k. tr r' = tr r @ replicate (Suc k) (Edited name)"
proof -
  have "traced G tr \<longrightarrow> (\<exists>k. tr (fst (r', res)) = tr r @ replicate (Suc k) (Edited name))"
    using assms(2)
  proof (rule update_ref_loop.raw_induct [where P = "\<lambda>G name expected new observed start r backoff y.
      traced G tr \<longrightarrow> (\<exists>k. tr (fst y) = tr r @ replicate (Suc k) (Edited name))", rotated])
    fix loop and G :: "('a, 'b, 'c) gix" and name expected new observed start r backoff and y :: "'a \<times> ('c git_error + unit)"
    assume IH: "\<And>G name expected new observed start r backoff y. loop G name expected new observed start r backoff = Some y \<Longrightarrow>
        traced G tr \<longrightarrow> (\<exists>k. tr (fst y) = tr r @ replicate (Suc k) (Edited name))"
      and step: "(case gx_edit_ref G r name (UpdateRef expected new) of
        (r, Inr _) \<Rightarrow> Some (r, Inr ())
      | (r, Inl e) \<Rightarrow>
          if is_genuine_cas_mismatch e then Some (r, Inl (tip_moved G r name observed))
          else
            let elapsed = gx_now G r - start
            in if elapsed \<ge> retry_bound then Some (r, Inl (RefUpdateTransient e))
               else loop G name expected new observed start
                 (gx_sleep G r (min backoff (retry_bound - elapsed))) (min (backoff * 2) 100000000)) = Some y"
    show "traced G tr \<longrightarrow> (\<exists>k. tr (fst y) = tr r @ replicate (Suc k) (Edited name))"
    proof
      assume traced: "traced G tr"
      obtain r1 res1 where r1: "gx_edit_ref G r name (UpdateRef expected new) = (r1, res1)" by fastforce
      then have t1: "tr r1 = tr r @ [Edited name]" using traced unfolding traced_def by (metis fst_conv)
      show "\<exists>k. tr (fst y) = tr r @ replicate (Suc k) (Edited name)"
      proof (cases "fst y = r1")
        case True
        then show ?thesis using t1 by (intro exI [of _ 0]) simp
      next
        case False
        then obtain d b where "loop G name expected new observed start (gx_sleep G r1 d) b = Some y"
          using step r1 by (auto simp: Let_def split: sum.splits if_splits)
        then obtain k where "tr (fst y) = tr (gx_sleep G r1 d) @ replicate (Suc k) (Edited name)"
          using IH traced by blast
        then show ?thesis using t1 traced by (intro exI [of _ "Suc k"]) (simp add: traced_def)
      qed
    qed
  qed
  then show ?thesis using assms(1) by simp
qed

lemma trace_drop: "traced G tr \<Longrightarrow> tr (drop_ckpts G r ckpts) = tr r @ map Edited (map ck_name ckpts)"
  by (induction ckpts arbitrary: r) (simp_all add: traced_def)

text \<open>What is collected to be synced for the changed objects.\<close>

lemma unsynced_paths:
  "set (map fst (us_files (fold (unsynced_object G) delta us))) = set (map fst (us_files us)) \<union> loose_file G ` set delta
   \<and> set (us_dirs (fold (unsynced_object G) delta us))
      = set (us_dirs us) \<union> loose_dir G ` set delta \<union> (if delta = [] then {} else {gx_objects_dir G})"
proof (induction delta arbitrary: us)
  case (Cons oid delta)
  show ?case using Cons.IH [of "unsynced_object G oid us"]
    by (auto simp: unsynced_object_def set_bt_insert_keys set_insort_insert)
qed simp

text \<open>
  The trace of a checkpoint that made a reference: syncs (\<open>oids\<close> are objects among them), the
  creation, syncs, deletions.
\<close>

definition checkpoint_order ::
    "('r, 'ed, 'm) gix \<Rightarrow> oid set \<Rightarrow> file_path \<Rightarrow> string \<Rightarrow> ckpt_ref list \<Rightarrow> sync_event list \<Rightarrow> bool" where
  "checkpoint_order G oids staging name ckpts evs \<longleftrightarrow>
     (\<exists>before after k file base.
        evs = map Synced before @ replicate (Suc k) (Edited name) @ map Synced after
          @ map Edited (map ck_name (filter (\<lambda>c. Some (ck_generation c) \<noteq> map_option ck_generation (newest_ckpt ckpts)) ckpts))
        \<and> (\<forall>oid \<in> oids. loose_file G oid \<in> set before \<and> loose_dir G oid \<in> set before)
        \<and> staging \<in> set before
        \<and> (loose_ref_path G name :: 'm git_error + _) = Inr (file, base) \<and> file \<in> set after)"

text \<open>Nothing to do: there is no tip, or the newest checkpoint is of the tip.\<close>

definition checkpointed :: "('r, 'ed, 'm) gix \<Rightarrow> 'r git_storage \<Rightarrow> bool" where
  "checkpointed G s \<longleftrightarrow> (\<forall>tip. gs_tip s = Some tip \<longrightarrow>
     (\<exists>ckpts c. list_ckpts G (gs_repo s) (gs_ckpt_prefix s) (gs_arity s) = Inr ckpts
        \<and> newest_snap ckpts = Some c \<and> sn_tree c = tip))"

lemma checkpointed_same:
  assumes "git_checkpoint G s = Inr (s', n)" "checkpointed G s"
  shows "s' = s"
proof (cases "gs_tip s")
  case None
  then show ?thesis using assms(1) by (simp add: git_checkpoint_def)
next
  case (Some tip)
  then obtain ckpts c where "list_ckpts G (gs_repo s) (gs_ckpt_prefix s) (gs_arity s) = Inr ckpts"
    "newest_snap ckpts = Some c" "sn_tree c = tip"
    using assms(2) by (auto simp: checkpointed_def)
  then show ?thesis using assms(1) Some by (simp add: git_checkpoint_def Let_def split: if_splits)
qed

text \<open>The objects of the tip that the newest checkpoint does not have.\<close>

definition new_objects :: "('r, 'ed, 'm) gix \<Rightarrow> 'r \<Rightarrow> oid \<Rightarrow> ckpt_ref list \<Rightarrow> oid set" where
  "new_objects G r tip ckpts = {oid. in_tree G r tip oid
     \<and> (\<forall>c. newest_snap ckpts = Some c \<longrightarrow> \<not> in_tree G r (sn_tree c) oid)}"

text \<open>The steps of a checkpoint that publishes one, each with its result.\<close>

lemma checkpoint_run:
  fixes G :: "('r, 'ed, 'm) gix"
  assumes c: "git_checkpoint G s = Inr (s', n)" and ne: "\<not> checkpointed G s"
  obtains tip ckpts delta r0 r1 r2 r3 r4 name fp base where "gs_tip s = Some tip"
    "list_ckpts G (gs_repo s) (gs_ckpt_prefix s) (gs_arity s) = Inr ckpts"
    "changed_objects G (gs_repo s) tip (map_option sn_tree (newest_snap ckpts)) [] = Some (Inr delta)"
    "sync_files G (gs_repo s) (us_files (fold (unsynced_object G) delta no_unsynced)) = Inr r0"
    "sync_dirs G r0 (us_dirs (fold (unsynced_object G) delta no_unsynced)) = Inr r1"
    "sync_ref_any_form G r1 (gs_ref_file s) (gs_ref_base s) (packed_refs G) = Inr r2"
    "name = gs_ckpt_prefix s @ dec_fixed 20 (next_generation ckpts)"
    "update_ref G r2 name MustNotExist tip None = Some (r3, Inr ())"
    "(loose_ref_path G name :: 'm git_error + _) = Inr (fp, base)"
    "sync_ref_any_form G r3 fp base (packed_refs G) = Inr r4"
    "s' = s\<lparr>gs_repo := drop_ckpts G r4 (filter (\<lambda>c. Some (ck_generation c)
       \<noteq> map_option ck_generation (newest_ckpt ckpts)) ckpts)\<rparr>"
proof -
  obtain tip where tip: "gs_tip s = Some tip" using ne by (auto simp: checkpointed_def)
  define held where "held \<longleftrightarrow> (case read_snap G (gs_repo s) (gs_ref s) (gs_arity s) of Inr (Some sn) \<Rightarrow> sn_tree sn = tip | _ \<Rightarrow> False)"
  note c1 = c [unfolded git_checkpoint_def tip option.case Let_def, folded held_def]
  have held: held using c1 by (cases held) auto
  note c2 = c1 [unfolded if_P [OF held] bindE_Inr_iff]
  then obtain ckpts where ckpts: "list_ckpts G (gs_repo s) (gs_ckpt_prefix s) (gs_arity s) = Inr ckpts"
    and c3: "(if (case newest_snap ckpts of Some n \<Rightarrow> sn_tree n = tip | None \<Rightarrow> False) then Inr (s, gs_count s)
                 else case changed_objects G (gs_repo s) tip (map_option sn_tree (newest_snap ckpts)) [] of
                   None \<Rightarrow> Inl GitStuck
                 | Some res \<Rightarrow>
                     bindE res (\<lambda>delta.
                     bindE (unsynced_sync G (gs_repo s) (fold (unsynced_object G) delta no_unsynced)) (\<lambda>r.
                     bindE (sync_ref_any_form G r (gs_ref_file s) (gs_ref_base s) (packed_refs G)) (\<lambda>r.
                     bindE (ckpt_name G (gs_ckpt_prefix s) (next_generation ckpts)) (\<lambda>name.
                        case update_ref G r name MustNotExist tip None of
                          None \<Rightarrow> Inl GitStuck
                        | Some (r, res) \<Rightarrow>
                            bindE res (\<lambda>_.
                            bindE (loose_ref_path G name) (\<lambda>(file, base).
                            bindE (sync_ref_any_form G r file base (packed_refs G)) (\<lambda>r.
                              Inr (s\<lparr>gs_repo := drop_ckpts G r (filter (\<lambda>c. Some (ck_generation c)
                                \<noteq> map_option ck_generation (newest_ckpt ckpts)) ckpts)\<rparr>, gs_count s)))))))))
      = Inr (s', n)"
    by blast
  have "\<not> (case newest_snap ckpts of Some n \<Rightarrow> sn_tree n = tip | None \<Rightarrow> False)" 
    using ne ckpts tip by (auto simp: checkpointed_def split: option.splits)
  note c4 = c3 [unfolded if_not_P [OF this]]
  then obtain delta where delta: "changed_objects G (gs_repo s) tip (map_option sn_tree (newest_snap ckpts)) [] = Some (Inr delta)"
    by (auto simp: bindE_Inr_iff split: option.splits)
  let ?us = "fold (unsynced_object G) delta no_unsynced"
  note c5 = c4 [unfolded delta option.case bindE_simps bindE_Inr_iff]
  then obtain r1 r2 name where u: "unsynced_sync G (gs_repo s) ?us = Inr r1"
    and r2: "sync_ref_any_form G r1 (gs_ref_file s) (gs_ref_base s) (packed_refs G) = Inr r2"
    and name: "ckpt_name G (gs_ckpt_prefix s) (next_generation ckpts) = (Inr name :: 'm git_error + _)"
    and c6: "(case update_ref G r2 name MustNotExist tip None of
                          None \<Rightarrow> Inl GitStuck
                        | Some (r, res) \<Rightarrow>
                            bindE res (\<lambda>_.
                            bindE (loose_ref_path G name) (\<lambda>(file, base).
                            bindE (sync_ref_any_form G r file base (packed_refs G)) (\<lambda>r.
                              Inr (s\<lparr>gs_repo := drop_ckpts G r (filter (\<lambda>c. Some (ck_generation c)
                                \<noteq> map_option ck_generation (newest_ckpt ckpts)) ckpts)\<rparr>, gs_count s))))) = Inr (s', n)"
    by (auto simp: bindE_Inr_iff)
  then obtain r3 fp base r4 where r3: "update_ref G r2 name MustNotExist tip None = Some (r3, Inr ())"
    and ref_path: "(loose_ref_path G name :: 'm git_error + _) = Inr (fp, base)"
    and r4: "sync_ref_any_form G r3 fp base (packed_refs G) = Inr r4"
    and s': "s' = s\<lparr>gs_repo := drop_ckpts G r4 (filter (\<lambda>c. Some (ck_generation c)
                                \<noteq> map_option ck_generation (newest_ckpt ckpts)) ckpts)\<rparr>"
    by (auto simp: bindE_Inr_iff split: option.splits prod.splits)
  obtain r0 where us: "sync_files G (gs_repo s) (us_files ?us) = Inr r0" "sync_dirs G r0 (us_dirs ?us) = Inr r1"
    using u by (auto simp: unsynced_sync_def bindE_Inr_iff)
  have nm: "name = gs_ckpt_prefix s @ dec_fixed 20 (next_generation ckpts)"
    using name by (auto simp: ckpt_name_def Let_def split: if_splits)
  show ?thesis by (rule that [OF tip ckpts delta us r2 nm r3 ref_path r4 s'])
qed

lemma checkpoint_trace:
  fixes G :: "('r, 'ed, 'm) gix"
  assumes tr: "traced G tr" and kinds: "kinds_fit G (gs_repo s)" and c: "git_checkpoint G s = Inr (s', n)"
  shows "if checkpointed G s then s' = s
    else \<exists>tip ckpts evs. gs_tip s = Some tip
      \<and> list_ckpts G (gs_repo s) (gs_ckpt_prefix s) (gs_arity s) = Inr ckpts
      \<and> tr (gs_repo s') = tr (gs_repo s) @ evs
      \<and> checkpoint_order G (new_objects G (gs_repo s) tip ckpts) (gs_ref_file s)
          (gs_ckpt_prefix s @ dec_fixed 20 (next_generation ckpts)) ckpts evs"
proof (cases "checkpointed G s")
  case True
  then show ?thesis using checkpointed_same [OF c] by simp
next
  case False
  then obtain tip ckpts delta r0 r1 r2 r3 r4 name fp base where tip: "gs_tip s = Some tip"
    and ckpts: "list_ckpts G (gs_repo s) (gs_ckpt_prefix s) (gs_arity s) = Inr ckpts"
    and delta: "changed_objects G (gs_repo s) tip (map_option sn_tree (newest_snap ckpts)) [] = Some (Inr delta)"
    and us: "sync_files G (gs_repo s) (us_files (fold (unsynced_object G) delta no_unsynced)) = Inr r0"
      "sync_dirs G r0 (us_dirs (fold (unsynced_object G) delta no_unsynced)) = Inr r1"
    and r2: "sync_ref_any_form G r1 (gs_ref_file s) (gs_ref_base s) (packed_refs G) = Inr r2"
    and nm: "name = gs_ckpt_prefix s @ dec_fixed 20 (next_generation ckpts)"
    and r3: "update_ref G r2 name MustNotExist tip None = Some (r3, Inr ())"
    and ref_path: "(loose_ref_path G name :: 'm git_error + _) = Inr (fp, base)"
    and r4: "sync_ref_any_form G r3 fp base (packed_refs G) = Inr r4"
    and s': "s' = s\<lparr>gs_repo := drop_ckpts G r4 (filter (\<lambda>c. Some (ck_generation c)
       \<noteq> map_option ck_generation (newest_ckpt ckpts)) ckpts)\<rparr>"
    by (rule checkpoint_run [OF c])
  let ?us = "fold (unsynced_object G) delta no_unsynced"
  have t1: "tr r1 = tr (gs_repo s) @ map Synced (map fst (us_files ?us) @ us_dirs ?us)"
    using us trace_files [OF tr] trace_dirs [OF tr] by simp
  obtain ps where t2: "tr r2 = tr r1 @ map Synced ps" "gs_ref_file s \<in> set ps" using trace_ref [OF tr r2] by blast
  obtain k where t3: "tr r3 = tr r2 @ replicate (Suc k) (Edited name)"
    using trace_update [OF tr r3 [unfolded update_ref_def]] by blast
  obtain qs where t4: "tr r4 = tr r3 @ map Synced qs" "fp \<in> set qs" using trace_ref [OF tr r4] by blast
  define before where "before = map fst (us_files ?us) @ us_dirs ?us @ ps"
  have new: "new_objects G (gs_repo s) tip ckpts \<subseteq> set delta"
    using changed_objects_cover [OF delta kinds] by (auto simp: new_objects_def)
  have "\<forall>oid \<in> set delta. loose_file G oid \<in> set before \<and> loose_dir G oid \<in> set before"
    using unsynced_paths [of G delta no_unsynced] by (auto simp: before_def)
  then have b: "\<forall>oid \<in> new_objects G (gs_repo s) tip ckpts. loose_file G oid \<in> set before \<and> loose_dir G oid \<in> set before"
    "gs_ref_file s \<in> set before"
    using new t2(2) by (auto simp: before_def)
  let ?evs = "map Synced before @ replicate (Suc k) (Edited name) @ map Synced qs
    @ map Edited (map ck_name (filter (\<lambda>c. Some (ck_generation c) \<noteq> map_option ck_generation (newest_ckpt ckpts)) ckpts))"
  have "tr (gs_repo s') = tr (gs_repo s) @ ?evs"
    using t1 t2(1) t3 t4(1) trace_drop [OF tr, of r4] by (simp add: s' before_def)
  moreover have "checkpoint_order G (new_objects G (gs_repo s) tip ckpts) (gs_ref_file s) name ckpts ?evs"
    unfolding checkpoint_order_def using b ref_path t4(2) by blast
  ultimately show ?thesis using False tip ckpts nm by auto
qed

end
