(* ===== verification/Store_Git_Memory.thy ===== *)
theory Store_Git_Memory
  imports Store_Git_Recovery Store_Git_Sync "HOL-Library.Countable"
begin

text \<open>
  A repository in memory that does what the object database promises: the interpretation of the
  locales of the git backend, and the repository the witnesses run on.  Objects are named by their
  content, so that no two collide; a tree editor is the map of paths it stands for.
\<close>

section \<open>The repository\<close>

record mem_repo =
  mr_objects :: "oid set"
  mr_refs :: "(string \<times> ref_target) list"
  mr_clock :: nat
  mr_trace :: "sync_event list"

definition tree_code :: "git_entry list \<Rightarrow> bytes" where
  "tree_code es = replicate (to_nat (map (\<lambda>e. (ge_name e, ge_oid e, ge_tree e)) es)) 0"

definition tree_at :: "mem_repo \<Rightarrow> oid \<Rightarrow> git_entry list option" where
  "tree_at r t = (if t \<in> mr_objects r \<and> (\<exists>es. t = 1 # tree_code es) then Some (THE es. t = 1 # tree_code es) else None)"

definition blob_at :: "mem_repo \<Rightarrow> oid \<Rightarrow> bytes option" where
  "blob_at r b = (case b of x # d \<Rightarrow> if x = 0 \<and> b \<in> mr_objects r then Some d else None | [] \<Rightarrow> None)"

definition res_of :: "'a option \<Rightarrow> unit + 'a" where
  "res_of x = (case x of None \<Rightarrow> Inl () | Some a \<Rightarrow> Inr a)"

fun mem_matches :: "ref_target option \<Rightarrow> previous_value \<Rightarrow> bool" where
  "mem_matches v AnyValue \<longleftrightarrow> True"
| "mem_matches v MustNotExist \<longleftrightarrow> v = None"
| "mem_matches v (MustExistAndMatch t) \<longleftrightarrow> v = Some (ObjectTarget t)"

definition mem_edit_ref :: "mem_repo \<Rightarrow> string \<Rightarrow> ref_change \<Rightarrow> mem_repo \<times> (unit edit_error + unit)" where
  "mem_edit_ref r name change =
     (let r1 = r\<lparr>mr_trace := mr_trace r @ [Edited name]\<rparr>; v = map_of (mr_refs r) name
      in case change of
           UpdateRef expected new \<Rightarrow>
             if mem_matches v expected then (r1\<lparr>mr_refs := AList.update name (ObjectTarget new) (mr_refs r)\<rparr>, Inr ())
             else (r1, Inl PrepareReferenceOutOfDate)
         | DeleteRef expected \<Rightarrow>
             if mem_matches v expected then (r1\<lparr>mr_refs := AList.delete name (mr_refs r)\<rparr>, Inr ())
             else (r1, Inl PrepareReferenceOutOfDate))"

text \<open>Writing an editor's map: one call back for every directory, the innermost first.\<close>

definition top_names :: "paths \<Rightarrow> string list" where
  "top_names pm = sorted_list_of_set {n. \<exists>p. pm (n # p) \<noteq> None}"

type_synonym mem_callback = "mem_repo \<Rightarrow> git_entry list \<Rightarrow> unit git_error + mem_repo \<times> oid"

fun mem_entries ::
    "(mem_repo \<Rightarrow> paths \<Rightarrow> unit git_error + mem_repo \<times> oid) \<Rightarrow> mem_repo \<Rightarrow> paths \<Rightarrow> string list
      \<Rightarrow> unit git_error + mem_repo \<times> git_entry list" where
  "mem_entries sub r pm [] = Inr (r, [])"
| "mem_entries sub r pm (n # ns) =
     bindE (case pm [n] of
              Some d \<Rightarrow> Inr (r, \<lparr>ge_name = n, ge_oid = 0 # d, ge_tree = False\<rparr>)
            | None \<Rightarrow> bindE (sub r (\<lambda>p. pm (n # p))) (\<lambda>(r, t). Inr (r, \<lparr>ge_name = n, ge_oid = t, ge_tree = True\<rparr>)))
       (\<lambda>(r, e). bindE (mem_entries sub r pm ns) (\<lambda>(r, es). Inr (r, e # es)))"

primrec mem_write_tree :: "nat \<Rightarrow> mem_callback \<Rightarrow> mem_repo \<Rightarrow> paths \<Rightarrow> unit git_error + mem_repo \<times> oid" where
  "mem_write_tree 0 cb r pm = Inl GitStuck"
| "mem_write_tree (Suc d) cb r pm = bindE (mem_entries (mem_write_tree d cb) r pm (top_names pm)) (\<lambda>(r, es). cb r es)"

definition mem_depth :: "paths \<Rightarrow> nat" where
  "mem_depth pm = Suc (Max (insert 0 (length ` dom pm)))"

definition mem_object :: "git_kind \<Rightarrow> bytes \<Rightarrow> oid" where
  "mem_object kind data = (case kind of BlobKind \<Rightarrow> 0 | TreeKind \<Rightarrow> 1) # data"

definition mem_gix0 :: "(mem_repo, paths, unit) gix" where
  "mem_gix0 = \<lparr>
     gx_hash = (\<lambda>r kind data. Inr (mem_object kind data)),
     gx_write_buf = (\<lambda>r kind data oid. Inr (r\<lparr>mr_objects := insert oid (mr_objects r)\<rparr>)),
     gx_exists = (\<lambda>r oid. oid \<in> mr_objects r),
     gx_find_tree = (\<lambda>r t. res_of (tree_at r t)),
     gx_find_blob = (\<lambda>r b. res_of (blob_at r b)),
     gx_tree_bytes = (\<lambda>es. Inr (tree_code es)),
     gx_edit = (\<lambda>r t. Inl ()),
     gx_remove = (\<lambda>r ed name. Inr (without_top name ed)),
     gx_upsert = (\<lambda>r ed path oid. bindE (res_of (blob_at r oid)) (\<lambda>d. Inr (ed(split_slash path \<mapsto> d)))),
     gx_write = (\<lambda>r ed cb. mem_write_tree (mem_depth ed) cb r ed),
     gx_find_ref = (\<lambda>r name. Inr (map_option (\<lambda>t. \<lparr>gr_name = name, gr_target = t\<rparr>) (map_of (mr_refs r) name))),
     gx_peel = (\<lambda>r ref. case gr_target ref of ObjectTarget t \<Rightarrow> Inr t | SymbolicTarget _ \<Rightarrow> Inl ()),
     gx_list_refs = (\<lambda>r p. Inr (map (\<lambda>(n, t). Inr \<lparr>gr_name = n, gr_target = t\<rparr>) (filter (\<lambda>(n, _). prefix p n) (mr_refs r)))),
     gx_edit_ref = mem_edit_ref,
     gx_now = mr_clock,
     gx_sleep = (\<lambda>r d. r\<lparr>mr_clock := mr_clock r + d\<rparr>),
     gx_fsync = (\<lambda>r p. (r\<lparr>mr_trace := mr_trace r @ [Synced p]\<rparr>, SyncDone)),
     gx_valid_ref = (\<lambda>_. True),
     gx_category = (\<lambda>_. None),
     gx_namespace = None,
     gx_common_dir = [''git''],
     gx_git_dir = [''git''],
     gx_objects_dir = [''git'', ''objects''],
     gx_hex = (\<lambda>oid. concat (map (\<lambda>b. hex_fixed 2 (unat b)) oid))\<rparr>"

definition mem_gix :: "(mem_repo, paths, unit) gix" where
  "mem_gix = mem_gix0\<lparr>gx_edit := (\<lambda>r tree. case tree of
       None \<Rightarrow> Inr Map.empty
     | Some t \<Rightarrow> if \<exists>pm. holds mem_gix0 r t pm then Inr (THE pm. holds mem_gix0 r t pm) else Inl ())\<rparr>"

definition mem_init :: mem_repo where
  "mem_init = \<lparr>mr_objects = {}, mr_refs = [], mr_clock = 0, mr_trace = []\<rparr>"

definition mem_ok :: "mem_repo \<Rightarrow> bool" where
  "mem_ok r \<longleftrightarrow> distinct (map fst (mr_refs r))"

definition paths_shape :: "paths \<Rightarrow> bool" where
  "paths_shape pm \<longleftrightarrow> finite (dom pm) \<and> pm [] = None \<and> (\<forall>p \<in> dom pm. path_free pm p)"

definition mem_editing :: "mem_repo \<Rightarrow> paths \<Rightarrow> paths \<Rightarrow> bool" where
  "mem_editing r ed pm \<longleftrightarrow> ed = pm \<and> paths_shape pm \<and> (\<forall>p d. pm p = Some d \<longrightarrow> 0 # d \<in> mr_objects r)"

section \<open>It works\<close>

lemma mem_gix_simps [simp]:
  "gx_hash mem_gix r kind data = Inr (mem_object kind data)"
  "gx_write_buf mem_gix r kind data oid = Inr (r\<lparr>mr_objects := insert oid (mr_objects r)\<rparr>)"
  "gx_exists mem_gix r oid = (oid \<in> mr_objects r)"
  "gx_find_tree mem_gix r t = res_of (tree_at r t)"
  "gx_find_blob mem_gix r t = res_of (blob_at r t)"
  "gx_tree_bytes mem_gix es = Inr (tree_code es)"
  "gx_remove mem_gix r ed name = Inr (without_top name ed)"
  "gx_upsert mem_gix r ed at oid = bindE (res_of (blob_at r oid)) (\<lambda>d. Inr (ed(split_slash at \<mapsto> d)))"
  "gx_write mem_gix r ed cb = mem_write_tree (mem_depth ed) cb r ed"
  "gx_find_ref mem_gix r name = Inr (map_option (\<lambda>t. \<lparr>gr_name = name, gr_target = t\<rparr>) (map_of (mr_refs r) name))"
  "gx_peel mem_gix r ref = (case gr_target ref of ObjectTarget t \<Rightarrow> Inr t | SymbolicTarget _ \<Rightarrow> Inl ())"
  "gx_list_refs mem_gix r pre = Inr (map (\<lambda>(n, t). Inr \<lparr>gr_name = n, gr_target = t\<rparr>) (filter (\<lambda>(n, _). prefix pre n) (mr_refs r)))"
  "gx_edit_ref mem_gix = mem_edit_ref" "gx_now mem_gix = mr_clock"
  "gx_sleep mem_gix r d = r\<lparr>mr_clock := mr_clock r + d\<rparr>"
  "gx_fsync mem_gix r path = (r\<lparr>mr_trace := mr_trace r @ [Synced path]\<rparr>, SyncDone)"
  "gx_valid_ref mem_gix name" "gx_category mem_gix name = None" "gx_namespace mem_gix = None"
  "gx_common_dir mem_gix = [''git'']" "gx_objects_dir mem_gix = [''git'', ''objects'']"
  by (simp_all add: mem_gix_def mem_gix0_def)

lemma res_of_Inr [simp]: "res_of x = Inr a \<longleftrightarrow> x = Some a"
  by (cases x) (simp_all add: res_of_def)

lemma tree_code_inj: "tree_code es = tree_code es' \<Longrightarrow> es = es'"
proof -
  assume "tree_code es = tree_code es'"
  then have "length (tree_code es) = length (tree_code es')" by simp
  then have "map (\<lambda>e. (ge_name e, ge_oid e, ge_tree e)) es = map (\<lambda>e. (ge_name e, ge_oid e, ge_tree e)) es'"
    by (simp add: tree_code_def)
  moreover have "inj (\<lambda>e :: git_entry. (ge_name e, ge_oid e, ge_tree e))" by (rule injI) simp
  ultimately show ?thesis by (simp add: inj_map_eq_map)
qed

lemma tree_at_Some: "tree_at r t = Some es \<longleftrightarrow> t \<in> mr_objects r \<and> t = 1 # tree_code es"
proof -
  have "(THE es'. 1 # tree_code es = 1 # tree_code es') = es" for es by (rule the_equality) (auto dest: tree_code_inj)
  then show ?thesis by (auto simp: tree_at_def)
qed

lemma blob_at_Some: "blob_at r b = Some d \<longleftrightarrow> b \<in> mr_objects r \<and> b = 0 # d"
  by (cases b) (auto simp: blob_at_def)

lemma mem_extends: "extends mem_gix r r' \<longleftrightarrow> mr_objects r \<subseteq> mr_objects r'"
  by (auto simp: extends_def tree_at_Some blob_at_Some)

lemma mem_same_refs: "mr_refs r' = mr_refs r \<Longrightarrow> same_refs mem_gix r r'"
  by (simp add: same_refs_def fun_eq_iff)

lemma split_slash_append:
  "CHR ''/'' \<notin> set seg \<Longrightarrow> split_slash (seg @ CHR ''/'' # rest) = seg # split_slash rest"
  "CHR ''/'' \<notin> set seg \<Longrightarrow> split_slash seg = [seg]"
  by (induction seg) auto

lemma path_text_Cons: "path_text (seg # segs) = seg @ concat (map (\<lambda>s. CHR ''/'' # s) segs)"
proof -
  have "map (\<lambda>(i, seg). if i = (0 :: nat) then seg else CHR ''/'' # seg) (enumerate (Suc n) segs)
      = map (\<lambda>s. CHR ''/'' # s) segs" for n
    by (induction segs arbitrary: n) simp_all
  from this [of 0] show ?thesis by (simp add: path_text_def)
qed

lemma split_path_text: "segs \<noteq> [] \<Longrightarrow> list_all segment_ok segs \<Longrightarrow> split_slash (path_text segs) = segs"
proof (induction segs)
  case (Cons seg segs)
  have seg: "CHR ''/'' \<notin> set seg" using Cons.prems by (simp add: segment_ok_def)
  show ?case
  proof (cases segs)
    case Nil
    then show ?thesis using seg by (simp add: path_text_Cons split_slash_append)
  next
    case (Cons s2 rest)
    then have "path_text (seg # segs) = seg @ CHR ''/'' # path_text segs" by (simp add: path_text_Cons)
    then show ?thesis using Cons.IH Cons.prems seg Cons by (simp add: split_slash_append(1))
  qed
qed simp

section \<open>Trees in memory\<close>

lemma holds_same_objects:
  assumes "holds G r t pm" "gx_find_tree G r = gx_find_tree G' r" "gx_find_blob G r = gx_find_blob G' r"
  shows "holds G' r t pm"
  using assms
proof (induction rule: holds.induct)
  case (tree t es pm)
  show ?case by (rule holds.tree [where es = es]) (use tree in auto)
qed

lemma mem_holds0: "holds mem_gix0 r t pm \<longleftrightarrow> holds mem_gix r t pm"
proof -
  have "gx_find_tree mem_gix0 r = gx_find_tree mem_gix r" "gx_find_blob mem_gix0 r = gx_find_blob mem_gix r"
    by (simp_all add: mem_gix_def)
  then show ?thesis by (metis holds_same_objects)
qed

lemma mem_edit:
  "gx_edit mem_gix r None = Inr Map.empty"
  "holds mem_gix r t pm \<Longrightarrow> gx_edit mem_gix r (Some t) = Inr pm"
proof -
  show "gx_edit mem_gix r None = Inr Map.empty" by (simp add: mem_gix_def)
  assume h: "holds mem_gix r t pm"
  then have "(THE pm. holds mem_gix0 r t pm) = pm" "\<exists>pm. holds mem_gix0 r t pm"
    by (auto simp: mem_holds0 intro: holds_unique)
  then show "gx_edit mem_gix r (Some t) = Inr pm" by (simp add: mem_gix_def)
qed

definition stored_blobs :: "mem_repo \<Rightarrow> paths \<Rightarrow> bool" where
  "stored_blobs r pm \<longleftrightarrow> (\<forall>p d. pm p = Some d \<longrightarrow> 0 # d \<in> mr_objects r)"

definition below :: "string \<Rightarrow> paths \<Rightarrow> paths" where
  "below n pm = (\<lambda>p. pm (n # p))"

lemma path_free_below: "path_free pm (n # p) \<Longrightarrow> path_free (below n pm) p"
  by (rule path_free_Cons) (simp_all add: below_def)

lemma paths_shape_below:
  assumes "paths_shape pm" "pm [n] = None"
  shows "paths_shape (below n pm)"
proof -
  have "Cons n ` dom (below n pm) \<subseteq> dom pm" by (auto simp: below_def)
  then have "finite (Cons n ` dom (below n pm))" using assms(1) by (auto simp: paths_shape_def intro: finite_subset)
  then have "finite (dom (below n pm))" by (rule finite_imageD) simp
  moreover have "path_free (below n pm) p" if "p \<in> dom (below n pm)" for p
    using assms(1) that by (intro path_free_below) (auto simp: paths_shape_def below_def)
  ultimately show ?thesis using assms(2) by (simp add: paths_shape_def below_def)
qed

lemma paths_shape_blob:
  assumes "paths_shape pm" "pm [n] = Some d"
  shows "below n pm = [[] \<mapsto> d]"
proof
  fix p
  have "path_free pm [n]" using assms by (auto simp: paths_shape_def)
  then have "pm (n # p) = None" if "p \<noteq> []" using that unfolding path_free_def by fastforce
  then show "below n pm p = [[] \<mapsto> d] p" using assms(2) by (cases "p = []") (simp_all add: below_def)
qed

lemma mem_holds_shape:
  assumes "holds mem_gix r t pm"
  shows "paths_shape pm \<and> stored_blobs r pm"
  using assms
proof (induction rule: holds.induct)
  case (tree t es pm)
  have entry: "finite (dom (below (ge_name e) pm)) \<and> (\<forall>p \<in> dom (below (ge_name e) pm). path_free (below (ge_name e) pm) p)
      \<and> stored_blobs r (below (ge_name e) pm)" if e: "e \<in> set es" for e
  proof (cases "ge_tree e")
    case True
    then have "paths_shape (below (ge_name e) pm) \<and> stored_blobs r (below (ge_name e) pm)"
      using tree.IH e unfolding below_def by blast
    then show ?thesis by (simp add: paths_shape_def)
  next
    case False
    then obtain d where d: "gx_find_blob mem_gix r (ge_oid e) = Inr d" "below (ge_name e) pm = [[] \<mapsto> d]"
      using tree.hyps(5) e unfolding below_def by blast
    then show ?thesis by (auto simp: path_free_def stored_blobs_def blob_at_Some)
  qed
  have path: "\<exists>e \<in> set es. \<exists>q. p = ge_name e # q \<and> below (ge_name e) pm q = pm p" if "pm p \<noteq> None" for p
  proof (cases p)
    case (Cons n q)
    then show ?thesis using tree.hyps(4) that by (auto simp: below_def)
  qed (use that tree.hyps(3) in simp)
  have "dom pm \<subseteq> (\<Union>e \<in> set es. Cons (ge_name e) ` dom (below (ge_name e) pm))"
    using path by fastforce
  then have "finite (dom pm)" by (rule finite_subset) (use entry in auto)
  moreover have "path_free pm p" if mem: "p \<in> dom pm" for p
    unfolding path_free_def
  proof (intro allI impI)
    fix q assume q: "pm q \<noteq> None \<and> (prefix q p \<or> prefix p q)"
    obtain e p' where p: "e \<in> set es" "p = ge_name e # p'" "below (ge_name e) pm p' = pm p" using path [of p] mem by blast
    obtain q' where q': "q = ge_name e # q'" using q p(2) path [of q] by auto
    have "path_free (below (ge_name e) pm) p'" using entry [OF p(1)] p(3) mem by (auto simp: domIff)
    then show "q = p" using q unfolding path_free_def p(2) q' by (auto simp: below_def)
  qed
  moreover have "stored_blobs r pm"
    unfolding stored_blobs_def using path entry by (metis option.distinct(1) stored_blobs_def)
  ultimately show ?case using tree.hyps(3) by (simp add: paths_shape_def)
qed

section \<open>Writing a tree in memory\<close>

definition mem_entry_ok :: "mem_repo \<Rightarrow> paths \<Rightarrow> git_entry \<Rightarrow> bool" where
  "mem_entry_ok r pm e \<longleftrightarrow>
     (if ge_tree e then holds mem_gix r (ge_oid e) (below (ge_name e) pm) \<and> (\<exists>p. below (ge_name e) pm p \<noteq> None)
      else \<exists>d. blob_at r (ge_oid e) = Some d \<and> below (ge_name e) pm = [[] \<mapsto> d])"

lemma mem_entry_ok_extends:
  assumes "mem_entry_ok r pm e" "extends mem_gix r r'"
  shows "mem_entry_ok r' pm e"
proof (cases "ge_tree e")
  case True
  then show ?thesis using assms holds_extends [OF _ assms(2)] by (simp add: mem_entry_ok_def)
next
  case False
  then show ?thesis using assms by (auto simp: mem_entry_ok_def mem_extends blob_at_Some)
qed

lemma mem_entry_ok_holds:
  assumes "gx_find_tree mem_gix r t = Inr es" "distinct (map ge_name es)" "pm [] = None"
    "\<And>n p. pm (n # p) \<noteq> None \<Longrightarrow> n \<in> ge_name ` set es" "\<forall>e \<in> set es. mem_entry_ok r pm e"
  shows "holds mem_gix r t pm"
  by (rule holds.tree [where es = es]) (use assms in \<open>auto simp: mem_entry_ok_def below_def\<close>)

lemma mem_top_names:
  assumes "paths_shape pm"
  shows "distinct (top_names pm)" "n \<in> set (top_names pm) \<longleftrightarrow> (\<exists>p. pm (n # p) \<noteq> None)"
proof -
  have "{n. \<exists>p. pm (n # p) \<noteq> None} \<subseteq> hd ` dom pm" by force
  then have "finite {n. \<exists>p. pm (n # p) \<noteq> None}"
    by (rule finite_subset) (use assms in \<open>simp add: paths_shape_def\<close>)
  then show "n \<in> set (top_names pm) \<longleftrightarrow> (\<exists>p. pm (n # p) \<noteq> None)" by (simp add: top_names_def)
  show "distinct (top_names pm)" by (simp add: top_names_def)
qed

definition mem_writes :: "(mem_repo \<Rightarrow> paths \<Rightarrow> unit git_error + mem_repo \<times> oid) \<Rightarrow> mem_repo \<Rightarrow> paths \<Rightarrow> bool" where
  "mem_writes w r pm \<longleftrightarrow> (\<exists>r' t. w r pm = Inr (r', t) \<and> mem_ok r' \<and> extends mem_gix r r' \<and> same_refs mem_gix r r'
     \<and> holds mem_gix r' t pm)"

lemma stored_blobs_extends: "stored_blobs r pm \<Longrightarrow> extends mem_gix r r' \<Longrightarrow> stored_blobs r' pm"
  by (auto simp: stored_blobs_def mem_extends)

lemma mem_entry_written:
  assumes shape: "paths_shape pm" "stored_blobs r pm" and ok: "mem_ok r" and n: "\<exists>p. pm (n # p) \<noteq> None"
    and sub: "pm [n] = None \<Longrightarrow> mem_writes sub r (below n pm)"
  shows "\<exists>r' e. (case pm [n] of
              Some d \<Rightarrow> Inr (r, \<lparr>ge_name = n, ge_oid = 0 # d, ge_tree = False\<rparr>)
            | None \<Rightarrow> bindE (sub r (\<lambda>p. pm (n # p))) (\<lambda>(r, t). Inr (r, \<lparr>ge_name = n, ge_oid = t, ge_tree = True\<rparr>)))
          = Inr (r', e) \<and> ge_name e = n \<and> mem_entry_ok r' pm e \<and> mem_ok r' \<and> extends mem_gix r r' \<and> same_refs mem_gix r r'"
proof (cases "pm [n]")
  case None
  obtain r' t where w: "sub r (below n pm) = Inr (r', t)" "mem_ok r'" "extends mem_gix r r'" "same_refs mem_gix r r'"
    "holds mem_gix r' t (below n pm)"
    using sub [OF None] unfolding mem_writes_def by blast
  then show ?thesis using None n by (simp add: mem_entry_ok_def below_def)
next
  case (Some d)
  then have "0 # d \<in> mr_objects r" using shape(2) by (simp add: stored_blobs_def)
  then show ?thesis using Some ok paths_shape_blob [OF shape(1) Some]
    by (simp add: mem_entry_ok_def blob_at_Some)
qed

lemma mem_entries_written:
  assumes "paths_shape pm" "stored_blobs r pm" "mem_ok r" "\<forall>n \<in> set ns. \<exists>p. pm (n # p) \<noteq> None"
    and "\<And>r n. mem_ok r \<Longrightarrow> stored_blobs r pm \<Longrightarrow> n \<in> set ns \<Longrightarrow> pm [n] = None \<Longrightarrow> mem_writes sub r (below n pm)"
  shows "\<exists>r' es. mem_entries sub r pm ns = Inr (r', es) \<and> map ge_name es = ns \<and> (\<forall>e \<in> set es. mem_entry_ok r' pm e)
    \<and> mem_ok r' \<and> extends mem_gix r r' \<and> same_refs mem_gix r r'"
  using assms
proof (induction ns arbitrary: r)
  case (Cons n ns)
  obtain r1 e where e: "(case pm [n] of
              Some d \<Rightarrow> Inr (r, \<lparr>ge_name = n, ge_oid = 0 # d, ge_tree = False\<rparr>)
            | None \<Rightarrow> bindE (sub r (\<lambda>p. pm (n # p))) (\<lambda>(r, t). Inr (r, \<lparr>ge_name = n, ge_oid = t, ge_tree = True\<rparr>)))
          = Inr (r1, e)" "ge_name e = n" "mem_entry_ok r1 pm e" "mem_ok r1" "extends mem_gix r r1" "same_refs mem_gix r r1"
    using mem_entry_written [OF Cons.prems(1-3) bspec [OF Cons.prems(4) list.set_intros(1)]
        Cons.prems(5) [OF Cons.prems(3,2) list.set_intros(1)]]
    by blast
  have "\<exists>r' es. mem_entries sub r1 pm ns = Inr (r', es) \<and> map ge_name es = ns \<and> (\<forall>e \<in> set es. mem_entry_ok r' pm e)
    \<and> mem_ok r' \<and> extends mem_gix r1 r' \<and> same_refs mem_gix r1 r'"
    by (rule Cons.IH [OF Cons.prems(1) stored_blobs_extends [OF Cons.prems(2) e(5)] e(4)])
      (use Cons.prems(4,5) in simp_all)
  then obtain r2 es where es: "mem_entries sub r1 pm ns = Inr (r2, es)" "map ge_name es = ns"
    "\<forall>e \<in> set es. mem_entry_ok r2 pm e" "mem_ok r2" "extends mem_gix r1 r2" "same_refs mem_gix r1 r2"
    by blast
  have "mem_entries sub r pm (n # ns) = Inr (r2, e # es)"
    unfolding mem_entries.simps e(1) using es(1) by simp
  then show ?case
    using es e(2) mem_entry_ok_extends [OF e(3) es(5)] objects_kept_trans [OF e(5) es(5)] same_refs_trans [OF e(6) es(6)]
    by (intro exI [of _ r2] exI [of _ "e # es"]) simp
qed simp

lemma mem_tree_written:
  assumes "stores_trees mem_gix mem_ok cb" "paths_shape pm" "stored_blobs r pm" "mem_ok r"
    and "0 < d" "\<forall>p \<in> dom pm. length p < d"
  shows "mem_writes (mem_write_tree d cb) r pm"
  using assms(2-)
proof (induction d arbitrary: r pm)
  case (Suc d)
  have sub: "mem_writes (mem_write_tree d cb) r' (below n pm)"
    if "mem_ok r'" "stored_blobs r' pm" "n \<in> set (top_names pm)" "pm [n] = None" for r' n
  proof (rule Suc.IH)
    show "paths_shape (below n pm)" by (rule paths_shape_below [OF Suc.prems(1) that(4)])
    show "stored_blobs r' (below n pm)" using that(2) by (auto simp: stored_blobs_def below_def)
    show all: "\<forall>p \<in> dom (below n pm). length p < d"
      using Suc.prems(5) by (auto simp: below_def dest!: bspec [where x = "n # _"])
    show "0 < d" using that(3) all mem_top_names(2) [OF Suc.prems(1), of n] by (fastforce simp: below_def)
  qed (rule that(1))
  obtain r1 es where es: "mem_entries (mem_write_tree d cb) r pm (top_names pm) = Inr (r1, es)"
    "map ge_name es = top_names pm" "\<forall>e \<in> set es. mem_entry_ok r1 pm e" "mem_ok r1" "extends mem_gix r r1" "same_refs mem_gix r r1"
    using mem_entries_written [OF Suc.prems(1,2,3) _ sub] mem_top_names(2) [OF Suc.prems(1)] by blast
  obtain r2 t where t: "cb r1 es = Inr (r2, t)" "mem_ok r2" "extends mem_gix r1 r2" "same_refs mem_gix r1 r2"
    "gx_find_tree mem_gix r2 t = Inr es"
    using assms(1) es(4) unfolding stores_trees_def by fastforce
  have names: "ge_name ` set es = set (top_names pm)" using arg_cong [OF es(2), of set] by simp
  have "holds mem_gix r2 t pm"
  proof (rule mem_entry_ok_holds [OF t(5)])
    show "distinct (map ge_name es)" unfolding es(2) by (rule mem_top_names(1) [OF Suc.prems(1)])
    show "pm [] = None" using Suc.prems(1) by (simp add: paths_shape_def)
    show "n \<in> ge_name ` set es" if "pm (n # p) \<noteq> None" for n p
      unfolding names mem_top_names(2) [OF Suc.prems(1)] using that by blast
    show "\<forall>e \<in> set es. mem_entry_ok r2 pm e" using es(3) mem_entry_ok_extends [OF _ t(3)] by blast
  qed
  moreover have "mem_write_tree (Suc d) cb r pm = Inr (r2, t)" using es(1) t(1) by simp
  ultimately show ?case
    unfolding mem_writes_def using t(2) objects_kept_trans [OF es(5) t(3)] same_refs_trans [OF es(6) t(4)] by blast
qed simp

lemma mem_depth_above: "finite (dom pm) \<Longrightarrow> p \<in> dom pm \<Longrightarrow> length p < mem_depth pm"
  by (simp add: mem_depth_def less_Suc_eq_le)

section \<open>The locales hold of it\<close>

lemma paths_shape_restrict:
  assumes "paths_shape pm"
  shows "paths_shape (without_top n pm)"
proof -
  have sub: "dom (without_top n pm) \<subseteq> dom pm" by (auto simp: without_top_def split: if_splits)
  have "path_free (without_top n pm) p" if "p \<in> dom pm" for p
    using assms that unfolding paths_shape_def path_free_def by (auto simp: without_top_def split: if_splits)
  with sub show ?thesis using assms finite_subset [OF sub] by (auto simp: paths_shape_def without_top_def)
qed

lemma paths_shape_upd:
  assumes "paths_shape pm" "path_free pm p" "p \<noteq> []"
  shows "paths_shape (pm(p \<mapsto> d))"
proof -
  have "path_free (pm(p \<mapsto> d)) q" if q: "q \<in> dom pm \<or> q = p" for q
    unfolding path_free_def
  proof (intro allI impI)
    fix q' assume q': "(pm(p \<mapsto> d)) q' \<noteq> None \<and> (prefix q' q \<or> prefix q q')"
    consider "q' = p" "q = p" | "q' = p" "pm q \<noteq> None" "q \<noteq> p" | "q' \<noteq> p" "pm q' \<noteq> None"
      using q q' by (auto split: if_splits)
    then show "q' = q"
    proof cases
      case 2
      then show ?thesis using assms(2) q' unfolding path_free_def by metis
    next
      case 3
      then show ?thesis using assms(1,2) q q' unfolding path_free_def paths_shape_def by (metis domI domIff)
    qed simp
  qed
  then show ?thesis using assms(1,3) by (auto simp: paths_shape_def)
qed

lemma mem_matches_iff: "ref_holds mem_gix r name v \<Longrightarrow> mem_matches (map_of (mr_refs r) name) e \<longleftrightarrow> value_matches v e"
  by (cases e) (auto simp: ref_holds_def split: option.splits)

lemma mem_edit_ref_update:
  assumes "mem_ok r" "mem_matches (map_of (mr_refs r) name) e"
  shows "\<exists>r'. mem_edit_ref r name (UpdateRef e new) = (r', Inr ()) \<and> mem_ok r' \<and> extends mem_gix r r'
    \<and> ref_holds mem_gix r' name (Some new) \<and> (\<forall>n. n \<noteq> name \<longrightarrow> gx_find_ref mem_gix r' n = gx_find_ref mem_gix r n)"
  using assms
  by (auto simp: mem_edit_ref_def Let_def mem_ok_def mem_extends ref_holds_def AList.update_conv' AList.distinct_update)

lemma mem_git_objects: "git_objects mem_gix mem_ok mem_editing"
proof
  fix r kind data assume "mem_ok r"
  show "\<exists>oid. gx_hash mem_gix r kind data = Inr oid" by simp
next
  fix r kind data oid assume "mem_ok r" "gx_hash mem_gix r kind data = Inr oid"
  then show "\<exists>r'. gx_write_buf mem_gix r kind data oid = Inr r' \<and> mem_ok r' \<and> extends mem_gix r r' \<and> same_refs mem_gix r r'
      \<and> gx_exists mem_gix r' oid \<and> stored_as mem_gix r' kind data oid"
    by (cases kind) (auto simp: mem_ok_def mem_extends mem_same_refs tree_at_Some blob_at_Some mem_object_def)
next
  fix r t pm assume "mem_ok r" "holds mem_gix r t pm"
  then show "\<exists>ed. gx_edit mem_gix r (Some t) = Inr ed \<and> mem_editing r ed pm"
    using mem_holds_shape by (auto simp: mem_edit mem_editing_def stored_blobs_def)
next
  fix r assume "mem_ok r"
  show "\<exists>ed. gx_edit mem_gix r None = Inr ed \<and> mem_editing r ed Map.empty"
    by (simp add: mem_edit mem_editing_def paths_shape_def)
next
  fix r ed pm r' assume "mem_editing r ed pm" "extends mem_gix r r'"
  then show "mem_editing r' ed pm" unfolding mem_editing_def mem_extends by blast
next
  fix r ed pm and name :: string assume "mem_editing r ed pm"
  then show "\<exists>ed'. gx_remove mem_gix r ed name = Inr ed' \<and> mem_editing r ed' (without_top name pm)"
    by (simp add: mem_editing_def paths_shape_restrict) (simp add: without_top_def)
next
  fix r ed pm oid data segs
  assume a: "mem_editing r ed pm" "gx_find_blob mem_gix r oid = Inr data" "segs \<noteq> []" "list_all segment_ok segs" "path_free pm segs"
  then have "blob_at r oid = Some data" "ed = pm" by (simp_all add: mem_editing_def)
  moreover have "mem_editing r (pm(segs \<mapsto> data)) (pm(segs \<mapsto> data))"
    using a paths_shape_upd [OF _ a(5,3)] by (auto simp: mem_editing_def blob_at_Some)
  ultimately show "\<exists>ed'. gx_upsert mem_gix r ed (path_text segs) oid = Inr ed' \<and> mem_editing r ed' (pm(segs \<mapsto> data))"
    by (simp add: split_path_text [OF a(3,4)] res_of_def)
next
  fix r ed pm cb assume a: "mem_ok r" "mem_editing r ed pm" "stores_trees mem_gix mem_ok cb"
  then have pm: "ed = pm" "paths_shape pm" "stored_blobs r pm" by (auto simp: mem_editing_def stored_blobs_def)
  have "\<forall>p \<in> dom pm. length p < mem_depth pm"
    using mem_depth_above pm(2) by (auto simp: paths_shape_def)
  moreover have "0 < mem_depth pm" by (simp add: mem_depth_def)
  ultimately have "mem_writes (mem_write_tree (mem_depth pm) cb) r pm"
    by (intro mem_tree_written [OF a(3) pm(2,3) a(1)])
  then show "\<exists>r' t. gx_write mem_gix r ed cb = Inr (r', t) \<and> mem_ok r' \<and> extends mem_gix r r' \<and> same_refs mem_gix r r'
      \<and> holds mem_gix r' t pm"
    by (simp add: mem_writes_def pm(1))
qed

lemma mem_git_repository: "git_repository mem_gix mem_ok mem_editing"
proof (intro git_repository.intro mem_git_objects git_repository_axioms.intro)
  fix r name v e new assume "mem_ok r" "ref_holds mem_gix r name v" "value_matches v e"
  then show "\<exists>r'. gx_edit_ref mem_gix r name (UpdateRef e new) = (r', Inr ()) \<and> mem_ok r' \<and> extends mem_gix r r'
      \<and> ref_holds mem_gix r' name (Some new) \<and> (\<forall>n. n \<noteq> name \<longrightarrow> gx_find_ref mem_gix r' n = gx_find_ref mem_gix r n)"
    using mem_edit_ref_update mem_matches_iff by simp
next
  fix r name v e new assume "mem_ok r" "ref_holds mem_gix r name v" "\<not> value_matches v e"
  then show "\<exists>r' e'. gx_edit_ref mem_gix r name (UpdateRef e new) = (r', Inl e') \<and> is_genuine_cas_mismatch e'
      \<and> mem_ok r' \<and> extends mem_gix r r' \<and> same_refs mem_gix r r'"
    by (simp add: mem_edit_ref_def Let_def mem_matches_iff mem_ok_def mem_extends mem_same_refs is_genuine_cas_mismatch_def)
qed

interpretation mem_repo: git_durable mem_gix mem_ok mem_editing
proof (intro git_durable.intro mem_git_repository git_durable_axioms.intro)
  fix r p assume "mem_ok r"
  then show "\<exists>r' out. gx_fsync mem_gix r p = (r', out) \<and> (\<forall>m. out \<noteq> SyncError m)
      \<and> mem_ok r' \<and> extends mem_gix r r' \<and> same_refs mem_gix r r'"
    by (simp add: mem_ok_def mem_extends mem_same_refs)
next
  fix r p assume "mem_ok r"
  then show "\<exists>xs. gx_list_refs mem_gix r p = Inr xs
      \<and> (\<forall>ref. Inr ref \<in> set xs \<longleftrightarrow> gx_find_ref mem_gix r (gr_name ref) = Inr (Some ref) \<and> prefix p (gr_name ref))"
    by (force simp: mem_ok_def map_of_eq_Some_iff image_iff)
next
  fix r n ref assume "gx_find_ref mem_gix r n = Inr (Some ref)"
  then show "gr_name ref = n" by auto
next
  fix r name new assume "mem_ok r" "gx_find_ref mem_gix r name \<noteq> Inr None"
  then show "\<exists>r'. gx_edit_ref mem_gix r name (UpdateRef AnyValue new) = (r', Inr ()) \<and> mem_ok r' \<and> extends mem_gix r r'
      \<and> ref_holds mem_gix r' name (Some new) \<and> (\<forall>n. n \<noteq> name \<longrightarrow> gx_find_ref mem_gix r' n = gx_find_ref mem_gix r n)"
    using mem_edit_ref_update [of r name AnyValue] by simp
next
  fix r name e assume "mem_ok r"
  then show "\<exists>r' res. gx_edit_ref mem_gix r name (DeleteRef e) = (r', res) \<and> mem_ok r' \<and> extends mem_gix r r'
      \<and> (\<forall>n. n \<noteq> name \<longrightarrow> gx_find_ref mem_gix r' n = gx_find_ref mem_gix r n)"
    by (auto simp: mem_edit_ref_def Let_def mem_ok_def mem_extends AList.delete_conv' AList.distinct_delete)
next
  fix r assume "mem_ok r"
  show "lost_objects mem_gix r r"
    by (auto simp: lost_objects_def tree_at_Some blob_at_Some)
qed

end
