(* ===== verification/Store_Git_Log.thy ===== *)
theory Store_Git_Log
  imports Store_Git_Memory Poly_Log_Correct
begin

text \<open>
  A log over the git backend: what a log leaves alone in the repository, the read-only views of
  its earlier trees, and opening it again.
\<close>

section \<open>Views\<close>

text \<open>A view answers what the store holds.\<close>

definition view_answers :: "('r, 'ed, 'm) gix \<Rightarrow> 'r git_view \<Rightarrow> store \<Rightarrow> bool" where
  "view_answers G v st \<longleftrightarrow>
     view_metadata v = \<lparr>lm_count = so_count st, lm_kind = (if so_count st = 0 \<or> so_leaves st \<noteq> [] then Flat else Subtree)\<rparr>
     \<and> (\<forall>i. view_get_leaf G v i = (if i < length (so_leaves st) then Inr (so_leaves st ! i) else Inl (NotFound i)))
     \<and> (\<forall>a l t. git_node_key (a, l, t) \<longrightarrow> view_get_node G v a l t = Inr (so_nodes st (a, l, t)))
     \<and> (\<exists>ms. view_load_algorithm_metas G v = Inr ms \<and> distinct (map fst ms) \<and> map_of ms = so_metas st)"

lemma open_tree:
  assumes "git_tree G (gs_repo s) (Some t) arity st" "arity < 2 ^ 16"
  shows "\<exists>v. open_at G s t = Inr v \<and> view_answers G v st"
proof -
  let ?r = "gs_repo s"
  have h: "git_holds G ?r t (Some (encode_meta arity (so_count st))) (encoded (so_metas st)) st" and f: "git_fits st"
    using assms(1) by (simp_all add: git_tree_def git_meta_def)
  obtain m where m: "find_entry G ?r t ''meta'' = Inr (Some m)" "gx_find_blob G ?r m = Inr (encode_meta arity (so_count st))"
    using meta_entry [OF h] by blast
  obtain x where x: "find_entry G ?r t ''leaves'' = Inr x" "x \<noteq> None \<longleftrightarrow> so_leaves st \<noteq> []" using leaves_entry [OF h] by blast
  have count: "so_count st < u64_limit" using f u64_max_less_limit unfolding git_fits_def by (blast intro: less_trans)
  note dec = decode_encode_meta [OF assms(2) count]
  let ?v = "\<lparr>gv_repo = ?r, gv_tree = t, gv_size = so_count st, gv_leaves = x \<noteq> None\<rparr>"
  have "open_at G s t = Inr ?v" using m x(1) dec by (simp add: open_at_def read_blob_def)
  moreover have "view_get_leaf G ?v i = (if i < length (so_leaves st) then Inr (so_leaves st ! i) else Inl (NotFound i))" for i
  proof (cases "i < so_count st")
    case True
    then show ?thesis using read_leaf_ok [OF h True count] by (simp add: view_get_leaf_def leaf_map_def)
  next
    case False
    then have "\<not> i < length (so_leaves st)" using f by (auto simp: git_fits_def)
    then show ?thesis using False by (simp add: view_get_leaf_def git_read_leaf_def)
  qed
  moreover have "view_metadata ?v = \<lparr>lm_count = so_count st, lm_kind = (if so_count st = 0 \<or> so_leaves st \<noteq> [] then Flat else Subtree)\<rparr>"
    using x(2) by (simp add: view_metadata_def derive_log_metadata_def)
  moreover have "git_node_key (a, l, t') \<Longrightarrow> view_get_node G ?v a l t' = Inr (so_nodes st (a, l, t'))" for a l t'
    using read_node_ok [OF h] by (simp add: view_get_node_def)
  moreover have "\<exists>ms. view_load_algorithm_metas G ?v = Inr ms \<and> distinct (map fst ms) \<and> map_of ms = so_metas st"
    using read_metas_ok [OF assms(1)] by (simp add: view_load_algorithm_metas_def)
  ultimately show ?thesis unfolding view_answers_def by blast
qed

section \<open>What a log leaves alone\<close>

definition valid_from :: "('r, 'ed, 'm) gix \<Rightarrow> ('r \<Rightarrow> bool) \<Rightarrow> 'r git_storage \<Rightarrow> 'r git_storage \<Rightarrow> bool" where
  "valid_from G ok s0 s \<longleftrightarrow> (\<exists>st. git_state G ok s st) \<and> extends G (gs_repo s0) (gs_repo s)
     \<and> gs_ref s = gs_ref s0 \<and> gs_ref_file s = gs_ref_file s0 \<and> gs_ref_base s = gs_ref_base s0
     \<and> gs_ckpt_prefix s = gs_ckpt_prefix s0 \<and> gs_arity s = gs_arity s0
     \<and> (\<forall>n. n \<noteq> gs_ref s0 \<longrightarrow> gx_find_ref G (gs_repo s) n = gx_find_ref G (gs_repo s0) n)"

lemma git_apply_fields:
  "git_apply G s ops = Inr s' \<Longrightarrow> gs_ref_file s' = gs_ref_file s \<and> gs_ref_base s' = gs_ref_base s
     \<and> gs_ckpt_prefix s' = gs_ckpt_prefix s"
  by (auto simp: git_apply_def bindE_Inr_iff split: prod.splits option.splits)

context git_repository begin

text \<open>The contract of a store, for the instances that follow one.\<close>

lemma lawful_from: "lawful_storage (git_ops_of G) (valid_from G ok s0) (git_content G)"
proof
  fix s
  assume v: "valid_from G ok s0 s"
  then have s: "valid s" by (simp add: valid_from_def valid_def)
  show "st_get_node (git_ops_of G) s a l t = Inr (so_nodes (git_content G s) (a, l, t))" for a l t
    by (rule git_store.get_node [OF s])
  show "st_get_leaf (git_ops_of G) s i = Inr (so_leaves (git_content G s) ! i)" if "i < length (so_leaves (git_content G s))" for i
    by (rule git_store.get_leaf [OF s that])
  show "st_len (git_ops_of G) s = Inr (length (so_leaves (git_content G s)))" by (rule git_store.get_len [OF s])
  show "st_append_count (git_ops_of G) s = Inr (so_count (git_content G s))" by (rule git_store.get_count [OF s])
  show "\<exists>ms. st_load_algorithm_metas (git_ops_of G) s = Inr ms \<and> distinct (map fst ms) \<and> map_of ms = so_metas (git_content G s)"
    by (rule git_store.get_metas [OF s])
  show "\<exists>s'. st_apply (git_ops_of G) s [op] = Inr s' \<and> valid_from G ok s0 s' \<and> git_content G s' = st"
    if fit: "op_fits (git_content G s) op" and step: "abs_step op (git_content G s) = Some st" for op st
  proof -
    have "abs_apply [op] (git_content G s) = Some st" using step by simp
    with apply_refines [OF validE [OF s] ops_fit_apply [OF fit]] obtain s' where s': "git_apply G s [op] = Inr s'"
      "git_state G ok s' st" "extends G (gs_repo s) (gs_repo s')" "gs_ref s' = gs_ref s" "gs_arity s' = gs_arity s"
      "\<forall>n. n \<noteq> gs_ref s \<longrightarrow> gx_find_ref G (gs_repo s') n = gx_find_ref G (gs_repo s) n"
      by auto
    have "valid_from G ok s0 s'"
      using v s' git_apply_fields [OF s'(1)] objects_kept_trans [OF _ s'(3)] unfolding valid_from_def by auto
    moreover have "git_content G s' = st" by (rule git_content_state [OF s'(2)])
    ultimately show ?thesis using s'(1) by (auto simp: git_ops_of_def)
  qed
qed

lemma valid_from_refl: "valid s \<Longrightarrow> valid_from G ok s s"
  by (simp add: valid_from_def valid_def)

lemma log_inv_valid: "log_inv (valid_from G ok s0) (git_content G) L items \<Longrightarrow> log_inv valid (git_content G) L items"
  unfolding log_inv_def valid_from_def valid_def by blast

lemma log_inv_from: "log_inv valid (git_content G) L items \<Longrightarrow> log_inv (valid_from G ok (lg_storage L)) (git_content G) L items"
  unfolding log_inv_def using valid_from_refl by blast

lemma steps_from:
  assumes "(log_step (git_ops_of G))\<^sup>*\<^sup>* (L, items) (L', items')" "log_inv (valid_from G ok s0) (git_content G) L items"
  shows "log_inv (valid_from G ok s0) (git_content G) L' items'"
proof -
  have "case x of (L, items) \<Rightarrow> log_inv (valid_from G ok s0) (git_content G) L items" if "(log_step (git_ops_of G))\<^sup>*\<^sup>* (L, items) x" for x
    using that
  proof (induction rule: rtranclp_induct)
    case (step y z)
    then show ?case using lawful_storage.step_inv [OF lawful_from] by (cases y; cases z) blast
  qed (use assms(2) in simp)
  from this [OF assms(1)] show ?thesis by simp
qed

text \<open>The tree an instance had stays the store it was, whatever the log does afterwards.\<close>

lemma earlier_tree:
  assumes "log_inv valid (git_content G) L items" "(log_step (git_ops_of G))\<^sup>*\<^sup>* (L, items) (L', items')"
    and "gs_tip (lg_storage L) = Some t" "gs_arity (lg_storage L) < 2 ^ 16"
  shows "\<exists>v. open_at G (lg_storage L') t = Inr v \<and> view_answers G v (git_content G (lg_storage L))"
proof -
  have "valid_from G ok (lg_storage L) (lg_storage L')"
    using steps_from [OF assms(2) log_inv_from [OF assms(1)]] by (simp add: log_inv_def)
  then have ext: "extends G (gs_repo (lg_storage L)) (gs_repo (lg_storage L'))" by (simp add: valid_from_def)
  have "git_state G ok (lg_storage L) (git_content G (lg_storage L))"
    using assms(1) by (intro validE) (simp add: log_inv_def)
  then have "git_tree G (gs_repo (lg_storage L)) (Some t) (gs_arity (lg_storage L)) (git_content G (lg_storage L))"
    using assms(3) by (simp add: git_state_def)
  from open_tree [OF git_tree_extends [OF this ext] assms(4)] show ?thesis .
qed

end

section \<open>Opening again\<close>

lemma git_tree_empty: "git_tree G r None arity empty_store"
  by (simp add: git_tree_def git_fits_def empty_store_def git_metas_fit_def git_nodes_fit_def u64_max_def)

text \<open>An instance is what opening its reference gives.\<close>

lemma opened_same:
  assumes "git_state G ok s st"
  shows "opened_as (gs_repo s) (gs_ref s) (gs_arity s) (gs_ref_file s) (gs_ref_base s) (gs_ckpt_prefix s)
    (map_option (\<lambda>t. snap_of t st) (gs_tip s)) = s"
  using assms
  by (cases "gs_tip s") (simp_all add: opened_as_def snap_of_def git_state_def git_tree_def empty_store_def)

context git_durable begin

lemma no_ckpts:
  assumes "ok r" "\<forall>n. prefix pre n \<longrightarrow> gx_find_ref G r n = Inr None"
  shows "list_ckpts G r pre arity = Inr []"
proof -
  obtain xs where xs: "gx_list_refs G r pre = Inr xs"
    "\<forall>ref. Inr ref \<in> set xs \<longleftrightarrow> gx_find_ref G r (gr_name ref) = Inr (Some ref) \<and> prefix pre (gr_name ref)"
    using list_refs [OF assms(1)] by blast
  then have none: "Inr ref \<notin> set xs" for ref using assms(2) by fastforce
  have "list_ckpts_loop G r pre arity ys = Inr []" if "set ys \<subseteq> set xs" for ys
    using that
  proof (induction ys)
    case (Cons y ys)
    then show ?case using none by (cases y) auto
  qed simp
  then show ?thesis by (simp add: list_ckpts_def xs(1))
qed

lemma log_reopens:
  assumes r: "ok r" and at: "opens_at G name fname base pre" and fresh: "gx_find_ref G r name = Inr None" "ref_free G r name"
    and ckpts: "\<forall>n. prefix pre n \<longrightarrow> gx_find_ref G r n = Inr None"
    and s: "git_new G r name k = Inr s" and L: "reachable_log (git_ops_of G) s k L items"
    and hs: "hash_map hashers = (\<lambda>a. map_option av_hasher (map_of (lg_algs L) a))"
  shows "log_inv valid (git_content G) L items
    \<and> git_new G (gs_repo (lg_storage L)) name k = Inr (lg_storage L)
    \<and> (\<exists>L'. from_storage_with_config (git_ops_of G) (lg_storage L) hashers (lg_arity L) = Inr L' \<and> same_log L L')"
proof -
  have ar: "arity_ok k" using s by (simp add: git_new_def split: if_splits)
  have none: "newest_snap [] = None" by (simp add: newest_snap_def newest_ckpt_def)
  have ref: "ref_holds G r name None" using fresh(1) by (simp add: ref_holds_def)
  note new = git_new_reopens [OF r ar at no_ckpts [OF r ckpts] none ref git_tree_empty]
  have s': "s = opened_as r name k fname base pre None" using new(1) fresh(2) s by simp
  have state: "git_state G ok s empty_store" using new(2) fresh(2) s' by simp
  have inv: "log_inv (valid_from G ok s) (git_content G) L items"
    by (rule lawful_storage.reachable_inv [OF lawful_from L])
      (use state in \<open>auto simp: valid_from_def git_content_state\<close>)
  let ?s = "lg_storage L"
  have from': "valid_from G ok s ?s" using inv by (simp add: log_inv_def)
  then obtain st where st: "git_state G ok ?s st" by (auto simp: valid_from_def)
  have fields: "gs_ref ?s = name" "gs_ref_file ?s = fname" "gs_ref_base ?s = base" "gs_ckpt_prefix ?s = pre" "gs_arity ?s = k"
    and find: "\<And>n. n \<noteq> name \<Longrightarrow> gx_find_ref G (gs_repo ?s) n = gx_find_ref G r n"
    using from' by (simp_all add: valid_from_def s' opened_as_def)
  have "gx_find_ref G (gs_repo ?s) n = Inr None" if "prefix pre n" for n
  proof -
    have "n \<noteq> name" using that ckpt_prefix_eq [OF at] by (auto simp: prefix_def)
    then show ?thesis using find ckpts that by simp
  qed
  then have none': "list_ckpts G (gs_repo ?s) pre k = Inr []" using st by (intro no_ckpts) (simp_all add: git_state_def)
  have "ref_holds G (gs_repo ?s) name (gs_tip ?s)" "git_tree G (gs_repo ?s) (gs_tip ?s) k st"
    "gs_tip ?s = None \<Longrightarrow> ref_free G (gs_repo ?s) name" "ok (gs_repo ?s)"
    using st fields by (simp_all add: git_state_def)
  from git_new_reopens(1) [OF this(4) ar at none' none this(1-3)]
  have "git_new G (gs_repo ?s) name k = Inr ?s" using opened_same [OF st, unfolded fields] by simp
  moreover note log_inv_valid [OF inv] git_store.reload [OF log_inv_valid [OF inv] hs]
  ultimately show ?thesis by blast
qed

end

section \<open>A concurrent writer\<close>

context git_repository begin

text \<open>A batch that would be accepted is refused when the reference has moved.\<close>

lemma apply_moved:
  assumes r: "ok (gs_repo s)" and t: "git_tree G (gs_repo s) (gs_tip s) (gs_arity s) st"
    and c: "gs_count s = so_count st" "gs_leaves s = (so_leaves st \<noteq> [])"
    and ref: "ref_holds G (gs_repo s) (gs_ref s) v" "v \<noteq> gs_tip s"
    and ops: "ops_fit st ops" "abs_apply ops st = Some st'"
  shows "git_apply G s ops = Inl (TipMoved (gs_tip s) v)"
proof -
  obtain r' ga where b: "git_build G (gs_repo s) (gs_arity s) (gs_tip s) (so_count st) (so_leaves st \<noteq> []) ops = Inr (r', ga)"
    "ok r'" "extends G (gs_repo s) r'" "same_refs G (gs_repo s) r'"
    using build_refines [OF r t ops(1)] ops(2) by auto
  have ref': "ref_holds G r' (gs_ref s) v" by (rule ref_holds_same [OF b(4,3) ref(1)])
  have "\<not> value_matches v (case gs_tip s of Some t \<Rightarrow> MustExistAndMatch t | None \<Rightarrow> MustNotExist)"
    using ref(2) by (cases "gs_tip s") simp_all
  from update_ref_mismatch [OF b(2) ref' this, of "ga_tree ga" "gs_tip s"]
  show ?thesis using b(1) by (auto simp: git_apply_def cas_def c)
qed

text \<open>What an instance answers, and what a batch does.\<close>

lemma reads:
  assumes s: "git_state G ok s st"
  shows "git_append_count s = Inr (so_count st)" "git_len s = Inr (length (so_leaves st))"
    "\<forall>i. git_get_leaf G s i = (if i < length (so_leaves st) then Inr (so_leaves st ! i) else Inl (NotFound i))"
    "git_metadata s = \<lparr>lm_count = so_count st, lm_kind = (if so_count st = 0 \<or> so_leaves st \<noteq> [] then Flat else Subtree)\<rparr>"
proof -
  note len = leaf_len_state [OF s]
  show "git_append_count s = Inr (so_count st)" "git_len s = Inr (length (so_leaves st))"
    "git_metadata s = \<lparr>lm_count = so_count st, lm_kind = (if so_count st = 0 \<or> so_leaves st \<noteq> [] then Flat else Subtree)\<rparr>"
    using s len by (simp_all add: git_append_count_def git_len_def git_metadata_def derive_log_metadata_def git_state_def)
  show "\<forall>i. git_get_leaf G s i = (if i < length (so_leaves st) then Inr (so_leaves st ! i) else Inl (NotFound i))"
  proof
    fix i
    show "git_get_leaf G s i = (if i < length (so_leaves st) then Inr (so_leaves st ! i) else Inl (NotFound i))"
    proof (cases "i < length (so_leaves st)")
      case False
      then show ?thesis using len by (auto simp: git_get_leaf_def git_read_leaf_def split: option.splits)
    qed (simp add: git_state_reads(2) [OF s])
  qed
qed

end

section \<open>Paths\<close>

text \<open>What the layout has a path for, and the path as the source writes it.\<close>

datatype git_slot = MetaSlot | LeafSlot u64 | NodeSlot alg_id u64 u32 | EpochsSlot alg_id

fun slot_path :: "git_slot \<Rightarrow> string option" where
  "slot_path MetaSlot = Some (path_text [''meta''])"
| "slot_path (LeafSlot i) = Some (leaf_path i)"
| "slot_path (NodeSlot a l t) = node_path a t l"
| "slot_path (EpochsSlot a) = Some (epochs_path a)"

fun slot_fits :: "git_slot \<Rightarrow> bool" where
  "slot_fits MetaSlot \<longleftrightarrow> True"
| "slot_fits (LeafSlot i) \<longleftrightarrow> i < u64_limit"
| "slot_fits (NodeSlot a l t) \<longleftrightarrow> a < u64_limit \<and> l < u64_limit"
| "slot_fits (EpochsSlot a) \<longleftrightarrow> a < u64_limit"

fun slot_segments :: "git_slot \<Rightarrow> string list" where
  "slot_segments MetaSlot = [''meta'']"
| "slot_segments (LeafSlot i) = leaf_segments i"
| "slot_segments (NodeSlot a l t) = node_segments (hex_fixed 2 t) a l"
| "slot_segments (EpochsSlot a) = epochs_segments a"

lemma slot_key:
  assumes "slot_fits x" "slot_path x = Some p"
  shows "git_key (slot_segments x)" "split_slash p = slot_segments x"
proof -
  have h: "t < 256 \<and> h = hex_fixed 2 t" if "hex2 t = Some h" for t h using that by (simp add: hex2_def split: if_splits)
  show k: "git_key (slot_segments x)"
    using assms by (cases x) (auto simp: git_keyI node_path_def dest!: h)
  have "p = path_text (slot_segments x)"
    using assms(2) by (cases x) (auto simp: leaf_path_def node_path_def epochs_path_def dest!: h)
  then show "split_slash p = slot_segments x" using git_key_segments [OF k] by (simp add: split_path_text)
qed

lemma slot_segments_inj:
  assumes "slot_fits x" "slot_path x = Some p" "slot_fits y" "slot_path y = Some q" "slot_segments x = slot_segments y"
  shows "x = y"
proof -
  have h: "t < 256" if "node_path a t l = Some s" for a t l s
    using that by (auto simp: node_path_def hex2_def split: if_splits)
  show ?thesis
    using assms h key_inj by (cases x; cases y) (auto simp del: hex_fixed.simps)
qed

lemma slot_prefix:
  assumes "slot_fits x" "slot_path x = Some p" "slot_fits y" "slot_path y = Some q" "prefix (split_slash p) (split_slash q)"
  shows "x = y"
proof -
  note x = slot_key [OF assms(1,2)] and y = slot_key [OF assms(3,4)]
  have "slot_segments x = slot_segments y"
    using git_key_prefix [OF x(1) y(1)] assms(5) x(2) y(2) by simp
  then show ?thesis by (rule slot_segments_inj [OF assms(1-4)])
qed

end
