(* ===== verification/Store_Git_Props.thy ===== *)
theory Store_Git_Props
  imports Store_Git_Log
begin

text \<open>
  The properties of the git backend over any repository that works, and their witnesses on the
  repository in memory.
\<close>

section \<open>Repositories for the witnesses\<close>

definition mem_with :: "oid set \<Rightarrow> (string \<times> ref_target) list \<Rightarrow> mem_repo" where
  "mem_with objects refs = \<lparr>mr_objects = objects, mr_refs = refs, mr_clock = 0, mr_trace = []\<rparr>"

definition count_blob :: "u64 \<Rightarrow> oid" where
  "count_blob n = 0 # encode_meta 2 n"

text \<open>The tree of a log that holds a count and nothing else.\<close>

definition count_tree :: "u64 \<Rightarrow> oid" where
  "count_tree n = 1 # tree_code [\<lparr>ge_name = ''meta'', ge_oid = count_blob n, ge_tree = False\<rparr>]"

definition count_store :: "u64 \<Rightarrow> store" where
  "count_store n = empty_store\<lparr>so_count := n\<rparr>"

lemma count_tree_at: "tree_at r (count_tree n) = Some [\<lparr>ge_name = ''meta'', ge_oid = count_blob n, ge_tree = False\<rparr>]
    \<longleftrightarrow> count_tree n \<in> mr_objects r"
  by (simp add: tree_at_Some count_tree_def)

lemma encode_meta_inj: "m < u64_limit \<Longrightarrow> n < u64_limit \<Longrightarrow> encode_meta 2 m = encode_meta 2 n \<longleftrightarrow> m = n"
proof -
  assume n: "m < u64_limit" "n < u64_limit"
  have "decode_meta (encode_meta 2 m) = Inr (2, m)" "decode_meta (encode_meta 2 n) = Inr (2, n)"
    using n by (simp_all add: decode_encode_meta)
  note decoded = this
  have "m = n" if "encode_meta 2 m = encode_meta 2 n"
    using arg_cong [OF that, of decode_meta] unfolding decoded by simp
  then show ?thesis by blast
qed

lemma count_tree_inj: "m < u64_limit \<Longrightarrow> n < u64_limit \<Longrightarrow> count_tree m = count_tree n \<longleftrightarrow> m = n"
  by (auto simp: count_tree_def count_blob_def encode_meta_inj dest: tree_code_inj)

lemma count_tree_blob [simp]: "count_tree m \<noteq> count_blob n" "count_blob n \<noteq> count_tree m"
  by (simp_all add: count_tree_def count_blob_def)

lemma count_holds:
  assumes "count_tree n \<in> mr_objects r" "count_blob n \<in> mr_objects r"
  shows "holds mem_gix r (count_tree n) [[''meta''] \<mapsto> encode_meta 2 n]"
proof (rule holds.tree)
  show "gx_find_tree mem_gix r (count_tree n) = Inr [\<lparr>ge_name = ''meta'', ge_oid = count_blob n, ge_tree = False\<rparr>]"
    using assms(1) by (simp add: count_tree_at)
  show "\<forall>e \<in> set [\<lparr>ge_name = ''meta'', ge_oid = count_blob n, ge_tree = False\<rparr>]. \<not> ge_tree e \<longrightarrow>
      (\<exists>data. gx_find_blob mem_gix r (ge_oid e) = Inr data
        \<and> (\<lambda>p. [[''meta''] \<mapsto> encode_meta 2 n] (ge_name e # p)) = [[] \<mapsto> data])"
    using assms(2) by (auto simp: count_blob_def blob_at_Some fun_eq_iff)
qed (auto split: if_splits)

lemma count_git_tree:
  assumes "count_tree n \<in> mr_objects r" "count_blob n \<in> mr_objects r" "n < u64_max"
  shows "git_tree mem_gix r (Some (count_tree n)) 2 (count_store n)"
proof -
  have "git_layout [[''meta''] \<mapsto> encode_meta 2 n] (git_meta 2 (count_store n)) (encoded (so_metas (count_store n))) (count_store n)"
    by (auto simp: git_layout_def git_meta_def keyed_def encoded_def count_store_def empty_store_def leaf_map_def)
  moreover have "layout_fits (encoded (so_metas (count_store n))) (count_store n)"
    by (simp add: layout_fits_def count_store_def empty_store_def git_nodes_fit_def algs_fit_def encoded_def u64_limit_def)
  moreover have "git_fits (count_store n)"
    using assms(3) by (simp add: git_fits_def count_store_def empty_store_def git_metas_fit_def git_nodes_fit_def)
  ultimately show ?thesis using count_holds [OF assms(1,2)] by (auto simp: git_tree_def git_holds_def)
qed

definition staging :: string where
  "staging = ''refs/heads/log''"

definition staging_path :: file_path where
  "staging_path = [''git'', ''refs'', ''heads'', ''log'']"

lemma staging_opens: "opens_at mem_gix staging staging_path [''git''] (staging @ ''.ckpt/'')"
  by (simp add: opens_at_def staging_def staging_path_def loose_ref_path_def ckpt_prefix_def suffix_def Let_def)

lemma mem_ref_holds:
  "ref_holds mem_gix r name None \<longleftrightarrow> map_of (mr_refs r) name = None"
  "ref_holds mem_gix r name (Some t) \<longleftrightarrow> map_of (mr_refs r) name = Some (ObjectTarget t)"
  by (auto simp: ref_holds_def)

lemma mem_ref_free: "mr_refs r = [] \<Longrightarrow> ref_free mem_gix r name"
  by (simp add: ref_free_def)

text \<open>The instance over a repository without references.\<close>

definition new_instance :: "mem_repo git_storage" where
  "new_instance = opened_as (mem_with {} []) staging 2 staging_path [''git''] (staging @ ''.ckpt/'') None"

lemma empty_count: "so_count empty_store = 0" "so_leaves empty_store = []" "so_metas empty_store = Map.empty"
  by (simp_all add: empty_store_def)

lemma mr_refs_with [simp]: "mr_refs (mem_with objects refs) = refs" "mr_objects (mem_with objects refs) = objects"
  by (simp_all add: mem_with_def)

lemma mem_with_ok: "distinct (map fst refs) \<Longrightarrow> mem_ok (mem_with objects refs)"
  by (simp add: mem_ok_def mem_with_def)

lemma new_instance_state: "git_state mem_gix mem_ok new_instance empty_store"
  unfolding new_instance_def
  by (rule opened_state [where tip = None])
    (simp_all add: mem_with_ok git_tree_empty mem_ref_holds mem_ref_free)

section \<open>Properties\<close>

text \<open>
  C11. The git backend implements the storage contract on every batch the log can issue: over a
  repository that works, an instance answers count, length, leaves, nodes, timelines and metadata
  of the store its tree holds; a batch is accepted exactly when its operations are admissible one
  after the other, and then the reference names a tree of the resulting store and no other
  reference has changed; otherwise it is refused as invalid.
\<close>

theorem git_refines_store:
  assumes "git_repository G ok editing" "git_state G ok s st" "ops_fit st ops"
  shows "git_append_count s = Inr (so_count st) \<and> git_len s = Inr (length (so_leaves st))
    \<and> (\<forall>i. git_get_leaf G s i = (if i < length (so_leaves st) then Inr (so_leaves st ! i) else Inl (NotFound i)))
    \<and> (\<forall>a l t. git_node_key (a, l, t) \<longrightarrow> git_get_node G s a l t = Inr (so_nodes st (a, l, t)))
    \<and> (\<exists>ms. git_load_algorithm_metas G s = Inr ms \<and> distinct (map fst ms) \<and> map_of ms = so_metas st)
    \<and> git_metadata s = \<lparr>lm_count = so_count st, lm_kind = (if so_count st = 0 \<or> so_leaves st \<noteq> [] then Flat else Subtree)\<rparr>
    \<and> (case abs_apply ops st of
         Some st' \<Rightarrow> \<exists>s'. git_apply G s ops = Inr s' \<and> git_state G ok s' st'
           \<and> extends G (gs_repo s) (gs_repo s') \<and> gs_ref s' = gs_ref s \<and> gs_arity s' = gs_arity s
           \<and> (\<forall>n. n \<noteq> gs_ref s \<longrightarrow> gx_find_ref G (gs_repo s') n = gx_find_ref G (gs_repo s) n)
       | None \<Rightarrow> \<exists>e. git_apply G s ops = Inl (GitInvalid e))"
  using git_repository.reads [OF assms(1,2)] git_state_reads(1,3) [OF assms(2)] git_repository.apply_refines [OF assms]
  by blast

theorem git_refines_store_witness:
  "\<exists>s'. git_apply mem_gix new_instance [AddAlgorithm 1 [(0, u64_max)], AppendLeaf 0 [7] [(1, 0, 0, [9])]] = Inr s'
    \<and> git_get_leaf mem_gix s' 0 = Inr [7] \<and> git_get_node mem_gix s' 1 0 0 = Inr (Some [9])"
proof -
  have fit: "ops_fit empty_store [AddAlgorithm 1 [(0, u64_max)], AppendLeaf 0 [7] [(1, 0, 0, [9])]]"
    using one_fits by (simp add: empty_store_def epochs_valid_def node_fits_def u64_limit_def u64_max_def store_nodes_def)
  obtain s' st' where s': "git_apply mem_gix new_instance [AddAlgorithm 1 [(0, u64_max)], AppendLeaf 0 [7] [(1, 0, 0, [9])]] = Inr s'"
    "git_state mem_gix mem_ok s' st'" "so_leaves st' = [[7]]" "so_nodes st' (1, 0, 0) = Some [9]"
    using git_refines_store [OF mem_git_repository new_instance_state fit]
    by (auto simp: empty_store_def store_nodes_def write_node_def)
  from git_refines_store [OF mem_git_repository s'(2), of "[]"] s'
  show ?thesis by (auto simp: git_node_key_def u64_limit_def)
qed

text \<open>
  C27. Two instances on one reference cannot both write from the same tree: a batch that would be
  accepted is refused, with what the instance saw and what the reference holds, as soon as the
  reference no longer is at the instance's tip.
\<close>

theorem git_apply_tip_moved:
  assumes "git_repository G ok editing" "ok (gs_repo s)" "git_tree G (gs_repo s) (gs_tip s) (gs_arity s) st"
    and "gs_count s = so_count st" "gs_leaves s = (so_leaves st \<noteq> [])"
    and "ref_holds G (gs_repo s) (gs_ref s) v" "v \<noteq> gs_tip s"
    and "ops_fit st ops" "abs_apply ops st = Some st'"
  shows "git_apply G s ops = Inl (TipMoved (gs_tip s) v)"
  by (rule git_repository.apply_moved [OF assms])

theorem git_apply_tip_moved_witness:
  "git_apply mem_gix (new_instance\<lparr>gs_repo := mem_with {} [(staging, ObjectTarget (count_tree 3))]\<rparr>)
      [AddAlgorithm 1 [(0, u64_max)]] = Inl (TipMoved None (Some (count_tree 3)))"
proof -
  let ?r = "mem_with {} [(staging, ObjectTarget (count_tree 3))]"
  let ?s = "new_instance\<lparr>gs_repo := ?r\<rparr>"
  have "git_apply mem_gix ?s [AddAlgorithm 1 [(0, u64_max)]] = Inl (TipMoved (gs_tip ?s) (Some (count_tree 3)))"
    by (rule git_apply_tip_moved [OF mem_git_repository, where st = empty_store])
      (simp_all add: mem_with_ok new_instance_def opened_as_def git_tree_empty mem_ref_holds empty_count
        epochs_valid_def u64_limit_def del: mem_gix_simps)
  then show ?thesis by (simp add: new_instance_def opened_as_def)
qed

text \<open>
  C13. A log over git: whatever log is reached over a freshly opened reference keeps the invariant of
  the log; opening the reference again gives the same instance, and loading the log from it gives
  the same views, count, arity and kind.
\<close>

theorem git_log_reopens:
  assumes "git_durable G ok editing" "ok r" "opens_at G name fname base pre"
    and "gx_find_ref G r name = Inr None" "ref_free G r name" "\<forall>n. prefix pre n \<longrightarrow> gx_find_ref G r n = Inr None"
    and "git_new G r name k = Inr s" "reachable_log (git_ops_of G) s k L items"
    and "hash_map hashers = (\<lambda>a. map_option av_hasher (map_of (lg_algs L) a))"
  shows "log_inv (git_repository.valid G ok) (git_content G) L items
    \<and> git_new G (gs_repo (lg_storage L)) name k = Inr (lg_storage L)
    \<and> (\<exists>L'. from_storage_with_config (git_ops_of G) (lg_storage L) hashers (lg_arity L) = Inr L' \<and> same_log L L')"
  by (rule git_durable.log_reopens [OF assms])

lemma new_instance_opened: "git_new mem_gix (mem_with {} []) staging 2 = Inr new_instance"
proof -
  have ok: "mem_ok (mem_with {} [])" by (simp add: mem_with_ok)
  have none: "list_ckpts mem_gix (mem_with {} []) (staging @ ''.ckpt/'') 2 = Inr []"
    by (rule mem_repo.no_ckpts [OF ok]) simp
  have new: "newest_snap [] = None" by (simp add: newest_snap_def newest_ckpt_def)
  have ar: "arity_ok 2" by (simp add: arity_ok_def)
  have ref: "ref_holds mem_gix (mem_with {} []) staging None" by (simp add: mem_ref_holds)
  show ?thesis
    using mem_repo.git_new_reopens(1) [OF ok ar staging_opens none new ref git_tree_empty] mem_ref_free
    by (simp add: new_instance_def)
qed

lemma new_instance_log:
  "\<exists>L. reachable_log (git_ops_of mem_gix) new_instance 2 L [LeafItem [1]] \<and> lg_count L = 1 \<and> lg_kind L = Flat
    \<and> map (\<lambda>(a, v). (a, av_hasher v)) (lg_algs L) = [(0, tagged_hasher)]
    \<and> hash_map [(0, tagged_hasher)] = (\<lambda>a. map_option av_hasher (map_of (lg_algs L) a))"
  by (rule mem_repo.git_store.one_leaf_log)
    (use new_instance_state git_content_state in \<open>auto simp: mem_repo.valid_def\<close>)

theorem git_log_reopens_witness:
  "\<exists>L L'. reachable_log (git_ops_of mem_gix) new_instance 2 L [LeafItem [1]]
    \<and> git_new mem_gix (gs_repo (lg_storage L)) staging 2 = Inr (lg_storage L)
    \<and> from_storage_with_config (git_ops_of mem_gix) (lg_storage L) [(0, tagged_hasher)] (lg_arity L) = Inr L' \<and> lg_count L' = 1"
proof -
  obtain L where L: "reachable_log (git_ops_of mem_gix) new_instance 2 L [LeafItem [1]]" "lg_count L = 1"
    "hash_map [(0, tagged_hasher)] = (\<lambda>a. map_option av_hasher (map_of (lg_algs L) a))"
    using new_instance_log by blast
  have "mem_ok (mem_with {} [])" by (simp add: mem_with_ok)
  from git_log_reopens [OF mem_repo.git_durable_axioms this staging_opens _ _ _ new_instance_opened L(1,3)] L(2)
  show ?thesis by (auto simp: mem_ref_free same_log_def intro: L(1))
qed

text \<open>
  C26. Every tree an instance ever had stays readable as the store it was: after any further steps of
  the log, a view opened at the earlier tip answers the count, kind, leaves, nodes and timelines
  of the log at that time.
\<close>

theorem git_views_permanent:
  assumes "git_repository G ok editing" "log_inv (git_repository.valid G ok) (git_content G) L items"
    and "(log_step (git_ops_of G))\<^sup>*\<^sup>* (L, items) (L', items')"
    and "gs_tip (lg_storage L) = Some t" "gs_arity (lg_storage L) < 2 ^ 16"
  shows "\<exists>v. open_at G (lg_storage L') t = Inr v
    \<and> view_metadata v = \<lparr>lm_count = lg_count L, lm_kind = (if lg_count L = 0 \<or> leaf_payloads items \<noteq> [] then Flat else Subtree)\<rparr>
    \<and> (\<forall>i. view_get_leaf G v i = (if i < length (leaf_payloads items) then Inr (leaf_payloads items ! i) else Inl (NotFound i)))
    \<and> (\<forall>a l h. git_node_key (a, l, h) \<longrightarrow> view_get_node G v a l h = git_get_node G (lg_storage L) a l h)
    \<and> (\<exists>ms. view_load_algorithm_metas G v = Inr ms \<and> map_of ms = (\<lambda>a. map_option av_epochs (map_of (lg_algs L) a)))"
proof -
  note i = log_invD [OF assms(2)]
  have s: "git_state G ok (lg_storage L) (git_content G (lg_storage L))"
    by (rule git_repository.validE [OF assms(1) i(1)])
  obtain v where v: "open_at G (lg_storage L') t = Inr v" "view_answers G v (git_content G (lg_storage L))"
    using git_repository.earlier_tree [OF assms] by blast
  note a = v(2) [unfolded view_answers_def i(7-9)]
  have "view_get_node G v a l h = git_get_node G (lg_storage L) a l h" if key: "git_node_key (a, l, h)" for a l h
    using a key git_state_reads(1) [OF s key] by simp
  then show ?thesis by (intro exI [of _ v]) (use v(1) a in blast)
qed

theorem git_views_permanent_witness:
  "\<exists>L L' t v. gs_tip (lg_storage L) = Some t \<and> log_step (git_ops_of mem_gix) (L, [LeafItem [1]]) (L', [LeafItem [1]])
    \<and> length (lg_algs L') = 2 \<and> open_at mem_gix (lg_storage L') t = Inr v \<and> view_get_leaf mem_gix v 0 = Inr [1]"
proof -
  obtain L where L: "reachable_log (git_ops_of mem_gix) new_instance 2 L [LeafItem [1]]" "lg_count L = 1"
    "map (\<lambda>(a, v). (a, av_hasher v)) (lg_algs L) = [(0, tagged_hasher)]"
    using new_instance_log by (elim exE conjE) (rule that; assumption)
  have empty: "git_content mem_gix new_instance = empty_store" by (rule git_content_state [OF new_instance_state])
  have inv: "log_inv (valid_from mem_gix mem_ok new_instance) (git_content mem_gix) L [LeafItem [1]]"
    by (rule lawful_storage.reachable_inv [OF mem_repo.lawful_from L(1) _ empty])
      (rule mem_repo.valid_from_refl, use new_instance_state in \<open>auto simp: mem_repo.valid_def\<close>)
  note inv' = mem_repo.log_inv_valid [OF inv]
  have ar: "gs_arity (lg_storage L) = 2"
    using inv by (simp add: log_inv_def valid_from_def new_instance_def opened_as_def)
  have st: "git_state mem_gix mem_ok (lg_storage L) (git_content mem_gix (lg_storage L))"
    by (rule mem_repo.validE) (use inv' in \<open>simp add: log_inv_def\<close>)
  have "so_count (git_content mem_gix (lg_storage L)) = 1" using log_invD(7) [OF inv'] L(2) by simp
  then obtain t where t: "gs_tip (lg_storage L) = Some t"
    using st by (cases "gs_tip (lg_storage L)") (auto simp: git_state_def git_tree_def empty_store_def)
  obtain v where v: "lg_algs L = [(0, v)]" using L(3) by auto
  then obtain L' where L': "add_algorithm (git_ops_of mem_gix) L 1 tagged_hasher = Inr L'"
    using mem_repo.git_store.inv_add [OF inv' _ tagged_null_free one_fits] by auto
  have step: "log_step (git_ops_of mem_gix) (L, [LeafItem [1]]) (L', [LeafItem [1]])"
    by (rule log_step.add [OF tagged_null_free one_fits L'])
  have "length (lg_algs L') = 2"
    using L' v by (auto simp: add_algorithm_def bindE_Inr_iff Let_def split: if_splits)
  moreover from git_views_permanent [OF mem_git_repository inv' r_into_rtranclp [of "log_step (git_ops_of mem_gix)", OF step] t] ar
  obtain w where "open_at mem_gix (lg_storage L') t = Inr w" "view_get_leaf mem_gix w 0 = Inr [1]"
    by (auto simp: leaf_payloads_def map_filter_simps)
  ultimately show ?thesis using t step by blast
qed

text \<open>
  C28. The paths of the layout never meet: two entries whose keys fit 64 bits have different paths,
  and no path is a directory on another, so writing one blob never displaces another.
\<close>

theorem git_paths_disjoint:
  assumes "slot_fits x" "slot_path x = Some p" "slot_fits y" "slot_path y = Some q" "x \<noteq> y"
  shows "p \<noteq> q \<and> \<not> prefix (split_slash p) (split_slash q)"
  using slot_prefix [OF assms(1-4)] assms(2,4,5) by auto

theorem git_paths_disjoint_witness:
  "slot_path (LeafSlot 1) = Some ''leaves/1/01'' \<and> slot_path (LeafSlot 256) = Some ''leaves/2/01/00''
    \<and> \<not> prefix (split_slash ''leaves/1/01'') (split_slash ''leaves/2/01/00'')"
proof -
  have p: "slot_path (LeafSlot 1) = Some ''leaves/1/01''" "slot_path (LeafSlot 256) = Some ''leaves/2/01/00''"
    by code_simp+
  have "slot_fits (LeafSlot 1)" "slot_fits (LeafSlot 256)" by (simp_all add: u64_limit_def)
  from git_paths_disjoint [OF this(1) p(1) this(2) p(2)] p show ?thesis by simp
qed

text \<open>
  C29. The retries of the reference update end: whatever the repository answers, over a clock that a
  sleep advances, the loop is left, with success, with the transient error once two seconds have
  passed, or at a mismatch, which is reported with the object the reference has; only where the
  reference is found to be symbolic at that moment does the report panic instead.
\<close>

theorem update_ref_returns:
  assumes "clock_runs G"
  shows "\<exists>r' res. update_ref G r name expected new observed = Some (r', res) \<and>
    (res = Inr ()
     \<or> (\<exists>e. res = Inl (RefUpdateTransient e) \<and> \<not> is_genuine_cas_mismatch e
          \<and> gx_now G r + 2000000000 \<le> gx_now G r')
     \<or> (\<exists>t. res = Inl (TipMoved observed t) \<and> \<not> symbolic_ref G r' name
          \<and> (\<forall>x. t = Some x \<longleftrightarrow> (\<exists>ref. gx_find_ref G r' name = Inr (Some ref) \<and> gr_target ref = ObjectTarget x)))
     \<or> res = Inl GitStuck \<and> symbolic_ref G r' name)"
proof -
  obtain r' res where x: "update_ref G r name expected new observed = Some (r', res)"
    "retry_result G name observed (gx_now G r) (r', res)"
    using update_ref_returns_in [OF assms, of r name expected new observed] by auto
  show ?thesis
  proof (cases res)
    case (Inl e)
    then have "e = tip_moved G r' name observed \<or> (\<exists>e'. e = RefUpdateTransient e' \<and> \<not> is_genuine_cas_mismatch e'
        \<and> gx_now G r + 2000000000 \<le> gx_now G r')"
      using x(2) by (simp add: retry_result_def retry_bound_def)
    with x(1) Inl tip_moved_report [of G r' name observed] show ?thesis by auto
  qed (use x(1) in auto)
qed

text \<open>A reference that is symbolic when a mismatch is reported makes the call panic.\<close>

theorem update_ref_symbolic_panics:
  assumes "gx_edit_ref G r name (UpdateRef expected new) = (r', Inl e)" "is_genuine_cas_mismatch e" "symbolic_ref G r' name"
  shows "update_ref G r name expected new observed = Some (r', Inl GitStuck)"
  using assms by (simp add: update_ref_def update_ref_loop.simps tip_moved_symbolic)

text \<open>A staging reference that was made to name a branch.\<close>

theorem update_ref_symbolic_panics_witness:
  "\<exists>r'. update_ref mem_gix (mem_with {} [(staging, SymbolicTarget ''refs/heads/x'')]) staging MustNotExist (count_tree 3) None
    = Some (r', Inl GitStuck)"
proof -
  let ?r = "mem_with {} [(staging, SymbolicTarget ''refs/heads/x'')]"
  let ?r' = "?r\<lparr>mr_trace := mr_trace ?r @ [Edited staging]\<rparr>"
  have "gx_edit_ref mem_gix ?r staging (UpdateRef MustNotExist (count_tree 3)) = (?r', Inl PrepareReferenceOutOfDate)"
    by (simp add: mem_edit_ref_def Let_def)
  moreover have "is_genuine_cas_mismatch (PrepareReferenceOutOfDate :: unit edit_error)"
    by (simp add: is_genuine_cas_mismatch_def)
  moreover have "symbolic_ref mem_gix ?r' staging" by (simp add: symbolic_ref_def)
  ultimately have "update_ref mem_gix ?r staging MustNotExist (count_tree 3) None = Some (?r', Inl GitStuck)"
    by (rule update_ref_symbolic_panics)
  then show ?thesis ..
qed

text \<open>A repository where another process holds the lock of the reference.\<close>

definition locked_gix :: "(mem_repo, paths, unit) gix" where
  "locked_gix = mem_gix\<lparr>gx_edit_ref := (\<lambda>r name change. (r, Inl (EditFailed ())))\<rparr>"

theorem update_ref_returns_witness:
  "clock_runs locked_gix
    \<and> (\<exists>r' res. update_ref locked_gix mem_init staging MustNotExist (count_tree 3) None = Some (r', res))"
proof -
  have "clock_runs locked_gix" by (simp add: clock_runs_def locked_gix_def)
  with update_ref_returns [OF this, of mem_init staging MustNotExist "count_tree 3" None] show ?thesis by blast
qed

text \<open>
  C25. A checkpoint is made in the order that survives a crash: if the newest checkpoint is not of the
  tip already, then before the new reference is created every object of the tip (its trees and blobs,
  however deep) that the newest valid checkpoint does not have has been synced, with its directory,
  and so has the staging reference; the new reference is synced before any older one is deleted, and
  the newest valid one of those is not deleted.
\<close>

theorem checkpoint_sync_order:
  assumes "traced G tr" "kinds_fit G (gs_repo s)" "git_checkpoint G s = Inr (s', n)"
  shows "if checkpointed G s then s' = s
    else \<exists>tip ckpts evs. gs_tip s = Some tip
      \<and> list_ckpts G (gs_repo s) (gs_ckpt_prefix s) (gs_arity s) = Inr ckpts
      \<and> tr (gs_repo s') = tr (gs_repo s) @ evs
      \<and> checkpoint_order G (new_objects G (gs_repo s) tip ckpts) (gs_ref_file s)
          (gs_ckpt_prefix s @ dec_fixed 20 (next_generation ckpts)) ckpts evs"
  by (rule checkpoint_trace [OF assms])

lemma mem_traced: "traced mem_gix mr_trace"
  by (auto simp: traced_def mem_edit_ref_def Let_def split: ref_change.splits)

lemma mem_find_ref:
  "gx_find_ref mem_gix (mem_with objects refs) n = Inr (map_option (\<lambda>t. \<lparr>gr_name = n, gr_target = t\<rparr>) (map_of refs n))"
  by simp

definition first_ckpt :: string where
  "first_ckpt = staging @ ''.ckpt/00000000000000000001''"

definition second_ckpt :: string where
  "second_ckpt = staging @ ''.ckpt/00000000000000000002''"

lemma ckpt_names:
  "staging @ ''.ckpt/'' @ dec_fixed 20 1 = first_ckpt" "staging @ ''.ckpt/'' @ dec_fixed 20 2 = second_ckpt"
  by (simp_all add: first_ckpt_def second_ckpt_def, code_simp+)

lemma ckpt_paths:
  "\<exists>fb. loose_ref_path mem_gix first_ckpt = (Inr fb :: unit git_error + _)"
  "\<exists>fb. loose_ref_path mem_gix second_ckpt = (Inr fb :: unit git_error + _)"
  by (simp_all add: loose_ref_path_def Let_def)

lemma staging_names:
  "first_ckpt \<noteq> staging" "second_ckpt \<noteq> staging" "second_ckpt \<noteq> first_ckpt"
  "\<not> prefix (staging @ ''.ckpt/'') staging" "prefix (staging @ ''.ckpt/'') first_ckpt"
  "\<not> prefix (staging @ ''/'') first_ckpt" "\<not> prefix (first_ckpt @ ''/'') staging"
  "\<not> prefix (staging @ ''/'') second_ckpt" "\<not> prefix (second_ckpt @ ''/'') staging"
  "\<not> prefix (first_ckpt @ ''/'') second_ckpt" "\<not> prefix (second_ckpt @ ''/'') first_ckpt"
  by (simp_all add: first_ckpt_def second_ckpt_def staging_def)

text \<open>An instance over a tree with a count of three, and no checkpoint yet.\<close>

definition three_objects :: "oid set" where
  "three_objects = {count_tree 3, count_blob 3}"

definition three_repo :: mem_repo where
  "three_repo = mem_with three_objects [(staging, ObjectTarget (count_tree 3))]"

definition three_instance :: "mem_repo git_storage" where
  "three_instance = opened_as three_repo staging 2 staging_path [''git''] (staging @ ''.ckpt/'')
     (Some (snap_of (count_tree 3) (count_store 3)))"

lemma three_state: "git_state mem_gix mem_ok three_instance (count_store 3)"
proof -
  have t: "git_tree mem_gix three_repo (Some (count_tree 3)) 2 (count_store 3)"
    by (rule count_git_tree) (simp_all add: three_repo_def three_objects_def u64_max_def)
  have ok: "mem_ok three_repo" by (simp add: three_repo_def mem_with_ok)
  have ref: "ref_holds mem_gix three_repo staging (Some (count_tree 3))" by (simp add: three_repo_def mem_ref_holds)
  show ?thesis unfolding three_instance_def
    by (rule opened_state [where tip = "Some (count_tree 3)"]) (use ok t ref in simp_all)
qed

lemma three_fields:
  "gs_tip three_instance = Some (count_tree 3)" "gs_arity three_instance = 2" "gs_ref three_instance = staging"
  "gs_ckpt_prefix three_instance = staging @ ''.ckpt/''" "gs_repo three_instance = three_repo"
  "gs_ref_file three_instance = staging_path"
  by (simp_all add: three_instance_def opened_as_def snap_of_def)

lemma three_no_ckpts: "list_ckpts mem_gix three_repo (staging @ ''.ckpt/'') 2 = Inr []"
  by (rule mem_repo.no_ckpts) (use staging_names(4) in \<open>auto simp: three_repo_def mem_with_ok\<close>)

lemma three_ready: "mem_repo.next_ready three_repo (staging @ ''.ckpt/'') []"
proof -
  have "ref_free mem_gix three_repo first_ckpt"
    using staging_names by (auto simp: ref_free_def three_repo_def split: if_splits)
  then show ?thesis
    using ckpt_paths staging_names ckpt_names
    by (auto simp: mem_repo.next_ready_def next_generation_def three_repo_def)
qed

lemma three_kinds: "kinds_fit mem_gix three_repo"
  by (auto simp: kinds_fit_def three_repo_def three_objects_def tree_at_Some count_tree_def count_blob_def
      dest!: tree_code_inj)

lemma three_new: "new_objects mem_gix three_repo (count_tree 3) [] = {count_tree 3, count_blob 3}"
proof -
  have tree: "gx_find_tree mem_gix three_repo (count_tree 3)
      = Inr [\<lparr>ge_name = ''meta'', ge_oid = count_blob 3, ge_tree = False\<rparr>]"
    by (simp add: count_tree_at three_repo_def three_objects_def)
  have blob: "\<forall>es. gx_find_tree mem_gix three_repo (count_blob 3) \<noteq> Inr es"
    by (simp add: tree_at_Some count_blob_def)
  show ?thesis
    by (auto simp: new_objects_def newest_snap_def newest_ckpt_def in_tree_entries [OF tree] in_tree_blob [OF blob])
qed

theorem checkpoint_sync_order_witness:
  "\<exists>s' evs. git_checkpoint mem_gix three_instance = Inr (s', 3) \<and> mr_trace (gs_repo s') = evs
    \<and> checkpoint_order mem_gix {count_tree 3, count_blob 3} staging_path first_ckpt [] evs"
proof -
  have none: "newest_snap [] = None" by (simp add: newest_snap_def newest_ckpt_def)
  have count: "so_count (count_store 3) = 3" by (simp add: count_store_def)
  obtain s' where s': "git_checkpoint mem_gix three_instance = Inr (s', 3)"
    "ref_holds mem_gix (gs_repo s') first_ckpt (Some (count_tree 3))"
    using mem_repo.checkpoint_ok [OF three_state three_fields(1), unfolded three_fields, OF _ _ three_no_ckpts _ three_ready]
    by (auto simp: none count next_generation_def ckpt_names ckpt_names(1) [simplified])
  have "\<not> checkpointed mem_gix three_instance"
    by (simp add: checkpointed_def three_fields three_no_ckpts none del: mem_gix_simps)
  with checkpoint_sync_order [OF mem_traced _ s'(1), unfolded three_fields three_no_ckpts, OF three_kinds] obtain evs where
    "mr_trace (gs_repo s') = mr_trace three_repo @ evs"
    "checkpoint_order mem_gix {count_tree 3, count_blob 3} staging_path
      ((staging @ ''.ckpt/'') @ dec_fixed 20 (next_generation [])) [] evs"
    by (auto simp: three_new simp del: mem_gix_simps)
  moreover have "(staging @ ''.ckpt/'') @ dec_fixed 20 (next_generation []) = first_ckpt"
    using ckpt_names(1) by (simp add: next_generation_def)
  moreover have "mr_trace three_repo = []" by (simp add: three_repo_def mem_with_def)
  ultimately show ?thesis using s'(1) by auto
qed

text \<open>
  C12. Opening after a crash goes on from the newest state that survived: whether staging is intact,
  has lost some of its objects, is gone or cannot be read, opening succeeds; it takes the tree
  staging names if all of it is there and the newest checkpoint otherwise, and the instance it
  returns is in a state of the store that tree holds, with staging naming it.
\<close>

theorem git_new_recovers:
  fixes G :: "('r, 'ed, 'm) gix"
  assumes "git_durable G ok editing" "ok r" "lost_objects G r0 r" "arity_ok arity" "opens_at G name fname base pre"
    and "list_ckpts G r pre arity = Inr ckpts" "newest_snap ckpts = Some (snap_of tc stc)"
    and "git_tree G r (Some tc) arity stc" "git_durable.next_ready G r pre ckpts"
    and "staged G r0 r name arity stg" "recovered G r arity stg (tc, stc) = (t', st')"
  shows "\<exists>s'. git_new G r name arity = Inr s' \<and> git_state G ok s' st' \<and> gs_tip s' = Some t'"
  by (rule git_durable.git_new_recovered [OF assms])

text \<open>A checkpoint of three items, and staging at a tree of five items that lost its metadata.\<close>

definition torn_refs :: "(string \<times> ref_target) list" where
  "torn_refs = [(staging, ObjectTarget (count_tree 5)), (first_ckpt, ObjectTarget (count_tree 3))]"

definition torn_repo :: mem_repo where
  "torn_repo = mem_with (insert (count_tree 5) three_objects) torn_refs"

definition whole_repo :: mem_repo where
  "whole_repo = mem_with (insert (count_blob 5) (insert (count_tree 5) three_objects)) torn_refs"

lemma torn_objects: "lost_objects mem_gix whole_repo torn_repo"
  by (auto simp: lost_objects_def mem_extends whole_repo_def torn_repo_def tree_at_Some blob_at_Some)

lemma torn_trees:
  "git_tree mem_gix torn_repo (Some (count_tree 3)) 2 (count_store 3)"
  "git_tree mem_gix whole_repo (Some (count_tree 5)) 2 (count_store 5)"
  by (rule count_git_tree, simp_all add: torn_repo_def whole_repo_def three_objects_def u64_max_def)+

lemma torn_staging: "\<not> git_tree mem_gix torn_repo (Some (count_tree 5)) 2 st"
proof
  assume "git_tree mem_gix torn_repo (Some (count_tree 5)) 2 st"
  then have "git_holds mem_gix torn_repo (count_tree 5) (Some (encode_meta 2 (so_count st))) (encoded (so_metas st)) st"
    by (simp add: git_tree_def git_meta_def)
  from meta_entry [OF this] obtain m where m: "find_entry mem_gix torn_repo (count_tree 5) ''meta'' = Inr (Some m)"
    "gx_find_blob mem_gix torn_repo m = Inr (encode_meta 2 (so_count st))"
    by (elim exE conjE) (rule that; assumption)
  have "tree_at torn_repo (count_tree 5) = Some [\<lparr>ge_name = ''meta'', ge_oid = count_blob 5, ge_tree = False\<rparr>]"
    unfolding count_tree_at by (simp add: torn_repo_def)
  then have "m = count_blob 5" using m(1) by (simp add: find_entry_def read_tree_def res_of_def)
  moreover have "count_blob 5 \<noteq> count_blob 3" by (simp add: count_blob_def encode_meta_inj u64_limit_def)
  ultimately show False using m(2) by (auto simp: blob_at_Some torn_repo_def three_objects_def)
qed

lemma torn_ckpts:
  "list_ckpts mem_gix torn_repo (staging @ ''.ckpt/'') 2 = Inr [\<lparr>ck_generation = 1, ck_name = first_ckpt,
     ck_target = count_tree 3, ck_snap = Some (snap_of (count_tree 3) (count_store 3))\<rparr>]"
proof -
  have refs: "gx_list_refs mem_gix torn_repo (staging @ ''.ckpt/'') = Inr [Inr \<lparr>gr_name = first_ckpt, gr_target = ObjectTarget (count_tree 3)\<rparr>]"
    using staging_names by (simp add: torn_repo_def torn_refs_def)
  have ref: "ref_holds mem_gix torn_repo first_ckpt (Some (count_tree 3))"
    using staging_names by (simp add: mem_ref_holds torn_repo_def torn_refs_def)
  have snap: "read_snap mem_gix torn_repo first_ckpt 2 = Inr (Some (snap_of (count_tree 3) (count_store 3)))"
    by (rule read_snap_tree [OF ref torn_trees(1)]) simp
  have "parse_u64 ''00000000000000000001'' = Some 1"
    by (simp add: parse_u64_def is_dec_digit_def hex_val_def u64_limit_def Let_def)
  then have gen: "ref_generation (staging @ ''.ckpt/'') first_ckpt = Some 1"
    by (simp add: ref_generation_def first_ckpt_def staging_def)
  show ?thesis unfolding list_ckpts_def refs by (simp add: gen [simplified] snap)
qed

theorem git_new_recovers_witness:
  "\<exists>s'. git_new mem_gix torn_repo staging 2 = Inr s' \<and> gs_tip s' = Some (count_tree 3) \<and> gs_count s' = 3"
proof -
  let ?c = "\<lparr>ck_generation = 1, ck_name = first_ckpt, ck_target = count_tree 3,
    ck_snap = Some (snap_of (count_tree 3) (count_store 3))\<rparr>"
  have ok: "mem_ok torn_repo" using staging_names by (simp add: torn_repo_def torn_refs_def mem_with_ok)
  have ar: "arity_ok 2" by (simp add: arity_ok_def)
  have newest: "newest_snap [?c] = Some (snap_of (count_tree 3) (count_store 3))"
    by (simp add: newest_snap_def newest_ckpt_def)
  have "ref_free mem_gix torn_repo second_ckpt"
    using staging_names by (auto simp: ref_free_def torn_repo_def torn_refs_def split: if_splits)
  moreover have "next_generation [?c] = 2" by (simp add: next_generation_def u64_limit_def)
  ultimately have ready: "mem_repo.next_ready torn_repo (staging @ ''.ckpt/'') [?c]"
    using ckpt_paths staging_names ckpt_names(2)
    by (auto simp: mem_repo.next_ready_def torn_repo_def torn_refs_def)
  have stg: "staged mem_gix whole_repo torn_repo staging 2 (Some (count_tree 5, count_store 5))"
    using torn_trees(2) by (simp add: staged_def mem_ref_holds) (simp add: torn_repo_def torn_refs_def)
  have rec: "recovered mem_gix torn_repo 2 (Some (count_tree 5, count_store 5)) (count_tree 3, count_store 3)
      = (count_tree 3, count_store 3)"
    using torn_staging by (simp add: recovered_def)
  from git_new_recovers [OF mem_repo.git_durable_axioms ok torn_objects ar staging_opens torn_ckpts newest torn_trees(1) ready stg rec]
  show ?thesis by (auto simp: git_state_def count_store_def)
qed

end
