(* ===== verification/Poly_Log_Types.thy ===== *)
theory Poly_Log_Types
  imports Poly_Log_Correct
begin

text \<open>
  The numbers of the model fit the types of the program: sizes, positions, epochs and algorithm
  ids of a reachable log are 64-bit numbers, the heights of its nodes are below 64, and every view
  has one digest for each coordinate of its frontier.
\<close>

definition epochs_typed :: "u64 \<Rightarrow> epochs \<Rightarrow> bool" where
  "epochs_typed n es \<longleftrightarrow> list_all (\<lambda>(s, e). s \<le> e \<and> s \<le> n \<and> (e \<le> n \<or> e = u64_max)) es"

definition view_typed :: "u64 \<Rightarrow> u64 \<Rightarrow> alg_view \<Rightarrow> bool" where
  "view_typed k n v \<longleftrightarrow> epochs_typed n (av_epochs v) \<and> length (av_frontier v) = length (av_coords v)
     \<and> list_all (\<lambda>(l, t). l + k ^ t \<le> n \<and> t < 64) (av_coords v)"

definition log_typed :: "(alg_id \<times> u64 \<times> u32 \<Rightarrow> digest option) \<Rightarrow> 's merkle_log \<Rightarrow> bool" where
  "log_typed N L \<longleftrightarrow> lg_arity L \<le> 256 \<and> lg_count L < u64_max
     \<and> list_all (\<lambda>(a, v). a < u64_limit \<and> view_typed (lg_arity L) (lg_count L) v) (lg_algs L)
     \<and> (\<forall>a l t. N (a, l, t) \<noteq> None \<longrightarrow> a < u64_limit \<and> l + lg_arity L ^ t \<le> lg_count L \<and> t < 64)"

lemma epochs_sorted_le: "epochs_sorted b es \<Longrightarrow> (s, e) \<in> set es \<Longrightarrow> s \<le> e"
  by (induction b es rule: epochs_sorted.induct) auto

lemma epochs_valid_typed:
  assumes "epochs_valid n es"
  shows "epochs_typed n es"
proof -
  have v: "es \<noteq> []" "epochs_sorted 0 es" "\<forall>(s, e) \<in> set (butlast es). e \<noteq> u64_max \<and> e \<le> n"
    "case last es of (s, e) \<Rightarrow> if e = u64_max then s \<le> n else e \<le> n"
    using assms by (simp_all add: epochs_valid_def Let_def)
  have "s \<le> e \<and> s \<le> n \<and> (e \<le> n \<or> e = u64_max)" if mem: "(s, e) \<in> set es" for s e
  proof -
    have le: "s \<le> e" by (rule epochs_sorted_le [OF v(2) mem])
    have "set es = set (butlast es) \<union> {last es}"
      using v(1) by (metis append_butlast_last_id list.simps(15) list.set(1) set_append)
    then consider "(s, e) \<in> set (butlast es)" | "last es = (s, e)" using mem by auto
    then show ?thesis using le v(3,4) by cases (auto split: if_splits)
  qed
  then show ?thesis by (auto simp: epochs_typed_def list_all_iff)
qed

lemma log_inv_typed:
  assumes inv: "log_inv valid content L items"
  shows "log_typed (so_nodes (content (lg_storage L))) L"
proof -
  note i = log_invD [OF inv]
  have cap: "lg_count L < u64_limit" using i(13) by (simp add: u64_max_def u64_limit_def)
  have height: "t < 64" if "l + lg_arity L ^ t \<le> lg_count L" for l t
    by (rule power_less_limit [OF i(12)]) (use that cap in simp)
  have view: "view_typed (lg_arity L) (lg_count L) v \<and> tree_size v (lg_count L) \<le> lg_count L"
    if v: "map_of (lg_algs L) a = Some v" for a v
  proof -
    note ok = alg_okD [OF i(11) [OF v]]
    have m: "tree_size v (lg_count L) \<le> lg_count L" using tree_size_le ok(3) i(3) by simp
    have f: "holds_frontier v (lg_arity L) (history items v) (tree_size v (lg_count L))" using ok(5) i(3) by simp
    have c: "l + lg_arity L ^ t \<le> lg_count L" if "(l, t) \<in> set (av_coords v)" for l t
      using frontier_bound [OF i(12) _ that [unfolded f [unfolded holds_frontier_def, THEN conjunct1]]] m cap by simp
    show ?thesis
      using m f c height epochs_valid_typed [OF ok(3)] i(3)
      by (auto simp: view_typed_def holds_frontier_def list_all_iff)
  qed
  have nodes: "a < u64_limit \<and> l + lg_arity L ^ t \<le> lg_count L \<and> t < 64"
    if N: "so_nodes (content (lg_storage L)) (a, l, t) = Some d" for a l t d
  proof -
    obtain v where v: "map_of (lg_algs L) a = Some v" using i(10) N by (cases "map_of (lg_algs L) a") auto
    have "l + lg_arity L ^ t \<le> tree_size v (length items)"
      using i(11) [OF v] N unfolding alg_ok_def Let_def by blast
    then have "l + lg_arity L ^ t \<le> lg_count L" using view [OF v] i(3) by simp
    then show ?thesis using height log_inv_alg_bound [OF inv v] by blast
  qed
  have "a < u64_limit \<and> view_typed (lg_arity L) (lg_count L) v" if "(a, v) \<in> set (lg_algs L)" for a v
  proof -
    have "map_of (lg_algs L) a = Some v" using i(6) that by simp
    then show ?thesis using view log_inv_alg_bound [OF inv] by blast
  qed
  then show ?thesis using i(2,13) nodes by (auto simp: log_typed_def list_all_iff arity_ok_def)
qed

section \<open>Properties\<close>

text \<open>
  C30. A reachable log is well typed: its numbers are 64-bit numbers, so no sum the appends form
  wraps, its epochs lie within the count or are open, its frontiers have one digest for each
  coordinate, and every stored node lies within the count at a height below 64.
\<close>

theorem log_well_typed:
  assumes "reachable_log memory_ops mem_new k L items"
  shows "log_typed (ms_nodes (lg_storage L)) L"
  using log_inv_typed [OF mem.reachable_inv [OF assms mem_new_ok]] by simp

theorem log_well_typed_witness:
  "\<exists>L :: memory_storage merkle_log. log_shape L = toy_shape \<and> log_typed (ms_nodes (lg_storage L)) L"
proof -
  obtain L where L: "run_state 2 toy_shape toy_items L" using toy_run by blast
  then have "reachable_log memory_ops mem_new 2 L toy_items" by (simp add: run_state_def)
  from log_well_typed [OF this] L show ?thesis by (auto simp: run_state_def)
qed

end
