(* ===== verification/Spec2Isabelle.thy ===== *)
theory Spec2Isabelle
  imports Poly_Evolution Poly_Log_Past Poly_Log_Seal Poly_Replay Poly_Fill Poly_Epoch_Tree Store_Fjall Store_Git_Props Poly_Log_Types
begin

text \<open>
  A verification development of the \<^verbatim>\<open>eml\<close> repository: an append-only Merkle log whose items
  are committed under several hash algorithms at once, algorithms being added, frozen and resumed
  while the log grows, and a mutable tree of the same make.

  \<^bold>\<open>The program.\<close>  The crate \<^verbatim>\<open>spine\<close> has the hash-agnostic primitives: the hasher trait, the
  canonicalizing fold of child digests, the decomposition of a size into perfect subtrees, the
  inclusion verifier over a skeleton, and the seal (a frontier per algorithm).  \<^verbatim>\<open>cml\<close> is the
  single-algorithm log: the bag of frontier peaks, the carry of an append, the proofs, the
  historical roots and the reconstruction of a view from its store.  \<^verbatim>\<open>cmt\<close> is the mutable tree,
  with a rebalanced topology and a node cache.  \<^verbatim>\<open>polydigest\<close> puts the algorithms together: one
  store behind the \<^verbatim>\<open>Storage\<close> trait, one view per algorithm, the combined root over the member
  roots, the timeline and the null runs, the coupling proof that opens it, the audit, the replay,
  the seal and the fill.  \<^verbatim>\<open>eml\<close> and \<^verbatim>\<open>emt\<close> are the two arity-2 instances, \<^verbatim>\<open>storage-fjall\<close> and
  \<^verbatim>\<open>storage-git\<close> are persistent stores.

  \<^bold>\<open>The theories\<close>, in import order, each with the source it models:
  \<^item> \<^verbatim>\<open>Prelude\<close>: machine numbers, results, big-endian bytes, list helpers.
  \<^item> \<^verbatim>\<open>Spine_Mr\<close> (\<^verbatim>\<open>hasher.rs\<close>, \<^verbatim>\<open>subtree.rs\<close>, \<^verbatim>\<open>mr.rs\<close>), \<^verbatim>\<open>Spine_Topology\<close> (\<^verbatim>\<open>topology.rs\<close>),
    \<^verbatim>\<open>Spine_Proof\<close> (\<^verbatim>\<open>proof.rs\<close>, \<^verbatim>\<open>leaf_proof.rs\<close>), \<^verbatim>\<open>Spine_Seal\<close> (\<^verbatim>\<open>seal.rs\<close>, \<^verbatim>\<open>metadata.rs\<close>).
    A hasher is a record of functions; a frontier is determined by its heights, which are the
    base-\<open>k\<close> digits of the size; two climbs that meet agree or exhibit a clash of the fold.
  \<^item> \<^verbatim>\<open>Cml_Mountain\<close> (\<^verbatim>\<open>mountain.rs\<close>), \<^verbatim>\<open>Cml_Engine\<close> (\<^verbatim>\<open>engine.rs\<close>, \<^verbatim>\<open>schedule.rs\<close>) with its theory
    in \<^verbatim>\<open>Cml_Carry\<close> (the append is an increment in base \<open>k\<close>), \<^verbatim>\<open>Cml_Epochs\<close> (timelines),
    \<^verbatim>\<open>Cml_Proofs\<close> (generators against the verifier), \<^verbatim>\<open>Cml_Reopen\<close> (reconstruction), and
    \<^verbatim>\<open>Cml_Consistency\<close> (\<^verbatim>\<open>consistency.rs\<close>).
  \<^item> \<^verbatim>\<open>Cmt_Shape\<close> (\<^verbatim>\<open>shape.rs\<close>), \<^verbatim>\<open>Cmt_Tree\<close> (\<^verbatim>\<open>tree.rs\<close> of \<^verbatim>\<open>cmt\<close>), \<^verbatim>\<open>Cmt_Cache\<close> (the node cache is
    complete), \<^verbatim>\<open>Cmt_Correct\<close> (every operation refines an update of the committed digest lists).
  \<^item> \<^verbatim>\<open>Poly_Nullruns\<close> and \<^verbatim>\<open>Poly_Root\<close> (\<^verbatim>\<open>root.rs\<close>), \<^verbatim>\<open>Poly_Evolution\<close>
    (\<^verbatim>\<open>evolution.rs\<close>), \<^verbatim>\<open>Poly_Snapshot\<close> (\<^verbatim>\<open>sealed.rs\<close>, \<^verbatim>\<open>binding_proof.rs\<close>, \<^verbatim>\<open>snapshot_proof.rs\<close>).
  \<^item> \<^verbatim>\<open>Poly_Storage\<close> (\<^verbatim>\<open>storage.rs\<close>): the trait, the store it abstracts to (\<open>store\<close>, \<open>abs_step\<close>), the
    contract \<open>lawful_storage\<close> and the in-memory store.
  \<^item> \<^verbatim>\<open>Poly_Log\<close> (\<^verbatim>\<open>tree.rs\<close>, \<^verbatim>\<open>seal.rs\<close>): the log, its constructors, the five mutating operations
    and the queries.  \<^verbatim>\<open>Poly_Log_State\<close> and \<^verbatim>\<open>Poly_Log_Inv\<close>: the log as a step relation with its
    history, and the invariant of every reachable log.  \<^verbatim>\<open>Poly_Log_Correct\<close>: what the queries answer.
    \<^verbatim>\<open>Poly_Log_Past\<close>: the past is fixed.  \<^verbatim>\<open>Poly_Log_Seal\<close>: seal and resume.  \<^verbatim>\<open>Poly_Log_Types\<close>: the
    numbers of a reachable log fit the types of the program.
  \<^item> \<^verbatim>\<open>Poly_Audit\<close> and \<^verbatim>\<open>Poly_Replay\<close>: the two verifiers \<^verbatim>\<open>verify_audit_payload\<close> and
    \<^verbatim>\<open>verify_non_divergence\<close>.  \<^verbatim>\<open>Poly_Fill\<close> (\<^verbatim>\<open>filling.rs\<close>): a tree rebuilt from a seal and raw leaves.
  \<^item> \<^verbatim>\<open>Poly_Epoch_Tree\<close> (\<^verbatim>\<open>mutable.rs\<close>, \<^verbatim>\<open>eml/src/lib.rs\<close>, \<^verbatim>\<open>emt/src/lib.rs\<close>).
  \<^item> \<^verbatim>\<open>Store_Bytes\<close> and \<^verbatim>\<open>Store_Fjall\<close> (\<^verbatim>\<open>storage-fjall/src/lib.rs\<close>): the byte formats and the
    database backend.
  \<^item> The git backend \<^verbatim>\<open>storage-git\<close>: \<^verbatim>\<open>Store_Git_Layout\<close> (\<^verbatim>\<open>layout.rs\<close>), \<^verbatim>\<open>Store_Git_Objects\<close>
    (\<^verbatim>\<open>error.rs\<close> and the object helpers of \<^verbatim>\<open>gitutil.rs\<close>), \<^verbatim>\<open>Store_Git_Build\<close> (\<^verbatim>\<open>build.rs\<close>,
    \<^verbatim>\<open>read.rs\<close>), \<^verbatim>\<open>Store_Git\<close> (the \<^verbatim>\<open>Storage\<close> implementation, the reference update and the views of
    \<^verbatim>\<open>lib.rs\<close>) and \<^verbatim>\<open>Store_Git_Checkpoint\<close> (syncing, checkpoints, opening).  Its theory:
    \<^verbatim>\<open>Store_Git_Tree\<close> (a tree against the abstract store) and \<^verbatim>\<open>Store_Git_Apply\<close> (a batch refines
    the contract), \<^verbatim>\<open>Store_Git_Recovery\<close> (the walk between two trees, checkpoint and opening),
    \<^verbatim>\<open>Store_Git_Sync\<close> (the retries end, the order of a checkpoint), \<^verbatim>\<open>Store_Git_Log\<close> (a log over
    git), \<^verbatim>\<open>Store_Git_Memory\<close> (a repository in memory) and \<^verbatim>\<open>Store_Git_Props\<close> (the properties).

  \<^bold>\<open>Interfaces.\<close>  The locale \<open>bagging\<close> is what the seal asks of a bag function; it is interpreted
  on the log's bag (\<open>bag_peaks\<close>) and on the mutable tree's (\<open>rebalanced_bag\<close>).  \<open>lawful_storage\<close> is
  what the log asks of a store: reads answer from one abstract store, and an operation of the kind
  the log issues (\<open>op_fits\<close>) takes it to the next; it is interpreted on the in-memory store, under
  \<open>fjall_database\<close> on the database backend, and under \<open>git_repository\<close> on the git backend.
  \<open>fjall_database\<close> states the documented promises of the database package, and is interpreted on an
  ordered map.  The git package is the record \<open>gix\<close> of the calls the backend makes;
  \<open>git_objects\<close> states what is relied on of objects and tree editors (an object written reads back,
  no two collide, nothing written disappears), \<open>git_repository\<close> adds the compare-and-swap of a
  reference and \<open>git_durable\<close> listing, deleting and syncing; they are interpreted on the repository
  in memory, whose objects are named by their content.  That objects can be lost in a crash is
  not excluded: recovery is stated between the repository before and after (\<open>lost_objects\<close>).  The invariant of the log is proved over
  \<open>lawful_storage\<close>, so it holds over every backend.

  \<^bold>\<open>What the lemmas show.\<close>  Every reachable log holds, for every algorithm, exactly the frontier
  of its history, whatever was added, frozen or resumed; its queries give the reference roots of
  that history, live and historical, and its proofs are accepted by the verifiers.  Conversely an
  accepted proof determines what it claims up to an exhibited clash: either two different child
  lists with one folded digest (the fold collapses single and null children, so that such lists
  exist) or a collision of the hash.  Audit and replay decide exactly whether the reported roots are
  those of the raw data.  Seal, resume, reload and fill give back what was sealed or stored.  The
  error paths have their own properties: what makes a log unreadable, what a seal cannot prove,
  which honest payload an audit refuses.  The backends implement the storage contract, so all this
  holds of a log over them, and opening one again gives the log back; the git backend besides keeps
  every earlier tree readable, refuses a batch over a reference that moved, orders the syncs of a
  checkpoint so that a surviving checkpoint is whole, and opens after a crash with the newest state
  that survived.

  \<^bold>\<open>Reading the model.\<close>
  \<^item> A machine number is a \<open>nat\<close>; checked operations fail at \<open>2 ^ 64\<close>, wrapping ones have the
    modulus written out, and the sentinel \<^verbatim>\<open>u64::MAX\<close> is \<open>u64_max\<close>.  A byte is an \<open>8 word\<close>, a
    digest a list of bytes.
  \<^item> An error is \<open>Inl\<close>, its reason string a constructor.  A call that panics or does not return is
    \<open>None\<close>, or \<open>Panic\<close>, \<open>CmtPanic\<close>, \<open>LogStuck\<close>, \<open>GitStuck\<close> where the result type has errors.
    No fuel is used: a recursion without a structural argument has its \<open>termination\<close> proof, by the
    size or height that decreases; the null-run loops, which wrap and may not end, are
    \<open>partial_function\<close>s, and are proved to return up to \<open>2 ^ 63\<close> leaves; so are the retries of the
    reference update, proved to end, and the walk between two git trees, proved to return on
    trees without a cycle.
  \<^item> The hash map of the views is an association list in an arbitrary order; the \<^verbatim>\<open>BTreeMap\<close>s are
    lists with increasing keys; the sparse hash maps are partial functions.
  \<^item> \<^verbatim>\<open>async\<close> calls are plain calls.  A mutating call that fails leaves the log as it was, as in the
    source, which writes its fields after the store has accepted the batch.
  \<^item> An append is stated up to the capacity of the log: up to \<open>log_capacity\<close> items no operation on
    sizes wraps.  The stores count modulo \<open>2 ^ 64\<close>, as a release build does; \<open>op_fits\<close>, and
    \<open>counts_fit\<close> for a batch on the in-memory store, say where a count does not reach the limit, and
    \<open>memory_count_wraps\<close> shows what happens there.
  \<^item> The repository, with its clock and files, is threaded through the calls of the git backend; a
    call that fails gives no repository back, since what it wrote is not reached from any reference.
    Asked for a node outside the key range, which no call of the log does, the model's store answers
    that there is none (\<open>git_ops_of\<close>); the operation \<open>git_get_node\<close> itself panics there as the source does.

  \<^bold>\<open>Not modelled.\<close>  The concrete hash functions (SHA-256 of the \<^verbatim>\<open>sha2\<close> package is the parameter of the
  arity-2 instances).  The \<^verbatim>\<open>Display\<close> and \<^verbatim>\<open>Error\<close> implementations.  The debug assertions, which a
  release build drops.  What the git and database packages do inside, and the file system: they are
  parameters.  The fuzz targets, tests, benches and
  examples, which drive the code above, and the Lean development in the repository.
\<close>

end
